(* ===== verification/Prelude.thy ===== *)
theory Prelude
  imports Main "HOL-Library.Word"
begin

text \<open>
  Shared vocabulary of the development: machine sizes, address blocks and how often a
  list of blocks covers a byte, the ordered map the C++ code takes from \<open>std::map\<close>,
  rounding to an alignment, and a few list lemmas.  The component theories add their own
  facts to the collections declared here.
\<close>

named_theorems block_simps \<open>membership and cover of address blocks\<close>
named_theorems omap_simps \<open>the ordered-map operations\<close>
named_theorems size_simps \<open>64-bit size arithmetic that does not wrap\<close>

unbundle bit_operations_syntax

section \<open>Machine sizes\<close>

text \<open>
  \<open>size_t\<close> values are natural numbers below \<open>2 ^ 64\<close>; the operations that can
  leave the range are written with their wrap-around.
\<close>

abbreviation size_limit :: nat where
  "size_limit \<equiv> 2 ^ 64"

definition sz_add :: "nat \<Rightarrow> nat \<Rightarrow> nat" where
  "sz_add a b = (a + b) mod size_limit"

definition sz_mul :: "nat \<Rightarrow> nat \<Rightarrow> nat" where
  "sz_mul a b = (a * b) mod size_limit"

definition sz_sub :: "nat \<Rightarrow> nat \<Rightarrow> nat" where
  "sz_sub a b = (a + (size_limit - b mod size_limit)) mod size_limit"

lemma sz_add_exact [size_simps]: "a + b < size_limit \<Longrightarrow> sz_add a b = a + b"
  by (simp add: sz_add_def)

lemma sz_mul_exact [size_simps]: "a * b < size_limit \<Longrightarrow> sz_mul a b = a * b"
  by (simp add: sz_mul_def)

lemma sz_sub_exact [size_simps]:
  assumes "b \<le> a" and "a < size_limit"
  shows "sz_sub a b = a - b"
proof -
  have "b mod size_limit = b"
    using assms by simp
  moreover have "a + (size_limit - b) = (a - b) + size_limit"
    using assms by linarith
  ultimately have "sz_sub a b = ((a - b) + size_limit) mod size_limit"
    by (simp only: sz_sub_def)
  also have "\<dots> = a - b"
    using assms(2) by simp
  finally show ?thesis .
qed

lemma sz_add_less [simp, intro]: "sz_add a b < size_limit"
  by (simp add: sz_add_def)

text \<open>\<open>x & ~(a - 1)\<close> and \<open>(x + a - 1) & ~(a - 1)\<close> for \<open>a = 2 ^ k\<close>.\<close>

lemma unat_and_not_mask:
  fixes w :: "64 word"
  shows "unat (w AND NOT (mask k)) = unat w - unat w mod 2 ^ k"
proof -
  have tb: "w AND NOT (mask k) = w - take_bit k w"
  proof -
    have "w AND NOT (take_bit k w) = w AND NOT (mask k)"
      by (rule bit_word_eqI) (auto simp: bit_simps)
    moreover have "w AND NOT (take_bit k w) = w - take_bit k w"
      by (subst disjunctive_diff_eq_and_not) (auto intro: bit_word_eqI simp: bit_simps)
    ultimately show ?thesis by simp
  qed
  have le: "take_bit k w \<le> w"
    by (simp add: word_le_nat_alt unsigned_take_bit_eq take_bit_nat_less_eq_self)
  show ?thesis
    by (simp only: tb unat_sub [OF le] unsigned_take_bit_eq take_bit_eq_mod [where 'a = nat])
qed

section \<open>Rounding up to an alignment\<close>

definition round_to :: "nat \<Rightarrow> nat \<Rightarrow> nat" where
  "round_to a n = (n + a - 1) div a * a"

lemma round_to_ge: "0 < a \<Longrightarrow> n \<le> round_to a n"
proof -
  assume a: "0 < a"
  have "n + a - 1 = (n + a - 1) div a * a + (n + a - 1) mod a"
    by simp
  moreover have "(n + a - 1) mod a \<le> a - 1"
    using a by (metis Suc_pred' less_Suc_eq_le mod_less_divisor)
  ultimately show ?thesis
    using a unfolding round_to_def by linarith
qed

lemma round_to_less: "0 < a \<Longrightarrow> round_to a n < n + a"
  unfolding round_to_def
  by (metis Nat.add_diff_assoc One_nat_def Suc_leI add_gr_0 diff_less div_times_less_eq_dividend
      less_add_one order_le_less_trans zero_less_one)

lemma round_to_dvd [simp]: "a dvd round_to a n"
  by (simp add: round_to_def)

lemma round_to_pos: "0 < a \<Longrightarrow> 0 < n \<Longrightarrow> 0 < round_to a n"
  using round_to_ge [of a n] by simp

lemma round_to_least: "0 < a \<Longrightarrow> n \<le> m \<Longrightarrow> a dvd m \<Longrightarrow> round_to a n \<le> m"
proof -
  assume a: "0 < a" and nm: "n \<le> m" and d: "a dvd m"
  then obtain k where k: "m = a * k" by blast
  have "round_to a n < m + a"
    using round_to_less [OF a, of n] nm by simp
  moreover obtain j where j: "round_to a n = a * j"
    using round_to_dvd by blast
  ultimately have "a * j < a * (k + 1)"
    using k by simp
  then have "j < k + 1"
    using a by (simp only: mult_less_cancel1)
  then have "j \<le> k" by simp
  then show ?thesis
    using j k by simp
qed

section \<open>Blocks of bytes\<close>

text \<open>
  A block is a start offset and a length.  \<open>cover bs x\<close> counts the blocks of
  \<open>bs\<close> that hold byte \<open>x\<close>: blocks are pairwise disjoint where the cover is at
  most one, and they tile a region where it is one inside the region and zero outside.
\<close>

type_synonym block = "nat \<times> nat"

definition in_block :: "block \<Rightarrow> nat \<Rightarrow> bool" where
  "in_block b x \<longleftrightarrow> fst b \<le> x \<and> x < fst b + snd b"

definition disjoint_blocks :: "block \<Rightarrow> block \<Rightarrow> bool" where
  "disjoint_blocks b c \<longleftrightarrow> fst b + snd b \<le> fst c \<or> fst c + snd c \<le> fst b"

definition cover :: "block list \<Rightarrow> nat \<Rightarrow> nat" where
  "cover bs x = length (filter (\<lambda>b. in_block b x) bs)"

lemma disjoint_blocks_sym: "disjoint_blocks b c = disjoint_blocks c b"
  by (auto simp: disjoint_blocks_def)

lemma in_block_disjoint:
  "disjoint_blocks b c \<Longrightarrow> in_block b x \<Longrightarrow> in_block c x \<Longrightarrow> False"
  by (auto simp: disjoint_blocks_def in_block_def)

lemma disjoint_blocksI:
  assumes "0 < snd b" and "0 < snd c" and "\<And>x. \<not> (in_block b x \<and> in_block c x)"
  shows "disjoint_blocks b c"
proof (rule ccontr)
  assume "\<not> disjoint_blocks b c"
  then have "fst c < fst b + snd b" and "fst b < fst c + snd c"
    by (auto simp: disjoint_blocks_def)
  then have "in_block b (max (fst b) (fst c))" and "in_block c (max (fst b) (fst c))"
    using assms(1,2) by (auto simp: in_block_def max_def)
  with assms(3) show False by blast
qed

lemma cover_simps [block_simps, simp]:
  "cover [] x = 0"
  "cover (b # bs) x = of_bool (in_block b x) + cover bs x"
  "cover (bs @ cs) x = cover bs x + cover cs x"
  by (auto simp: cover_def)

lemma cover_pos: "b \<in> set bs \<Longrightarrow> in_block b x \<Longrightarrow> 0 < cover bs x"
  by (auto simp: cover_def intro!: Nat.gr0I dest!: filter_empty_conv [THEN iffD1, rotated])

lemma cover_pos_iff: "0 < cover bs x \<longleftrightarrow> (\<exists>b \<in> set bs. in_block b x)"
  by (induction bs) auto

lemma cover_two:
  assumes "i < length bs" and "j < length bs" and "i \<noteq> j"
    and "in_block (bs ! i) x" and "in_block (bs ! j) x"
  shows "2 \<le> cover bs x"
proof -
  have sub: "{i, j} \<subseteq> {k. k < length bs \<and> in_block (bs ! k) x}"
    using assms by auto
  have "cover bs x = card {k. k < length bs \<and> in_block (bs ! k) x}"
    by (simp add: cover_def length_filter_conv_card)
  moreover have "card {i, j} \<le> card {k. k < length bs \<and> in_block (bs ! k) x}"
    by (rule card_mono [OF _ sub]) simp
  ultimately show ?thesis
    using assms(3) by simp
qed

lemma cover_unique:
  assumes "cover bs x \<le> 1" and "b \<in> set bs" and "c \<in> set bs"
    and "in_block b x" and "in_block c x"
  shows "b = c"
proof (rule ccontr)
  assume "b \<noteq> c"
  moreover obtain i j where "i < length bs" "bs ! i = b" "j < length bs" "bs ! j = c"
    using assms(2,3) by (metis in_set_conv_nth)
  ultimately have "2 \<le> cover bs x"
    using assms(4,5) by (intro cover_two [of i bs j]) auto
  with assms(1) show False by simp
qed

text \<open>Bounded blocks with cover at most one have lengths that sum to at most the bound.\<close>

lemma sum_in_block:
  assumes "fst b + snd b \<le> N"
  shows "card ({..<N} \<inter> Collect (in_block b)) = snd b"
proof -
  have "{..<N} \<inter> Collect (in_block b) = {fst b ..< fst b + snd b}"
    using assms by (auto simp: in_block_def)
  then show ?thesis
    by simp
qed

lemma sum_cover:
  "\<forall>b \<in> set bs. fst b + snd b \<le> N \<Longrightarrow> (\<Sum>x<N. cover bs x) = sum_list (map snd bs)"
  by (induction bs) (simp_all add: sum.distrib sum_in_block)

lemma sum_lengths_le:
  assumes "\<forall>b \<in> set bs. fst b + snd b \<le> N" and "\<And>x. x < N \<Longrightarrow> cover bs x \<le> 1"
  shows "sum_list (map snd bs) \<le> N"
proof -
  have "(\<Sum>x<N. cover bs x) \<le> (\<Sum>x<N. 1)"
    by (rule sum_mono) (use assms(2) in auto)
  then show ?thesis
    using sum_cover [OF assms(1)] by simp
qed

section \<open>The ordered map of the C++ code\<close>

text \<open>
  \<open>std::map<size_t, size_t>\<close> as an association list in ascending key order, which is
  the order its iterators visit: \<open>om_put k v\<close> is \<open>m[k] = v\<close>, \<open>om_del k\<close> is
  \<open>m.erase(m.find(k))\<close>, \<open>om_lower_bound k\<close> is \<open>*m.lower_bound(k)\<close> (\<open>None\<close>
  for \<open>end()\<close>), and \<open>om_before k\<close> is the entry just before that position
  (\<open>None\<close> when the position is \<open>begin()\<close>).
\<close>

fun om_put :: "nat \<Rightarrow> nat \<Rightarrow> block list \<Rightarrow> block list" where
  "om_put k v [] = [(k, v)]"
| "om_put k v (p # ps) =
     (if k < fst p then (k, v) # p # ps
      else if k = fst p then (k, v) # ps
      else p # om_put k v ps)"

definition om_del :: "nat \<Rightarrow> block list \<Rightarrow> block list" where
  "om_del k m = filter (\<lambda>p. fst p \<noteq> k) m"

definition om_lower_bound :: "nat \<Rightarrow> block list \<Rightarrow> block option" where
  "om_lower_bound k m = find (\<lambda>p. k \<le> fst p) m"

definition om_before :: "nat \<Rightarrow> block list \<Rightarrow> block option" where
  "om_before k m = (let ps = filter (\<lambda>p. fst p < k) m in
     if ps = [] then None else Some (last ps))"

definition om_sorted :: "block list \<Rightarrow> bool" where
  "om_sorted m \<longleftrightarrow> sorted_wrt (<) (map fst m)"

lemma om_sorted_simps [omap_simps, simp]:
  "om_sorted []"
  "om_sorted (p # ps) \<longleftrightarrow> (\<forall>q \<in> set ps. fst p < fst q) \<and> om_sorted ps"
  by (auto simp: om_sorted_def)

lemma om_sorted_distinct: "om_sorted m \<Longrightarrow> distinct (map fst m)"
  by (simp add: om_sorted_def strict_sorted_iff)

lemma om_sorted_ext: "om_sorted m \<Longrightarrow> om_sorted m' \<Longrightarrow> set m = set m' \<Longrightarrow> m = m'"
proof (induction m arbitrary: m')
  case (Cons p m)
  then obtain q n where m': "m' = q # n" by (cases m') auto
  have "p = q"
  proof (rule ccontr)
    assume "p \<noteq> q"
    then have "p \<in> set n" and "q \<in> set m"
      using Cons.prems(3) m' by auto
    then have "fst p < fst q" and "fst q < fst p"
      using Cons.prems(1,2) m' by auto
    then show False by simp
  qed
  moreover have "p \<notin> set m" and "q \<notin> set n"
    using Cons.prems(1,2) m' by auto
  ultimately have "set m = set n"
    using Cons.prems(3) m' by auto
  then show ?case
    using Cons.IH [of n] Cons.prems m' \<open>p = q\<close> by simp
qed simp

lemma om_get_iff: "om_sorted m \<Longrightarrow> map_of m k = Some v \<longleftrightarrow> (k, v) \<in> set m"
  by (simp add: om_sorted_distinct)

lemma om_get_None: "map_of m k = None \<Longrightarrow> (k, v) \<notin> set m"
  by (metis fst_conv imageI map_of_eq_None_iff)

lemma set_om_put: "om_sorted m \<Longrightarrow> set (om_put k v m) = insert (k, v) {p \<in> set m. fst p \<noteq> k}"
  by (induction m) force+

lemma om_sorted_put [omap_simps, simp]: "om_sorted m \<Longrightarrow> om_sorted (om_put k v m)"
  by (induction m) (auto simp: set_om_put)

lemma map_of_om_put [omap_simps, simp]:
  "om_sorted m \<Longrightarrow> map_of (om_put k v m) = (map_of m)(k \<mapsto> v)"
  by (induction m) (auto simp: fun_eq_iff)

lemma set_om_del [omap_simps, simp]: "set (om_del k m) = {p \<in> set m. fst p \<noteq> k}"
  by (auto simp: om_del_def)

lemma om_sorted_del [omap_simps, simp]: "om_sorted m \<Longrightarrow> om_sorted (om_del k m)"
  by (induction m) (auto simp: om_del_def)

lemma map_of_om_del [omap_simps, simp]: "map_of (om_del k m) = (map_of m)(k := None)"
  by (induction m) (auto simp: om_del_def fun_eq_iff)

lemma set_om_del_live:
  assumes "om_sorted m" and "map_of m k = Some v"
  shows "set (om_del k m) = set m - {(k, v)}"
proof -
  have "w = v" if "(k, w) \<in> set m" for w
    using that assms by (metis om_get_iff option.inject)
  moreover have "p \<in> set m \<and> fst p \<noteq> k \<longleftrightarrow> p \<in> set m - {(k, v)}" for p
    using calculation by (cases p) auto
  ultimately show ?thesis
    by (simp only: set_om_del) blast
qed

lemma om_del_fresh: "map_of m k = None \<Longrightarrow> om_del k m = m"
  by (auto simp: om_del_def map_of_eq_None_iff intro!: filter_True)

lemma cover_put:
  "om_sorted m \<Longrightarrow> map_of m k = None
    \<Longrightarrow> cover (om_put k v m) x = of_bool (in_block (k, v) x) + cover m x"
  by (induction m) (auto split: if_splits)

lemma cover_put_over:
  "om_sorted m \<Longrightarrow> map_of m k = Some w
    \<Longrightarrow> cover (om_put k v m) x + of_bool (in_block (k, w) x)
        = of_bool (in_block (k, v) x) + cover m x"
proof (induction m)
  case (Cons p m)
  then show ?case by (cases p) (auto split: if_splits dest!: map_of_SomeD)
qed simp

lemma cover_del:
  "om_sorted m \<Longrightarrow> map_of m k = Some v
    \<Longrightarrow> cover (om_del k m) x + of_bool (in_block (k, v) x) = cover m x"
proof (induction m)
  case (Cons p m)
  then show ?case
  proof (cases "fst p = k")
    case True
    then have "map_of m k = None"
      using Cons.prems(1) by (auto simp: map_of_eq_None_iff)
    then have "om_del k (p # m) = m"
      using True by (simp add: om_del_def om_del_fresh [unfolded om_del_def])
    moreover have "p = (k, v)"
      using Cons.prems(2) True by (cases p) simp
    ultimately show ?thesis by simp
  next
    case False
    then have "om_del k (p # m) = p # om_del k m"
      by (simp add: om_del_def)
    moreover have "map_of m k = Some v" and "om_sorted m"
      using Cons.prems False by (cases p; simp)+
    ultimately show ?thesis
      using Cons.IH by simp
  qed
qed simp

lemma sum_lengths_put:
  "om_sorted m \<Longrightarrow> map_of m k = None
    \<Longrightarrow> sum_list (map snd (om_put k v m)) = v + sum_list (map snd m)"
  by (induction m) (auto split: if_splits)

lemma sum_lengths_del:
  "om_sorted m \<Longrightarrow> map_of m k = Some v
    \<Longrightarrow> sum_list (map snd (om_del k m)) + v = sum_list (map snd m)"
proof (induction m)
  case (Cons p m)
  show ?case
  proof (cases "fst p = k")
    case True
    then have "map_of m k = None"
      using Cons.prems(1) by (auto simp: map_of_eq_None_iff)
    then have "om_del k (p # m) = m"
      using True by (simp add: om_del_def om_del_fresh [unfolded om_del_def])
    moreover have "p = (k, v)"
      using Cons.prems(2) True by (cases p) simp
    ultimately show ?thesis by simp
  next
    case False
    then have "om_del k (p # m) = p # om_del k m"
      by (simp add: om_del_def)
    moreover have "map_of m k = Some v" and "om_sorted m"
      using Cons.prems False by (cases p; simp)+
    ultimately show ?thesis
      using Cons.IH by simp
  qed
qed simp

lemma om_lower_bound_SomeD:
  assumes "om_lower_bound k m = Some p"
  shows "p \<in> set m" and "k \<le> fst p"
  using assms by (auto simp: om_lower_bound_def find_Some_iff)

lemma om_lower_bound_least:
  assumes "om_sorted m" and "om_lower_bound k m = Some p" and "q \<in> set m" and "k \<le> fst q"
  shows "fst p \<le> fst q"
  using assms by (induction m) (auto simp: om_lower_bound_def split: if_splits)

lemma om_lower_bound_None: "om_lower_bound k m = None \<Longrightarrow> q \<in> set m \<Longrightarrow> fst q < k"
  by (cases q) (force simp: om_lower_bound_def find_None_iff)

lemma om_before_SomeD:
  assumes "om_before k m = Some p"
  shows "p \<in> set m" and "fst p < k"
proof -
  let ?ps = "filter (\<lambda>p. fst p < k) m"
  have "?ps \<noteq> []" and "p = last ?ps"
    using assms by (auto simp: om_before_def Let_def split: if_splits)
  then have "p \<in> set ?ps"
    by (metis last_in_set)
  then show "p \<in> set m" and "fst p < k"
    by auto
qed

lemma om_before_greatest:
  assumes "om_sorted m" and "q \<in> set m" and "fst q < k"
  shows "\<exists>p. om_before k m = Some p \<and> fst q \<le> fst p"
proof -
  let ?ps = "filter (\<lambda>p. fst p < k) m"
  have q: "q \<in> set ?ps"
    using assms by simp
  then have ne: "?ps \<noteq> []" by force
  then obtain xs l where split: "?ps = xs @ [l]"
    using rev_exhaust by blast
  have "om_sorted ?ps"
    using assms(1) by (induction m) auto
  then have "\<forall>x \<in> set xs. fst x < fst l"
    unfolding split by (auto simp: om_sorted_def sorted_wrt_append)
  then have "fst q \<le> fst (last ?ps)"
    using q unfolding split by (auto simp: less_imp_le)
  then show ?thesis
    using ne by (simp add: om_before_def Let_def)
qed

end
