(* ===== verification/Memref_IR.thy ===== *)
theory Memref_IR
  imports Prelude "HOL-Library.Multiset"
begin

text \<open>
  The part of the compiler's IR the buffer passes read and rewrite: memref types, SSA
  values, the operations of one basic block in order, and the builder that inserts
  operations before a point of the block.  A block is the list of its operations with
  their identities; an operation's place is its position in that list, which is what
  \<open>Operation::isBeforeInBlock\<close> compares in a single-block function.

  \<open>arith\<close> operations on \<open>index\<close> compute on 64-bit words.  An assignment of words to
  values is consistent with a block when every arithmetic operation of the block has the
  value it computes.  The folder of \<open>OpBuilder::createOrFold\<close> belongs to MLIR; it is an
  argument of the definitions that use it.

  Also here are the shared buffer utilities of
  \<open>lib/Dialect/Transforms/BufferUtils.cpp\<close>.
\<close>

named_theorems ir_simps \<open>reading an extended block\<close>

section \<open>Types and sizes\<close>

text \<open>
  Sizes are \<open>int64_t\<close> in the code and unbounded integers here; \<open>Packing_Int64\<close> has the size of a
  type as the code computes it.  A dimension is \<open>None\<close> where the shape says \<open>?\<close>.\<close>

record memref_type =
  mt_shape :: "int option list"
  mt_bits :: int

definition divide_ceil :: "int \<Rightarrow> int \<Rightarrow> int" where
  "divide_ceil n d = (n + d - 1) div d"

definition align_to :: "int \<Rightarrow> int \<Rightarrow> int" where
  "align_to n a = divide_ceil n a * a"

definition has_static_shape :: "memref_type \<Rightarrow> bool" where
  "has_static_shape t = (\<forall>d \<in> set (mt_shape t). d \<noteq> None)"

definition num_elements :: "memref_type \<Rightarrow> int" where
  "num_elements t = foldl (\<lambda>n d. n * the d) 1 (mt_shape t)"

definition get_static_byte_size :: "memref_type \<Rightarrow> int" where
  "get_static_byte_size t =
     (if \<not> has_static_shape t then 0 else divide_ceil (num_elements t * mt_bits t) 8)"

definition static_factor_bytes :: "memref_type \<Rightarrow> int" where
  "static_factor_bytes t =
     (let static_elems = foldl (\<lambda>n d. case d of None \<Rightarrow> n | Some k \<Rightarrow> n * k) 1 (mt_shape t)
      in divide_ceil (static_elems * mt_bits t) 8)"

text \<open>
  \<open>isContiguousRowMajor\<close>: strides are compared from the innermost dimension;
  \<open>MulOverflow\<close> reports a product outside \<open>int64_t\<close>.
\<close>

definition fits_int64 :: "int \<Rightarrow> bool" where
  "fits_int64 n \<longleftrightarrow> - (2 ^ 63) \<le> n \<and> n < 2 ^ 63"

fun contiguous_from :: "int \<Rightarrow> (int \<times> int) list \<Rightarrow> bool" where
  "contiguous_from expected [] = True"
| "contiguous_from expected ((extent, stride) # rest) =
     (if extent < 0 then False
      else if extent = 1 then contiguous_from expected rest
      else if stride \<noteq> expected \<or> \<not> fits_int64 (expected * extent) then False
      else contiguous_from (expected * extent) rest)"

definition is_contiguous_row_major :: "int list \<Rightarrow> int list \<Rightarrow> bool" where
  "is_contiguous_row_major shape strides =
     (if length shape \<noteq> length strides then False
      else contiguous_from 1 (rev (zip shape strides)))"

section \<open>Values, operations, blocks\<close>

datatype val = Res nat nat | Arg nat

datatype binop = Mul_i | Add_i | Max_ui | Div_ui

text \<open>
  \<open>Other\<close> is any other operation: its own operands, and the operands of the operations
  in its regions, each with whether that nested user is a \<open>memref.dealloc\<close>.
\<close>

datatype ir_op =
    Const_index int
  | Bin binop val val
  | Get_pool val val nat
  | View memref_type val val "val list"
  | Alloc memref_type "val list"
  | Dealloc val
  | Other "val list" "(bool \<times> val) list"

fun operands :: "ir_op \<Rightarrow> val list" where
  "operands (Const_index c) = []"
| "operands (Bin b x y) = [x, y]"
| "operands (Get_pool c sz d) = [c, sz]"
| "operands (View t p off dyn) = p # off # dyn"
| "operands (Alloc t dyn) = dyn"
| "operands (Dealloc v) = [v]"
| "operands (Other vs nested) = vs @ map snd nested"

type_synonym block_ops = "(nat \<times> ir_op) list"

record ir =
  ir_block :: block_ops
  ir_next :: nat

definition op_pos :: "block_ops \<Rightarrow> nat \<Rightarrow> nat" where
  "op_pos blk a = length (takeWhile (\<lambda>x. fst x \<noteq> a) blk)"

definition is_before :: "block_ops \<Rightarrow> nat \<Rightarrow> nat \<Rightarrow> bool" where
  "is_before blk a b \<longleftrightarrow> op_pos blk a < op_pos blk b"

fun defining_op :: "val \<Rightarrow> nat option" where
  "defining_op (Res a k) = Some a"
| "defining_op (Arg k) = None"

text \<open>A block iterator: an operation of the block, or its end.\<close>

datatype ipoint = Before nat | Block_end

fun ip_pos :: "block_ops \<Rightarrow> ipoint \<Rightarrow> nat" where
  "ip_pos blk (Before a) = op_pos blk a"
| "ip_pos blk Block_end = length blk"

definition next_point :: "block_ops \<Rightarrow> nat \<Rightarrow> ipoint" where
  "next_point blk a =
     (let i = Suc (op_pos blk a) in if i < length blk then Before (fst (blk ! i)) else Block_end)"

section \<open>The builder\<close>

definition create :: "ir \<Rightarrow> ipoint \<Rightarrow> ir_op \<Rightarrow> val \<times> ir" where
  "create s ip op =
     (let p = ip_pos (ir_block s) ip in
      (Res (ir_next s) 0,
       s\<lparr>ir_block := take p (ir_block s) @ (ir_next s, op) # drop p (ir_block s),
         ir_next := Suc (ir_next s)\<rparr>))"

text \<open>
  What the folder answers for an operation about to be created: nothing, an existing
  value, or a constant to materialise at the insertion point.
\<close>

datatype fold_result = No_fold | Fold_value val | Fold_const int

type_synonym folder = "ir \<Rightarrow> binop \<Rightarrow> val \<Rightarrow> val \<Rightarrow> fold_result"

definition create_or_fold :: "folder \<Rightarrow> ir \<Rightarrow> ipoint \<Rightarrow> binop \<Rightarrow> val \<Rightarrow> val \<Rightarrow> val \<times> ir" where
  "create_or_fold fo s ip b x y =
     (case fo s b x y of
        No_fold \<Rightarrow> create s ip (Bin b x y)
      | Fold_value v \<Rightarrow> (v, s)
      | Fold_const c \<Rightarrow> create s ip (Const_index c))"

definition emit_align_up :: "folder \<Rightarrow> ir \<Rightarrow> ipoint \<Rightarrow> val \<Rightarrow> int \<Rightarrow> val \<times> ir" where
  "emit_align_up fo s ip value alignment =
     (if alignment \<le> 1 then (value, s)
      else
        let (align_m1, s1) = create s ip (Const_index (alignment - 1));
            (align_const, s2) = create s1 ip (Const_index alignment);
            (sum, s3) = create_or_fold fo s2 ip Add_i value align_m1;
            (divided, s4) = create_or_fold fo s3 ip Div_ui sum align_const
        in create_or_fold fo s4 ip Mul_i divided align_const)"

text \<open>\<open>Operation::replaceAllUsesWith\<close>: the results of \<open>old\<close> become those of \<open>new\<close>.\<close>

fun subst_val :: "nat \<Rightarrow> nat \<Rightarrow> val \<Rightarrow> val" where
  "subst_val old new (Res a k) = Res (if a = old then new else a) k"
| "subst_val old new (Arg k) = Arg k"

fun subst_op :: "nat \<Rightarrow> nat \<Rightarrow> ir_op \<Rightarrow> ir_op" where
  "subst_op old new (Const_index c) = Const_index c"
| "subst_op old new (Bin b x y) = Bin b (subst_val old new x) (subst_val old new y)"
| "subst_op old new (Get_pool c sz d) =
     Get_pool (subst_val old new c) (subst_val old new sz) d"
| "subst_op old new (View t p off dyn) =
     View t (subst_val old new p) (subst_val old new off) (map (subst_val old new) dyn)"
| "subst_op old new (Alloc t dyn) = Alloc t (map (subst_val old new) dyn)"
| "subst_op old new (Dealloc v) = Dealloc (subst_val old new v)"
| "subst_op old new (Other vs nested) =
     Other (map (subst_val old new) vs) (map (\<lambda>(d, v). (d, subst_val old new v)) nested)"

definition replace_all_uses :: "nat \<Rightarrow> nat \<Rightarrow> ir \<Rightarrow> ir" where
  "replace_all_uses old new s =
     s\<lparr>ir_block := map (\<lambda>(a, op). (a, subst_op old new op)) (ir_block s)\<rparr>"

definition erase_op :: "nat \<Rightarrow> ir \<Rightarrow> ir" where
  "erase_op a s = s\<lparr>ir_block := filter (\<lambda>x. fst x \<noteq> a) (ir_block s)\<rparr>"

section \<open>Users and liveness\<close>

text \<open>A user of a value: an operation of the block, one in a region of such an operation,
  or one no ancestor of which is in the block.\<close>

datatype user = In_block nat | Nested_in nat | Unreachable

type_synonym users = "val \<Rightarrow> (bool \<times> user) list"

definition op_users :: "nat \<Rightarrow> ir_op \<Rightarrow> val \<Rightarrow> (bool \<times> user) list" where
  "op_users a op v =
     (case op of
        Dealloc w \<Rightarrow> (if w = v then [(True, In_block a)] else [])
      | Other vs nested \<Rightarrow>
          map (\<lambda>_. (False, In_block a)) (filter (\<lambda>w. w = v) vs) @
          map (\<lambda>(d, _). (d, Nested_in a)) (filter (\<lambda>(d, w). w = v) nested)
      | _ \<Rightarrow> map (\<lambda>_. (False, In_block a)) (filter (\<lambda>w. w = v) (operands op)))"

definition users_of :: "block_ops \<Rightarrow> users" where
  "users_of blk v = concat (map (\<lambda>(a, op). op_users a op v) blk)"

fun user_index :: "(nat \<Rightarrow> nat) \<Rightarrow> nat \<Rightarrow> user \<Rightarrow> nat" where
  "user_index op_index block_size (In_block a) = op_index a"
| "user_index op_index block_size (Nested_in a) = op_index a"
| "user_index op_index block_size Unreachable = block_size - 1"

text \<open>\<open>resolve\<close> is the forward alias set of \<open>BufferViewFlowAnalysis\<close>.\<close>

definition find_last_aliased_use_index ::
  "(val \<Rightarrow> val list) \<Rightarrow> users \<Rightarrow> (nat \<Rightarrow> nat) \<Rightarrow> nat \<Rightarrow> val \<Rightarrow> nat" where
  "find_last_aliased_use_index resolve users op_index block_size alloc_result =
     foldl (\<lambda>last alias.
        foldl (\<lambda>last (is_dealloc, u).
           if is_dealloc then last else max last (user_index op_index block_size u))
          last (users alias))
       0 (resolve alloc_result)"

fun user_ancestor :: "user \<Rightarrow> nat option" where
  "user_ancestor (In_block a) = Some a"
| "user_ancestor (Nested_in a) = Some a"
| "user_ancestor Unreachable = None"

definition find_last_aliased_user ::
  "(val \<Rightarrow> val list) \<Rightarrow> users \<Rightarrow> block_ops \<Rightarrow> nat \<Rightarrow> val \<Rightarrow> nat" where
  "find_last_aliased_user resolve users blk def_op alloc_result =
     foldl (\<lambda>last alias.
        foldl (\<lambda>last (is_dealloc, u).
           case user_ancestor u of
             None \<Rightarrow> last
           | Some a \<Rightarrow> (if is_before blk last a then a else last))
          last (users alias))
       def_op (resolve alloc_result)"

definition is_alias_in_set :: "(val \<Rightarrow> val list) \<Rightarrow> val \<Rightarrow> val set \<Rightarrow> bool" where
  "is_alias_in_set resolve root S = list_ex (\<lambda>alias. alias \<in> S) (resolve root)"

section \<open>Evaluation\<close>

type_synonym assignment = "val \<Rightarrow> 64 word"

fun bin_word :: "binop \<Rightarrow> 64 word \<Rightarrow> 64 word \<Rightarrow> 64 word" where
  "bin_word Mul_i x y = x * y"
| "bin_word Add_i x y = x + y"
| "bin_word Max_ui x y = max x y"
| "bin_word Div_ui x y = x div y"

fun op_holds :: "assignment \<Rightarrow> nat \<Rightarrow> ir_op \<Rightarrow> bool" where
  "op_holds \<rho> a (Const_index c) = (\<rho> (Res a 0) = word_of_int c)"
| "op_holds \<rho> a (Bin b x y) = (\<rho> (Res a 0) = bin_word b (\<rho> x) (\<rho> y))"
| "op_holds \<rho> a _ = True"

definition consistent :: "assignment \<Rightarrow> ir \<Rightarrow> bool" where
  "consistent \<rho> s = (\<forall>(a, op) \<in> set (ir_block s). op_holds \<rho> a op)"

section \<open>Well-formed blocks\<close>

text \<open>
  \<open>val_pos\<close> is the first position at which a value may be used: after its defining
  operation, or from the start for a block argument.  A block is in SSA form when its
  operations have distinct identities and every operand is available where it is used.
\<close>

fun val_pos :: "block_ops \<Rightarrow> val \<Rightarrow> nat" where
  "val_pos blk (Arg k) = 0"
| "val_pos blk (Res a k) = Suc (op_pos blk a)"

definition available :: "block_ops \<Rightarrow> ipoint \<Rightarrow> val \<Rightarrow> bool" where
  "available blk ip v \<longleftrightarrow> val_pos blk v \<le> ip_pos blk ip"

definition ssa_ok :: "block_ops \<Rightarrow> bool" where
  "ssa_ok blk \<longleftrightarrow> distinct (map fst blk) \<and>
     (\<forall>i < length blk. \<forall>v \<in> set (operands (snd (blk ! i))). val_pos blk v \<le> i)"

text \<open>
  Typing, as far as it is used: the operands of arithmetic, sizes and offsets are
  \<open>index\<close> values, so not memrefs, and a \<open>memref.dealloc\<close> has no result to refer to.
\<close>

definition index_value :: "ir \<Rightarrow> val \<Rightarrow> bool" where
  "index_value s v =
     (case defining_op v of
        None \<Rightarrow> True
      | Some a \<Rightarrow>
          (case map_of (ir_block s) a of
             Some (Alloc t dyn) \<Rightarrow> False
           | Some (View t p off dyn) \<Rightarrow> False
           | Some (Get_pool c sz d) \<Rightarrow> False
           | Some (Dealloc m) \<Rightarrow> False
           | _ \<Rightarrow> True))"

definition has_result :: "ir \<Rightarrow> val \<Rightarrow> bool" where
  "has_result s v =
     (case defining_op v of
        None \<Rightarrow> True
      | Some a \<Rightarrow> (case map_of (ir_block s) a of Some (Dealloc m) \<Rightarrow> False | _ \<Rightarrow> True))"

fun index_operands :: "ir_op \<Rightarrow> val list" where
  "index_operands (Bin b x y) = [x, y]"
| "index_operands (Get_pool c sz d) = [sz]"
| "index_operands (View t p off dyn) = off # dyn"
| "index_operands (Alloc t dyn) = dyn"
| "index_operands _ = []"

definition op_typed :: "ir \<Rightarrow> ir_op \<Rightarrow> bool" where
  "op_typed s op \<longleftrightarrow> (\<forall>v \<in> set (index_operands op). index_value s v) \<and>
     (\<forall>v \<in> set (operands op). has_result s v)"

definition wf_ir :: "ir \<Rightarrow> bool" where
  "wf_ir s \<longleftrightarrow> ssa_ok (ir_block s) \<and> (\<forall>a \<in> set (map fst (ir_block s)). a < ir_next s) \<and>
     (\<forall>x \<in> set (ir_block s). op_typed s (snd x))"

text \<open>
  What the builder relies on when it folds: the answer has the value of the operation in
  every consistent assignment, and an existing value is an \<open>index\<close> available no later
  than one of the operands.
\<close>

definition folder_ok :: "folder \<Rightarrow> bool" where
  "folder_ok fo \<longleftrightarrow> (\<forall>s b x y. wf_ir s \<longrightarrow>
     (case fo s b x y of
        No_fold \<Rightarrow> True
      | Fold_value v \<Rightarrow>
          (\<forall>\<rho>. consistent \<rho> s \<longrightarrow> \<rho> v = bin_word b (\<rho> x) (\<rho> y)) \<and>
          val_pos (ir_block s) v \<le> max (val_pos (ir_block s) x) (val_pos (ir_block s) y) \<and>
          (index_value s x \<longrightarrow> index_value s y \<longrightarrow> index_value s v)
      | Fold_const c \<Rightarrow>
          (\<forall>\<rho>. consistent \<rho> s \<longrightarrow> word_of_int c = bin_word b (\<rho> x) (\<rho> y))))"

section \<open>Positions\<close>

lemma op_pos_le: "op_pos blk a \<le> length blk"
  by (simp add: op_pos_def length_takeWhile_le)

lemma op_pos_less_iff: "op_pos blk a < length blk \<longleftrightarrow> a \<in> fst ` set blk"
proof
  assume "op_pos blk a < length blk"
  then have "fst (blk ! op_pos blk a) = a"
    using nth_length_takeWhile [of "\<lambda>x. fst x \<noteq> a" blk] by (simp add: op_pos_def)
  then show "a \<in> fst ` set blk"
    using \<open>op_pos blk a < length blk\<close> by (metis image_eqI nth_mem)
next
  assume "a \<in> fst ` set blk"
  then show "op_pos blk a < length blk"
    unfolding op_pos_def by (induction blk) auto
qed

lemma op_pos_nth: "a \<in> fst ` set blk \<Longrightarrow> fst (blk ! op_pos blk a) = a"
  using nth_length_takeWhile [of "\<lambda>x. fst x \<noteq> a" blk] op_pos_less_iff [of blk a]
  by (simp add: op_pos_def)

lemma op_pos_Nil [simp]: "op_pos [] a = 0"
  by (simp add: op_pos_def)

lemma op_pos_Cons: "op_pos (x # blk) a = (if fst x = a then 0 else Suc (op_pos blk a))"
  by (simp add: op_pos_def)

lemma op_pos_append:
  "op_pos (xs @ ys) a = (if a \<in> fst ` set xs then op_pos xs a else length xs + op_pos ys a)"
  by (induction xs) (auto simp: op_pos_Cons)

lemma op_pos_at:
  "distinct (map fst blk) \<Longrightarrow> i < length blk \<Longrightarrow> op_pos blk (fst (blk ! i)) = i"
proof (induction blk arbitrary: i)
  case (Cons x blk)
  then show ?case
    by (cases i) (auto simp: op_pos_Cons dest: nth_mem)
qed simp

lemma op_pos_inj:
  "a \<in> fst ` set blk \<Longrightarrow> op_pos blk a = op_pos blk b \<Longrightarrow> a = b"
  by (metis op_pos_less_iff op_pos_nth)

lemma op_pos_insert:
  assumes "p \<le> length blk" and "x \<notin> fst ` set blk" and "a \<noteq> x"
  shows "op_pos (take p blk @ (x, op) # drop p blk) a =
    (if op_pos blk a < p then op_pos blk a else Suc (op_pos blk a))"
proof -
  define xs ys where "xs = take p blk" and "ys = drop p blk"
  have blk: "blk = xs @ ys" and len: "length xs = p"
    using assms(1) by (simp_all add: xs_def ys_def)
  show ?thesis
  proof (cases "a \<in> fst ` set xs")
    case True
    then have "op_pos xs a < p"
      using op_pos_less_iff [of xs a] len by simp
    then show ?thesis
      using True by (simp add: blk op_pos_append len)
  next
    case False
    then show ?thesis
      using assms(3) by (simp add: blk op_pos_append op_pos_Cons len)
  qed
qed

lemma op_pos_inserted:
  "p \<le> length blk \<Longrightarrow> x \<notin> fst ` set blk \<Longrightarrow>
   op_pos (take p blk @ (x, op) # drop p blk) x = p"
  by (auto simp: op_pos_append op_pos_Cons dest: in_set_takeD)

lemma ip_pos_le: "ip_pos blk ip \<le> length blk"
  by (cases ip) (simp_all add: op_pos_le)

section \<open>Growing a block\<close>

text \<open>
  \<open>extends s s'\<close>: operations were only inserted, with new identities, and the order of
  the old ones is unchanged.
\<close>

definition ids :: "ir \<Rightarrow> nat set" where
  "ids s = fst ` set (ir_block s)"

definition extends :: "ir \<Rightarrow> ir \<Rightarrow> bool" where
  "extends s s' \<longleftrightarrow> ir_next s \<le> ir_next s' \<and> set (ir_block s) \<subseteq> set (ir_block s') \<and>
     (\<forall>x \<in> set (ir_block s'). x \<notin> set (ir_block s) \<longrightarrow> ir_next s \<le> fst x) \<and>
     (\<forall>a b. b \<in> ids s \<longrightarrow> op_pos (ir_block s) a < op_pos (ir_block s) b \<longrightarrow>
        op_pos (ir_block s') a < op_pos (ir_block s') b)"

lemma extends_refl [simp, intro]: "extends s s"
  by (simp add: extends_def)

lemma extends_ids: "extends s s' \<Longrightarrow> ids s \<subseteq> ids s'"
  by (auto simp: extends_def ids_def)

lemma extends_trans [trans]: "extends s t \<Longrightarrow> extends t u \<Longrightarrow> extends s u"
proof -
  assume st: "extends s t" and tu: "extends t u"
  have "\<forall>x \<in> set (ir_block u). x \<notin> set (ir_block s) \<longrightarrow> ir_next s \<le> fst x"
  proof (intro ballI impI)
    fix x assume "x \<in> set (ir_block u)" "x \<notin> set (ir_block s)"
    then show "ir_next s \<le> fst x"
      using st tu unfolding extends_def by (cases "x \<in> set (ir_block t)") (blast intro: order_trans)+
  qed
  moreover have "\<forall>a b. b \<in> ids s \<longrightarrow> op_pos (ir_block s) a < op_pos (ir_block s) b \<longrightarrow>
      op_pos (ir_block u) a < op_pos (ir_block u) b"
    using st tu extends_ids [OF st] unfolding extends_def by blast
  ultimately show ?thesis
    using st tu unfolding extends_def by (meson order_trans subset_trans)
qed

lemma extends_consistent: "extends s s' \<Longrightarrow> consistent \<rho> s' \<Longrightarrow> consistent \<rho> s"
  unfolding extends_def consistent_def by blast

lemma extends_available:
  assumes "extends s s'" and "b \<in> ids s" and "available (ir_block s) (Before b) v"
  shows "available (ir_block s') (Before b) v"
  using assms by (cases v) (auto simp: available_def extends_def Suc_le_eq)

section \<open>One created operation\<close>

lemma set_ids: "x \<in> set (ir_block s) \<Longrightarrow> fst x \<in> ids s"
  by (simp add: ids_def)

lemma wf_ir_distinct: "wf_ir s \<Longrightarrow> distinct (map fst (ir_block s))"
  by (simp add: wf_ir_def ssa_ok_def)

lemma wf_ir_ids_less: "wf_ir s \<Longrightarrow> a \<in> ids s \<Longrightarrow> a < ir_next s"
  by (auto simp: wf_ir_def ids_def)

lemma wf_ir_map_of:
  "wf_ir s \<Longrightarrow> (a, op) \<in> set (ir_block s) \<Longrightarrow> map_of (ir_block s) a = Some op"
  by (simp add: wf_ir_distinct)

lemma wf_ir_available:
  "wf_ir s \<Longrightarrow> (a, op) \<in> set (ir_block s) \<Longrightarrow> v \<in> set (operands op) \<Longrightarrow>
   available (ir_block s) (Before a) v"
  unfolding available_def wf_ir_def ssa_ok_def
  by (metis fst_conv in_set_conv_nth ip_pos.simps(1) op_pos_at snd_conv)

definition insert_op :: "nat \<Rightarrow> nat \<times> ir_op \<Rightarrow> block_ops \<Rightarrow> block_ops" where
  "insert_op p x blk = take p blk @ x # drop p blk"

lemma set_insert_op [simp]: "set (insert_op p x blk) = insert x (set blk)"
  unfolding insert_op_def by (metis append_take_drop_id list.simps(15) Un_insert_right set_append)

lemma nth_insert_op:
  "p \<le> length blk \<Longrightarrow> i \<le> length blk \<Longrightarrow> insert_op p x blk ! i =
   (if i < p then blk ! i else if i = p then x else blk ! (i - 1))"
  unfolding insert_op_def
  by (auto simp: nth_append nth_Cons split: nat.split intro!: arg_cong [of _ _ "nth blk"])

lemma length_insert_op [simp]: "length (insert_op p x blk) = Suc (length blk)"
  unfolding insert_op_def by simp

lemma distinct_insert_op:
  "distinct (map fst (insert_op p x blk)) \<longleftrightarrow> fst x \<notin> fst ` set blk \<and> distinct (map fst blk)"
proof -
  have "mset (insert_op p x blk) = mset (x # blk)"
    unfolding insert_op_def by (metis append_take_drop_id mset_append mset.simps(2)
        union_mset_add_mset_right)
  then have "mset (map fst (insert_op p x blk)) = mset (map fst (x # blk))"
    by (metis mset_map)
  then have "distinct (map fst (insert_op p x blk)) = distinct (map fst (x # blk))"
    by (rule mset_eq_imp_distinct_iff)
  then show ?thesis
    by (simp only: list.map distinct.simps set_map)
qed

lemma val_pos_insert_op:
  assumes "p \<le> length blk" and "x \<notin> fst ` set blk"
    and "i \<le> length blk" and "val_pos blk v \<le> i"
  shows "val_pos (insert_op p (x, op) blk) v \<le> (if i < p then i else Suc i)"
    and "i \<le> p \<Longrightarrow> val_pos (insert_op p (x, op) blk) v \<le> i"
proof -
  have "val_pos (insert_op p (x, op) blk) v \<le> (if i < p then i else Suc i) \<and>
      (i \<le> p \<longrightarrow> val_pos (insert_op p (x, op) blk) v \<le> i)"
  proof (cases v)
    case (Res a k)
    have "op_pos blk a < length blk"
      using assms Res by simp
    then have "a \<noteq> x"
      using assms(2) op_pos_less_iff [of blk a] by blast
    then show ?thesis
      using op_pos_insert [OF assms(1,2), of a op] assms Res by (simp add: insert_op_def)
  qed simp
  then show "val_pos (insert_op p (x, op) blk) v \<le> (if i < p then i else Suc i)"
    and "i \<le> p \<Longrightarrow> val_pos (insert_op p (x, op) blk) v \<le> i"
    by blast+
qed

lemma ssa_ok_insert_op:
  assumes "ssa_ok blk" and "p \<le> length blk" and "x \<notin> fst ` set blk"
    and "\<forall>v \<in> set (operands op). val_pos blk v \<le> p"
  shows "ssa_ok (insert_op p (x, op) blk)"
  unfolding ssa_ok_def
proof (intro conjI allI impI ballI)
  show "distinct (map fst (insert_op p (x, op) blk))"
    using assms(1,3) by (simp add: distinct_insert_op ssa_ok_def)
next
  fix i v
  assume i: "i < length (insert_op p (x, op) blk)"
    and v: "v \<in> set (operands (snd (insert_op p (x, op) blk ! i)))"
  have old: "j < length blk \<Longrightarrow> v \<in> set (operands (snd (blk ! j))) \<Longrightarrow> val_pos blk v \<le> j" for j
    using assms(1) by (simp add: ssa_ok_def)
  consider "i < p" | "i = p" | "p < i" by linarith
  then show "val_pos (insert_op p (x, op) blk) v \<le> i"
  proof cases
    case 1
    then have "val_pos blk v \<le> i"
      using old [of i] v i assms(2) by (simp add: nth_insert_op)
    then show ?thesis
      using val_pos_insert_op(2) [OF assms(2,3), of i v] 1 assms(2) by simp
  next
    case 2
    then show ?thesis
      using val_pos_insert_op(2) [OF assms(2,3), of p v] assms v i by (simp add: nth_insert_op)
  next
    case 3
    have le: "val_pos blk v \<le> i - 1" and len: "i - 1 \<le> length blk"
      using old [of "i - 1"] v i 3 by (simp_all add: nth_insert_op assms(2))
    show ?thesis
      using val_pos_insert_op(1) [OF assms(2,3) len le, of op] 3 by (simp split: if_splits)
  qed
qed

lemma create_fst: "fst (create s ip op) = Res (ir_next s) 0"
  and create_next: "ir_next (snd (create s ip op)) = Suc (ir_next s)"
  and create_block: "ir_block (snd (create s ip op)) =
    insert_op (ip_pos (ir_block s) ip) (ir_next s, op) (ir_block s)"
  by (simp_all add: create_def insert_op_def Let_def)

lemma fresh_id: "wf_ir s \<Longrightarrow> ir_next s \<notin> fst ` set (ir_block s)"
  using wf_ir_ids_less [of s "ir_next s"] by (auto simp: ids_def)

lemma map_of_insert_op:
  "x \<notin> fst ` set blk \<Longrightarrow> distinct (map fst blk) \<Longrightarrow>
   map_of (insert_op p (x, op) blk) a = (if a = x then Some op else map_of blk a)"
proof (cases "a \<in> fst ` set (insert_op p (x, op) blk)")
  case True
  assume x: "x \<notin> fst ` set blk" and d: "distinct (map fst blk)"
  have d': "distinct (map fst (insert_op p (x, op) blk))"
    using x d by (simp add: distinct_insert_op)
  obtain y where "y \<in> insert (x, op) (set blk)" "fst y = a"
    using True by (metis imageE set_insert_op)
  then obtain op' where op': "(a, op') \<in> insert (x, op) (set blk)"
    by (cases y) auto
  then have "map_of (insert_op p (x, op) blk) a = Some op'"
    using d' by simp
  moreover have "(if a = x then Some op else map_of blk a) = Some op'"
    using op' x d by force
  ultimately show ?thesis
    by simp
next
  case False
  then have "a \<noteq> x" "a \<notin> fst ` set blk"
    by auto
  then show ?thesis
    using False by (metis map_of_eq_None_iff)
qed

lemma create_map_of:
  "wf_ir s \<Longrightarrow> map_of (ir_block (snd (create s ip op))) a =
    (if a = ir_next s then Some op else map_of (ir_block s) a)"
  using map_of_insert_op [OF fresh_id wf_ir_distinct] by (simp add: create_block)

lemma typed_operand_create:
  assumes "wf_ir s" and "defining_op v \<noteq> Some (ir_next s)"
  shows "index_value (snd (create s ip op)) v = index_value s v"
    and "has_result (snd (create s ip op)) v = has_result s v"
  using assms by (auto simp: index_value_def has_result_def create_map_of split: option.splits)

lemma operand_old:
  assumes "wf_ir s" and "x \<in> set (ir_block s)" and "v \<in> set (operands (snd x))"
  shows "defining_op v \<noteq> Some (ir_next s)"
proof
  assume "defining_op v = Some (ir_next s)"
  then obtain k where v: "v = Res (ir_next s) k"
    by (cases v) auto
  have "op_pos (ir_block s) (ir_next s) < op_pos (ir_block s) (fst x)"
    using wf_ir_available [of s "fst x" "snd x" v] assms by (simp add: v available_def)
  then have "ir_next s \<in> fst ` set (ir_block s)"
    using op_pos_less_iff [of "ir_block s" "ir_next s"] op_pos_le [of "ir_block s" "fst x"] by simp
  then show False
    using fresh_id [OF assms(1)] by blast
qed

lemma index_operands_subset: "set (index_operands op) \<subseteq> set (operands op)"
  by (cases op) auto

lemma available_old:
  assumes "wf_ir s" and "available (ir_block s) ip v"
  shows "defining_op v \<noteq> Some (ir_next s)"
proof
  assume "defining_op v = Some (ir_next s)"
  then obtain k where v: "v = Res (ir_next s) k"
    by (cases v) auto
  have "op_pos (ir_block s) (ir_next s) < length (ir_block s)"
    using assms(2) ip_pos_le [of "ir_block s" ip] by (simp add: v available_def)
  then show False
    using fresh_id [OF assms(1)] by (simp add: op_pos_less_iff)
qed

lemma create_typed:
  assumes wf: "wf_ir s" and av: "\<forall>v \<in> set (operands op). available (ir_block s) ip v"
    and ty: "op_typed s op" and x: "x \<in> set (ir_block (snd (create s ip op)))"
  shows "op_typed (snd (create s ip op)) (snd x)"
proof -
  have old: "op_typed s (snd x) \<and> (\<forall>v \<in> set (operands (snd x)). defining_op v \<noteq> Some (ir_next s))"
    using x wf av ty operand_old [OF wf] available_old [OF wf]
    by (cases "x \<in> set (ir_block s)") (auto simp: create_block wf_ir_def)
  then show ?thesis
    using index_operands_subset [of "snd x"] typed_operand_create [OF wf]
    by (auto simp: op_typed_def subset_iff)
qed

lemma create_wf:
  assumes "wf_ir s" and "\<forall>v \<in> set (operands op). available (ir_block s) ip v" and "op_typed s op"
  shows "wf_ir (snd (create s ip op))"
proof -
  have "ssa_ok (insert_op (ip_pos (ir_block s) ip) (ir_next s, op) (ir_block s))"
    using assms fresh_id [OF assms(1)]
    by (intro ssa_ok_insert_op) (auto simp: wf_ir_def available_def ip_pos_le)
  moreover have "\<forall>x \<in> set (ir_block (snd (create s ip op))). op_typed (snd (create s ip op)) (snd x)"
    using create_typed [OF assms] by blast
  ultimately show ?thesis
    using assms(1) by (auto simp: wf_ir_def create_block create_next less_Suc_eq)
qed

lemma create_pos:
  assumes "wf_ir s" and "a \<noteq> ir_next s"
  shows "op_pos (ir_block (snd (create s ip op))) a =
    (if op_pos (ir_block s) a < ip_pos (ir_block s) ip then op_pos (ir_block s) a
     else Suc (op_pos (ir_block s) a))"
  using op_pos_insert [OF ip_pos_le fresh_id [OF assms(1)] assms(2)]
  by (simp add: create_block insert_op_def)

lemma create_pos_new:
  "wf_ir s \<Longrightarrow> op_pos (ir_block (snd (create s ip op))) (ir_next s) = ip_pos (ir_block s) ip"
  using op_pos_inserted [OF ip_pos_le fresh_id] by (simp add: create_block insert_op_def)

lemma create_extends:
  assumes "wf_ir s"
  shows "extends s (snd (create s ip op))"
  unfolding extends_def
proof (intro conjI allI impI)
  fix a b
  assume b: "b \<in> ids s" and lt: "op_pos (ir_block s) a < op_pos (ir_block s) b"
  have "a \<in> ids s"
    using lt op_pos_less_iff [of "ir_block s" a] op_pos_le [of "ir_block s" b]
    by (simp add: ids_def)
  then have "b \<noteq> ir_next s" "a \<noteq> ir_next s"
    using b fresh_id [OF assms] unfolding ids_def by blast+
  then show "op_pos (ir_block (snd (create s ip op))) a < op_pos (ir_block (snd (create s ip op))) b"
    using lt by (simp add: create_pos assms)
qed (auto simp: create_next create_block)

lemma create_ids: "ids (snd (create s ip op)) = insert (ir_next s) (ids s)"
  by (simp add: ids_def create_block)

lemma create_available:
  assumes "wf_ir s" and "b \<in> ids s"
  shows "available (ir_block (snd (create s (Before b) op))) (Before b) (fst (create s (Before b) op))"
  using create_pos_new [OF assms(1), of "Before b" op] create_pos [OF assms(1), of b "Before b" op]
    wf_ir_ids_less [OF assms] by (simp add: available_def create_fst)

lemma create_holds:
  "consistent \<rho> (snd (create s ip op)) \<Longrightarrow> op_holds \<rho> (ir_next s) op"
  by (simp add: consistent_def create_block)

lemma create_consistent:
  "consistent \<rho> (snd (create s ip op)) \<longleftrightarrow> consistent \<rho> s \<and> op_holds \<rho> (ir_next s) op"
  by (auto simp: consistent_def create_block)

section \<open>Emitted index arithmetic\<close>

text \<open>
  \<open>usable s b v\<close>: \<open>v\<close> is an \<open>index\<close> value an operation inserted before \<open>b\<close> may use.
  \<open>emitted s b r\<close>: emitting before \<open>b\<close> from \<open>s\<close> left a well-formed, extended block and
  a usable value.
\<close>

definition usable :: "ir \<Rightarrow> nat \<Rightarrow> val \<Rightarrow> bool" where
  "usable s b v \<longleftrightarrow> available (ir_block s) (Before b) v \<and> index_value s v"

definition grown :: "ir \<Rightarrow> ir \<Rightarrow> bool" where
  "grown s s' \<longleftrightarrow> wf_ir s' \<and> extends s s'"

definition emitted :: "ir \<Rightarrow> nat \<Rightarrow> val \<times> ir \<Rightarrow> bool" where
  "emitted s b r \<longleftrightarrow> grown s (snd r) \<and> usable (snd r) b (fst r)"

lemma grown_refl: "wf_ir s \<Longrightarrow> grown s s"
  by (simp add: grown_def)

lemma grown_trans [trans]: "grown s t \<Longrightarrow> grown t u \<Longrightarrow> grown s u"
  by (auto simp: grown_def intro: extends_trans)

lemma grown_wf: "grown s s' \<Longrightarrow> wf_ir s'"
  by (simp add: grown_def)

lemma grown_ids: "grown s s' \<Longrightarrow> b \<in> ids s \<Longrightarrow> b \<in> ids s'"
  using extends_ids by (auto simp: grown_def)

lemma grown_consistent: "grown s s' \<Longrightarrow> consistent \<rho> s' \<Longrightarrow> consistent \<rho> s"
  by (auto simp: grown_def intro: extends_consistent)

lemma available_ids:
  "b \<in> ids s \<Longrightarrow> available (ir_block s) (Before b) (Res a k) \<Longrightarrow> a \<in> ids s"
  using op_pos_less_iff [of "ir_block s" a] op_pos_le [of "ir_block s" b]
  by (simp add: available_def ids_def)

lemma map_of_extends:
  assumes "wf_ir s" and "grown s s'" and "a \<in> ids s"
  shows "map_of (ir_block s') a = map_of (ir_block s) a"
proof -
  obtain op where op: "(a, op) \<in> set (ir_block s)"
    using assms(3) by (auto simp: ids_def)
  then have "(a, op) \<in> set (ir_block s')"
    using assms(2) by (auto simp: grown_def extends_def)
  then show ?thesis
    using op assms by (simp add: wf_ir_map_of grown_def)
qed

lemma usable_grown:
  assumes "wf_ir s" and "grown s s'" and "b \<in> ids s" and "usable s b v"
  shows "usable s' b v"
proof -
  have "available (ir_block s') (Before b) v"
    using assms extends_available by (auto simp: grown_def usable_def)
  moreover have "index_value s' v"
    using assms map_of_extends [OF assms(1,2)] available_ids [OF assms(3)]
    by (cases v) (auto simp: usable_def index_value_def)
  ultimately show ?thesis
    by (simp add: usable_def)
qed

lemma create_grown:
  "wf_ir s \<Longrightarrow> \<forall>v \<in> set (operands op). available (ir_block s) ip v \<Longrightarrow> op_typed s op \<Longrightarrow>
   grown s (snd (create s ip op))"
  by (simp add: grown_def create_wf create_extends)

lemma index_has_result: "index_value s v \<Longrightarrow> has_result s v"
  by (auto simp: index_value_def has_result_def split: option.splits ir_op.splits)

lemma create_usable:
  assumes "wf_ir s" and "b \<in> ids s" and "\<forall>v \<in> set (operands op). usable s b v"
    and "case op of Const_index c \<Rightarrow> True | Bin f x y \<Rightarrow> True | _ \<Rightarrow> False"
  shows "emitted s b (create s (Before b) op)"
proof -
  let ?s' = "snd (create s (Before b) op)"
  have av: "\<forall>v \<in> set (operands op). available (ir_block s) (Before b) v"
    using assms(3) by (simp add: usable_def)
  have ty: "op_typed s op"
    using assms(3) index_operands_subset [of op]
    by (auto simp: op_typed_def usable_def index_has_result)
  have "map_of (ir_block ?s') (ir_next s) = Some op"
    by (rule wf_ir_map_of) (simp_all add: create_wf assms(1) av ty create_block)
  then have "index_value ?s' (fst (create s (Before b) op))"
    using assms(4) by (auto simp: index_value_def create_fst split: ir_op.splits)
  then show ?thesis
    using assms(1,2) av ty create_available create_grown by (simp add: emitted_def usable_def)
qed

lemma create_const:
  assumes "wf_ir s" and "b \<in> ids s"
  shows "emitted s b (create s (Before b) (Const_index c))"
    and "consistent \<rho> (snd (create s (Before b) (Const_index c))) \<Longrightarrow>
      \<rho> (fst (create s (Before b) (Const_index c))) = word_of_int c"
  using create_usable [OF assms, of "Const_index c"] create_holds [of \<rho> s "Before b" "Const_index c"]
  by (simp_all add: create_fst)

lemma create_or_fold_emitted:
  assumes fo: "folder_ok fo" and s: "wf_ir s" "b \<in> ids s" and x: "usable s b x"
    and y: "usable s b y"
  shows "emitted s b (create_or_fold fo s (Before b) f x y)"
    and "consistent \<rho> (snd (create_or_fold fo s (Before b) f x y)) \<Longrightarrow>
      \<rho> (fst (create_or_fold fo s (Before b) f x y)) = bin_word f (\<rho> x) (\<rho> y)"
proof -
  let ?r = "create_or_fold fo s (Before b) f x y"
  have ans: "case fo s f x y of
        No_fold \<Rightarrow> True
      | Fold_value v \<Rightarrow>
          (\<forall>\<rho>. consistent \<rho> s \<longrightarrow> \<rho> v = bin_word f (\<rho> x) (\<rho> y)) \<and>
          val_pos (ir_block s) v \<le> max (val_pos (ir_block s) x) (val_pos (ir_block s) y) \<and>
          (index_value s x \<longrightarrow> index_value s y \<longrightarrow> index_value s v)
      | Fold_const c \<Rightarrow>
          (\<forall>\<rho>. consistent \<rho> s \<longrightarrow> word_of_int c = bin_word f (\<rho> x) (\<rho> y))"
    using fo s(1) by (simp add: folder_ok_def)
  have "emitted s b ?r \<and>
    (consistent \<rho> (snd ?r) \<longrightarrow> \<rho> (fst ?r) = bin_word f (\<rho> x) (\<rho> y))"
  proof (cases "fo s f x y")
    case No_fold
    then show ?thesis
      using create_usable [OF s, of "Bin f x y"] create_holds [of \<rho> s "Before b" "Bin f x y"] x y
      by (simp add: create_or_fold_def create_fst)
  next
    case (Fold_value v)
    then have "available (ir_block s) (Before b) v"
      using ans x y by (auto simp: available_def usable_def)
    then show ?thesis
      using Fold_value ans x y s
      by (simp add: create_or_fold_def emitted_def usable_def grown_refl)
  next
    case (Fold_const c)
    then show ?thesis
      using create_const [OF s] ans create_consistent [of \<rho> s "Before b" "Const_index c"]
      by (simp add: create_or_fold_def create_fst)
  qed
  then show "emitted s b ?r"
    and "consistent \<rho> (snd ?r) \<Longrightarrow> \<rho> (fst ?r) = bin_word f (\<rho> x) (\<rho> y)"
    by blast+
qed

lemma emittedD:
  assumes "emitted s b r"
  shows "grown s (snd r)" and "wf_ir (snd r)" and "usable (snd r) b (fst r)"
    and "b \<in> ids s \<Longrightarrow> b \<in> ids (snd r)"
    and "consistent \<rho> (snd r) \<Longrightarrow> consistent \<rho> s"
    and "wf_ir s \<Longrightarrow> b \<in> ids s \<Longrightarrow> usable s b v \<Longrightarrow> usable (snd r) b v"
  using assms by (auto simp: emitted_def grown_def intro: extends_consistent usable_grown
      dest: extends_ids)

lemma emitted_then:
  "emitted s b r \<Longrightarrow> emitted (snd r) b r' \<Longrightarrow> emitted s b r'"
  by (auto simp: emitted_def intro: grown_trans)

definition round_up_word :: "64 word \<Rightarrow> int \<Rightarrow> 64 word" where
  "round_up_word w a = (w + word_of_int (a - 1)) div word_of_int a * word_of_int a"

lemma unat_word_of_int64:
  "0 \<le> c \<Longrightarrow> c < 2 ^ 64 \<Longrightarrow> unat (word_of_int c :: 64 word) = nat c"
  by (simp add: unat_eq_nat_uint uint_word_of_int)

lemma unat_round_up_word:
  assumes "0 < a" and "a < 2 ^ 63" and "unat w + nat a \<le> size_limit"
  shows "unat (round_up_word w a) = round_to (nat a) (unat w)"
proof -
  have a: "unat (word_of_int a :: 64 word) = nat a"
    using assms by (intro unat_word_of_int64) simp_all
  have a1: "unat (word_of_int (a - 1) :: 64 word) = nat a - 1"
    using assms unat_word_of_int64 [of "a - 1"] by (simp add: nat_diff_distrib')
  have sum: "unat (w + word_of_int (a - 1)) = unat w + nat a - 1"
    using assms a1 by (subst unat_plus_if_size) (auto simp: word_size)
  have "(unat w + nat a - 1) div nat a * nat a \<le> unat w + nat a - 1"
    by simp
  then have "(unat w + nat a - 1) div nat a * nat a < size_limit"
    using assms by linarith
  moreover have "unat (round_up_word w a) =
      ((unat w + nat a - 1) div nat a * nat a) mod 2 ^ LENGTH(64)"
    unfolding round_up_word_def unat_word_ariths(2) unat_div_distrib sum a ..
  ultimately show ?thesis
    by (simp add: round_to_def)
qed

lemma emit_align_up_emitted:
  assumes fo: "folder_ok fo" and s: "wf_ir s" "b \<in> ids s" and v: "usable s b v"
  shows "emitted s b (emit_align_up fo s (Before b) v a)"
    and "consistent \<rho> (snd (emit_align_up fo s (Before b) v a)) \<Longrightarrow>
      \<rho> (fst (emit_align_up fo s (Before b) v a)) =
        (if a \<le> 1 then \<rho> v else round_up_word (\<rho> v) a)"
proof -
  let ?r = "emit_align_up fo s (Before b) v a"
  have "emitted s b ?r \<and> (consistent \<rho> (snd ?r) \<longrightarrow>
    \<rho> (fst ?r) = (if a \<le> 1 then \<rho> v else round_up_word (\<rho> v) a))"
  proof (cases "a \<le> 1")
    case True
    then show ?thesis
      using s v by (simp add: emit_align_up_def emitted_def grown_refl)
  next
    case False
    define r1 where "r1 = create s (Before b) (Const_index (a - 1))"
    define r2 where "r2 = create (snd r1) (Before b) (Const_index a)"
    define r3 where "r3 = create_or_fold fo (snd r2) (Before b) Add_i v (fst r1)"
    define r4 where "r4 = create_or_fold fo (snd r3) (Before b) Div_ui (fst r3) (fst r2)"
    define r5 where "r5 = create_or_fold fo (snd r4) (Before b) Mul_i (fst r4) (fst r2)"
    have r: "?r = r5"
      using False unfolding emit_align_up_def r1_def r2_def r3_def r4_def r5_def
      by (simp add: Let_def case_prod_beta)
    have e1: "emitted s b r1"
      unfolding r1_def by (rule create_const(1) [OF s])
    note d1 = emittedD [OF e1]
    have e2: "emitted (snd r1) b r2"
      unfolding r2_def using d1 s by (intro create_const(1)) auto
    note d2 = emittedD [OF e2]
    have u2: "usable (snd r2) b v" "usable (snd r2) b (fst r1)"
      using d1 d2 s v by auto
    have e3: "emitted (snd r2) b r3"
      unfolding r3_def using d1 d2 s u2 by (intro create_or_fold_emitted(1) [OF fo]) auto
    note d3 = emittedD [OF e3]
    have e4: "emitted (snd r3) b r4"
      unfolding r4_def using d1 d2 d3 s by (intro create_or_fold_emitted(1) [OF fo]) auto
    note d4 = emittedD [OF e4]
    have u4: "usable (snd r4) b (fst r2)"
      using d1 d2 d3 d4 s by auto
    have e5: "emitted (snd r4) b r5"
      unfolding r5_def using d1 d2 d3 d4 s u4 by (intro create_or_fold_emitted(1) [OF fo]) auto
    note d5 = emittedD [OF e5]
    have "\<rho> (fst r5) = round_up_word (\<rho> v) a" if c: "consistent \<rho> (snd r5)"
    proof -
      have c4: "consistent \<rho> (snd r4)" and c3: "consistent \<rho> (snd r3)"
        and c2: "consistent \<rho> (snd r2)" and c1: "consistent \<rho> (snd r1)"
        using c d5 d4 d3 d2 by blast+
      have "\<rho> (fst r1) = word_of_int (a - 1)"
        using c1 create_const(2) [OF s] unfolding r1_def by blast
      moreover have "\<rho> (fst r2) = word_of_int a"
        using c2 create_const(2) [OF d1(2) d1(4) [OF s(2)]] by (simp add: r2_def)
      moreover have "\<rho> (fst r3) = \<rho> v + \<rho> (fst r1)"
        using c3 create_or_fold_emitted(2) [OF fo, of "snd r2" b v "fst r1" \<rho> Add_i] d1 d2 s u2
        by (simp add: r3_def)
      moreover have "\<rho> (fst r4) = \<rho> (fst r3) div \<rho> (fst r2)"
        using c4 create_or_fold_emitted(2) [OF fo, of "snd r3" b "fst r3" "fst r2" \<rho> Div_ui]
          d1 d2 d3 s by (simp add: r4_def)
      moreover have "\<rho> (fst r5) = \<rho> (fst r4) * \<rho> (fst r2)"
        using c create_or_fold_emitted(2) [OF fo, of "snd r4" b "fst r4" "fst r2" \<rho> Mul_i]
          d1 d2 d3 d4 s u4 by (simp add: r5_def)
      ultimately show ?thesis
        by (simp add: round_up_word_def)
    qed
    moreover have "emitted s b r5"
      using e1 e2 e3 e4 e5 emitted_then by blast
    ultimately show ?thesis
      using False r by simp
  qed
  then show "emitted s b ?r"
    and "consistent \<rho> (snd ?r) \<Longrightarrow> \<rho> (fst ?r) = (if a \<le> 1 then \<rho> v else round_up_word (\<rho> v) a)"
    by blast+
qed

end
