(* ===== verification/Pool_Packing.thy ===== *)
theory Pool_Packing
  imports Memref_IR
begin

text \<open>
  Phases 2 to 4 of \<open>lib/Dialect/Transforms/PoolAllocs.cpp\<close>: allocations with their
  lifetimes, the greedy best-fit packer, and the grouping of dynamic allocations into
  groups, slabs and small buckets.  Byte quantities are \<open>int64_t\<close> in the code; here they are
  unbounded integers.  \<open>Packing_Int64\<close> has the same functions with the wrap-around of the code
  and shows where the two agree.
  An allocation is identified by its index in the block, \<open>ai_def\<close>.
\<close>

section \<open>Allocations and lifetimes\<close>

record alloc_info =
  ai_def :: nat
  ai_last :: nat
  ai_bytes :: int
  ai_type :: memref_type
  ai_dyn :: "val list"

definition lifetimes_overlap :: "alloc_info \<Rightarrow> alloc_info \<Rightarrow> bool" where
  "lifetimes_overlap a b \<longleftrightarrow> \<not> (ai_last a < ai_def b \<or> ai_last b < ai_def a)"

definition load_at :: "alloc_info list \<Rightarrow> (alloc_info \<Rightarrow> int) \<Rightarrow> nat \<Rightarrow> int" where
  "load_at members size_of point =
     foldl (\<lambda>load other.
        if ai_def other \<le> point \<and> point \<le> ai_last other then load + size_of other else load)
       0 members"

definition max_concurrent_load :: "alloc_info list \<Rightarrow> (alloc_info \<Rightarrow> int) \<Rightarrow> int" where
  "max_concurrent_load members size_of =
     foldl (\<lambda>peak anchor. max peak (load_at members size_of (ai_def anchor))) 0 members"

section \<open>Greedy best-fit packing\<close>

record reservation =
  rs_info :: alloc_info
  rs_offset :: int
  rs_size :: int

definition int64_max :: int where
  "int64_max = 2 ^ 63 - 1"

definition scan_reservation ::
  "int \<Rightarrow> int \<Rightarrow> alloc_info \<Rightarrow> int \<times> int \<times> int \<Rightarrow> reservation \<Rightarrow> int \<times> int \<times> int" where
  "scan_reservation alignment sz info acc res =
     (case acc of (current_offset, best_offset, best_fit) \<Rightarrow>
        if \<not> lifetimes_overlap info (rs_info res) then acc
        else
          let aligned = align_to current_offset alignment;
              fits = aligned + sz \<le> rs_offset res \<and> rs_offset res - aligned < best_fit
          in (max current_offset (rs_offset res + rs_size res),
              if fits then aligned else best_offset,
              if fits then rs_offset res - aligned else best_fit))"

definition best_offset_for :: "int \<Rightarrow> int \<Rightarrow> alloc_info \<Rightarrow> reservation list \<Rightarrow> int" where
  "best_offset_for alignment sz info reservations =
     (case foldl (scan_reservation alignment sz info) (0, -1, int64_max) reservations of
        (current_offset, best_offset, best_fit) \<Rightarrow>
          if best_offset < 0 then align_to current_offset alignment else best_offset)"

fun insert_reservation :: "reservation \<Rightarrow> reservation list \<Rightarrow> reservation list" where
  "insert_reservation r [] = [r]"
| "insert_reservation r (x # xs) =
     (if rs_offset x < rs_offset r then x # insert_reservation r xs else r # x # xs)"

type_synonym assignments = "(alloc_info \<times> int) list"

definition pack_item ::
  "(alloc_info \<Rightarrow> int) \<Rightarrow> int \<Rightarrow> reservation list \<times> assignments \<times> int \<Rightarrow> alloc_info \<Rightarrow>
     reservation list \<times> assignments \<times> int" where
  "pack_item size_of alignment acc info =
     (case acc of (reservations, assigned, highwater) \<Rightarrow>
        let sz = align_to (size_of info) alignment;
            best = best_offset_for alignment sz info reservations
        in (insert_reservation \<lparr>rs_info = info, rs_offset = best, rs_size = sz\<rparr> reservations,
            assigned @ [(info, best)],
            max highwater (best + sz)))"

definition pack_greedy_best_fit ::
  "alloc_info list \<Rightarrow> (alloc_info \<Rightarrow> int) \<Rightarrow> int \<Rightarrow> assignments \<times> int" where
  "pack_greedy_best_fit items size_of alignment =
     snd (foldl (pack_item size_of alignment) ([], [], 0) items)"

definition pack_static_allocs :: "alloc_info list \<Rightarrow> int \<Rightarrow> assignments" where
  "pack_static_allocs statics alignment = fst (pack_greedy_best_fit statics ai_bytes alignment)"

definition static_pool_size :: "int \<Rightarrow> assignments \<Rightarrow> int" where
  "static_pool_size alignment assigned =
     foldl (\<lambda>sz (info, off). max sz (off + align_to (ai_bytes info) alignment)) 0 assigned"

section \<open>Dynamic allocations\<close>

record dyn_bucket =
  db_factor :: int
  db_dyn :: "val list"
  db_bins :: "alloc_info list list"

record dyn_group =
  dg_dyn :: "val list"
  dg_assignments :: assignments
  dg_span :: int

record dyn_packing =
  dp_groups :: "dyn_group list"
  dp_buckets :: "dyn_bucket list"
  dp_slabs :: "nat list list"

definition dp_empty :: "dyn_packing \<Rightarrow> bool" where
  "dp_empty p \<longleftrightarrow> dp_groups p = [] \<and> dp_buckets p = []"

text \<open>\<open>computeKey\<close>: one size operand per dynamic dimension, in order.\<close>

fun dyn_sizes_of :: "int option list \<Rightarrow> val list \<Rightarrow> val list" where
  "dyn_sizes_of (None # dims) (v # vs) = v # dyn_sizes_of dims vs"
| "dyn_sizes_of (Some d # dims) vs = dyn_sizes_of dims vs"
| "dyn_sizes_of dims vs = []"

definition compute_key :: "alloc_info \<Rightarrow> int \<times> val list" where
  "compute_key info =
     (static_factor_bytes (ai_type info), dyn_sizes_of (mt_shape (ai_type info)) (ai_dyn info))"

definition static_factor_of :: "alloc_info \<Rightarrow> int" where
  "static_factor_of info = fst (compute_key info)"

type_synonym factor_class = "val list \<times> alloc_info list"

fun add_to_class :: "val list \<Rightarrow> alloc_info \<Rightarrow> factor_class list \<Rightarrow> factor_class list" where
  "add_to_class ops info [] = [(ops, [info])]"
| "add_to_class ops info (c # cs) =
     (if fst c = ops then (fst c, snd c @ [info]) # cs else c # add_to_class ops info cs)"

fun bin_pack :: "alloc_info list list \<Rightarrow> alloc_info \<Rightarrow> alloc_info list list" where
  "bin_pack [] info = [[info]]"
| "bin_pack (b # bins) info =
     (if list_ex (lifetimes_overlap info) b then b # bin_pack bins info
      else (b @ [info]) # bins)"

fun add_to_bucket :: "int \<Rightarrow> val list \<Rightarrow> alloc_info \<Rightarrow> dyn_bucket list \<Rightarrow> dyn_bucket list" where
  "add_to_bucket sf ops info [] =
     [\<lparr>db_factor = sf, db_dyn = ops, db_bins = bin_pack [] info\<rparr>]"
| "add_to_bucket sf ops info (b # bs) =
     (if db_factor b = sf \<and> db_dyn b = ops
      then b\<lparr>db_bins := bin_pack (db_bins b) info\<rparr> # bs
      else b # add_to_bucket sf ops info bs)"

definition classify ::
  "int \<Rightarrow> bool \<Rightarrow> factor_class list \<times> dyn_bucket list \<Rightarrow> alloc_info \<Rightarrow>
     factor_class list \<times> dyn_bucket list" where
  "classify alignment lifetime_only acc info =
     (case (acc, compute_key info) of ((classes, buckets), (sf, ops)) \<Rightarrow>
        if lifetime_only \<or> sf mod alignment = 0 then (add_to_class ops info classes, buckets)
        else (classes, add_to_bucket sf ops info buckets))"

definition lifetime_groups :: "factor_class list \<Rightarrow> dyn_group list" where
  "lifetime_groups classes =
     sort_key (\<lambda>g. - dg_span g)
       (concat (map (\<lambda>(ops, allocs).
          map (\<lambda>a. \<lparr>dg_dyn = ops, dg_assignments = [(a, 0)], dg_span = static_factor_of a\<rparr>)
            allocs) classes))"

definition packed_groups :: "int \<Rightarrow> factor_class list \<Rightarrow> dyn_group list" where
  "packed_groups alignment classes =
     map (\<lambda>(ops, allocs).
        case pack_greedy_best_fit (sort_key (\<lambda>a. - static_factor_of a) allocs)
               static_factor_of alignment of
          (assigned, span) \<Rightarrow> \<lparr>dg_dyn = ops, dg_assignments = assigned, dg_span = span\<rparr>)
       classes"

definition groups_disjoint :: "dyn_group \<Rightarrow> dyn_group \<Rightarrow> bool" where
  "groups_disjoint a b =
     (\<not> list_ex (\<lambda>ea. list_ex (\<lambda>eb. lifetimes_overlap (fst ea) (fst eb)) (dg_assignments b))
          (dg_assignments a))"

fun place_group :: "dyn_group list \<Rightarrow> nat list list \<Rightarrow> nat \<Rightarrow> nat list list" where
  "place_group groups [] gi = [[gi]]"
| "place_group groups (slab # slabs) gi =
     (if list_all (\<lambda>other. groups_disjoint (groups ! gi) (groups ! other)) slab
      then (slab @ [gi]) # slabs
      else slab # place_group groups slabs gi)"

definition assign_slabs :: "dyn_group list \<Rightarrow> nat list list" where
  "assign_slabs groups = foldl (place_group groups) [] [0..<length groups]"

definition pack_dynamic_allocs :: "alloc_info list \<Rightarrow> int \<Rightarrow> bool \<Rightarrow> dyn_packing" where
  "pack_dynamic_allocs dynamics alignment lifetime_only =
     (case foldl (classify alignment lifetime_only) ([], []) dynamics of
        (classes, buckets) \<Rightarrow>
          let groups = (if lifetime_only then lifetime_groups classes
                        else packed_groups alignment classes)
          in \<lparr>dp_groups = groups, dp_buckets = buckets, dp_slabs = assign_slabs groups\<rparr>)"

section \<open>Fragmentation statistics\<close>

record fragmentation =
  fr_static_lb :: int
  fr_single_factor :: bool
  fr_slabs_aligned :: bool
  fr_dyn_units :: int
  fr_dyn_lb_units :: int
  fr_small_bins :: int
  fr_small_min_bins :: int

definition slab_span :: "dyn_group list \<Rightarrow> nat list \<Rightarrow> int" where
  "slab_span groups slab = foldl (\<lambda>w gi. max w (dg_span (groups ! gi))) 0 slab"

definition fragmentation_report :: "int \<Rightarrow> alloc_info list \<Rightarrow> dyn_packing \<Rightarrow> fragmentation" where
  "fragmentation_report align statics p =
     (let groups = dp_groups p;
          widths = map (slab_span groups) (dp_slabs p)
      in \<lparr>fr_static_lb = max_concurrent_load statics (\<lambda>i. align_to (ai_bytes i) align),
          fr_single_factor = list_all (\<lambda>g. dg_dyn g = dg_dyn (groups ! 0)) groups,
          fr_slabs_aligned = list_all (\<lambda>w. w mod align = 0) widths,
          fr_dyn_units = sum_list widths,
          fr_dyn_lb_units =
            max_concurrent_load (concat (map (\<lambda>g. map fst (dg_assignments g)) groups))
              (\<lambda>i. static_factor_bytes (ai_type i)),
          fr_small_bins = sum_list (map (\<lambda>b. int (length (db_bins b))) (dp_buckets p)),
          fr_small_min_bins =
            sum_list (map (\<lambda>b. max_concurrent_load (concat (db_bins b)) (\<lambda>i. 1)) (dp_buckets p))\<rparr>)"

section \<open>Rounding\<close>

lemma align_to_round: "0 < a \<Longrightarrow> 0 \<le> n \<Longrightarrow> align_to n a = int (round_to (nat a) (nat n))"
  unfolding align_to_def divide_ceil_def round_to_def
  by (simp add: zdiv_int nat_diff_distrib' of_nat_diff)

lemma align_to_ge: "0 < a \<Longrightarrow> 0 \<le> n \<Longrightarrow> n \<le> align_to n a"
  using round_to_ge [of "nat a" "nat n"] by (simp add: align_to_round)

lemma align_to_dvd [simp]: "a dvd align_to n a"
  by (simp add: align_to_def)

lemma align_to_nonneg: "0 < a \<Longrightarrow> 0 \<le> n \<Longrightarrow> 0 \<le> align_to n a"
  using align_to_ge [of a n] by simp

lemma align_to_least: "0 < a \<Longrightarrow> 0 \<le> n \<Longrightarrow> n \<le> m \<Longrightarrow> a dvd m \<Longrightarrow> align_to n a \<le> m"
proof -
  assume a: "0 < a" "0 \<le> n" "n \<le> m" "a dvd m"
  then have "nat a dvd nat m"
    by (simp add: nat_dvd_iff)
  then have "round_to (nat a) (nat n) \<le> nat m"
    using a by (intro round_to_least) auto
  then show "align_to n a \<le> m"
    using a by (simp add: align_to_round)
qed

lemma align_to_id: "a dvd n \<Longrightarrow> 0 < a \<Longrightarrow> 0 \<le> n \<Longrightarrow> align_to n a = n"
  using align_to_ge [of a n] align_to_least [of a n n] by simp

section \<open>Lifetimes and the load\<close>

lemma lifetimes_overlap_sym: "lifetimes_overlap a b = lifetimes_overlap b a"
  by (auto simp: lifetimes_overlap_def)

definition live_at :: "nat \<Rightarrow> alloc_info \<Rightarrow> bool" where
  "live_at point i \<longleftrightarrow> ai_def i \<le> point \<and> point \<le> ai_last i"

lemma live_at_overlap: "live_at p a \<Longrightarrow> live_at p b \<Longrightarrow> lifetimes_overlap a b"
  by (auto simp: live_at_def lifetimes_overlap_def)

lemma load_at_sum: "load_at members size_of p = sum_list (map size_of (filter (live_at p) members))"
proof -
  have "foldl (\<lambda>load other. if live_at p other then load + size_of other else load) a members =
      a + sum_list (map size_of (filter (live_at p) members))" for a
    by (induction members arbitrary: a) auto
  then show ?thesis
    by (simp add: load_at_def live_at_def)
qed

lemma max_concurrent_load_Max:
  "max_concurrent_load members size_of =
     Max (insert 0 ((\<lambda>i. load_at members size_of (ai_def i)) ` set members))"
proof -
  have "foldl (\<lambda>peak i. max peak (f i)) a xs = Max (insert a (f ` set xs))"
    for f :: "alloc_info \<Rightarrow> int" and a xs
  proof (induction xs arbitrary: a)
    case (Cons x xs)
    then show ?case
      by (cases "set xs = {}") (simp_all add: max.assoc)
  qed simp
  then show ?thesis
    by (simp add: max_concurrent_load_def)
qed

lemma max_concurrent_load_le:
  "0 \<le> m \<Longrightarrow> (\<And>p. load_at members size_of p \<le> m) \<Longrightarrow> max_concurrent_load members size_of \<le> m"
  by (simp add: max_concurrent_load_Max)

text \<open>The peak over the definition points is the peak over all points.\<close>

lemma load_at_le_max:
  assumes "\<forall>i \<in> set members. 0 \<le> size_of i"
  shows "load_at members size_of p \<le> max_concurrent_load members size_of"
proof (cases "filter (live_at p) members = []")
  case True
  then show ?thesis
    by (simp add: load_at_sum max_concurrent_load_Max)
next
  case False
  define L where "L = filter (live_at p) members"
  have fin: "finite (ai_def ` set L)" and ne: "ai_def ` set L \<noteq> {}"
    using False by (simp_all add: L_def del: filter_empty_conv set_filter)
  obtain i where i: "i \<in> set L" "ai_def i = Max (ai_def ` set L)"
    using Max_in [OF fin ne] by auto
  have "live_at (ai_def i) j" if "j \<in> set L" for j
    using that i Max_ge [OF fin, of "ai_def j"] by (auto simp: L_def live_at_def)
  then have imp: "live_at p j \<longrightarrow> live_at (ai_def i) j" if "j \<in> set members" for j
    using that by (simp add: L_def)
  have "sum_list (map size_of (filter (live_at p) xs)) \<le>
      sum_list (map size_of (filter (live_at (ai_def i)) xs))" if "set xs \<subseteq> set members" for xs
    using that
  proof (induction xs)
    case (Cons x xs)
    then show ?case
      using imp [of x] assms by auto
  qed simp
  then have "load_at members size_of p \<le> load_at members size_of (ai_def i)"
    by (simp add: load_at_sum)
  also have "\<dots> \<le> max_concurrent_load members size_of"
    using i(1) unfolding max_concurrent_load_Max by (intro Max_ge) (auto simp: L_def)
  finally show ?thesis .
qed

section \<open>Placed ranges\<close>

text \<open>\<open>apart\<close>: two ranges given by offset and length do not share a byte.\<close>

definition apart :: "int \<times> int \<Rightarrow> int \<times> int \<Rightarrow> bool" where
  "apart r q \<longleftrightarrow> fst r + snd r \<le> fst q \<or> fst q + snd q \<le> fst r"

lemma apart_sym: "apart r q = apart q r"
  by (auto simp: apart_def)

lemma sum_apart_le:
  assumes "sorted_wrt apart rs" and "0 \<le> H"
    and "\<forall>r \<in> set rs. 0 \<le> fst r \<and> 0 \<le> snd r \<and> fst r + snd r \<le> H"
  shows "sum_list (map snd rs) \<le> H"
proof -
  let ?b = "\<lambda>r. (nat (fst r), nat (snd r))"
  have in_range: "in_block (?b r) x \<longleftrightarrow> fst r \<le> int x \<and> int x < fst r + snd r"
    if "0 \<le> fst r" "0 \<le> snd r" for r x
    using that by (auto simp: in_block_def)
  have "cover (map ?b rs) x \<le> 1" for x
    using assms(1,3)
  proof (induction rs)
    case (Cons r rs)
    have "\<not> in_block (?b q) x" if "in_block (?b r) x" "q \<in> set rs" for q
      using Cons.prems that in_range [of q x] in_range [of r x] by (auto simp: apart_def)
    then have "cover (map ?b rs) x = 0" if "in_block (?b r) x"
      using that cover_pos_iff [of "map ?b rs" x] by auto
    then show ?case
      using Cons by (cases "in_block (?b r) x") auto
  qed simp
  then have "sum_list (map snd (map ?b rs)) \<le> nat H"
    using assms by (intro sum_lengths_le) auto
  moreover have "int (sum_list (map snd (map ?b rs))) = sum_list (map snd rs)"
    using assms(3) by (induction rs) auto
  ultimately show ?thesis
    using assms(2) by linarith
qed

section \<open>The contract of a lifetime packer\<close>

text \<open>
  Every item is placed once and in order, at an aligned offset below the high-water
  mark, and items whose lifetimes overlap get ranges that are apart.
\<close>

definition range_of :: "(alloc_info \<Rightarrow> int) \<Rightarrow> int \<Rightarrow> alloc_info \<times> int \<Rightarrow> int \<times> int" where
  "range_of size_of al e = (snd e, align_to (size_of (fst e)) al)"

definition placed_apart ::
  "(alloc_info \<Rightarrow> int) \<Rightarrow> int \<Rightarrow> alloc_info \<times> int \<Rightarrow> alloc_info \<times> int \<Rightarrow> bool" where
  "placed_apart size_of al e f \<longleftrightarrow>
     (lifetimes_overlap (fst e) (fst f) \<longrightarrow> apart (range_of size_of al e) (range_of size_of al f))"

definition in_span :: "(alloc_info \<Rightarrow> int) \<Rightarrow> int \<Rightarrow> int \<Rightarrow> alloc_info \<times> int \<Rightarrow> bool" where
  "in_span size_of al span e \<longleftrightarrow>
     0 \<le> snd e \<and> al dvd snd e \<and> snd e + align_to (size_of (fst e)) al \<le> span"

definition packing_ok ::
  "(alloc_info \<Rightarrow> int) \<Rightarrow> int \<Rightarrow> assignments \<times> int \<Rightarrow> bool" where
  "packing_ok size_of al r \<longleftrightarrow> 0 \<le> snd r \<and> al dvd snd r \<and>
     (\<forall>e \<in> set (fst r). in_span size_of al (snd r) e) \<and>
     sorted_wrt (placed_apart size_of al) (fst r)"

lemma placed_apart_sym: "placed_apart size_of al e f = placed_apart size_of al f e"
  by (auto simp: placed_apart_def lifetimes_overlap_sym apart_sym)

lemma sorted_wrt_symD:
  "sorted_wrt P xs \<Longrightarrow> (\<And>x y. P x y = P y x) \<Longrightarrow> x \<in> set xs \<Longrightarrow> y \<in> set xs \<Longrightarrow> x \<noteq> y \<Longrightarrow> P x y"
  by (induction xs) auto

lemma packing_ok_apart:
  assumes "packing_ok size_of al r" and "e \<in> set (fst r)" and "f \<in> set (fst r)" and "e \<noteq> f"
    and "lifetimes_overlap (fst e) (fst f)"
  shows "apart (range_of size_of al e) (range_of size_of al f)"
  using sorted_wrt_symD [of "placed_apart size_of al" "fst r" e f] placed_apart_sym assms
  unfolding packing_ok_def placed_apart_def by blast

lemma sorted_wrt_filter_map:
  "sorted_wrt P xs \<Longrightarrow> (\<And>x y. x \<in> set xs \<Longrightarrow> y \<in> set xs \<Longrightarrow> Q x \<Longrightarrow> Q y \<Longrightarrow> P x y \<Longrightarrow> R (f x) (f y)) \<Longrightarrow>
   sorted_wrt R (map f (filter Q xs))"
  by (induction xs) auto

text \<open>No packing is smaller than the peak load of its members.\<close>

lemma packing_ok_load:
  assumes ok: "packing_ok size_of al r" and al: "0 < al"
    and nonneg: "\<forall>e \<in> set (fst r). 0 \<le> size_of (fst e)"
    and le: "\<And>i. i \<in> fst ` set (fst r) \<Longrightarrow> w i \<le> align_to (size_of i) al"
  shows "max_concurrent_load (map fst (fst r)) w \<le> snd r"
proof (rule max_concurrent_load_le)
  show "0 \<le> snd r"
    using ok by (simp add: packing_ok_def)
next
  fix p
  let ?L = "filter (\<lambda>e. live_at p (fst e)) (fst r)"
  have "sum_list (map snd (map (range_of size_of al) ?L)) \<le> snd r"
  proof (rule sum_apart_le)
    show "sorted_wrt apart (map (range_of size_of al) ?L)"
      using ok by (intro sorted_wrt_filter_map [where P = "placed_apart size_of al"])
        (auto simp: packing_ok_def placed_apart_def dest: live_at_overlap)
  qed (use ok al nonneg in \<open>auto simp: packing_ok_def in_span_def range_of_def align_to_nonneg\<close>)
  moreover have "load_at (map fst (fst r)) w p \<le> sum_list (map snd (map (range_of size_of al) ?L))"
  proof -
    have "load_at (map fst (fst r)) w p = sum_list (map (\<lambda>e. w (fst e)) ?L)"
      by (simp add: load_at_sum filter_map comp_def)
    also have "\<dots> \<le> sum_list (map (\<lambda>e. snd (range_of size_of al e)) ?L)"
      using le by (intro sum_list_mono) (auto simp: range_of_def)
    finally show ?thesis
      by (simp add: comp_def)
  qed
  ultimately show "load_at (map fst (fst r)) w p \<le> snd r"
    by linarith
qed

locale lifetime_packer =
  fixes pack :: "alloc_info list \<Rightarrow> (alloc_info \<Rightarrow> int) \<Rightarrow> int \<Rightarrow> assignments \<times> int"
  assumes pack_items: "map fst (fst (pack items size_of al)) = items"
    and pack_packed: "0 < al \<Longrightarrow> (\<And>i. i \<in> set items \<Longrightarrow> 0 \<le> size_of i) \<Longrightarrow>
      packing_ok size_of al (pack items size_of al)"
begin

lemma pack_mem: "e \<in> set (fst (pack items size_of al)) \<Longrightarrow> fst e \<in> set items"
  using pack_items [of items size_of al] by (metis image_eqI set_map)

lemma pack_placed: "i \<in> set items \<Longrightarrow> \<exists>off. (i, off) \<in> set (fst (pack items size_of al))"
proof -
  assume "i \<in> set items"
  then have "i \<in> fst ` set (fst (pack items size_of al))"
    using pack_items [of items size_of al] by (metis set_map)
  then show "\<exists>off. (i, off) \<in> set (fst (pack items size_of al))"
    by force
qed

lemma pack_apart:
  assumes "0 < al" and "\<And>i. i \<in> set items \<Longrightarrow> 0 \<le> size_of i"
    and "e \<in> set (fst (pack items size_of al))" and "f \<in> set (fst (pack items size_of al))"
    and "e \<noteq> f" and "lifetimes_overlap (fst e) (fst f)"
  shows "apart (range_of size_of al e) (range_of size_of al f)"
  by (rule packing_ok_apart [OF pack_packed]) (use assms in blast)+

lemma pack_span:
  assumes "0 < al" and "\<And>i. i \<in> set items \<Longrightarrow> 0 \<le> size_of i"
    and "e \<in> set (fst (pack items size_of al))"
  shows "in_span size_of al (snd (pack items size_of al)) e"
  using pack_packed [OF assms(1,2)] assms(3) by (auto simp: packing_ok_def)

lemma pack_load:
  assumes "0 < al" and "\<And>i. i \<in> set items \<Longrightarrow> 0 \<le> size_of i"
    and "\<And>i. i \<in> set items \<Longrightarrow> w i \<le> align_to (size_of i) al"
  shows "max_concurrent_load items w \<le> snd (pack items size_of al)"
proof -
  have "max_concurrent_load (map fst (fst (pack items size_of al))) w \<le> snd (pack items size_of al)"
    by (rule packing_ok_load [OF pack_packed]) (use assms pack_mem in blast)+
  then show ?thesis
    by (simp only: pack_items)
qed

end

section \<open>Greedy best fit keeps the contract\<close>

definition res_range :: "reservation \<Rightarrow> int \<times> int" where
  "res_range r = (rs_offset r, rs_size r)"

definition fits_all :: "alloc_info \<Rightarrow> int \<Rightarrow> int \<Rightarrow> reservation list \<Rightarrow> bool" where
  "fits_all info off sz rs =
     (\<forall>r \<in> set rs. lifetimes_overlap info (rs_info r) \<longrightarrow> apart (off, sz) (res_range r))"

text \<open>
  What the scan knows after a prefix of the reservations: the end of the overlapping
  ones, and the best gap so far, which lies before one of them.
\<close>

definition scan_ok ::
  "int \<Rightarrow> int \<Rightarrow> alloc_info \<Rightarrow> reservation list \<Rightarrow> int \<times> int \<times> int \<Rightarrow> bool" where
  "scan_ok al sz info done acc =
     (case acc of (cur, best, fit) \<Rightarrow>
        0 \<le> cur \<and>
        (\<forall>r \<in> set done. lifetimes_overlap info (rs_info r) \<longrightarrow> rs_offset r + rs_size r \<le> cur) \<and>
        (best = -1 \<or>
         0 \<le> best \<and> al dvd best \<and> fits_all info best sz done \<and>
         (\<exists>r \<in> set done. best + sz \<le> rs_offset r)))"

definition resvs_ok :: "int \<Rightarrow> reservation list \<Rightarrow> bool" where
  "resvs_ok al rs \<longleftrightarrow> sorted (map rs_offset rs) \<and>
     (\<forall>r \<in> set rs. 0 \<le> rs_offset r \<and> 0 \<le> rs_size r)"

lemma scan_ok_foldl:
  assumes al: "0 < al" and sz: "0 \<le> sz" and ok: "resvs_ok al rs"
  shows "scan_ok al sz info rs (foldl (scan_reservation al sz info) (0, -1, int64_max) rs)"
  using ok
proof (induction rs rule: rev_induct)
  case Nil
  then show ?case
    by (simp add: scan_ok_def)
next
  case (snoc r rs)
  obtain cur best fit where acc:
      "foldl (scan_reservation al sz info) (0, -1, int64_max) rs = (cur, best, fit)"
    by (cases "foldl (scan_reservation al sz info) (0, -1, int64_max) rs") auto
  have ih: "scan_ok al sz info rs (cur, best, fit)"
    using snoc by (simp add: acc resvs_ok_def sorted_append)
  have r: "0 \<le> rs_offset r" "0 \<le> rs_size r" and later: "\<forall>q \<in> set rs. rs_offset q \<le> rs_offset r"
    using snoc.prems by (auto simp: resvs_ok_def sorted_append)
  have cur: "0 \<le> cur" "cur \<le> align_to cur al"
    using ih al by (auto simp: scan_ok_def align_to_ge)
  have keep: "fits_all info best sz (rs @ [r])" if "best \<noteq> -1"
    using ih later that by (fastforce simp: scan_ok_def fits_all_def apart_def res_range_def)
  have new: "fits_all info (align_to cur al) sz (rs @ [r])"
    if "align_to cur al + sz \<le> rs_offset r"
    using ih that cur by (auto simp: scan_ok_def fits_all_def apart_def res_range_def)
  have "scan_ok al sz info (rs @ [r]) (scan_reservation al sz info (cur, best, fit) r)"
  proof (cases "lifetimes_overlap info (rs_info r)")
    case True
    then show ?thesis
      using ih r cur keep new al by (auto simp: scan_reservation_def scan_ok_def Let_def)
  next
    case False
    then show ?thesis
      using ih keep by (auto simp: scan_reservation_def scan_ok_def)
  qed
  then show ?case
    by (simp add: acc)
qed

lemma best_offset_for_ok:
  assumes "0 < al" and "0 \<le> sz" and "resvs_ok al rs"
  shows "0 \<le> best_offset_for al sz info rs" and "al dvd best_offset_for al sz info rs"
    and "fits_all info (best_offset_for al sz info rs) sz rs"
proof -
  obtain cur best fit where acc:
      "foldl (scan_reservation al sz info) (0, -1, int64_max) rs = (cur, best, fit)"
    by (cases "foldl (scan_reservation al sz info) (0, -1, int64_max) rs") auto
  have ok: "scan_ok al sz info rs (cur, best, fit)"
    using scan_ok_foldl [OF assms, of info] by (simp only: acc)
  have le: "cur \<le> align_to cur al"
    using ok assms(1) by (simp add: scan_ok_def align_to_ge)
  have "fits_all info (align_to cur al) sz rs"
    using ok le by (auto simp: scan_ok_def fits_all_def apart_def res_range_def)
  then have "0 \<le> best_offset_for al sz info rs \<and> al dvd best_offset_for al sz info rs \<and>
      fits_all info (best_offset_for al sz info rs) sz rs"
    using ok le by (auto simp: best_offset_for_def acc scan_ok_def)
  then show "0 \<le> best_offset_for al sz info rs" and "al dvd best_offset_for al sz info rs"
    and "fits_all info (best_offset_for al sz info rs) sz rs"
    by blast+
qed

lemma set_insert_reservation [simp]: "set (insert_reservation r rs) = insert r (set rs)"
  by (induction rs) auto

lemma sorted_insert_reservation:
  "sorted (map rs_offset rs) \<Longrightarrow> sorted (map rs_offset (insert_reservation r rs))"
  by (induction rs) auto

definition pack_state_ok ::
  "(alloc_info \<Rightarrow> int) \<Rightarrow> int \<Rightarrow> reservation list \<times> assignments \<times> int \<Rightarrow> bool" where
  "pack_state_ok size_of al st =
     (case st of (rs, asg, hw) \<Rightarrow>
        resvs_ok al rs \<and> packing_ok size_of al (asg, hw) \<and>
        (\<lambda>r. (rs_info r, rs_offset r, rs_size r)) ` set rs =
          (\<lambda>e. (fst e, snd e, align_to (size_of (fst e)) al)) ` set asg)"

lemma pack_state_reserved:
  assumes "pack_state_ok size_of al (rs, asg, hw)" and "e \<in> set asg"
  shows "\<exists>r \<in> set rs. rs_info r = fst e \<and> res_range r = range_of size_of al e"
proof -
  have "(fst e, snd e, align_to (size_of (fst e)) al) \<in> (\<lambda>r. (rs_info r, rs_offset r, rs_size r)) ` set rs"
    using assms unfolding pack_state_ok_def prod.case by blast
  then show ?thesis
    by (auto simp: res_range_def range_of_def)
qed

lemma pack_state_assigned:
  assumes "pack_state_ok size_of al (rs, asg, hw)" and "r \<in> set rs"
  shows "\<exists>e \<in> set asg. rs_info r = fst e \<and> res_range r = range_of size_of al e"
proof -
  have "(rs_info r, rs_offset r, rs_size r) \<in> (\<lambda>e. (fst e, snd e, align_to (size_of (fst e)) al)) ` set asg"
    using assms unfolding pack_state_ok_def prod.case by blast
  then show ?thesis
    by (auto simp: res_range_def range_of_def)
qed

lemma pack_item_ok:
  assumes al: "0 < al" and sz: "0 \<le> size_of info" and ok: "pack_state_ok size_of al (rs, asg, hw)"
  shows "pack_state_ok size_of al (pack_item size_of al (rs, asg, hw) info)"
proof -
  let ?sz = "align_to (size_of info) al"
  define best where "best = best_offset_for al ?sz info rs"
  let ?r = "\<lparr>rs_info = info, rs_offset = best, rs_size = ?sz\<rparr>"
  have resvs: "resvs_ok al rs" and pk: "packing_ok size_of al (asg, hw)"
    using ok by (simp_all add: pack_state_ok_def)
  have sz0: "0 \<le> ?sz"
    using al sz by (rule align_to_nonneg)
  note best = best_offset_for_ok [OF al sz0 resvs, of info, folded best_def]
  have "placed_apart size_of al e (info, best)" if e: "e \<in> set asg" for e
  proof -
    obtain r where r: "r \<in> set rs" "rs_info r = fst e" "res_range r = range_of size_of al e"
      using pack_state_reserved [OF ok e] by blast
    then have "lifetimes_overlap info (fst e) \<longrightarrow> apart (best, ?sz) (range_of size_of al e)"
      using best(3) unfolding fits_all_def by metis
    then show ?thesis
      unfolding placed_apart_def
      by (metis apart_sym fst_conv lifetimes_overlap_sym range_of_def snd_conv)
  qed
  moreover have "in_span size_of al (max hw (best + ?sz)) e" if "e \<in> set asg" for e
    using pk that by (auto simp: packing_ok_def in_span_def)
  moreover have "in_span size_of al (max hw (best + ?sz)) (info, best)"
    using best by (simp add: in_span_def)
  ultimately have "packing_ok size_of al (asg @ [(info, best)], max hw (best + ?sz))"
    using pk best sz0 by (auto simp: packing_ok_def sorted_wrt_append max_def)
  moreover have "resvs_ok al (insert_reservation ?r rs)"
    using resvs best sz0 by (auto simp: resvs_ok_def intro: sorted_insert_reservation)
  ultimately show ?thesis
    using ok by (simp add: pack_state_ok_def pack_item_def Let_def flip: best_def)
qed

lemma pack_foldl_ok:
  assumes "0 < al" and "\<And>i. i \<in> set items \<Longrightarrow> 0 \<le> size_of i"
    and "pack_state_ok size_of al st"
  shows "pack_state_ok size_of al (foldl (pack_item size_of al) st items)"
  using assms(2,3)
proof (induction items arbitrary: st)
  case (Cons i items)
  obtain rs asg hw where st: "st = (rs, asg, hw)"
    by (cases st) auto
  then have "pack_state_ok size_of al (pack_item size_of al st i)"
    using Cons.prems assms(1) by (auto intro: pack_item_ok)
  then show ?case
    using Cons by simp
qed simp

lemma pack_state_ok_start: "pack_state_ok size_of al ([], [], 0)"
  by (simp add: pack_state_ok_def resvs_ok_def packing_ok_def)

lemma pack_item_assigned:
  "fst (snd (pack_item size_of al st i)) = fst (snd st) @ [(i, best_offset_for al (align_to (size_of i) al) i (fst st))]"
  by (cases st) (simp add: pack_item_def Let_def)

lemma pack_foldl_items:
  "map fst (fst (snd (foldl (pack_item size_of al) st items))) = map fst (fst (snd st)) @ items"
  by (induction items arbitrary: st) (simp_all add: pack_item_assigned)

interpretation best_fit: lifetime_packer pack_greedy_best_fit
proof
  fix items size_of al
  show "map fst (fst (pack_greedy_best_fit items size_of al)) = items"
    by (simp add: pack_greedy_best_fit_def pack_foldl_items)
next
  fix items :: "alloc_info list" and size_of :: "alloc_info \<Rightarrow> int" and al :: int
  assume "0 < al" and "\<And>i. i \<in> set items \<Longrightarrow> 0 \<le> size_of i"
  then have "pack_state_ok size_of al (foldl (pack_item size_of al) ([], [], 0) items)"
    by (intro pack_foldl_ok pack_state_ok_start)
  then show "packing_ok size_of al (pack_greedy_best_fit items size_of al)"
    unfolding pack_greedy_best_fit_def
    by (cases "foldl (pack_item size_of al) ([], [], 0) items") (simp add: pack_state_ok_def)
qed

section \<open>Greedy best fit uses the gaps there are\<close>

text \<open>
  When some aligned offset is free, the scan ends either with a gap or with everything
  that overlaps below that offset.
\<close>

lemma scan_finds:
  assumes al: "0 < al" and sz: "0 \<le> sz" and o: "0 \<le> off" "al dvd off" "fits_all info off sz rs"
    and rs: "\<forall>r \<in> set rs. 0 \<le> rs_offset r \<and> 0 \<le> rs_size r \<and> rs_offset r < int64_max"
  shows "case foldl (scan_reservation al sz info) (0, -1, int64_max) rs of (cur, best, fit) \<Rightarrow>
    0 \<le> cur \<and> (best = -1 \<and> fit = int64_max \<and> cur \<le> off \<or>
      0 \<le> best \<and> (\<exists>r \<in> set rs. best + sz \<le> rs_offset r))"
  using o(3) rs
proof (induction rs rule: rev_induct)
  case Nil
  then show ?case
    using o(1) by simp
next
  case (snoc r rs)
  obtain cur best fit where acc:
      "foldl (scan_reservation al sz info) (0, -1, int64_max) rs = (cur, best, fit)"
    by (cases "foldl (scan_reservation al sz info) (0, -1, int64_max) rs") auto
  have ih: "0 \<le> cur \<and> (best = -1 \<and> fit = int64_max \<and> cur \<le> off \<or>
      0 \<le> best \<and> (\<exists>r \<in> set rs. best + sz \<le> rs_offset r))"
    using snoc by (simp add: acc fits_all_def)
  have r: "0 \<le> rs_offset r" "0 \<le> rs_size r" "rs_offset r < int64_max"
    using snoc.prems by auto
  have ap: "lifetimes_overlap info (rs_info r) \<Longrightarrow> off + sz \<le> rs_offset r \<or> rs_offset r + rs_size r \<le> off"
    using snoc.prems(1) by (auto simp: fits_all_def apart_def res_range_def)
  have low: "cur \<le> off \<Longrightarrow> align_to cur al \<le> off"
    using ih al o(2) by (intro align_to_least) auto
  have ge: "cur \<le> align_to cur al"
    using ih al by (simp add: align_to_ge)
  have "case scan_reservation al sz info (cur, best, fit) r of (cur, best, fit) \<Rightarrow>
      0 \<le> cur \<and> (best = -1 \<and> fit = int64_max \<and> cur \<le> off \<or>
        0 \<le> best \<and> (\<exists>q \<in> set (rs @ [r]). best + sz \<le> rs_offset q))"
  proof (cases "lifetimes_overlap info (rs_info r)")
    case True
    then show ?thesis
      using ih r ap [OF True] low ge by (auto simp: scan_reservation_def Let_def)
  next
    case False
    then show ?thesis
      using ih by (auto simp: scan_reservation_def)
  qed
  then show ?case
    by (simp add: acc)
qed

lemma best_offset_for_finds:
  assumes "0 < al" and "0 \<le> sz" and "0 \<le> off" and "al dvd off" and "fits_all info off sz rs"
    and "\<forall>r \<in> set rs. 0 \<le> rs_offset r \<and> 0 \<le> rs_size r \<and> rs_offset r < int64_max"
  shows "best_offset_for al sz info rs \<le> off \<or>
    (\<exists>r \<in> set rs. best_offset_for al sz info rs + sz \<le> rs_offset r)"
proof -
  obtain cur best fit where acc:
      "foldl (scan_reservation al sz info) (0, -1, int64_max) rs = (cur, best, fit)"
    by (cases "foldl (scan_reservation al sz info) (0, -1, int64_max) rs") auto
  have "0 \<le> cur \<and> (best = -1 \<and> fit = int64_max \<and> cur \<le> off \<or>
      0 \<le> best \<and> (\<exists>r \<in> set rs. best + sz \<le> rs_offset r))"
    using scan_finds [OF assms] by (simp add: acc)
  moreover have "align_to cur al \<le> off" if "0 \<le> cur" "cur \<le> off"
    using that assms by (intro align_to_least) auto
  ultimately show ?thesis
    by (auto simp: best_offset_for_def acc)
qed

lemma pack_greedy_snoc:
  "pack_greedy_best_fit (items @ [i]) size_of al =
     snd (pack_item size_of al (foldl (pack_item size_of al) ([], [], 0) items) i)"
  by (simp add: pack_greedy_best_fit_def)

lemma pack_greedy_reuses:
  assumes al: "0 < al" and nonneg: "\<And>j. j \<in> set (items @ [i]) \<Longrightarrow> 0 \<le> size_of j"
    and bound: "snd (pack_greedy_best_fit items size_of al) < int64_max"
    and off: "0 \<le> off" "al dvd off"
      "off + align_to (size_of i) al \<le> snd (pack_greedy_best_fit items size_of al)"
    and free: "\<And>e. e \<in> set (fst (pack_greedy_best_fit items size_of al)) \<Longrightarrow>
      lifetimes_overlap i (fst e) \<Longrightarrow>
      apart (off, align_to (size_of i) al) (range_of size_of al e)"
  shows "snd (pack_greedy_best_fit (items @ [i]) size_of al) =
    snd (pack_greedy_best_fit items size_of al)"
proof -
  let ?sz = "align_to (size_of i) al"
  obtain rs asg hw where st: "foldl (pack_item size_of al) ([], [], 0) items = (rs, asg, hw)"
    by (cases "foldl (pack_item size_of al) ([], [], 0) items") auto
  then have pk: "pack_greedy_best_fit items size_of al = (asg, hw)"
    by (simp add: pack_greedy_best_fit_def)
  have ok: "pack_state_ok size_of al (rs, asg, hw)"
    using pack_foldl_ok [OF al _ pack_state_ok_start, of items size_of] nonneg by (simp add: st)
  have sz0: "0 \<le> ?sz"
    using al nonneg [of i] by (simp add: align_to_nonneg)
  have within: "0 \<le> rs_offset r \<and> 0 \<le> rs_size r \<and> rs_offset r + rs_size r \<le> hw"
    if r: "r \<in> set rs" for r
  proof -
    obtain e where e: "e \<in> set asg" "res_range r = range_of size_of al e"
      using pack_state_assigned [OF ok r] by blast
    then have "in_span size_of al hw e"
      using ok by (simp add: pack_state_ok_def packing_ok_def)
    moreover have "0 \<le> rs_size r"
      using ok r by (simp add: pack_state_ok_def resvs_ok_def)
    ultimately show ?thesis
      using e by (simp add: in_span_def res_range_def range_of_def)
  qed
  have "fits_all i off ?sz rs"
    unfolding fits_all_def
  proof (intro ballI impI)
    fix r assume r: "r \<in> set rs" and ov: "lifetimes_overlap i (rs_info r)"
    obtain e where "e \<in> set asg" "rs_info r = fst e" "res_range r = range_of size_of al e"
      using pack_state_assigned [OF ok r] by blast
    then show "apart (off, ?sz) (res_range r)"
      using free [of e] ov by (simp add: pk)
  qed
  moreover have "\<forall>r \<in> set rs. 0 \<le> rs_offset r \<and> 0 \<le> rs_size r \<and> rs_offset r < int64_max"
    using within bound pk by fastforce
  ultimately have "best_offset_for al ?sz i rs \<le> off \<or>
      (\<exists>r \<in> set rs. best_offset_for al ?sz i rs + ?sz \<le> rs_offset r)"
    using al sz0 off by (intro best_offset_for_finds) auto
  then have "best_offset_for al ?sz i rs + ?sz \<le> hw"
    using off within by (fastforce simp: pk)
  then show ?thesis
    by (simp add: pack_greedy_snoc st pack_item_def pk Let_def)
qed

section \<open>Static packing\<close>

lemma pack_item_triple:
  "snd (pack_item size_of al (rs, asg, hw) i) =
     (let best = best_offset_for al (align_to (size_of i) al) i rs
      in (asg @ [(i, best)], max hw (best + align_to (size_of i) al)))"
  by (simp add: pack_item_def Let_def)

lemma pack_foldl_highwater:
  "snd (snd (foldl (pack_item size_of al) ([], [], 0) items)) =
   foldl (\<lambda>sz e. max sz (snd e + align_to (size_of (fst e)) al)) 0
     (fst (snd (foldl (pack_item size_of al) ([], [], 0) items)))"
proof (induction items rule: rev_induct)
  case (snoc i items)
  then show ?case
    by (cases "foldl (pack_item size_of al) ([], [], 0) items")
      (simp add: pack_item_triple Let_def)
qed simp

lemma static_pool_size_eq:
  "static_pool_size al (pack_static_allocs statics al) = snd (pack_greedy_best_fit statics ai_bytes al)"
  using pack_foldl_highwater [of ai_bytes al statics]
  by (simp add: static_pool_size_def pack_static_allocs_def pack_greedy_best_fit_def case_prod_unfold)

lemma static_packing_ok:
  "0 < al \<Longrightarrow> (\<And>i. i \<in> set statics \<Longrightarrow> 0 \<le> ai_bytes i) \<Longrightarrow>
   packing_ok ai_bytes al (pack_static_allocs statics al, static_pool_size al (pack_static_allocs statics al))"
  unfolding static_pool_size_eq
  using best_fit.pack_packed [of al statics ai_bytes] by (simp add: pack_static_allocs_def)

lemma static_items: "map fst (pack_static_allocs statics al) = statics"
  by (simp add: pack_static_allocs_def best_fit.pack_items)

end
