(* ===== verification/Packing_Int64.thy ===== *)
theory Packing_Int64
  imports Pool_Packing
begin

text \<open>
  The arithmetic of phases 3 and 4 of \<open>PoolAllocs.cpp\<close> as the code computes it: every sum,
  difference and product of byte quantities is an \<open>int64_t\<close>, which wraps.  \<open>Pool_Packing\<close>
  has the same functions on unbounded integers.  They agree as long as the bits of a type
  and the total of the aligned sizes stay below \<open>2 ^ 63\<close>; past that a size or an offset of
  the code is another number.
\<close>

section \<open>Operations on \<open>int64_t\<close>\<close>

definition wrap64 :: "int \<Rightarrow> int" where
  "wrap64 n = sint (word_of_int n :: 64 word)"

definition uwrap64 :: "int \<Rightarrow> int" where
  "uwrap64 n = uint (word_of_int n :: 64 word)"

text \<open>\<open>llvm::divideCeil\<close> and \<open>llvm::alignTo\<close> compute on \<open>uint64_t\<close>, the latter modulo \<open>2 ^ 64\<close>.\<close>

definition divide_ceil64 :: "int \<Rightarrow> int \<Rightarrow> int" where
  "divide_ceil64 n d = wrap64 (divide_ceil (uwrap64 n) d)"

definition align_to64 :: "int \<Rightarrow> int \<Rightarrow> int" where
  "align_to64 n a = wrap64 (align_to (uwrap64 n) (uwrap64 a))"

section \<open>Sizes of types\<close>

definition num_elements64 :: "memref_type \<Rightarrow> int" where
  "num_elements64 t = foldl (\<lambda>n d. wrap64 (n * the d)) 1 (mt_shape t)"

definition get_static_byte_size64 :: "memref_type \<Rightarrow> int" where
  "get_static_byte_size64 t =
     (if \<not> has_static_shape t then 0 else divide_ceil64 (wrap64 (num_elements64 t * mt_bits t)) 8)"

definition static_factor_bytes64 :: "memref_type \<Rightarrow> int" where
  "static_factor_bytes64 t =
     (let static_elems = foldl (\<lambda>n d. case d of None \<Rightarrow> n | Some k \<Rightarrow> wrap64 (n * k)) 1 (mt_shape t)
      in divide_ceil64 (wrap64 (static_elems * mt_bits t)) 8)"

section \<open>The packer\<close>

definition scan_reservation64 ::
  "int \<Rightarrow> int \<Rightarrow> alloc_info \<Rightarrow> int \<times> int \<times> int \<Rightarrow> reservation \<Rightarrow> int \<times> int \<times> int" where
  "scan_reservation64 alignment sz info acc res =
     (case acc of (current_offset, best_offset, best_fit) \<Rightarrow>
        if \<not> lifetimes_overlap info (rs_info res) then acc
        else
          let aligned = align_to64 current_offset alignment;
              fits = wrap64 (aligned + sz) \<le> rs_offset res \<and> wrap64 (rs_offset res - aligned) < best_fit
          in (max current_offset (wrap64 (rs_offset res + rs_size res)),
              if fits then aligned else best_offset,
              if fits then wrap64 (rs_offset res - aligned) else best_fit))"

definition best_offset_for64 :: "int \<Rightarrow> int \<Rightarrow> alloc_info \<Rightarrow> reservation list \<Rightarrow> int" where
  "best_offset_for64 alignment sz info reservations =
     (case foldl (scan_reservation64 alignment sz info) (0, -1, int64_max) reservations of
        (current_offset, best_offset, best_fit) \<Rightarrow>
          if best_offset < 0 then align_to64 current_offset alignment else best_offset)"

definition pack_item64 ::
  "(alloc_info \<Rightarrow> int) \<Rightarrow> int \<Rightarrow> reservation list \<times> assignments \<times> int \<Rightarrow> alloc_info \<Rightarrow>
     reservation list \<times> assignments \<times> int" where
  "pack_item64 size_of alignment acc info =
     (case acc of (reservations, assigned, highwater) \<Rightarrow>
        let sz = align_to64 (size_of info) alignment;
            best = best_offset_for64 alignment sz info reservations
        in (insert_reservation \<lparr>rs_info = info, rs_offset = best, rs_size = sz\<rparr> reservations,
            assigned @ [(info, best)],
            max highwater (wrap64 (best + sz))))"

definition pack_greedy_best_fit64 ::
  "alloc_info list \<Rightarrow> (alloc_info \<Rightarrow> int) \<Rightarrow> int \<Rightarrow> assignments \<times> int" where
  "pack_greedy_best_fit64 items size_of alignment =
     snd (foldl (pack_item64 size_of alignment) ([], [], 0) items)"

definition pack_static_allocs64 :: "alloc_info list \<Rightarrow> int \<Rightarrow> assignments" where
  "pack_static_allocs64 statics alignment = fst (pack_greedy_best_fit64 statics ai_bytes alignment)"

definition static_pool_size64 :: "int \<Rightarrow> assignments \<Rightarrow> int" where
  "static_pool_size64 alignment assigned =
     foldl (\<lambda>sz (info, off). max sz (wrap64 (off + align_to64 (ai_bytes info) alignment))) 0 assigned"

section \<open>Dynamic allocations\<close>

definition compute_key64 :: "alloc_info \<Rightarrow> int \<times> val list" where
  "compute_key64 info =
     (static_factor_bytes64 (ai_type info), dyn_sizes_of (mt_shape (ai_type info)) (ai_dyn info))"

definition static_factor_of64 :: "alloc_info \<Rightarrow> int" where
  "static_factor_of64 info = fst (compute_key64 info)"

definition classify64 ::
  "int \<Rightarrow> bool \<Rightarrow> factor_class list \<times> dyn_bucket list \<Rightarrow> alloc_info \<Rightarrow>
     factor_class list \<times> dyn_bucket list" where
  "classify64 alignment lifetime_only acc info =
     (case (acc, compute_key64 info) of ((classes, buckets), (sf, ops)) \<Rightarrow>
        if lifetime_only \<or> sf mod alignment = 0 then (add_to_class ops info classes, buckets)
        else (classes, add_to_bucket sf ops info buckets))"

definition lifetime_groups64 :: "factor_class list \<Rightarrow> dyn_group list" where
  "lifetime_groups64 classes =
     sort_key (\<lambda>g. - dg_span g)
       (concat (map (\<lambda>(ops, allocs).
          map (\<lambda>a. \<lparr>dg_dyn = ops, dg_assignments = [(a, 0)], dg_span = static_factor_of64 a\<rparr>)
            allocs) classes))"

definition packed_groups64 :: "int \<Rightarrow> factor_class list \<Rightarrow> dyn_group list" where
  "packed_groups64 alignment classes =
     map (\<lambda>(ops, allocs).
        case pack_greedy_best_fit64 (sort_key (\<lambda>a. - static_factor_of64 a) allocs)
               static_factor_of64 alignment of
          (assigned, span) \<Rightarrow> \<lparr>dg_dyn = ops, dg_assignments = assigned, dg_span = span\<rparr>)
       classes"

definition pack_dynamic_allocs64 :: "alloc_info list \<Rightarrow> int \<Rightarrow> bool \<Rightarrow> dyn_packing" where
  "pack_dynamic_allocs64 dynamics alignment lifetime_only =
     (case foldl (classify64 alignment lifetime_only) ([], []) dynamics of
        (classes, buckets) \<Rightarrow>
          let groups = (if lifetime_only then lifetime_groups64 classes
                        else packed_groups64 alignment classes)
          in \<lparr>dp_groups = groups, dp_buckets = buckets, dp_slabs = assign_slabs groups\<rparr>)"

section \<open>Where nothing wraps\<close>

lemma wrap64_id: "- (2 ^ 63) \<le> n \<Longrightarrow> n < 2 ^ 63 \<Longrightarrow> wrap64 n = n"
  by (simp add: wrap64_def sint_sbintrunc' signed_take_bit_int_eq_self)

lemma uwrap64_id: "0 \<le> n \<Longrightarrow> n < 2 ^ 64 \<Longrightarrow> uwrap64 n = n"
  by (simp add: uwrap64_def uint_word_of_int take_bit_int_eq_self)

lemma wrap64_nonneg: "0 \<le> n \<Longrightarrow> n < 2 ^ 63 \<Longrightarrow> wrap64 n = n"
  by (rule wrap64_id) simp_all

lemma align_to64_eq:
  assumes "0 < a" and "a < 2 ^ 63" and "0 \<le> n" and "align_to n a < 2 ^ 63"
  shows "align_to64 n a = align_to n a"
proof -
  have "n \<le> align_to n a"
    using assms by (intro align_to_ge)
  then show ?thesis
    using assms by (simp add: align_to64_def uwrap64_id wrap64_nonneg)
qed

lemma divide_ceil_bounds:
  fixes n :: int
  assumes "0 \<le> n"
  shows "0 \<le> divide_ceil n 8" and "divide_ceil n 8 \<le> n"
  using assms by (simp_all add: divide_ceil_def)

lemma divide_ceil64_eq: "0 \<le> n \<Longrightarrow> n < 2 ^ 63 \<Longrightarrow> divide_ceil64 n 8 = divide_ceil n 8"
  using divide_ceil_bounds [of n] by (simp add: divide_ceil64_def uwrap64_id wrap64_nonneg)

text \<open>The bits of a type, a dimension of 0 counted as 1: a bound of every partial product.\<close>

definition int64_type :: "memref_type \<Rightarrow> bool" where
  "int64_type t \<longleftrightarrow> 0 \<le> mt_bits t \<and> (\<forall>n. Some n \<in> set (mt_shape t) \<longrightarrow> 0 \<le> n) \<and>
     max 1 (mt_bits t) * prod_list (map (\<lambda>d. case d of None \<Rightarrow> 1 | Some n \<Rightarrow> max 1 n) (mt_shape t)) < 2 ^ 63"

lemma prod_ge_1: "1 \<le> prod_list (map (\<lambda>d. case d of None \<Rightarrow> 1 | Some n \<Rightarrow> max 1 (n :: int)) ds)"
proof (induction ds)
  case (Cons d ds)
  then show ?case
    using mult_mono [of 1 "case d of None \<Rightarrow> 1 | Some n \<Rightarrow> max 1 n" 1] by (auto split: option.split)
qed simp

lemma product64:
  fixes a :: int
  assumes "0 \<le> a" and "\<forall>n. Some n \<in> set ds \<longrightarrow> 0 \<le> n"
    and "max 1 a * prod_list (map (\<lambda>d. case d of None \<Rightarrow> 1 | Some n \<Rightarrow> max 1 n) ds) < 2 ^ 63"
  shows "foldl (\<lambda>n d. case d of None \<Rightarrow> n | Some k \<Rightarrow> wrap64 (n * k)) a ds =
      foldl (\<lambda>n d. case d of None \<Rightarrow> n | Some k \<Rightarrow> n * k) a ds \<and>
    0 \<le> foldl (\<lambda>n d. case d of None \<Rightarrow> n | Some k \<Rightarrow> n * k) a ds \<and>
    foldl (\<lambda>n d. case d of None \<Rightarrow> n | Some k \<Rightarrow> n * k) a ds \<le>
      max 1 a * prod_list (map (\<lambda>d. case d of None \<Rightarrow> 1 | Some n \<Rightarrow> max 1 n) ds)"
  using assms
proof (induction ds arbitrary: a)
  case (Cons d ds)
  let ?p = "prod_list (map (\<lambda>d. case d of None \<Rightarrow> 1 | Some n \<Rightarrow> max 1 (n :: int)) ds)"
  show ?case
  proof (cases d)
    case None
    then show ?thesis
      using Cons.IH [of a] Cons.prems by simp
  next
    case (Some n)
    have n: "0 \<le> n" "0 \<le> a * n"
      using Cons.prems Some by simp_all
    have m: "max 1 (a * n) \<le> max 1 a * max 1 n"
      using mult_mono [of a "max 1 a" n "max 1 n"] mult_mono [of 1 "max 1 a" 1 "max 1 n"] n Cons.prems(1) by simp
    then have le: "max 1 (a * n) * ?p \<le> max 1 a * max 1 n * ?p"
      using prod_ge_1 [of ds] by (intro mult_right_mono) simp_all
    have bound: "max 1 a * max 1 n * ?p < 2 ^ 63"
      using Cons.prems(3) Some by (simp add: mult.assoc)
    have "max 1 (a * n) * 1 \<le> max 1 (a * n) * ?p"
      using prod_ge_1 [of ds] by (intro mult_left_mono) simp_all
    then have "wrap64 (a * n) = a * n"
      using le bound n(2) by (intro wrap64_nonneg) simp_all
    moreover have "max 1 (a * n) * ?p < 2 ^ 63"
      using le bound by (rule le_less_trans)
    ultimately show ?thesis
      using Cons.IH [of "a * n"] Cons.prems(2) n(2) le Some by (simp add: mult.assoc)
  qed
qed simp

lemma type_product64:
  assumes "int64_type t"
  defines "e \<equiv> foldl (\<lambda>n d. case d of None \<Rightarrow> n | Some k \<Rightarrow> n * k) 1 (mt_shape t)"
  shows "foldl (\<lambda>n d. case d of None \<Rightarrow> n | Some k \<Rightarrow> wrap64 (n * k)) 1 (mt_shape t) = e"
    and "0 \<le> e * mt_bits t" and "wrap64 (e * mt_bits t) = e * mt_bits t" and "e * mt_bits t < 2 ^ 63"
proof -
  let ?p = "prod_list (map (\<lambda>d. case d of None \<Rightarrow> 1 | Some n \<Rightarrow> max 1 n) (mt_shape t))"
  have b: "0 \<le> mt_bits t" "max 1 (mt_bits t) * ?p < 2 ^ 63" "\<forall>n. Some n \<in> set (mt_shape t) \<longrightarrow> 0 \<le> n"
    using assms(1) by (simp_all add: int64_type_def)
  have "1 * ?p \<le> max 1 (mt_bits t) * ?p"
    using prod_ge_1 [of "mt_shape t"] by (intro mult_right_mono) simp_all
  then have P: "max 1 (1 :: int) * ?p < 2 ^ 63"
    using b(2) by simp
  note E = product64 [OF zero_le_one b(3) P, folded e_def]
  show "foldl (\<lambda>n d. case d of None \<Rightarrow> n | Some k \<Rightarrow> wrap64 (n * k)) 1 (mt_shape t) = e"
    using E by blast
  have e: "0 \<le> e" "e \<le> ?p"
    using E by simp_all
  have "mt_bits t * e \<le> max 1 (mt_bits t) * ?p"
    using b(1) e by (intro mult_mono) simp_all
  then show *: "e * mt_bits t < 2 ^ 63"
    using b(2) by (simp add: mult.commute)
  show "0 \<le> e * mt_bits t"
    using e(1) b(1) by simp
  with * show "wrap64 (e * mt_bits t) = e * mt_bits t"
    by (intro wrap64_nonneg)
qed

lemma static_factor_bytes64_eq:
  assumes "int64_type t"
  shows "static_factor_bytes64 t = static_factor_bytes t"
proof -
  note E = type_product64 [OF assms]
  show ?thesis
    unfolding static_factor_bytes64_def static_factor_bytes_def Let_def E(1) E(3)
    by (rule divide_ceil64_eq [OF E(2,4)])
qed

lemma foldl_the:
  assumes "\<forall>d \<in> set ds. d \<noteq> None"
  shows "foldl (\<lambda>n d. f (n * the d)) a ds = foldl (\<lambda>n d. case d of None \<Rightarrow> n | Some k \<Rightarrow> f (n * k)) a ds"
  using assms by (induction ds arbitrary: a) auto

lemma get_static_byte_size64_eq:
  assumes "int64_type t"
  shows "get_static_byte_size64 t = get_static_byte_size t"
proof (cases "has_static_shape t")
  case True
  then have "\<forall>d \<in> set (mt_shape t). d \<noteq> None"
    by (simp add: has_static_shape_def)
  note F = foldl_the [OF this, of wrap64 1] foldl_the [OF this, of "\<lambda>n. n" 1]
  have "num_elements64 t = num_elements t"
    using type_product64(1) [OF assms] F by (simp add: num_elements64_def num_elements_def)
  moreover have "num_elements t * mt_bits t = wrap64 (num_elements t * mt_bits t)" "0 \<le> num_elements t * mt_bits t"
    "num_elements t * mt_bits t < 2 ^ 63"
    using type_product64(2-4) [OF assms] F(2) by (simp_all add: num_elements_def)
  ultimately show ?thesis
    using True by (simp add: get_static_byte_size64_def get_static_byte_size_def divide_ceil64_eq)
qed (simp add: get_static_byte_size64_def get_static_byte_size_def)

text \<open>The size of a static type is its factor.\<close>

lemma static_size_factor:
  assumes "has_static_shape t"
  shows "get_static_byte_size t = static_factor_bytes t"
  using assms foldl_the [of "mt_shape t" "\<lambda>n. n" 1]
  by (simp add: get_static_byte_size_def static_factor_bytes_def num_elements_def has_static_shape_def Let_def)

section \<open>The packer agrees\<close>

definition small_resvs :: "int \<Rightarrow> int \<Rightarrow> reservation list \<Rightarrow> bool" where
  "small_resvs al hw rs \<longleftrightarrow> (\<forall>r \<in> set rs. 0 \<le> rs_offset r \<and> al dvd rs_offset r \<and> 0 \<le> rs_size r \<and>
     al dvd rs_size r \<and> rs_offset r + rs_size r \<le> hw)"

lemma pack_state_small:
  assumes ok: "pack_state_ok size_of al (rs, asg, hw)"
  shows "small_resvs al hw rs" and "0 \<le> hw"
proof -
  have "0 \<le> rs_offset r \<and> al dvd rs_offset r \<and> 0 \<le> rs_size r \<and> al dvd rs_size r \<and> rs_offset r + rs_size r \<le> hw"
    if r: "r \<in> set rs" for r
  proof -
    obtain e where e: "e \<in> set asg" "res_range r = range_of size_of al e"
      using pack_state_assigned [OF ok r] by blast
    then have "in_span size_of al hw e"
      using ok by (simp add: pack_state_ok_def packing_ok_def)
    moreover have "0 \<le> rs_size r"
      using ok r by (simp add: pack_state_ok_def resvs_ok_def)
    ultimately show ?thesis
      using e by (simp add: in_span_def res_range_def range_of_def)
  qed
  then show "small_resvs al hw rs"
    by (simp add: small_resvs_def)
  show "0 \<le> hw"
    using ok by (simp add: pack_state_ok_def packing_ok_def)
qed

lemma scan64_eq:
  assumes al: "0 < al" "al < 2 ^ 63" and sz: "0 \<le> sz" "hw + sz < 2 ^ 63" and rs: "small_resvs al hw rs"
    and cur: "0 \<le> cur" "cur \<le> hw" "al dvd cur" and best: "best \<le> hw"
  shows "foldl (scan_reservation64 al sz info) (cur, best, fit) rs = foldl (scan_reservation al sz info) (cur, best, fit) rs \<and>
    (case foldl (scan_reservation al sz info) (cur, best, fit) rs of (cur', best', fit') \<Rightarrow>
       0 \<le> cur' \<and> cur' \<le> hw \<and> al dvd cur' \<and> best' \<le> hw)"
  using rs cur best
proof (induction rs arbitrary: cur best fit)
  case (Cons r rs)
  have r: "0 \<le> rs_offset r" "al dvd rs_offset r" "0 \<le> rs_size r" "al dvd rs_size r" "rs_offset r + rs_size r \<le> hw"
    and rs: "small_resvs al hw rs"
    using Cons.prems(1) by (simp_all add: small_resvs_def)
  have a: "align_to cur al = cur"
    using Cons.prems al(1) by (intro align_to_id)
  have w: "align_to64 cur al = cur" "wrap64 (cur + sz) = cur + sz" "wrap64 (rs_offset r - cur) = rs_offset r - cur"
    "wrap64 (rs_offset r + rs_size r) = rs_offset r + rs_size r"
    using Cons.prems(2,3) sz r al by (simp_all add: align_to64_eq a wrap64_id)
  obtain c b f where s: "scan_reservation al sz info (cur, best, fit) r = (c, b, f)"
    by (cases "scan_reservation al sz info (cur, best, fit) r") auto
  have e: "scan_reservation64 al sz info (cur, best, fit) r = (c, b, f)"
    using s unfolding scan_reservation64_def scan_reservation_def by (simp add: w a Let_def split: if_splits)
  have "0 \<le> c \<and> c \<le> hw \<and> al dvd c \<and> b \<le> hw"
    using s Cons.prems r unfolding scan_reservation_def by (auto simp: a Let_def max_def split: if_splits)
  then show ?case
    using Cons.IH [OF rs, of c b f] by (simp add: s e)
qed simp

lemma best_offset64_eq:
  assumes al: "0 < al" "al < 2 ^ 63" and sz: "0 \<le> sz" "hw + sz < 2 ^ 63" and rs: "small_resvs al hw rs" and hw: "0 \<le> hw"
  shows "best_offset_for64 al sz info rs = best_offset_for al sz info rs" and "best_offset_for al sz info rs \<le> hw"
proof -
  obtain cur best fit where acc: "foldl (scan_reservation al sz info) (0, -1, int64_max) rs = (cur, best, fit)"
    by (cases "foldl (scan_reservation al sz info) (0, -1, int64_max) rs") auto
  have S: "foldl (scan_reservation64 al sz info) (0, -1, int64_max) rs = (cur, best, fit)" "0 \<le> cur" "cur \<le> hw" "al dvd cur" "best \<le> hw"
    using scan64_eq [OF al sz rs, of 0 "-1" info int64_max] hw acc by simp_all
  have a: "align_to cur al = cur"
    using S al(1) by (intro align_to_id)
  then have "align_to64 cur al = cur"
    using S(2,3) sz al by (simp add: align_to64_eq)
  then show "best_offset_for64 al sz info rs = best_offset_for al sz info rs" and "best_offset_for al sz info rs \<le> hw"
    using S by (simp_all add: best_offset_for64_def best_offset_for_def acc a)
qed

lemma pack_item64_eq:
  assumes al: "0 < al" "al < 2 ^ 63" and ok: "pack_state_ok size_of al (rs, asg, hw)" and sz: "0 \<le> size_of i"
    and fits: "hw + align_to (size_of i) al < 2 ^ 63"
  shows "pack_item64 size_of al (rs, asg, hw) i = pack_item size_of al (rs, asg, hw) i"
    and "snd (snd (pack_item size_of al (rs, asg, hw) i)) \<le> hw + align_to (size_of i) al"
proof -
  let ?sz = "align_to (size_of i) al"
  have sz0: "0 \<le> ?sz"
    using al(1) sz by (rule align_to_nonneg)
  note S = pack_state_small [OF ok]
  note B = best_offset64_eq [OF al sz0 fits S, of i]
  have b0: "0 \<le> best_offset_for al ?sz i rs"
    using ok by (intro best_offset_for_ok al sz0) (simp add: pack_state_ok_def)
  have "align_to64 (size_of i) al = ?sz"
    using S(2) fits al sz by (intro align_to64_eq) simp_all
  moreover have "wrap64 (best_offset_for al ?sz i rs + ?sz) = best_offset_for al ?sz i rs + ?sz"
    using b0 sz0 B(2) fits by (intro wrap64_nonneg) simp_all
  ultimately show "pack_item64 size_of al (rs, asg, hw) i = pack_item size_of al (rs, asg, hw) i"
    by (simp add: pack_item64_def pack_item_def Let_def B(1))
  show "snd (snd (pack_item size_of al (rs, asg, hw) i)) \<le> hw + ?sz"
    using B(2) sz0 by (simp add: pack_item_def Let_def)
qed

lemma pack_foldl64_eq:
  assumes al: "0 < al" "al < 2 ^ 63" and nonneg: "\<forall>i \<in> set items. 0 \<le> size_of i"
    and ok: "pack_state_ok size_of al st" and fits: "snd (snd st) + (\<Sum>i\<leftarrow>items. align_to (size_of i) al) < 2 ^ 63"
  shows "foldl (pack_item64 size_of al) st items = foldl (pack_item size_of al) st items \<and>
    snd (snd (foldl (pack_item size_of al) st items)) \<le> snd (snd st) + (\<Sum>i\<leftarrow>items. align_to (size_of i) al)"
  using nonneg ok fits
proof (induction items arbitrary: st)
  case (Cons i items)
  obtain rs asg hw where st: "st = (rs, asg, hw)"
    by (cases st) auto
  have i: "0 \<le> size_of i" and items: "\<forall>i \<in> set items. 0 \<le> size_of i"
    using Cons.prems(1) by simp_all
  have "0 \<le> (\<Sum>i\<leftarrow>items. align_to (size_of i) al)"
    using items al(1) by (intro sum_list_nonneg) (auto simp: align_to_nonneg)
  then have "hw + align_to (size_of i) al < 2 ^ 63"
    using Cons.prems(3) st by simp
  note P = pack_item64_eq [OF al Cons.prems(2) [unfolded st] i this]
  have "pack_state_ok size_of al (pack_item size_of al st i)"
    using pack_item_ok [OF al(1) i Cons.prems(2) [unfolded st]] st by simp
  from Cons.IH [OF items this] show ?case
    using P Cons.prems(3) st by simp
qed simp

lemma pack_greedy64_eq:
  assumes "0 < al" and "al < 2 ^ 63" and "\<forall>i \<in> set items. 0 \<le> size_of i"
    and "(\<Sum>i\<leftarrow>items. align_to (size_of i) al) < 2 ^ 63"
  shows "pack_greedy_best_fit64 items size_of al = pack_greedy_best_fit items size_of al"
    and "snd (pack_greedy_best_fit items size_of al) \<le> (\<Sum>i\<leftarrow>items. align_to (size_of i) al)"
  using pack_foldl64_eq [OF assms(1-3) pack_state_ok_start] assms(4)
  by (simp_all add: pack_greedy_best_fit64_def pack_greedy_best_fit_def)

lemma pack_static64_eq:
  assumes "0 < al" and "al < 2 ^ 63" and "\<forall>i \<in> set statics. 0 \<le> ai_bytes i"
    and "(\<Sum>i\<leftarrow>statics. align_to (ai_bytes i) al) < 2 ^ 63"
  shows "pack_static_allocs64 statics al = pack_static_allocs statics al"
    and "static_pool_size64 al (pack_static_allocs statics al) = static_pool_size al (pack_static_allocs statics al)"
proof -
  note G = pack_greedy64_eq [OF assms]
  show "pack_static_allocs64 statics al = pack_static_allocs statics al"
    by (simp add: pack_static_allocs64_def pack_static_allocs_def G(1))
  let ?asg = "pack_static_allocs statics al"
  have size: "static_pool_size al ?asg < 2 ^ 63"
    using G(2) assms(4) by (simp add: static_pool_size_eq)
  have pk: "packing_ok ai_bytes al (?asg, static_pool_size al ?asg)"
    using assms by (intro static_packing_ok) auto
  have "wrap64 (off + align_to64 (ai_bytes i) al) = off + align_to (ai_bytes i) al" if e: "(i, off) \<in> set ?asg" for i off
  proof -
    have "i \<in> set statics"
      using e static_items [of statics al] by (metis fst_conv image_eqI set_map)
    moreover have "0 \<le> off" "off + align_to (ai_bytes i) al \<le> static_pool_size al ?asg"
      using pk e by (auto simp: packing_ok_def in_span_def)
    ultimately show ?thesis
      using size assms(1-3) align_to_nonneg [OF assms(1), of "ai_bytes i"] by (simp add: align_to64_eq wrap64_nonneg)
  qed
  then have "foldl (\<lambda>sz (i, off). max sz (wrap64 (off + align_to64 (ai_bytes i) al))) n ?asg =
      foldl (\<lambda>sz (i, off). max sz (off + align_to (ai_bytes i) al)) n ?asg" for n
    by (intro foldl_cong) auto
  then show "static_pool_size64 al ?asg = static_pool_size al ?asg"
    by (simp add: static_pool_size64_def static_pool_size_def)
qed

end
