(* ===== verification/Pool_Groups.thy ===== *)
theory Pool_Groups
  imports Packing_Int64
begin

text \<open>
  What phase 4 of \<open>PoolAllocs.cpp\<close> produces: first-fit lifetime bins, the classes and
  buckets of dynamic allocations, groups and slabs, and how their sizes compare with the
  peak concurrent load.
\<close>

section \<open>Lifetime bins\<close>

definition bins_ok :: "alloc_info list list \<Rightarrow> bool" where
  "bins_ok bins \<longleftrightarrow> [] \<notin> set bins \<and>
     (\<forall>b \<in> set bins. sorted_wrt (\<lambda>i j. \<not> lifetimes_overlap i j) b)"

lemma bin_pack_ok: "bins_ok bins \<Longrightarrow> bins_ok (bin_pack bins i)"
  by (induction bins i rule: bin_pack.induct)
    (auto simp: bins_ok_def sorted_wrt_append list_ex_iff lifetimes_overlap_sym)

lemma bin_pack_mset: "mset (concat (bin_pack bins i)) = add_mset i (mset (concat bins))"
  by (induction bins i rule: bin_pack.induct) auto

lemma bin_pack_set: "set (concat (bin_pack bins i)) = insert i (set (concat bins))"
  by (metis bin_pack_mset set_mset_add_mset_insert set_mset_mset)

lemma bin_pack_length:
  "length (bin_pack bins i) =
     (if \<forall>b \<in> set bins. list_ex (lifetimes_overlap i) b then Suc (length bins) else length bins)"
  by (induction bins i rule: bin_pack.induct) auto

lemma foldl_bin_pack:
  "bins_ok (foldl bin_pack [] items) \<and> mset (concat (foldl bin_pack [] items)) = mset items"
proof (induction items rule: rev_induct)
  case (snoc i items)
  then show ?case
    using bin_pack_ok bin_pack_mset by simp
qed (simp add: bins_ok_def)

text \<open>At one point a bin holds at most one live member.\<close>

lemma disjoint_live:
  "sorted_wrt (\<lambda>i j. \<not> lifetimes_overlap i j) b \<Longrightarrow> length (filter (live_at p) b) \<le> 1"
proof (induction b)
  case (Cons i b)
  then show ?case
  proof (cases "live_at p i")
    case True
    then have "filter (live_at p) b = []"
      using Cons.prems live_at_overlap by (auto simp: filter_empty_conv)
    then show ?thesis
      using True by simp
  qed simp
qed simp

lemma load_one: "load_at members (\<lambda>i. 1) p = int (length (filter (live_at p) members))"
  by (simp add: load_at_sum sum_list_triv)

lemma bins_live_le:
  "bins_ok bins \<Longrightarrow> length (filter (live_at p) (concat bins)) \<le> length bins"
proof (induction bins)
  case (Cons b bins)
  have "length (filter (live_at p) b) \<le> 1"
    using Cons.prems disjoint_live [of b p] by (simp add: bins_ok_def)
  then show ?case
    using Cons by (simp add: bins_ok_def)
qed simp

lemma bins_live_ge:
  "\<forall>b \<in> set bins. \<exists>e \<in> set b. live_at p e \<Longrightarrow> length bins \<le> length (filter (live_at p) (concat bins))"
proof (induction bins)
  case (Cons b bins)
  then have "filter (live_at p) b \<noteq> []"
    by (auto simp: filter_empty_conv)
  then have "1 \<le> length (filter (live_at p) b)"
    by (cases "filter (live_at p) b") (simp_all del: filter_empty_conv)
  then show ?case
    using Cons by simp
qed simp

lemma load_at_mset:
  "mset xs = mset ys \<Longrightarrow> load_at xs w p = load_at ys w p"
  unfolding load_at_sum by (metis mset_filter mset_map sum_mset_sum_list)

lemma max_concurrent_load_mset:
  assumes "mset xs = mset ys"
  shows "max_concurrent_load xs w = max_concurrent_load ys w"
proof -
  have "set xs = set ys"
    using assms by (rule mset_eq_setD)
  then show ?thesis
    using load_at_mset [OF assms] by (simp add: max_concurrent_load_Max)
qed

text \<open>
  Taken in the order of their definitions, first fit opens a bin only when every bin holds
  an allocation live at that point, so it needs as many bins as the peak load.
\<close>

lemma bins_at_most_peak:
  assumes "sorted (map ai_def items)" and "\<forall>i \<in> set items. ai_def i \<le> ai_last i"
  shows "int (length (foldl bin_pack [] items)) \<le> max_concurrent_load items (\<lambda>i. 1)"
  using assms
proof (induction items rule: rev_induct)
  case (snoc i items)
  let ?bins = "foldl bin_pack [] items" and ?p = "ai_def i"
  have early: "\<forall>j \<in> set items. ai_def j \<le> ?p"
    using snoc.prems by (auto simp: sorted_append)
  have conc: "mset (concat ?bins) = mset items"
    using foldl_bin_pack by blast
  have grow: "load_at items (\<lambda>i. 1) q \<le> load_at (items @ [i]) (\<lambda>i. 1) q" for q
    by (simp add: load_one)
  have peak: "load_at (items @ [i]) (\<lambda>i. 1) q \<le> max_concurrent_load (items @ [i]) (\<lambda>i. 1)" for q
    by (rule load_at_le_max) simp
  show ?case
  proof (cases "\<forall>b \<in> set ?bins. list_ex (lifetimes_overlap i) b")
    case True
    have "\<exists>e \<in> set b. live_at ?p e" if b: "b \<in> set ?bins" for b
    proof -
      obtain e where e: "e \<in> set b" "lifetimes_overlap i e"
        using True b by (auto simp: list_ex_iff)
      have "e \<in> set items"
        using e(1) b mset_eq_setD [OF conc] by auto
      then show ?thesis
        using e early by (auto simp: live_at_def lifetimes_overlap_def intro!: bexI [of _ e])
    qed
    then have "length ?bins \<le> length (filter (live_at ?p) (concat ?bins))"
      by (intro bins_live_ge) blast
    also have "\<dots> = length (filter (live_at ?p) items)"
      using conc by (metis mset_filter size_mset)
    finally have "int (Suc (length ?bins)) \<le> load_at (items @ [i]) (\<lambda>i. 1) ?p"
      using snoc.prems by (simp add: load_one live_at_def)
    then show ?thesis
      using True peak [of ?p] by (simp add: bin_pack_length)
  next
    case False
    have "int (length ?bins) \<le> max_concurrent_load items (\<lambda>i. 1)"
      using snoc by (simp add: sorted_append)
    also have "\<dots> \<le> max_concurrent_load (items @ [i]) (\<lambda>i. 1)"
    proof (rule max_concurrent_load_le)
      show "0 \<le> max_concurrent_load (items @ [i]) (\<lambda>i. 1)"
        by (simp add: max_concurrent_load_Max)
    qed (use grow peak order_trans in blast)
    finally show ?thesis
      using False by (auto simp: bin_pack_length)
  qed
qed (simp add: max_concurrent_load_Max)

lemma bins_at_least_peak:
  assumes "bins_ok bins"
  shows "max_concurrent_load (concat bins) (\<lambda>i. 1) \<le> int (length bins)"
  using bins_live_le [OF assms] by (intro max_concurrent_load_le) (simp_all add: load_one)

section \<open>Classes, groups and buckets\<close>

definition in_class :: "int \<Rightarrow> bool \<Rightarrow> alloc_info \<Rightarrow> bool" where
  "in_class al lt i \<longleftrightarrow> lt \<or> static_factor_of i mod al = 0"

definition dyn_key :: "alloc_info \<Rightarrow> val list" where
  "dyn_key i = snd (compute_key i)"

lemma classify_simp:
  "classify al lt (cs, bs) i =
     (if in_class al lt i then (add_to_class (dyn_key i) i cs, bs)
      else (cs, add_to_bucket (static_factor_of i) (dyn_key i) i bs))"
  by (simp add: classify_def in_class_def static_factor_of_def dyn_key_def case_prod_unfold)

lemma add_to_class_keys:
  "fst ` set (add_to_class ops i cs) = insert ops (fst ` set cs)"
  by (induction ops i cs rule: add_to_class.induct) auto

lemma add_to_class_distinct:
  "distinct (map fst cs) \<Longrightarrow> distinct (map fst (add_to_class ops i cs))"
proof (induction ops i cs rule: add_to_class.induct)
  case (2 ops i c cs)
  then show ?case
    using add_to_class_keys [of ops i cs] by auto
qed simp

definition class_allocs :: "factor_class list \<Rightarrow> val list \<Rightarrow> alloc_info list" where
  "class_allocs cs k = (case map_of cs k of None \<Rightarrow> [] | Some as \<Rightarrow> as)"

lemma add_to_class_allocs:
  "class_allocs (add_to_class ops i cs) k =
     (if k = ops then class_allocs cs ops @ [i] else class_allocs cs k)"
  by (induction ops i cs rule: add_to_class.induct) (auto simp: class_allocs_def)

definition bucket_key :: "dyn_bucket \<Rightarrow> int \<times> val list" where
  "bucket_key b = (db_factor b, db_dyn b)"

lemma add_to_bucket_keys:
  "bucket_key ` set (add_to_bucket sf ops i bs) = insert (sf, ops) (bucket_key ` set bs)"
  by (induction sf ops i bs rule: add_to_bucket.induct) (auto simp: bucket_key_def)

lemma add_to_bucket_distinct:
  "distinct (map bucket_key bs) \<Longrightarrow> distinct (map bucket_key (add_to_bucket sf ops i bs))"
proof (induction sf ops i bs rule: add_to_bucket.induct)
  case (2 sf ops i b bs)
  then show ?case
    using add_to_bucket_keys [of sf ops i bs] by (auto simp: bucket_key_def)
qed (simp add: bucket_key_def)

definition bucket_bins :: "dyn_bucket list \<Rightarrow> int \<times> val list \<Rightarrow> alloc_info list list" where
  "bucket_bins bs k = (case map_of (map (\<lambda>b. (bucket_key b, db_bins b)) bs) k of None \<Rightarrow> [] | Some x \<Rightarrow> x)"

lemma add_to_bucket_bins:
  "bucket_bins (add_to_bucket sf ops i bs) k =
     (if k = (sf, ops) then bin_pack (bucket_bins bs (sf, ops)) i else bucket_bins bs k)"
  by (induction sf ops i bs rule: add_to_bucket.induct) (auto simp: bucket_bins_def bucket_key_def)

text \<open>
  After classifying a list, the class of an operand list holds the members with these
  operands in order, and the bins of a key are those of first fit on the allocations with
  that key.
\<close>

definition alloc_key :: "alloc_info \<Rightarrow> int \<times> val list" where
  "alloc_key i = (static_factor_of i, dyn_key i)"

lemma classify_classes:
  assumes "foldl (classify al lt) ([], []) xs = (cs, bs)"
  shows "distinct (map fst cs)"
    and "class_allocs cs k = filter (\<lambda>i. in_class al lt i \<and> dyn_key i = k) xs"
    and "distinct (map bucket_key bs)"
    and "bucket_bins bs key = foldl bin_pack [] (filter (\<lambda>i. \<not> in_class al lt i \<and> alloc_key i = key) xs)"
proof -
  have "distinct (map fst cs) \<and>
    class_allocs cs k = filter (\<lambda>i. in_class al lt i \<and> dyn_key i = k) xs \<and>
    distinct (map bucket_key bs) \<and>
    bucket_bins bs key = foldl bin_pack [] (filter (\<lambda>i. \<not> in_class al lt i \<and> alloc_key i = key) xs)"
    using assms
  proof (induction xs arbitrary: cs bs rule: rev_induct)
    case Nil
    then show ?case by (simp add: bucket_bins_def class_allocs_def)
  next
    case (snoc i xs)
    obtain cs' bs' where prev: "foldl (classify al lt) ([], []) xs = (cs', bs')"
      by (cases "foldl (classify al lt) ([], []) xs") auto
    have now: "(cs, bs) = classify al lt (cs', bs') i"
      using snoc.prems prev by simp
    show ?case
    proof (cases "in_class al lt i")
      case True
      then have "cs = add_to_class (dyn_key i) i cs'" "bs = bs'"
        using now by (simp_all add: classify_simp)
      then show ?thesis
        using snoc.IH [OF prev] True
        by (auto simp: add_to_class_distinct add_to_class_allocs)
    next
      case False
      then have "cs = cs'" "bs = add_to_bucket (static_factor_of i) (dyn_key i) i bs'"
        using now by (simp_all add: classify_simp)
      then show ?thesis
        using snoc.IH [OF prev] False
        by (auto simp: add_to_bucket_distinct add_to_bucket_bins alloc_key_def)
    qed
  qed
  then show "distinct (map fst cs)"
    and "class_allocs cs k = filter (\<lambda>i. in_class al lt i \<and> dyn_key i = k) xs"
    and "distinct (map bucket_key bs)"
    and "bucket_bins bs key = foldl bin_pack [] (filter (\<lambda>i. \<not> in_class al lt i \<and> alloc_key i = key) xs)"
    by blast+
qed

lemma classify_mset:
  "foldl (classify al lt) ([], []) xs = (cs, bs) \<Longrightarrow>
   mset (concat (map snd cs)) + mset (concat (map (\<lambda>b. concat (db_bins b)) bs)) = mset xs"
proof (induction xs arbitrary: cs bs rule: rev_induct)
  case (snoc i xs)
  have cls: "mset (concat (map snd (add_to_class ops i cs'))) = add_mset i (mset (concat (map snd cs')))"
    for ops cs'
    by (induction ops i cs' rule: add_to_class.induct) auto
  have bkt: "mset (concat (map (\<lambda>b. concat (db_bins b)) (add_to_bucket sf ops i bs'))) =
      add_mset i (mset (concat (map (\<lambda>b. concat (db_bins b)) bs')))" for sf ops bs'
    by (induction sf ops i bs' rule: add_to_bucket.induct) (auto simp: bin_pack_mset)
  obtain cs' bs' where prev: "foldl (classify al lt) ([], []) xs = (cs', bs')"
    by (cases "foldl (classify al lt) ([], []) xs") auto
  then have "(cs, bs) = classify al lt (cs', bs') i"
    using snoc.prems by simp
  then show ?case
    using snoc.IH [OF prev] cls bkt by (auto simp: classify_simp split: if_splits)
qed simp

lemma class_member:
  assumes "foldl (classify al lt) ([], []) xs = (cs, bs)" and "(k, as) \<in> set cs" and "i \<in> set as"
  shows "in_class al lt i" and "dyn_key i = k" and "i \<in> set xs"
proof -
  have "class_allocs cs k = as"
    using classify_classes(1) [OF assms(1)] assms(2) by (simp add: class_allocs_def)
  then have "i \<in> set (filter (\<lambda>i. in_class al lt i \<and> dyn_key i = k) xs)"
    using classify_classes(2) [OF assms(1), of k] assms(3) by simp
  then show "in_class al lt i" and "dyn_key i = k" and "i \<in> set xs"
    by simp_all
qed

definition bucket_ok :: "dyn_bucket \<Rightarrow> bool" where
  "bucket_ok b \<longleftrightarrow> bins_ok (db_bins b) \<and> (\<forall>i \<in> set (concat (db_bins b)). alloc_key i = bucket_key b)"

lemma bucket_first_fit:
  assumes "foldl (classify al lt) ([], []) xs = (cs, bs)" and "b \<in> set bs"
  shows "db_bins b = foldl bin_pack [] (filter (\<lambda>i. \<not> in_class al lt i \<and> alloc_key i = bucket_key b) xs)"
proof -
  have "map_of (map (\<lambda>b. (bucket_key b, db_bins b)) bs) (bucket_key b) = Some (db_bins b)"
    using classify_classes(3) [OF assms(1)] assms(2)
    by (intro map_of_is_SomeI) (auto simp: comp_def)
  then show ?thesis
    using classify_classes(4) [OF assms(1), of "bucket_key b"] by (simp add: bucket_bins_def)
qed

lemma bucket_ok_classify:
  assumes "foldl (classify al lt) ([], []) xs = (cs, bs)" and "b \<in> set bs"
  shows "bucket_ok b"
proof -
  let ?f = "filter (\<lambda>i. \<not> in_class al lt i \<and> alloc_key i = bucket_key b) xs"
  have bins: "bins_ok (db_bins b)" "mset (concat (db_bins b)) = mset ?f"
    using foldl_bin_pack [of ?f] by (simp_all add: bucket_first_fit [OF assms])
  then show ?thesis
    using mset_eq_setD [OF bins(2)] by (auto simp: bucket_ok_def)
qed

lemma class_nonempty:
  assumes "foldl (classify al lt) ([], []) xs = (cs, bs)" and "(k, as) \<in> set cs"
  shows "as \<noteq> []"
proof -
  have add: "\<forall>c \<in> set cs'. snd c \<noteq> [] \<Longrightarrow> \<forall>c \<in> set (add_to_class ops i cs'). snd c \<noteq> []"
    for ops i cs'
    by (induction ops i cs' rule: add_to_class.induct) auto
  have step: "\<forall>c \<in> set (fst acc). snd c \<noteq> [] \<Longrightarrow> \<forall>c \<in> set (fst (classify al lt acc i)). snd c \<noteq> []" for acc i
    by (cases acc) (simp add: classify_simp add)
  have "\<forall>c \<in> set (fst (foldl (classify al lt) ([], []) xs)). snd c \<noteq> []"
  proof (induction xs rule: rev_induct)
    case (snoc x xs)
    then show ?case
      using step [of "foldl (classify al lt) ([], []) xs" x] by simp
  qed simp
  then show ?thesis
    using assms by force
qed

lemma bucket_nonempty:
  assumes "foldl (classify al lt) ([], []) xs = (cs, bs)" and "b \<in> set bs"
  shows "db_bins b \<noteq> []"
proof -
  have ne: "bin_pack bins i \<noteq> []" for bins i
    by (cases "(bins, i)" rule: bin_pack.cases) auto
  have "\<forall>b \<in> set bs'. db_bins b \<noteq> [] \<Longrightarrow> \<forall>b \<in> set (add_to_bucket sf ops i bs'). db_bins b \<noteq> []"
    for sf ops i bs'
    by (induction sf ops i bs' rule: add_to_bucket.induct) (auto simp: ne)
  then have step: "\<forall>b \<in> set (snd acc). db_bins b \<noteq> [] \<Longrightarrow>
      \<forall>b \<in> set (snd (classify al lt acc i)). db_bins b \<noteq> []" for acc i
    by (cases acc) (simp add: classify_simp)
  have "\<forall>b \<in> set (snd (foldl (classify al lt) ([], []) xs)). db_bins b \<noteq> []"
  proof (induction xs rule: rev_induct)
    case (snoc x xs)
    then show ?case
      using step [of "foldl (classify al lt) ([], []) xs" x] by simp
  qed simp
  then show ?thesis
    using assms by simp
qed

text \<open>
  A group's members share its size operands; in units of the group's factor they lie in
  its span and are apart where their lifetimes overlap.
\<close>

definition unit_range :: "alloc_info \<times> int \<Rightarrow> int \<times> int" where
  "unit_range e = (snd e, static_factor_of (fst e))"

definition group_ok :: "int \<Rightarrow> dyn_group \<Rightarrow> bool" where
  "group_ok al g \<longleftrightarrow> 0 \<le> dg_span g \<and>
     (\<forall>e \<in> set (dg_assignments g). 0 \<le> snd e \<and> al dvd snd e \<and>
        snd e + static_factor_of (fst e) \<le> dg_span g \<and> dyn_key (fst e) = dg_dyn g) \<and>
     sorted_wrt (\<lambda>e f. lifetimes_overlap (fst e) (fst f) \<longrightarrow> apart (unit_range e) (unit_range f))
       (dg_assignments g)"

definition slabs_ok :: "dyn_group list \<Rightarrow> nat list list \<Rightarrow> bool" where
  "slabs_ok groups slabs \<longleftrightarrow> [] \<notin> set slabs \<and>
     (\<forall>slab \<in> set slabs. sorted_wrt (\<lambda>a b. groups_disjoint (groups ! a) (groups ! b)) slab)"

lemma groups_disjoint_sym: "groups_disjoint a b = groups_disjoint b a"
  using lifetimes_overlap_sym by (auto simp: groups_disjoint_def list_ex_iff)

lemma place_group_ok:
  "slabs_ok groups slabs \<Longrightarrow> slabs_ok groups (place_group groups slabs gi)"
  by (induction groups slabs gi rule: place_group.induct)
    (auto simp: slabs_ok_def sorted_wrt_append list_all_iff groups_disjoint_sym)

lemma place_group_mset:
  "mset (concat (place_group groups slabs gi)) = add_mset gi (mset (concat slabs))"
  by (induction groups slabs gi rule: place_group.induct) auto

lemma assign_slabs_ok:
  "slabs_ok groups (assign_slabs groups) \<and>
   mset (concat (assign_slabs groups)) = mset [0..<length groups]"
proof -
  have "slabs_ok groups (foldl (place_group groups) [] gs) \<and>
      mset (concat (foldl (place_group groups) [] gs)) = mset gs" for gs
  proof (induction gs rule: rev_induct)
    case (snoc gi gs)
    then show ?case
      using place_group_ok place_group_mset by simp
  qed (simp add: slabs_ok_def)
  then show ?thesis
    by (simp add: assign_slabs_def)
qed

lemma lifetime_groups_ok:
  assumes "foldl (classify al True) ([], []) xs = (cs, bs)"
    and "\<And>i. i \<in> set xs \<Longrightarrow> 0 \<le> static_factor_of i" and "g \<in> set (lifetime_groups cs)"
  shows "group_ok al g"
proof -
  obtain k as a where "(k, as) \<in> set cs" "a \<in> set as"
    and g: "g = \<lparr>dg_dyn = k, dg_assignments = [(a, 0)], dg_span = static_factor_of a\<rparr>"
    using assms(3) by (auto simp: lifetime_groups_def)
  then have "dyn_key a = k" "a \<in> set xs"
    using class_member [OF assms(1)] by blast+
  then show ?thesis
    using assms(2) [of a] by (simp add: g group_ok_def)
qed

lemma packed_groups_ok:
  assumes cl: "foldl (classify al False) ([], []) xs = (cs, bs)" and al: "0 < al"
    and nonneg: "\<And>i. i \<in> set xs \<Longrightarrow> 0 \<le> static_factor_of i" and g: "g \<in> set (packed_groups al cs)"
  shows "group_ok al g"
proof -
  obtain k as where k: "(k, as) \<in> set cs"
    and g: "g = (case pack_greedy_best_fit (sort_key (\<lambda>a. - static_factor_of a) as) static_factor_of al of
              (asg, span) \<Rightarrow> \<lparr>dg_dyn = k, dg_assignments = asg, dg_span = span\<rparr>)"
    using g by (auto simp: packed_groups_def)
  define items where "items = sort_key (\<lambda>a. - static_factor_of a) as"
  obtain asg span where r: "pack_greedy_best_fit items static_factor_of al = (asg, span)"
    by (cases "pack_greedy_best_fit items static_factor_of al") auto
  have mem: "in_class al False i \<and> dyn_key i = k \<and> i \<in> set xs" if "i \<in> set items" for i
    using that class_member [OF cl k] by (simp add: items_def)
  have pk: "packing_ok static_factor_of al (asg, span)"
    using best_fit.pack_packed [OF al, of items static_factor_of] mem nonneg by (simp add: r)
  have asg: "fst e \<in> set items" if "e \<in> set asg" for e
    using best_fit.pack_mem [of e items static_factor_of al] that by (simp add: r)
  have width: "align_to (static_factor_of i) al = static_factor_of i" if "i \<in> set items" for i
    using mem [OF that] nonneg [of i] al
    by (intro align_to_id) (auto simp: in_class_def mod_eq_0_iff_dvd)
  have unit: "range_of static_factor_of al e = unit_range e" if "e \<in> set asg" for e
    using width [OF asg [OF that]] by (simp add: range_of_def unit_range_def)
  have span: "0 \<le> snd e \<and> al dvd snd e \<and> snd e + static_factor_of (fst e) \<le> span \<and> dyn_key (fst e) = k"
    if "e \<in> set asg" for e
    using pk that width [OF asg [OF that]] mem [OF asg [OF that]]
    by (auto simp: packing_ok_def in_span_def)
  have "sorted_wrt (placed_apart static_factor_of al) asg"
    using pk by (simp add: packing_ok_def)
  then have "sorted_wrt (\<lambda>e f. lifetimes_overlap (fst e) (fst f) \<longrightarrow> apart (unit_range e) (unit_range f)) asg"
    by (rule sorted_wrt_mono_rel [rotated]) (simp add: placed_apart_def unit)
  moreover have "g = \<lparr>dg_dyn = k, dg_assignments = asg, dg_span = span\<rparr>"
    using g r by (simp add: items_def)
  ultimately show ?thesis
    using span pk by (simp add: group_ok_def packing_ok_def)
qed

lemma lifetime_groups_mset:
  "mset (concat (map (\<lambda>g. map fst (dg_assignments g)) (lifetime_groups cs))) = mset (concat (map snd cs))"
proof -
  let ?g = "concat (map (\<lambda>(ops, allocs).
      map (\<lambda>a. \<lparr>dg_dyn = ops, dg_assignments = [(a, 0)], dg_span = static_factor_of a\<rparr>) allocs) cs)"
  have sort: "mset (concat (map f (sort_key w xs))) = mset (concat (map f xs))"
    for f :: "dyn_group \<Rightarrow> alloc_info list" and w :: "dyn_group \<Rightarrow> int" and xs
    by (simp add: mset_concat) (metis mset_map mset_sort sum_mset_sum_list)
  have "concat (map (\<lambda>g. map fst (dg_assignments g)) ?g) = concat (map snd cs)"
    by (induction cs) (auto simp: comp_def)
  then show ?thesis
    unfolding lifetime_groups_def sort by simp
qed

lemma packed_groups_mset:
  "mset (concat (map (\<lambda>g. map fst (dg_assignments g)) (packed_groups al cs))) = mset (concat (map snd cs))"
proof (induction cs)
  case (Cons c cs)
  have "map fst (dg_assignments (case pack_greedy_best_fit items w al of
        (asg, span) \<Rightarrow> \<lparr>dg_dyn = k, dg_assignments = asg, dg_span = span\<rparr>)) = items" for items w k
    using best_fit.pack_items [of items w al] by (simp add: case_prod_unfold)
  then show ?case
    using Cons by (simp add: packed_groups_def case_prod_unfold)
qed (simp add: packed_groups_def)

definition packing_members :: "dyn_packing \<Rightarrow> alloc_info list" where
  "packing_members p = concat (map (\<lambda>g. map fst (dg_assignments g)) (dp_groups p)) @
     concat (map (\<lambda>b. concat (db_bins b)) (dp_buckets p))"

definition dyn_packing_ok :: "int \<Rightarrow> alloc_info list \<Rightarrow> dyn_packing \<Rightarrow> bool" where
  "dyn_packing_ok al dynamics p \<longleftrightarrow>
     (\<forall>g \<in> set (dp_groups p). group_ok al g) \<and>
     (\<forall>b \<in> set (dp_buckets p). bucket_ok b \<and> db_bins b \<noteq> []) \<and>
     slabs_ok (dp_groups p) (dp_slabs p) \<and>
     mset (concat (dp_slabs p)) = mset [0..<length (dp_groups p)] \<and>
     mset (packing_members p) = mset dynamics"

lemma pack_dynamic_ok:
  assumes "0 < al" and "\<And>i. i \<in> set dynamics \<Longrightarrow> 0 \<le> static_factor_of i"
  shows "dyn_packing_ok al dynamics (pack_dynamic_allocs dynamics al lt)"
proof -
  obtain cs bs where cl: "foldl (classify al lt) ([], []) dynamics = (cs, bs)"
    by (cases "foldl (classify al lt) ([], []) dynamics") auto
  define groups where "groups = (if lt then lifetime_groups cs else packed_groups al cs)"
  have p: "pack_dynamic_allocs dynamics al lt =
      \<lparr>dp_groups = groups, dp_buckets = bs, dp_slabs = assign_slabs groups\<rparr>"
    by (simp add: pack_dynamic_allocs_def cl groups_def Let_def)
  have "group_ok al g" if "g \<in> set groups" for g
    using that cl assms lifetime_groups_ok [of al dynamics cs bs g]
      packed_groups_ok [of al dynamics cs bs g]
    by (cases lt) (simp_all add: groups_def)
  moreover have "mset (concat (map (\<lambda>g. map fst (dg_assignments g)) groups)) = mset (concat (map snd cs))"
    by (simp only: groups_def lifetime_groups_mset packed_groups_mset split: if_split) simp
  ultimately show ?thesis
    using bucket_ok_classify [OF cl] bucket_nonempty [OF cl] assign_slabs_ok [of groups] classify_mset [OF cl]
    by (simp add: p dyn_packing_ok_def packing_members_def)
qed

section \<open>Peak load of groups and slabs\<close>

lemma group_load:
  assumes "group_ok al g" and "\<forall>e \<in> set (dg_assignments g). 0 \<le> static_factor_of (fst e)"
  shows "load_at (map fst (dg_assignments g)) static_factor_of p \<le> dg_span g"
proof -
  let ?L = "filter (\<lambda>e. live_at p (fst e)) (dg_assignments g)"
  have "sum_list (map snd (map unit_range ?L)) \<le> dg_span g"
  proof (rule sum_apart_le)
    show "sorted_wrt apart (map unit_range ?L)"
      using assms(1) live_at_overlap
      by (intro sorted_wrt_filter_map [where P =
            "\<lambda>e f. lifetimes_overlap (fst e) (fst f) \<longrightarrow> apart (unit_range e) (unit_range f)"])
        (auto simp: group_ok_def)
  qed (use assms in \<open>auto simp: group_ok_def unit_range_def\<close>)
  then show ?thesis
    by (simp add: load_at_sum filter_map comp_def unit_range_def)
qed

lemma foldl_max_ge:
  fixes f :: "'a \<Rightarrow> int"
  shows "a \<le> foldl (\<lambda>w x. max w (f x)) a xs \<and> (\<forall>x \<in> set xs. f x \<le> foldl (\<lambda>w x. max w (f x)) a xs)"
proof (induction xs arbitrary: a)
  case (Cons x xs)
  have "max a (f x) \<le> foldl (\<lambda>w x. max w (f x)) (max a (f x)) xs"
    using Cons.IH by blast
  then show ?case
    using Cons.IH [of "max a (f x)"] by auto
qed simp

lemma slab_span_ge: "gi \<in> set slab \<Longrightarrow> dg_span (groups ! gi) \<le> slab_span groups slab"
  and slab_span_nonneg: "0 \<le> slab_span groups slab"
  using foldl_max_ge [of 0 "\<lambda>gi. dg_span (groups ! gi)" slab] by (auto simp: slab_span_def)

definition group_members :: "dyn_group \<Rightarrow> alloc_info list" where
  "group_members g = map fst (dg_assignments g)"

lemma groups_disjoint_live:
  assumes "groups_disjoint a b" and "filter (live_at p) (group_members a) \<noteq> []"
  shows "filter (live_at p) (group_members b) = []"
proof -
  obtain i where "i \<in> set (group_members a)" "live_at p i"
    using assms(2) by (auto simp: filter_empty_conv)
  then show ?thesis
    using assms(1) live_at_overlap
    by (fastforce simp: groups_disjoint_def group_members_def list_ex_iff filter_empty_conv)
qed

lemma slab_load:
  assumes "sorted_wrt (\<lambda>a b. groups_disjoint (groups ! a) (groups ! b)) slab" and "0 \<le> W"
    and "\<forall>gi \<in> set slab. load_at (group_members (groups ! gi)) w p \<le> W"
  shows "sum_list (map (\<lambda>gi. load_at (group_members (groups ! gi)) w p) slab) \<le> W"
  using assms(1,3)
proof (induction slab)
  case (Cons gi slab)
  show ?case
  proof (cases "filter (live_at p) (group_members (groups ! gi)) = []")
    case True
    then show ?thesis
      using Cons by (simp add: load_at_sum)
  next
    case False
    have "load_at (group_members (groups ! gj)) w p = 0" if "gj \<in> set slab" for gj
      using Cons.prems(1) that groups_disjoint_live [OF _ False, of "groups ! gj"]
      by (simp add: load_at_sum)
    then have "sum_list (map (\<lambda>gi. load_at (group_members (groups ! gi)) w p) slab) = 0"
      by (induction slab) auto
    then show ?thesis
      using Cons.prems(2) by simp
  qed
qed (simp add: assms(2))

lemma load_at_concat:
  "load_at (concat xss) w p = sum_list (map (\<lambda>xs. load_at xs w p) xss)"
  by (induction xss) (simp_all add: load_at_sum)

lemma sum_list_concat: "sum_list (map f (concat xss)) = sum_list (map (\<lambda>xs. sum_list (map f xs)) xss)"
  for f :: "'a \<Rightarrow> int"
  by (induction xss) simp_all

lemma sum_list_nth_upt: "sum_list (map f xs) = sum_list (map (\<lambda>i. f (xs ! i)) [0..<length xs])"
  for f :: "'a \<Rightarrow> int"
proof -
  have "map f (map ((!) xs) [0..<length xs]) = map f xs"
    by (simp only: map_nth)
  then show ?thesis
    by (simp add: comp_def)
qed

lemma sum_list_mset: "mset xs = mset ys \<Longrightarrow> sum_list (map f xs) = sum_list (map f ys)"
  for f :: "'a \<Rightarrow> int"
  by (metis mset_map sum_mset_sum_list)

lemma groups_load_le_slabs:
  assumes ok: "dyn_packing_ok al dynamics p" and nonneg: "\<forall>i \<in> set dynamics. 0 \<le> static_factor_of i"
  shows "max_concurrent_load (concat (map group_members (dp_groups p))) static_factor_of \<le>
    sum_list (map (slab_span (dp_groups p)) (dp_slabs p))"
proof (rule max_concurrent_load_le)
  show "0 \<le> sum_list (map (slab_span (dp_groups p)) (dp_slabs p))"
    by (intro sum_list_nonneg) (auto simp: slab_span_nonneg)
next
  fix q
  let ?l = "\<lambda>gi. load_at (group_members (dp_groups p ! gi)) static_factor_of q"
  have members: "set (packing_members p) = set dynamics"
    using ok by (intro mset_eq_setD) (simp add: dyn_packing_ok_def)
  have slabs: "mset (concat (dp_slabs p)) = mset [0..<length (dp_groups p)]"
    using ok by (simp add: dyn_packing_ok_def)
  have range: "gi < length (dp_groups p)" if "slab \<in> set (dp_slabs p)" "gi \<in> set slab" for slab gi
    using mset_eq_setD [OF slabs] that by auto
  have each: "?l gi \<le> dg_span (dp_groups p ! gi)" if "gi < length (dp_groups p)" for gi
  proof -
    have g: "dp_groups p ! gi \<in> set (dp_groups p)"
      using that by simp
    then have "fst e \<in> set dynamics" if "e \<in> set (dg_assignments (dp_groups p ! gi))" for e
      using that members by (auto simp: packing_members_def)
    then show ?thesis
      using group_load [of al "dp_groups p ! gi" q] ok g nonneg
      by (simp add: dyn_packing_ok_def group_members_def)
  qed
  have "load_at (concat (map group_members (dp_groups p))) static_factor_of q =
      sum_list (map ?l [0..<length (dp_groups p)])"
    by (simp add: load_at_concat comp_def sum_list_nth_upt [of _ "dp_groups p"])
  also have "\<dots> = sum_list (map ?l (concat (dp_slabs p)))"
    by (rule sum_list_mset) (rule slabs [symmetric])
  also have "\<dots> = sum_list (map (\<lambda>slab. sum_list (map ?l slab)) (dp_slabs p))"
    by (rule sum_list_concat)
  also have "\<dots> \<le> sum_list (map (slab_span (dp_groups p)) (dp_slabs p))"
  proof (rule sum_list_mono)
    fix slab assume slab: "slab \<in> set (dp_slabs p)"
    show "sum_list (map ?l slab) \<le> slab_span (dp_groups p) slab"
    proof (rule slab_load)
      show "sorted_wrt (\<lambda>a b. groups_disjoint (dp_groups p ! a) (dp_groups p ! b)) slab"
        using ok slab by (simp add: dyn_packing_ok_def slabs_ok_def)
    qed (use slab range each slab_span_ge order_trans slab_span_nonneg in blast)+
  qed
  finally show "load_at (concat (map group_members (dp_groups p))) static_factor_of q \<le>
      sum_list (map (slab_span (dp_groups p)) (dp_slabs p))" .
qed

section \<open>Properties of the packing phases\<close>

text \<open>C9: Greedy best-fit packing of the static allocations, in the \<open>int64_t\<close> arithmetic of the code:
  when the aligned sizes add up to less than \<open>2 ^ 63\<close>, every allocation is placed exactly once, at an
  aligned offset that is not negative, inside the computed pool size, which is at most that sum; and
  two allocations that are live at the same time never share a byte.\<close>

theorem pack_static_safe:
  assumes "0 < al" and "al < 2 ^ 63" and "\<forall>i \<in> set statics. 0 \<le> ai_bytes i"
    and "(\<Sum>i\<leftarrow>statics. align_to (ai_bytes i) al) < 2 ^ 63"
  shows "(map fst (pack_static_allocs64 statics al) = statics) \<and>
    static_pool_size64 al (pack_static_allocs64 statics al) \<le> (\<Sum>i\<leftarrow>statics. align_to (ai_bytes i) al) \<and>
    (\<forall>(i, off) \<in> set (pack_static_allocs64 statics al).
      0 \<le> off \<and> al dvd off \<and> off + ai_bytes i \<le> static_pool_size64 al (pack_static_allocs64 statics al)) \<and>
    (\<forall>(i, off) \<in> set (pack_static_allocs64 statics al). \<forall>(j, off') \<in> set (pack_static_allocs64 statics al).
      (i, off) \<noteq> (j, off') \<longrightarrow> lifetimes_overlap i j \<longrightarrow>
        off + ai_bytes i \<le> off' \<or> off' + ai_bytes j \<le> off)"
  unfolding pack_static64_eq [OF assms]
proof (intro conjI)
  let ?asg = "pack_static_allocs statics al"
  have pk: "packing_ok ai_bytes al (?asg, static_pool_size al ?asg)"
    using assms by (intro static_packing_ok) auto
  have ge: "ai_bytes i \<le> align_to (ai_bytes i) al" if "(i, off) \<in> set ?asg" for i off
  proof -
    have "i \<in> set statics"
      using that static_items [of statics al] by (metis fst_conv image_eqI set_map)
    then show ?thesis
      using assms by (intro align_to_ge) auto
  qed
  show "map fst ?asg = statics"
    by (rule static_items)
  show "static_pool_size al ?asg \<le> (\<Sum>i\<leftarrow>statics. align_to (ai_bytes i) al)"
    using pack_greedy64_eq(2) [OF assms] by (simp add: static_pool_size_eq)
  show "\<forall>(i, off) \<in> set ?asg. 0 \<le> off \<and> al dvd off \<and> off + ai_bytes i \<le> static_pool_size al ?asg"
    using pk ge by (fastforce simp: packing_ok_def in_span_def)
  show "\<forall>(i, off) \<in> set ?asg. \<forall>(j, off') \<in> set ?asg.
      (i, off) \<noteq> (j, off') \<longrightarrow> lifetimes_overlap i j \<longrightarrow>
        off + ai_bytes i \<le> off' \<or> off' + ai_bytes j \<le> off"
  proof (clarify, goal_cases)
    case (1 i off j off')
    then have "apart (range_of ai_bytes al (i, off)) (range_of ai_bytes al (j, off'))"
      using packing_ok_apart [OF pk, of "(i, off)" "(j, off')"] by simp
    then show ?case
      using ge [OF 1(1)] ge [OF 1(2)] 1(5) by (auto simp: apart_def range_of_def)
  qed
qed

text \<open>C10: Best fit uses the gaps there are: when an aligned place for the next item is free of
  every overlapping reservation and ends below the high-water mark, packing the item does
  not raise the mark.\<close>

theorem pack_greedy_fills_gaps:
  assumes "0 < al" and "\<forall>j \<in> set (items @ [i]). 0 \<le> size_of j"
    and "snd (pack_greedy_best_fit items size_of al) < int64_max"
    and "0 \<le> off" and "al dvd off"
    and "off + align_to (size_of i) al \<le> snd (pack_greedy_best_fit items size_of al)"
    and "\<forall>(j, p) \<in> set (fst (pack_greedy_best_fit items size_of al)). lifetimes_overlap i j \<longrightarrow>
      off + align_to (size_of i) al \<le> p \<or> p + align_to (size_of j) al \<le> off"
  shows "snd (pack_greedy_best_fit (items @ [i]) size_of al) =
    snd (pack_greedy_best_fit items size_of al)"
proof (rule pack_greedy_reuses [OF assms(1) _ assms(3,4,5,6)])
  fix e
  assume "e \<in> set (fst (pack_greedy_best_fit items size_of al))" "lifetimes_overlap i (fst e)"
  then show "apart (off, align_to (size_of i) al) (range_of size_of al e)"
    using assms(7) by (cases e) (auto simp: apart_def range_of_def)
qed (use assms(2) in blast)

text \<open>The fragmentation the pass reports is never negative: the peak concurrent load,
  evaluated at the definition points only, is a lower bound of the static pool size and of
  the summed slab spans.\<close>

theorem fragmentation_nonnegative:
  assumes "0 < al" and "\<forall>i \<in> set statics. 0 \<le> ai_bytes i"
    and "\<forall>i \<in> set dynamics. 0 \<le> static_factor_of i"
  shows "(fr_static_lb (fragmentation_report al statics (pack_dynamic_allocs dynamics al lt)) \<le>
      static_pool_size al (pack_static_allocs statics al)) \<and>
    (load_at statics (\<lambda>i. align_to (ai_bytes i) al) point \<le>
      fr_static_lb (fragmentation_report al statics (pack_dynamic_allocs dynamics al lt))) \<and>
    (fr_dyn_lb_units (fragmentation_report al statics (pack_dynamic_allocs dynamics al lt)) \<le>
      fr_dyn_units (fragmentation_report al statics (pack_dynamic_allocs dynamics al lt)))"
proof (intro conjI)
  let ?p = "pack_dynamic_allocs dynamics al lt"
  have "max_concurrent_load statics (\<lambda>i. align_to (ai_bytes i) al) \<le>
      snd (pack_greedy_best_fit statics ai_bytes al)"
    using assms by (intro best_fit.pack_load) auto
  then show "fr_static_lb (fragmentation_report al statics ?p) \<le>
      static_pool_size al (pack_static_allocs statics al)"
    by (simp add: fragmentation_report_def static_pool_size_eq Let_def)
  show "load_at statics (\<lambda>i. align_to (ai_bytes i) al) point \<le>
      fr_static_lb (fragmentation_report al statics ?p)"
    using assms load_at_le_max [of statics "\<lambda>i. align_to (ai_bytes i) al" point]
    by (simp add: fragmentation_report_def Let_def align_to_nonneg)
  have "(\<lambda>i. static_factor_bytes (ai_type i)) = static_factor_of"
    by (rule ext) (simp add: static_factor_of_def compute_key_def)
  moreover have "dyn_packing_ok al dynamics ?p"
    using assms by (intro pack_dynamic_ok) auto
  ultimately show "fr_dyn_lb_units (fragmentation_report al statics ?p) \<le>
      fr_dyn_units (fragmentation_report al statics ?p)"
    using groups_load_le_slabs [of al dynamics ?p] assms(3)
    by (simp add: fragmentation_report_def Let_def group_members_def [abs_def])
qed

text \<open>C11: The small-bucket bins are optimal: with the allocations in textual order, first fit
  uses for every bucket exactly as many bins as the peak number of its simultaneously live
  members, so the excess-bin statistic is always zero.  Every allocation has a use that is not a
  deallocation (one that is only deallocated has a last use before its definition).\<close>

theorem small_bins_optimal:
  assumes "sorted (map ai_def dynamics)" and "\<forall>i \<in> set dynamics. ai_def i \<le> ai_last i"
  shows "(\<forall>b \<in> set (dp_buckets (pack_dynamic_allocs dynamics al lt)).
      int (length (db_bins b)) = max_concurrent_load (concat (db_bins b)) (\<lambda>i. 1)) \<and>
    (fr_small_bins (fragmentation_report al statics (pack_dynamic_allocs dynamics al lt)) =
      fr_small_min_bins (fragmentation_report al statics (pack_dynamic_allocs dynamics al lt)))"
proof (intro conjI)
  obtain cs bs where cl: "foldl (classify al lt) ([], []) dynamics = (cs, bs)"
    by (cases "foldl (classify al lt) ([], []) dynamics") auto
  have bs: "dp_buckets (pack_dynamic_allocs dynamics al lt) = bs"
    by (simp add: pack_dynamic_allocs_def cl Let_def)
  have opt: "int (length (db_bins b)) = max_concurrent_load (concat (db_bins b)) (\<lambda>i. 1)"
    if b: "b \<in> set bs" for b
  proof -
    let ?f = "filter (\<lambda>i. \<not> in_class al lt i \<and> alloc_key i = bucket_key b) dynamics"
    have bins: "db_bins b = foldl bin_pack [] ?f"
      by (rule bucket_first_fit [OF cl b])
    have "int (length (db_bins b)) \<le> max_concurrent_load ?f (\<lambda>i. 1)"
      unfolding bins using assms by (intro bins_at_most_peak sorted_filter) auto
    moreover have "max_concurrent_load ?f (\<lambda>i. 1) = max_concurrent_load (concat (db_bins b)) (\<lambda>i. 1)"
      using foldl_bin_pack [of ?f] by (intro max_concurrent_load_mset) (simp add: bins)
    moreover have "bins_ok (db_bins b)"
      using foldl_bin_pack [of ?f] by (simp add: bins)
    ultimately show ?thesis
      using bins_at_least_peak by fastforce
  qed
  then show "\<forall>b \<in> set (dp_buckets (pack_dynamic_allocs dynamics al lt)).
      int (length (db_bins b)) = max_concurrent_load (concat (db_bins b)) (\<lambda>i. 1)"
    by (simp add: bs)
  show "fr_small_bins (fragmentation_report al statics (pack_dynamic_allocs dynamics al lt)) =
      fr_small_min_bins (fragmentation_report al statics (pack_dynamic_allocs dynamics al lt))"
    using opt by (simp add: fragmentation_report_def Let_def bs cong: map_cong)
qed

text \<open>Concrete allocations for the examples below: 32-bit elements.\<close>

definition alloc_f32 :: "nat \<Rightarrow> nat \<Rightarrow> int option list \<Rightarrow> val list \<Rightarrow> alloc_info" where
  "alloc_f32 d l shape dyn =
     (let t = \<lparr>mt_shape = shape, mt_bits = 32\<rparr>
      in \<lparr>ai_def = d, ai_last = l, ai_bytes = get_static_byte_size t, ai_type = t, ai_dyn = dyn\<rparr>)"

definition example_statics :: "alloc_info list" where
  "example_statics =
     [alloc_f32 0 3 [Some 250] [], alloc_f32 1 5 [Some 75] [], alloc_f32 4 6 [Some 150] []]"

definition example_dynamics :: "alloc_info list" where
  "example_dynamics =
     [alloc_f32 0 3 [None, Some 3] [Arg 1], alloc_f32 1 5 [None, Some 3] [Arg 1],
      alloc_f32 2 6 [None, Some 64] [Arg 2], alloc_f32 5 6 [None, Some 3] [Arg 1]]"

lemma example_statics_ok: "\<forall>i \<in> set example_statics. 0 \<le> ai_bytes i"
  by code_simp

lemma example_dynamics_ok:
  "\<forall>i \<in> set example_dynamics. 0 \<le> static_factor_of i"
  "sorted (map ai_def example_dynamics)"
  "\<forall>i \<in> set example_dynamics. ai_def i \<le> ai_last i"
  by code_simp+

theorem pack_static_safe_witness:
  "map snd (pack_static_allocs64 example_statics 256) = [0, 1024, 0] \<and>
   static_pool_size64 256 (pack_static_allocs64 example_statics 256) = 1536 \<and>
   map fst (pack_static_allocs64 example_statics 256) = example_statics \<and>
   1024 + ai_bytes (example_statics ! 1) \<le> 1536"
proof -
  have fits: "(\<Sum>i\<leftarrow>example_statics. align_to (ai_bytes i) 256) < 2 ^ 63"
    by code_simp
  have s: "static_pool_size64 256 (pack_static_allocs64 example_statics 256) = 1536"
    by code_simp
  have "map snd (pack_static_allocs64 example_statics 256) = [0, 1024, 0]"
    and "(example_statics ! 1, 1024) \<in> set (pack_static_allocs64 example_statics 256)"
    by code_simp+
  moreover have m: "map fst (pack_static_allocs64 example_statics 256) = example_statics"
    and "\<forall>(i, off) \<in> set (pack_static_allocs64 example_statics 256).
      0 \<le> off \<and> 256 dvd off \<and> off + ai_bytes i \<le> 1536"
    using pack_static_safe [OF _ _ example_statics_ok fits] unfolding s by simp_all
  ultimately show ?thesis
    using s by blast
qed

theorem pack_greedy_fills_gaps_witness:
  "snd (pack_greedy_best_fit (take 2 example_statics @ [example_statics ! 2]) ai_bytes 256) = 1536"
proof -
  have h: "snd (pack_greedy_best_fit (take 2 example_statics) ai_bytes 256) = 1536"
    by code_simp
  have "\<forall>j \<in> set (take 2 example_statics @ [example_statics ! 2]). 0 \<le> ai_bytes j"
    by code_simp
  moreover have "(1536 :: int) < int64_max"
    by (simp add: int64_max_def)
  moreover have "0 + align_to (ai_bytes (example_statics ! 2)) 256 \<le> (1536 :: int)"
    by code_simp
  moreover have "\<forall>(j, p) \<in> set (fst (pack_greedy_best_fit (take 2 example_statics) ai_bytes 256)).
      lifetimes_overlap (example_statics ! 2) j \<longrightarrow>
        0 + align_to (ai_bytes (example_statics ! 2)) 256 \<le> p \<or>
        p + align_to (ai_bytes j) 256 \<le> 0"
    by code_simp
  ultimately show ?thesis
    using pack_greedy_fills_gaps [of 256 "take 2 example_statics" "example_statics ! 2" ai_bytes 0]
    by (simp only: h) simp
qed

theorem fragmentation_nonnegative_witness:
  "fr_static_lb (fragmentation_report 256 example_statics
      (pack_dynamic_allocs example_dynamics 256 False)) \<le> 1536 \<and>
   fr_dyn_lb_units (fragmentation_report 256 example_statics
      (pack_dynamic_allocs example_dynamics 256 False)) \<le> 256"
proof -
  have "static_pool_size 256 (pack_static_allocs example_statics 256) = 1536"
    by code_simp
  moreover have "fr_dyn_units (fragmentation_report 256 example_statics
      (pack_dynamic_allocs example_dynamics 256 False)) = 256"
    by code_simp
  ultimately show ?thesis
    using fragmentation_nonnegative [OF _ example_statics_ok example_dynamics_ok(1), of 256 False]
    by simp
qed

theorem small_bins_optimal_witness:
  "fr_small_bins (fragmentation_report 256 example_statics
      (pack_dynamic_allocs example_dynamics 256 False)) = 2 \<and>
   fr_small_min_bins (fragmentation_report 256 example_statics
      (pack_dynamic_allocs example_dynamics 256 False)) = 2"
proof -
  have "fr_small_bins (fragmentation_report 256 example_statics
      (pack_dynamic_allocs example_dynamics 256 False)) = 2"
    by code_simp
  then show ?thesis
    using small_bins_optimal [OF example_dynamics_ok(2,3), of 256 False example_statics] by simp
qed

end
