(* ===== verification/Pool_Domains.thy ===== *)
theory Pool_Domains
  imports Pool_Packing
begin

text \<open>
  Phase 1.5 of \<open>PoolAllocs.cpp\<close>: the insertion point between the operations that must come
  before and those that must come after, and the greedy partition of the allocations into
  dominance domains.
\<close>

section \<open>Insertion points\<close>

definition later_op :: "block_ops \<Rightarrow> nat option \<Rightarrow> nat \<Rightarrow> nat option" where
  "later_op blk lo a =
     (case lo of None \<Rightarrow> Some a | Some l \<Rightarrow> if is_before blk l a then Some a else Some l)"

definition earlier_op :: "block_ops \<Rightarrow> nat option \<Rightarrow> nat \<Rightarrow> nat option" where
  "earlier_op blk hi a =
     (case hi of None \<Rightarrow> Some a | Some h \<Rightarrow> if is_before blk a h then Some a else Some h)"

definition find_latest_legal_insertion_point ::
  "block_ops \<Rightarrow> nat list \<Rightarrow> nat list \<Rightarrow> ipoint option" where
  "find_latest_legal_insertion_point blk required_after required_before =
     (let lo = foldl (later_op blk) None required_after;
          hi = foldl (earlier_op blk) None required_before
      in case (lo, hi) of
           (None, None) \<Rightarrow> Some Block_end
         | (None, Some h) \<Rightarrow> Some (Before h)
         | (Some l, None) \<Rightarrow> Some (next_point blk l)
         | (Some l, Some h) \<Rightarrow> if \<not> is_before blk l h then None else Some (next_point blk l))"

section \<open>Domains\<close>

text \<open>\<open>getDefiningOp\<close> restricted to the operations of the block.\<close>

definition block_def :: "block_ops \<Rightarrow> val \<Rightarrow> nat option" where
  "block_def blk v =
     (case defining_op v of
        None \<Rightarrow> None
      | Some a \<Rightarrow> if a \<in> set (map fst blk) then Some a else None)"

definition block_defs :: "block_ops \<Rightarrow> val list \<Rightarrow> nat list" where
  "block_defs blk vs = concat (map (\<lambda>v. case block_def blk v of None \<Rightarrow> [] | Some a \<Rightarrow> [a]) vs)"

definition domain_feasible :: "block_ops \<Rightarrow> alloc_info list \<Rightarrow> bool" where
  "domain_feasible blk allocs =
     (find_latest_legal_insertion_point blk
        (concat (map (\<lambda>i. block_defs blk (ai_dyn i)) allocs))
        (map ai_def allocs) \<noteq> None)"

fun join_domain :: "block_ops \<Rightarrow> alloc_info \<Rightarrow> alloc_info list list \<Rightarrow> alloc_info list list option" where
  "join_domain blk info [] = None"
| "join_domain blk info (d # ds) =
     (if domain_feasible blk (d @ [info]) then Some ((d @ [info]) # ds)
      else map_option (\<lambda>ds'. d # ds') (join_domain blk info ds))"

definition partition_step ::
  "block_ops \<Rightarrow> alloc_info list list \<Rightarrow> alloc_info \<Rightarrow> alloc_info list list" where
  "partition_step blk domains info =
     (case join_domain blk info (rev domains) of
        Some ds \<Rightarrow> rev ds
      | None \<Rightarrow> domains @ [[info]])"

definition partition_by_dominance_domain ::
  "block_ops \<Rightarrow> alloc_info list \<Rightarrow> alloc_info list list" where
  "partition_by_dominance_domain blk infos =
     foldl (partition_step blk) [] (sort_key ai_def infos)"

section \<open>The insertion point\<close>

lemma foldl_later:
  assumes "foldl (later_op blk) acc as = Some l"
  shows "(acc = Some l \<or> l \<in> set as) \<and> (\<forall>a \<in> set as. op_pos blk a \<le> op_pos blk l) \<and>
    (\<forall>x. acc = Some x \<longrightarrow> op_pos blk x \<le> op_pos blk l)"
  using assms
proof (induction as arbitrary: acc)
  case (Cons a as)
  obtain y where y: "later_op blk acc a = Some y" "op_pos blk a \<le> op_pos blk y"
    "y = a \<or> acc = Some y" "\<forall>x. acc = Some x \<longrightarrow> op_pos blk x \<le> op_pos blk y"
    by (cases acc; cases "is_before blk (the acc) a") (auto simp: later_op_def is_before_def)
  have "foldl (later_op blk) (Some y) as = Some l"
    using Cons.prems y(1) by simp
  then have "(Some y = Some l \<or> l \<in> set as) \<and> (\<forall>a \<in> set as. op_pos blk a \<le> op_pos blk l) \<and>
      (\<forall>x. Some y = Some x \<longrightarrow> op_pos blk x \<le> op_pos blk l)"
    by (rule Cons.IH)
  then show ?case
    using y by (auto intro: order_trans)
qed simp

lemma foldl_later_None: "foldl (later_op blk) acc as = None \<longleftrightarrow> acc = None \<and> as = []"
  by (induction as arbitrary: acc) (auto simp: later_op_def split: option.splits)

lemma foldl_earlier:
  assumes "foldl (earlier_op blk) acc as = Some h"
  shows "(acc = Some h \<or> h \<in> set as) \<and> (\<forall>a \<in> set as. op_pos blk h \<le> op_pos blk a) \<and>
    (\<forall>x. acc = Some x \<longrightarrow> op_pos blk h \<le> op_pos blk x)"
  using assms
proof (induction as arbitrary: acc)
  case (Cons a as)
  obtain y where y: "earlier_op blk acc a = Some y" "op_pos blk y \<le> op_pos blk a"
    "y = a \<or> acc = Some y" "\<forall>x. acc = Some x \<longrightarrow> op_pos blk y \<le> op_pos blk x"
    by (cases acc; cases "is_before blk a (the acc)") (auto simp: earlier_op_def is_before_def)
  have "foldl (earlier_op blk) (Some y) as = Some h"
    using Cons.prems y(1) by simp
  then have "(Some y = Some h \<or> h \<in> set as) \<and> (\<forall>a \<in> set as. op_pos blk h \<le> op_pos blk a) \<and>
      (\<forall>x. Some y = Some x \<longrightarrow> op_pos blk h \<le> op_pos blk x)"
    by (rule Cons.IH)
  then show ?case
    using y by (auto intro: order_trans)
qed simp

lemma foldl_earlier_None: "foldl (earlier_op blk) acc as = None \<longleftrightarrow> acc = None \<and> as = []"
  by (induction as arbitrary: acc) (auto simp: earlier_op_def split: option.splits)

lemma ip_pos_next_point:
  "a \<in> set (map fst blk) \<Longrightarrow> distinct (map fst blk) \<Longrightarrow>
   ip_pos blk (next_point blk a) = Suc (op_pos blk a)"
  using op_pos_less_iff [of blk a] by (auto simp: next_point_def Let_def op_pos_at)

text \<open>Feasibility: everything required before comes strictly after everything required after.\<close>

lemma insertion_point_feasible:
  assumes "before \<noteq> []"
  shows "find_latest_legal_insertion_point blk after before \<noteq> None \<longleftrightarrow>
    (\<forall>a \<in> set after. \<forall>b \<in> set before. is_before blk a b)"
proof -
  obtain h where h: "foldl (earlier_op blk) None before = Some h"
    using assms foldl_earlier_None [of blk None before] by (cases "foldl (earlier_op blk) None before") auto
  note H = foldl_earlier [OF h]
  show ?thesis
  proof (cases "foldl (later_op blk) None after")
    case None
    then show ?thesis
      using h foldl_later_None [of blk None after]
      by (simp add: find_latest_legal_insertion_point_def)
  next
    case (Some l)
    note L = foldl_later [OF Some]
    have "is_before blk l h \<longleftrightarrow> (\<forall>a \<in> set after. \<forall>b \<in> set before. is_before blk a b)"
      using H L unfolding is_before_def by (metis le_less_trans less_le_trans option.distinct(1))
    then show ?thesis
      using h Some by (simp add: find_latest_legal_insertion_point_def)
  qed
qed

text \<open>
  The point lies after every required predecessor and not after any required successor,
  so an operation inserted there is strictly between them.
\<close>

lemma insertion_point_legal:
  assumes r: "find_latest_legal_insertion_point blk after before = Some ip"
    and blk: "distinct (map fst blk)" "set after \<subseteq> set (map fst blk)"
    and before: "before \<noteq> []" "set before \<subseteq> set (map fst blk)"
  shows "\<exists>x \<in> set (map fst blk). ip = Before x"
    and "a \<in> set after \<Longrightarrow> op_pos blk a < ip_pos blk ip"
    and "b \<in> set before \<Longrightarrow> ip_pos blk ip \<le> op_pos blk b"
    and "after \<noteq> [] \<Longrightarrow> \<exists>a \<in> set after. ip_pos blk ip = Suc (op_pos blk a)"
    and "after = [] \<Longrightarrow> \<exists>b \<in> set before. ip = Before b"
proof -
  obtain h where h: "foldl (earlier_op blk) None before = Some h"
    using before foldl_earlier_None [of blk None before] by (cases "foldl (earlier_op blk) None before") auto
  have H: "h \<in> set before" "\<forall>b \<in> set before. op_pos blk h \<le> op_pos blk b"
    using foldl_earlier [OF h] by auto
  have hb: "h \<in> set (map fst blk)"
    using H(1) before(2) by blast
  have "(\<exists>x \<in> set (map fst blk). ip = Before x) \<and>
    (\<forall>a \<in> set after. op_pos blk a < ip_pos blk ip) \<and>
    (\<forall>b \<in> set before. ip_pos blk ip \<le> op_pos blk b) \<and>
    (after \<noteq> [] \<longrightarrow> (\<exists>a \<in> set after. ip_pos blk ip = Suc (op_pos blk a))) \<and>
    (after = [] \<longrightarrow> (\<exists>b \<in> set before. ip = Before b))"
  proof (cases "foldl (later_op blk) None after")
    case None
    then have "after = []" "ip = Before h"
      using r h foldl_later_None [of blk None after]
      by (simp_all add: find_latest_legal_insertion_point_def)
    then show ?thesis
      using H hb by auto
  next
    case (Some l)
    have L: "l \<in> set after" "\<forall>a \<in> set after. op_pos blk a \<le> op_pos blk l"
      using foldl_later [OF Some] by auto
    have lh: "is_before blk l h" and ip: "ip = next_point blk l"
      using r h Some by (auto simp: find_latest_legal_insertion_point_def split: if_splits)
    have lb: "l \<in> set (map fst blk)"
      using L(1) blk(2) by blast
    have pos: "ip_pos blk ip = Suc (op_pos blk l)"
      unfolding ip using lb blk(1) by (rule ip_pos_next_point)
    have "Suc (op_pos blk l) < length blk"
      using lh hb op_pos_less_iff [of blk h] by (simp add: is_before_def)
    then have "\<exists>x \<in> set (map fst blk). ip = Before x"
      by (auto simp: ip next_point_def Let_def)
    then show ?thesis
      using pos L H lh by (auto simp: is_before_def less_Suc_eq_le Suc_le_eq intro: le_less_trans less_le_trans)
  qed
  then show "\<exists>x \<in> set (map fst blk). ip = Before x"
    and "a \<in> set after \<Longrightarrow> op_pos blk a < ip_pos blk ip"
    and "b \<in> set before \<Longrightarrow> ip_pos blk ip \<le> op_pos blk b"
    and "after \<noteq> [] \<Longrightarrow> \<exists>a \<in> set after. ip_pos blk ip = Suc (op_pos blk a)"
    and "after = [] \<Longrightarrow> \<exists>b \<in> set before. ip = Before b"
    by blast+
qed

section \<open>Feasible domains\<close>

definition defs_of :: "block_ops \<Rightarrow> alloc_info \<Rightarrow> nat list" where
  "defs_of blk i = block_defs blk (ai_dyn i)"

definition defs_before :: "block_ops \<Rightarrow> alloc_info \<Rightarrow> alloc_info \<Rightarrow> bool" where
  "defs_before blk i j \<longleftrightarrow> (\<forall>a \<in> set (defs_of blk i). is_before blk a (ai_def j))"

text \<open>
  An allocation of the block: its identity is its index, and its size operands are
  defined above it.
\<close>

definition alloc_in :: "block_ops \<Rightarrow> alloc_info \<Rightarrow> bool" where
  "alloc_in blk i \<longleftrightarrow> ai_def i \<in> set (map fst blk) \<and> op_pos blk (ai_def i) = ai_def i \<and>
     defs_before blk i i"

lemma set_block_defs: "set (block_defs blk vs) \<subseteq> set (map fst blk)"
  by (auto simp: block_defs_def block_def_def split: option.splits if_splits)

lemma block_defs_iff:
  "d \<in> set (block_defs blk vs) \<longleftrightarrow> d \<in> set (map fst blk) \<and> (\<exists>k. Res d k \<in> set vs)"
proof (induction vs)
  case (Cons v vs)
  then show ?case
    by (cases v) (auto simp: block_defs_def block_def_def)
qed (simp add: block_defs_def)

lemma domain_feasible_iff:
  "d \<noteq> [] \<Longrightarrow> domain_feasible blk d \<longleftrightarrow> (\<forall>i \<in> set d. \<forall>j \<in> set d. defs_before blk i j)"
  by (auto simp: domain_feasible_def insertion_point_feasible defs_before_def defs_of_def
      simp del: not_None_eq)

lemma defs_before_mono:
  "defs_before blk i j \<Longrightarrow> op_pos blk (ai_def j) \<le> op_pos blk (ai_def k) \<Longrightarrow> defs_before blk i k"
  by (fastforce simp: defs_before_def is_before_def)

text \<open>
  The state of the partition: feasible domains in textual order, each opened by an
  allocation one of whose sizes is defined at or below the opener of every earlier domain.
\<close>

definition opened_below :: "block_ops \<Rightarrow> alloc_info list \<Rightarrow> alloc_info list \<Rightarrow> bool" where
  "opened_below blk d e \<longleftrightarrow> ai_def (hd d) < ai_def (hd e) \<and> \<not> defs_before blk (hd e) (hd d)"

definition domains_ok :: "block_ops \<Rightarrow> alloc_info list list \<Rightarrow> bool" where
  "domains_ok blk ds \<longleftrightarrow>
     (\<forall>d \<in> set ds. d \<noteq> [] \<and> domain_feasible blk d \<and> sorted (map ai_def d)) \<and>
     sorted_wrt (opened_below blk) ds"

lemma domain_join_last:
  assumes ok: "domains_ok blk (ds @ [D])" and d: "d \<in> set ds"
    and ins: "\<forall>i \<in> set (concat (ds @ [D])) \<union> {info}. alloc_in blk i"
    and late: "\<forall>i \<in> set (concat (ds @ [D])). ai_def i < ai_def info"
    and feas: "domain_feasible blk (d @ [info])"
  shows "domain_feasible blk (D @ [info])"
proof -
  have D: "D \<noteq> []" "domain_feasible blk D" "sorted (map ai_def D)" and dne: "d \<noteq> []"
    and heads: "ai_def (hd d) < ai_def (hd D)"
    using ok d by (auto simp: domains_ok_def sorted_wrt_append opened_below_def)
  have pos: "op_pos blk (ai_def i) = ai_def i" if "i \<in> set (concat (ds @ [D])) \<union> {info}" for i
    using ins that by (simp only: alloc_in_def)
  have hd_le: "ai_def (hd D) \<le> ai_def j" if "j \<in> set D" for j
    using D(1,3) that by (cases D) auto
  have "hd d \<in> set d" "hd D \<in> set D"
    using dne D(1) by simp_all
  have info_hd: "defs_before blk info (hd d)"
    using feas \<open>hd d \<in> set d\<close> by (simp add: domain_feasible_iff)
  have "defs_before blk i j" if i: "i \<in> set (D @ [info])" and j: "j \<in> set (D @ [info])" for i j
  proof (cases "i = info")
    case True
    show ?thesis
    proof (cases "j = info")
      case True
      then show ?thesis
        using ins \<open>i = info\<close> by (auto simp: alloc_in_def)
    next
      case False
      then have "j \<in> set D"
        using j by simp
      moreover have "op_pos blk (ai_def (hd d)) = ai_def (hd d)"
        using d \<open>hd d \<in> set d\<close> by (intro pos) fastforce
      ultimately have "op_pos blk (ai_def (hd d)) \<le> op_pos blk (ai_def j)"
        using hd_le [of j] heads pos [of j] by simp
      then show ?thesis
        using info_hd \<open>i = info\<close> defs_before_mono by blast
    qed
  next
    case False
    then have iD: "i \<in> set D"
      using i by simp
    have base: "defs_before blk i (hd D)"
      using D(1,2) iD \<open>hd D \<in> set D\<close> by (simp add: domain_feasible_iff)
    have "ai_def (hd D) \<le> ai_def j"
      using j hd_le [of j] late \<open>hd D \<in> set D\<close> by (auto intro: less_imp_le)
    then have "op_pos blk (ai_def (hd D)) \<le> op_pos blk (ai_def j)"
      using pos [of "hd D"] pos [of j] j \<open>hd D \<in> set D\<close> by auto
    then show ?thesis
      using base defs_before_mono by blast
  qed
  then show ?thesis
    by (simp add: domain_feasible_iff)
qed

lemma join_domain_None: "(\<And>d. d \<in> set ds \<Longrightarrow> \<not> domain_feasible blk (d @ [info])) \<Longrightarrow> join_domain blk info ds = None"
  by (induction ds) auto

text \<open>Only the most recent domain ever accepts an allocation.\<close>

lemma partition_step_last:
  assumes "domains_ok blk ds" and "\<forall>i \<in> set (concat ds) \<union> {info}. alloc_in blk i"
    and "\<forall>i \<in> set (concat ds). ai_def i < ai_def info"
  shows "partition_step blk ds info =
    (if ds \<noteq> [] \<and> domain_feasible blk (last ds @ [info])
     then butlast ds @ [last ds @ [info]] else ds @ [[info]])"
proof (cases ds rule: rev_cases)
  case Nil
  then show ?thesis
    by (simp add: partition_step_def)
next
  case (snoc es D)
  show ?thesis
  proof (cases "domain_feasible blk (D @ [info])")
    case True
    then show ?thesis
      by (simp add: partition_step_def snoc)
  next
    case False
    have "\<not> domain_feasible blk (d @ [info])" if "d \<in> set es" for d
      using domain_join_last [of blk es D d info] assms that False by (auto simp: snoc)
    then have "join_domain blk info (rev es) = None"
      by (intro join_domain_None) simp
    then show ?thesis
      using False by (simp add: partition_step_def snoc)
  qed
qed

lemma domains_ok_step:
  assumes ok: "domains_ok blk ds" and ins: "\<forall>i \<in> set (concat ds) \<union> {info}. alloc_in blk i"
    and late: "\<forall>i \<in> set (concat ds). ai_def i < ai_def info"
  shows "domains_ok blk (partition_step blk ds info)"
proof (cases "ds \<noteq> [] \<and> domain_feasible blk (last ds @ [info])")
  case True
  then obtain es D where ds: "ds = es @ [D]" and feas: "domain_feasible blk (D @ [info])"
    by (cases ds rule: rev_cases) auto
  then have "partition_step blk ds info = es @ [D @ [info]]"
    using partition_step_last [OF assms] True by simp
  then show ?thesis
    using ok feas late
    by (auto simp: ds domains_ok_def sorted_wrt_append opened_below_def sorted_append
        intro: less_imp_le)
next
  case False
  have step: "partition_step blk ds info = ds @ [[info]]"
    using partition_step_last [OF assms] False by auto
  have single: "domain_feasible blk [info]"
    using ins by (auto simp: domain_feasible_iff alloc_in_def)
  have "opened_below blk d [info]" if d: "d \<in> set ds" for d
  proof -
    obtain es D where ds: "ds = es @ [D]"
      using d by (cases ds rule: rev_cases) auto
    have D: "D \<noteq> []" "domain_feasible blk D" "sorted (map ai_def D)"
      using ok by (auto simp: ds domains_ok_def)
    have pos: "op_pos blk (ai_def i) = ai_def i" if "i \<in> set (concat ds) \<union> {info}" for i
      using ins that by (simp only: alloc_in_def)
    have hd_le: "ai_def (hd D) \<le> ai_def j" if "j \<in> set D" for j
      using D(1,3) that by (cases D) auto
    have dne: "d \<noteq> []" and hd_hd: "ai_def (hd d) \<le> ai_def (hd D)"
      using ok d by (auto simp: ds domains_ok_def sorted_wrt_append opened_below_def)
    have "\<not> defs_before blk info (hd D)"
    proof
      assume info: "defs_before blk info (hd D)"
      have "defs_before blk i j" if "i \<in> set (D @ [info])" "j \<in> set (D @ [info])" for i j
      proof -
        have "defs_before blk i (hd D)"
          using that(1) info D(1,2) by (auto simp: domain_feasible_iff)
        moreover have "ai_def (hd D) \<le> ai_def j"
          using that(2) hd_le [of j] late D(1) by (auto simp: ds intro: less_imp_le)
        ultimately show ?thesis
          using pos [of j] pos [of "hd D"] that(2) D(1)
          by (intro defs_before_mono [of blk i "hd D" j]) (auto simp: ds)
      qed
      then show False
        using False by (simp add: ds domain_feasible_iff)
    qed
    moreover have "op_pos blk (ai_def (hd d)) = ai_def (hd d)"
      using d hd_in_set [OF dne] by (intro pos) fastforce
    moreover have "op_pos blk (ai_def (hd D)) = ai_def (hd D)"
      using D(1) by (intro pos) (simp add: ds)
    ultimately have "\<not> defs_before blk info (hd d)"
      using defs_before_mono [of blk info "hd d" "hd D"] hd_hd by auto
    then show ?thesis
      using late d dne by (auto simp: opened_below_def)
  qed
  then show ?thesis
    using ok single by (auto simp: step domains_ok_def sorted_wrt_append)
qed

lemma partition_step_mset:
  "mset (concat (partition_step blk ds info)) = add_mset info (mset (concat ds))"
proof -
  have "join_domain blk info es = Some es' \<Longrightarrow> mset (concat es') = add_mset info (mset (concat es))" for es es'
    by (induction es arbitrary: es') (auto split: if_splits)
  moreover have "mset (concat (rev es)) = mset (concat es)" for es :: "alloc_info list list"
    by (simp add: mset_concat sum_list_rev flip: rev_map)
  ultimately show ?thesis
    by (auto simp: partition_step_def split: option.splits)
qed

lemma partition_foldl:
  assumes "sorted_wrt (\<lambda>i j. ai_def i < ai_def j) infos" and "\<forall>i \<in> set infos. alloc_in blk i"
  shows "domains_ok blk (foldl (partition_step blk) [] infos) \<and>
    mset (concat (foldl (partition_step blk) [] infos)) = mset infos"
  using assms
proof (induction infos rule: rev_induct)
  case (snoc i infos)
  let ?ds = "foldl (partition_step blk) [] infos"
  have ih: "domains_ok blk ?ds" "mset (concat ?ds) = mset infos"
    using snoc by (simp_all add: sorted_wrt_append)
  have "set (concat ?ds) = set infos"
    using ih(2) by (rule mset_eq_setD)
  then have "domains_ok blk (partition_step blk ?ds i)"
    using snoc.prems by (intro domains_ok_step ih(1)) (simp_all only: sorted_wrt_append, auto)
  then show ?case
    using ih(2) partition_step_mset by simp
qed (simp add: domains_ok_def)

lemma strict_sort_key:
  "distinct (map ai_def infos) \<Longrightarrow> sorted_wrt (\<lambda>i j. ai_def i < ai_def j) (sort_key ai_def infos)"
proof -
  assume "distinct (map ai_def infos)"
  then have "distinct (map ai_def (sort_key ai_def infos))"
    by (metis distinct_map distinct_sort set_sort)
  moreover have "sorted (map ai_def (sort_key ai_def infos))"
    by simp
  ultimately have "sorted_wrt (<) (map ai_def (sort_key ai_def infos))"
    by (simp add: strict_sorted_iff)
  then show "sorted_wrt (\<lambda>i j. ai_def i < ai_def j) (sort_key ai_def infos)"
    by (simp only: sorted_wrt_map)
qed

lemma partition_ok:
  assumes "distinct (map ai_def infos)" and "\<forall>i \<in> set infos. alloc_in blk i"
  shows "domains_ok blk (partition_by_dominance_domain blk infos)"
    and "mset (concat (partition_by_dominance_domain blk infos)) = mset infos"
  using partition_foldl [OF strict_sort_key [OF assms(1)], of blk] assms(2)
  by (simp_all add: partition_by_dominance_domain_def)

section \<open>Openers of different domains never share a domain\<close>

lemma opener_feasible:
  assumes "domain_feasible blk D" and "hd d \<in> set D" and "hd e \<in> set D"
  shows "\<not> opened_below blk d e"
proof -
  have "D \<noteq> []"
    using assms(2) by auto
  then show ?thesis
    using assms by (simp add: domain_feasible_iff opened_below_def)
qed

lemma domains_le_feasible_cover:
  assumes ok: "domains_ok blk ds" and cover: "set (concat ds) \<subseteq> set (concat Ds)"
    and feas: "\<forall>D \<in> set Ds. domain_feasible blk D"
  shows "length ds \<le> length Ds"
proof -
  define home where "home i = (SOME k. k < length Ds \<and> hd (ds ! i) \<in> set (Ds ! k))" for i
  have home: "home i < length Ds \<and> hd (ds ! i) \<in> set (Ds ! home i)" if i: "i < length ds" for i
  proof -
    have "ds ! i \<noteq> []"
      using ok i by (simp add: domains_ok_def)
    then have "hd (ds ! i) \<in> set (concat ds)"
      using i by (auto intro!: bexI [of _ "ds ! i"])
    then have "hd (ds ! i) \<in> set (concat Ds)"
      using cover by blast
    then obtain D where "D \<in> set Ds" "hd (ds ! i) \<in> set D"
      by auto
    then have "\<exists>k < length Ds. hd (ds ! i) \<in> set (Ds ! k)"
      by (metis in_set_conv_nth)
    then show ?thesis
      unfolding home_def by (rule someI_ex)
  qed
  have below: "opened_below blk (ds ! i) (ds ! j)" if "i < j" "j < length ds" for i j
    using ok that by (simp add: domains_ok_def sorted_wrt_iff_nth_less)
  have neq: "home i \<noteq> home j" if "i < j" "j < length ds" for i j
  proof
    assume eq: "home i = home j"
    have "hd (ds ! i) \<in> set (Ds ! home i)" "hd (ds ! j) \<in> set (Ds ! home i)" "home i < length Ds"
      using home [of i] home [of j] that eq by simp_all
    then show False
      using opener_feasible [of blk "Ds ! home i" "ds ! i" "ds ! j"] below [OF that] feas by simp
  qed
  then have "inj_on home {..<length ds}"
    by (metis (no_types, lifting) inj_onI lessThan_iff linorder_neqE_nat)
  moreover have "home ` {..<length ds} \<subseteq> {..<length Ds}"
    using home by auto
  ultimately have "card {..<length ds} \<le> card {..<length Ds}"
    by (intro card_inj_on_le) auto
  then show ?thesis
    by simp
qed

section \<open>Properties of the partition\<close>

text \<open>C14: The point found for emitted size arithmetic is legal: after every operation it
  depends on and before every allocation it serves.  Where it depends on some operation,
  it is the earliest such point; the place right above the first allocation is chosen only
  without dependencies.\<close>

theorem insertion_point_earliest:
  assumes "find_latest_legal_insertion_point blk after before = Some ip"
    and "distinct (map fst blk)" and "set after \<subseteq> set (map fst blk)"
    and "before \<noteq> []" and "set before \<subseteq> set (map fst blk)"
  shows "(\<forall>a \<in> set after. op_pos blk a < ip_pos blk ip) \<and>
    (\<forall>b \<in> set before. ip_pos blk ip \<le> op_pos blk b) \<and>
    (\<forall>p. (\<forall>a \<in> set after. op_pos blk a < p) \<longrightarrow> (\<forall>b \<in> set before. p \<le> op_pos blk b) \<longrightarrow>
       (if after \<noteq> [] then ip_pos blk ip \<le> p else p \<le> ip_pos blk ip))"
proof -
  note legal = insertion_point_legal [OF assms]
  show ?thesis
  proof (cases "after = []")
    case True
    then show ?thesis
      using legal by auto
  next
    case False
    then obtain a where "a \<in> set after" "ip_pos blk ip = Suc (op_pos blk a)"
      using legal(4) by blast
    then show ?thesis
      using legal False by (auto simp: Suc_le_eq)
  qed
qed

definition example_block :: "block_ops" where
  "example_block =
     [(0, Other [] []), (1, Other [] []), (2, Alloc \<lparr>mt_shape = [None], mt_bits = 32\<rparr> [Res 0 0]),
      (3, Other [Res 2 0] []), (4, Other [Res 3 0] []),
      (5, Alloc \<lparr>mt_shape = [None], mt_bits = 32\<rparr> [Res 4 0]), (6, Other [Res 5 0] []),
      (7, Alloc \<lparr>mt_shape = [None], mt_bits = 32\<rparr> [Res 0 0])]"

theorem insertion_point_earliest_witness:
  "find_latest_legal_insertion_point example_block [0] [2, 5] = Some (Before 1) \<and>
   ip_pos example_block (Before 1) \<le> op_pos example_block 2 \<and>
   ip_pos example_block (Before 1) \<le> op_pos example_block 5"
proof -
  have r: "find_latest_legal_insertion_point example_block [0] [2, 5] = Some (Before 1)"
    by code_simp
  have "distinct (map fst example_block)" "set [0 :: nat] \<subseteq> set (map fst example_block)"
    "set [2 :: nat, 5] \<subseteq> set (map fst example_block)"
    by code_simp+
  from insertion_point_earliest [OF r this(1,2) _ this(3)] show ?thesis
    using r by simp
qed

text \<open>C12: The partition loses and repeats no allocation, every domain admits a common
  insertion point for its pool, above all its allocations and below all their size
  operands, and each domain keeps textual order.\<close>

theorem partition_sound:
  assumes "distinct (map ai_def infos)" and "\<forall>i \<in> set infos. alloc_in blk i"
  shows "mset (concat (partition_by_dominance_domain blk infos)) = mset infos \<and>
    (\<forall>d \<in> set (partition_by_dominance_domain blk infos).
       d \<noteq> [] \<and> sorted (map ai_def d) \<and>
       (\<forall>i \<in> set d. \<forall>j \<in> set d. \<forall>a \<in> set (block_defs blk (ai_dyn i)). is_before blk a (ai_def j)))"
  using partition_ok [OF assms]
  by (auto simp: domains_ok_def domain_feasible_iff defs_before_def defs_of_def)

text \<open>C13: The partition is minimal: however the allocations are divided into domains that
  each admit an insertion point, there are at least as many of them.\<close>

theorem partition_minimal:
  assumes "distinct (map ai_def infos)" and "\<forall>i \<in> set infos. alloc_in blk i"
    and "mset (concat Ds) = mset infos" and "\<forall>D \<in> set Ds. domain_feasible blk D"
  shows "length (partition_by_dominance_domain blk infos) \<le> length Ds"
proof (rule domains_le_feasible_cover)
  show "domains_ok blk (partition_by_dominance_domain blk infos)"
    using assms(1,2) by (rule partition_ok)
  show "set (concat (partition_by_dominance_domain blk infos)) \<subseteq> set (concat Ds)"
    using mset_eq_setD [OF partition_ok(2) [OF assms(1,2)]] mset_eq_setD [OF assms(3)] by blast
qed (rule assms(4))

text \<open>
  The walk in reverse creation order, reduced to what its comment says of it: try the
  most recent domain only.
\<close>

definition most_recent_step ::
  "block_ops \<Rightarrow> alloc_info list list \<Rightarrow> alloc_info \<Rightarrow> alloc_info list list" where
  "most_recent_step blk ds info =
     (if ds \<noteq> [] \<and> domain_feasible blk (last ds @ [info])
      then butlast ds @ [last ds @ [info]] else ds @ [[info]])"

text \<open>Trying only the most recent domain gives the same partition: an older domain never
  accepts an allocation that the newest refuses.\<close>

theorem partition_most_recent:
  assumes "distinct (map ai_def infos)" and "\<forall>i \<in> set infos. alloc_in blk i"
  shows "partition_by_dominance_domain blk infos =
    foldl (most_recent_step blk) [] (sort_key ai_def infos)"
proof -
  have "foldl (partition_step blk) [] xs = foldl (most_recent_step blk) [] xs"
    if "sorted_wrt (\<lambda>i j. ai_def i < ai_def j) xs" "\<forall>i \<in> set xs. alloc_in blk i" for xs
    using that
  proof (induction xs rule: rev_induct)
    case (snoc i xs)
    let ?ds = "foldl (partition_step blk) [] xs"
    have part: "domains_ok blk ?ds" "mset (concat ?ds) = mset xs"
      using partition_foldl [of xs blk] snoc.prems by (auto simp: sorted_wrt_append)
    have mem: "set (concat ?ds) = set xs"
      using part(2) by (rule mset_eq_setD)
    have "partition_step blk ?ds i = most_recent_step blk ?ds i"
      unfolding most_recent_step_def
      by (rule partition_step_last [OF part(1)])
        (use snoc.prems mem in \<open>auto simp: sorted_wrt_append\<close>)
    then show ?case
      using snoc by (simp add: sorted_wrt_append)
  qed simp
  then show ?thesis
    using strict_sort_key [OF assms(1)] assms(2) by (simp add: partition_by_dominance_domain_def)
qed

definition example_infos :: "alloc_info list" where
  "example_infos =
     (let t = \<lparr>mt_shape = [None], mt_bits = 32\<rparr>
      in [\<lparr>ai_def = 2, ai_last = 3, ai_bytes = 0, ai_type = t, ai_dyn = [Res 0 0]\<rparr>,
          \<lparr>ai_def = 5, ai_last = 6, ai_bytes = 0, ai_type = t, ai_dyn = [Res 4 0]\<rparr>,
          \<lparr>ai_def = 7, ai_last = 7, ai_bytes = 0, ai_type = t, ai_dyn = [Res 0 0]\<rparr>])"

lemma example_infos_ok:
  "distinct (map ai_def example_infos)" "\<forall>i \<in> set example_infos. alloc_in example_block i"
  "map (map ai_def) (partition_by_dominance_domain example_block example_infos) = [[2], [5, 7]]"
  by code_simp+

theorem partition_sound_witness:
  "mset (concat (partition_by_dominance_domain example_block example_infos)) = mset example_infos"
  using partition_sound [OF example_infos_ok(1,2)] by blast

theorem partition_minimal_witness:
  "length (partition_by_dominance_domain example_block example_infos) \<le>
    length [[example_infos ! 0, example_infos ! 2], [example_infos ! 1]]"
proof (rule partition_minimal [OF example_infos_ok(1,2)])
  show "mset (concat [[example_infos ! 0, example_infos ! 2], [example_infos ! 1]]) = mset example_infos"
    by (simp add: example_infos_def Let_def)
  show "\<forall>D \<in> set [[example_infos ! 0, example_infos ! 2], [example_infos ! 1]].
      domain_feasible example_block D"
    by code_simp
qed

theorem partition_most_recent_witness:
  "map (map ai_def) (foldl (most_recent_step example_block) [] (sort_key ai_def example_infos)) =
    [[2], [5, 7]]"
  using partition_most_recent [OF example_infos_ok(1,2)] example_infos_ok(3) by simp

end
