(* ===== verification/Pool_Emission.thy ===== *)
theory Pool_Emission
  imports Pool_Groups Pool_Domains
begin

text \<open>
  Phase 5 of \<open>PoolAllocs.cpp\<close> and the pass around it: the size arithmetic, the pool and
  the views of one domain are emitted into the block, then the allocations are replaced
  and the module metadata computed.  The operations of the function are numbered by their
  index, so \<open>ai_def\<close> is both the index and the identity of an allocation.

  Arguments that stand for code outside the repository: \<open>resolve\<close>, the forward alias sets
  of MLIR's buffer-view analysis; \<open>fo\<close>, the folder of \<open>createOrFold\<close>; \<open>srt\<close>, the order
  \<open>llvm::sort\<close> gives the static allocations (it is not stable).
\<close>

datatype pool_error =
    Bad_alignment int
  | Multi_block
  | Missing_context
  | No_size_point
  | No_pool_point

section \<open>Emitted size arithmetic\<close>

fun mul_all :: "folder \<Rightarrow> ir \<Rightarrow> ipoint \<Rightarrow> val \<Rightarrow> val list \<Rightarrow> val \<times> ir" where
  "mul_all fo s ip v [] = (v, s)"
| "mul_all fo s ip v (d # ds) =
     (let (w, s') = create_or_fold fo s ip Mul_i v d in mul_all fo s' ip w ds)"

definition emit_factor :: "folder \<Rightarrow> ir \<Rightarrow> ipoint \<Rightarrow> int \<Rightarrow> val list \<Rightarrow> val \<times> ir" where
  "emit_factor fo s ip c dyn =
     (let (one, s1) = create s ip (Const_index c) in mul_all fo s1 ip one dyn)"

definition emit_bucket_size :: "folder \<Rightarrow> ir \<Rightarrow> ipoint \<Rightarrow> dyn_bucket \<Rightarrow> int \<Rightarrow> val \<times> ir" where
  "emit_bucket_size fo s ip b alignment =
     (let (byte_size, s1) = emit_factor fo s ip (db_factor b) (db_dyn b)
      in if db_factor b mod alignment = 0 then (byte_size, s1)
         else emit_align_up fo s1 ip byte_size alignment)"

definition seek_size_insertion_point :: "block_ops \<Rightarrow> nat list \<Rightarrow> val list \<Rightarrow> ipoint option" where
  "seek_size_insertion_point blk domain_allocs dyn =
     find_latest_legal_insertion_point blk (block_defs blk dyn) domain_allocs"

text \<open>Each group's factor, then each small bucket's aligned size, at points of their own.\<close>

fun emit_group_factors ::
  "folder \<Rightarrow> nat list \<Rightarrow> ir \<Rightarrow> dyn_group list \<Rightarrow> pool_error + (val list \<times> ir)" where
  "emit_group_factors fo allocs s [] = Inr ([], s)"
| "emit_group_factors fo allocs s (g # gs) =
     (case seek_size_insertion_point (ir_block s) allocs (dg_dyn g) of
        None \<Rightarrow> Inl No_size_point
      | Some ip \<Rightarrow>
          let (f, s1) = emit_factor fo s ip 1 (dg_dyn g)
          in case emit_group_factors fo allocs s1 gs of
               Inl e \<Rightarrow> Inl e
             | Inr (fs, s2) \<Rightarrow> Inr (f # fs, s2))"

fun emit_bucket_sizes ::
  "folder \<Rightarrow> nat list \<Rightarrow> int \<Rightarrow> ir \<Rightarrow> dyn_bucket list \<Rightarrow> pool_error + (val list \<times> ir)" where
  "emit_bucket_sizes fo allocs alignment s [] = Inr ([], s)"
| "emit_bucket_sizes fo allocs alignment s (b # bs) =
     (case seek_size_insertion_point (ir_block s) allocs (db_dyn b) of
        None \<Rightarrow> Inl No_size_point
      | Some ip \<Rightarrow>
          let (v, s1) = emit_bucket_size fo s ip b alignment
          in case emit_bucket_sizes fo allocs alignment s1 bs of
               Inl e \<Rightarrow> Inl e
             | Inr (vs, s2) \<Rightarrow> Inr (v # vs, s2))"

section \<open>Slab widths and the pool size\<close>

fun emit_footprints :: "folder \<Rightarrow> ir \<Rightarrow> ipoint \<Rightarrow> (val \<times> int) list \<Rightarrow> val list \<times> ir" where
  "emit_footprints fo s ip [] = ([], s)"
| "emit_footprints fo s ip ((f, span) # rest) =
     (let (span_val, s1) = create s ip (Const_index span);
          (fp, s2) = create_or_fold fo s1 ip Mul_i f span_val;
          (fps, s3) = emit_footprints fo s2 ip rest
      in (fp # fps, s3))"

fun max_all :: "folder \<Rightarrow> ir \<Rightarrow> ipoint \<Rightarrow> val \<Rightarrow> val list \<Rightarrow> val \<times> ir" where
  "max_all fo s ip w [] = (w, s)"
| "max_all fo s ip w (v # vs) =
     (let (w', s') = create_or_fold fo s ip Max_ui w v in max_all fo s' ip w' vs)"

definition slab_need_align :: "int \<Rightarrow> dyn_group list \<Rightarrow> nat list \<Rightarrow> bool" where
  "slab_need_align alignment groups slab =
     (let common = list_all (\<lambda>gi. dg_dyn (groups ! gi) = dg_dyn (groups ! hd slab)) slab;
          max_span = foldl (\<lambda>m gi. max m (dg_span (groups ! gi))) (dg_span (groups ! hd slab)) (tl slab);
          unaligned = list_ex (\<lambda>gi. dg_span (groups ! gi) mod alignment \<noteq> 0) slab
      in if common then max_span mod alignment \<noteq> 0 else unaligned)"

definition emit_slab_width ::
  "folder \<Rightarrow> ir \<Rightarrow> ipoint \<Rightarrow> int \<Rightarrow> dyn_group list \<Rightarrow> val list \<Rightarrow> nat list \<Rightarrow> val \<times> ir" where
  "emit_slab_width fo s ip alignment groups footprints slab =
     (let (w, s1) = max_all fo s ip (footprints ! hd slab) (map (\<lambda>gi. footprints ! gi) (tl slab))
      in if slab_need_align alignment groups slab then emit_align_up fo s1 ip w alignment
         else (w, s1))"

fun emit_slab_widths ::
  "folder \<Rightarrow> ir \<Rightarrow> ipoint \<Rightarrow> int \<Rightarrow> dyn_group list \<Rightarrow> val list \<Rightarrow> nat list list \<Rightarrow> val list \<times> ir" where
  "emit_slab_widths fo s ip alignment groups footprints [] = ([], s)"
| "emit_slab_widths fo s ip alignment groups footprints (slab # slabs) =
     (let (w, s1) = emit_slab_width fo s ip alignment groups footprints slab;
          (ws, s2) = emit_slab_widths fo s1 ip alignment groups footprints slabs
      in (w # ws, s2))"

fun add_all :: "folder \<Rightarrow> ir \<Rightarrow> ipoint \<Rightarrow> val \<Rightarrow> val list \<Rightarrow> val \<times> ir" where
  "add_all fo s ip v [] = (v, s)"
| "add_all fo s ip v (w # ws) =
     (let (v', s') = create_or_fold fo s ip Add_i v w in add_all fo s' ip v' ws)"

text \<open>\<open>alignedSize * n\<close> as emitted for bin counts and bin indices.\<close>

definition emit_times :: "folder \<Rightarrow> ir \<Rightarrow> ipoint \<Rightarrow> val \<Rightarrow> nat \<Rightarrow> val \<times> ir" where
  "emit_times fo s ip v n =
     (let (c, s1) = create s ip (Const_index (int n)) in create_or_fold fo s1 ip Mul_i v c)"

fun add_buckets :: "folder \<Rightarrow> ir \<Rightarrow> ipoint \<Rightarrow> val \<Rightarrow> (val \<times> dyn_bucket) list \<Rightarrow> val \<times> ir" where
  "add_buckets fo s ip v [] = (v, s)"
| "add_buckets fo s ip v ((sz, b) # rest) =
     (let (c, s1) = emit_times fo s ip sz (length (db_bins b));
          (v', s2) = create_or_fold fo s1 ip Add_i v c
      in add_buckets fo s2 ip v' rest)"

definition emit_pool_size ::
  "folder \<Rightarrow> ir \<Rightarrow> ipoint \<Rightarrow> int \<Rightarrow> val list \<Rightarrow> (val \<times> dyn_bucket) list \<Rightarrow> val \<times> ir" where
  "emit_pool_size fo s ip static_size widths buckets =
     (let (v, s1) = create s ip (Const_index static_size);
          (v1, s2) = add_all fo s1 ip v widths
      in add_buckets fo s2 ip v1 buckets)"

section \<open>Offsets\<close>

type_synonym offset_map = "(nat \<times> val) list"

fun static_offsets :: "ir \<Rightarrow> ipoint \<Rightarrow> assignments \<Rightarrow> offset_map \<Rightarrow> offset_map \<times> ir" where
  "static_offsets s ip [] offs = (offs, s)"
| "static_offsets s ip ((info, off) # rest) offs =
     (let (v, s') = create s ip (Const_index off)
      in static_offsets s' ip rest ((ai_def info, v) # offs))"

fun member_offsets ::
  "folder \<Rightarrow> ir \<Rightarrow> ipoint \<Rightarrow> val \<Rightarrow> val \<Rightarrow> assignments \<Rightarrow> offset_map \<Rightarrow> offset_map \<times> ir" where
  "member_offsets fo s ip base f [] offs = (offs, s)"
| "member_offsets fo s ip base f ((info, unit) # rest) offs =
     (let (off, s1) =
        (if unit \<noteq> 0 then
           let (uo, s1) = create s ip (Const_index unit);
               (scaled, s2) = create_or_fold fo s1 ip Mul_i f uo
           in create_or_fold fo s2 ip Add_i base scaled
         else (base, s))
      in member_offsets fo s1 ip base f rest ((ai_def info, off) # offs))"

fun slab_member_offsets ::
  "folder \<Rightarrow> ir \<Rightarrow> ipoint \<Rightarrow> dyn_group list \<Rightarrow> val list \<Rightarrow> val \<Rightarrow> nat list \<Rightarrow> offset_map \<Rightarrow>
     offset_map \<times> ir" where
  "slab_member_offsets fo s ip groups factors base [] offs = (offs, s)"
| "slab_member_offsets fo s ip groups factors base (gi # gis) offs =
     (let (offs', s') = member_offsets fo s ip base (factors ! gi) (dg_assignments (groups ! gi)) offs
      in slab_member_offsets fo s' ip groups factors base gis offs')"

fun slab_offsets ::
  "folder \<Rightarrow> ir \<Rightarrow> ipoint \<Rightarrow> dyn_group list \<Rightarrow> val list \<Rightarrow> val \<Rightarrow> (nat list \<times> val) list \<Rightarrow>
     offset_map \<Rightarrow> val \<times> offset_map \<times> ir" where
  "slab_offsets fo s ip groups factors base [] offs = (base, offs, s)"
| "slab_offsets fo s ip groups factors base ((slab, width) # rest) offs =
     (let (offs', s1) = slab_member_offsets fo s ip groups factors base slab offs;
          (base', s2) = create_or_fold fo s1 ip Add_i base width
      in slab_offsets fo s2 ip groups factors base' rest offs')"

fun bin_offsets ::
  "folder \<Rightarrow> ir \<Rightarrow> ipoint \<Rightarrow> val \<Rightarrow> val \<Rightarrow> nat \<Rightarrow> alloc_info list list \<Rightarrow> offset_map \<Rightarrow>
     offset_map \<times> ir" where
  "bin_offsets fo s ip base sz idx [] offs = (offs, s)"
| "bin_offsets fo s ip base sz idx (bin # bins) offs =
     (let (contrib, s1) = emit_times fo s ip sz idx;
          (off, s2) = create_or_fold fo s1 ip Add_i base contrib
      in bin_offsets fo s2 ip base sz (Suc idx) bins
           (rev (map (\<lambda>i. (ai_def i, off)) bin) @ offs))"

fun bucket_offsets ::
  "folder \<Rightarrow> ir \<Rightarrow> ipoint \<Rightarrow> val \<Rightarrow> (val \<times> dyn_bucket) list \<Rightarrow> offset_map \<Rightarrow> offset_map \<times> ir" where
  "bucket_offsets fo s ip base [] offs = (offs, s)"
| "bucket_offsets fo s ip base ((sz, b) # rest) offs =
     (let (offs', s1) = bin_offsets fo s ip base sz 0 (db_bins b) offs;
          (total, s2) = emit_times fo s1 ip sz (length (db_bins b));
          (base', s3) = create_or_fold fo s2 ip Add_i base total
      in bucket_offsets fo s3 ip base' rest offs')"

definition dynamic_offsets ::
  "folder \<Rightarrow> ir \<Rightarrow> ipoint \<Rightarrow> int \<Rightarrow> dyn_packing \<Rightarrow> val list \<Rightarrow> val list \<Rightarrow> val list \<Rightarrow> offset_map \<Rightarrow>
     offset_map \<times> ir" where
  "dynamic_offsets fo s ip static_size p factors widths sizes offs =
     (if dp_empty p then (offs, s)
      else
        let (base, s1) = create s ip (Const_index static_size);
            (base', offs', s2) =
              slab_offsets fo s1 ip (dp_groups p) factors base (zip (dp_slabs p) widths) offs
        in bucket_offsets fo s2 ip base' (zip sizes (dp_buckets p)) offs')"

section \<open>Views in place of allocations\<close>

record placement =
  pl_info :: alloc_info
  pl_domain :: nat
  pl_pool :: val
  pl_offset :: val
  pl_view :: val
  pl_const :: int

definition const_offset :: "ir \<Rightarrow> val \<Rightarrow> int" where
  "const_offset s off =
     (case defining_op off of
        None \<Rightarrow> -1
      | Some a \<Rightarrow> (case map_of (ir_block s) a of Some (Const_index c) \<Rightarrow> c | _ \<Rightarrow> -1))"

definition replace_by_view :: "ir \<Rightarrow> alloc_info \<Rightarrow> val \<Rightarrow> val \<Rightarrow> val \<times> ir" where
  "replace_by_view s info pool off =
     (let (view, s1) = create s (Before (ai_def info)) (View (ai_type info) pool off (ai_dyn info))
      in (view, erase_op (ai_def info) (replace_all_uses (ai_def info) (ir_next s) s1)))"

fun place_views ::
  "nat \<Rightarrow> val \<Rightarrow> offset_map \<Rightarrow> ir \<Rightarrow> alloc_info list \<Rightarrow> placement list \<times> ir" where
  "place_views domain_id pool offs s [] = ([], s)"
| "place_views domain_id pool offs s (info # infos) =
     (case map_of offs (ai_def info) of
        None \<Rightarrow> place_views domain_id pool offs s infos
      | Some off \<Rightarrow>
          let (view, s1) = replace_by_view s info pool off;
              (pls, s2) = place_views domain_id pool offs s1 infos
          in (\<lparr>pl_info = info, pl_domain = domain_id, pl_pool = pool, pl_offset = off,
               pl_view = view, pl_const = const_offset s off\<rparr> # pls, s2))"

section \<open>One domain\<close>

record domain_plan =
  pd_statics :: "alloc_info list"
  pd_static_asg :: assignments
  pd_static_size :: int
  pd_dyn :: dyn_packing

definition plan_domain ::
  "(alloc_info list \<Rightarrow> alloc_info list) \<Rightarrow> int \<Rightarrow> bool \<Rightarrow> alloc_info list \<Rightarrow> domain_plan" where
  "plan_domain srt alignment lifetime_only allocs =
     (let statics = srt (filter (\<lambda>i. ai_bytes i > 0) allocs);
          dynamics = filter (\<lambda>i. \<not> ai_bytes i > 0) allocs;
          asg = pack_static_allocs statics alignment
      in \<lparr>pd_statics = statics, pd_static_asg = asg,
          pd_static_size = static_pool_size alignment asg,
          pd_dyn = pack_dynamic_allocs dynamics alignment lifetime_only\<rparr>)"

text \<open>
  \<open>emit_pool\<close>: the slab widths, the pool size, the pool and every offset, at the point
  \<open>ip\<close>.  It returns the pool, its size and the offsets.
\<close>

definition emit_pool ::
  "folder \<Rightarrow> ir \<Rightarrow> ipoint \<Rightarrow> int \<Rightarrow> val \<Rightarrow> nat \<Rightarrow> domain_plan \<Rightarrow> val list \<Rightarrow> val list \<Rightarrow>
     (val \<times> val \<times> offset_map) \<times> ir" where
  "emit_pool fo s ip alignment ctx domain_id plan factors sizes =
     (let p = pd_dyn plan;
          (footprints, s1) = emit_footprints fo s ip (zip factors (map dg_span (dp_groups p)));
          (widths, s2) = emit_slab_widths fo s1 ip alignment (dp_groups p) footprints (dp_slabs p);
          (pool_size, s3) = emit_pool_size fo s2 ip (pd_static_size plan) widths (zip sizes (dp_buckets p));
          (pool, s4) = create s3 ip (Get_pool ctx pool_size domain_id);
          (offs, s5) = static_offsets s4 ip (pd_static_asg plan) [];
          (offs', s6) = dynamic_offsets fo s5 ip (pd_static_size plan) p factors widths sizes offs
      in ((pool, pool_size, offs'), s6))"

definition emit_domain ::
  "folder \<Rightarrow> int \<Rightarrow> val \<Rightarrow> nat \<Rightarrow> alloc_info list \<Rightarrow> domain_plan \<Rightarrow> ir \<Rightarrow>
     pool_error + (placement list \<times> ir)" where
  "emit_domain fo alignment ctx domain_id allocs plan s =
     (if dp_empty (pd_dyn plan) \<and> pd_static_size plan = 0 then Inr ([], s)
      else
        let domain_allocs = map ai_def allocs
        in case emit_group_factors fo domain_allocs s (dp_groups (pd_dyn plan)) of
             Inl e \<Rightarrow> Inl e
           | Inr (factors, s1) \<Rightarrow>
               (case emit_bucket_sizes fo domain_allocs alignment s1 (dp_buckets (pd_dyn plan)) of
                  Inl e \<Rightarrow> Inl e
                | Inr (sizes, s2) \<Rightarrow>
                    (case find_latest_legal_insertion_point (ir_block s2)
                            (block_defs (ir_block s2) (factors @ sizes)) domain_allocs of
                       None \<Rightarrow> Inl No_pool_point
                     | Some ip \<Rightarrow>
                         let ((pool, pool_size, offs), s3) =
                               emit_pool fo s2 ip alignment ctx domain_id plan factors sizes
                         in Inr (place_views domain_id pool offs s3 allocs))))"

fun emit_domains ::
  "folder \<Rightarrow> (alloc_info list \<Rightarrow> alloc_info list) \<Rightarrow> int \<Rightarrow> bool \<Rightarrow> val \<Rightarrow> nat \<Rightarrow>
     alloc_info list list \<Rightarrow> ir \<Rightarrow> pool_error + (int list \<times> placement list \<times> ir)" where
  "emit_domains fo srt alignment lifetime_only ctx domain_id [] s = Inr ([], [], s)"
| "emit_domains fo srt alignment lifetime_only ctx domain_id (allocs # rest) s =
     (let plan = plan_domain srt alignment lifetime_only allocs
      in case emit_domain fo alignment ctx domain_id allocs plan s of
           Inl e \<Rightarrow> Inl e
         | Inr (pls, s1) \<Rightarrow>
             (case emit_domains fo srt alignment lifetime_only ctx (Suc domain_id) rest s1 of
                Inl e \<Rightarrow> Inl e
              | Inr (sizes, pls', s2) \<Rightarrow> Inr (pd_static_size plan # sizes, pls @ pls', s2)))"

section \<open>The pass\<close>

text \<open>The function: whether argument 0 is the \<open>!hip.context\<close>, and its blocks.\<close>

record func_op =
  fn_context :: bool
  fn_blocks :: "ir_op list list"

definition initial_ir :: "ir_op list \<Rightarrow> ir" where
  "initial_ir ops = \<lparr>ir_block = zip [0..<length ops] ops, ir_next = length ops\<rparr>"

definition collect_alloc ::
  "(val \<Rightarrow> val list) \<Rightarrow> block_ops \<Rightarrow> nat \<times> ir_op \<Rightarrow> alloc_info list" where
  "collect_alloc resolve blk x =
     (case snd x of
        Alloc t dyn \<Rightarrow>
          (if users_of blk (Res (fst x) 0) = [] then []
           else [\<lparr>ai_def = op_pos blk (fst x),
                  ai_last = find_last_aliased_use_index resolve (users_of blk) (op_pos blk)
                              (length blk) (Res (fst x) 0),
                  ai_bytes = get_static_byte_size t, ai_type = t, ai_dyn = dyn\<rparr>])
      | _ \<Rightarrow> [])"

definition collect_allocs :: "(val \<Rightarrow> val list) \<Rightarrow> block_ops \<Rightarrow> alloc_info list" where
  "collect_allocs resolve blk = concat (map (collect_alloc resolve blk) blk)"

definition view_defined :: "ir \<Rightarrow> val \<Rightarrow> bool" where
  "view_defined s v =
     (case defining_op v of
        None \<Rightarrow> False
      | Some a \<Rightarrow> (case map_of (ir_block s) a of Some (View t p off dyn) \<Rightarrow> True | _ \<Rightarrow> False))"

definition erase_view_deallocs :: "ir \<Rightarrow> ir" where
  "erase_view_deallocs s =
     s\<lparr>ir_block := filter (\<lambda>x. case snd x of Dealloc v \<Rightarrow> \<not> view_defined s v | _ \<Rightarrow> True) (ir_block s)\<rparr>"

record multi_domain_meta =
  md_domain_count :: nat
  md_pool_sizes :: "int list"
  md_buffer_domains :: "nat list"

record pool_meta =
  pm_pool_size :: int
  pm_buffer_count :: nat
  pm_buffer_offsets :: "int list"
  pm_multi :: "multi_domain_meta option"

definition zero_meta :: pool_meta where
  "zero_meta = \<lparr>pm_pool_size = 0, pm_buffer_count = 0, pm_buffer_offsets = [], pm_multi = None\<rparr>"

definition placed_at :: "placement list \<Rightarrow> alloc_info \<Rightarrow> placement option" where
  "placed_at pls info = map_of (map (\<lambda>pl. (ai_def (pl_info pl), pl)) pls) (ai_def info)"

definition pool_metadata :: "alloc_info list \<Rightarrow> int list \<Rightarrow> placement list \<Rightarrow> pool_meta" where
  "pool_metadata infos sizes pls =
     \<lparr>pm_pool_size = (case sizes of [] \<Rightarrow> 0 | sz # _ \<Rightarrow> sz),
      pm_buffer_count = length infos,
      pm_buffer_offsets =
        map (\<lambda>i. case placed_at pls i of None \<Rightarrow> -1 | Some pl \<Rightarrow> pl_const pl) infos,
      pm_multi =
        (if length sizes > 1
         then Some \<lparr>md_domain_count = length sizes, md_pool_sizes = sizes,
                    md_buffer_domains =
                      map (\<lambda>i. case placed_at pls i of None \<Rightarrow> 0 | Some pl \<Rightarrow> pl_domain pl) infos\<rparr>
         else None)\<rparr>"

record pool_outcome =
  po_ir :: ir
  po_placements :: "placement list"
  po_meta :: pool_meta
  po_remark :: bool

definition domain_count_advisory_threshold :: nat where
  "domain_count_advisory_threshold = 8"

definition alignment_ok :: "int \<Rightarrow> bool" where
  "alignment_ok alignment \<longleftrightarrow> \<not> (alignment \<le> 0 \<or> alignment AND (alignment - 1) \<noteq> 0)"

text \<open>\<open>None\<close> is the function without a body, which the pass leaves alone.\<close>

definition run_on_operation ::
  "(val \<Rightarrow> val list) \<Rightarrow> folder \<Rightarrow> (alloc_info list \<Rightarrow> alloc_info list) \<Rightarrow> int \<Rightarrow> bool \<Rightarrow> func_op \<Rightarrow>
     pool_error + pool_outcome option" where
  "run_on_operation resolve fo srt alignment lifetime_only fn =
     (if \<not> alignment_ok alignment then Inl (Bad_alignment alignment)
      else
        case fn_blocks fn of
          [] \<Rightarrow> Inr None
        | ops # rest \<Rightarrow>
            if rest \<noteq> [] then Inl Multi_block
            else
              let s = initial_ir ops;
                  infos = collect_allocs resolve (ir_block s)
              in if infos = [] then
                   Inr (Some \<lparr>po_ir = s, po_placements = [], po_meta = zero_meta, po_remark = False\<rparr>)
                 else if \<not> fn_context fn then Inl Missing_context
                 else
                   let domains = partition_by_dominance_domain (ir_block s) infos
                   in case emit_domains fo srt alignment lifetime_only (Arg 0) 0 domains s of
                        Inl e \<Rightarrow> Inl e
                      | Inr (sizes, pls, s') \<Rightarrow>
                          Inr (Some \<lparr>po_ir = erase_view_deallocs s', po_placements = pls,
                                     po_meta = pool_metadata infos sizes pls,
                                     po_remark = length domains > domain_count_advisory_threshold\<rparr>))"

end
