(* ===== verification/Pool_Arithmetic.thy ===== *)
theory Pool_Arithmetic
  imports Pool_Emission
begin

text \<open>
  What the emitted size and offset arithmetic of \<open>Pool_Emission\<close> computes.  For a fixed
  assignment \<open>\<rho>\<close> of words to values, \<open>has fit \<rho> s b v n\<close> says that \<open>v\<close> may be used before
  operation \<open>b\<close> and that its value, in a consistent assignment, is the word of the exact
  number \<open>n\<close>.  The flag \<open>fit\<close> says that the exact sizes stay in the machine's range;
  without it only the shape of the block is claimed.
\<close>

named_theorems emit_intros \<open>values of emitted operations\<close>

definition has :: "bool \<Rightarrow> assignment \<Rightarrow> ir \<Rightarrow> nat \<Rightarrow> val \<Rightarrow> nat \<Rightarrow> bool" where
  "has fit \<rho> s b v n \<longleftrightarrow> usable s b v \<and> (fit \<longrightarrow> consistent \<rho> s \<longrightarrow> \<rho> v = of_nat n)"

definition yields :: "bool \<Rightarrow> assignment \<Rightarrow> ir \<Rightarrow> nat \<Rightarrow> val \<times> ir \<Rightarrow> nat \<Rightarrow> bool" where
  "yields fit \<rho> s b r n \<longleftrightarrow> grown s (snd r) \<and> has fit \<rho> (snd r) b (fst r) n"

definition yields_all :: "bool \<Rightarrow> assignment \<Rightarrow> ir \<Rightarrow> nat \<Rightarrow> val list \<times> ir \<Rightarrow> nat list \<Rightarrow> bool" where
  "yields_all fit \<rho> s b r ns \<longleftrightarrow> grown s (snd r) \<and> list_all2 (has fit \<rho> (snd r) b) (fst r) ns"

text \<open>A state to emit before \<open>b\<close> from.\<close>

definition ready :: "ir \<Rightarrow> nat \<Rightarrow> bool" where
  "ready s b \<longleftrightarrow> wf_ir s \<and> b \<in> ids s"

lemma ready_grown: "ready s b \<Longrightarrow> grown s s' \<Longrightarrow> ready s' b"
  by (auto simp: ready_def grown_wf grown_ids)

lemma has_grown: "has fit \<rho> s b v n \<Longrightarrow> ready s b \<Longrightarrow> grown s s' \<Longrightarrow> has fit \<rho> s' b v n"
  by (auto simp: has_def ready_def intro: usable_grown grown_consistent)

lemma has_all_grown:
  "list_all2 (has fit \<rho> s b) vs ns \<Longrightarrow> ready s b \<Longrightarrow> grown s s' \<Longrightarrow> list_all2 (has fit \<rho> s' b) vs ns"
  using list_all2_mono [of "has fit \<rho> s b" vs ns "has fit \<rho> s' b"] has_grown by blast

lemma yieldsD:
  assumes "yields fit \<rho> s b r n" and "ready s b"
  shows "grown s (snd r)" and "has fit \<rho> (snd r) b (fst r) n" and "ready (snd r) b"
  using assms ready_grown by (auto simp: yields_def)

lemma yields_step:
  "grown s t \<Longrightarrow> yields fit \<rho> t b r n \<Longrightarrow> yields fit \<rho> s b r n"
  by (auto simp: yields_def intro: grown_trans)

lemma yields_all_step:
  "grown s t \<Longrightarrow> yields_all fit \<rho> t b r ns \<Longrightarrow> yields_all fit \<rho> s b r ns"
  by (auto simp: yields_all_def intro: grown_trans)

lemma yields_emitted:
  "emitted s b r \<Longrightarrow> (fit \<Longrightarrow> consistent \<rho> (snd r) \<Longrightarrow> \<rho> (fst r) = of_nat n) \<Longrightarrow> yields fit \<rho> s b r n"
  by (auto simp: yields_def has_def emitted_def)

lemma yields_self: "ready s b \<Longrightarrow> has fit \<rho> s b v n \<Longrightarrow> yields fit \<rho> s b (v, s) n"
  by (simp add: yields_def ready_def grown_refl)

lemma yields_const [emit_intros]:
  "ready s b \<Longrightarrow> 0 \<le> c \<Longrightarrow> yields fit \<rho> s b (create s (Before b) (Const_index c)) (nat c)"
  by (rule yields_emitted) (auto simp: ready_def create_const)

lemma yields_fold:
  assumes "folder_ok fo" and "ready s b" and x: "has fit \<rho> s b x m" and y: "has fit \<rho> s b y k"
    and op: "fit \<Longrightarrow> bin_word f (of_nat m) (of_nat k) = of_nat n"
  shows "yields fit \<rho> s b (create_or_fold fo s (Before b) f x y) n"
proof (rule yields_emitted)
  have s: "wf_ir s" "b \<in> ids s" and u: "usable s b x" "usable s b y"
    using assms(2) x y by (simp_all add: ready_def has_def)
  show em: "emitted s b (create_or_fold fo s (Before b) f x y)"
    by (rule create_or_fold_emitted(1) [OF assms(1) s u])
  assume fit: fit and c: "consistent \<rho> (snd (create_or_fold fo s (Before b) f x y))"
  then have "consistent \<rho> s"
    using em emittedD(5) by blast
  then show "\<rho> (fst (create_or_fold fo s (Before b) f x y)) = of_nat n"
    using create_or_fold_emitted(2) [OF assms(1) s u c] x y op fit by (simp add: has_def)
qed

lemma yields_mul [emit_intros]:
  "folder_ok fo \<Longrightarrow> ready s b \<Longrightarrow> has fit \<rho> s b x m \<Longrightarrow> has fit \<rho> s b y k \<Longrightarrow>
   yields fit \<rho> s b (create_or_fold fo s (Before b) Mul_i x y) (m * k)"
  by (rule yields_fold) simp_all

lemma yields_add [emit_intros]:
  "folder_ok fo \<Longrightarrow> ready s b \<Longrightarrow> has fit \<rho> s b x m \<Longrightarrow> has fit \<rho> s b y k \<Longrightarrow>
   yields fit \<rho> s b (create_or_fold fo s (Before b) Add_i x y) (m + k)"
  by (rule yields_fold) simp_all

lemma unat_of_nat64: "n < size_limit \<Longrightarrow> unat (of_nat n :: 64 word) = n"
  by (simp add: unat_of_nat)

lemma yields_max [emit_intros]:
  assumes "folder_ok fo" and "ready s b" and "has fit \<rho> s b x m" and "has fit \<rho> s b y k"
    and "fit \<Longrightarrow> m < size_limit \<and> k < size_limit"
  shows "yields fit \<rho> s b (create_or_fold fo s (Before b) Max_ui x y) (max m k)"
proof (rule yields_fold [OF assms(1-4)])
  assume fit
  have "(of_nat m :: 64 word) \<le> of_nat k \<longleftrightarrow> m \<le> k"
    using assms(5) [OF \<open>fit\<close>] by (simp add: word_le_nat_alt unat_of_nat64)
  then show "bin_word Max_ui (of_nat m) (of_nat k) = of_nat (max m k)"
    by (simp add: max_def)
qed

lemma yields_align_up:
  assumes "folder_ok fo" and "ready s b" and "has fit \<rho> s b v n"
    and "1 < a" and "a < 2 ^ 63" and "fit \<Longrightarrow> n + nat a \<le> size_limit"
  shows "yields fit \<rho> s b (emit_align_up fo s (Before b) v a) (round_to (nat a) n)"
proof (rule yields_emitted)
  have s: "wf_ir s" "b \<in> ids s" and u: "usable s b v"
    using assms(2,3) by (simp_all add: ready_def has_def)
  show em: "emitted s b (emit_align_up fo s (Before b) v a)"
    by (rule emit_align_up_emitted(1) [OF assms(1) s u])
  assume fit: fit and c: "consistent \<rho> (snd (emit_align_up fo s (Before b) v a))"
  have "consistent \<rho> s"
    using em c emittedD(5) by blast
  then have v: "\<rho> v = of_nat n"
    using assms(3) fit by (simp add: has_def)
  have n: "unat (of_nat n :: 64 word) = n"
    using assms(4) assms(6) [OF fit] by (intro unat_of_nat64) linarith
  have up: "unat (round_up_word (of_nat n) a) = round_to (nat a) n"
    using assms(4,5) assms(6) [OF fit] n by (subst unat_round_up_word) auto
  have "of_nat (unat (round_up_word (of_nat n) a)) = round_up_word (of_nat n) a"
    by simp
  then have "round_up_word (of_nat n) a = of_nat (round_to (nat a) n)"
    by (simp only: up)
  then show "\<rho> (fst (emit_align_up fo s (Before b) v a)) = of_nat (round_to (nat a) n)"
    using emit_align_up_emitted(2) [OF assms(1) s u c] assms(4) v by simp
qed

section \<open>Exact sizes\<close>

definition dyn_prod :: "assignment \<Rightarrow> val list \<Rightarrow> nat" where
  "dyn_prod \<rho> ds = prod_list (map (\<lambda>d. unat (\<rho> d)) ds)"

lemma dyn_prod_simps [simp]:
  "dyn_prod \<rho> [] = 1" "dyn_prod \<rho> (d # ds) = unat (\<rho> d) * dyn_prod \<rho> ds"
  by (simp_all add: dyn_prod_def)

definition group_footprint :: "assignment \<Rightarrow> dyn_group \<Rightarrow> nat" where
  "group_footprint \<rho> g = nat (dg_span g) * dyn_prod \<rho> (dg_dyn g)"

definition bucket_size :: "assignment \<Rightarrow> int \<Rightarrow> dyn_bucket \<Rightarrow> nat" where
  "bucket_size \<rho> al b =
     (let n = nat (db_factor b) * dyn_prod \<rho> (db_dyn b)
      in if db_factor b mod al = 0 then n else round_to (nat al) n)"

definition slab_width :: "assignment \<Rightarrow> int \<Rightarrow> dyn_group list \<Rightarrow> nat list \<Rightarrow> nat" where
  "slab_width \<rho> al groups slab =
     (let w = foldl max (group_footprint \<rho> (groups ! hd slab))
                (map (\<lambda>gi. group_footprint \<rho> (groups ! gi)) (tl slab))
      in if slab_need_align al groups slab then round_to (nat al) w else w)"

definition pool_total :: "assignment \<Rightarrow> int \<Rightarrow> domain_plan \<Rightarrow> nat" where
  "pool_total \<rho> al plan =
     nat (pd_static_size plan) +
     sum_list (map (slab_width \<rho> al (dp_groups (pd_dyn plan))) (dp_slabs (pd_dyn plan))) +
     sum_list (map (\<lambda>b. bucket_size \<rho> al b * length (db_bins b)) (dp_buckets (pd_dyn plan)))"

section \<open>Factors, footprints, widths\<close>

lemma has_dyn: "usable s b d \<Longrightarrow> has fit \<rho> s b d (unat (\<rho> d))"
  by (simp add: has_def)

lemma yields_mul_all:
  assumes "folder_ok fo"
  shows "ready s b \<Longrightarrow> has fit \<rho> s b v n \<Longrightarrow> \<forall>d \<in> set ds. usable s b d \<Longrightarrow>
    yields fit \<rho> s b (mul_all fo s (Before b) v ds) (n * dyn_prod \<rho> ds)"
proof (induction ds arbitrary: s v n)
  case Nil
  then show ?case
    by (simp add: yields_self)
next
  case (Cons d ds)
  let ?r = "create_or_fold fo s (Before b) Mul_i v d"
  have r: "yields fit \<rho> s b ?r (n * unat (\<rho> d))"
    using Cons.prems assms by (intro yields_mul has_dyn) auto
  note R = yieldsD [OF r Cons.prems(1)]
  have "\<forall>d \<in> set ds. usable (snd ?r) b d"
    using Cons.prems R(1) by (auto simp: ready_def intro: usable_grown)
  then have "yields fit \<rho> (snd ?r) b (mul_all fo (snd ?r) (Before b) (fst ?r) ds)
      (n * unat (\<rho> d) * dyn_prod \<rho> ds)"
    by (rule Cons.IH [OF R(3,2)])
  then show ?case
    using yields_step [OF R(1)] by (simp add: case_prod_unfold Let_def mult.assoc)
qed

lemma yields_factor:
  assumes "folder_ok fo" and "ready s b" and "0 \<le> c" and "\<forall>d \<in> set dyn. usable s b d"
  shows "yields fit \<rho> s b (emit_factor fo s (Before b) c dyn) (nat c * dyn_prod \<rho> dyn)"
proof -
  let ?r = "create s (Before b) (Const_index c)"
  have r: "yields fit \<rho> s b ?r (nat c)"
    using assms by (intro yields_const)
  note R = yieldsD [OF r assms(2)]
  have "\<forall>d \<in> set dyn. usable (snd ?r) b d"
    using assms(2,4) R(1) by (auto simp: ready_def intro: usable_grown)
  then have "yields fit \<rho> (snd ?r) b (mul_all fo (snd ?r) (Before b) (fst ?r) dyn) (nat c * dyn_prod \<rho> dyn)"
    by (rule yields_mul_all [OF assms(1) R(3,2)])
  then show ?thesis
    using yields_step [OF R(1)] by (simp add: emit_factor_def case_prod_unfold Let_def)
qed

lemma yields_bucket_size:
  assumes "folder_ok fo" and "ready s b" and "0 \<le> db_factor bk" and "\<forall>d \<in> set (db_dyn bk). usable s b d"
    and "0 < al" and "al < 2 ^ 63"
    and "fit \<Longrightarrow> nat (db_factor bk) * dyn_prod \<rho> (db_dyn bk) + nat al \<le> size_limit"
  shows "yields fit \<rho> s b (emit_bucket_size fo s (Before b) bk al) (bucket_size \<rho> al bk)"
proof -
  let ?r = "emit_factor fo s (Before b) (db_factor bk) (db_dyn bk)"
  have r: "yields fit \<rho> s b ?r (nat (db_factor bk) * dyn_prod \<rho> (db_dyn bk))"
    using assms by (intro yields_factor)
  note R = yieldsD [OF r assms(2)]
  show ?thesis
  proof (cases "db_factor bk mod al = 0")
    case True
    then show ?thesis
      using r by (simp add: emit_bucket_size_def bucket_size_def case_prod_unfold Let_def)
  next
    case False
    then have "al \<noteq> 1"
      by auto
    then have "yields fit \<rho> (snd ?r) b (emit_align_up fo (snd ?r) (Before b) (fst ?r) al)
        (round_to (nat al) (nat (db_factor bk) * dyn_prod \<rho> (db_dyn bk)))"
      using assms by (intro yields_align_up [OF assms(1) R(3,2)]) auto
    then show ?thesis
      using False yields_step [OF R(1)]
      by (simp add: emit_bucket_size_def bucket_size_def case_prod_unfold Let_def)
  qed
qed

lemma yields_footprints:
  assumes "folder_ok fo"
  shows "ready s b \<Longrightarrow> list_all2 (has fit \<rho> s b) fs ns \<Longrightarrow> length spans = length fs \<Longrightarrow>
    \<forall>c \<in> set spans. 0 \<le> c \<Longrightarrow>
    yields_all fit \<rho> s b (emit_footprints fo s (Before b) (zip fs spans))
      (map (\<lambda>(n, c). nat c * n) (zip ns spans))"
proof (induction fs arbitrary: s ns spans)
  case Nil
  then show ?case
    by (auto simp: yields_all_def ready_def grown_refl)
next
  case (Cons f fs)
  obtain n ns' c spans' where ns: "ns = n # ns'" and spans: "spans = c # spans'"
    using Cons.prems by (cases ns; cases spans) auto
  have f: "has fit \<rho> s b f n" and fs: "list_all2 (has fit \<rho> s b) fs ns'" and c: "0 \<le> c"
    and len: "length spans' = length fs" and cs: "\<forall>c \<in> set spans'. 0 \<le> c"
    using Cons.prems by (auto simp: ns spans)
  let ?r1 = "create s (Before b) (Const_index c)"
  have r1: "yields fit \<rho> s b ?r1 (nat c)"
    using Cons.prems(1) c by (rule yields_const)
  note R1 = yieldsD [OF r1 Cons.prems(1)]
  let ?r2 = "create_or_fold fo (snd ?r1) (Before b) Mul_i f (fst ?r1)"
  have r2: "yields fit \<rho> (snd ?r1) b ?r2 (n * nat c)"
    using has_grown [OF f Cons.prems(1) R1(1)] R1 assms by (intro yields_mul)
  note R2 = yieldsD [OF r2 R1(3)]
  have g: "grown s (snd ?r2)"
    using R1(1) R2(1) by (rule grown_trans)
  let ?r3 = "emit_footprints fo (snd ?r2) (Before b) (zip fs spans')"
  have r3: "yields_all fit \<rho> (snd ?r2) b ?r3 (map (\<lambda>(n, c). nat c * n) (zip ns' spans'))"
    by (rule Cons.IH [OF R2(3) has_all_grown [OF fs Cons.prems(1) g] len cs])
  then have "has fit \<rho> (snd ?r3) b (fst ?r2) (nat c * n)"
    using has_grown [OF R2(2,3), of "snd ?r3"] by (simp add: yields_all_def mult.commute)
  then show ?case
    using r3 grown_trans [OF g] by (simp add: ns spans yields_all_def case_prod_unfold Let_def)
qed

lemma yields_max_all:
  assumes "folder_ok fo"
  shows "ready s b \<Longrightarrow> has fit \<rho> s b w n \<Longrightarrow> list_all2 (has fit \<rho> s b) vs ns \<Longrightarrow>
    (fit \<Longrightarrow> n < size_limit \<and> (\<forall>m \<in> set ns. m < size_limit)) \<Longrightarrow>
    yields fit \<rho> s b (max_all fo s (Before b) w vs) (foldl max n ns)"
proof (induction vs arbitrary: s w n ns)
  case Nil
  then show ?case
    by (simp add: yields_self)
next
  case (Cons v vs)
  then obtain m ns' where ns: "ns = m # ns'" "has fit \<rho> s b v m" "list_all2 (has fit \<rho> s b) vs ns'"
    by (auto simp: list_all2_Cons1)
  let ?r = "create_or_fold fo s (Before b) Max_ui w v"
  have r: "yields fit \<rho> s b ?r (max n m)"
    using Cons.prems ns assms by (intro yields_max) auto
  note R = yieldsD [OF r Cons.prems(1)]
  have "yields fit \<rho> (snd ?r) b (max_all fo (snd ?r) (Before b) (fst ?r) vs) (foldl max (max n m) ns')"
    using Cons.prems ns by (intro Cons.IH R has_all_grown [OF ns(3) _ R(1)]) auto
  then show ?case
    using yields_step [OF R(1)] by (simp add: ns(1) case_prod_unfold Let_def)
qed

text \<open>
  One slab.  Its members are indices of groups whose footprints have been emitted and stay
  below the machine limit even after rounding.
\<close>

lemma foldl_max_bound: "n < (m :: nat) \<Longrightarrow> \<forall>k \<in> set ns. k < m \<Longrightarrow> foldl max n ns < m"
  by (induction ns arbitrary: n) auto

lemma yields_slab_width:
  assumes fo: "folder_ok fo" and s: "ready s b" and slab: "slab \<noteq> []" "set slab \<subseteq> {..<length groups}"
    and fps: "list_all2 (has fit \<rho> s b) fps (map (group_footprint \<rho>) groups)"
    and al: "0 < al" "al < 2 ^ 63"
    and bound: "fit \<Longrightarrow> \<forall>gi \<in> set slab. group_footprint \<rho> (groups ! gi) + nat al \<le> size_limit"
  shows "yields fit \<rho> s b (emit_slab_width fo s (Before b) al groups fps slab) (slab_width \<rho> al groups slab)"
proof -
  obtain g gs where gs: "slab = g # gs"
    using slab(1) by (cases slab) auto
  have fp: "has fit \<rho> s b (fps ! gi) (group_footprint \<rho> (groups ! gi))" if "gi \<in> set slab" for gi
    using fps slab(2) that by (auto simp: list_all2_conv_all_nth)
  have lim: "group_footprint \<rho> (groups ! gi) < size_limit - nat al + 1" if fit "gi \<in> set slab" for gi
    using bound that by fastforce
  define w where "w = foldl max (group_footprint \<rho> (groups ! g))
      (map (\<lambda>gi. group_footprint \<rho> (groups ! gi)) gs)"
  have wl: "w < size_limit - nat al + 1" if fit
    unfolding w_def using lim that by (intro foldl_max_bound) (auto simp: gs)
  have al64: "nat al < size_limit"
    using al by simp
  let ?r = "max_all fo s (Before b) (fps ! g) (map (\<lambda>gi. fps ! gi) gs)"
  have r: "yields fit \<rho> s b ?r w"
    unfolding w_def
  proof (rule yields_max_all [OF fo s])
    show "has fit \<rho> s b (fps ! g) (group_footprint \<rho> (groups ! g))"
      using fp gs by simp
    show "list_all2 (has fit \<rho> s b) (map ((!) fps) gs) (map (\<lambda>gi. group_footprint \<rho> (groups ! gi)) gs)"
      using fp gs by (simp add: list_all2_conv_all_nth)
    assume fit: fit
    have "group_footprint \<rho> (groups ! gi) < size_limit" if "gi \<in> set slab" for gi
      using lim [OF fit that] al by simp
    then show "group_footprint \<rho> (groups ! g) < size_limit \<and>
        (\<forall>m \<in> set (map (\<lambda>gi. group_footprint \<rho> (groups ! gi)) gs). m < size_limit)"
      by (auto simp: gs)
  qed
  note R = yieldsD [OF r s]
  show ?thesis
  proof (cases "slab_need_align al groups slab")
    case True
    then have "al \<noteq> 1"
      by (auto simp: slab_need_align_def Let_def list_ex_iff split: if_splits)
    then have "yields fit \<rho> (snd ?r) b (emit_align_up fo (snd ?r) (Before b) (fst ?r) al) (round_to (nat al) w)"
      using wl al al64 by (intro yields_align_up [OF fo R(3,2)]) auto
    then show ?thesis
      using True yields_step [OF R(1)]
      by (simp add: emit_slab_width_def slab_width_def case_prod_unfold Let_def gs w_def)
  next
    case False
    then show ?thesis
      using r by (simp add: emit_slab_width_def slab_width_def case_prod_unfold Let_def gs w_def)
  qed
qed

lemma yields_slab_widths:
  assumes fo: "folder_ok fo" and al: "0 < al" "al < 2 ^ 63"
  shows "ready s b \<Longrightarrow> list_all2 (has fit \<rho> s b) fps (map (group_footprint \<rho>) groups) \<Longrightarrow>
    \<forall>slab \<in> set slabs. slab \<noteq> [] \<and> set slab \<subseteq> {..<length groups} \<and>
      (fit \<longrightarrow> (\<forall>gi \<in> set slab. group_footprint \<rho> (groups ! gi) + nat al \<le> size_limit)) \<Longrightarrow>
    yields_all fit \<rho> s b (emit_slab_widths fo s (Before b) al groups fps slabs)
      (map (slab_width \<rho> al groups) slabs)"
proof (induction slabs arbitrary: s)
  case Nil
  then show ?case
    by (simp add: yields_all_def ready_def grown_refl)
next
  case (Cons slab slabs)
  let ?r = "emit_slab_width fo s (Before b) al groups fps slab"
  have r: "yields fit \<rho> s b ?r (slab_width \<rho> al groups slab)"
    using Cons.prems by (intro yields_slab_width [OF fo _ _ _ _ al]) auto
  note R = yieldsD [OF r Cons.prems(1)]
  let ?q = "emit_slab_widths fo (snd ?r) (Before b) al groups fps slabs"
  have q: "yields_all fit \<rho> (snd ?r) b ?q (map (slab_width \<rho> al groups) slabs)"
    using Cons.prems by (intro Cons.IH R(3) has_all_grown [OF _ _ R(1)]) auto
  then have "has fit \<rho> (snd ?q) b (fst ?r) (slab_width \<rho> al groups slab)"
    using has_grown [OF R(2,3)] by (simp add: yields_all_def)
  then show ?case
    using q grown_trans [OF R(1)] by (simp add: yields_all_def case_prod_unfold Let_def)
qed

section \<open>Sums\<close>

lemma yields_add_all:
  assumes "folder_ok fo"
  shows "ready s b \<Longrightarrow> has fit \<rho> s b v n \<Longrightarrow> list_all2 (has fit \<rho> s b) ws ns \<Longrightarrow>
    yields fit \<rho> s b (add_all fo s (Before b) v ws) (n + sum_list ns)"
proof (induction ws arbitrary: s v n ns)
  case Nil
  then show ?case
    by (simp add: yields_self)
next
  case (Cons w ws)
  then obtain m ns' where ns: "ns = m # ns'" "has fit \<rho> s b w m" "list_all2 (has fit \<rho> s b) ws ns'"
    by (auto simp: list_all2_Cons1)
  let ?r = "create_or_fold fo s (Before b) Add_i v w"
  have r: "yields fit \<rho> s b ?r (n + m)"
    using Cons.prems ns assms by (intro yields_add) auto
  note R = yieldsD [OF r Cons.prems(1)]
  have "yields fit \<rho> (snd ?r) b (add_all fo (snd ?r) (Before b) (fst ?r) ws) (n + m + sum_list ns')"
    using Cons.prems ns by (intro Cons.IH R has_all_grown [OF ns(3) _ R(1)]) auto
  then show ?case
    using yields_step [OF R(1)] by (simp add: ns(1) case_prod_unfold Let_def add.assoc)
qed

lemma yields_times:
  assumes "folder_ok fo" and "ready s b" and "has fit \<rho> s b v n"
  shows "yields fit \<rho> s b (emit_times fo s (Before b) v k) (n * k)"
proof -
  let ?r = "create s (Before b) (Const_index (int k))"
  have r: "yields fit \<rho> s b ?r k"
    using yields_const [OF assms(2), of "int k" fit \<rho>] by simp
  note R = yieldsD [OF r assms(2)]
  have "yields fit \<rho> (snd ?r) b (create_or_fold fo (snd ?r) (Before b) Mul_i v (fst ?r)) (n * k)"
    by (rule yields_mul [OF assms(1) R(3) has_grown [OF assms(3,2) R(1)] R(2)])
  then show ?thesis
    using yields_step [OF R(1)] by (simp add: emit_times_def case_prod_unfold Let_def)
qed

lemma yields_add_buckets:
  assumes fo: "folder_ok fo"
  shows "ready s b \<Longrightarrow> has fit \<rho> s b v n \<Longrightarrow> list_all2 (has fit \<rho> s b) szs (map (bucket_size \<rho> al) bs) \<Longrightarrow>
    yields fit \<rho> s b (add_buckets fo s (Before b) v (zip szs bs))
      (n + sum_list (map (\<lambda>b. bucket_size \<rho> al b * length (db_bins b)) bs))"
proof (induction bs arbitrary: s v n szs)
  case Nil
  then show ?case
    by (simp add: yields_self)
next
  case (Cons bk bs)
  obtain sz szs' where szs: "szs = sz # szs'" "has fit \<rho> s b sz (bucket_size \<rho> al bk)"
    "list_all2 (has fit \<rho> s b) szs' (map (bucket_size \<rho> al) bs)"
    using Cons.prems(3) by (auto simp: list_all2_Cons2)
  let ?r1 = "emit_times fo s (Before b) sz (length (db_bins bk))"
  have r1: "yields fit \<rho> s b ?r1 (bucket_size \<rho> al bk * length (db_bins bk))"
    by (rule yields_times [OF fo Cons.prems(1) szs(2)])
  note R1 = yieldsD [OF r1 Cons.prems(1)]
  let ?r2 = "create_or_fold fo (snd ?r1) (Before b) Add_i v (fst ?r1)"
  have r2: "yields fit \<rho> (snd ?r1) b ?r2 (n + bucket_size \<rho> al bk * length (db_bins bk))"
    by (rule yields_add [OF fo R1(3) has_grown [OF Cons.prems(2,1) R1(1)] R1(2)])
  note R2 = yieldsD [OF r2 R1(3)]
  note g = grown_trans [OF R1(1) R2(1)]
  have "yields fit \<rho> (snd ?r2) b (add_buckets fo (snd ?r2) (Before b) (fst ?r2) (zip szs' bs))
      (n + bucket_size \<rho> al bk * length (db_bins bk) +
       sum_list (map (\<lambda>b. bucket_size \<rho> al b * length (db_bins b)) bs))"
    by (rule Cons.IH [OF R2(3,2) has_all_grown [OF szs(3) Cons.prems(1) g]])
  then show ?case
    using yields_step [OF g] by (simp add: szs(1) case_prod_unfold Let_def add.assoc)
qed

lemma yields_pool_size:
  assumes fo: "folder_ok fo" and s: "ready s b" and st: "0 \<le> st"
    and ws: "list_all2 (has fit \<rho> s b) ws ns" and szs: "list_all2 (has fit \<rho> s b) szs (map (bucket_size \<rho> al) bs)"
  shows "yields fit \<rho> s b (emit_pool_size fo s (Before b) st ws (zip szs bs))
    (nat st + sum_list ns + sum_list (map (\<lambda>b. bucket_size \<rho> al b * length (db_bins b)) bs))"
proof -
  let ?r1 = "create s (Before b) (Const_index st)"
  have r1: "yields fit \<rho> s b ?r1 (nat st)"
    by (rule yields_const [OF s st])
  note R1 = yieldsD [OF r1 s]
  let ?r2 = "add_all fo (snd ?r1) (Before b) (fst ?r1) ws"
  have r2: "yields fit \<rho> (snd ?r1) b ?r2 (nat st + sum_list ns)"
    by (rule yields_add_all [OF fo R1(3,2) has_all_grown [OF ws s R1(1)]])
  note R2 = yieldsD [OF r2 R1(3)]
  note g = grown_trans [OF R1(1) R2(1)]
  have "yields fit \<rho> (snd ?r2) b (add_buckets fo (snd ?r2) (Before b) (fst ?r2) (zip szs bs))
      (nat st + sum_list ns + sum_list (map (\<lambda>b. bucket_size \<rho> al b * length (db_bins b)) bs))"
    by (rule yields_add_buckets [OF fo R2(3,2) has_all_grown [OF szs s g]])
  then show ?thesis
    using yields_step [OF g] by (simp add: emit_pool_size_def case_prod_unfold Let_def)
qed

section \<open>Offsets\<close>

text \<open>The exact offsets the emitted arithmetic stands for, per group of emitted values.\<close>

type_synonym entries = "(alloc_info \<times> nat) list"

definition static_entries :: "assignments \<Rightarrow> entries" where
  "static_entries asg = map (\<lambda>(i, off). (i, nat off)) asg"

definition member_entries :: "nat \<Rightarrow> nat \<Rightarrow> assignments \<Rightarrow> entries" where
  "member_entries base f asg = map (\<lambda>(i, unit). (i, base + nat unit * f)) asg"

definition slab_entries :: "assignment \<Rightarrow> dyn_group list \<Rightarrow> nat \<Rightarrow> nat list \<Rightarrow> entries" where
  "slab_entries \<rho> groups base slab =
     concat (map (\<lambda>gi. member_entries base (dyn_prod \<rho> (dg_dyn (groups ! gi)))
                         (dg_assignments (groups ! gi))) slab)"

fun slabs_entries :: "assignment \<Rightarrow> int \<Rightarrow> dyn_group list \<Rightarrow> nat \<Rightarrow> nat list list \<Rightarrow> entries" where
  "slabs_entries \<rho> al groups base [] = []"
| "slabs_entries \<rho> al groups base (slab # slabs) =
     slab_entries \<rho> groups base slab @
     slabs_entries \<rho> al groups (base + slab_width \<rho> al groups slab) slabs"

fun bins_entries :: "nat \<Rightarrow> nat \<Rightarrow> nat \<Rightarrow> alloc_info list list \<Rightarrow> entries" where
  "bins_entries base sz idx [] = []"
| "bins_entries base sz idx (bin # bins) =
     map (\<lambda>i. (i, base + sz * idx)) bin @ bins_entries base sz (Suc idx) bins"

fun buckets_entries :: "assignment \<Rightarrow> int \<Rightarrow> nat \<Rightarrow> dyn_bucket list \<Rightarrow> entries" where
  "buckets_entries \<rho> al base [] = []"
| "buckets_entries \<rho> al base (b # bs) =
     bins_entries base (bucket_size \<rho> al b) 0 (db_bins b) @
     buckets_entries \<rho> al (base + bucket_size \<rho> al b * length (db_bins b)) bs"

definition stands_for :: "bool \<Rightarrow> assignment \<Rightarrow> ir \<Rightarrow> nat \<Rightarrow> nat \<times> val \<Rightarrow> alloc_info \<times> nat \<Rightarrow> bool" where
  "stands_for fit \<rho> s b x e \<longleftrightarrow> fst x = ai_def (fst e) \<and> has fit \<rho> s b (snd x) (snd e)"

definition offsets_for :: "bool \<Rightarrow> assignment \<Rightarrow> ir \<Rightarrow> nat \<Rightarrow> offset_map \<Rightarrow> entries \<Rightarrow> bool" where
  "offsets_for fit \<rho> s b offs E \<longleftrightarrow> list_all2 (stands_for fit \<rho> s b) offs E"

definition yields_offsets :: "bool \<Rightarrow> assignment \<Rightarrow> ir \<Rightarrow> nat \<Rightarrow> offset_map \<times> ir \<Rightarrow> entries \<Rightarrow> bool" where
  "yields_offsets fit \<rho> s b r E \<longleftrightarrow> grown s (snd r) \<and> offsets_for fit \<rho> (snd r) b (fst r) E"

lemma offsets_for_grown:
  "offsets_for fit \<rho> s b offs E \<Longrightarrow> ready s b \<Longrightarrow> grown s s' \<Longrightarrow> offsets_for fit \<rho> s' b offs E"
  unfolding offsets_for_def stands_for_def
  by (erule list_all2_mono) (auto intro: has_grown)

lemma offsets_for_Cons:
  "offsets_for fit \<rho> s b offs E \<Longrightarrow> has fit \<rho> s b v n \<Longrightarrow> offsets_for fit \<rho> s b ((ai_def i, v) # offs) ((i, n) # E)"
  by (simp add: offsets_for_def stands_for_def)

lemma yields_offsetsD:
  assumes "yields_offsets fit \<rho> s b r E" and "ready s b"
  shows "grown s (snd r)" and "offsets_for fit \<rho> (snd r) b (fst r) E" and "ready (snd r) b"
  using assms ready_grown by (auto simp: yields_offsets_def)

lemma yields_offsets_step:
  "grown s t \<Longrightarrow> yields_offsets fit \<rho> t b r E \<Longrightarrow> yields_offsets fit \<rho> s b r E"
  by (auto simp: yields_offsets_def intro: grown_trans)

lemma yields_offsets_self:
  "ready s b \<Longrightarrow> offsets_for fit \<rho> s b offs E \<Longrightarrow> yields_offsets fit \<rho> s b (offs, s) E"
  by (simp add: yields_offsets_def ready_def grown_refl)

lemma yields_static_offsets:
  "ready s b \<Longrightarrow> offsets_for fit \<rho> s b offs E \<Longrightarrow> \<forall>(i, off) \<in> set asg. 0 \<le> off \<Longrightarrow>
   yields_offsets fit \<rho> s b (static_offsets s (Before b) asg offs) (rev (static_entries asg) @ E)"
proof (induction asg arbitrary: s offs E)
  case Nil
  then show ?case
    by (simp add: yields_offsets_self static_entries_def)
next
  case (Cons e asg)
  obtain i off where e: "e = (i, off)" "0 \<le> off"
    using Cons.prems(3) by (cases e) auto
  let ?r = "create s (Before b) (Const_index off)"
  have r: "yields fit \<rho> s b ?r (nat off)"
    by (rule yields_const [OF Cons.prems(1) e(2)])
  note R = yieldsD [OF r Cons.prems(1)]
  have o: "offsets_for fit \<rho> (snd ?r) b ((ai_def i, fst ?r) # offs) ((i, nat off) # E)"
    by (rule offsets_for_Cons [OF offsets_for_grown [OF Cons.prems(2,1) R(1)] R(2)])
  have "yields_offsets fit \<rho> (snd ?r) b
      (static_offsets (snd ?r) (Before b) asg ((ai_def i, fst ?r) # offs))
      (rev (static_entries asg) @ (i, nat off) # E)"
    using Cons.prems(3) by (intro Cons.IH R(3) o) auto
  then show ?case
    using yields_offsets_step [OF R(1)] by (simp add: e static_entries_def case_prod_unfold Let_def)
qed

lemma yields_member_offset:
  assumes fo: "folder_ok fo" and s: "ready s b" and base: "has fit \<rho> s b base B"
    and f: "has fit \<rho> s b f F" and unit: "0 \<le> unit"
  shows "yields fit \<rho> s b
    (if unit \<noteq> 0 then
       let (uo, s1) = create s (Before b) (Const_index unit);
           (scaled, s2) = create_or_fold fo s1 (Before b) Mul_i f uo
       in create_or_fold fo s2 (Before b) Add_i base scaled
     else (base, s)) (B + nat unit * F)"
proof (cases "unit = 0")
  case True
  then show ?thesis
    using yields_self [OF s base] by simp
next
  case False
  let ?r1 = "create s (Before b) (Const_index unit)"
  have r1: "yields fit \<rho> s b ?r1 (nat unit)"
    by (rule yields_const [OF s unit])
  note R1 = yieldsD [OF r1 s]
  let ?r2 = "create_or_fold fo (snd ?r1) (Before b) Mul_i f (fst ?r1)"
  have r2: "yields fit \<rho> (snd ?r1) b ?r2 (F * nat unit)"
    by (rule yields_mul [OF fo R1(3) has_grown [OF f s R1(1)] R1(2)])
  note R2 = yieldsD [OF r2 R1(3)]
  note g = grown_trans [OF R1(1) R2(1)]
  have "yields fit \<rho> (snd ?r2) b (create_or_fold fo (snd ?r2) (Before b) Add_i base (fst ?r2)) (B + F * nat unit)"
    by (rule yields_add [OF fo R2(3) has_grown [OF base s g] R2(2)])
  then show ?thesis
    using False yields_step [OF g] by (simp add: case_prod_unfold Let_def mult.commute)
qed

lemma yields_member_offsets:
  assumes fo: "folder_ok fo"
  shows "ready s b \<Longrightarrow> has fit \<rho> s b base B \<Longrightarrow> has fit \<rho> s b f F \<Longrightarrow> offsets_for fit \<rho> s b offs E \<Longrightarrow>
    \<forall>e \<in> set asg. 0 \<le> snd e \<Longrightarrow>
    yields_offsets fit \<rho> s b (member_offsets fo s (Before b) base f asg offs)
      (rev (member_entries B F asg) @ E)"
proof (induction asg arbitrary: s offs E)
  case Nil
  then show ?case
    by (simp add: yields_offsets_self member_entries_def)
next
  case (Cons e asg)
  obtain i unit where e: "e = (i, unit)" "0 \<le> unit"
    using Cons.prems(5) by (cases e) auto
  define r where "r = (if unit \<noteq> 0 then
       let (uo, s1) = create s (Before b) (Const_index unit);
           (scaled, s2) = create_or_fold fo s1 (Before b) Mul_i f uo
       in create_or_fold fo s2 (Before b) Add_i base scaled
     else (base, s))"
  have r: "yields fit \<rho> s b r (B + nat unit * F)"
    unfolding r_def by (rule yields_member_offset [OF fo Cons.prems(1-3) e(2)])
  note R = yieldsD [OF r Cons.prems(1)]
  have o: "offsets_for fit \<rho> (snd r) b ((ai_def i, fst r) # offs) ((i, B + nat unit * F) # E)"
    by (rule offsets_for_Cons [OF offsets_for_grown [OF Cons.prems(4,1) R(1)] R(2)])
  have "yields_offsets fit \<rho> (snd r) b
      (member_offsets fo (snd r) (Before b) base f asg ((ai_def i, fst r) # offs))
      (rev (member_entries B F asg) @ (i, B + nat unit * F) # E)"
    using Cons.prems(5) has_grown [OF Cons.prems(2,1) R(1)] has_grown [OF Cons.prems(3,1) R(1)]
    by (intro Cons.IH R(3) o) auto
  moreover have "member_offsets fo s (Before b) base f (e # asg) offs =
      member_offsets fo (snd r) (Before b) base f asg ((ai_def i, fst r) # offs)"
    unfolding r_def by (simp only: e member_offsets.simps case_prod_unfold Let_def)
  ultimately show ?case
    using yields_offsets_step [OF R(1)] by (simp add: e member_entries_def)
qed

lemma yields_slab_member_offsets:
  assumes fo: "folder_ok fo"
    and ok: "\<And>gi e. gi < length groups \<Longrightarrow> e \<in> set (dg_assignments (groups ! gi)) \<Longrightarrow> 0 \<le> snd e"
  shows "ready s b \<Longrightarrow> has fit \<rho> s b base B \<Longrightarrow>
    list_all2 (has fit \<rho> s b) fs (map (\<lambda>g. dyn_prod \<rho> (dg_dyn g)) groups) \<Longrightarrow>
    offsets_for fit \<rho> s b offs E \<Longrightarrow> set slab \<subseteq> {..<length groups} \<Longrightarrow>
    yields_offsets fit \<rho> s b (slab_member_offsets fo s (Before b) groups fs base slab offs)
      (rev (slab_entries \<rho> groups B slab) @ E)"
proof (induction slab arbitrary: s offs E)
  case Nil
  then show ?case
    by (simp add: yields_offsets_self slab_entries_def)
next
  case (Cons gi slab)
  have f: "has fit \<rho> s b (fs ! gi) (dyn_prod \<rho> (dg_dyn (groups ! gi)))"
    using Cons.prems(3,5) by (auto simp: list_all2_conv_all_nth)
  let ?E = "member_entries B (dyn_prod \<rho> (dg_dyn (groups ! gi))) (dg_assignments (groups ! gi))"
  let ?r = "member_offsets fo s (Before b) base (fs ! gi) (dg_assignments (groups ! gi)) offs"
  have r: "yields_offsets fit \<rho> s b ?r (rev ?E @ E)"
    using Cons.prems(5) ok by (intro yields_member_offsets [OF fo Cons.prems(1,2) f Cons.prems(4)]) auto
  note R = yields_offsetsD [OF r Cons.prems(1)]
  have "yields_offsets fit \<rho> (snd ?r) b
      (slab_member_offsets fo (snd ?r) (Before b) groups fs base slab (fst ?r))
      (rev (slab_entries \<rho> groups B slab) @ rev ?E @ E)"
    using Cons.prems(5)
    by (intro Cons.IH R has_grown [OF Cons.prems(2,1) R(1)] has_all_grown [OF Cons.prems(3,1) R(1)]) simp
  then show ?case
    using yields_offsets_step [OF R(1)] by (simp add: slab_entries_def case_prod_unfold Let_def)
qed

lemma yields_slab_offsets:
  assumes fo: "folder_ok fo"
    and ok: "\<And>gi e. gi < length groups \<Longrightarrow> e \<in> set (dg_assignments (groups ! gi)) \<Longrightarrow> 0 \<le> snd e"
  shows "ready s b \<Longrightarrow> has fit \<rho> s b base B \<Longrightarrow>
    list_all2 (has fit \<rho> s b) fs (map (\<lambda>g. dyn_prod \<rho> (dg_dyn g)) groups) \<Longrightarrow>
    list_all2 (has fit \<rho> s b) ws (map (slab_width \<rho> al groups) slabs) \<Longrightarrow>
    offsets_for fit \<rho> s b offs E \<Longrightarrow> \<forall>slab \<in> set slabs. set slab \<subseteq> {..<length groups} \<Longrightarrow>
    slab_offsets fo s (Before b) groups fs base (zip slabs ws) offs = (base', offs', s') \<Longrightarrow>
    has fit \<rho> s' b base' (B + sum_list (map (slab_width \<rho> al groups) slabs)) \<and>
    yields_offsets fit \<rho> s b (offs', s') (rev (slabs_entries \<rho> al groups B slabs) @ E)"
proof (induction slabs arbitrary: s base B ws offs E)
  case Nil
  then show ?case
    by (auto simp: yields_offsets_self)
next
  case (Cons slab slabs)
  obtain w ws' where ws: "ws = w # ws'" "has fit \<rho> s b w (slab_width \<rho> al groups slab)"
    "list_all2 (has fit \<rho> s b) ws' (map (slab_width \<rho> al groups) slabs)"
    using Cons.prems(4) by (auto simp: list_all2_Cons2)
  let ?r = "slab_member_offsets fo s (Before b) groups fs base slab offs"
  have r: "yields_offsets fit \<rho> s b ?r (rev (slab_entries \<rho> groups B slab) @ E)"
    using Cons.prems by (intro yields_slab_member_offsets [OF fo ok]) auto
  note R = yields_offsetsD [OF r Cons.prems(1)]
  let ?q = "create_or_fold fo (snd ?r) (Before b) Add_i base w"
  have q: "yields fit \<rho> (snd ?r) b ?q (B + slab_width \<rho> al groups slab)"
    by (rule yields_add [OF fo R(3) has_grown [OF Cons.prems(2,1) R(1)]
          has_grown [OF ws(2) Cons.prems(1) R(1)]])
  note Q = yieldsD [OF q R(3)]
  note g = grown_trans [OF R(1) Q(1)]
  have eq: "slab_offsets fo (snd ?q) (Before b) groups fs (fst ?q) (zip slabs ws') (fst ?r) = (base', offs', s')"
    using Cons.prems(7) by (simp add: ws(1) case_prod_unfold Let_def)
  have "has fit \<rho> s' b base' (B + slab_width \<rho> al groups slab + sum_list (map (slab_width \<rho> al groups) slabs)) \<and>
    yields_offsets fit \<rho> (snd ?q) b (offs', s')
      (rev (slabs_entries \<rho> al groups (B + slab_width \<rho> al groups slab) slabs) @
       rev (slab_entries \<rho> groups B slab) @ E)"
    using Cons.prems(6)
    by (intro Cons.IH [OF Q(3,2) has_all_grown [OF Cons.prems(3,1) g]
          has_all_grown [OF ws(3) Cons.prems(1) g] offsets_for_grown [OF R(2,3) Q(1)] _ eq]) simp
  then show ?case
    using yields_offsets_step [OF g] by (simp add: add.assoc)
qed

lemma offsets_for_bin:
  "offsets_for fit \<rho> s b offs E \<Longrightarrow> has fit \<rho> s b v n \<Longrightarrow>
   offsets_for fit \<rho> s b (rev (map (\<lambda>i. (ai_def i, v)) bin) @ offs) (rev (map (\<lambda>i. (i, n)) bin) @ E)"
  by (induction bin arbitrary: offs E) (simp_all add: offsets_for_Cons)

lemma yields_bin_offsets:
  assumes fo: "folder_ok fo"
  shows "ready s b \<Longrightarrow> has fit \<rho> s b base B \<Longrightarrow> has fit \<rho> s b sz n \<Longrightarrow> offsets_for fit \<rho> s b offs E \<Longrightarrow>
    yields_offsets fit \<rho> s b (bin_offsets fo s (Before b) base sz idx bins offs)
      (rev (bins_entries B n idx bins) @ E)"
proof (induction bins arbitrary: s idx offs E)
  case Nil
  then show ?case
    by (simp add: yields_offsets_self)
next
  case (Cons bin bins)
  let ?r = "emit_times fo s (Before b) sz idx"
  have r: "yields fit \<rho> s b ?r (n * idx)"
    by (rule yields_times [OF fo Cons.prems(1,3)])
  note R = yieldsD [OF r Cons.prems(1)]
  let ?q = "create_or_fold fo (snd ?r) (Before b) Add_i base (fst ?r)"
  have q: "yields fit \<rho> (snd ?r) b ?q (B + n * idx)"
    by (rule yields_add [OF fo R(3) has_grown [OF Cons.prems(2,1) R(1)] R(2)])
  note Q = yieldsD [OF q R(3)]
  note g = grown_trans [OF R(1) Q(1)]
  have o: "offsets_for fit \<rho> (snd ?q) b (rev (map (\<lambda>i. (ai_def i, fst ?q)) bin) @ offs)
      (rev (map (\<lambda>i. (i, B + n * idx)) bin) @ E)"
    by (rule offsets_for_bin [OF offsets_for_grown [OF Cons.prems(4,1) g] Q(2)])
  have "yields_offsets fit \<rho> (snd ?q) b
      (bin_offsets fo (snd ?q) (Before b) base sz (Suc idx) bins
        (rev (map (\<lambda>i. (ai_def i, fst ?q)) bin) @ offs))
      (rev (bins_entries B n (Suc idx) bins) @ rev (map (\<lambda>i. (i, B + n * idx)) bin) @ E)"
    by (rule Cons.IH [OF Q(3) has_grown [OF Cons.prems(2,1) g] has_grown [OF Cons.prems(3,1) g] o])
  then show ?case
    using yields_offsets_step [OF g] by (simp add: case_prod_unfold Let_def)
qed

lemma yields_bucket_offsets:
  assumes fo: "folder_ok fo"
  shows "ready s b \<Longrightarrow> has fit \<rho> s b base B \<Longrightarrow>
    list_all2 (has fit \<rho> s b) szs (map (bucket_size \<rho> al) bs) \<Longrightarrow> offsets_for fit \<rho> s b offs E \<Longrightarrow>
    yields_offsets fit \<rho> s b (bucket_offsets fo s (Before b) base (zip szs bs) offs)
      (rev (buckets_entries \<rho> al B bs) @ E)"
proof (induction bs arbitrary: s base B szs offs E)
  case Nil
  then show ?case
    by (simp add: yields_offsets_self)
next
  case (Cons bk bs)
  obtain sz szs' where szs: "szs = sz # szs'" "has fit \<rho> s b sz (bucket_size \<rho> al bk)"
    "list_all2 (has fit \<rho> s b) szs' (map (bucket_size \<rho> al) bs)"
    using Cons.prems(3) by (auto simp: list_all2_Cons2)
  let ?n = "bucket_size \<rho> al bk" and ?k = "length (db_bins bk)"
  let ?r1 = "bin_offsets fo s (Before b) base sz 0 (db_bins bk) offs"
  have r1: "yields_offsets fit \<rho> s b ?r1 (rev (bins_entries B ?n 0 (db_bins bk)) @ E)"
    by (rule yields_bin_offsets [OF fo Cons.prems(1,2) szs(2) Cons.prems(4)])
  note R1 = yields_offsetsD [OF r1 Cons.prems(1)]
  let ?r2 = "emit_times fo (snd ?r1) (Before b) sz ?k"
  have r2: "yields fit \<rho> (snd ?r1) b ?r2 (?n * ?k)"
    by (rule yields_times [OF fo R1(3) has_grown [OF szs(2) Cons.prems(1) R1(1)]])
  note R2 = yieldsD [OF r2 R1(3)]
  note g2 = grown_trans [OF R1(1) R2(1)]
  let ?r3 = "create_or_fold fo (snd ?r2) (Before b) Add_i base (fst ?r2)"
  have r3: "yields fit \<rho> (snd ?r2) b ?r3 (B + ?n * ?k)"
    by (rule yields_add [OF fo R2(3) has_grown [OF Cons.prems(2,1) g2] R2(2)])
  note R3 = yieldsD [OF r3 R2(3)]
  note g = grown_trans [OF g2 R3(1)]
  have "yields_offsets fit \<rho> (snd ?r3) b
      (bucket_offsets fo (snd ?r3) (Before b) (fst ?r3) (zip szs' bs) (fst ?r1))
      (rev (buckets_entries \<rho> al (B + ?n * ?k) bs) @ rev (bins_entries B ?n 0 (db_bins bk)) @ E)"
    by (rule Cons.IH [OF R3(3,2) has_all_grown [OF szs(3) Cons.prems(1) g]
          offsets_for_grown [OF R1(2,3) grown_trans [OF R2(1) R3(1)]]])
  then show ?case
    using yields_offsets_step [OF g] by (simp add: szs(1) case_prod_unfold Let_def)
qed

section \<open>The pool of one domain\<close>

definition pool_entries :: "assignment \<Rightarrow> int \<Rightarrow> domain_plan \<Rightarrow> entries" where
  "pool_entries \<rho> al plan =
     (let p = pd_dyn plan; st = nat (pd_static_size plan);
          ws = sum_list (map (slab_width \<rho> al (dp_groups p)) (dp_slabs p))
      in static_entries (pd_static_asg plan) @
         (if dp_empty p then []
          else slabs_entries \<rho> al (dp_groups p) st (dp_slabs p) @
               buckets_entries \<rho> al (st + ws) (dp_buckets p)))"

text \<open>What a plan must satisfy, and that its exact sizes stay in the machine's range.\<close>

definition plan_ok :: "int \<Rightarrow> domain_plan \<Rightarrow> bool" where
  "plan_ok al plan \<longleftrightarrow> 0 < al \<and> al < 2 ^ 63 \<and> 0 \<le> pd_static_size plan \<and>
     (\<forall>e \<in> set (pd_static_asg plan). 0 \<le> snd e) \<and>
     (\<forall>g \<in> set (dp_groups (pd_dyn plan)). group_ok al g) \<and>
     (\<forall>b \<in> set (dp_buckets (pd_dyn plan)). 0 \<le> db_factor b) \<and>
     (\<forall>slab \<in> set (dp_slabs (pd_dyn plan)).
        slab \<noteq> [] \<and> set slab \<subseteq> {..<length (dp_groups (pd_dyn plan))})"

definition plan_fits :: "assignment \<Rightarrow> int \<Rightarrow> domain_plan \<Rightarrow> bool" where
  "plan_fits \<rho> al plan \<longleftrightarrow>
     (\<forall>g \<in> set (dp_groups (pd_dyn plan)). group_footprint \<rho> g + nat al \<le> size_limit) \<and>
     (\<forall>b \<in> set (dp_buckets (pd_dyn plan)).
        nat (db_factor b) * dyn_prod \<rho> (db_dyn b) + nat al \<le> size_limit)"

lemma yields_dynamic_offsets:
  assumes fo: "folder_ok fo" and s: "ready s b" and plan: "plan_ok al plan"
    and fs: "list_all2 (has fit \<rho> s b) fs (map (\<lambda>g. dyn_prod \<rho> (dg_dyn g)) (dp_groups (pd_dyn plan)))"
    and ws: "list_all2 (has fit \<rho> s b) ws
      (map (slab_width \<rho> al (dp_groups (pd_dyn plan))) (dp_slabs (pd_dyn plan)))"
    and szs: "list_all2 (has fit \<rho> s b) szs (map (bucket_size \<rho> al) (dp_buckets (pd_dyn plan)))"
    and offs: "offsets_for fit \<rho> s b offs (rev (static_entries (pd_static_asg plan)))"
  shows "yields_offsets fit \<rho> s b
    (dynamic_offsets fo s (Before b) (pd_static_size plan) (pd_dyn plan) fs ws szs offs)
    (rev (pool_entries \<rho> al plan))"
proof (cases "dp_empty (pd_dyn plan)")
  case True
  then show ?thesis
    using yields_offsets_self [OF s offs] by (simp add: dynamic_offsets_def pool_entries_def Let_def)
next
  case False
  let ?p = "pd_dyn plan"
  let ?r = "create s (Before b) (Const_index (pd_static_size plan))"
  have r: "yields fit \<rho> s b ?r (nat (pd_static_size plan))"
    using plan by (intro yields_const [OF s]) (simp add: plan_ok_def)
  note R = yieldsD [OF r s]
  obtain base' offs' s2 where q: "slab_offsets fo (snd ?r) (Before b) (dp_groups ?p) fs (fst ?r)
      (zip (dp_slabs ?p) ws) offs = (base', offs', s2)"
    by (cases "slab_offsets fo (snd ?r) (Before b) (dp_groups ?p) fs (fst ?r)
      (zip (dp_slabs ?p) ws) offs") auto
  have units: "0 \<le> snd e" if "gi < length (dp_groups ?p)" "e \<in> set (dg_assignments (dp_groups ?p ! gi))" for gi e
  proof -
    have "group_ok al (dp_groups ?p ! gi)"
      using plan nth_mem [OF that(1)] unfolding plan_ok_def by blast
    then show ?thesis
      using that(2) by (simp add: group_ok_def)
  qed
  have q': "has fit \<rho> s2 b base'
      (nat (pd_static_size plan) + sum_list (map (slab_width \<rho> al (dp_groups ?p)) (dp_slabs ?p))) \<and>
    yields_offsets fit \<rho> (snd ?r) b (offs', s2)
      (rev (slabs_entries \<rho> al (dp_groups ?p) (nat (pd_static_size plan)) (dp_slabs ?p)) @
       rev (static_entries (pd_static_asg plan)))"
    using plan
    by (intro yields_slab_offsets [OF fo units R(3,2) has_all_grown [OF fs s R(1)]
          has_all_grown [OF ws s R(1)] offsets_for_grown [OF offs s R(1)] _ q])
      (auto simp: plan_ok_def)
  then have "yields_offsets fit \<rho> (snd ?r) b (offs', s2)
      (rev (slabs_entries \<rho> al (dp_groups ?p) (nat (pd_static_size plan)) (dp_slabs ?p)) @
       rev (static_entries (pd_static_asg plan)))"
    by blast
  note Q = yields_offsetsD [OF this R(3), unfolded fst_conv snd_conv]
  note g = grown_trans [OF R(1) Q(1)]
  have "yields_offsets fit \<rho> s2 b (bucket_offsets fo s2 (Before b) base' (zip szs (dp_buckets ?p)) offs')
      (rev (buckets_entries \<rho> al
        (nat (pd_static_size plan) + sum_list (map (slab_width \<rho> al (dp_groups ?p)) (dp_slabs ?p)))
        (dp_buckets ?p)) @
       rev (slabs_entries \<rho> al (dp_groups ?p) (nat (pd_static_size plan)) (dp_slabs ?p)) @
       rev (static_entries (pd_static_asg plan)))"
    using q' by (intro yields_bucket_offsets [OF fo Q(3) _ has_all_grown [OF szs s g] Q(2)]) blast
  then show ?thesis
    using False yields_offsets_step [OF g] q
    by (simp add: dynamic_offsets_def pool_entries_def case_prod_unfold Let_def)
qed

lemma create_pool:
  assumes "ready s b" and "available (ir_block s) (Before b) ctx" and "has_result s ctx"
    and "usable s b sz"
  shows "grown s (snd (create s (Before b) (Get_pool ctx sz d)))"
    and "available (ir_block (snd (create s (Before b) (Get_pool ctx sz d)))) (Before b)
      (fst (create s (Before b) (Get_pool ctx sz d)))"
    and "(ir_next s, Get_pool ctx sz d) \<in> set (ir_block (snd (create s (Before b) (Get_pool ctx sz d))))"
    and "fst (create s (Before b) (Get_pool ctx sz d)) = Res (ir_next s) 0"
  using assms create_available [of s b "Get_pool ctx sz d"]
    create_grown [of s "Get_pool ctx sz d" "Before b"]
  by (simp_all add: ready_def usable_def create_fst create_block op_typed_def index_has_result)

lemma available_grown:
  "available (ir_block s) (Before b) v \<Longrightarrow> ready s b \<Longrightarrow> grown s s' \<Longrightarrow>
   available (ir_block s') (Before b) v"
  by (auto simp: ready_def grown_def intro: extends_available)

text \<open>
  One pool: after \<open>emit_pool\<close> the block has the \<open>hip.get_pool\<close> of the domain, its size
  operand is the exact total, and every allocation of the plan has its exact offset.
\<close>

lemma emit_pool_ok:
  assumes fo: "folder_ok fo" and s: "ready s b" and plan: "plan_ok al plan" and fits: "fit \<Longrightarrow> plan_fits \<rho> al plan"
    and ctx: "ctx = Arg k"
    and fs: "list_all2 (has fit \<rho> s b) fs (map (\<lambda>g. dyn_prod \<rho> (dg_dyn g)) (dp_groups (pd_dyn plan)))"
    and szs: "list_all2 (has fit \<rho> s b) szs (map (bucket_size \<rho> al) (dp_buckets (pd_dyn plan)))"
    and r: "emit_pool fo s (Before b) al ctx d plan fs szs = ((pool, pool_size, offs), s')"
  shows "grown s s'" and "available (ir_block s') (Before b) pool"
    and "\<exists>a. pool = Res a 0 \<and> (a, Get_pool ctx pool_size d) \<in> set (ir_block s')"
    and "has fit \<rho> s' b pool_size (pool_total \<rho> al plan)"
    and "offsets_for fit \<rho> s' b offs (rev (pool_entries \<rho> al plan))"
proof -
  let ?p = "pd_dyn plan"
  let ?r1 = "emit_footprints fo s (Before b) (zip fs (map dg_span (dp_groups ?p)))"
  have al: "0 < al" "al < 2 ^ 63" and st: "0 \<le> pd_static_size plan"
    and slabs: "\<forall>slab \<in> set (dp_slabs ?p). slab \<noteq> [] \<and> set slab \<subseteq> {..<length (dp_groups ?p)}"
    using plan by (simp_all add: plan_ok_def)
  have spans: "\<forall>c \<in> set (map dg_span (dp_groups ?p)). 0 \<le> c"
    using plan by (auto simp: plan_ok_def group_ok_def)
  have len: "length (map dg_span (dp_groups ?p)) = length fs"
    using fs by (simp add: list_all2_lengthD)
  have prods: "map (\<lambda>(n, c). nat c * n)
      (zip (map (\<lambda>g. dyn_prod \<rho> (dg_dyn g)) (dp_groups ?p)) (map dg_span (dp_groups ?p))) =
      map (group_footprint \<rho>) (dp_groups ?p)"
    by (rule nth_equalityI) (simp_all add: group_footprint_def)
  have r1: "yields_all fit \<rho> s b ?r1 (map (group_footprint \<rho>) (dp_groups ?p))"
    using yields_footprints [OF fo s fs len spans] by (simp only: prods)
  then have g1: "grown s (snd ?r1)"
    and fps: "list_all2 (has fit \<rho> (snd ?r1) b) (fst ?r1) (map (group_footprint \<rho>) (dp_groups ?p))"
    by (simp_all add: yields_all_def)
  note s1 = ready_grown [OF s g1]
  let ?r2 = "emit_slab_widths fo (snd ?r1) (Before b) al (dp_groups ?p) (fst ?r1) (dp_slabs ?p)"
  have "yields_all fit \<rho> (snd ?r1) b ?r2 (map (slab_width \<rho> al (dp_groups ?p)) (dp_slabs ?p))"
    using slabs fits
    by (intro yields_slab_widths [OF fo al s1 fps]) (auto simp: plan_fits_def subset_iff)
  then have g2: "grown (snd ?r1) (snd ?r2)"
    and ws: "list_all2 (has fit \<rho> (snd ?r2) b) (fst ?r2) (map (slab_width \<rho> al (dp_groups ?p)) (dp_slabs ?p))"
    by (simp_all add: yields_all_def)
  note s2 = ready_grown [OF s1 g2] and g12 = grown_trans [OF g1 g2]
  let ?r3 = "emit_pool_size fo (snd ?r2) (Before b) (pd_static_size plan) (fst ?r2) (zip szs (dp_buckets ?p))"
  have r3: "yields fit \<rho> (snd ?r2) b ?r3 (pool_total \<rho> al plan)"
    using yields_pool_size [OF fo s2 st ws has_all_grown [OF szs s g12]]
    by (simp add: pool_total_def)
  note R3 = yieldsD [OF r3 s2] and g13 = grown_trans [OF g12 R3(1)]
  let ?r4 = "create (snd ?r3) (Before b) (Get_pool ctx (fst ?r3) d)"
  have ctx3: "available (ir_block (snd ?r3)) (Before b) ctx" "has_result (snd ?r3) ctx"
    by (simp_all add: ctx available_def has_result_def)
  have "usable (snd ?r3) b (fst ?r3)"
    using R3(2) by (simp add: has_def)
  note P = create_pool [OF R3(3) ctx3 this, of d]
  note s4 = ready_grown [OF R3(3) P(1)] and g14 = grown_trans [OF g13 P(1)]
  let ?r5 = "static_offsets (snd ?r4) (Before b) (pd_static_asg plan) []"
  have "yields_offsets fit \<rho> (snd ?r4) b ?r5 (rev (static_entries (pd_static_asg plan)) @ [])"
    using plan by (intro yields_static_offsets [OF s4]) (auto simp: offsets_for_def plan_ok_def)
  then have r5: "yields_offsets fit \<rho> (snd ?r4) b ?r5 (rev (static_entries (pd_static_asg plan)))"
    by simp
  note R5 = yields_offsetsD [OF r5 s4] and g15 = grown_trans [OF g14 yields_offsetsD(1) [OF r5 s4]]
  let ?r6 = "dynamic_offsets fo (snd ?r5) (Before b) (pd_static_size plan) ?p fs (fst ?r2) szs (fst ?r5)"
  have g25: "grown (snd ?r2) (snd ?r5)"
    by (rule grown_trans [OF grown_trans [OF R3(1) P(1)] R5(1)])
  have r6: "yields_offsets fit \<rho> (snd ?r5) b ?r6 (rev (pool_entries \<rho> al plan))"
    by (rule yields_dynamic_offsets [OF fo R5(3) plan has_all_grown [OF fs s g15]
          has_all_grown [OF ws s2 g25] has_all_grown [OF szs s g15] R5(2)])
  note R6 = yields_offsetsD [OF r6 R5(3)]
  have g36: "grown (snd ?r3) (snd ?r6)" and g46: "grown (snd ?r4) (snd ?r6)"
    by (rule grown_trans [OF grown_trans [OF P(1) R5(1)] R6(1)],
        rule grown_trans [OF R5(1) R6(1)])
  have "((pool, pool_size, offs), s') = ((fst ?r4, fst ?r3, fst ?r6), snd ?r6)"
    unfolding r [symmetric] emit_pool_def
    by (simp only: case_prod_unfold Let_def fst_conv snd_conv)
  then have eq: "pool = fst ?r4" "pool_size = fst ?r3" "offs = fst ?r6" "s' = snd ?r6"
    by (simp_all only: prod.inject)
  show "grown s s'"
    unfolding eq by (rule grown_trans [OF g15 R6(1)])
  show "available (ir_block s') (Before b) pool"
    unfolding eq by (rule available_grown [OF P(2) s4 g46])
  show "\<exists>a. pool = Res a 0 \<and> (a, Get_pool ctx pool_size d) \<in> set (ir_block s')"
    using P(3,4) g46 unfolding eq by (auto simp: grown_def extends_def)
  show "has fit \<rho> s' b pool_size (pool_total \<rho> al plan)"
    unfolding eq by (rule has_grown [OF R3(2,3) g36])
  show "offsets_for fit \<rho> s' b offs (rev (pool_entries \<rho> al plan))"
    unfolding eq by (rule R6(2))
qed

end
