(* ===== verification/Pool_Layout.thy ===== *)
theory Pool_Layout
  imports Pool_Arithmetic
begin

text \<open>
  The exact layout of one domain's pool, without machine arithmetic: every allocation of a
  plan lies inside the pool at an aligned offset, and allocations that are live at the same
  time do not share a byte, for every value of the dynamic dimensions.
\<close>

section \<open>Run-time sizes\<close>

fun shape_elems :: "assignment \<Rightarrow> int option list \<Rightarrow> val list \<Rightarrow> nat" where
  "shape_elems \<rho> [] vs = 1"
| "shape_elems \<rho> (Some d # dims) vs = nat d * shape_elems \<rho> dims vs"
| "shape_elems \<rho> (None # dims) (v # vs) = unat (\<rho> v) * shape_elems \<rho> dims vs"
| "shape_elems \<rho> (None # dims) [] = 0"

text \<open>The bytes a memref of the allocation's type occupies for its actual dimensions.\<close>

definition runtime_bytes :: "assignment \<Rightarrow> alloc_info \<Rightarrow> nat" where
  "runtime_bytes \<rho> i =
     (shape_elems \<rho> (mt_shape (ai_type i)) (ai_dyn i) * nat (mt_bits (ai_type i)) + 7) div 8"

text \<open>The bytes the pass reserves for it.\<close>

definition region_bytes :: "assignment \<Rightarrow> alloc_info \<Rightarrow> nat" where
  "region_bytes \<rho> i =
     (if ai_bytes i > 0 then nat (ai_bytes i)
      else nat (static_factor_of i) * dyn_prod \<rho> (dyn_key i))"

text \<open>A verified allocation: its static dimensions and element width are not negative.\<close>

definition type_ok :: "memref_type \<Rightarrow> bool" where
  "type_ok t \<longleftrightarrow> 0 \<le> mt_bits t \<and> (\<forall>d \<in> set (mt_shape t). case d of None \<Rightarrow> True | Some n \<Rightarrow> 0 \<le> n)"

definition static_elems :: "int option list \<Rightarrow> int" where
  "static_elems dims = foldl (\<lambda>n d. case d of None \<Rightarrow> n | Some k \<Rightarrow> n * k) 1 dims"

lemma foldl_static_elems:
  "foldl (\<lambda>n d. case d of None \<Rightarrow> n | Some k \<Rightarrow> n * k) (a :: int) dims = a * static_elems dims"
proof (induction dims arbitrary: a)
  case (Cons d dims)
  have "static_elems (d # dims) = (case d of None \<Rightarrow> 1 | Some k \<Rightarrow> k) * static_elems dims"
    using Cons.IH [of 1] Cons.IH [of "case d of None \<Rightarrow> 1 | Some k \<Rightarrow> k"]
    by (simp add: static_elems_def split: option.splits)
  then show ?case
    using Cons.IH [of "case d of None \<Rightarrow> a | Some k \<Rightarrow> a * k"] by (simp split: option.splits)
qed (simp add: static_elems_def)

lemma static_elems_simps [simp]:
  "static_elems [] = 1" "static_elems (None # dims) = static_elems dims"
  "static_elems (Some k # dims) = k * static_elems dims"
  using foldl_static_elems [of k dims] by (simp_all add: static_elems_def)

lemma static_elems_nonneg:
  "\<forall>d \<in> set dims. case d of None \<Rightarrow> True | Some n \<Rightarrow> 0 \<le> n \<Longrightarrow> 0 \<le> static_elems dims"
  by (induction dims) (auto split: option.splits)

lemma shape_elems_split:
  "\<forall>d \<in> set dims. case d of None \<Rightarrow> True | Some n \<Rightarrow> 0 \<le> n \<Longrightarrow>
   shape_elems \<rho> dims vs \<le> nat (static_elems dims) * dyn_prod \<rho> (dyn_sizes_of dims vs)"
proof (induction \<rho> dims vs rule: shape_elems.induct)
  case (2 \<rho> d dims vs)
  then have "nat d * shape_elems \<rho> dims vs \<le>
      nat d * (nat (static_elems dims) * dyn_prod \<rho> (dyn_sizes_of dims vs))"
    by (intro mult_le_mono2) auto
  then show ?case
    using 2 by (simp add: nat_mult_distrib mult.assoc)
next
  case (3 \<rho> dims v vs)
  then have "unat (\<rho> v) * shape_elems \<rho> dims vs \<le>
      unat (\<rho> v) * (nat (static_elems dims) * dyn_prod \<rho> (dyn_sizes_of dims vs))"
    by (intro mult_le_mono2) auto
  then show ?case
    by (simp add: mult.left_commute)
qed simp_all

lemma nat_divide_ceil8: "0 \<le> n \<Longrightarrow> nat (divide_ceil n 8) = (nat n + 7) div 8"
  by (simp add: divide_ceil_def nat_div_distrib' nat_add_distrib)

lemma static_factor_nonneg: "type_ok (ai_type i) \<Longrightarrow> 0 \<le> static_factor_of i"
  unfolding type_ok_def static_factor_of_def compute_key_def static_factor_bytes_def
    divide_ceil_def Let_def fst_conv foldl_static_elems
  using static_elems_nonneg [of "mt_shape (ai_type i)"] by (simp add: pos_imp_zdiv_nonneg_iff)

lemma static_factor_eq:
  "type_ok (ai_type i) \<Longrightarrow>
   nat (static_factor_of i) = (nat (static_elems (mt_shape (ai_type i)) * mt_bits (ai_type i)) + 7) div 8"
  using static_elems_nonneg [of "mt_shape (ai_type i)"] nat_divide_ceil8
  by (simp add: type_ok_def static_factor_of_def compute_key_def static_factor_bytes_def
      Let_def foldl_static_elems)

lemma ceil_scale: "((n :: nat) * k + 7) div 8 \<le> (n + 7) div 8 * k"
proof (cases k)
  case (Suc m)
  have "n \<le> (n + 7) div 8 * 8"
    by linarith
  then have "n * k \<le> (n + 7) div 8 * k * 8"
    by (metis mult.assoc mult.commute mult_le_mono1)
  then show ?thesis
    by linarith
qed simp

lemma runtime_le_region:
  assumes ty: "type_ok (ai_type i)" and bytes: "ai_bytes i = get_static_byte_size (ai_type i)"
  shows "runtime_bytes \<rho> i \<le> region_bytes \<rho> i"
proof (cases "ai_bytes i > 0")
  case True
  then have static: "has_static_shape (ai_type i)"
    using bytes by (auto simp: get_static_byte_size_def split: if_splits)
  have "shape_elems \<rho> dims vs = nat (static_elems dims) \<and> foldl (\<lambda>n d. n * the d) a dims = a * static_elems dims"
    if "\<forall>d \<in> set dims. d \<noteq> None" "\<forall>d \<in> set dims. case d of None \<Rightarrow> True | Some n \<Rightarrow> 0 \<le> n"
    for dims vs and a :: int
    using that
    by (induction dims arbitrary: a) (auto simp: nat_mult_distrib mult.assoc)
  then have "shape_elems \<rho> (mt_shape (ai_type i)) (ai_dyn i) = nat (static_elems (mt_shape (ai_type i)))"
    and "num_elements (ai_type i) = static_elems (mt_shape (ai_type i))"
    using static ty by (simp_all add: has_static_shape_def type_ok_def num_elements_def)
  then show ?thesis
    using True bytes static ty static_elems_nonneg [of "mt_shape (ai_type i)"]
    by (simp add: runtime_bytes_def region_bytes_def get_static_byte_size_def type_ok_def
        nat_divide_ceil8 nat_mult_distrib)
next
  case False
  let ?e = "static_elems (mt_shape (ai_type i))" and ?b = "nat (mt_bits (ai_type i))"
  have "shape_elems \<rho> (mt_shape (ai_type i)) (ai_dyn i) * ?b \<le>
      nat ?e * dyn_prod \<rho> (dyn_key i) * ?b"
    using shape_elems_split ty by (simp add: type_ok_def dyn_key_def compute_key_def)
  also have "\<dots> = nat (?e * mt_bits (ai_type i)) * dyn_prod \<rho> (dyn_key i)"
    using ty static_elems_nonneg [of "mt_shape (ai_type i)"]
    by (simp add: type_ok_def nat_mult_distrib)
  finally have "runtime_bytes \<rho> i \<le> (nat (?e * mt_bits (ai_type i)) * dyn_prod \<rho> (dyn_key i) + 7) div 8"
    by (simp add: runtime_bytes_def div_le_mono)
  also have "\<dots> \<le> nat (static_factor_of i) * dyn_prod \<rho> (dyn_key i)"
    unfolding static_factor_eq [OF ty] by (rule ceil_scale)
  finally show ?thesis
    using False by (simp add: region_bytes_def)
qed

section \<open>Layouts\<close>

definition bytes_apart :: "assignment \<Rightarrow> alloc_info \<times> nat \<Rightarrow> alloc_info \<times> nat \<Rightarrow> bool" where
  "bytes_apart \<rho> e f \<longleftrightarrow>
     snd e + region_bytes \<rho> (fst e) \<le> snd f \<or> snd f + region_bytes \<rho> (fst f) \<le> snd e"

definition layout_ok :: "assignment \<Rightarrow> nat \<Rightarrow> entries \<Rightarrow> nat \<Rightarrow> nat \<Rightarrow> bool" where
  "layout_ok \<rho> al E lo hi \<longleftrightarrow>
     (\<forall>e \<in> set E. lo \<le> snd e \<and> snd e + region_bytes \<rho> (fst e) \<le> hi \<and> al dvd snd e) \<and>
     (\<forall>e \<in> set E. \<forall>f \<in> set E. fst e \<noteq> fst f \<longrightarrow> lifetimes_overlap (fst e) (fst f) \<longrightarrow>
        bytes_apart \<rho> e f)"

lemma bytes_apart_sym: "bytes_apart \<rho> e f = bytes_apart \<rho> f e"
  by (auto simp: bytes_apart_def)

lemma layout_append:
  assumes "layout_ok \<rho> al E lo mid" and "layout_ok \<rho> al E' mid hi" and "lo \<le> mid" and "mid \<le> hi"
  shows "layout_ok \<rho> al (E @ E') lo hi"
proof -
  have cross: "bytes_apart \<rho> e f" if "e \<in> set E" "f \<in> set E'" for e f
    using assms(1,2) that by (fastforce simp: layout_ok_def bytes_apart_def)
  have "bytes_apart \<rho> e f"
    if "e \<in> set (E @ E')" "f \<in> set (E @ E')" "fst e \<noteq> fst f" "lifetimes_overlap (fst e) (fst f)" for e f
    using that cross bytes_apart_sym assms(1,2) unfolding layout_ok_def by (metis Un_iff set_append)
  moreover have "lo \<le> snd e \<and> snd e + region_bytes \<rho> (fst e) \<le> hi \<and> al dvd snd e"
    if "e \<in> set (E @ E')" for e
    using assms that by (fastforce simp: layout_ok_def)
  ultimately show ?thesis
    by (simp add: layout_ok_def)
qed

lemma layout_Nil [simp]: "layout_ok \<rho> al [] lo hi"
  by (simp add: layout_ok_def)

section \<open>The static part\<close>

lemma layout_static:
  assumes al: "0 < al" and pos: "\<forall>i \<in> set statics. 0 < ai_bytes i"
    and asg: "asg = pack_static_allocs statics al"
  shows "layout_ok \<rho> (nat al) (static_entries asg) 0 (nat (static_pool_size al asg))"
proof -
  have pk: "packing_ok ai_bytes al (asg, static_pool_size al asg)"
    unfolding asg using al pos by (intro static_packing_ok) (auto intro: less_imp_le)
  have mem: "fst e \<in> set statics" if "e \<in> set asg" for e
    using that static_items [of statics al] unfolding asg by (metis image_eqI set_map)
  have in_asg: "0 \<le> snd e \<and> al dvd snd e \<and> snd e + ai_bytes (fst e) \<le> static_pool_size al asg \<and>
      ai_bytes (fst e) \<le> align_to (ai_bytes (fst e)) al \<and> 0 < ai_bytes (fst e)" if "e \<in> set asg" for e
    using pk that mem [OF that] pos al align_to_ge [of al "ai_bytes (fst e)"]
    by (fastforce simp: packing_ok_def in_span_def)
  have part: "0 \<le> snd x \<and> snd x + region_bytes \<rho> (fst x) \<le> nat (static_pool_size al asg) \<and> nat al dvd snd x"
    if x: "x \<in> set (static_entries asg)" for x
  proof -
    obtain e where e: "e \<in> set asg" "x = (fst e, nat (snd e))"
      using x by (auto simp: static_entries_def)
    then show ?thesis
      using in_asg [OF e(1)] al by (auto simp: region_bytes_def nat_dvd_iff)
  qed
  have "bytes_apart \<rho> x y"
    if xy: "x \<in> set (static_entries asg)" "y \<in> set (static_entries asg)" "fst x \<noteq> fst y"
      "lifetimes_overlap (fst x) (fst y)" for x y
  proof -
    obtain e f where ef: "e \<in> set asg" "x = (fst e, nat (snd e))" "f \<in> set asg" "y = (fst f, nat (snd f))"
      using xy(1,2) by (auto simp: static_entries_def)
    then have "apart (range_of ai_bytes al e) (range_of ai_bytes al f)"
      using packing_ok_apart [OF pk, of e f] xy(3,4) by auto
    then show ?thesis
      using in_asg [OF ef(1)] in_asg [OF ef(3)]
      by (auto simp: apart_def range_of_def bytes_apart_def region_bytes_def ef(2,4))
  qed
  then show ?thesis
    using part by (simp add: layout_ok_def)
qed

section \<open>Slabs\<close>

lemma foldl_max_nat_ge: "(n :: nat) \<le> foldl max n ns \<and> (\<forall>k \<in> set ns. k \<le> foldl max n ns)"
proof (induction ns arbitrary: n)
  case (Cons k ns)
  have "max n k \<le> foldl max (max n k) ns"
    using Cons.IH by blast
  then show ?case
    using Cons.IH [of "max n k"] by auto
qed simp

lemma foldl_max_nat_dvd: "(a :: nat) dvd n \<Longrightarrow> \<forall>k \<in> set ns. a dvd k \<Longrightarrow> a dvd foldl max n ns"
proof (induction ns arbitrary: n)
  case (Cons k ns)
  have "a dvd max n k"
    using Cons.prems by (simp add: max_def)
  then show ?case
    using Cons by simp
qed simp

lemma foldl_max_scale:
  "foldl max (nat c * f) (map (\<lambda>x. nat (h x) * f) xs) = nat (foldl (\<lambda>m x. max m (h x)) c xs) * f"
proof (induction xs arbitrary: c)
  case (Cons x xs)
  have "max (nat c * f) (nat (h x) * f) = nat (max c (h x)) * f"
    by (auto simp: max_def nat_mono mult_le_mono1 dest: mult_le_mono1 [of _ _ f] intro: order_antisym)
  then show ?case
    using Cons.IH [of "max c (h x)"] by simp
qed simp

lemma slab_width_ge:
  assumes "0 < al" and "gi \<in> set slab"
  shows "group_footprint \<rho> (groups ! gi) \<le> slab_width \<rho> al groups slab"
proof -
  let ?w = "foldl max (group_footprint \<rho> (groups ! hd slab))
      (map (\<lambda>gi. group_footprint \<rho> (groups ! gi)) (tl slab))"
  have "gi = hd slab \<or> gi \<in> set (tl slab)"
    using assms(2) by (cases slab) auto
  then have "group_footprint \<rho> (groups ! gi) \<le> ?w"
    using foldl_max_nat_ge [of "group_footprint \<rho> (groups ! hd slab)"
        "map (\<lambda>gi. group_footprint \<rho> (groups ! gi)) (tl slab)"] by auto
  also have "?w \<le> slab_width \<rho> al groups slab"
    using assms(1) round_to_ge [of "nat al" ?w] by (simp add: slab_width_def Let_def)
  finally show ?thesis .
qed

lemma footprint_dvd:
  "0 < al \<Longrightarrow> dg_span g mod al = 0 \<Longrightarrow> 0 \<le> dg_span g \<Longrightarrow> nat al dvd group_footprint \<rho> g"
  unfolding group_footprint_def by (intro dvd_mult2) (simp add: nat_dvd_iff mod_eq_0_iff_dvd)

text \<open>
  The width is rounded only where needed: with one runtime factor the largest span decides,
  with several every span must be a multiple of the alignment.
\<close>

lemma slab_width_dvd:
  assumes al: "0 < al" and slab: "slab \<noteq> []"
    and spans: "\<forall>gi \<in> set slab. 0 \<le> dg_span (groups ! gi)"
  shows "nat al dvd slab_width \<rho> al groups slab"
proof (cases "slab_need_align al groups slab")
  case True
  then show ?thesis
    by (simp add: slab_width_def Let_def)
next
  case False
  obtain g gs where gs: "slab = g # gs"
    using slab by (cases slab) auto
  let ?w = "foldl max (group_footprint \<rho> (groups ! g)) (map (\<lambda>gi. group_footprint \<rho> (groups ! gi)) gs)"
  have "nat al dvd ?w"
  proof (cases "list_all (\<lambda>gi. dg_dyn (groups ! gi) = dg_dyn (groups ! g)) slab")
    case True
    let ?m = "foldl (\<lambda>m gi. max m (dg_span (groups ! gi))) (dg_span (groups ! g)) gs"
    have "map (\<lambda>gi. group_footprint \<rho> (groups ! gi)) gs =
        map (\<lambda>gi. nat (dg_span (groups ! gi)) * dyn_prod \<rho> (dg_dyn (groups ! g))) gs"
      using True by (intro map_cong refl) (simp add: gs group_footprint_def list_all_iff)
    then have "?w = foldl max (nat (dg_span (groups ! g)) * dyn_prod \<rho> (dg_dyn (groups ! g)))
        (map (\<lambda>gi. nat (dg_span (groups ! gi)) * dyn_prod \<rho> (dg_dyn (groups ! g))) gs)"
      by (simp only: group_footprint_def)
    also have "\<dots> = nat ?m * dyn_prod \<rho> (dg_dyn (groups ! g))"
      by (rule foldl_max_scale)
    finally have "?w = nat ?m * dyn_prod \<rho> (dg_dyn (groups ! g))" .
    moreover have "?m mod al = 0"
      using False True by (simp add: slab_need_align_def gs)
    moreover have "0 \<le> ?m"
      using foldl_max_ge [of "dg_span (groups ! g)" "\<lambda>gi. dg_span (groups ! gi)" gs] spans
      by (auto simp: gs intro: order_trans)
    ultimately show ?thesis
      using al by (auto simp: nat_dvd_iff mod_eq_0_iff_dvd intro!: dvd_mult2)
  next
    case nc: False
    then have "\<forall>gi \<in> set slab. dg_span (groups ! gi) mod al = 0"
      using False by (auto simp: slab_need_align_def gs list_ex_iff)
    then show ?thesis
      using al spans by (intro foldl_max_nat_dvd) (auto simp: gs footprint_dvd)
  qed
  then show ?thesis
    using False by (simp add: slab_width_def gs)
qed

lemma slab_entry:
  assumes "x \<in> set (slab_entries \<rho> groups base slab)"
  obtains gi e where "gi \<in> set slab" and "e \<in> set (dg_assignments (groups ! gi))"
    and "x = (fst e, base + nat (snd e) * dyn_prod \<rho> (dg_dyn (groups ! gi)))"
  using assms by (auto simp: slab_entries_def member_entries_def)

lemma layout_slab:
  assumes al: "0 < al" and groups: "\<forall>g \<in> set groups. group_ok al g"
    and slab: "set slab \<subseteq> {..<length groups}"
      "sorted_wrt (\<lambda>a b. groups_disjoint (groups ! a) (groups ! b)) slab"
    and dyn: "\<forall>g \<in> set groups. \<forall>e \<in> set (dg_assignments g). \<not> ai_bytes (fst e) > 0 \<and> 0 \<le> static_factor_of (fst e)"
    and base: "nat al dvd base"
  shows "layout_ok \<rho> (nat al) (slab_entries \<rho> groups base slab) base (base + slab_width \<rho> al groups slab)"
proof -
  have gok: "group_ok al (groups ! gi)" if "gi \<in> set slab" for gi
    using that slab(1) groups by (auto simp: subset_iff)
  have edyn: "\<not> ai_bytes (fst e) > 0 \<and> 0 \<le> static_factor_of (fst e)"
    if "gi \<in> set slab" "e \<in> set (dg_assignments (groups ! gi))" for gi e
    using that slab(1) dyn by (auto simp: subset_iff)
  have region: "region_bytes \<rho> (fst e) = nat (static_factor_of (fst e)) * dyn_prod \<rho> (dg_dyn (groups ! gi))"
    if "gi \<in> set slab" "e \<in> set (dg_assignments (groups ! gi))" for gi e
    using edyn [OF that] gok [OF that(1)] that(2) by (simp add: region_bytes_def group_ok_def)
  have part: "base \<le> snd x \<and> snd x + region_bytes \<rho> (fst x) \<le> base + slab_width \<rho> al groups slab \<and>
      nat al dvd snd x" if x: "x \<in> set (slab_entries \<rho> groups base slab)" for x
    using x
  proof (rule slab_entry)
    fix gi e
    assume gi: "gi \<in> set slab" and e: "e \<in> set (dg_assignments (groups ! gi))"
      and xe: "x = (fst e, base + nat (snd e) * dyn_prod \<rho> (dg_dyn (groups ! gi)))"
    have u: "0 \<le> snd e" "al dvd snd e" "snd e + static_factor_of (fst e) \<le> dg_span (groups ! gi)"
      using gok [OF gi] e by (simp_all add: group_ok_def)
    then have "nat (snd e) + nat (static_factor_of (fst e)) \<le> nat (dg_span (groups ! gi))"
      using edyn [OF gi e] by linarith
    then have "(nat (snd e) + nat (static_factor_of (fst e))) * dyn_prod \<rho> (dg_dyn (groups ! gi)) \<le>
        group_footprint \<rho> (groups ! gi)"
      unfolding group_footprint_def by (rule mult_le_mono1)
    moreover have "nat al dvd nat (snd e) * dyn_prod \<rho> (dg_dyn (groups ! gi))"
      using u al by (intro dvd_mult2) (simp add: nat_dvd_iff)
    ultimately show ?thesis
      using slab_width_ge [OF al gi, of \<rho> groups] base
      by (simp add: xe region [OF gi e] distrib_right)
  qed
  have ap: "bytes_apart \<rho> x y"
    if xy: "x \<in> set (slab_entries \<rho> groups base slab)" "y \<in> set (slab_entries \<rho> groups base slab)"
      "fst x \<noteq> fst y" "lifetimes_overlap (fst x) (fst y)" for x y
    using xy(1)
  proof (rule slab_entry)
    fix gi e
    assume gi: "gi \<in> set slab" and e: "e \<in> set (dg_assignments (groups ! gi))"
      and xe: "x = (fst e, base + nat (snd e) * dyn_prod \<rho> (dg_dyn (groups ! gi)))"
    obtain gj f where gj: "gj \<in> set slab" and f: "f \<in> set (dg_assignments (groups ! gj))"
      and yf: "y = (fst f, base + nat (snd f) * dyn_prod \<rho> (dg_dyn (groups ! gj)))"
      using slab_entry [OF xy(2)] .
    have "gi = gj"
    proof (rule ccontr)
      assume "gi \<noteq> gj"
      then have "groups_disjoint (groups ! gi) (groups ! gj)"
        using sorted_wrt_symD [OF slab(2) groups_disjoint_sym gi gj] by blast
      then show False
        using e f xy(4) by (auto simp: groups_disjoint_def list_ex_iff xe yf)
    qed
    then have fi: "f \<in> set (dg_assignments (groups ! gi))"
      using f by simp
    let ?P = "\<lambda>e f. lifetimes_overlap (fst e) (fst f) \<longrightarrow> apart (unit_range e) (unit_range f)"
    have "?P e f"
    proof (rule sorted_wrt_symD [where P = ?P and xs = "dg_assignments (groups ! gi)"])
      show "sorted_wrt ?P (dg_assignments (groups ! gi))"
        using gok [OF gi] by (simp add: group_ok_def)
    qed (use e fi xy(3) lifetimes_overlap_sym apart_sym in \<open>auto simp: xe yf\<close>)
    then have "snd e + static_factor_of (fst e) \<le> snd f \<or> snd f + static_factor_of (fst f) \<le> snd e"
      using xy(4) by (auto simp: xe yf apart_def unit_range_def)
    then have "nat (snd e) + nat (static_factor_of (fst e)) \<le> nat (snd f) \<or>
        nat (snd f) + nat (static_factor_of (fst f)) \<le> nat (snd e)"
      using gok [OF gi] e fi edyn [OF gi e] edyn [OF gi fi] by (force simp: group_ok_def)
    then show ?thesis
      using mult_le_mono1 [of "nat (snd e) + nat (static_factor_of (fst e))" "nat (snd f)"
          "dyn_prod \<rho> (dg_dyn (groups ! gi))"]
        mult_le_mono1 [of "nat (snd f) + nat (static_factor_of (fst f))" "nat (snd e)"
          "dyn_prod \<rho> (dg_dyn (groups ! gi))"]
      by (auto simp: bytes_apart_def xe yf region [OF gi e] region [OF gi fi] distrib_right
          \<open>gi = gj\<close> [symmetric])
  qed
  show ?thesis
    using part ap by (simp add: layout_ok_def)
qed

lemma layout_slabs:
  assumes al: "0 < al" and groups: "\<forall>g \<in> set groups. group_ok al g"
    and dyn: "\<forall>g \<in> set groups. \<forall>e \<in> set (dg_assignments g). \<not> ai_bytes (fst e) > 0 \<and> 0 \<le> static_factor_of (fst e)"
  shows "\<forall>slab \<in> set slabs. slab \<noteq> [] \<and> set slab \<subseteq> {..<length groups} \<and>
      sorted_wrt (\<lambda>a b. groups_disjoint (groups ! a) (groups ! b)) slab \<Longrightarrow>
    nat al dvd base \<Longrightarrow>
    layout_ok \<rho> (nat al) (slabs_entries \<rho> al groups base slabs) base
      (base + sum_list (map (slab_width \<rho> al groups) slabs)) \<and>
    nat al dvd sum_list (map (slab_width \<rho> al groups) slabs)"
proof (induction slabs arbitrary: base)
  case (Cons slab slabs)
  have slab: "slab \<noteq> []" "set slab \<subseteq> {..<length groups}"
    "sorted_wrt (\<lambda>a b. groups_disjoint (groups ! a) (groups ! b)) slab"
    using Cons.prems(1) by simp_all
  have "\<forall>gi \<in> set slab. 0 \<le> dg_span (groups ! gi)"
    using slab(2) groups by (auto simp: subset_iff group_ok_def)
  then have w: "nat al dvd slab_width \<rho> al groups slab"
    by (rule slab_width_dvd [OF al slab(1)])
  have ih: "layout_ok \<rho> (nat al) (slabs_entries \<rho> al groups (base + slab_width \<rho> al groups slab) slabs)
      (base + slab_width \<rho> al groups slab)
      (base + slab_width \<rho> al groups slab + sum_list (map (slab_width \<rho> al groups) slabs)) \<and>
    nat al dvd sum_list (map (slab_width \<rho> al groups) slabs)"
    using Cons.prems w by (intro Cons.IH) auto
  then show ?case
    using layout_append [OF layout_slab [OF al groups slab(2,3) dyn Cons.prems(2)]] w
    by (simp add: add.assoc)
qed simp

section \<open>Small buckets\<close>

lemma layout_bins:
  assumes sz: "al dvd sz" and base: "al dvd base"
  shows "bins_ok bins \<Longrightarrow> \<forall>i \<in> set (concat bins). region_bytes \<rho> i \<le> sz \<Longrightarrow>
    layout_ok \<rho> al (bins_entries base sz idx bins) (base + sz * idx) (base + sz * (idx + length bins))"
proof (induction bins arbitrary: idx)
  case (Cons bin bins)
  have bin: "sorted_wrt (\<lambda>i j. \<not> lifetimes_overlap i j) bin"
    using Cons.prems(1) by (simp add: bins_ok_def)
  have none: "\<not> lifetimes_overlap i j" if "i \<in> set bin" "j \<in> set bin" "i \<noteq> j" for i j
    using sorted_wrt_symD [of "\<lambda>i j. \<not> lifetimes_overlap i j" bin i j] bin that lifetimes_overlap_sym
    by blast
  have "layout_ok \<rho> al (map (\<lambda>i. (i, base + sz * idx)) bin) (base + sz * idx) (base + sz * Suc idx)"
    unfolding layout_ok_def
  proof (intro conjI ballI impI)
    fix e f
    assume "e \<in> set (map (\<lambda>i. (i, base + sz * idx)) bin)" "f \<in> set (map (\<lambda>i. (i, base + sz * idx)) bin)"
      "fst e \<noteq> fst f" "lifetimes_overlap (fst e) (fst f)"
    then show "bytes_apart \<rho> e f"
      using none [of "fst e" "fst f"] by auto
  qed (use Cons.prems(2) sz base in \<open>auto intro: dvd_mult2\<close>)
  moreover have "layout_ok \<rho> al (bins_entries base sz (Suc idx) bins) (base + sz * Suc idx)
      (base + sz * (Suc idx + length bins))"
    using Cons.prems by (intro Cons.IH) (auto simp: bins_ok_def)
  ultimately show ?case
    using layout_append [of \<rho> al _ "base + sz * idx" "base + sz * Suc idx"] by simp
qed simp

lemma bucket_size_facts:
  assumes "0 < al" and "0 \<le> db_factor b"
  shows "nat al dvd bucket_size \<rho> al b" and "nat (db_factor b) * dyn_prod \<rho> (db_dyn b) \<le> bucket_size \<rho> al b"
proof -
  have "nat al dvd nat (db_factor b) * dyn_prod \<rho> (db_dyn b)" if "db_factor b mod al = 0"
    using that assms by (intro dvd_mult2) (simp add: nat_dvd_iff mod_eq_0_iff_dvd)
  then show "nat al dvd bucket_size \<rho> al b"
    by (simp add: bucket_size_def Let_def)
  show "nat (db_factor b) * dyn_prod \<rho> (db_dyn b) \<le> bucket_size \<rho> al b"
    using assms round_to_ge [of "nat al" "nat (db_factor b) * dyn_prod \<rho> (db_dyn b)"]
    by (simp add: bucket_size_def Let_def)
qed

lemma layout_buckets:
  assumes al: "0 < al"
  shows "\<forall>b \<in> set bs. bucket_ok b \<and> 0 \<le> db_factor b \<and>
      (\<forall>i \<in> set (concat (db_bins b)). \<not> ai_bytes i > 0) \<Longrightarrow>
    nat al dvd base \<Longrightarrow>
    layout_ok \<rho> (nat al) (buckets_entries \<rho> al base bs) base
      (base + sum_list (map (\<lambda>b. bucket_size \<rho> al b * length (db_bins b)) bs))"
proof (induction bs arbitrary: base)
  case (Cons b bs)
  have b: "bucket_ok b" "0 \<le> db_factor b" "\<forall>i \<in> set (concat (db_bins b)). \<not> ai_bytes i > 0"
    using Cons.prems(1) by simp_all
  note size = bucket_size_facts [OF al b(2)]
  have "region_bytes \<rho> i \<le> bucket_size \<rho> al b" if "i \<in> set (concat (db_bins b))" for i
    using that b size(2) [of \<rho>] by (auto simp: bucket_ok_def alloc_key_def bucket_key_def region_bytes_def)
  then have "layout_ok \<rho> (nat al) (bins_entries base (bucket_size \<rho> al b) 0 (db_bins b))
      (base + bucket_size \<rho> al b * 0) (base + bucket_size \<rho> al b * (0 + length (db_bins b)))"
    using b(1) by (intro layout_bins size(1) Cons.prems(2)) (auto simp: bucket_ok_def)
  moreover have "layout_ok \<rho> (nat al)
      (buckets_entries \<rho> al (base + bucket_size \<rho> al b * length (db_bins b)) bs)
      (base + bucket_size \<rho> al b * length (db_bins b))
      (base + bucket_size \<rho> al b * length (db_bins b) +
       sum_list (map (\<lambda>b. bucket_size \<rho> al b * length (db_bins b)) bs))"
    using Cons.prems size(1) by (intro Cons.IH) (auto intro: dvd_mult2)
  ultimately show ?case
    using layout_append [of \<rho> "nat al" _ base "base + bucket_size \<rho> al b * length (db_bins b)"]
    by (simp add: add.assoc)
qed simp

section \<open>The plan of a domain\<close>

definition allocs_ok :: "alloc_info list \<Rightarrow> bool" where
  "allocs_ok allocs \<longleftrightarrow> distinct (map ai_def allocs) \<and>
     (\<forall>i \<in> set allocs. type_ok (ai_type i) \<and> ai_bytes i = get_static_byte_size (ai_type i))"

definition sort_ok :: "(alloc_info list \<Rightarrow> alloc_info list) \<Rightarrow> bool" where
  "sort_ok srt \<longleftrightarrow> (\<forall>xs. mset (srt xs) = mset xs)"

definition planned ::
  "int \<Rightarrow> bool \<Rightarrow> (alloc_info list \<Rightarrow> alloc_info list) \<Rightarrow> alloc_info list \<Rightarrow> domain_plan \<Rightarrow> bool" where
  "planned al lt srt allocs plan \<longleftrightarrow> 0 < al \<and> al < 2 ^ 63 \<and> sort_ok srt \<and> allocs_ok allocs \<and>
     plan = plan_domain srt al lt allocs"

definition dynamics_of :: "alloc_info list \<Rightarrow> alloc_info list" where
  "dynamics_of allocs = filter (\<lambda>i. \<not> ai_bytes i > 0) allocs"

lemma plannedD:
  assumes "planned al lt srt allocs plan"
  shows "0 < al" and "al < 2 ^ 63"
    and "pd_static_asg plan = pack_static_allocs (srt (filter (\<lambda>i. ai_bytes i > 0) allocs)) al"
    and "pd_static_size plan = static_pool_size al (pd_static_asg plan)"
    and "pd_dyn plan = pack_dynamic_allocs (dynamics_of allocs) al lt"
    and "set (srt (filter (\<lambda>i. ai_bytes i > 0) allocs)) = {i \<in> set allocs. ai_bytes i > 0}"
    and "i \<in> set (dynamics_of allocs) \<Longrightarrow> \<not> ai_bytes i > 0 \<and> 0 \<le> static_factor_of i"
proof -
  have "set (srt (filter (\<lambda>i. ai_bytes i > 0) allocs)) = set (filter (\<lambda>i. ai_bytes i > 0) allocs)"
    using assms by (intro mset_eq_setD) (simp add: planned_def sort_ok_def)
  then show "set (srt (filter (\<lambda>i. ai_bytes i > 0) allocs)) = {i \<in> set allocs. ai_bytes i > 0}"
    by simp
qed (use assms in \<open>auto simp: planned_def plan_domain_def dynamics_of_def Let_def allocs_ok_def
      static_factor_nonneg\<close>)

lemma planned_static_ok:
  assumes "planned al lt srt allocs plan"
  shows "packing_ok ai_bytes al (pd_static_asg plan, pd_static_size plan)"
  unfolding plannedD(4) [OF assms] plannedD(3) [OF assms]
  using plannedD(1,6) [OF assms] by (intro static_packing_ok) auto

lemma planned_dyn_ok:
  assumes "planned al lt srt allocs plan"
  shows "dyn_packing_ok al (dynamics_of allocs) (pd_dyn plan)"
  unfolding plannedD(5) [OF assms] using plannedD(1,7) [OF assms] by (intro pack_dynamic_ok) auto

lemma planned_members:
  assumes "planned al lt srt allocs plan"
  shows "set (packing_members (pd_dyn plan)) = set (dynamics_of allocs)"
    and "g \<in> set (dp_groups (pd_dyn plan)) \<Longrightarrow> e \<in> set (dg_assignments g) \<Longrightarrow>
      fst e \<in> set (dynamics_of allocs)"
    and "b \<in> set (dp_buckets (pd_dyn plan)) \<Longrightarrow> i \<in> set (concat (db_bins b)) \<Longrightarrow>
      i \<in> set (dynamics_of allocs)"
proof -
  show m: "set (packing_members (pd_dyn plan)) = set (dynamics_of allocs)"
    using planned_dyn_ok [OF assms] by (intro mset_eq_setD) (simp add: dyn_packing_ok_def)
  show "g \<in> set (dp_groups (pd_dyn plan)) \<Longrightarrow> e \<in> set (dg_assignments g) \<Longrightarrow>
      fst e \<in> set (dynamics_of allocs)"
    unfolding m [symmetric] by (auto simp: packing_members_def)
  show "b \<in> set (dp_buckets (pd_dyn plan)) \<Longrightarrow> i \<in> set (concat (db_bins b)) \<Longrightarrow>
      i \<in> set (dynamics_of allocs)"
    unfolding m [symmetric] by (auto simp: packing_members_def)
qed

lemma bucket_has_member:
  assumes "bucket_ok b" and "db_bins b \<noteq> []"
  obtains i where "i \<in> set (concat (db_bins b))"
proof -
  obtain bin bins where "db_bins b = bin # bins"
    using assms(2) by (cases "db_bins b") auto
  moreover from this obtain i where "i \<in> set bin"
    using assms(1) by (cases bin) (auto simp: bucket_ok_def bins_ok_def)
  ultimately show thesis
    using that [of i] by simp
qed

lemma planned_bucket:
  assumes "planned al lt srt allocs plan" and b: "b \<in> set (dp_buckets (pd_dyn plan))"
  shows "bucket_ok b" and "db_bins b \<noteq> []" and "0 \<le> db_factor b"
proof -
  show ok: "bucket_ok b" "db_bins b \<noteq> []"
    using planned_dyn_ok [OF assms(1)] b by (simp_all add: dyn_packing_ok_def)
  obtain i where i: "i \<in> set (concat (db_bins b))"
    using bucket_has_member [OF ok] .
  then have "alloc_key i = bucket_key b"
    using ok(1) unfolding bucket_ok_def by blast
  then show "0 \<le> db_factor b"
    using plannedD(7) [OF assms(1) planned_members(3) [OF assms(1) b i]]
    by (simp add: alloc_key_def bucket_key_def)
qed

lemma planned_slab:
  assumes "planned al lt srt allocs plan"
  shows "set (concat (dp_slabs (pd_dyn plan))) = {..<length (dp_groups (pd_dyn plan))}"
    and "slab \<in> set (dp_slabs (pd_dyn plan)) \<Longrightarrow>
      slab \<noteq> [] \<and> set slab \<subseteq> {..<length (dp_groups (pd_dyn plan))} \<and>
      sorted_wrt (\<lambda>a b. groups_disjoint (dp_groups (pd_dyn plan) ! a) (dp_groups (pd_dyn plan) ! b)) slab"
proof -
  show range: "set (concat (dp_slabs (pd_dyn plan))) = {..<length (dp_groups (pd_dyn plan))}"
    using planned_dyn_ok [OF assms] mset_eq_setD [of "concat (dp_slabs (pd_dyn plan))"
        "[0..<length (dp_groups (pd_dyn plan))]"]
    by (simp add: dyn_packing_ok_def atLeast0LessThan)
  show "slab \<in> set (dp_slabs (pd_dyn plan)) \<Longrightarrow>
      slab \<noteq> [] \<and> set slab \<subseteq> {..<length (dp_groups (pd_dyn plan))} \<and>
      sorted_wrt (\<lambda>a b. groups_disjoint (dp_groups (pd_dyn plan) ! a) (dp_groups (pd_dyn plan) ! b)) slab"
    using range planned_dyn_ok [OF assms] by (auto simp: dyn_packing_ok_def slabs_ok_def)
qed

lemma group_nonempty:
  assumes P: "planned al lt srt allocs plan" and g: "g \<in> set (dp_groups (pd_dyn plan))"
  shows "dg_assignments g \<noteq> []"
proof -
  obtain cs bs where cl: "foldl (classify al lt) ([], []) (dynamics_of allocs) = (cs, bs)"
    by (cases "foldl (classify al lt) ([], []) (dynamics_of allocs)") auto
  have ne: "as \<noteq> []" if "(k, as) \<in> set cs" for k as
    using class_nonempty [OF cl that] .
  show ?thesis
  proof (cases lt)
    case True
    then show ?thesis
      using g cl by (auto simp: plannedD(5) [OF P] pack_dynamic_allocs_def Let_def lifetime_groups_def)
  next
    case False
    then obtain k as where k: "(k, as) \<in> set cs"
      and g': "map fst (dg_assignments g) = sort_key (\<lambda>a. - static_factor_of a) as"
      using g cl best_fit.pack_items
      by (auto simp: plannedD(5) [OF P] pack_dynamic_allocs_def Let_def packed_groups_def case_prod_unfold)
    then have "map fst (dg_assignments g) \<noteq> []"
      using ne [OF k] by (metis length_0_conv length_sort)
    then show ?thesis
      by simp
  qed
qed

lemma planned_ok:
  assumes "planned al lt srt allocs plan"
  shows "plan_ok al plan"
  unfolding plan_ok_def
  using plannedD(1,2) [OF assms] planned_static_ok [OF assms] planned_dyn_ok [OF assms]
    planned_bucket(3) [OF assms] planned_slab(2) [OF assms]
  by (auto simp: packing_ok_def in_span_def dyn_packing_ok_def)

lemma planned_layout:
  assumes P: "planned al lt srt allocs plan"
  shows "layout_ok \<rho> (nat al) (pool_entries \<rho> al plan) 0 (pool_total \<rho> al plan)"
proof -
  let ?p = "pd_dyn plan"
  let ?W = "sum_list (map (slab_width \<rho> al (dp_groups ?p)) (dp_slabs ?p))"
  note al = plannedD(1) [OF P] and dyn_ok = planned_dyn_ok [OF P]
  have sz: "nat al dvd nat (pd_static_size plan)"
    using planned_static_ok [OF P] al by (simp add: packing_ok_def nat_dvd_iff)
  have st: "layout_ok \<rho> (nat al) (static_entries (pd_static_asg plan)) 0 (nat (pd_static_size plan))"
    using layout_static [OF al _ plannedD(3) [OF P]] plannedD(6) [OF P] by (simp add: plannedD(4) [OF P])
  have gok: "\<forall>g \<in> set (dp_groups ?p). group_ok al g"
    using dyn_ok by (simp add: dyn_packing_ok_def)
  have gdyn: "\<forall>g \<in> set (dp_groups ?p). \<forall>e \<in> set (dg_assignments g).
      \<not> ai_bytes (fst e) > 0 \<and> 0 \<le> static_factor_of (fst e)"
    using planned_members(2) [OF P] plannedD(7) [OF P] by blast
  have slabs: "layout_ok \<rho> (nat al) (slabs_entries \<rho> al (dp_groups ?p) (nat (pd_static_size plan)) (dp_slabs ?p))
      (nat (pd_static_size plan)) (nat (pd_static_size plan) + ?W)" "nat al dvd ?W"
    using layout_slabs [OF al gok gdyn _ sz, of "dp_slabs ?p" \<rho>] planned_slab(2) [OF P] by blast+
  have bs: "\<forall>b \<in> set (dp_buckets ?p). bucket_ok b \<and> 0 \<le> db_factor b \<and>
      (\<forall>i \<in> set (concat (db_bins b)). \<not> ai_bytes i > 0)"
    using planned_bucket [OF P] planned_members(3) [OF P] plannedD(7) [OF P] by blast
  have "layout_ok \<rho> (nat al) (buckets_entries \<rho> al (nat (pd_static_size plan) + ?W) (dp_buckets ?p))
      (nat (pd_static_size plan) + ?W) (pool_total \<rho> al plan)"
    unfolding pool_total_def using slabs(2) sz by (intro layout_buckets [OF al bs]) simp
  then have "layout_ok \<rho> (nat al)
      (slabs_entries \<rho> al (dp_groups ?p) (nat (pd_static_size plan)) (dp_slabs ?p) @
       buckets_entries \<rho> al (nat (pd_static_size plan) + ?W) (dp_buckets ?p))
      (nat (pd_static_size plan)) (pool_total \<rho> al plan)"
    by (rule layout_append [OF slabs(1)]) (simp_all add: pool_total_def)
  then have "layout_ok \<rho> (nat al)
      (if dp_empty ?p then []
       else slabs_entries \<rho> al (dp_groups ?p) (nat (pd_static_size plan)) (dp_slabs ?p) @
         buckets_entries \<rho> al (nat (pd_static_size plan) + ?W) (dp_buckets ?p))
      (nat (pd_static_size plan)) (pool_total \<rho> al plan)"
    by simp
  then show ?thesis
    unfolding pool_entries_def Let_def
    by (rule layout_append [OF st]) (simp_all add: pool_total_def)
qed

section \<open>Every allocation is in the layout, and the total bounds the parts\<close>

lemma slabs_entries_members:
  "fst ` set (slabs_entries \<rho> al groups base slabs) =
   (\<Union>gi \<in> set (concat slabs). fst ` set (dg_assignments (groups ! gi)))"
proof (induction slabs arbitrary: base)
  case (Cons slab slabs)
  have "fst ` set (slab_entries \<rho> groups base slab) = (\<Union>gi \<in> set slab. fst ` set (dg_assignments (groups ! gi)))"
    by (force simp: slab_entries_def member_entries_def image_iff)
  then show ?case
    using Cons by (simp add: image_Un)
qed simp

lemma buckets_entries_members:
  "fst ` set (buckets_entries \<rho> al base bs) = (\<Union>b \<in> set bs. set (concat (db_bins b)))"
proof (induction bs arbitrary: base)
  case (Cons b bs)
  have "fst ` set (bins_entries B n idx bins) = set (concat bins)" for B n idx bins
    by (induction bins arbitrary: idx) (auto simp: image_Un image_image)
  then show ?case
    using Cons by (simp add: image_Un)
qed simp

lemma pool_entries_members:
  assumes P: "planned al lt srt allocs plan"
  shows "fst ` set (pool_entries \<rho> al plan) = set allocs"
proof -
  let ?p = "pd_dyn plan"
  have st: "fst ` set (static_entries (pd_static_asg plan)) = {i \<in> set allocs. ai_bytes i > 0}"
  proof -
    have "fst ` set (static_entries (pd_static_asg plan)) = set (map fst (pd_static_asg plan))"
      by (force simp: static_entries_def image_iff)
    then show ?thesis
      unfolding plannedD(3) [OF P] static_items plannedD(6) [OF P] .
  qed
  have groups: "(\<Union>gi \<in> set (concat (dp_slabs ?p)). fst ` set (dg_assignments (dp_groups ?p ! gi))) =
      (\<Union>g \<in> set (dp_groups ?p). fst ` set (dg_assignments g))"
    unfolding planned_slab(1) [OF P] by (force simp: set_conv_nth)
  have "fst ` set (if dp_empty ?p then []
       else slabs_entries \<rho> al (dp_groups ?p) st' (dp_slabs ?p) @ buckets_entries \<rho> al st'' (dp_buckets ?p)) =
      set (packing_members ?p)" for st' st''
    using groups
    by (simp add: image_Un slabs_entries_members buckets_entries_members packing_members_def
        dp_empty_def)
  then have "fst ` set (pool_entries \<rho> al plan) = {i \<in> set allocs. ai_bytes i > 0} \<union> set (dynamics_of allocs)"
    unfolding pool_entries_def Let_def set_append image_Un st planned_members(1) [OF P] by blast
  then show ?thesis
    by (auto simp: dynamics_of_def)
qed

lemma planned_fits:
  assumes P: "planned al lt srt allocs plan" and total: "pool_total \<rho> al plan + nat al \<le> size_limit"
  shows "plan_fits \<rho> al plan"
  unfolding plan_fits_def
proof (intro conjI ballI)
  let ?p = "pd_dyn plan"
  fix g assume "g \<in> set (dp_groups ?p)"
  then obtain gi where gi: "gi < length (dp_groups ?p)" "g = dp_groups ?p ! gi"
    by (auto simp: in_set_conv_nth)
  then have "gi \<in> set (concat (dp_slabs ?p))"
    by (simp only: planned_slab(1) [OF P] lessThan_iff)
  then obtain slab where slab: "slab \<in> set (dp_slabs ?p)" "gi \<in> set slab"
    by auto
  have "group_footprint \<rho> g \<le> slab_width \<rho> al (dp_groups ?p) slab"
    unfolding gi(2) by (rule slab_width_ge [OF plannedD(1) [OF P] slab(2)])
  also have "\<dots> \<le> sum_list (map (slab_width \<rho> al (dp_groups ?p)) (dp_slabs ?p))"
    using slab(1) by (intro member_le_sum_list) auto
  finally show "group_footprint \<rho> g + nat al \<le> size_limit"
    using total by (simp add: pool_total_def)
next
  let ?p = "pd_dyn plan"
  fix b assume b: "b \<in> set (dp_buckets ?p)"
  have "nat (db_factor b) * dyn_prod \<rho> (db_dyn b) \<le> bucket_size \<rho> al b"
    by (rule bucket_size_facts(2) [OF plannedD(1) [OF P] planned_bucket(3) [OF P b]])
  also have "\<dots> \<le> bucket_size \<rho> al b * length (db_bins b)"
    using planned_bucket(2) [OF P b] by (cases "db_bins b") simp_all
  also have "\<dots> \<le> sum_list (map (\<lambda>b. bucket_size \<rho> al b * length (db_bins b)) (dp_buckets ?p))"
    using b by (intro member_le_sum_list) auto
  finally show "nat (db_factor b) * dyn_prod \<rho> (db_dyn b) + nat al \<le> size_limit"
    using total by (simp add: pool_total_def)
qed

end
