(* ===== verification/IR_Replace.thy ===== *)
theory IR_Replace
  imports Pool_Emission
begin

text \<open>
  Replacing an allocation by a view: the view is created in front of it, takes over its
  uses, and the allocation is erased.  The net effect is an exchange in place, so positions,
  typing and the values of index arithmetic are unchanged.
\<close>

definition exchange :: "nat \<Rightarrow> nat \<Rightarrow> ir_op \<Rightarrow> block_ops \<Rightarrow> block_ops" where
  "exchange a w new blk =
     map (\<lambda>x. if fst x = a then (w, new) else (fst x, subst_op a w (snd x))) blk"

lemma length_exchange [simp]: "length (exchange a w new blk) = length blk"
  by (simp add: exchange_def)

lemma exchange_pos:
  assumes "w \<notin> fst ` set blk" and "b \<noteq> a" and "b \<noteq> w"
  shows "op_pos (exchange a w new blk) b = op_pos blk b"
  using assms by (induction blk) (auto simp: exchange_def op_pos_Cons)

lemma exchange_pos_new:
  "w \<notin> fst ` set blk \<Longrightarrow> op_pos (exchange a w new blk) w = op_pos blk a"
  by (induction blk) (auto simp: exchange_def op_pos_Cons)

lemma val_pos_exchange:
  assumes "w \<notin> fst ` set blk" and "defining_op v \<noteq> Some w"
  shows "val_pos (exchange a w new blk) (subst_val a w v) = val_pos blk v"
  using assms by (cases v) (auto simp: exchange_pos exchange_pos_new)

lemma exchange_Cons:
  "exchange a w new (x # blk) =
     (if fst x = a then (w, new) else (fst x, subst_op a w (snd x))) # exchange a w new blk"
  by (simp add: exchange_def)

lemma map_of_exchange:
  assumes "w \<notin> fst ` set blk"
  shows "map_of (exchange a w new blk) b =
    (if b = w then (if a \<in> fst ` set blk then Some new else None)
     else if b = a then None else map_option (subst_op a w) (map_of blk b))"
  using assms
proof (induction blk)
  case (Cons x blk)
  then show ?case
    by (cases "fst x = a"; cases x) (simp_all add: exchange_Cons split: if_splits, metis+)
qed (simp add: exchange_def)

lemma fst_exchange:
  "fst ` set (exchange a w new blk) =
    (if a \<in> fst ` set blk then insert w (fst ` set blk - {a}) else fst ` set blk)"
  by (auto simp: exchange_def image_iff split: if_splits) force+

lemma distinct_exchange:
  assumes "distinct (map fst blk)" and "w \<notin> fst ` set blk"
  shows "distinct (map fst (exchange a w new blk))"
  using assms
proof (induction blk)
  case (Cons x blk)
  then have "fst x \<noteq> w" "fst x \<notin> fst ` set blk" "w \<notin> fst ` set blk"
    by auto
  then show ?case
    using Cons fst_exchange [of a w new blk]
    by (cases "fst x = a") (simp_all add: exchange_Cons)
qed (simp add: exchange_def)

lemma operands_subst: "operands (subst_op a w op) = map (subst_val a w) (operands op)"
  by (cases op) (auto simp: case_prod_unfold)

lemma index_operands_subst:
  "index_operands (subst_op a w op) = map (subst_val a w) (index_operands op)"
  by (cases op) auto

lemma subst_val_other: "defining_op v \<noteq> Some a \<Longrightarrow> subst_val a w v = v"
  by (cases v) auto

lemma subst_op_other:
  assumes "\<forall>v \<in> set (operands op). defining_op v \<noteq> Some a"
  shows "subst_op a w op = op"
proof (cases op)
  case (Other vs nested)
  have "map (subst_val a w) vs = vs"
    using assms Other by (intro map_idI subst_val_other) auto
  moreover have "map (\<lambda>(d, v). (d, subst_val a w v)) nested = nested"
    using assms Other by (intro map_idI) (force intro: subst_val_other)
  ultimately show ?thesis
    using Other by simp
next
  case (View t p off dyn)
  then show ?thesis
    using assms by (auto intro!: subst_val_other map_idI)
next
  case (Alloc t dyn)
  then show ?thesis
    using assms by (auto intro!: subst_val_other map_idI)
qed (use assms in \<open>auto intro: subst_val_other\<close>)

lemma exchange_split:
  assumes "distinct (map fst (pre @ (a, old) # post))" and "w \<noteq> a"
    and "w \<notin> fst ` set (pre @ (a, old) # post)" and "subst_op a w new = new"
  shows "filter (\<lambda>x. fst x \<noteq> a)
      (map (\<lambda>(b, op). (b, subst_op a w op)) (pre @ (w, new) # (a, old) # post)) =
    exchange a w new (pre @ (a, old) # post)"
proof -
  have other: "filter (\<lambda>x. fst x \<noteq> a) (map (\<lambda>(b, op). (b, subst_op a w op)) xs) =
      exchange a w new xs" if "a \<notin> fst ` set xs" for xs
    using that by (induction xs) (auto simp: exchange_def)
  have "a \<notin> fst ` set pre" "a \<notin> fst ` set post"
    using assms(1) by auto
  then show ?thesis
    using other [of pre] other [of post] assms by (simp add: exchange_def)
qed

text \<open>The composition the pass performs is the exchange.\<close>

lemma replace_by_view_exchange:
  assumes wf: "wf_ir s" and a: "(ai_def info, Alloc t dyn) \<in> set (ir_block s)"
    and ops: "\<forall>v \<in> set (pool # off # ai_dyn info). defining_op v \<noteq> Some (ai_def info)"
  shows "replace_by_view s info pool off =
    (Res (ir_next s) 0,
     s\<lparr>ir_block := exchange (ai_def info) (ir_next s) (View (ai_type info) pool off (ai_dyn info)) (ir_block s),
       ir_next := Suc (ir_next s)\<rparr>)"
proof -
  let ?a = "ai_def info" and ?w = "ir_next s" and ?new = "View (ai_type info) pool off (ai_dyn info)"
  obtain pre post where blk: "ir_block s = pre @ (?a, Alloc t dyn) # post"
    using split_list [OF a] by blast
  have d: "distinct (map fst (ir_block s))" and fresh: "?w \<notin> fst ` set (ir_block s)"
    using wf_ir_distinct [OF wf] fresh_id [OF wf] by blast+
  have "?a \<notin> fst ` set pre"
    using d by (auto simp: blk)
  then have pos: "op_pos (ir_block s) ?a = length pre"
    by (auto simp: blk op_pos_append op_pos_Cons)
  have "subst_op ?a ?w ?new = ?new"
    using ops by (intro subst_op_other) simp
  then have "filter (\<lambda>x. fst x \<noteq> ?a)
      (map (\<lambda>(b, op). (b, subst_op ?a ?w op)) (pre @ (?w, ?new) # (?a, Alloc t dyn) # post)) =
      exchange ?a ?w ?new (ir_block s)"
    using d fresh unfolding blk by (intro exchange_split) auto
  moreover have "snd (create s (Before ?a) ?new) =
      s\<lparr>ir_block := pre @ (?w, ?new) # (?a, Alloc t dyn) # post, ir_next := Suc ?w\<rparr>"
    by (simp add: create_def pos Let_def) (simp add: blk)
  ultimately show ?thesis
    by (simp add: replace_by_view_def case_prod_unfold Let_def create_fst replace_all_uses_def erase_op_def)
qed

section \<open>The exchange keeps the block well-formed\<close>

text \<open>\<open>exchanged s a w new s'\<close>: in \<open>s'\<close> the allocation \<open>a\<close> is exchanged for \<open>w\<close>.\<close>

definition exchanged :: "ir \<Rightarrow> nat \<Rightarrow> nat \<Rightarrow> ir_op \<Rightarrow> ir \<Rightarrow> bool" where
  "exchanged s a w new s' \<longleftrightarrow> wf_ir s \<and> w = ir_next s \<and>
     (\<exists>t dyn. (a, Alloc t dyn) \<in> set (ir_block s)) \<and> (\<exists>t p off dyn. new = View t p off dyn) \<and>
     (\<forall>v \<in> set (operands new). available (ir_block s) (Before a) v) \<and> op_typed s new \<and>
     s' = s\<lparr>ir_block := exchange a w new (ir_block s), ir_next := Suc w\<rparr>"

lemma exchanged_facts:
  assumes E: "exchanged s a w new s'"
  shows "wf_ir s" and "w \<notin> fst ` set (ir_block s)" and "a \<in> ids s" and "a \<noteq> w"
    and "ir_block s' = exchange a w new (ir_block s)" and "ir_next s' = Suc (ir_next s)"
    and "v \<in> set (operands new) \<Longrightarrow> defining_op v \<noteq> Some a \<and> defining_op v \<noteq> Some w"
proof -
  show wf: "wf_ir s" and "ir_block s' = exchange a w new (ir_block s)"
    and "ir_next s' = Suc (ir_next s)"
    using E by (simp_all add: exchanged_def)
  show fresh: "w \<notin> fst ` set (ir_block s)"
    using E fresh_id [OF wf] by (simp add: exchanged_def)
  show a: "a \<in> ids s"
    using E by (force simp: exchanged_def ids_def)
  then show "a \<noteq> w"
    using fresh by (auto simp: ids_def)
  assume v: "v \<in> set (operands new)"
  have "available (ir_block s) (Before a) v"
    using E v by (simp add: exchanged_def)
  then show "defining_op v \<noteq> Some a \<and> defining_op v \<noteq> Some w"
    using available_old [OF wf, of "Before a" v] E by (cases v) (auto simp: exchanged_def available_def)
qed

lemma exchanged_index_value:
  assumes E: "exchanged s a w new s'" and "defining_op v \<noteq> Some w" and "defining_op v \<noteq> Some a"
  shows "index_value s' v = index_value s v"
proof -
  have "map_of (ir_block s') d = map_option (subst_op a w) (map_of (ir_block s) d)"
    if "defining_op v = Some d" for d
    using that assms(2,3) map_of_exchange [OF exchanged_facts(2) [OF E]]
    by (simp add: exchanged_facts(5) [OF E])
  then show ?thesis
    by (auto simp: index_value_def split: option.splits ir_op.splits)
qed

lemma exchanged_has_result:
  assumes E: "exchanged s a w new s'" and "defining_op v \<noteq> Some w"
  shows "has_result s' (subst_val a w v) = has_result s v"
proof (cases v)
  case (Res d k)
  show ?thesis
  proof (cases "d = a")
    case True
    obtain t dyn where "map_of (ir_block s) a = Some (Alloc t dyn)"
      using E wf_ir_map_of by (auto simp: exchanged_def)
    moreover have "map_of (ir_block s') w = Some new"
      using map_of_exchange [OF exchanged_facts(2) [OF E]] exchanged_facts(3) [OF E]
      by (simp add: exchanged_facts(5) [OF E] ids_def)
    ultimately show ?thesis
      using True Res E by (auto simp: has_result_def exchanged_def)
  next
    case False
    have "map_of (ir_block s') d = map_option (subst_op a w) (map_of (ir_block s) d)"
      using False Res assms(2) map_of_exchange [OF exchanged_facts(2) [OF E]]
      by (simp add: exchanged_facts(5) [OF E])
    then show ?thesis
      using False Res by (auto simp: has_result_def split: option.splits ir_op.splits)
  qed
qed (simp add: has_result_def)

lemma index_not_alloc:
  assumes "exchanged s a w new s'" and "index_value s v"
  shows "defining_op v \<noteq> Some a"
proof
  assume "defining_op v = Some a"
  moreover obtain t dyn where "map_of (ir_block s) a = Some (Alloc t dyn)"
    using assms(1) wf_ir_map_of by (auto simp: exchanged_def)
  ultimately show False
    using assms(2) by (simp add: index_value_def)
qed

lemma exchanged_ssa:
  assumes E: "exchanged s a w new s'"
  shows "ssa_ok (ir_block s')"
  unfolding ssa_ok_def
proof (intro conjI allI impI ballI)
  note X = exchanged_facts [OF E]
  show "distinct (map fst (ir_block s'))"
    unfolding X(5) by (rule distinct_exchange [OF wf_ir_distinct [OF X(1)] X(2)])
  fix i v
  assume i: "i < length (ir_block s')" and v: "v \<in> set (operands (snd (ir_block s' ! i)))"
  have len: "i < length (ir_block s)"
    using i by (simp add: X(5))
  let ?x = "ir_block s ! i"
  have mem: "?x \<in> set (ir_block s)"
    using len by simp
  show "val_pos (ir_block s') v \<le> i"
  proof (cases "fst ?x = a")
    case True
    then have vn: "v \<in> set (operands new)"
      using v len by (simp add: X(5) exchange_def)
    have i_pos: "op_pos (ir_block s) a = i"
      using op_pos_at [OF wf_ir_distinct [OF X(1)] len] True by simp
    have "val_pos (ir_block s') (subst_val a w v) = val_pos (ir_block s) v"
      unfolding X(5) using X(7) [OF vn] by (intro val_pos_exchange [OF X(2)]) simp
    then show ?thesis
      using E vn X(7) [OF vn] i_pos by (simp add: subst_val_other exchanged_def available_def)
  next
    case False
    then obtain u where u: "u \<in> set (operands (snd ?x))" "v = subst_val a w u"
      using v len by (auto simp: X(5) exchange_def operands_subst)
    have "defining_op u \<noteq> Some w"
      using operand_old [OF X(1) mem u(1)] E by (simp add: exchanged_def)
    then have "val_pos (ir_block s') v = val_pos (ir_block s) u"
      unfolding X(5) u(2) by (rule val_pos_exchange [OF X(2)])
    then show ?thesis
      using X(1) len u(1) by (simp add: wf_ir_def ssa_ok_def)
  qed
qed

lemma exchanged_wf:
  assumes E: "exchanged s a w new s'"
  shows "wf_ir s'"
proof -
  note X = exchanged_facts [OF E]
  have typed: "op_typed s' (snd y)" if y: "y \<in> set (ir_block s')" for y
  proof -
    obtain x where x: "x \<in> set (ir_block s)"
      "y = (if fst x = a then (w, new) else (fst x, subst_op a w (snd x)))"
      using y by (auto simp: X(5) exchange_def)
    show ?thesis
    proof (cases "fst x = a")
      case True
      have ty: "op_typed s new"
        using E by (simp add: exchanged_def)
      show ?thesis
        unfolding op_typed_def x(2) if_P [OF True] snd_conv
      proof (intro conjI ballI)
        fix v assume "v \<in> set (index_operands new)"
        then show "index_value s' v"
          using ty X(7) [of v] index_operands_subset [of new] exchanged_index_value [OF E, of v]
          by (auto simp: op_typed_def)
      next
        fix v assume v: "v \<in> set (operands new)"
        then show "has_result s' v"
          using ty X(7) [OF v] exchanged_has_result [OF E, of v] by (simp add: op_typed_def subst_val_other)
      qed
    next
      case False
      have ty: "op_typed s (snd x)"
        using X(1) x(1) by (simp add: wf_ir_def)
      have old: "defining_op v \<noteq> Some w" if "v \<in> set (operands (snd x))" for v
        using operand_old [OF X(1) x(1) that] E by (simp add: exchanged_def)
      show ?thesis
        unfolding op_typed_def x(2) if_not_P [OF False] snd_conv operands_subst index_operands_subst
      proof (intro conjI ballI)
        fix v assume "v \<in> set (map (subst_val a w) (index_operands (snd x)))"
        then obtain u where u: "u \<in> set (index_operands (snd x))" "v = subst_val a w u"
          by auto
        have iu: "index_value s u"
          using ty u(1) by (simp add: op_typed_def)
        then show "index_value s' v"
          using exchanged_index_value [OF E, of u] index_not_alloc [OF E iu] old [of u] u
            index_operands_subset [of "snd x"] by (auto simp: subst_val_other)
      next
        fix v assume "v \<in> set (map (subst_val a w) (operands (snd x)))"
        then show "has_result s' v"
          using ty exchanged_has_result [OF E] old by (auto simp: op_typed_def)
      qed
    qed
  qed
  have "\<forall>b \<in> set (map fst (ir_block s')). b < ir_next s'"
    using X(1) fst_exchange [of a w new "ir_block s"] E
    by (auto simp: X(5,6) wf_ir_def exchanged_def less_Suc_eq split: if_splits)
  then show ?thesis
    using exchanged_ssa [OF E] typed by (simp add: wf_ir_def)
qed

section \<open>What survives the rewriting\<close>

text \<open>A value of index arithmetic defined in the block; what it is as a constant is kept.\<close>

definition index_defined :: "ir \<Rightarrow> val \<Rightarrow> bool" where
  "index_defined s v \<longleftrightarrow> index_value s v \<and> (\<forall>a. defining_op v = Some a \<longrightarrow> a \<in> ids s)"

definition constant_kept :: "ir \<Rightarrow> ir \<Rightarrow> bool" where
  "constant_kept s s' \<longleftrightarrow> (\<forall>v. index_defined s v \<longrightarrow> index_defined s' v \<and> const_offset s' v = const_offset s v)"

lemma usable_defined:
  assumes "usable s b v" and "b \<in> ids s"
  shows "index_defined s v"
  using assms available_ids [of b s] by (cases v) (auto simp: usable_def index_defined_def)

lemma grown_constant:
  assumes "wf_ir s" and g: "grown s s'"
  shows "constant_kept s s'"
  unfolding constant_kept_def
proof (intro allI impI)
  fix v
  assume v: "index_defined s v"
  have "map_of (ir_block s') a = map_of (ir_block s) a" if "defining_op v = Some a" for a
    using v that map_of_extends [OF assms] by (simp add: index_defined_def)
  then show "index_defined s' v \<and> const_offset s' v = const_offset s v"
    using v grown_ids [OF g] by (auto simp: index_defined_def index_value_def const_offset_def split: option.split)
qed

lemma exchanged_constant:
  assumes E: "exchanged s a w new s'"
  shows "constant_kept s s'"
  unfolding constant_kept_def
proof (intro allI impI)
  fix v
  assume v: "index_defined s v"
  then have na: "defining_op v \<noteq> Some a"
    by (intro index_not_alloc [OF E]) (simp add: index_defined_def)
  have nw: "defining_op v \<noteq> Some w"
    using v E wf_ir_ids_less [of s w] by (auto simp: index_defined_def exchanged_def)
  show "index_defined s' v \<and> const_offset s' v = const_offset s v"
  proof (cases v)
    case (Res d k)
    then have d: "d \<noteq> a" "d \<noteq> w" "d \<in> ids s"
      using na nw v by (auto simp: index_defined_def)
    then have "map_of (ir_block s') d = map_option (subst_op a w) (map_of (ir_block s) d)"
      using exchanged_facts(2) [OF E] by (simp add: exchanged_facts(5) [OF E] map_of_exchange)
    then have "const_offset s' v = const_offset s v"
      by (auto simp: Res const_offset_def split: option.split ir_op.split)
    moreover have "d \<in> ids s'"
      using d(1,3) by (auto simp: ids_def exchanged_facts(5) [OF E] fst_exchange)
    ultimately show ?thesis
      using v exchanged_index_value [OF E nw na] by (simp add: index_defined_def Res)
  qed (simp add: index_defined_def index_value_def const_offset_def)
qed

text \<open>
  \<open>carries R s s'\<close>: rewriting \<open>s\<close> to \<open>s'\<close> kept the values of index arithmetic, its constants, what can be
  used before the operations \<open>R\<close>, the allocations among them, and every pool with its views.
\<close>

definition carries :: "nat set \<Rightarrow> ir \<Rightarrow> ir \<Rightarrow> bool" where
  "carries R s s' \<longleftrightarrow> wf_ir s' \<and> R \<subseteq> ids s' \<and> ir_next s \<le> ir_next s' \<and>
     (\<forall>b \<in> ids s'. b \<in> ids s \<or> ir_next s \<le> b) \<and>
     (\<forall>\<rho>. consistent \<rho> s' \<longrightarrow> consistent \<rho> s) \<and> constant_kept s s' \<and>
     (\<forall>b \<in> R. \<forall>v. usable s b v \<longrightarrow> usable s' b v) \<and>
     (\<forall>b \<in> R. \<forall>t dyn. (b, Alloc t dyn) \<in> set (ir_block s) \<longrightarrow> (b, Alloc t dyn) \<in> set (ir_block s')) \<and>
     (\<forall>p k sz d. (p, Get_pool (Arg k) sz d) \<in> set (ir_block s) \<longrightarrow>
        (p, Get_pool (Arg k) sz d) \<in> set (ir_block s') \<and>
        (\<forall>b \<in> R. available (ir_block s) (Before b) (Res p 0) \<longrightarrow>
           available (ir_block s') (Before b) (Res p 0)) \<and>
        (\<forall>w t off dyn. (w, View t (Res p 0) off dyn) \<in> set (ir_block s) \<longrightarrow>
           (w, View t (Res p 0) off dyn) \<in> set (ir_block s')))"

lemma constant_kept_trans: "constant_kept s t \<Longrightarrow> constant_kept t u \<Longrightarrow> constant_kept s u"
  by (simp add: constant_kept_def)

lemma carries_trans:
  assumes "carries R s t" and "carries Q t u" and "Q \<subseteq> R"
  shows "carries Q s u"
  using assms unfolding carries_def by (meson constant_kept_trans order_trans subset_iff)

lemma carries_subset: "carries R s s' \<Longrightarrow> Q \<subseteq> R \<Longrightarrow> carries Q s s'"
  unfolding carries_def by (meson subset_iff)

lemma grown_carries:
  assumes "wf_ir s" and g: "grown s s'" and "R \<subseteq> ids s"
  shows "carries R s s'"
  unfolding carries_def
proof (intro conjI ballI allI impI)
  show "R \<subseteq> ids s'"
    using assms(3) grown_ids [OF g] by blast
  show "b \<in> ids s \<or> ir_next s \<le> b" if "b \<in> ids s'" for b
    using that g by (force simp: ids_def grown_def extends_def)
  show "constant_kept s s'"
    by (rule grown_constant [OF assms(1) g])
qed (use assms g usable_grown grown_consistent extends_available in
      \<open>auto simp: grown_def extends_def\<close>)

lemma exchanged_mem:
  assumes E: "exchanged s a w new s'" and "(b, op) \<in> set (ir_block s)" and "b \<noteq> a"
    and "\<forall>v \<in> set (operands op). defining_op v \<noteq> Some a"
  shows "(b, op) \<in> set (ir_block s')"
proof -
  have "(b, subst_op a w op) \<in> set (exchange a w new (ir_block s))"
    using assms(2,3) unfolding exchange_def by force
  then show ?thesis
    by (simp add: exchanged_facts(5) [OF E] subst_op_other [OF assms(4)])
qed

lemma exchanged_not:
  assumes E: "exchanged s a w new s'" and "(b, op) \<in> set (ir_block s)"
    and "\<forall>t dyn. op \<noteq> Alloc t dyn"
  shows "b \<noteq> a"
proof
  assume "b = a"
  then have "map_of (ir_block s) a = Some op"
    using assms(2) wf_ir_map_of [OF exchanged_facts(1) [OF E]] by simp
  moreover obtain t dyn where "map_of (ir_block s) a = Some (Alloc t dyn)"
    using E wf_ir_map_of by (auto simp: exchanged_def)
  ultimately show False
    using assms(3) by auto
qed

lemma exchanged_typed_operand:
  assumes E: "exchanged s a w new s'" and "(b, op) \<in> set (ir_block s)" and "v \<in> set (index_operands op)"
  shows "defining_op v \<noteq> Some a"
proof (rule index_not_alloc [OF E])
  show "index_value s v"
    using assms exchanged_facts(1) [OF E] by (force simp: wf_ir_def op_typed_def)
qed

lemma exchanged_consistent:
  assumes E: "exchanged s a w new s'" and c: "consistent \<rho> s'"
  shows "consistent \<rho> s"
  unfolding consistent_def
proof clarify
  fix b op assume m: "(b, op) \<in> set (ir_block s)"
  show "op_holds \<rho> b op"
  proof (cases op)
    case (Const_index k)
    then have "(b, op) \<in> set (ir_block s')"
      using exchanged_mem [OF E m] exchanged_not [OF E m] by simp
    then show ?thesis
      using c by (auto simp: consistent_def)
  next
    case (Bin f x y)
    then have "(b, op) \<in> set (ir_block s')"
      using exchanged_mem [OF E m] exchanged_not [OF E m] exchanged_typed_operand [OF E m] by simp
    then show ?thesis
      using c by (auto simp: consistent_def)
  qed simp_all
qed

lemma exchanged_available:
  assumes E: "exchanged s a w new s'" and b: "b \<in> ids s" "b \<noteq> a"
    and v: "available (ir_block s) (Before b) v" "defining_op v \<noteq> Some a"
  shows "available (ir_block s') (Before b) v"
proof -
  have w: "defining_op v \<noteq> Some w"
    using available_old [OF exchanged_facts(1) [OF E] v(1)] E by (simp add: exchanged_def)
  have "val_pos (ir_block s') (subst_val a w v) = val_pos (ir_block s) v"
    unfolding exchanged_facts(5) [OF E] by (rule val_pos_exchange [OF exchanged_facts(2) [OF E] w])
  moreover have "op_pos (ir_block s') b = op_pos (ir_block s) b"
    using exchanged_facts(2) [OF E] b
    by (auto simp: exchanged_facts(5) [OF E] ids_def intro!: exchange_pos)
  ultimately show ?thesis
    using v by (simp add: available_def subst_val_other)
qed

lemma exchanged_usable:
  assumes E: "exchanged s a w new s'" and b: "b \<in> ids s" "b \<noteq> a" and v: "usable s b v"
  shows "usable s' b v"
proof -
  have iv: "index_value s v"
    using v by (simp add: usable_def)
  have na: "defining_op v \<noteq> Some a"
    by (rule index_not_alloc [OF E iv])
  have "defining_op v \<noteq> Some w"
    using available_old [OF exchanged_facts(1) [OF E], of "Before b" v] v E
    by (simp add: usable_def exchanged_def)
  then show ?thesis
    using exchanged_available [OF E b _ na] exchanged_index_value [OF E _ na] v
    by (simp add: usable_def)
qed

lemma exchanged_carries:
  assumes E: "exchanged s a w new s'" and R: "R \<subseteq> ids s - {a}"
  shows "carries R s s'"
  unfolding carries_def
proof (intro conjI ballI allI impI)
  note X = exchanged_facts [OF E]
  show "wf_ir s'"
    by (rule exchanged_wf [OF E])
  show "R \<subseteq> ids s'"
    using R X(3) by (auto simp: ids_def X(5) fst_exchange)
  show "ir_next s \<le> ir_next s'"
    by (simp add: X(6))
  show "b \<in> ids s \<or> ir_next s \<le> b" if "b \<in> ids s'" for b
    using that E by (auto simp: ids_def X(5) fst_exchange exchanged_def split: if_splits)
  show "consistent \<rho> s" if "consistent \<rho> s'" for \<rho>
    by (rule exchanged_consistent [OF E that])
  show "constant_kept s s'"
    by (rule exchanged_constant [OF E])
  show "usable s' b v" if "b \<in> R" "usable s b v" for b v
    using exchanged_usable [OF E _ _ that(2)] that(1) R by blast
  show "(b, Alloc t dyn) \<in> set (ir_block s')"
    if "b \<in> R" and m: "(b, Alloc t dyn) \<in> set (ir_block s)" for b t dyn
    using exchanged_mem [OF E m] exchanged_typed_operand [OF E m] R that(1) by auto
  fix p k sz d
  assume m: "(p, Get_pool (Arg k) sz d) \<in> set (ir_block s)"
  have p: "p \<noteq> a"
    using exchanged_not [OF E m] by simp
  show "(p, Get_pool (Arg k) sz d) \<in> set (ir_block s')"
    using exchanged_mem [OF E m p] exchanged_typed_operand [OF E m] by auto
  show "available (ir_block s') (Before b) (Res p 0)"
    if "b \<in> R" "available (ir_block s) (Before b) (Res p 0)" for b
    using exchanged_available [OF E _ _ that(2)] that(1) R p by auto
  show "(v, View t (Res p 0) off dyn) \<in> set (ir_block s')"
    if mv: "(v, View t (Res p 0) off dyn) \<in> set (ir_block s)" for v t off dyn
    using exchanged_mem [OF E mv] exchanged_not [OF E mv] exchanged_typed_operand [OF E mv] p by auto
qed

section \<open>Placing all views of a domain\<close>

text \<open>The view is in the block, on the domain's pool, and the recorded constant is the offset's.\<close>

definition view_placed :: "ir \<Rightarrow> placement \<Rightarrow> bool" where
  "view_placed s pl \<longleftrightarrow> index_defined s (pl_offset pl) \<and> pl_const pl = const_offset s (pl_offset pl) \<and>
    (\<exists>w p sz. pl_view pl = Res w 0 \<and> pl_pool pl = Res p 0 \<and>
     (w, View (ai_type (pl_info pl)) (Res p 0) (pl_offset pl) (ai_dyn (pl_info pl))) \<in> set (ir_block s) \<and>
     (p, Get_pool (Arg 0) sz (pl_domain pl)) \<in> set (ir_block s))"

lemma view_placed_carries: "view_placed s pl \<Longrightarrow> carries R s s' \<Longrightarrow> view_placed s' pl"
proof -
  assume pl: "view_placed s pl" and C: "carries R s s'"
  have "constant_kept s s'"
    using C by (simp add: carries_def)
  moreover have "\<exists>w p sz. pl_view pl = Res w 0 \<and> pl_pool pl = Res p 0 \<and>
     (w, View (ai_type (pl_info pl)) (Res p 0) (pl_offset pl) (ai_dyn (pl_info pl))) \<in> set (ir_block s') \<and>
     (p, Get_pool (Arg 0) sz (pl_domain pl)) \<in> set (ir_block s')"
    using pl C unfolding view_placed_def carries_def by blast
  ultimately show "view_placed s' pl"
    using pl by (simp add: view_placed_def constant_kept_def)
qed

text \<open>An allocation ready to be replaced, with its offset.\<close>

definition replaceable :: "ir \<Rightarrow> nat \<Rightarrow> offset_map \<Rightarrow> alloc_info \<Rightarrow> bool" where
  "replaceable s p offs i \<longleftrightarrow>
     (ai_def i, Alloc (ai_type i) (ai_dyn i)) \<in> set (ir_block s) \<and>
     available (ir_block s) (Before (ai_def i)) (Res p 0) \<and>
     (\<exists>off. map_of offs (ai_def i) = Some off \<and> usable s (ai_def i) off)"

lemma replaceable_carries:
  assumes "replaceable s p offs i" and "carries R s s'" and "ai_def i \<in> R"
    and "(p, Get_pool (Arg 0) sz d) \<in> set (ir_block s)"
  shows "replaceable s' p offs i"
  using assms unfolding replaceable_def carries_def by metis

lemma replace_exchanged:
  assumes wf: "wf_ir s" and i: "replaceable s p offs i"
    and pool: "(p, Get_pool (Arg 0) sz d) \<in> set (ir_block s)" and off: "map_of offs (ai_def i) = Some off"
  shows "\<exists>s'. replace_by_view s i (Res p 0) off = (Res (ir_next s) 0, s') \<and>
    exchanged s (ai_def i) (ir_next s) (View (ai_type i) (Res p 0) off (ai_dyn i)) s'"
proof -
  have a: "(ai_def i, Alloc (ai_type i) (ai_dyn i)) \<in> set (ir_block s)"
    and av: "available (ir_block s) (Before (ai_def i)) (Res p 0)" and u: "usable s (ai_def i) off"
    using i off by (auto simp: replaceable_def)
  have dyn: "index_value s v \<and> has_result s v \<and> available (ir_block s) (Before (ai_def i)) v"
    if v: "v \<in> set (ai_dyn i)" for v
    using wf a v wf_ir_available [OF wf a] by (force simp: wf_ir_def op_typed_def)
  have pool_res: "has_result s (Res p 0)"
    using wf_ir_map_of [OF wf pool] by (simp add: has_result_def)
  let ?new = "View (ai_type i) (Res p 0) off (ai_dyn i)"
  have all: "\<forall>v \<in> set (operands ?new). available (ir_block s) (Before (ai_def i)) v"
    using av u dyn by (auto simp: usable_def)
  then have ops: "\<forall>v \<in> set (Res p 0 # off # ai_dyn i). defining_op v \<noteq> Some (ai_def i)"
    by (auto simp: available_def dest: arg_cong [of _ _ "\<lambda>d. defining_op d"])
      (metis defining_op.elims not_less_eq_eq option.distinct(1) option.inject order_refl val_pos.simps(2))+
  have "op_typed s ?new"
    using u dyn pool_res by (auto simp: op_typed_def usable_def index_has_result)
  then show ?thesis
    using replace_by_view_exchange [OF wf a ops] wf a all by (auto simp: exchanged_def)
qed

lemma place_views_ok:
  assumes "wf_ir s" and "distinct (map ai_def infos)"
    and "\<forall>i \<in> set infos. replaceable s p offs i"
    and "(p, Get_pool (Arg 0) sz d) \<in> set (ir_block s)"
    and "place_views d (Res p 0) offs s infos = (pls, s')"
  shows "carries (ids s - ai_def ` set infos) s s' \<and> map pl_info pls = infos \<and>
    (\<forall>i \<in> set infos. ai_def i \<notin> ids s') \<and>
    (\<forall>pl \<in> set pls. view_placed s' pl \<and> pl_domain pl = d \<and> pl_pool pl = Res p 0 \<and>
       map_of offs (ai_def (pl_info pl)) = Some (pl_offset pl))"
  using assms
proof (induction infos arbitrary: s pls)
  case Nil
  then show ?case
    using grown_carries [OF _ grown_refl] by auto
next
  case (Cons i infos)
  let ?R = "ids s - {ai_def i}"
  obtain off where off: "map_of offs (ai_def i) = Some off"
    using Cons.prems(3) by (auto simp: replaceable_def)
  have ri: "replaceable s p offs i"
    using Cons.prems(3) by simp
  obtain s1 where s1: "replace_by_view s i (Res p 0) off = (Res (ir_next s) 0, s1)"
    and E: "exchanged s (ai_def i) (ir_next s) (View (ai_type i) (Res p 0) off (ai_dyn i)) s1"
    using replace_exchanged [OF Cons.prems(1) ri Cons.prems(4) off] by blast
  obtain pls' where rest: "place_views d (Res p 0) offs s1 infos = (pls', s')"
    and pls: "pls = \<lparr>pl_info = i, pl_domain = d, pl_pool = Res p 0, pl_offset = off,
      pl_view = Res (ir_next s) 0, pl_const = const_offset s off\<rparr> # pls'"
    using Cons.prems(5) off s1 by (auto simp: Let_def split: prod.splits)
  have C: "carries ?R s s1"
    by (rule exchanged_carries [OF E order_refl])
  have pool: "(p, Get_pool (Arg 0) sz d) \<in> set (ir_block s1)"
    using C Cons.prems(4) unfolding carries_def by blast
  have "\<forall>j \<in> set infos. replaceable s1 p offs j"
  proof
    fix j assume j: "j \<in> set infos"
    have "ai_def j \<in> ?R"
    proof -
      have "ai_def j \<noteq> ai_def i"
        using Cons.prems(2) j by (metis distinct.simps(2) image_eqI list.simps(9) set_map)
      moreover have "ai_def j \<in> ids s"
        using Cons.prems(3) j set_ids [of "(ai_def j, Alloc (ai_type j) (ai_dyn j))" s]
        by (simp add: replaceable_def)
      ultimately show ?thesis
        by simp
    qed
    then show "replaceable s1 p offs j"
      using replaceable_carries [OF _ C _ Cons.prems(4)] Cons.prems(3) j by simp
  qed
  from Cons.IH [OF _ _ this pool rest] Cons.prems(2) exchanged_wf [OF E]
  have ih: "carries (ids s1 - ai_def ` set infos) s1 s'" "map pl_info pls' = infos"
    "\<forall>i \<in> set infos. ai_def i \<notin> ids s'"
    "\<forall>pl \<in> set pls'. view_placed s' pl \<and> pl_domain pl = d \<and> pl_pool pl = Res p 0 \<and>
       map_of offs (ai_def (pl_info pl)) = Some (pl_offset pl)"
    by simp_all
  have ids1: "ids s1 = insert (ir_next s) (ids s - {ai_def i})"
    using exchanged_facts(3,5) [OF E] by (simp add: ids_def fst_exchange)
  have "ai_def i \<in> ids s"
    by (rule exchanged_facts(3) [OF E])
  then have "ai_def i < ir_next s"
    by (rule wf_ir_ids_less [OF Cons.prems(1)])
  then have "ai_def i \<notin> ids s'"
    using ih(1) exchanged_facts(6) [OF E] by (auto simp: carries_def ids1)
  moreover have "carries (ids s - ai_def ` set (i # infos)) s1 s'"
    by (rule carries_subset [OF ih(1)]) (auto simp: ids1)
  from carries_trans [OF C this] have "carries (ids s - ai_def ` set (i # infos)) s s'"
    by auto
  moreover have "view_placed s' (hd pls)"
  proof (rule view_placed_carries [OF _ ih(1)])
    have "(ir_next s, View (ai_type i) (Res p 0) off (ai_dyn i)) \<in> set (ir_block s1)"
      using exchanged_facts(3,5) [OF E] by (force simp: ids_def exchange_def)
    moreover have "usable s (ai_def i) off" "ai_def i \<in> ids s"
      using ri off exchanged_facts(3) [OF E] by (auto simp: replaceable_def)
    then have "index_defined s1 off" "const_offset s1 off = const_offset s off"
      using usable_defined C by (auto simp: carries_def constant_kept_def)
    ultimately show "view_placed s1 (hd pls)"
      using pool by (auto simp: pls view_placed_def)
  qed
  ultimately show ?case
    using ih off by (simp add: pls)
qed

end
