(* ===== verification/Pool_Correct.thy ===== *)
theory Pool_Correct
  imports Pool_Layout IR_Replace
begin

text \<open>
  Correctness of the whole pass: emission never gets stuck, the rewritten block is in SSA
  form, and the views of allocations that are live at the same time never share a byte.
\<close>

section \<open>Emitting above a set of allocations\<close>

definition has_above ::
  "bool \<Rightarrow> assignment \<Rightarrow> ir \<Rightarrow> nat list \<Rightarrow> val \<Rightarrow> nat \<Rightarrow> bool" where
  "has_above fit \<rho> s A v n \<longleftrightarrow> (\<forall>a \<in> set A. has fit \<rho> s a v n)"

definition above_ok :: "ir \<Rightarrow> nat list \<Rightarrow> bool" where
  "above_ok s A \<longleftrightarrow> wf_ir s \<and> A \<noteq> [] \<and> set A \<subseteq> ids s"

definition usable_above :: "ir \<Rightarrow> nat list \<Rightarrow> val list \<Rightarrow> bool" where
  "usable_above s A vs \<longleftrightarrow> (\<forall>v \<in> set vs. \<forall>a \<in> set A. usable s a v)"

lemma above_ok_grown: "above_ok s A \<Longrightarrow> grown s s' \<Longrightarrow> above_ok s' A"
  using extends_ids by (fastforce simp: above_ok_def grown_def)

lemma above_ready: "above_ok s A \<Longrightarrow> a \<in> set A \<Longrightarrow> ready s a"
  by (auto simp: above_ok_def ready_def)

lemma has_above_grown:
  "has_above fit \<rho> s A v n \<Longrightarrow> above_ok s A \<Longrightarrow> grown s s' \<Longrightarrow> has_above fit \<rho> s' A v n"
  unfolding has_above_def using has_grown above_ready by blast

lemma has_above_all_grown:
  "list_all2 (has_above fit \<rho> s A) vs ns \<Longrightarrow> above_ok s A \<Longrightarrow> grown s s' \<Longrightarrow>
   list_all2 (has_above fit \<rho> s' A) vs ns"
  using list_all2_mono [of "has_above fit \<rho> s A" vs ns "has_above fit \<rho> s' A"] has_above_grown by blast

lemma usable_above_grown:
  "usable_above s A vs \<Longrightarrow> above_ok s A \<Longrightarrow> grown s s' \<Longrightarrow> usable_above s' A vs"
  unfolding usable_above_def above_ok_def using usable_grown by blast

lemma usable_later:
  assumes "usable s b v" and "op_pos (ir_block s) b \<le> op_pos (ir_block s) a"
  shows "usable s a v"
  using assms by (auto simp: usable_def available_def)

lemma grown_order:
  assumes "grown s s'" and "a \<in> ids s" and "op_pos (ir_block s) b \<le> op_pos (ir_block s) a"
  shows "op_pos (ir_block s') b \<le> op_pos (ir_block s') a"
proof (cases "op_pos (ir_block s) b < op_pos (ir_block s) a")
  case True
  then show ?thesis
    using assms(1,2) by (auto simp: grown_def extends_def intro: less_imp_le)
next
  case False
  then have "op_pos (ir_block s) a = op_pos (ir_block s) b"
    using assms(3) by simp
  then have "a = b"
    using assms(2) op_pos_inj unfolding ids_def by metis
  then show ?thesis by simp
qed

lemma has_to_above:
  assumes "has fit \<rho> s' b v n" and "grown s s'" and "set A \<subseteq> ids s"
    and "\<forall>a \<in> set A. op_pos (ir_block s) b \<le> op_pos (ir_block s) a"
  shows "has_above fit \<rho> s' A v n"
  unfolding has_above_def
proof
  fix a assume "a \<in> set A"
  then have "op_pos (ir_block s') b \<le> op_pos (ir_block s') a"
    using assms(2-4) grown_order by blast
  then show "has fit \<rho> s' a v n"
    using assms(1) usable_later by (auto simp: has_def)
qed

text \<open>A point above the allocations where given values can be used always exists.\<close>

lemma seek_ok:
  assumes A: "above_ok s A" and vs: "usable_above s A vs"
  shows "\<exists>b. find_latest_legal_insertion_point (ir_block s) (block_defs (ir_block s) vs) A = Some (Before b) \<and>
    ready s b \<and> (\<forall>v \<in> set vs. usable s b v) \<and> (\<forall>a \<in> set A. op_pos (ir_block s) b \<le> op_pos (ir_block s) a)"
proof -
  let ?blk = "ir_block s"
  have wf: "wf_ir s" and ne: "A \<noteq> []" and sub: "set A \<subseteq> set (map fst ?blk)"
    using A by (simp_all add: above_ok_def ids_def)
  have def_pos: "op_pos ?blk d < op_pos ?blk a" if d: "d \<in> set (block_defs ?blk vs)" and a: "a \<in> set A" for d a
  proof -
    obtain k where "Res d k \<in> set vs"
      using d unfolding block_defs_iff by blast
    then have "usable s a (Res d k)"
      using vs a by (auto simp: usable_above_def)
    then show ?thesis
      by (simp add: usable_def available_def)
  qed
  have "find_latest_legal_insertion_point ?blk (block_defs ?blk vs) A \<noteq> None"
    using def_pos insertion_point_feasible [OF ne] by (simp add: is_before_def)
  then obtain ip where ip: "find_latest_legal_insertion_point ?blk (block_defs ?blk vs) A = Some ip"
    by auto
  note L = insertion_point_legal [OF ip wf_ir_distinct [OF wf] set_block_defs ne sub]
  obtain b where b: "b \<in> set (map fst ?blk)" "ip = Before b"
    using L(1) by blast
  have le: "\<forall>a \<in> set A. op_pos ?blk b \<le> op_pos ?blk a"
    using L(3) b(2) by simp
  have "usable s b v" if v: "v \<in> set vs" for v
  proof -
    obtain a where a: "a \<in> set A"
      using ne by (cases A) auto
    then have u: "usable s a v"
      using vs v by (simp add: usable_above_def)
    show ?thesis
    proof (cases v)
      case (Res d k)
      have "d \<in> ids s"
        using u a sub Res available_ids [of a s d k] by (auto simp: usable_def ids_def)
      then have "d \<in> set (block_defs ?blk vs)"
        using v Res unfolding block_defs_iff by (auto simp: ids_def)
      then have "op_pos ?blk d < op_pos ?blk b"
        using L(2) b(2) by simp
      then show ?thesis
        using u Res by (simp add: usable_def available_def)
    next
      case (Arg k)
      then show ?thesis
        using u by (simp add: usable_def available_def)
    qed
  qed
  then show ?thesis
    using ip b le wf by (auto simp: ready_def ids_def)
qed

section \<open>Factors and bucket sizes\<close>

lemma group_factors_ok:
  assumes fo: "folder_ok fo"
  shows "above_ok s A \<Longrightarrow> \<forall>g \<in> set gs. usable_above s A (dg_dyn g) \<Longrightarrow>
    \<exists>fs s'. emit_group_factors fo A s gs = Inr (fs, s') \<and> grown s s' \<and>
      list_all2 (has_above fit \<rho> s' A) fs (map (\<lambda>g. dyn_prod \<rho> (dg_dyn g)) gs)"
proof (induction gs arbitrary: s)
  case Nil
  then show ?case
    by (simp add: above_ok_def grown_refl)
next
  case (Cons g gs)
  obtain b where b: "find_latest_legal_insertion_point (ir_block s) (block_defs (ir_block s) (dg_dyn g)) A =
      Some (Before b)" "ready s b" "\<forall>v \<in> set (dg_dyn g). usable s b v"
    "\<forall>a \<in> set A. op_pos (ir_block s) b \<le> op_pos (ir_block s) a"
    using seek_ok [of s A "dg_dyn g"] Cons.prems by auto
  let ?r = "emit_factor fo s (Before b) 1 (dg_dyn g)"
  have r: "yields fit \<rho> s b ?r (dyn_prod \<rho> (dg_dyn g))"
    using yields_factor [OF fo b(2) _ b(3), of 1 fit \<rho>] by simp
  note R = yieldsD [OF r b(2)]
  have f: "has_above fit \<rho> (snd ?r) A (fst ?r) (dyn_prod \<rho> (dg_dyn g))"
    using Cons.prems(1) b(4) by (intro has_to_above [OF R(2,1)]) (auto simp: above_ok_def)
  have A: "above_ok (snd ?r) A"
    by (rule above_ok_grown [OF Cons.prems(1) R(1)])
  have "\<forall>g \<in> set gs. usable_above (snd ?r) A (dg_dyn g)"
    using Cons.prems usable_above_grown [OF _ Cons.prems(1) R(1)] by simp
  from Cons.IH [OF A this] obtain fs s' where
    q: "emit_group_factors fo A (snd ?r) gs = Inr (fs, s')" "grown (snd ?r) s'"
      "list_all2 (has_above fit \<rho> s' A) fs (map (\<lambda>g. dyn_prod \<rho> (dg_dyn g)) gs)"
    by blast
  have "emit_group_factors fo A s (g # gs) = Inr (fst ?r # fs, s')"
    using b(1) q(1) by (simp add: seek_size_insertion_point_def case_prod_unfold Let_def)
  moreover have "has_above fit \<rho> s' A (fst ?r) (dyn_prod \<rho> (dg_dyn g))"
    by (rule has_above_grown [OF f A q(2)])
  ultimately show ?case
    using q(3) grown_trans [OF R(1) q(2)] by simp
qed

lemma bucket_sizes_ok:
  assumes fo: "folder_ok fo" and al: "0 < al" "al < 2 ^ 63"
  shows "above_ok s A \<Longrightarrow> \<forall>b \<in> set bs. usable_above s A (db_dyn b) \<and> 0 \<le> db_factor b \<and>
      (fit \<longrightarrow> nat (db_factor b) * dyn_prod \<rho> (db_dyn b) + nat al \<le> size_limit) \<Longrightarrow>
    \<exists>szs s'. emit_bucket_sizes fo A al s bs = Inr (szs, s') \<and> grown s s' \<and>
      list_all2 (has_above fit \<rho> s' A) szs (map (bucket_size \<rho> al) bs)"
proof (induction bs arbitrary: s)
  case Nil
  then show ?case
    by (simp add: above_ok_def grown_refl)
next
  case (Cons bk bs)
  obtain b where b: "find_latest_legal_insertion_point (ir_block s) (block_defs (ir_block s) (db_dyn bk)) A =
      Some (Before b)" "ready s b" "\<forall>v \<in> set (db_dyn bk). usable s b v"
    "\<forall>a \<in> set A. op_pos (ir_block s) b \<le> op_pos (ir_block s) a"
    using seek_ok [of s A "db_dyn bk"] Cons.prems by auto
  let ?r = "emit_bucket_size fo s (Before b) bk al"
  have r: "yields fit \<rho> s b ?r (bucket_size \<rho> al bk)"
    using Cons.prems(2) al by (intro yields_bucket_size [OF fo b(2) _ b(3)]) auto
  note R = yieldsD [OF r b(2)]
  have f: "has_above fit \<rho> (snd ?r) A (fst ?r) (bucket_size \<rho> al bk)"
    using Cons.prems(1) b(4) by (intro has_to_above [OF R(2,1)]) (auto simp: above_ok_def)
  have A: "above_ok (snd ?r) A"
    by (rule above_ok_grown [OF Cons.prems(1) R(1)])
  have "\<forall>b \<in> set bs. usable_above (snd ?r) A (db_dyn b) \<and> 0 \<le> db_factor b \<and>
      (fit \<longrightarrow> nat (db_factor b) * dyn_prod \<rho> (db_dyn b) + nat al \<le> size_limit)"
    using Cons.prems usable_above_grown [OF _ Cons.prems(1) R(1)] by simp
  from Cons.IH [OF A this] obtain szs s' where
    q: "emit_bucket_sizes fo A al (snd ?r) bs = Inr (szs, s')" "grown (snd ?r) s'"
      "list_all2 (has_above fit \<rho> s' A) szs (map (bucket_size \<rho> al) bs)"
    by blast
  have "emit_bucket_sizes fo A al s (bk # bs) = Inr (fst ?r # szs, s')"
    using b(1) q(1) by (simp add: seek_size_insertion_point_def case_prod_unfold Let_def)
  moreover have "has_above fit \<rho> s' A (fst ?r) (bucket_size \<rho> al bk)"
    by (rule has_above_grown [OF f A q(2)])
  ultimately show ?case
    using q(3) grown_trans [OF R(1) q(2)] by simp
qed

section \<open>One domain\<close>

lemma dyn_sizes_subset: "set (dyn_sizes_of dims vs) \<subseteq> set vs"
  by (induction dims vs rule: dyn_sizes_of.induct) auto

lemma dyn_key_subset: "set (dyn_key i) \<subseteq> set (ai_dyn i)"
  using dyn_sizes_subset by (simp add: dyn_key_def compute_key_def)

lemma list_all2_memD: "list_all2 P xs ys \<Longrightarrow> x \<in> set xs \<Longrightarrow> \<exists>y \<in> set ys. P x y"
  and list_all2_memD': "list_all2 P xs ys \<Longrightarrow> y \<in> set ys \<Longrightarrow> \<exists>x \<in> set xs. P x y"
  by (induction rule: list_all2_induct) auto

lemma list_all2_rev_memD:
  "list_all2 P xs (rev ys) \<Longrightarrow> y \<in> set ys \<Longrightarrow> \<exists>x \<in> set xs. P x y"
  using list_all2_memD' [of P xs "rev ys" y] by simp

text \<open>The offset map gives every allocation its own entry.\<close>

lemma offset_of_alloc:
  assumes offs: "offsets_for fit \<rho> s b offs (rev E)" and E: "fst ` set E = set allocs"
    and d: "distinct (map ai_def allocs)" and i: "i \<in> set allocs"
  shows "\<exists>v n. map_of offs (ai_def i) = Some v \<and> (i, n) \<in> set E \<and> has fit \<rho> s b v n"
proof -
  note O = offs [unfolded offsets_for_def]
  have "i \<in> fst ` set E"
    using E i by simp
  then obtain n where "(i, n) \<in> set E"
    by force
  then obtain x where "x \<in> set offs" "stands_for fit \<rho> s b x (i, n)"
    using list_all2_rev_memD [OF O, of "(i, n)"] by blast
  then have "ai_def i \<in> fst ` set offs"
    by (force simp: stands_for_def)
  then obtain v where v: "map_of offs (ai_def i) = Some v"
    by (metis map_of_eq_None_iff not_None_eq)
  then have "(ai_def i, v) \<in> set offs"
    by (rule map_of_SomeD)
  then obtain e where e: "e \<in> set E" "stands_for fit \<rho> s b (ai_def i, v) e"
    using list_all2_memD [OF O, of "(ai_def i, v)"] by auto
  have "fst e \<in> set allocs" "ai_def (fst e) = ai_def i"
    using e E by (force simp: stands_for_def)+
  then have "fst e = i"
    using d i by (metis distinct_map inj_onD)
  then show ?thesis
    using v e by (cases e) (auto simp: stands_for_def)
qed

text \<open>A domain with an allocation has something to emit.\<close>

lemma planned_nonempty:
  assumes P: "planned al lt srt allocs plan" and "allocs \<noteq> []"
  shows "\<not> (dp_empty (pd_dyn plan) \<and> pd_static_size plan = 0)"
proof
  assume e: "dp_empty (pd_dyn plan) \<and> pd_static_size plan = 0"
  obtain i n where i: "(i, n) \<in> set (pool_entries (\<lambda>_. 0) al plan)"
    using pool_entries_members [OF P, of "\<lambda>_. 0"] assms(2) by (cases allocs) force+
  then have st: "(i, n) \<in> set (static_entries (pd_static_asg plan))"
    using e by (simp add: pool_entries_def Let_def)
  then have "i \<in> set (map fst (pd_static_asg plan))"
    by (force simp: static_entries_def)
  then have pos: "0 < ai_bytes i"
    unfolding plannedD(3) [OF P] static_items plannedD(6) [OF P] by simp
  have "layout_ok (\<lambda>_. 0) (nat al) (static_entries (pd_static_asg plan)) 0 (nat (pd_static_size plan))"
    using layout_static [OF plannedD(1) [OF P] _ plannedD(3) [OF P]] plannedD(6) [OF P]
    by (simp add: plannedD(4) [OF P])
  then show False
    using st pos e by (fastforce simp: layout_ok_def region_bytes_def)
qed

definition domain_ready :: "ir \<Rightarrow> alloc_info list \<Rightarrow> bool" where
  "domain_ready s allocs \<longleftrightarrow> above_ok s (map ai_def allocs) \<and>
     (\<forall>i \<in> set allocs. usable_above s (map ai_def allocs) (ai_dyn i) \<and>
        (ai_def i, Alloc (ai_type i) (ai_dyn i)) \<in> set (ir_block s))"

text \<open>What is known of the placements of one domain in the block \<open>s\<close>.\<close>

definition domain_placed ::
  "bool \<Rightarrow> assignment \<Rightarrow> int \<Rightarrow> nat \<Rightarrow> alloc_info list \<Rightarrow> domain_plan \<Rightarrow> placement list \<Rightarrow> ir \<Rightarrow> bool" where
  "domain_placed fit \<rho> al d allocs plan pls s \<longleftrightarrow> map pl_info pls = allocs \<and>
     (\<exists>p sz. (p, Get_pool (Arg 0) sz d) \<in> set (ir_block s) \<and>
        (fit \<longrightarrow> consistent \<rho> s \<longrightarrow> \<rho> sz = of_nat (pool_total \<rho> al plan)) \<and>
        (\<forall>pl \<in> set pls. view_placed s pl \<and> pl_domain pl = d \<and> pl_pool pl = Res p 0 \<and>
           (\<exists>n. (pl_info pl, n) \<in> set (pool_entries \<rho> al plan) \<and>
              (fit \<longrightarrow> consistent \<rho> s \<longrightarrow> \<rho> (pl_offset pl) = of_nat n))))"

lemma domain_placed_carries:
  assumes "domain_placed fit \<rho> al d allocs plan pls s" and C: "carries R s s'"
  shows "domain_placed fit \<rho> al d allocs plan pls s'"
proof -
  obtain p sz where m: "map pl_info pls = allocs" and p: "(p, Get_pool (Arg 0) sz d) \<in> set (ir_block s)"
    and sz: "fit \<longrightarrow> consistent \<rho> s \<longrightarrow> \<rho> sz = of_nat (pool_total \<rho> al plan)"
    and pls: "\<forall>pl \<in> set pls. view_placed s pl \<and> pl_domain pl = d \<and> pl_pool pl = Res p 0 \<and>
       (\<exists>n. (pl_info pl, n) \<in> set (pool_entries \<rho> al plan) \<and>
          (fit \<longrightarrow> consistent \<rho> s \<longrightarrow> \<rho> (pl_offset pl) = of_nat n))"
    using assms(1) unfolding domain_placed_def by blast
  have earlier: "consistent \<rho> s' \<Longrightarrow> consistent \<rho> s"
    using C by (simp add: carries_def)
  have "(p, Get_pool (Arg 0) sz d) \<in> set (ir_block s')"
    using C p unfolding carries_def by blast
  moreover have "\<forall>pl \<in> set pls. view_placed s' pl"
    using pls view_placed_carries [OF _ C] by blast
  ultimately show ?thesis
    using m sz pls earlier unfolding domain_placed_def by metis
qed

lemma emit_domain_ok:
  assumes fo: "folder_ok fo" and P: "planned al lt srt allocs plan" and s: "domain_ready s allocs"
    and fit: "fit \<Longrightarrow> pool_total \<rho> al plan + nat al \<le> size_limit"
  shows "\<exists>pls s'. emit_domain fo al (Arg 0) d allocs plan s = Inr (pls, s') \<and>
    carries (ids s - ai_def ` set allocs) s s' \<and> (\<forall>i \<in> set allocs. ai_def i \<notin> ids s') \<and>
    domain_placed fit \<rho> al d allocs plan pls s'"
proof -
  let ?A = "map ai_def allocs" and ?p = "pd_dyn plan"
  have A: "above_ok s ?A" and wf: "wf_ir s" and ne: "allocs \<noteq> []" and sub: "set ?A \<subseteq> ids s"
    using s by (auto simp: domain_ready_def above_ok_def)
  note al = plannedD(1,2) [OF P]
  have fits: "fit \<Longrightarrow> plan_fits \<rho> al plan"
    using fit planned_fits [OF P] by blast
  have usable_key: "usable_above s ?A (dyn_key i)" if "i \<in> set (dynamics_of allocs)" for i
    using s that dyn_key_subset [of i] by (auto simp: domain_ready_def usable_above_def dynamics_of_def)
  have "\<forall>g \<in> set (dp_groups ?p). usable_above s ?A (dg_dyn g)"
  proof
    fix g assume g: "g \<in> set (dp_groups ?p)"
    show "usable_above s ?A (dg_dyn g)"
    proof (cases "dg_assignments g")
      case Nil
      then show ?thesis
        using group_nonempty [OF P g] by simp
    next
      case (Cons e es)
      then have "fst e \<in> set (dynamics_of allocs)" "dyn_key (fst e) = dg_dyn g"
        using planned_members(2) [OF P g, of e] planned_dyn_ok [OF P] g
        by (auto simp: dyn_packing_ok_def group_ok_def)
      then show ?thesis
        using usable_key by metis
    qed
  qed
  from group_factors_ok [OF fo A this, of fit \<rho>] obtain fs s1 where
    fs: "emit_group_factors fo ?A s (dp_groups ?p) = Inr (fs, s1)" "grown s s1"
      "list_all2 (has_above fit \<rho> s1 ?A) fs (map (\<lambda>g. dyn_prod \<rho> (dg_dyn g)) (dp_groups ?p))"
    by blast
  have A1: "above_ok s1 ?A"
    by (rule above_ok_grown [OF A fs(2)])
  have "\<forall>b \<in> set (dp_buckets ?p). usable_above s1 ?A (db_dyn b) \<and> 0 \<le> db_factor b \<and>
      (fit \<longrightarrow> nat (db_factor b) * dyn_prod \<rho> (db_dyn b) + nat al \<le> size_limit)"
  proof
    fix b assume b: "b \<in> set (dp_buckets ?p)"
    note B = planned_bucket [OF P b]
    obtain i where i: "i \<in> set (concat (db_bins b))"
      using bucket_has_member [OF B(1,2)] .
    have "alloc_key i = bucket_key b"
      using B(1) i unfolding bucket_ok_def by blast
    then have "usable_above s ?A (db_dyn b)"
      using usable_key [OF planned_members(3) [OF P b i]] by (simp add: alloc_key_def bucket_key_def)
    then show "usable_above s1 ?A (db_dyn b) \<and> 0 \<le> db_factor b \<and>
      (fit \<longrightarrow> nat (db_factor b) * dyn_prod \<rho> (db_dyn b) + nat al \<le> size_limit)"
      using usable_above_grown [OF _ A fs(2)] B(3) fits b by (simp add: plan_fits_def)
  qed
  from bucket_sizes_ok [OF fo al A1 this] obtain szs s2 where
    szs: "emit_bucket_sizes fo ?A al s1 (dp_buckets ?p) = Inr (szs, s2)" "grown s1 s2"
      "list_all2 (has_above fit \<rho> s2 ?A) szs (map (bucket_size \<rho> al) (dp_buckets ?p))"
    by blast
  have A2: "above_ok s2 ?A"
    by (rule above_ok_grown [OF A1 szs(2)])
  have fs2: "list_all2 (has_above fit \<rho> s2 ?A) fs (map (\<lambda>g. dyn_prod \<rho> (dg_dyn g)) (dp_groups ?p))"
    by (rule has_above_all_grown [OF fs(3) A1 szs(2)])
  have "usable_above s2 ?A (fs @ szs)"
    using fs2 szs(3) list_all2_memD unfolding usable_above_def set_append
    by (metis (no_types, lifting) Un_iff has_above_def has_def)
  from seek_ok [OF A2 this] obtain b where
    b: "find_latest_legal_insertion_point (ir_block s2) (block_defs (ir_block s2) (fs @ szs)) ?A = Some (Before b)"
      "ready s2 b" "\<forall>v \<in> set (fs @ szs). usable s2 b v"
      "\<forall>a \<in> set ?A. op_pos (ir_block s2) b \<le> op_pos (ir_block s2) a"
    by blast
  have at_b: "list_all2 (has fit \<rho> s2 b) vs ns"
    if "list_all2 (has_above fit \<rho> s2 ?A) vs ns" "set vs \<subseteq> set (fs @ szs)" for vs ns
  proof (rule list_all2_all_nthI)
    show "length vs = length ns"
      using that(1) by (rule list_all2_lengthD)
    fix k assume k: "k < length vs"
    then have "has_above fit \<rho> s2 ?A (vs ! k) (ns ! k)"
      using that(1) by (simp add: list_all2_conv_all_nth)
    then have "fit \<longrightarrow> consistent \<rho> s2 \<longrightarrow> \<rho> (vs ! k) = of_nat (ns ! k)"
      using ne by (cases allocs) (auto simp: has_above_def has_def)
    moreover have "usable s2 b (vs ! k)"
      using b(3) that(2) nth_mem [OF k] by blast
    ultimately show "has fit \<rho> s2 b (vs ! k) (ns ! k)"
      by (simp add: has_def)
  qed
  obtain pool psz offs s3 where ep:
      "emit_pool fo s2 (Before b) al (Arg 0) d plan fs szs = ((pool, psz, offs), s3)"
    by (metis prod.collapse)
  note E = emit_pool_ok [OF fo b(2) planned_ok [OF P] fits refl at_b [OF fs2] at_b [OF szs(3)] ep]
  have E1: "grown s2 s3" and E2: "available (ir_block s3) (Before b) pool"
    and E4: "has fit \<rho> s3 b psz (pool_total \<rho> al plan)"
    and E5: "offsets_for fit \<rho> s3 b offs (rev (pool_entries \<rho> al plan))"
    using E by auto
  obtain p where p: "pool = Res p 0" "(p, Get_pool (Arg 0) psz d) \<in> set (ir_block s3)"
    using E(3) by auto
  have g3: "grown s s3"
    by (rule grown_trans [OF grown_trans [OF fs(2) szs(2)] E1])
  have A3: "above_ok s3 ?A"
    by (rule above_ok_grown [OF A2 E1])
  have order3: "op_pos (ir_block s3) b \<le> op_pos (ir_block s3) (ai_def i)" if "i \<in> set allocs" for i
    using b(4) that A2 grown_order [OF E1, of "ai_def i" b] by (auto simp: above_ok_def)
  have offset: "\<exists>v n. map_of offs (ai_def i) = Some v \<and> (i, n) \<in> set (pool_entries \<rho> al plan) \<and>
      has fit \<rho> s3 b v n" if "i \<in> set allocs" for i
    using offset_of_alloc [OF E5 pool_entries_members [OF P] _ that] P
    by (simp add: planned_def allocs_ok_def)
  have rep: "\<forall>i \<in> set allocs. replaceable s3 p offs i"
  proof
    fix i assume i: "i \<in> set allocs"
    have "(ai_def i, Alloc (ai_type i) (ai_dyn i)) \<in> set (ir_block s3)"
      using s i g3 by (auto simp: domain_ready_def grown_def extends_def)
    moreover have "available (ir_block s3) (Before (ai_def i)) (Res p 0)"
      using E2 order3 [OF i] p(1) by (simp add: available_def)
    ultimately show "replaceable s3 p offs i"
      using offset [OF i] usable_later [OF _ order3 [OF i]] by (auto simp: replaceable_def has_def)
  qed
  obtain pls s4 where pv: "place_views d (Res p 0) offs s3 allocs = (pls, s4)"
    by (metis prod.collapse)
  have d: "distinct (map ai_def allocs)"
    using P by (simp add: planned_def allocs_ok_def)
  note V = place_views_ok [OF _ d rep p(2) pv]
  have wf3: "wf_ir s3"
    using A3 by (simp add: above_ok_def)
  have C4: "carries (ids s3 - ai_def ` set allocs) s3 s4"
    using V wf3 by blast
  have C: "carries (ids s - ai_def ` set allocs) s s4"
  proof (rule carries_trans)
    show "carries (ids s) s s3"
      by (rule grown_carries [OF wf g3 order_refl])
    show "carries (ids s - ai_def ` set allocs) s3 s4"
      using grown_ids [OF g3] by (intro carries_subset [OF C4]) blast
  qed blast
  have earlier: "consistent \<rho> s4 \<Longrightarrow> consistent \<rho> s3"
    using C4 by (simp add: carries_def)
  have "domain_placed fit \<rho> al d allocs plan pls s4"
    unfolding domain_placed_def
  proof (rule conjI, goal_cases)
    case 1
    show "map pl_info pls = allocs"
      using V wf3 by blast
  next
    case 2
    show ?case
    proof (rule exI [of _ p], rule exI [of _ psz], intro conjI ballI)
    show "(p, Get_pool (Arg 0) psz d) \<in> set (ir_block s4)"
      using C4 p(2) unfolding carries_def by blast
    show "fit \<longrightarrow> consistent \<rho> s4 \<longrightarrow> \<rho> psz = of_nat (pool_total \<rho> al plan)"
      using E4 earlier by (simp add: has_def)
    fix pl assume pl: "pl \<in> set pls"
    then show "view_placed s4 pl" and "pl_domain pl = d" and "pl_pool pl = Res p 0"
      using V wf3 by blast+
    have off: "map_of offs (ai_def (pl_info pl)) = Some (pl_offset pl)"
      using V wf3 pl by blast
    have "pl_info pl \<in> set (map pl_info pls)"
      using pl by simp
    then have "pl_info pl \<in> set allocs"
      using V wf3 by simp
    then show "\<exists>n. (pl_info pl, n) \<in> set (pool_entries \<rho> al plan) \<and>
        (fit \<longrightarrow> consistent \<rho> s4 \<longrightarrow> \<rho> (pl_offset pl) = of_nat n)"
      using offset [of "pl_info pl"] off earlier by (auto simp: has_def)
    qed
  qed
  moreover have "emit_domain fo al (Arg 0) d allocs plan s = Inr (pls, s4)"
    using planned_nonempty [OF P ne] fs(1) szs(1) b(1) ep pv p(1)
    by (auto simp: emit_domain_def Let_def)
  moreover have "\<forall>i \<in> set allocs. ai_def i \<notin> ids s4"
    using V wf3 by blast
  ultimately show ?thesis
    using C by blast
qed

section \<open>All domains\<close>

lemma domain_ready_carries:
  assumes "domain_ready s allocs" and "carries R s s'" and "ai_def ` set allocs \<subseteq> R"
  shows "domain_ready s' allocs"
proof -
  have C: "wf_ir s'" "R \<subseteq> ids s'" "\<forall>b \<in> R. \<forall>v. usable s b v \<longrightarrow> usable s' b v"
    "\<forall>b \<in> R. \<forall>t dyn. (b, Alloc t dyn) \<in> set (ir_block s) \<longrightarrow> (b, Alloc t dyn) \<in> set (ir_block s')"
    using assms(2) unfolding carries_def by blast+
  have A: "above_ok s (map ai_def allocs)" and all: "\<forall>i \<in> set allocs.
      usable_above s (map ai_def allocs) (ai_dyn i) \<and>
      (ai_def i, Alloc (ai_type i) (ai_dyn i)) \<in> set (ir_block s)"
    using assms(1) unfolding domain_ready_def by blast+
  have mem: "ai_def i \<in> R" if "i \<in> set allocs" for i
    using assms(3) that by blast
  have "above_ok s' (map ai_def allocs)"
    using A C(1,2) assms(3) by (auto simp: above_ok_def)
  moreover have "usable_above s' (map ai_def allocs) (ai_dyn i)" if "i \<in> set allocs" for i
    using all that C(3) mem unfolding usable_above_def set_map by blast
  moreover have "(ai_def i, Alloc (ai_type i) (ai_dyn i)) \<in> set (ir_block s')" if "i \<in> set allocs" for i
    using all that C(4) mem by blast
  ultimately show ?thesis
    unfolding domain_ready_def by blast
qed

lemma domain_ready_ids: "domain_ready s allocs \<Longrightarrow> i \<in> set allocs \<Longrightarrow> ai_def i \<in> ids s"
  by (auto simp: domain_ready_def above_ok_def)

lemma emit_domains_ok:
  assumes fo: "folder_ok fo" and srt: "sort_ok srt" and al: "0 < al" "al < 2 ^ 63"
  shows "wf_ir s \<Longrightarrow> \<forall>D \<in> set doms. domain_ready s D \<and> allocs_ok D \<and>
      (fit \<longrightarrow> pool_total \<rho> al (plan_domain srt al lt D) + nat al \<le> size_limit) \<Longrightarrow>
    distinct (map ai_def (concat doms)) \<Longrightarrow>
    \<exists>plss s'. emit_domains fo srt al lt (Arg 0) d doms s =
        Inr (map (\<lambda>D. pd_static_size (plan_domain srt al lt D)) doms, concat plss, s') \<and>
      carries (ids s - ai_def ` set (concat doms)) s s' \<and>
      (\<forall>i \<in> set (concat doms). ai_def i \<notin> ids s') \<and>
      length plss = length doms \<and>
      (\<forall>k < length doms. domain_placed fit \<rho> al (d + k) (doms ! k)
         (plan_domain srt al lt (doms ! k)) (plss ! k) s')"
proof (induction doms arbitrary: s d)
  case Nil
  then show ?case
    using grown_carries [OF _ grown_refl] by auto
next
  case (Cons D doms)
  let ?plan = "plan_domain srt al lt D" and ?R = "ids s - ai_def ` set D"
  have P: "planned al lt srt D ?plan"
    using Cons.prems al srt by (simp add: planned_def)
  have "domain_ready s D" and "fit \<Longrightarrow> pool_total \<rho> al ?plan + nat al \<le> size_limit"
    using Cons.prems(2) by simp_all
  from emit_domain_ok [OF fo P this, where d = d] obtain pls s1 where
    e: "emit_domain fo al (Arg 0) d D ?plan s = Inr (pls, s1)" "carries ?R s s1"
      "\<forall>i \<in> set D. ai_def i \<notin> ids s1" "domain_placed fit \<rho> al d D ?plan pls s1"
    by blast
  have disj: "ai_def ` set D \<inter> ai_def ` set (concat doms) = {}"
    using Cons.prems(3) by (simp only: concat.simps map_append distinct_append set_map)
  have sub: "ai_def ` set (concat doms) \<subseteq> ?R"
  proof
    fix a assume "a \<in> ai_def ` set (concat doms)"
    then obtain E i where "E \<in> set doms" "i \<in> set E" "a = ai_def i"
      by auto
    then show "a \<in> ?R"
      using Cons.prems(2) disj domain_ready_ids [of s E i] by auto
  qed
  have "\<forall>E \<in> set doms. domain_ready s1 E \<and> allocs_ok E \<and>
      (fit \<longrightarrow> pool_total \<rho> al (plan_domain srt al lt E) + nat al \<le> size_limit)"
  proof
    fix E assume E: "E \<in> set doms"
    then have "ai_def ` set E \<subseteq> ?R"
      using sub by auto
    then show "domain_ready s1 E \<and> allocs_ok E \<and>
      (fit \<longrightarrow> pool_total \<rho> al (plan_domain srt al lt E) + nat al \<le> size_limit)"
      using Cons.prems(2) E domain_ready_carries [OF _ e(2)] by simp
  qed
  moreover have "wf_ir s1"
    using e(2) by (simp add: carries_def)
  moreover have "distinct (map ai_def (concat doms))"
    using Cons.prems(3) by simp
  ultimately obtain plss s' where
    r: "emit_domains fo srt al lt (Arg 0) (Suc d) doms s1 =
        Inr (map (\<lambda>D. pd_static_size (plan_domain srt al lt D)) doms, concat plss, s')"
      "carries (ids s1 - ai_def ` set (concat doms)) s1 s'"
      "\<forall>i \<in> set (concat doms). ai_def i \<notin> ids s'" "length plss = length doms"
      "\<forall>k < length doms. domain_placed fit \<rho> al (Suc d + k) (doms ! k)
         (plan_domain srt al lt (doms ! k)) (plss ! k) s'"
    using Cons.IH [of s1 "Suc d"] by blast
  have C: "carries (ids s - ai_def ` set (concat (D # doms))) s s'"
  proof (rule carries_trans [OF e(2)])
    show "carries (ids s - ai_def ` set (concat (D # doms))) s1 s'"
      using e(2) by (intro carries_subset [OF r(2)]) (auto simp: carries_def)
  qed auto
  have gone: "ai_def i \<notin> ids s'" if i: "i \<in> set D" for i
  proof -
    have "ai_def i \<in> ids s"
      using Cons.prems(2) i by (auto simp: domain_ready_def above_ok_def)
    then have "ai_def i < ir_next s1"
      using wf_ir_ids_less [OF Cons.prems(1)] e(2) by (fastforce simp: carries_def)
    then show ?thesis
      using r(2) e(3) i by (auto simp: carries_def)
  qed
  have placed: "domain_placed fit \<rho> al (d + k) ((D # doms) ! k)
      (plan_domain srt al lt ((D # doms) ! k)) ((pls # plss) ! k) s'" if "k < length (D # doms)" for k
    using that r(5) domain_placed_carries [OF e(4) r(2)] by (cases k) auto
  have "emit_domains fo srt al lt (Arg 0) d (D # doms) s =
      Inr (map (\<lambda>D. pd_static_size (plan_domain srt al lt D)) (D # doms), concat (pls # plss), s')"
    using e(1) r(1) by (simp add: Let_def)
  then show ?case
    using C gone placed r(3,4) by (intro exI [of _ "pls # plss"] exI [of _ s']) auto
qed

end
