(* ===== verification/Pool_Pass.thy ===== *)
theory Pool_Pass
  imports Pool_Correct
begin

text \<open>
  The properties of \<open>PoolAllocsPass::runOnOperation\<close>: which inputs it rejects, that it
  replaces every pooled allocation by a view of its domain's pool, that the block stays in
  SSA form, and that the views are placed safely.
\<close>

section \<open>The input\<close>

definition pass_input_ok ::
  "folder \<Rightarrow> (alloc_info list \<Rightarrow> alloc_info list) \<Rightarrow> int \<Rightarrow> func_op \<Rightarrow> ir_op list \<Rightarrow> bool" where
  "pass_input_ok fo srt al fn ops \<longleftrightarrow> folder_ok fo \<and> sort_ok srt \<and> alignment_ok al \<and> al < 2 ^ 63 \<and>
     fn_context fn \<and> fn_blocks fn = [ops] \<and> wf_ir (initial_ir ops) \<and>
     (\<forall>op \<in> set ops. case op of Alloc t dyn \<Rightarrow> type_ok t | _ \<Rightarrow> True)"

definition pooled_allocs :: "(val \<Rightarrow> val list) \<Rightarrow> ir_op list \<Rightarrow> alloc_info list" where
  "pooled_allocs resolve ops = collect_allocs resolve (ir_block (initial_ir ops))"

definition pass_domains :: "(val \<Rightarrow> val list) \<Rightarrow> ir_op list \<Rightarrow> alloc_info list list" where
  "pass_domains resolve ops =
     partition_by_dominance_domain (ir_block (initial_ir ops)) (pooled_allocs resolve ops)"

definition sizes_fit ::
  "assignment \<Rightarrow> (val \<Rightarrow> val list) \<Rightarrow> (alloc_info list \<Rightarrow> alloc_info list) \<Rightarrow> int \<Rightarrow> bool \<Rightarrow> ir_op list \<Rightarrow> bool" where
  "sizes_fit \<rho> resolve srt al lt ops \<longleftrightarrow> (\<forall>D \<in> set (pass_domains resolve ops).
     pool_total \<rho> al (plan_domain srt al lt D) + nat al \<le> size_limit)"

lemma initial_fst: "map fst (ir_block (initial_ir ops)) = [0..<length ops]"
  by (simp add: initial_ir_def)

lemma initial_ids: "ids (initial_ir ops) = {..<length ops}"
proof -
  have "ids (initial_ir ops) = set (map fst (ir_block (initial_ir ops)))"
    by (simp add: ids_def)
  then show ?thesis
    by (simp add: initial_fst atLeast0LessThan)
qed

lemma initial_pos: "a < length ops \<Longrightarrow> op_pos (ir_block (initial_ir ops)) a = a"
  using op_pos_at [of "ir_block (initial_ir ops)" a]
  by (simp add: initial_fst) (simp add: initial_ir_def)

lemma initial_mem: "x \<in> set (ir_block (initial_ir ops)) \<Longrightarrow> fst x < length ops \<and> snd x = ops ! fst x"
  by (auto simp: initial_ir_def set_zip)

lemma collect_alloc_cases:
  assumes "i \<in> set (collect_alloc resolve blk x)"
  shows "\<exists>t dyn. snd x = Alloc t dyn \<and> ai_type i = t \<and> ai_dyn i = dyn \<and> ai_def i = op_pos blk (fst x) \<and>
    ai_bytes i = get_static_byte_size t"
  using assms by (auto simp: collect_alloc_def split: ir_op.splits if_splits)

lemma pooled_alloc:
  assumes "i \<in> set (pooled_allocs resolve ops)"
  shows "(ai_def i, Alloc (ai_type i) (ai_dyn i)) \<in> set (ir_block (initial_ir ops))"
    and "ai_def i < length ops" and "ai_bytes i = get_static_byte_size (ai_type i)"
proof -
  obtain x where x: "x \<in> set (ir_block (initial_ir ops))"
    "i \<in> set (collect_alloc resolve (ir_block (initial_ir ops)) x)"
    using assms by (auto simp: pooled_allocs_def collect_allocs_def)
  have def: "ai_def i = fst x"
    using collect_alloc_cases [OF x(2)] initial_pos initial_mem [OF x(1)] by auto
  then show "(ai_def i, Alloc (ai_type i) (ai_dyn i)) \<in> set (ir_block (initial_ir ops))"
    using collect_alloc_cases [OF x(2)] x(1) by (cases x) auto
  show "ai_def i < length ops" and "ai_bytes i = get_static_byte_size (ai_type i)"
    using def initial_mem [OF x(1)] collect_alloc_cases [OF x(2)] by auto
qed

lemma pooled_sorted: "sorted_wrt (\<lambda>i j. ai_def i < ai_def j) (pooled_allocs resolve ops)"
proof -
  let ?blk = "ir_block (initial_ir ops)"
  have "sorted_wrt (\<lambda>i j. ai_def i < ai_def j) (concat (map (collect_alloc resolve ?blk) xs)) \<and>
      (\<forall>i \<in> set (concat (map (collect_alloc resolve ?blk) xs)). ai_def i \<in> fst ` set xs)"
    if "sorted_wrt (<) (map fst xs)" "set xs \<subseteq> set ?blk" for xs
    using that
  proof (induction xs)
    case (Cons x xs)
    have ih: "sorted_wrt (\<lambda>i j. ai_def i < ai_def j) (concat (map (collect_alloc resolve ?blk) xs))"
      "\<forall>i \<in> set (concat (map (collect_alloc resolve ?blk) xs)). ai_def i \<in> fst ` set xs"
      using Cons by simp_all
    have x: "fst x < length ops"
      using Cons.prems(2) initial_mem by auto
    have fx: "ai_def i = fst x" if "i \<in> set (collect_alloc resolve ?blk x)" for i
      using collect_alloc_cases [OF that] initial_pos [OF x] by auto
    have "length (collect_alloc resolve ?blk x) \<le> 1"
      by (auto simp: collect_alloc_def split: ir_op.splits)
    then have single: "sorted_wrt (\<lambda>i j. ai_def i < ai_def j) (collect_alloc resolve ?blk x)"
      by (cases "collect_alloc resolve ?blk x") auto
    have "\<forall>i \<in> set (collect_alloc resolve ?blk x).
        \<forall>j \<in> set (concat (map (collect_alloc resolve ?blk) xs)). ai_def i < ai_def j"
      using fx ih(2) Cons.prems(1) by fastforce
    then show ?case
      using single ih fx by (simp add: sorted_wrt_append) blast
  qed simp
  then show ?thesis
    using initial_fst [of ops] by (simp add: pooled_allocs_def collect_allocs_def)
qed

lemma pooled_distinct: "distinct (map ai_def (pooled_allocs resolve ops))"
  using pooled_sorted [of resolve ops] by (simp add: sorted_wrt_map [symmetric] strict_sorted_iff)

lemma pooled_alloc_in:
  assumes wf: "wf_ir (initial_ir ops)" and i: "i \<in> set (pooled_allocs resolve ops)"
  shows "alloc_in (ir_block (initial_ir ops)) i"
proof -
  note I = pooled_alloc [OF i]
  have "is_before (ir_block (initial_ir ops)) a (ai_def i)"
    if a: "a \<in> set (block_defs (ir_block (initial_ir ops)) (ai_dyn i))" for a
  proof -
    obtain k where "Res a k \<in> set (ai_dyn i)"
      using a unfolding block_defs_iff by blast
    then have "available (ir_block (initial_ir ops)) (Before (ai_def i)) (Res a k)"
      using wf_ir_available [OF wf I(1)] by simp
    then show ?thesis
      by (simp add: available_def is_before_def)
  qed
  then show ?thesis
    using initial_pos [OF I(2)] I(2) by (simp add: alloc_in_def defs_before_def defs_of_def initial_fst)
qed

section \<open>The domains are ready to be emitted\<close>

lemma pass_domains_ok:
  assumes "wf_ir (initial_ir ops)"
  shows "mset (concat (pass_domains resolve ops)) = mset (pooled_allocs resolve ops)"
    and "distinct (map ai_def (concat (pass_domains resolve ops)))"
    and "domains_ok (ir_block (initial_ir ops)) (pass_domains resolve ops)"
proof -
  have ins: "\<forall>i \<in> set (pooled_allocs resolve ops). alloc_in (ir_block (initial_ir ops)) i"
    using pooled_alloc_in [OF assms] by blast
  note P = partition_ok [OF pooled_distinct ins, folded pass_domains_def]
  show "mset (concat (pass_domains resolve ops)) = mset (pooled_allocs resolve ops)"
    by (rule P(2))
  have "mset (map ai_def (concat (pass_domains resolve ops))) = mset (map ai_def (pooled_allocs resolve ops))"
    using P(2) by (metis mset_map)
  then show "distinct (map ai_def (concat (pass_domains resolve ops)))"
    using pooled_distinct mset_eq_imp_distinct_iff by blast
  show "domains_ok (ir_block (initial_ir ops)) (pass_domains resolve ops)"
    by (rule P(1))
qed

lemma pass_domain_ready:
  assumes wf: "wf_ir (initial_ir ops)"
    and ty: "\<forall>op \<in> set ops. case op of Alloc t dyn \<Rightarrow> type_ok t | _ \<Rightarrow> True"
    and D: "D \<in> set (pass_domains resolve ops)"
  shows "domain_ready (initial_ir ops) D" and "allocs_ok D"
proof -
  let ?s = "initial_ir ops" and ?blk = "ir_block (initial_ir ops)"
  note P = pass_domains_ok [OF wf, of resolve]
  have mem: "i \<in> set (pooled_allocs resolve ops)" if "i \<in> set D" for i
    using mset_eq_setD [OF P(1)] D that by auto
  have feas: "D \<noteq> []" "domain_feasible ?blk D"
    using P(3) D by (simp_all add: domains_ok_def)
  have "above_ok ?s (map ai_def D)"
    using wf feas(1) pooled_alloc(2) [OF mem] by (auto simp: above_ok_def initial_ids)
  moreover have "usable_above ?s (map ai_def D) (ai_dyn i)" if i: "i \<in> set D" for i
    unfolding usable_above_def usable_def
  proof (intro ballI conjI)
    fix v a
    assume v: "v \<in> set (ai_dyn i)" and "a \<in> set (map ai_def D)"
    then obtain j where j: "j \<in> set D" "a = ai_def j"
      by auto
    note I = pooled_alloc(1) [OF mem [OF i]]
    show "index_value ?s v"
      using wf I v by (force simp: wf_ir_def op_typed_def)
    have before: "defs_before ?blk i j"
      using feas i j(1) by (simp add: domain_feasible_iff)
    show "available ?blk (Before a) v"
    proof (cases v)
      case (Res d k)
      have "available ?blk (Before (ai_def i)) (Res d k)"
        using wf_ir_available [OF wf I] v Res by simp
      then have "d \<in> ids ?s"
        using available_ids set_ids [OF I] by simp
      then have "d \<in> set (block_defs ?blk (ai_dyn i))"
        unfolding block_defs_iff using v Res by (auto simp: ids_def)
      then show ?thesis
        using before j(2) Res by (simp add: defs_before_def defs_of_def is_before_def available_def Suc_le_eq)
    qed (simp add: available_def)
  qed
  ultimately show "domain_ready ?s D"
    using pooled_alloc(1) [OF mem] by (simp add: domain_ready_def)
  have "distinct (map ai_def D)"
    using P(2) D by (metis distinct_concat_iff distinct_map in_set_conv_decomp concat_append
        concat.simps(2) map_append distinct_append)
  moreover have "type_ok (ai_type i)" if "i \<in> set D" for i
  proof -
    have "ops ! ai_def i = Alloc (ai_type i) (ai_dyn i)"
      using initial_mem [OF pooled_alloc(1) [OF mem [OF that]]] by simp
    then show ?thesis
      using ty nth_mem [OF pooled_alloc(2) [OF mem [OF that]]] by force
  qed
  ultimately show "allocs_ok D"
    using pooled_alloc(3) [OF mem] by (simp add: allocs_ok_def)
qed

section \<open>Erasing the deallocations of views\<close>

lemma filter_pos:
  assumes "a \<in> K" and "b \<in> K" and "op_pos blk a < op_pos blk b"
  shows "op_pos (filter (\<lambda>x. fst x \<in> K) blk) a < op_pos (filter (\<lambda>x. fst x \<in> K) blk) b"
  using assms(3)
proof (induction blk)
  case (Cons x blk)
  then show ?case
    using assms(1,2) by (auto simp: op_pos_Cons split: if_splits)
qed simp

lemma ssa_okI:
  assumes "distinct (map fst blk)"
    and "\<And>b op v. (b, op) \<in> set blk \<Longrightarrow> v \<in> set (operands op) \<Longrightarrow> val_pos blk v \<le> op_pos blk b"
  shows "ssa_ok blk"
  unfolding ssa_ok_def
proof (intro conjI allI impI ballI)
  fix i v assume i: "i < length blk" and v: "v \<in> set (operands (snd (blk ! i)))"
  have "(fst (blk ! i), snd (blk ! i)) \<in> set blk"
    using i by simp
  then have "val_pos blk v \<le> op_pos blk (fst (blk ! i))"
    using v by (rule assms(2))
  then show "val_pos blk v \<le> i"
    using op_pos_at [OF assms(1) i] by simp
qed (rule assms(1))

lemma map_of_filter_keys: "d \<in> K \<Longrightarrow> map_of (filter (\<lambda>x. fst x \<in> K) blk) d = map_of blk d"
  by (induction blk) auto

lemma operand_defined:
  assumes wf: "wf_ir s" and op: "(b, op) \<in> set (ir_block s)" and v: "Res d k \<in> set (operands op)"
  shows "d \<in> ids s"
  using available_ids [of b s d k] set_ids [OF op] wf_ir_available [OF wf op v] by simp

lemma operand_kept:
  assumes wf: "wf_ir s" and op: "(b, op) \<in> set (ir_block s)" and v: "Res d k \<in> set (operands op)"
    and K: "\<And>x. x \<in> set (ir_block s) \<Longrightarrow> fst x \<notin> K \<Longrightarrow> \<exists>v. snd x = Dealloc v"
  shows "d \<in> K"
proof (rule ccontr)
  assume "d \<notin> K"
  obtain dop where dop: "(d, dop) \<in> set (ir_block s)"
    using operand_defined [OF wf op v] by (auto simp: ids_def)
  obtain m where "dop = Dealloc m"
    using K [OF dop] \<open>d \<notin> K\<close> by auto
  then have "\<not> has_result s (Res d k)"
    using wf_ir_map_of [OF wf dop] by (simp add: has_result_def)
  moreover have "op_typed s op"
    using wf op by (force simp: wf_ir_def)
  ultimately show False
    using v by (simp add: op_typed_def)
qed

lemma erase_typed:
  assumes wf: "wf_ir s" and op: "(b, op) \<in> set (ir_block s)"
    and K: "\<And>x. x \<in> set (ir_block s) \<Longrightarrow> fst x \<notin> K \<Longrightarrow> \<exists>v. snd x = Dealloc v"
  shows "op_typed (s\<lparr>ir_block := filter (\<lambda>x. fst x \<in> K) (ir_block s)\<rparr>) op"
proof -
  let ?s = "s\<lparr>ir_block := filter (\<lambda>x. fst x \<in> K) (ir_block s)\<rparr>"
  have ty: "op_typed s op"
    using wf op by (force simp: wf_ir_def)
  have same: "index_value ?s v = index_value s v \<and> has_result ?s v = has_result s v"
    if v: "v \<in> set (operands op)" for v
  proof (cases v)
    case (Res d k)
    then have "d \<in> K"
      using operand_kept [OF wf op _ K] v by blast
    then show ?thesis
      using Res by (simp add: index_value_def has_result_def map_of_filter_keys)
  qed (simp add: index_value_def has_result_def)
  show ?thesis
    unfolding op_typed_def
  proof (intro conjI ballI)
    fix v assume v: "v \<in> set (index_operands op)"
    then show "index_value ?s v"
      using same [of v] ty index_operands_subset [of op] by (auto simp: op_typed_def)
  next
    fix v assume v: "v \<in> set (operands op)"
    then show "has_result ?s v"
      using same [OF v] ty by (simp add: op_typed_def)
  qed
qed

lemma erase_ssa:
  assumes wf: "wf_ir s"
    and K: "\<And>x. x \<in> set (ir_block s) \<Longrightarrow> fst x \<notin> K \<Longrightarrow> \<exists>v. snd x = Dealloc v"
  shows "ssa_ok (filter (\<lambda>x. fst x \<in> K) (ir_block s))"
proof (rule ssa_okI)
  show "distinct (map fst (filter (\<lambda>x. fst x \<in> K) (ir_block s)))"
    using wf_ir_distinct [OF wf] by (rule distinct_map_filter)
next
  fix b op v
  assume "(b, op) \<in> set (filter (\<lambda>x. fst x \<in> K) (ir_block s))" and v: "v \<in> set (operands op)"
  then have bs: "(b, op) \<in> set (ir_block s)" and bK: "b \<in> K"
    by simp_all
  have av: "available (ir_block s) (Before b) v"
    by (rule wf_ir_available [OF wf bs v])
  show "val_pos (filter (\<lambda>x. fst x \<in> K) (ir_block s)) v \<le> op_pos (filter (\<lambda>x. fst x \<in> K) (ir_block s)) b"
  proof (cases v)
    case (Res d k)
    then have "d \<in> K"
      using operand_kept [OF wf bs _ K] v by blast
    moreover have "op_pos (ir_block s) d < op_pos (ir_block s) b"
      using av Res by (simp add: available_def Suc_le_eq)
    ultimately show ?thesis
      using filter_pos [OF _ bK] Res by (simp add: Suc_le_eq)
  qed simp
qed

lemma erase_wf:
  assumes wf: "wf_ir s"
    and K: "\<And>x. x \<in> set (ir_block s) \<Longrightarrow> fst x \<notin> K \<Longrightarrow> \<exists>v. snd x = Dealloc v"
  shows "wf_ir (s\<lparr>ir_block := filter (\<lambda>x. fst x \<in> K) (ir_block s)\<rparr>)"
proof -
  have "op_typed (s\<lparr>ir_block := filter (\<lambda>x. fst x \<in> K) (ir_block s)\<rparr>) (snd x)"
    if x: "x \<in> set (ir_block s)" for x
    using erase_typed [OF wf, of "fst x" "snd x" K] K x by simp
  moreover have "\<forall>a \<in> set (map fst (ir_block s)). a < ir_next s"
    using wf by (simp add: wf_ir_def)
  ultimately show ?thesis
    using erase_ssa [OF wf K] by (auto simp: wf_ir_def)
qed

definition kept_ids :: "ir \<Rightarrow> nat set" where
  "kept_ids s = fst ` {x \<in> set (ir_block s). case snd x of Dealloc v \<Rightarrow> \<not> view_defined s v | _ \<Rightarrow> True}"

lemma erase_view_deallocs_eq:
  assumes "wf_ir s"
  shows "erase_view_deallocs s = s\<lparr>ir_block := filter (\<lambda>x. fst x \<in> kept_ids s) (ir_block s)\<rparr>"
proof -
  have "x \<in> set (ir_block s) \<Longrightarrow>
      (case snd x of Dealloc v \<Rightarrow> \<not> view_defined s v | _ \<Rightarrow> True) = (fst x \<in> kept_ids s)" for x
    using wf_ir_distinct [OF assms] unfolding kept_ids_def
    by (auto simp: distinct_map inj_on_def)
  then have "filter (\<lambda>x. case snd x of Dealloc v \<Rightarrow> \<not> view_defined s v | _ \<Rightarrow> True) (ir_block s) =
      filter (\<lambda>x. fst x \<in> kept_ids s) (ir_block s)"
    by (intro filter_cong) auto
  then show ?thesis
    by (simp add: erase_view_deallocs_def)
qed

lemma erase_view_deallocs_wf:
  assumes "wf_ir s"
  shows "wf_ir (erase_view_deallocs s)"
  unfolding erase_view_deallocs_eq [OF assms]
  by (rule erase_wf [OF assms]) (force simp: kept_ids_def split: ir_op.splits)

lemma erase_view_deallocs_mem:
  "x \<in> set (ir_block (erase_view_deallocs s)) \<Longrightarrow> x \<in> set (ir_block s)"
  "x \<in> set (ir_block s) \<Longrightarrow> \<forall>v. snd x \<noteq> Dealloc v \<Longrightarrow> x \<in> set (ir_block (erase_view_deallocs s))"
  by (auto simp: erase_view_deallocs_def split: ir_op.splits)

lemma erase_view_deallocs_consistent:
  "consistent \<rho> (erase_view_deallocs s) \<Longrightarrow> consistent \<rho> s"
  unfolding consistent_def
proof clarify
  fix b op
  assume c: "\<forall>(a, op) \<in> set (ir_block (erase_view_deallocs s)). op_holds \<rho> a op"
    and m: "(b, op) \<in> set (ir_block s)"
  show "op_holds \<rho> b op"
  proof (cases "\<exists>v. op = Dealloc v")
    case False
    then have "(b, op) \<in> set (ir_block (erase_view_deallocs s))"
      using erase_view_deallocs_mem(2) [OF m] by simp
    then show ?thesis
      using c by blast
  qed auto
qed

lemma dealloc_free:
  assumes wf: "wf_ir s" and x: "(a, Dealloc v) \<in> set (ir_block (erase_view_deallocs s))"
  shows "\<not> view_defined (erase_view_deallocs s) v"
proof
  assume "view_defined (erase_view_deallocs s) v"
  then obtain d t p off dyn where d: "defining_op v = Some d"
    "map_of (ir_block (erase_view_deallocs s)) d = Some (View t p off dyn)"
    by (auto simp: view_defined_def split: option.splits ir_op.splits)
  have "(d, View t p off dyn) \<in> set (ir_block s)"
    using map_of_SomeD [OF d(2)] by (rule erase_view_deallocs_mem(1))
  then have "view_defined s v"
    using d(1) wf_ir_map_of [OF wf] by (simp add: view_defined_def)
  then show False
    using x by (simp add: erase_view_deallocs_def)
qed

section \<open>The result of the pass\<close>

definition pass_sizes ::
  "(val \<Rightarrow> val list) \<Rightarrow> (alloc_info list \<Rightarrow> alloc_info list) \<Rightarrow> int \<Rightarrow> bool \<Rightarrow> ir_op list \<Rightarrow> int list" where
  "pass_sizes resolve srt al lt ops =
     map (\<lambda>D. pd_static_size (plan_domain srt al lt D)) (pass_domains resolve ops)"

definition pass_out ::
  "(val \<Rightarrow> val list) \<Rightarrow> (alloc_info list \<Rightarrow> alloc_info list) \<Rightarrow> int \<Rightarrow> bool \<Rightarrow> ir_op list \<Rightarrow>
     placement list list \<Rightarrow> ir \<Rightarrow> pool_outcome" where
  "pass_out resolve srt al lt ops plss s' =
     \<lparr>po_ir = erase_view_deallocs s', po_placements = concat plss,
      po_meta = pool_metadata (pooled_allocs resolve ops) (pass_sizes resolve srt al lt ops) (concat plss),
      po_remark = domain_count_advisory_threshold < length (pass_domains resolve ops)\<rparr>"

definition all_placed ::
  "bool \<Rightarrow> assignment \<Rightarrow> int \<Rightarrow> bool \<Rightarrow> (alloc_info list \<Rightarrow> alloc_info list) \<Rightarrow> alloc_info list list \<Rightarrow>
     placement list list \<Rightarrow> ir \<Rightarrow> bool" where
  "all_placed fit \<rho> al lt srt doms plss s \<longleftrightarrow> length plss = length doms \<and>
     (\<forall>k < length doms. domain_placed fit \<rho> al k (doms ! k) (plan_domain srt al lt (doms ! k)) (plss ! k) s)"

lemma alignment_pos: "alignment_ok al \<Longrightarrow> 0 < al"
  by (simp add: alignment_ok_def)

lemma pass_result:
  assumes ok: "pass_input_ok fo srt al fn ops" and ne: "pooled_allocs resolve ops \<noteq> []"
    and fit: "fit \<Longrightarrow> sizes_fit \<rho> resolve srt al lt ops"
  shows "\<exists>plss s'. run_on_operation resolve fo srt al lt fn = Inr (Some (pass_out resolve srt al lt ops plss s')) \<and>
    wf_ir s' \<and> (\<forall>i \<in> set (pooled_allocs resolve ops). ai_def i \<notin> ids s') \<and>
    all_placed fit \<rho> al lt srt (pass_domains resolve ops) plss s'"
proof -
  let ?doms = "pass_domains resolve ops"
  have fo: "folder_ok fo" and srt: "sort_ok srt" and al: "alignment_ok al" "0 < al" "al < 2 ^ 63"
    and wf: "wf_ir (initial_ir ops)" and fn: "fn_context fn" "fn_blocks fn = [ops]"
    and ty: "\<forall>op \<in> set ops. case op of Alloc t dyn \<Rightarrow> type_ok t | _ \<Rightarrow> True"
    using ok alignment_pos by (simp_all add: pass_input_ok_def)
  note P = pass_domains_ok [OF wf, of resolve]
  have ready: "\<forall>D \<in> set ?doms. domain_ready (initial_ir ops) D \<and> allocs_ok D \<and>
      (fit \<longrightarrow> pool_total \<rho> al (plan_domain srt al lt D) + nat al \<le> size_limit)"
    using pass_domain_ready [OF wf ty] fit by (simp add: sizes_fit_def)
  obtain plss s' where e: "emit_domains fo srt al lt (Arg 0) 0 ?doms (initial_ir ops) =
        Inr (pass_sizes resolve srt al lt ops, concat plss, s')"
      "carries (ids (initial_ir ops) - ai_def ` set (concat ?doms)) (initial_ir ops) s'"
      "\<forall>i \<in> set (concat ?doms). ai_def i \<notin> ids s'" "all_placed fit \<rho> al lt srt ?doms plss s'"
    using emit_domains_ok [OF fo srt al(2,3) wf ready P(2), of 0]
    unfolding all_placed_def pass_sizes_def by auto
  have "set (concat ?doms) = set (pooled_allocs resolve ops)"
    by (rule mset_eq_setD [OF P(1)])
  moreover have "run_on_operation resolve fo srt al lt fn = Inr (Some (pass_out resolve srt al lt ops plss s'))"
    using al fn ne e(1)
    by (simp add: run_on_operation_def pooled_allocs_def pass_domains_def pass_out_def Let_def)
  ultimately show ?thesis
    using e by (auto simp: carries_def)
qed

lemma pass_placement:
  assumes ok: "pass_input_ok fo srt al fn ops"
    and pl: "all_placed fit \<rho> al lt srt (pass_domains resolve ops) plss s'" "pl \<in> set (concat plss)"
  shows "\<exists>k n p sz. k < length (pass_domains resolve ops) \<and> pl_domain pl = k \<and>
    planned al lt srt (pass_domains resolve ops ! k) (plan_domain srt al lt (pass_domains resolve ops ! k)) \<and>
    (pl_info pl, n) \<in> set (pool_entries \<rho> al (plan_domain srt al lt (pass_domains resolve ops ! k))) \<and>
    view_placed s' pl \<and> pl_pool pl = Res p 0 \<and> (p, Get_pool (Arg 0) sz k) \<in> set (ir_block s') \<and>
    (fit \<longrightarrow> consistent \<rho> s' \<longrightarrow> \<rho> (pl_offset pl) = of_nat n \<and>
      \<rho> sz = of_nat (pool_total \<rho> al (plan_domain srt al lt (pass_domains resolve ops ! k))))"
proof -
  let ?doms = "pass_domains resolve ops"
  obtain pls where "pls \<in> set plss" "pl \<in> set pls"
    using pl(2) by auto
  then obtain k where k: "k < length ?doms" "pl \<in> set (plss ! k)"
    using pl(1) by (metis all_placed_def in_set_conv_nth)
  have D: "?doms ! k \<in> set ?doms"
    using k(1) by simp
  have "allocs_ok (?doms ! k)"
    using ok pass_domain_ready(2) [OF _ _ D] by (simp add: pass_input_ok_def)
  then have "planned al lt srt (?doms ! k) (plan_domain srt al lt (?doms ! k))"
    using ok alignment_pos by (simp add: planned_def pass_input_ok_def)
  moreover have "domain_placed fit \<rho> al k (?doms ! k) (plan_domain srt al lt (?doms ! k)) (plss ! k) s'"
    using pl(1) k(1) by (simp add: all_placed_def)
  ultimately show ?thesis
    using k unfolding domain_placed_def by blast
qed

lemma pass_infos:
  assumes "all_placed fit \<rho> al lt srt doms plss s'"
  shows "map pl_info (concat plss) = concat doms"
proof -
  have "map (map pl_info) plss = doms"
    using assms by (intro nth_equalityI) (simp_all add: all_placed_def domain_placed_def)
  then show ?thesis
    by (metis map_concat)
qed

lemma pass_placement_type:
  assumes ok: "pass_input_ok fo srt al fn ops" and i: "i \<in> set (pooled_allocs resolve ops)"
  shows "runtime_bytes \<rho> i \<le> region_bytes \<rho> i"
proof -
  note I = pooled_alloc [OF i]
  have "ops ! ai_def i = Alloc (ai_type i) (ai_dyn i)"
    using initial_mem [OF I(1)] by simp
  then have "type_ok (ai_type i)"
    using ok nth_mem [OF I(2)] by (force simp: pass_input_ok_def)
  then show ?thesis
    using I(3) by (rule runtime_le_region)
qed

end
