(* ===== verification/Pool_Int64.thy ===== *)
theory Pool_Int64
  imports Pool_Pass Packing_Int64
begin

text \<open>
  \<open>PoolAllocsPass::runOnOperation\<close> with the sizes and offsets it computes as \<open>int64_t\<close>, and
  the bound under which it does what \<open>run_on_operation\<close> does on unbounded integers.
\<close>

section \<open>The pass on \<open>int64_t\<close>\<close>

definition plan_domain64 ::
  "(alloc_info list \<Rightarrow> alloc_info list) \<Rightarrow> int \<Rightarrow> bool \<Rightarrow> alloc_info list \<Rightarrow> domain_plan" where
  "plan_domain64 srt alignment lifetime_only allocs =
     (let statics = srt (filter (\<lambda>i. ai_bytes i > 0) allocs);
          dynamics = filter (\<lambda>i. \<not> ai_bytes i > 0) allocs;
          asg = pack_static_allocs64 statics alignment
      in \<lparr>pd_statics = statics, pd_static_asg = asg,
          pd_static_size = static_pool_size64 alignment asg,
          pd_dyn = pack_dynamic_allocs64 dynamics alignment lifetime_only\<rparr>)"

fun emit_domains64 ::
  "folder \<Rightarrow> (alloc_info list \<Rightarrow> alloc_info list) \<Rightarrow> int \<Rightarrow> bool \<Rightarrow> val \<Rightarrow> nat \<Rightarrow>
     alloc_info list list \<Rightarrow> ir \<Rightarrow> pool_error + (int list \<times> placement list \<times> ir)" where
  "emit_domains64 fo srt alignment lifetime_only ctx domain_id [] s = Inr ([], [], s)"
| "emit_domains64 fo srt alignment lifetime_only ctx domain_id (allocs # rest) s =
     (let plan = plan_domain64 srt alignment lifetime_only allocs
      in case emit_domain fo alignment ctx domain_id allocs plan s of
           Inl e \<Rightarrow> Inl e
         | Inr (pls, s1) \<Rightarrow>
             (case emit_domains64 fo srt alignment lifetime_only ctx (Suc domain_id) rest s1 of
                Inl e \<Rightarrow> Inl e
              | Inr (sizes, pls', s2) \<Rightarrow> Inr (pd_static_size plan # sizes, pls @ pls', s2)))"

definition collect_alloc64 ::
  "(val \<Rightarrow> val list) \<Rightarrow> block_ops \<Rightarrow> nat \<times> ir_op \<Rightarrow> alloc_info list" where
  "collect_alloc64 resolve blk x =
     (case snd x of
        Alloc t dyn \<Rightarrow>
          (if users_of blk (Res (fst x) 0) = [] then []
           else [\<lparr>ai_def = op_pos blk (fst x),
                  ai_last = find_last_aliased_use_index resolve (users_of blk) (op_pos blk)
                              (length blk) (Res (fst x) 0),
                  ai_bytes = get_static_byte_size64 t, ai_type = t, ai_dyn = dyn\<rparr>])
      | _ \<Rightarrow> [])"

definition collect_allocs64 :: "(val \<Rightarrow> val list) \<Rightarrow> block_ops \<Rightarrow> alloc_info list" where
  "collect_allocs64 resolve blk = concat (map (collect_alloc64 resolve blk) blk)"

definition run_on_operation64 ::
  "(val \<Rightarrow> val list) \<Rightarrow> folder \<Rightarrow> (alloc_info list \<Rightarrow> alloc_info list) \<Rightarrow> int \<Rightarrow> bool \<Rightarrow> func_op \<Rightarrow>
     pool_error + pool_outcome option" where
  "run_on_operation64 resolve fo srt alignment lifetime_only fn =
     (if \<not> alignment_ok alignment then Inl (Bad_alignment alignment)
      else
        case fn_blocks fn of
          [] \<Rightarrow> Inr None
        | ops # rest \<Rightarrow>
            if rest \<noteq> [] then Inl Multi_block
            else
              let s = initial_ir ops;
                  infos = collect_allocs64 resolve (ir_block s)
              in if infos = [] then
                   Inr (Some \<lparr>po_ir = s, po_placements = [], po_meta = zero_meta, po_remark = False\<rparr>)
                 else if \<not> fn_context fn then Inl Missing_context
                 else
                   let domains = partition_by_dominance_domain (ir_block s) infos
                   in case emit_domains64 fo srt alignment lifetime_only (Arg 0) 0 domains s of
                        Inl e \<Rightarrow> Inl e
                      | Inr (sizes, pls, s') \<Rightarrow>
                          Inr (Some \<lparr>po_ir = erase_view_deallocs s', po_placements = pls,
                                     po_meta = pool_metadata infos sizes pls,
                                     po_remark = length domains > domain_count_advisory_threshold\<rparr>))"

text \<open>
  What has to stay below \<open>2 ^ 63\<close>: the bits of every pooled type, and for each domain the sum of
  the aligned sizes of its static and the aligned coefficients of its dynamic allocations.
\<close>

definition int64_sizes :: "(val \<Rightarrow> val list) \<Rightarrow> int \<Rightarrow> ir_op list \<Rightarrow> bool" where
  "int64_sizes resolve al ops \<longleftrightarrow> (\<forall>i \<in> set (pooled_allocs resolve ops). int64_type (ai_type i)) \<and>
     (\<forall>D \<in> set (pass_domains resolve ops). (\<Sum>i\<leftarrow>D. align_to (static_factor_of i) al) < 2 ^ 63)"

section \<open>Dynamic allocations\<close>

lemma int64_type_ok: "int64_type t \<Longrightarrow> type_ok t"
  by (auto simp: int64_type_def type_ok_def split: option.split)

lemma compute_key64_eq: "int64_type (ai_type i) \<Longrightarrow> compute_key64 i = compute_key i"
  by (simp add: compute_key64_def compute_key_def static_factor_bytes64_eq)

lemma static_factor_of64_eq: "int64_type (ai_type i) \<Longrightarrow> static_factor_of64 i = static_factor_of i"
  by (simp add: static_factor_of64_def static_factor_of_def compute_key64_eq)

lemma sort_key_agree:
  assumes "\<And>x. x \<in> set xs \<Longrightarrow> f x = g x"
  shows "sort_key f xs = sort_key g xs"
proof -
  have ins: "insort_key f y ys = insort_key g y ys" if "\<And>x. x \<in> insert y (set ys) \<Longrightarrow> f x = g x" for y ys
    using that by (induction ys) auto
  show ?thesis
    using assms
  proof (induction xs)
    case (Cons x xs)
    then show ?case
      using ins [of x "sort_key g xs"] by simp
  qed simp
qed

lemma pack_greedy64_agree:
  assumes "\<And>i. i \<in> set items \<Longrightarrow> f i = g i"
  shows "pack_greedy_best_fit64 items f al = pack_greedy_best_fit64 items g al"
proof -
  have "foldl (pack_item64 f al) ([], [], 0) items = foldl (pack_item64 g al) ([], [], 0) items"
    using assms by (intro foldl_cong) (simp_all add: pack_item64_def)
  then show ?thesis
    by (simp add: pack_greedy_best_fit64_def)
qed

lemma sum_list_sub_mset:
  fixes f :: "'a \<Rightarrow> int"
  assumes "mset xs \<subseteq># mset ys" and "\<And>y. y \<in> set ys \<Longrightarrow> 0 \<le> f y"
  shows "sum_list (map f xs) \<le> sum_list (map f ys)"
proof -
  obtain M where M: "mset ys = mset xs + M"
    using assms(1) by (metis mset_subset_eq_exists_conv)
  obtain zs where zs: "M = mset zs"
    by (metis ex_mset)
  have "sum_list (map f ys) = sum_list (map f (xs @ zs))"
    by (rule sum_list_mset) (simp add: M zs)
  moreover have "0 \<le> f z" if "z \<in> set zs" for z
    using assms(2) [of z] mset_eq_setD [of ys "xs @ zs"] M zs that by simp
  then have "0 \<le> sum_list (map f zs)"
    by (intro sum_list_nonneg) auto
  ultimately show ?thesis
    by simp
qed

lemma pack_dynamic64_eq:
  assumes al: "0 < al" "al < 2 ^ 63" and ty: "\<forall>i \<in> set dynamics. int64_type (ai_type i)"
    and fits: "(\<Sum>i\<leftarrow>dynamics. align_to (static_factor_of i) al) < 2 ^ 63"
  shows "pack_dynamic_allocs64 dynamics al lt = pack_dynamic_allocs dynamics al lt"
proof -
  have nonneg: "0 \<le> static_factor_of i" if "i \<in> set dynamics" for i
    using ty that int64_type_ok static_factor_nonneg by blast
  obtain cs bs where c: "foldl (classify al lt) ([], []) dynamics = (cs, bs)"
    by (cases "foldl (classify al lt) ([], []) dynamics") auto
  have "foldl (classify64 al lt) ([], []) dynamics = foldl (classify al lt) ([], []) dynamics"
    using ty by (intro foldl_cong) (simp_all add: classify64_def classify_def compute_key64_eq)
  then have c64: "foldl (classify64 al lt) ([], []) dynamics = (cs, bs)"
    by (simp only: c)
  have sub: "mset as \<subseteq># mset dynamics" if as: "(ops, as) \<in> set cs" for ops as
  proof -
    have "mset as \<subseteq># mset (concat (map snd cs))"
      using as by (induction cs) (auto intro: subset_mset.add_increasing2 subset_mset.add_increasing)
    moreover have "mset (concat (map snd cs)) \<subseteq># mset dynamics"
      using classify_mset [OF c] by (metis mset_subset_eq_add_left)
    ultimately show ?thesis
      by (rule subset_mset.order_trans)
  qed
  have mem: "i \<in> set dynamics" if "(ops, as) \<in> set cs" "i \<in> set as" for ops as i
    using mset_subset_eqD [OF sub [OF that(1)], of i] that(2) by simp
  have eq: "static_factor_of64 i = static_factor_of i" if "(ops, as) \<in> set cs" "i \<in> set as" for ops as i
    using mem [OF that] ty static_factor_of64_eq by blast
  have "lifetime_groups64 cs = lifetime_groups cs"
    unfolding lifetime_groups64_def lifetime_groups_def
    by (intro arg_cong [where f = "sort_key (\<lambda>g. - dg_span g)"] arg_cong [where f = concat] map_cong refl)
      (auto simp: eq)
  moreover have "packed_groups64 al cs = packed_groups al cs"
    unfolding packed_groups64_def packed_groups_def
  proof (intro map_cong refl, goal_cases)
    case (1 c)
    obtain ops as where o: "c = (ops, as)"
      by (cases c)
    then have as: "(ops, as) \<in> set cs"
      using 1 by simp
    let ?s = "sort_key (\<lambda>a. - static_factor_of a) as"
    have "sort_key (\<lambda>a. - static_factor_of64 a) as = ?s"
      by (rule sort_key_agree) (simp add: eq [OF as])
    moreover have "pack_greedy_best_fit64 ?s static_factor_of64 al = pack_greedy_best_fit64 ?s static_factor_of al"
      by (rule pack_greedy64_agree) (simp add: eq [OF as])
    moreover have "(\<Sum>i\<leftarrow>?s. align_to (static_factor_of i) al) \<le> (\<Sum>i\<leftarrow>dynamics. align_to (static_factor_of i) al)"
      using sub [OF as] nonneg al(1) by (intro sum_list_sub_mset) (simp_all add: align_to_nonneg)
    then have "pack_greedy_best_fit64 ?s static_factor_of al = pack_greedy_best_fit ?s static_factor_of al"
      using fits nonneg mem [OF as] by (intro pack_greedy64_eq al) auto
    ultimately show ?case
      by (simp add: o)
  qed
  ultimately show ?thesis
    by (simp add: pack_dynamic_allocs64_def pack_dynamic_allocs_def c c64)
qed

section \<open>A domain and the pass\<close>

lemma plan_domain64_eq:
  assumes al: "0 < al" "al < 2 ^ 63" and srt: "sort_ok srt"
    and D: "\<forall>i \<in> set D. int64_type (ai_type i) \<and> ai_bytes i = get_static_byte_size (ai_type i)"
    and fits: "(\<Sum>i\<leftarrow>D. align_to (static_factor_of i) al) < 2 ^ 63"
  shows "plan_domain64 srt al lt D = plan_domain srt al lt D"
proof -
  let ?S = "filter (\<lambda>i. ai_bytes i > 0) D" and ?N = "filter (\<lambda>i. \<not> ai_bytes i > 0) D"
  have nonneg: "0 \<le> align_to (static_factor_of i) al" if "i \<in> set D" for i
    using that D al(1) int64_type_ok static_factor_nonneg by (intro align_to_nonneg) blast+
  have sub: "mset (filter P D) \<subseteq># mset D" for P
    by simp
  have sum: "(\<Sum>i\<leftarrow>filter P D. align_to (static_factor_of i) al) < 2 ^ 63" for P
    by (rule le_less_trans [OF sum_list_sub_mset [OF sub nonneg] fits])
  have "ai_bytes i = static_factor_of i" if "i \<in> set ?S" for i
    using that D static_size_factor [of "ai_type i"]
    by (auto simp: static_factor_of_def compute_key_def get_static_byte_size_def split: if_splits)
  then have "(\<Sum>i\<leftarrow>?S. align_to (ai_bytes i) al) = (\<Sum>i\<leftarrow>?S. align_to (static_factor_of i) al)"
    by (intro arg_cong [where f = sum_list] map_cong) simp_all
  moreover have perm: "mset (srt ?S) = mset ?S"
    using srt by (simp add: sort_ok_def)
  then have "(\<Sum>i\<leftarrow>srt ?S. align_to (ai_bytes i) al) = (\<Sum>i\<leftarrow>?S. align_to (ai_bytes i) al)"
    by (rule sum_list_mset)
  ultimately have S: "(\<Sum>i\<leftarrow>srt ?S. align_to (ai_bytes i) al) < 2 ^ 63"
    using sum [of "\<lambda>i. ai_bytes i > 0"] by argo
  have "\<forall>i \<in> set (srt ?S). 0 \<le> ai_bytes i"
    using mset_eq_setD [OF perm] by auto
  note P = pack_static64_eq [OF al this S]
  have "pack_dynamic_allocs64 ?N al lt = pack_dynamic_allocs ?N al lt"
    using D by (intro pack_dynamic64_eq al sum) simp
  then show ?thesis
    by (simp only: plan_domain64_def plan_domain_def Let_def P)
qed

lemma emit_domains64_eq:
  assumes "\<forall>D \<in> set doms. plan_domain64 srt al lt D = plan_domain srt al lt D"
  shows "emit_domains64 fo srt al lt ctx d doms s = emit_domains fo srt al lt ctx d doms s"
  using assms
proof (induction doms arbitrary: d s)
  case (Cons D doms)
  have plan: "plan_domain64 srt al lt D = plan_domain srt al lt D"
    using Cons.prems by simp
  have rest: "emit_domains64 fo srt al lt ctx (Suc d) doms = emit_domains fo srt al lt ctx (Suc d) doms"
    using Cons by (intro ext) simp
  show ?case
    unfolding emit_domains64.simps emit_domains.simps plan rest ..
qed simp

lemma collect_allocs64_eq:
  assumes "\<forall>i \<in> set (collect_allocs resolve blk). int64_type (ai_type i)"
  shows "collect_allocs64 resolve blk = collect_allocs resolve blk"
proof -
  have "collect_alloc64 resolve blk x = collect_alloc resolve blk x" if x: "x \<in> set blk" for x
  proof (cases "collect_alloc resolve blk x")
    case Nil
    then show ?thesis
      by (auto simp: collect_alloc_def collect_alloc64_def split: ir_op.splits if_splits)
  next
    case (Cons i rest)
    then have "i \<in> set (collect_allocs resolve blk)"
      using x by (force simp: collect_allocs_def)
    then have "int64_type (ai_type i)"
      using assms by blast
    then show ?thesis
      using Cons get_static_byte_size64_eq
      by (auto simp: collect_alloc_def collect_alloc64_def split: ir_op.splits if_splits)
  qed
  then show ?thesis
    unfolding collect_allocs64_def collect_allocs_def by (metis map_cong)
qed

lemma run_on_operation64_eq:
  assumes ok: "pass_input_ok fo srt al fn ops" and fits: "int64_sizes resolve al ops"
  shows "run_on_operation64 resolve fo srt al lt fn = run_on_operation resolve fo srt al lt fn"
proof -
  have al: "0 < al" "al < 2 ^ 63" and srt: "sort_ok srt" and fn: "fn_blocks fn = [ops]"
    and wf: "wf_ir (initial_ir ops)"
    using ok alignment_pos by (simp_all add: pass_input_ok_def)
  have C: "collect_allocs64 resolve (ir_block (initial_ir ops)) = pooled_allocs resolve ops"
    using collect_allocs64_eq [of resolve "ir_block (initial_ir ops)"] fits
    by (simp add: int64_sizes_def pooled_allocs_def)
  have "plan_domain64 srt al lt D = plan_domain srt al lt D" if D: "D \<in> set (pass_domains resolve ops)" for D
  proof (rule plan_domain64_eq [OF al srt])
    have "i \<in> set (pooled_allocs resolve ops)" if "i \<in> set D" for i
      using mset_eq_setD [OF pass_domains_ok(1) [OF wf, of resolve]] D that by auto
    then show "\<forall>i \<in> set D. int64_type (ai_type i) \<and> ai_bytes i = get_static_byte_size (ai_type i)"
      using fits pooled_alloc(3) by (auto simp: int64_sizes_def)
    show "(\<Sum>i\<leftarrow>D. align_to (static_factor_of i) al) < 2 ^ 63"
      using fits D by (simp add: int64_sizes_def)
  qed
  then have E: "emit_domains64 fo srt al lt (Arg 0) 0 (pass_domains resolve ops) s =
      emit_domains fo srt al lt (Arg 0) 0 (pass_domains resolve ops) s" for s
    by (intro emit_domains64_eq) blast
  have doms: "partition_by_dominance_domain (ir_block (initial_ir ops)) (pooled_allocs resolve ops) = pass_domains resolve ops"
    by (simp add: pass_domains_def)
  have C': "collect_allocs resolve (ir_block (initial_ir ops)) = pooled_allocs resolve ops"
    by (simp add: pooled_allocs_def)
  show ?thesis
    unfolding run_on_operation64_def run_on_operation_def fn list.case Let_def C C' doms E ..
qed

end
