(* ===== verification/Pool_Properties.thy ===== *)
theory Pool_Properties
  imports Pool_Int64
begin

text \<open>
  What \<open>PoolAllocsPass\<close> promises a later pass and the runtime, with a function of one
  static and one dynamic allocation on which each property is instantiated.
\<close>

section \<open>An example\<close>

definition example_ops :: "ir_op list" where
  "example_ops =
    [Alloc \<lparr>mt_shape = [Some 64], mt_bits = 32\<rparr> [],
     Alloc \<lparr>mt_shape = [None, Some 4], mt_bits = 32\<rparr> [Arg 1],
     Other [Res 0 0, Res 1 0] [],
     Dealloc (Res 0 0),
     Dealloc (Arg 2)]"

definition example_fn :: func_op where
  "example_fn = \<lparr>fn_context = True, fn_blocks = [example_ops]\<rparr>"

definition self_alias :: "val \<Rightarrow> val list" where
  "self_alias v = [v]"

definition never_fold :: folder where
  "never_fold s b x y = No_fold"

definition by_bytes :: "alloc_info list \<Rightarrow> alloc_info list" where
  "by_bytes = sort_key (\<lambda>i. - ai_bytes i)"

definition example_static :: alloc_info where
  "example_static = \<lparr>ai_def = 0, ai_last = 2, ai_bytes = 256,
     ai_type = \<lparr>mt_shape = [Some 64], mt_bits = 32\<rparr>, ai_dyn = []\<rparr>"

definition example_dynamic :: alloc_info where
  "example_dynamic = \<lparr>ai_def = 1, ai_last = 2, ai_bytes = 0,
     ai_type = \<lparr>mt_shape = [None, Some 4], mt_bits = 32\<rparr>, ai_dyn = [Arg 1]\<rparr>"

definition rewritten_block :: block_ops where
  "rewritten_block =
    [(5, Const_index 16), (6, Bin Mul_i (Res 5 0) (Arg 1)), (7, Const_index 255),
     (8, Const_index 256), (9, Bin Add_i (Res 6 0) (Res 7 0)), (10, Bin Div_ui (Res 9 0) (Res 8 0)),
     (11, Bin Mul_i (Res 10 0) (Res 8 0)), (12, Const_index 256), (13, Const_index 1),
     (14, Bin Mul_i (Res 11 0) (Res 13 0)), (15, Bin Add_i (Res 12 0) (Res 14 0)),
     (16, Get_pool (Arg 0) (Res 15 0) 0), (17, Const_index 0), (18, Const_index 256),
     (19, Const_index 0), (20, Bin Mul_i (Res 11 0) (Res 19 0)),
     (21, Bin Add_i (Res 18 0) (Res 20 0)), (22, Const_index 1),
     (23, Bin Mul_i (Res 11 0) (Res 22 0)), (24, Bin Add_i (Res 18 0) (Res 23 0)),
     (25, View \<lparr>mt_shape = [Some 64], mt_bits = 32\<rparr> (Res 16 0) (Res 17 0) []),
     (26, View \<lparr>mt_shape = [None, Some 4], mt_bits = 32\<rparr> (Res 16 0) (Res 21 0) [Arg 1]),
     (2, Other [Res 25 0, Res 26 0] []), (4, Dealloc (Arg 2))]"

definition example_placements :: "placement list" where
  "example_placements =
    [\<lparr>pl_info = example_static, pl_domain = 0, pl_pool = Res 16 0, pl_offset = Res 17 0,
      pl_view = Res 25 0, pl_const = 0\<rparr>,
     \<lparr>pl_info = example_dynamic, pl_domain = 0, pl_pool = Res 16 0, pl_offset = Res 21 0,
      pl_view = Res 26 0, pl_const = - 1\<rparr>]"

definition example_out :: pool_outcome where
  "example_out = \<lparr>po_ir = \<lparr>ir_block = rewritten_block, ir_next = 27\<rparr>,
     po_placements = example_placements,
     po_meta = \<lparr>pm_pool_size = 256, pm_buffer_count = 2, pm_buffer_offsets = [0, - 1], pm_multi = None\<rparr>,
     po_remark = False\<rparr>"



lemma never_fold_ok: "folder_ok never_fold"
  by (simp add: folder_ok_def never_fold_def)

lemma by_bytes_ok: "sort_ok by_bytes"
  by (simp add: sort_ok_def by_bytes_def)

definition example_input_block :: block_ops where
  "example_input_block =
    [(0, Alloc \<lparr>mt_shape = [Some 64], mt_bits = 32\<rparr> []),
     (1, Alloc \<lparr>mt_shape = [None, Some 4], mt_bits = 32\<rparr> [Arg 1]),
     (2, Other [Res 0 0, Res 1 0] []), (3, Dealloc (Res 0 0)), (4, Dealloc (Arg 2))]"

lemma example_initial: "initial_ir example_ops = \<lparr>ir_block = example_input_block, ir_next = 5\<rparr>"
  unfolding example_input_block_def by code_simp

lemma example_wf: "wf_ir (initial_ir example_ops)"
  unfolding wf_ir_def ssa_ok_def example_initial example_input_block_def
  by code_simp

lemma example_input: "pass_input_ok never_fold by_bytes 256 example_fn example_ops"
proof -
  have "alignment_ok 256" and "fn_context example_fn" and "fn_blocks example_fn = [example_ops]"
    by code_simp+
  moreover have "\<forall>op \<in> set example_ops. case op of Alloc t dyn \<Rightarrow> type_ok t | _ \<Rightarrow> True"
    by code_simp
  ultimately show ?thesis
    using never_fold_ok by_bytes_ok example_wf by (simp add: pass_input_ok_def)
qed

text \<open>Evaluating the emission: the block stays a literal, each builder call is one rewrite.\<close>

lemma op_pos_literal: "op_pos ((a, op) # blk) b = (if a = b then 0 else Suc (op_pos blk b))"
  by (simp add: op_pos_Cons)

lemma create_literal: "create \<lparr>ir_block = blk, ir_next = n\<rparr> (Before b) op =
    (Res n 0, \<lparr>ir_block = insert_op (op_pos blk b) (n, op) blk, ir_next = Suc n\<rparr>)"
  by (simp add: create_def insert_op_def Let_def)

lemma insert_op_literal:
  "insert_op 0 x blk = x # blk"
  "insert_op (Suc n) x (y # blk) = y # insert_op n x blk"
  by (simp_all add: insert_op_def)

lemma never_fold_literal: "create_or_fold never_fold s ip b x y = create s ip (Bin b x y)"
  by (simp add: create_or_fold_def never_fold_def)

lemmas emission_literal = Let_def create_literal never_fold_literal op_pos_literal insert_op_literal
  emit_align_up_def replace_all_uses_def erase_op_def emit_factor_def emit_bucket_size_def
  seek_size_insertion_point_def emit_slab_width_def emit_times_def emit_pool_size_def
  dynamic_offsets_def const_offset_def replace_by_view_def emit_pool_def emit_domain_def dp_empty_def
  find_latest_legal_insertion_point_def block_defs_def block_def_def is_before_def next_point_def
  earlier_op_def later_op_def

lemma example_pooled: "pooled_allocs self_alias example_ops = [example_static, example_dynamic]"
  by code_simp

lemma example_domains: "pass_domains self_alias example_ops = [[example_static, example_dynamic]]"
  by code_simp

lemma example_plan:
  "plan_domain by_bytes 256 False [example_static, example_dynamic] =
    \<lparr>pd_statics = [example_static], pd_static_asg = [(example_static, 0)], pd_static_size = 256,
     pd_dyn = \<lparr>dp_groups = [],
       dp_buckets = [\<lparr>db_factor = 16, db_dyn = [Arg 1], db_bins = [[example_dynamic]]\<rparr>],
       dp_slabs = []\<rparr>\<rparr>"
  by code_simp

lemma example_fields:
  "ai_def example_static = 0" "ai_type example_static = \<lparr>mt_shape = [Some 64], mt_bits = 32\<rparr>"
  "ai_dyn example_static = []" "ai_def example_dynamic = Suc 0"
  "ai_type example_dynamic = \<lparr>mt_shape = [None, Some 4], mt_bits = 32\<rparr>"
  "ai_dyn example_dynamic = [Arg (Suc 0)]"
  by (simp_all add: example_static_def example_dynamic_def)

lemma example_emit:
  "emit_domains never_fold by_bytes 256 False (Arg 0) 0 [[example_static, example_dynamic]]
     \<lparr>ir_block = example_input_block, ir_next = 5\<rparr> =
   Inr ([256], example_placements,
     \<lparr>ir_block = butlast rewritten_block @ [(3, Dealloc (Res 25 0)), (4, Dealloc (Arg 2))], ir_next = 27\<rparr>)"
  by (simp cong: let_weak_cong
      add: emission_literal example_input_block_def example_plan example_fields
        example_placements_def rewritten_block_def)

lemma example_run:
  "run_on_operation self_alias never_fold by_bytes 256 False example_fn = Inr (Some example_out)"
  using example_pooled example_domains example_emit example_input
  by (simp cong: let_weak_cong
      add: run_on_operation_def pass_input_ok_def Let_def example_initial pooled_allocs_def
        pass_domains_def example_fn_def example_out_def erase_view_deallocs_def view_defined_def
        rewritten_block_def pool_metadata_def placed_at_def example_placements_def example_fields
        domain_count_advisory_threshold_def)


section \<open>Reading the result\<close>

lemma pass_out_cases:
  assumes ok: "pass_input_ok fo srt al fn ops"
    and run: "run_on_operation resolve fo srt al lt fn = Inr (Some out)"
    and fit: "fit \<Longrightarrow> sizes_fit \<rho> resolve srt al lt ops"
  shows "out = \<lparr>po_ir = initial_ir ops, po_placements = [], po_meta = zero_meta, po_remark = False\<rparr> \<and>
      pooled_allocs resolve ops = [] \<or>
    (\<exists>plss s'. out = pass_out resolve srt al lt ops plss s' \<and> pooled_allocs resolve ops \<noteq> [] \<and> wf_ir s' \<and>
      (\<forall>i \<in> set (pooled_allocs resolve ops). ai_def i \<notin> ids s') \<and>
      all_placed fit \<rho> al lt srt (pass_domains resolve ops) plss s')"
proof (cases "pooled_allocs resolve ops = []")
  case True
  then show ?thesis
    using ok run by (auto simp: run_on_operation_def pass_input_ok_def pooled_allocs_def Let_def)
next
  case False
  then show ?thesis
    using pass_result [OF ok False fit] run by auto
qed


section \<open>Placement\<close>



lemma example_int64: "int64_sizes self_alias 256 example_ops"
  unfolding int64_sizes_def example_pooled example_domains
  by (simp add: int64_type_def example_static_def example_dynamic_def static_factor_of_def compute_key_def
      static_factor_bytes_def divide_ceil_def align_to_def)

lemma example_run64:
  "run_on_operation64 self_alias never_fold by_bytes 256 False example_fn = Inr (Some example_out)"
  by (simp only: run_on_operation64_eq [OF example_input example_int64] example_run)






section \<open>\<open>int64_t\<close>\<close>

text \<open>C40: Within the bounds of C4 no \<open>int64_t\<close> of the pass wraps: the pass as the code computes it has
  the result, errors included, of the pass on unbounded integers, so that what is shown of the one
  holds for the other.\<close>

theorem int64_pass_exact:
  assumes "pass_input_ok fo srt al fn ops" and "int64_sizes resolve al ops"
  shows "run_on_operation64 resolve fo srt al lt fn = run_on_operation resolve fo srt al lt fn"
  by (rule run_on_operation64_eq [OF assms])

theorem int64_pass_exact_witness:
  "run_on_operation64 self_alias never_fold by_bytes 256 False example_fn = Inr (Some example_out)"
  using int64_pass_exact [OF example_input example_int64, of False] by (simp only: example_run)

text \<open>
  Past the bounds it does not: \<open>memref<2^58 x i64>\<close> has \<open>2 ^ 64\<close> bits, and its size is 0.  The pass
  takes it for a dynamic allocation with coefficient 0, and all of its kind get the same offset.
\<close>

lemma static_size_wraps:
  "get_static_byte_size64 \<lparr>mt_shape = [Some (2 ^ 58)], mt_bits = 64\<rparr> = 0"
  "static_factor_bytes64 \<lparr>mt_shape = [Some (2 ^ 58)], mt_bits = 64\<rparr> = 0"
  "get_static_byte_size \<lparr>mt_shape = [Some (2 ^ 58)], mt_bits = 64\<rparr> = 2 ^ 61"
  by code_simp+

section \<open>The rewritten block\<close>

lemma pass_empty:
  assumes "pass_input_ok fo srt al fn ops" and "pooled_allocs resolve ops = []"
  shows "run_on_operation resolve fo srt al lt fn = Inr (Some
    \<lparr>po_ir = initial_ir ops, po_placements = [], po_meta = zero_meta, po_remark = False\<rparr>)"
  using assms by (simp add: run_on_operation_def pass_input_ok_def pooled_allocs_def)

lemma placed_views:
  assumes ok: "pass_input_ok fo srt al fn ops"
    and P: "all_placed fit \<rho> al lt srt (pass_domains resolve ops) plss s'"
    and pl: "pl \<in> set (concat plss)"
  shows "\<exists>w p sz. pl_view pl = Res w 0 \<and> pl_pool pl = Res p 0 \<and>
    (w, View (ai_type (pl_info pl)) (Res p 0) (pl_offset pl) (ai_dyn (pl_info pl)))
      \<in> set (ir_block (erase_view_deallocs s')) \<and>
    (p, Get_pool (Arg 0) sz (pl_domain pl)) \<in> set (ir_block (erase_view_deallocs s'))"
proof -
  have "view_placed s' pl"
    using pass_placement [OF ok P pl] by blast
  then obtain w p sz where "pl_view pl = Res w 0" "pl_pool pl = Res p 0"
    and m: "(w, View (ai_type (pl_info pl)) (Res p 0) (pl_offset pl) (ai_dyn (pl_info pl))) \<in> set (ir_block s')"
      "(p, Get_pool (Arg 0) sz (pl_domain pl)) \<in> set (ir_block s')"
    unfolding view_placed_def by blast
  then show ?thesis
    using erase_view_deallocs_mem(2) [OF m(1)] erase_view_deallocs_mem(2) [OF m(2)] by auto
qed

lemma erased_ids: "a \<notin> ids s \<Longrightarrow> a \<notin> ids (erase_view_deallocs s)"
  by (auto simp: ids_def erase_view_deallocs_def)

text \<open>C6: the pass succeeds on a valid function; the placements are the allocations that have a use,
  each once; each placement's view, of the allocation's type and dynamic sizes, and its domain's pool
  are in the block, and the allocation is not.\<close>

theorem pool_replaces_allocs:
  assumes "pass_input_ok fo srt al fn ops"
  shows "\<exists>out. run_on_operation resolve fo srt al lt fn = Inr (Some out) \<and>
    mset (map pl_info (po_placements out)) = mset (pooled_allocs resolve ops) \<and>
    (\<forall>i \<in> set (pooled_allocs resolve ops). ai_def i \<notin> ids (po_ir out)) \<and>
    (\<forall>pl \<in> set (po_placements out). \<exists>w p sz. pl_view pl = Res w 0 \<and> pl_pool pl = Res p 0 \<and>
       (w, View (ai_type (pl_info pl)) (Res p 0) (pl_offset pl) (ai_dyn (pl_info pl))) \<in> set (ir_block (po_ir out)) \<and>
       (p, Get_pool (Arg 0) sz (pl_domain pl)) \<in> set (ir_block (po_ir out)))"
proof (cases "pooled_allocs resolve ops = []")
  case True
  then show ?thesis
    using pass_empty [OF assms] by simp
next
  case False
  obtain plss s' where
    run: "run_on_operation resolve fo srt al lt fn = Inr (Some (pass_out resolve srt al lt ops plss s'))"
    and gone: "\<forall>i \<in> set (pooled_allocs resolve ops). ai_def i \<notin> ids s'"
    and P: "all_placed False undefined al lt srt (pass_domains resolve ops) plss s'"
    using pass_result [OF assms False, of False undefined] by blast
  have wf: "wf_ir (initial_ir ops)"
    using assms by (simp add: pass_input_ok_def)
  have "mset (map pl_info (concat plss)) = mset (pooled_allocs resolve ops)"
    unfolding pass_infos [OF P] by (rule pass_domains_ok(1) [OF wf])
  then show ?thesis
    using run gone placed_views [OF assms P] erased_ids
    by (intro exI [of _ "pass_out resolve srt al lt ops plss s'"]) (simp add: pass_out_def)
qed

theorem pool_replaces_allocs_witness:
  "\<exists>out. run_on_operation self_alias never_fold by_bytes 256 False example_fn = Inr (Some out) \<and>
    mset (map pl_info (po_placements out)) = {#example_static, example_dynamic#} \<and>
    0 \<notin> ids (po_ir out) \<and> 1 \<notin> ids (po_ir out)"
  using pool_replaces_allocs [OF example_input, of self_alias False]
  unfolding example_pooled by (auto simp: example_fields)

text \<open>C7: the block the pass leaves is in SSA form and typed: no value is used before its definition,
  no operation is defined twice.\<close>

theorem pool_output_ssa:
  assumes "pass_input_ok fo srt al fn ops"
    and "run_on_operation resolve fo srt al lt fn = Inr (Some out)"
  shows "wf_ir (po_ir out)"
  using pass_out_cases [OF assms, of False] assms(1) erase_view_deallocs_wf
  by (fastforce simp: pass_out_def pass_input_ok_def)

theorem pool_output_ssa_witness: "wf_ir (po_ir example_out)"
  by (rule pool_output_ssa [OF example_input example_run])

text \<open>no deallocation of a view into a pool is left when something was pooled: the pool's memory
  is the runtime's to free.\<close>

theorem pool_no_view_dealloc:
  assumes "pass_input_ok fo srt al fn ops"
    and "run_on_operation resolve fo srt al lt fn = Inr (Some out)"
    and "po_placements out \<noteq> []" and "(a, Dealloc v) \<in> set (ir_block (po_ir out))"
  shows "\<not> view_defined (po_ir out) v"
  using pass_out_cases [OF assms(1,2), of False] assms(3,4) dealloc_free
  by (fastforce simp: pass_out_def)

theorem pool_no_view_dealloc_witness: "\<not> view_defined (po_ir example_out) (Arg 2)"
  by (rule pool_no_view_dealloc [OF example_input example_run, of 4])
    (simp_all add: example_out_def example_placements_def rewritten_block_def)

section \<open>Errors\<close>

text \<open>C8: on functions in SSA form the pass fails exactly for a bad alignment, a second block, or a
  missing context when there is something to pool, in that order; the insertion-point errors
  never occur.\<close>

theorem pool_errors:
  assumes "folder_ok fo" and "sort_ok srt" and "al < 2 ^ 63"
    and "\<forall>ops \<in> set (fn_blocks fn). wf_ir (initial_ir ops) \<and>
      (\<forall>op \<in> set ops. case op of Alloc t dyn \<Rightarrow> type_ok t | _ \<Rightarrow> True)"
  shows "(run_on_operation resolve fo srt al lt fn = Inl e) =
    (if \<not> alignment_ok al then e = Bad_alignment al
     else case fn_blocks fn of
       [] \<Rightarrow> False
     | [ops] \<Rightarrow> pooled_allocs resolve ops \<noteq> [] \<and> \<not> fn_context fn \<and> e = Missing_context
     | _ \<Rightarrow> e = Multi_block)"
proof (cases "\<exists>ops. alignment_ok al \<and> fn_blocks fn = [ops] \<and> fn_context fn")
  case True
  then obtain ops where ops: "fn_blocks fn = [ops]"
    and ok: "pass_input_ok fo srt al fn ops"
    using assms by (auto simp: pass_input_ok_def)
  show ?thesis
  proof (cases "pooled_allocs resolve ops = []")
    case empty: True
    then show ?thesis
      using pass_empty [OF ok empty] ops True by simp
  next
    case False
    then show ?thesis
      using pass_result [OF ok False, of False undefined lt] ops True by auto
  qed
next
  case False
  then show ?thesis
    by (auto simp: run_on_operation_def pooled_allocs_def Let_def split: list.split)
qed

theorem pool_errors_witness:
  "run_on_operation self_alias never_fold by_bytes 256 False
     \<lparr>fn_context = False, fn_blocks = [example_ops]\<rparr> = Inl Missing_context"
proof -
  have al: "alignment_ok 256" and ty: "\<forall>op \<in> set example_ops. case op of Alloc t dyn \<Rightarrow> type_ok t | _ \<Rightarrow> True"
    by code_simp+
  then show ?thesis
    using pool_errors [OF never_fold_ok by_bytes_ok, of 256 "\<lparr>fn_context = False, fn_blocks = [example_ops]\<rparr>"
        self_alias False Missing_context] example_wf
    by (simp add: example_pooled)
qed

section \<open>Metadata\<close>

lemma placed_at_mem:
  assumes "distinct (map (\<lambda>pl. ai_def (pl_info pl)) pls)" and "pl \<in> set pls"
  shows "placed_at pls (pl_info pl) = Some pl"
  unfolding placed_at_def using assms by (intro map_of_is_SomeI) (auto simp: comp_def)

lemma pass_placed_at:
  assumes ok: "pass_input_ok fo srt al fn ops"
    and P: "all_placed fit \<rho> al lt srt (pass_domains resolve ops) plss s'"
    and i: "i \<in> set (pooled_allocs resolve ops)"
  shows "\<exists>pl \<in> set (concat plss). pl_info pl = i \<and> placed_at (concat plss) i = Some pl \<and>
    pl_domain pl < length (pass_domains resolve ops)"
proof -
  have wf: "wf_ir (initial_ir ops)"
    using ok by (simp add: pass_input_ok_def)
  note D = pass_domains_ok [OF wf, of resolve]
  have "i \<in> set (concat (pass_domains resolve ops))"
    using i by (simp only: mset_eq_setD [OF D(1)])
  then obtain pl where pl: "pl \<in> set (concat plss)" "pl_info pl = i"
    using pass_infos [OF P] by (metis (no_types, lifting) imageE list.set_map)
  have "map ai_def (map pl_info (concat plss)) = map ai_def (concat (pass_domains resolve ops))"
    by (simp only: pass_infos [OF P])
  then have "distinct (map (\<lambda>pl. ai_def (pl_info pl)) (concat plss))"
    using D(2) by (simp only: map_map comp_def)
  then show ?thesis
    using placed_at_mem [OF _ pl(1)] pl pass_placement [OF ok P pl(1)] by auto
qed

text \<open>The constant of an offset: of the operation that defines it, \<open>-1\<close> for any other operation.\<close>

lemma const_offset_cases:
  assumes "wf_ir s"
  shows "(\<exists>a k c. v = Res a k \<and> (a, Const_index c) \<in> set (ir_block s) \<and> const_offset s v = c) \<or>
    (\<forall>a k c. v = Res a k \<longrightarrow> (a, Const_index c) \<notin> set (ir_block s)) \<and> const_offset s v = - 1"
proof (cases v)
  case (Res a k)
  show ?thesis
  proof (cases "\<exists>c. (a, Const_index c) \<in> set (ir_block s)")
    case True
    then show ?thesis
      using wf_ir_map_of [OF assms] by (auto simp: Res const_offset_def)
  next
    case False
    then have "map_of (ir_block s) a \<noteq> Some (Const_index c)" for c
      using map_of_SomeD by fast
    then show ?thesis
      using False by (auto simp: Res const_offset_def split: option.split ir_op.split)
  qed
qed (simp add: const_offset_def)

text \<open>C15: the module metadata lists every pooled allocation once, in block order.  The listed offset is
  the value of the constant operation that defines the offset operand of the allocation's view, and
  \<open>-1\<close> if no constant operation defines it; with several domains the allocation's domain is listed,
  which is below the domain count.\<close>

theorem pool_metadata_parallel:
  assumes "pass_input_ok fo srt al fn ops" and "int64_sizes resolve al ops"
    and "run_on_operation64 resolve fo srt al lt fn = Inr (Some out)"
  shows "pm_buffer_count (po_meta out) = length (pooled_allocs resolve ops) \<and>
    length (pm_buffer_offsets (po_meta out)) = length (pooled_allocs resolve ops) \<and>
    (\<forall>j < length (pooled_allocs resolve ops). \<exists>pl \<in> set (po_placements out). \<exists>w.
       pl_info pl = pooled_allocs resolve ops ! j \<and> pl_view pl = Res w 0 \<and>
       (w, View (ai_type (pl_info pl)) (pl_pool pl) (pl_offset pl) (ai_dyn (pl_info pl))) \<in> set (ir_block (po_ir out)) \<and>
       ((\<exists>a k c. pl_offset pl = Res a k \<and> (a, Const_index c) \<in> set (ir_block (po_ir out)) \<and>
           pm_buffer_offsets (po_meta out) ! j = c) \<or>
        (\<forall>a k c. pl_offset pl = Res a k \<longrightarrow> (a, Const_index c) \<notin> set (ir_block (po_ir out))) \<and>
           pm_buffer_offsets (po_meta out) ! j = - 1) \<and>
       (case pm_multi (po_meta out) of
          None \<Rightarrow> pl_domain pl = 0
        | Some m \<Rightarrow> md_buffer_domains m ! j = pl_domain pl \<and> pl_domain pl < md_domain_count m \<and>
            length (md_pool_sizes m) = md_domain_count m))"
proof (cases "pooled_allocs resolve ops = []")
  case True
  then show ?thesis
    using pass_empty [OF assms(1)] assms(3) by (auto simp: zero_meta_def run_on_operation64_eq [OF assms(1,2)])
next
  case False
  have run: "run_on_operation resolve fo srt al lt fn = Inr (Some out)"
    using assms(3) by (simp only: run_on_operation64_eq [OF assms(1,2)])
  obtain plss s' where out: "out = pass_out resolve srt al lt ops plss s'" and wf: "wf_ir s'"
    and P: "all_placed False undefined al lt srt (pass_domains resolve ops) plss s'"
    using pass_out_cases [OF assms(1) run, of False undefined] False by auto
  have each: "\<exists>pl \<in> set (concat plss). \<exists>w. pl_info pl = pooled_allocs resolve ops ! j \<and> pl_view pl = Res w 0 \<and>
      (w, View (ai_type (pl_info pl)) (pl_pool pl) (pl_offset pl) (ai_dyn (pl_info pl))) \<in> set (ir_block (erase_view_deallocs s')) \<and>
      placed_at (concat plss) (pooled_allocs resolve ops ! j) = Some pl \<and> pl_const pl = const_offset s' (pl_offset pl) \<and>
      pl_domain pl < length (pass_domains resolve ops)" if j: "j < length (pooled_allocs resolve ops)" for j
  proof -
    obtain pl where pl: "pl \<in> set (concat plss)" "pl_info pl = pooled_allocs resolve ops ! j"
      "placed_at (concat plss) (pooled_allocs resolve ops ! j) = Some pl" "pl_domain pl < length (pass_domains resolve ops)"
      using pass_placed_at [OF assms(1) P nth_mem [OF j]] by blast
    moreover have "view_placed s' pl"
      using pass_placement [OF assms(1) P pl(1)] by blast
    then have "pl_const pl = const_offset s' (pl_offset pl)"
      by (simp add: view_placed_def)
    ultimately show ?thesis
      using placed_views [OF assms(1) P pl(1)] by (intro bexI [OF _ pl(1)]) auto
  qed
  have const: "((\<exists>a k c. v = Res a k \<and> (a, Const_index c) \<in> set (ir_block (erase_view_deallocs s')) \<and> const_offset s' v = c) \<or>
      (\<forall>a k c. v = Res a k \<longrightarrow> (a, Const_index c) \<notin> set (ir_block (erase_view_deallocs s'))) \<and> const_offset s' v = - 1)" for v
  proof -
    have "(a, Const_index c) \<in> set (ir_block (erase_view_deallocs s')) \<longleftrightarrow> (a, Const_index c) \<in> set (ir_block s')" for a c
      using erase_view_deallocs_mem [of "(a, Const_index c)" s'] by auto
    then show ?thesis
      using const_offset_cases [OF wf, of v] by simp
  qed
  show ?thesis
    unfolding out pass_out_def
  proof (simp only: pool_outcome.simps, intro conjI allI impI)
    fix j
    assume j: "j < length (pooled_allocs resolve ops)"
    obtain pl w where pl: "pl \<in> set (concat plss)" "pl_info pl = pooled_allocs resolve ops ! j" "pl_view pl = Res w 0"
      "(w, View (ai_type (pl_info pl)) (pl_pool pl) (pl_offset pl) (ai_dyn (pl_info pl))) \<in> set (ir_block (erase_view_deallocs s'))"
      "placed_at (concat plss) (pooled_allocs resolve ops ! j) = Some pl" "pl_const pl = const_offset s' (pl_offset pl)"
      "pl_domain pl < length (pass_domains resolve ops)"
      using each [OF j] by blast
    let ?m = "pool_metadata (pooled_allocs resolve ops) (pass_sizes resolve srt al lt ops) (concat plss)"
    have "pm_buffer_offsets ?m ! j = const_offset s' (pl_offset pl)"
      using j pl(5,6) by (simp add: pool_metadata_def)
    moreover have "case pm_multi ?m of None \<Rightarrow> pl_domain pl = 0
      | Some m \<Rightarrow> md_buffer_domains m ! j = pl_domain pl \<and> pl_domain pl < md_domain_count m \<and> length (md_pool_sizes m) = md_domain_count m"
      using j pl(5,7) by (auto simp: pool_metadata_def pass_sizes_def)
    ultimately show "\<exists>pl \<in> set (concat plss). \<exists>w. pl_info pl = pooled_allocs resolve ops ! j \<and> pl_view pl = Res w 0 \<and>
       (w, View (ai_type (pl_info pl)) (pl_pool pl) (pl_offset pl) (ai_dyn (pl_info pl))) \<in> set (ir_block (erase_view_deallocs s')) \<and>
       ((\<exists>a k c. pl_offset pl = Res a k \<and> (a, Const_index c) \<in> set (ir_block (erase_view_deallocs s')) \<and>
           pm_buffer_offsets ?m ! j = c) \<or>
        (\<forall>a k c. pl_offset pl = Res a k \<longrightarrow> (a, Const_index c) \<notin> set (ir_block (erase_view_deallocs s'))) \<and>
           pm_buffer_offsets ?m ! j = - 1) \<and>
       (case pm_multi ?m of
          None \<Rightarrow> pl_domain pl = 0
        | Some m \<Rightarrow> md_buffer_domains m ! j = pl_domain pl \<and> pl_domain pl < md_domain_count m \<and>
            length (md_pool_sizes m) = md_domain_count m)"
      using pl(1-4) const [of "pl_offset pl"] by (intro bexI [OF _ pl(1)] exI [of _ w]) simp
  qed (simp_all add: pool_metadata_def)
qed

theorem pool_metadata_parallel_witness:
  "pm_buffer_count (po_meta example_out) = 2 \<and>
   (\<exists>pl \<in> set (po_placements example_out). pl_info pl = example_static \<and>
     (\<exists>a k c. pl_offset pl = Res a k \<and> (a, Const_index c) \<in> set rewritten_block \<and>
       pm_buffer_offsets (po_meta example_out) ! 0 = c))"
proof -
  have "pm_buffer_offsets (po_meta example_out) ! 0 \<noteq> - 1" "ir_block (po_ir example_out) = rewritten_block"
    by (simp_all add: example_out_def)
  then show ?thesis
    using pool_metadata_parallel [OF example_input example_int64 example_run64] unfolding example_pooled by fastforce
qed

section \<open>Lifetimes\<close>

lemma foldl_uses_ge:
  "(m :: nat) \<le> foldl (\<lambda>m (d, u). if d then m else max m (f u)) m us \<and>
   (\<forall>(d, u) \<in> set us. d \<or> f u \<le> foldl (\<lambda>m (d, u). if d then m else max m (f u)) m us)"
  by (induction us arbitrary: m) (auto split: if_splits, (meson max.boundedE order_trans)+)

lemma foldl_aliases_ge:
  "(m :: nat) \<le> foldl (\<lambda>m alias. foldl (\<lambda>m (d, u). if d then m else max m (f u)) m (us alias)) m as \<and>
   (\<forall>alias \<in> set as. \<forall>(d, u) \<in> set (us alias). d \<or>
      f u \<le> foldl (\<lambda>m alias. foldl (\<lambda>m (d, u). if d then m else max m (f u)) m (us alias)) m as)"
proof (induction as arbitrary: m)
  case (Cons a as)
  let ?l = "foldl (\<lambda>m (d, u). if d then m else max m (f u)) m (us a)"
  show ?case
    using Cons [of ?l] foldl_uses_ge [of m f "us a"] by (fastforce dest: order_trans)
qed simp

text \<open>C16: an allocation's recorded lifetime reaches every use, direct or nested in a region, of every
  alias of it, other than its deallocations.\<close>

theorem lifetime_covers_uses:
  assumes "i \<in> set (collect_allocs resolve blk)" and "distinct (map fst blk)"
    and "alias \<in> set (resolve (Res (fst (blk ! ai_def i)) 0))"
    and "(False, u) \<in> set (users_of blk alias)"
  shows "user_index (op_pos blk) (length blk) u \<le> ai_last i"
proof -
  obtain x where x: "x \<in> set blk" "i \<in> set (collect_alloc resolve blk x)"
    using assms(1) by (auto simp: collect_allocs_def)
  have "ai_def i = op_pos blk (fst x)"
    and last: "ai_last i = find_last_aliased_use_index resolve (users_of blk) (op_pos blk) (length blk) (Res (fst x) 0)"
    using x(2) by (auto simp: collect_alloc_def split: ir_op.splits if_splits)
  then have "fst (blk ! ai_def i) = fst x"
    using op_pos_nth [of "fst x" blk] x(1) by simp
  then show ?thesis
    using foldl_aliases_ge [where m = 0 and f = "user_index (op_pos blk) (length blk)" and
        us = "users_of blk" and as = "resolve (Res (fst x) 0)"] assms(3,4)
    unfolding last find_last_aliased_use_index_def by fastforce
qed

theorem lifetime_covers_uses_witness:
  "user_index (op_pos example_input_block) 5 (In_block 2) \<le> ai_last example_dynamic"
proof -
  have "collect_allocs self_alias example_input_block = [example_static, example_dynamic]"
    and "(False, In_block 2) \<in> set (users_of example_input_block (Res 1 0))"
    and "distinct (map fst example_input_block)" and "length example_input_block = 5"
    and "Res 1 0 \<in> set (self_alias (Res (fst (example_input_block ! ai_def example_dynamic)) 0))"
    by code_simp+
  then show ?thesis
    using lifetime_covers_uses [of example_dynamic self_alias example_input_block "Res 1 0" "In_block 2"]
    by simp
qed

end
