(* ===== verification/Allocator_Interface.thy ===== *)
theory Allocator_Interface
  imports Prelude
begin

text \<open>
  The contract between a provider of address ranges and its clients.  A provider hands
  out ranges that are disjoint from every range still live and takes them back one by
  one.  The session's transient arena provides it inside one region, and the session's
  device allocator (arena first, then \<open>hipMalloc\<close>) provides it over the device
  address space, as does the pinned host allocator; the grow-on-demand pools and scratch
  buffers are their clients, and the last sections say what the owners of ranges keep.
\<close>

locale range_allocator =
  fixes alloc :: "'s \<Rightarrow> nat \<Rightarrow> 's \<times> nat option"
    and release :: "'s \<Rightarrow> nat \<Rightarrow> 's"
    and live :: "'s \<Rightarrow> block set"
    and inv :: "'s \<Rightarrow> bool"
  assumes inv_alloc: "inv s \<Longrightarrow> 0 < n \<Longrightarrow> n < size_limit \<Longrightarrow> inv (fst (alloc s n))"
    and inv_release: "inv s \<Longrightarrow> (p, len) \<in> live s \<Longrightarrow> inv (release s p)"
    and alloc_Some: "inv s \<Longrightarrow> 0 < n \<Longrightarrow> n < size_limit \<Longrightarrow> alloc s n = (s', Some p) \<Longrightarrow>
        \<exists>len. n \<le> len \<and> (p, len) \<notin> live s \<and> live s' = insert (p, len) (live s)"
    and alloc_None: "inv s \<Longrightarrow> 0 < n \<Longrightarrow> n < size_limit \<Longrightarrow> alloc s n = (s', None) \<Longrightarrow> live s' = live s"
    and release_live: "inv s \<Longrightarrow> (p, len) \<in> live s \<Longrightarrow> live (release s p) = live s - {(p, len)}"
    and live_disjoint: "inv s \<Longrightarrow> b \<in> live s \<Longrightarrow> c \<in> live s \<Longrightarrow> b \<noteq> c \<Longrightarrow> disjoint_blocks b c"
    and live_pos: "inv s \<Longrightarrow> b \<in> live s \<Longrightarrow> 0 < snd b"
begin

lemma live_start_unique:
  assumes "inv s" and "(p, m) \<in> live s" and "(p, n) \<in> live s"
  shows "m = n"
proof (rule ccontr)
  assume "m \<noteq> n"
  then have "disjoint_blocks (p, m) (p, n)"
    using live_disjoint [OF assms] by simp
  moreover have "0 < m" and "0 < n"
    using live_pos [OF assms(1)] assms(2,3) by force+
  ultimately show False by (auto simp: disjoint_blocks_def)
qed

lemma alloc_disjoint:
  assumes "inv s" "0 < n" "n < size_limit" "alloc s n = (s', Some p)" "b \<in> live s"
  shows "disjoint_blocks (p, n) b"
proof -
  obtain len where len: "n \<le> len" "(p, len) \<notin> live s" "live s' = insert (p, len) (live s)"
    using alloc_Some [OF assms(1-4)] by blast
  have "inv s'"
    using inv_alloc [OF assms(1-3)] assms(4) by simp
  then have "disjoint_blocks (p, len) b"
    using live_disjoint [of s' "(p, len)" b] len assms(5) by auto
  then show ?thesis
    using len(1) by (auto simp: disjoint_blocks_def)
qed

end

text \<open>A provider whose ranges are pointers: none starts at the null address.\<close>

locale pointer_allocator = range_allocator +
  assumes live_nonnull: "inv s \<Longrightarrow> b \<in> live s \<Longrightarrow> fst b \<noteq> 0"

section \<open>Owners of ranges\<close>

text \<open>
  Over any assignment of ranges to owners and any set of live ranges: an owner holds nothing
  or the start of a live range at least as long as it recorded, and no two share a start.
\<close>

definition backed :: "block \<Rightarrow> block set \<Rightarrow> bool" where
  "backed b L \<longleftrightarrow> (if fst b = 0 then snd b = 0 else (\<exists>len. snd b \<le> len \<and> (fst b, len) \<in> L))"

definition owned_ok :: "('b \<Rightarrow> block) \<Rightarrow> block set \<Rightarrow> bool" where
  "owned_ok B L \<longleftrightarrow> (\<forall>b. backed (B b) L) \<and>
     (\<forall>b c. b \<noteq> c \<longrightarrow> fst (B b) = 0 \<or> fst (B b) \<noteq> fst (B c))"

definition starts :: "('b \<Rightarrow> block) \<Rightarrow> nat set" where
  "starts B = range (fst \<circ> B) - {0}"

definition unowned :: "('b \<Rightarrow> block) \<Rightarrow> block set \<Rightarrow> block set" where
  "unowned B L = {r \<in> L. fst r \<notin> starts B}"

lemma in_starts: "p \<in> starts B \<longleftrightarrow> p \<noteq> 0 \<and> (\<exists>b. fst (B b) = p)"
  by (auto simp: starts_def)

lemma starts_release:
  assumes "fst (B b) = p" and "\<And>c. c \<noteq> b \<Longrightarrow> fst (B c) \<noteq> p"
  shows "starts (B(b := (0, n))) = starts B - {p}"
  using assms unfolding set_eq_iff in_starts Diff_iff by (metis fst_conv fun_upd_apply singleton_iff)

lemma starts_acquire:
  assumes "fst (B b) = 0" and "p \<noteq> 0"
  shows "starts (B(b := (p, n))) = insert p (starts B)"
  using assms unfolding set_eq_iff in_starts insert_iff by (metis fst_conv fun_upd_apply)

lemma backed_mono: "backed b L \<Longrightarrow> (\<And>l. (fst b, l) \<in> L \<Longrightarrow> (fst b, l) \<in> L') \<Longrightarrow> backed b L'"
  by (auto simp: backed_def split: if_splits)

lemma owned_okD:
  assumes "owned_ok B L"
  shows "backed (B b) L" and "b \<noteq> c \<Longrightarrow> fst (B b) = 0 \<or> fst (B b) \<noteq> fst (B c)"
  using assms unfolding owned_ok_def by blast+

lemma owned_ok_update:
  assumes ok: "owned_ok B L" and new: "backed (p, n) L'"
    and other: "\<And>c. c \<noteq> b \<Longrightarrow> p = 0 \<or> fst (B c) \<noteq> p"
    and keep: "\<And>c l. c \<noteq> b \<Longrightarrow> (fst (B c), l) \<in> L \<Longrightarrow> (fst (B c), l) \<in> L'"
  shows "owned_ok (B(b := (p, n))) L'"
  unfolding owned_ok_def
proof (intro conjI allI impI)
  fix c
  show "backed ((B(b := (p, n))) c) L'"
    using new backed_mono [OF owned_okD(1) [OF ok, of c], of L'] keep [of c] by auto
next
  fix c d :: 'a
  assume "c \<noteq> d"
  then show "fst ((B(b := (p, n))) c) = 0 \<or> fst ((B(b := (p, n))) c) \<noteq> fst ((B(b := (p, n))) d)"
    using owned_okD(2) [OF ok, of c d] other [of c] other [of d] by auto
qed

lemma owned_release:
  assumes ok: "owned_ok B L" and b: "fst (B b) = p" "p \<noteq> 0"
    and start: "\<And>l. (p, l) \<in> L \<Longrightarrow> l = len"
  shows "owned_ok (B(b := (0, 0))) (L - {(p, len)})"
    and "unowned (B(b := (0, 0))) (L - {(p, len)}) = unowned B L"
proof -
  have other: "fst (B c) \<noteq> p" if "c \<noteq> b" for c
    using owned_okD(2) [OF ok, of b c] b that by auto
  then show "owned_ok (B(b := (0, 0))) (L - {(p, len)})"
    by (intro owned_ok_update [OF ok]) (auto simp: backed_def)
  have "r = (p, len)" if "r \<in> L" "fst r = p" for r
    using start that by (cases r) simp
  note only = this
  have S: "starts (B(b := (0, 0))) = starts B - {p}" "p \<in> starts B"
    using starts_release [of B b p] other b by (auto simp: in_starts)
  have "r \<in> unowned (B(b := (0, 0))) (L - {(p, len)}) \<longleftrightarrow> r \<in> unowned B L" for r
    using only [of r] S(2) unfolding unowned_def S(1) by (cases "fst r = p") auto
  then show "unowned (B(b := (0, 0))) (L - {(p, len)}) = unowned B L"
    by blast
qed

lemma owned_acquire:
  assumes ok: "owned_ok B L" and b: "fst (B b) = 0" and p: "p \<noteq> 0" "n \<le> len" and new: "\<And>l. (p, l) \<notin> L"
  shows "owned_ok (B(b := (p, n))) (insert (p, len) L)"
    and "unowned (B(b := (p, n))) (insert (p, len) L) = unowned B L"
proof -
  have other: "fst (B c) \<noteq> p" for c
    using owned_okD(1) [OF ok, of c] p new by (auto simp: backed_def)
  then show "owned_ok (B(b := (p, n))) (insert (p, len) L)"
    using p by (intro owned_ok_update [OF ok]) (auto simp: backed_def)
  have "starts (B(b := (p, n))) = insert p (starts B)"
    using b p(1) by (rule starts_acquire)
  moreover have "fst r \<noteq> p" if "r \<in> L" for r
    using new that by (cases r) auto
  ultimately show "unowned (B(b := (p, n))) (insert (p, len) L) = unowned B L"
    unfolding unowned_def by auto
qed


section \<open>What a provider's owners keep\<close>

context pointer_allocator begin

lemma owned_free:
  assumes "inv s" and "owned_ok B (live s)" and "fst (B b) = p" and "p \<noteq> 0"
  shows "inv (release s p)" and "owned_ok (B(b := (0, 0))) (live (release s p))"
    and "unowned (B(b := (0, 0))) (live (release s p)) = unowned B (live s)"
proof -
  obtain len where len: "(p, len) \<in> live s"
    using owned_okD(1) [OF assms(2), of b] assms(3,4) by (auto simp: backed_def)
  have r: "live (release s p) = live s - {(p, len)}"
    by (rule release_live [OF assms(1) len])
  have only: "l = len" if "(p, l) \<in> live s" for l
    using live_start_unique [OF assms(1) that len] .
  show "inv (release s p)"
    by (rule inv_release [OF assms(1) len])
  show "owned_ok (B(b := (0, 0))) (live (release s p))"
    and "unowned (B(b := (0, 0))) (live (release s p)) = unowned B (live s)"
    unfolding r using owned_release [OF assms(2-4), of len] only by blast+
qed

lemma owned_alloc:
  assumes "inv s" and "owned_ok B (live s)" and "fst (B b) = 0" and n: "0 < n" "n < size_limit"
    and a: "alloc s n = (s', Some q)"
  shows "inv s'" and "q \<noteq> 0" and "owned_ok (B(b := (q, n))) (live s')"
    and "unowned (B(b := (q, n))) (live s') = unowned B (live s)"
proof -
  obtain len where len: "n \<le> len" "(q, len) \<notin> live s" "live s' = insert (q, len) (live s)"
    using alloc_Some [OF assms(1) n a] by blast
  show i: "inv s'"
    using inv_alloc [OF assms(1) n] a by simp
  then show q: "q \<noteq> 0"
    using live_nonnull [of s' "(q, len)"] len(3) by simp
  have new: "(q, l) \<notin> live s" for l
    using live_start_unique [OF i, of q l len] len(2,3) by blast
  show "owned_ok (B(b := (q, n))) (live s')" and "unowned (B(b := (q, n))) (live s') = unowned B (live s)"
    unfolding len(3) using owned_acquire [OF assms(2,3) q len(1)] new by blast+
qed

lemma owned_alloc_failed:
  assumes "inv s" and "n < size_limit" and "0 < n" and a: "alloc s n = (s', None)"
  shows "inv s'" and "live s' = live s"
  using inv_alloc [of s n] alloc_None [of s n s'] assms by simp_all

end

end
