(* ===== verification/Transient_Arena.thy ===== *)
theory Transient_Arena
  imports Allocator_Interface
begin

text \<open>
  \<open>TransientArenaAllocator\<close> of \<open>lib/Runtime/transient_arena.h\<close>: the first-fit
  offset allocator over the session's transient arena.  The record mirrors the private
  fields, \<open>free_\<close> and \<open>live_\<close> are ordered maps from offset to bytes.  The
  invariant says that free and live blocks tile the arena, are aligned, that the
  counters agree with the blocks and that no two free blocks touch.
\<close>

section \<open>State and operations\<close>

record arena =
  ar_size :: nat
  ar_free :: "block list"
  ar_live :: "block list"
  ar_used :: nat
  ar_hwm :: nat
  ar_hits :: nat
  ar_misses :: nat
  ar_miss_bytes :: nat

definition k_align :: nat where
  "k_align = 4096"

definition round_up :: "nat \<Rightarrow> nat" where
  "round_up bytes =
     (if bytes = 0 then k_align
      else unat ((of_nat bytes + of_nat k_align - 1 :: 64 word) AND NOT (of_nat k_align - 1)))"

definition arena_init :: "nat \<Rightarrow> arena" where
  "arena_init bytes =
     (let sz = unat ((of_nat bytes :: 64 word) AND NOT (of_nat k_align - 1))
      in \<lparr>ar_size = sz, ar_free = (if 0 < sz then om_put 0 sz [] else []), ar_live = [],
          ar_used = 0, ar_hwm = 0, ar_hits = 0, ar_misses = 0, ar_miss_bytes = 0\<rparr>)"

fun first_fit :: "nat \<Rightarrow> block list \<Rightarrow> block option" where
  "first_fit need [] = None"
| "first_fit need (b # bs) = (if snd b < need then first_fit need bs else Some b)"

definition arena_allocate :: "arena \<Rightarrow> nat \<Rightarrow> arena \<times> nat option" where
  "arena_allocate a bytes =
     (let need = round_up bytes in
      case (if bytes \<le> ar_size a then first_fit need (ar_free a) else None) of
        Some (offset, avail) \<Rightarrow>
          let free1 = om_del offset (ar_free a);
              free2 = (if need < avail then om_put (sz_add offset need) (avail - need) free1
                       else free1);
              used = sz_add (ar_used a) need
          in (a\<lparr>ar_free := free2, ar_live := om_put offset need (ar_live a), ar_used := used,
                ar_hwm := max (ar_hwm a) used, ar_hits := sz_add (ar_hits a) 1\<rparr>, Some offset)
      | None \<Rightarrow>
          (a\<lparr>ar_misses := sz_add (ar_misses a) 1,
             ar_miss_bytes := sz_add (ar_miss_bytes a) bytes\<rparr>, None))"

definition coalesce_next :: "block list \<Rightarrow> nat \<Rightarrow> nat \<Rightarrow> block list \<times> nat" where
  "coalesce_next fr offset len =
     (case om_lower_bound offset fr of
        Some (k, v) \<Rightarrow>
          if k = sz_add offset len then (om_del k fr, sz_add len v) else (fr, len)
      | None \<Rightarrow> (fr, len))"

definition coalesce_prev :: "block list \<Rightarrow> nat \<Rightarrow> nat \<Rightarrow> block list" where
  "coalesce_prev fr offset len =
     (case om_before offset fr of
        Some (k, v) \<Rightarrow>
          if sz_add k v = offset then om_put k (sz_add v len) fr else om_put offset len fr
      | None \<Rightarrow> om_put offset len fr)"

definition arena_release :: "arena \<Rightarrow> nat \<Rightarrow> arena \<times> bool" where
  "arena_release a offset =
     (case map_of (ar_live a) offset of
        None \<Rightarrow> (a, False)
      | Some len0 \<Rightarrow>
          let (fr, len) = coalesce_next (ar_free a) offset len0
          in (a\<lparr>ar_live := om_del offset (ar_live a), ar_used := sz_sub (ar_used a) len0,
                ar_free := coalesce_prev fr offset len\<rparr>, True))"

definition arena_block_bytes :: "arena \<Rightarrow> nat \<Rightarrow> nat" where
  "arena_block_bytes a offset =
     (case map_of (ar_live a) offset of None \<Rightarrow> 0 | Some len \<Rightarrow> len)"

datatype arena_op = Allocate nat | Release nat

fun arena_step :: "arena \<Rightarrow> arena_op \<Rightarrow> arena" where
  "arena_step a (Allocate n) = fst (arena_allocate a n)"
| "arena_step a (Release p) = fst (arena_release a p)"

section \<open>Rounding\<close>

lemma round_up_eq:
  assumes "bytes + k_align \<le> size_limit"
  shows "round_up bytes = round_to k_align (max 1 bytes)"
proof (cases "bytes = 0")
  case True
  then show ?thesis by (simp add: round_up_def round_to_def k_align_def)
next
  case False
  let ?w = "of_nat bytes + of_nat k_align - 1 :: 64 word"
  have m: "(of_nat k_align - 1 :: 64 word) = mask 12"
    by (simp add: k_align_def mask_eq_exp_minus_1)
  have "?w = of_nat (bytes + 4095)"
    by (simp add: k_align_def)
  moreover have "bytes + 4095 < 2 ^ 64"
    using assms by (simp add: k_align_def)
  ultimately have w: "unat ?w = bytes + 4095"
    by (simp only: unat_of_nat) simp
  have "round_up bytes = (bytes + 4095) - (bytes + 4095) mod 2 ^ 12"
    using False by (simp only: round_up_def m unat_and_not_mask w if_False)
  also have "\<dots> = (bytes + 4095) div 4096 * 4096"
    by (simp add: minus_mod_eq_div_mult)
  finally show ?thesis
    using False by (simp add: round_to_def k_align_def)
qed

lemma round_up_facts:
  assumes "bytes \<le> n" and "n < size_limit" and "k_align dvd n"
  shows "round_up bytes = round_to k_align (max 1 bytes)" and "bytes \<le> round_up bytes"
    and "0 < round_up bytes" and "k_align dvd round_up bytes"
proof -
  have "n + k_align \<le> size_limit"
  proof -
    obtain j where "n = k_align * j" using assms(3) by blast
    moreover have "(size_limit :: nat) = k_align * 2 ^ 52"
      by (simp add: k_align_def)
    ultimately show ?thesis
      using assms(2) by (simp add: k_align_def)
  qed
  then show eq: "round_up bytes = round_to k_align (max 1 bytes)"
    using assms(1) by (intro round_up_eq) simp
  have "max 1 bytes \<le> round_up bytes"
    unfolding eq by (rule round_to_ge) (simp add: k_align_def)
  then show "bytes \<le> round_up bytes" and "0 < round_up bytes"
    by simp_all
  show "k_align dvd round_up bytes"
    by (simp add: eq)
qed

section \<open>Invariant\<close>

definition aligned_block :: "block \<Rightarrow> bool" where
  "aligned_block b \<longleftrightarrow> 0 < snd b \<and> k_align dvd fst b \<and> k_align dvd snd b"

definition coalesced :: "block list \<Rightarrow> bool" where
  "coalesced fr \<longleftrightarrow> (\<forall>b \<in> set fr. map_of fr (fst b + snd b) = None)"

definition tiled :: "arena \<Rightarrow> bool" where
  "tiled a \<longleftrightarrow>
     (\<forall>x. cover (ar_free a) x + cover (ar_live a) x = of_bool (x < ar_size a))"

definition arena_inv :: "arena \<Rightarrow> bool" where
  "arena_inv a \<longleftrightarrow>
     ar_size a < size_limit \<and> k_align dvd ar_size a \<and>
     om_sorted (ar_free a) \<and> om_sorted (ar_live a) \<and>
     (\<forall>b \<in> set (ar_free a) \<union> set (ar_live a). aligned_block b) \<and>
     tiled a \<and> coalesced (ar_free a) \<and>
     ar_used a = sum_list (map snd (ar_live a)) \<and>
     ar_used a \<le> ar_hwm a \<and> ar_hwm a \<le> ar_size a"

lemma arena_invD:
  assumes "arena_inv a"
  shows "ar_size a < size_limit" "k_align dvd ar_size a" "om_sorted (ar_free a)"
    "om_sorted (ar_live a)" "\<And>b. b \<in> set (ar_free a) \<Longrightarrow> aligned_block b"
    "\<And>b. b \<in> set (ar_live a) \<Longrightarrow> aligned_block b" "tiled a" "coalesced (ar_free a)"
    "ar_used a = sum_list (map snd (ar_live a))" "ar_used a \<le> ar_hwm a" "ar_hwm a \<le> ar_size a"
  using assms by (auto simp: arena_inv_def)

lemma tiledD:
  assumes "tiled a"
  shows "cover (ar_free a) x \<le> 1" "cover (ar_live a) x \<le> 1"
    "0 < cover (ar_free a) x \<Longrightarrow> cover (ar_live a) x = 0"
    "0 < cover (ar_live a) x \<Longrightarrow> cover (ar_free a) x = 0"
    "0 < cover (ar_free a) x \<Longrightarrow> x < ar_size a"
    "0 < cover (ar_live a) x \<Longrightarrow> x < ar_size a"
    "x < ar_size a \<Longrightarrow> 0 < cover (ar_free a) x \<or> 0 < cover (ar_live a) x"
proof -
  have "cover (ar_free a) x + cover (ar_live a) x = of_bool (x < ar_size a)"
    using assms by (simp add: tiled_def)
  then show "cover (ar_free a) x \<le> 1" "cover (ar_live a) x \<le> 1"
    "0 < cover (ar_free a) x \<Longrightarrow> cover (ar_live a) x = 0"
    "0 < cover (ar_live a) x \<Longrightarrow> cover (ar_free a) x = 0"
    "0 < cover (ar_free a) x \<Longrightarrow> x < ar_size a"
    "0 < cover (ar_live a) x \<Longrightarrow> x < ar_size a"
    "x < ar_size a \<Longrightarrow> 0 < cover (ar_free a) x \<or> 0 < cover (ar_live a) x"
    by (cases "x < ar_size a"; auto)+
qed

lemma block_bounded:
  assumes "\<And>x. 0 < cover bs x \<Longrightarrow> x < N" and "b \<in> set bs" and "0 < snd b"
  shows "fst b + snd b \<le> N"
proof -
  have "in_block b (fst b + snd b - 1)"
    using assms(3) by (auto simp: in_block_def)
  then have "0 < cover bs (fst b + snd b - 1)"
    by (rule cover_pos [OF assms(2)])
  then have "fst b + snd b - 1 < N"
    by (rule assms(1))
  then show ?thesis
    using assms(3) by simp
qed

lemma free_bounded: "arena_inv a \<Longrightarrow> b \<in> set (ar_free a) \<Longrightarrow> fst b + snd b \<le> ar_size a"
  by (rule block_bounded [of "ar_free a"])
    (auto dest: tiledD(5) [OF arena_invD(7)] arena_invD(5) simp: aligned_block_def)

lemma live_bounded: "arena_inv a \<Longrightarrow> b \<in> set (ar_live a) \<Longrightarrow> fst b + snd b \<le> ar_size a"
  by (rule block_bounded [of "ar_live a"])
    (auto dest: tiledD(6) [OF arena_invD(7)] arena_invD(6) simp: aligned_block_def)

lemma live_blocks_disjoint:
  assumes "arena_inv a" "b \<in> set (ar_live a)" "c \<in> set (ar_live a)" "b \<noteq> c"
  shows "disjoint_blocks b c"
proof (rule disjoint_blocksI)
  show "0 < snd b" "0 < snd c"
    using assms by (auto dest: arena_invD(6) simp: aligned_block_def)
  show "\<not> (in_block b x \<and> in_block c x)" for x
    using cover_unique [OF tiledD(2) [OF arena_invD(7) [OF assms(1)]] assms(2,3), of x] assms(4)
    by blast
qed

lemma free_live_disjoint:
  assumes "arena_inv a" "b \<in> set (ar_free a)" "c \<in> set (ar_live a)"
  shows "disjoint_blocks b c"
proof (rule disjoint_blocksI)
  show "0 < snd b" "0 < snd c"
    using assms by (auto dest: arena_invD(5,6) simp: aligned_block_def)
  show "\<not> (in_block b x \<and> in_block c x)" for x
    using tiledD(3) [OF arena_invD(7) [OF assms(1)], of x] cover_pos [OF assms(2), of x]
      cover_pos [OF assms(3), of x] by auto
qed

lemma arena_init_inv: "n < size_limit \<Longrightarrow> arena_inv (arena_init n)"
proof -
  assume n: "n < size_limit"
  have m: "(of_nat k_align - 1 :: 64 word) = mask 12"
    by (simp add: k_align_def mask_eq_exp_minus_1)
  define sz where "sz = unat ((of_nat n :: 64 word) AND NOT (of_nat k_align - 1))"
  have "sz = n - n mod 2 ^ 12"
    unfolding sz_def m unat_and_not_mask using n by (simp add: unat_of_nat)
  then have sz: "sz = n div 4096 * 4096"
    by (simp add: minus_mod_eq_div_mult)
  then have "sz \<le> n" "k_align dvd sz"
    by (simp_all add: k_align_def)
  then show ?thesis
    using n by (auto simp: arena_init_def arena_inv_def tiled_def coalesced_def aligned_block_def
        in_block_def Let_def simp flip: sz_def)
qed

section \<open>Splitting and merging free blocks\<close>

lemma first_fit_SomeD: "first_fit need bs = Some b \<Longrightarrow> b \<in> set bs \<and> need \<le> snd b"
  by (induction bs) (auto split: if_splits)

lemma first_fit_NoneD: "first_fit need bs = None \<Longrightarrow> b \<in> set bs \<Longrightarrow> snd b < need"
  by (induction bs) (auto split: if_splits)

text \<open>A well-formed free list next to a block that is about to leave or join it.\<close>

definition free_list_ok :: "nat \<Rightarrow> block list \<Rightarrow> bool" where
  "free_list_ok n fr \<longleftrightarrow> n < size_limit \<and> om_sorted fr \<and> (\<forall>b \<in> set fr. aligned_block b) \<and>
     coalesced fr \<and> (\<forall>x. cover fr x \<le> of_bool (x < n))"

lemma free_list_okD:
  assumes "free_list_ok n fr"
  shows "n < size_limit" "om_sorted fr" "\<And>b. b \<in> set fr \<Longrightarrow> 0 < snd b"
    "\<And>b. b \<in> set fr \<Longrightarrow> aligned_block b" "coalesced fr"
    "\<And>x. cover fr x \<le> 1" "\<And>b. b \<in> set fr \<Longrightarrow> fst b + snd b \<le> n"
proof -
  have c: "cover fr x \<le> of_bool (x < n)" for x
    using assms by (simp add: free_list_ok_def)
  show pos: "0 < snd b" and "aligned_block b" if "b \<in> set fr" for b
    using that assms by (auto simp: free_list_ok_def aligned_block_def)
  show "cover fr x \<le> 1" for x
    using c [of x] by (cases "x < n") auto
  show "fst b + snd b \<le> n" if "b \<in> set fr" for b
    using that pos [OF that] c by (intro block_bounded [of fr n]) (metis not_gr0 of_bool_eq(1) le_0_eq)+
qed (use assms in \<open>auto simp: free_list_ok_def\<close>)

lemma free_list_unique:
  "free_list_ok n fr \<Longrightarrow> b \<in> set fr \<Longrightarrow> c \<in> set fr \<Longrightarrow> in_block b x \<Longrightarrow> in_block c x \<Longrightarrow> b = c"
  by (rule cover_unique [OF free_list_okD(6)])

lemma coalescedD: "coalesced fr \<Longrightarrow> b \<in> set fr \<Longrightarrow> map_of fr (fst b + snd b) = None"
  by (simp add: coalesced_def)

lemma arena_free_ok:
  assumes "arena_inv a"
  shows "free_list_ok (ar_size a) (ar_free a)"
proof -
  have "cover (ar_free a) x \<le> of_bool (x < ar_size a)" for x
    using arena_invD(7) [OF assms] by (metis le_add1 tiled_def)
  then show ?thesis
    using assms by (simp add: arena_inv_def free_list_ok_def)
qed

lemma take_from_block:
  assumes ok: "free_list_ok n fr" and b: "(o1, av) \<in> set fr" and need: "0 < need" "need \<le> av"
    and al: "k_align dvd need"
    and fr2: "fr2 = (if need < av then om_put (o1 + need) (av - need) (om_del o1 fr) else om_del o1 fr)"
  shows "free_list_ok n fr2" and "cover fr2 x + of_bool (in_block (o1, need) x) = cover fr x"
proof -
  note D = free_list_okD [OF ok]
  have mo: "map_of fr o1 = Some av"
    using b D(2) by (simp add: om_sorted_distinct)
  have fresh: "map_of (om_del o1 fr) (o1 + need) = None" if "need < av"
  proof (rule ccontr)
    assume "map_of (om_del o1 fr) (o1 + need) \<noteq> None"
    then obtain v where v: "(o1 + need, v) \<in> set fr"
      by (auto split: if_splits dest: map_of_SomeD)
    then have "in_block (o1 + need, v) (o1 + need)" "in_block (o1, av) (o1 + need)"
      using D(3) [OF v] that by (auto simp: in_block_def)
    from free_list_unique [OF ok v b this] need show False by simp
  qed
  have cv: "cover fr2 x + of_bool (in_block (o1, need) x) = cover fr x" for x
  proof -
    have d: "cover (om_del o1 fr) x + of_bool (in_block (o1, av) x) = cover fr x"
      by (rule cover_del [OF D(2) mo])
    show ?thesis
    proof (cases "need < av")
      case True
      then have "cover fr2 x = of_bool (in_block (o1 + need, av - need) x) + cover (om_del o1 fr) x"
        using fr2 cover_put [OF om_sorted_del [OF D(2)] fresh [OF True]] by simp
      moreover have "of_bool (in_block (o1, av) x)
          = of_bool (in_block (o1, need) x) + (of_bool (in_block (o1 + need, av - need) x) :: nat)"
        using need True by (auto simp: in_block_def)
      ultimately show ?thesis using d by simp
    next
      case False
      then show ?thesis using d fr2 need by simp
    qed
  qed
  show "cover fr2 x + of_bool (in_block (o1, need) x) = cover fr x"
    by (rule cv)
  have srt: "om_sorted fr2"
    using D(2) fr2 by simp
  have memb: "c = (o1 + need, av - need) \<and> need < av \<or> c \<in> set fr \<and> fst c \<noteq> o1"
    if "c \<in> set fr2" for c
    using that fr2 D(2) by (auto simp: set_om_put split: if_splits)
  have alg: "aligned_block c" if "c \<in> set fr2" for c
    using memb [OF that] D(4) [of c] D(4) [OF b] al need by (auto simp: aligned_block_def)
  have mo2: "map_of fr2 k = (if need < av \<and> k = o1 + need then Some (av - need)
      else if k = o1 then None else map_of fr k)" for k
    using fr2 D(2) need by auto
  have "coalesced fr2"
    unfolding coalesced_def
  proof
    fix c assume c: "c \<in> set fr2"
    from memb [OF c] show "map_of fr2 (fst c + snd c) = None"
    proof
      assume c: "c = (o1 + need, av - need) \<and> need < av"
      then show ?thesis
        using coalescedD [OF D(5) b] need by (simp add: mo2)
    next
      assume c: "c \<in> set fr \<and> fst c \<noteq> o1"
      then have "map_of fr (fst c + snd c) = None"
        using coalescedD [OF D(5)] by blast
      moreover have "fst c + snd c \<noteq> o1 + need"
      proof
        assume e: "fst c + snd c = o1 + need"
        have "in_block c (o1 + need - 1)" "in_block (o1, av) (o1 + need - 1)"
          using e need D(3) [of c] c by (auto simp: in_block_def)
        from free_list_unique [OF ok conjunct1 [OF c] b this] c show False by simp
      qed
      ultimately show ?thesis
        by (simp add: mo2)
    qed
  qed
  moreover have "cover fr2 x \<le> of_bool (x < n)" for x
  proof -
    have "cover fr2 x \<le> cover fr x"
      using cv [of x] by simp
    moreover have "cover fr x \<le> of_bool (x < n)"
      using ok by (simp add: free_list_ok_def)
    ultimately show ?thesis by (rule order_trans)
  qed
  ultimately show "free_list_ok n fr2"
    using D(1) srt alg by (simp add: free_list_ok_def)
qed

lemma coalesce_next_ok:
  assumes ok: "free_list_ok n fr" and len: "0 < len" "o1 + len \<le> n"
    and al: "aligned_block (o1, len)"
    and gap: "\<And>x. in_block (o1, len) x \<Longrightarrow> cover fr x = 0"
    and res: "coalesce_next fr o1 len = (fr', len')"
  shows "free_list_ok n fr'" and "aligned_block (o1, len')" and "o1 + len' \<le> n"
    and "map_of fr' (o1 + len') = None"
    and "cover fr' x + of_bool (in_block (o1, len') x)
      = cover fr x + of_bool (in_block (o1, len) x)"
proof -
  note D = free_list_okD [OF ok]
  have sa: "sz_add o1 len = o1 + len"
    using len D(1) by (intro sz_add_exact) simp
  have "free_list_ok n fr' \<and> aligned_block (o1, len') \<and> o1 + len' \<le> n \<and>
    map_of fr' (o1 + len') = None \<and>
    (\<forall>x. cover fr' x + of_bool (in_block (o1, len') x)
      = cover fr x + of_bool (in_block (o1, len) x))"
  proof (cases "map_of fr (o1 + len)")
    case None
    then have "(o1 + len, v) \<notin> set fr" for v
      by (rule om_get_None)
    then have "coalesce_next fr o1 len = (fr, len)"
      by (auto simp: coalesce_next_def sa split: option.splits dest!: om_lower_bound_SomeD(1))
    then show ?thesis
      using res ok al len None by simp
  next
    case (Some v)
    then have v: "(o1 + len, v) \<in> set fr"
      by (rule map_of_SomeD)
    have "om_lower_bound o1 fr = Some (o1 + len, v)"
    proof (cases "om_lower_bound o1 fr")
      case None
      from om_lower_bound_None [OF this v] show ?thesis by simp
    next
      case (Some q)
      have q: "q \<in> set fr" "o1 \<le> fst q" "fst q \<le> o1 + len"
        using om_lower_bound_SomeD [OF Some] om_lower_bound_least [OF D(2) Some v] by auto
      have "\<not> in_block (o1, len) (fst q)"
        using gap [of "fst q"] cover_pos [OF q(1), of "fst q"] D(3) [OF q(1)]
        by (auto simp: in_block_def)
      then have "fst q = o1 + len"
        using q by (auto simp: in_block_def)
      then have "q = (o1 + len, v)"
        using q(1) v D(2) by (metis om_get_iff option.inject prod.collapse)
      then show ?thesis using Some by simp
    qed
    moreover have bnd: "o1 + len + v \<le> n"
      using D(7) [OF v] by simp
    ultimately have eq: "fr' = om_del (o1 + len) fr" "len' = len + v"
      using res len D(1) by (auto simp: coalesce_next_def sa sz_add_exact)
    have cv: "cover fr' x + of_bool (in_block (o1 + len, v) x) = cover fr x" for x
      unfolding eq by (rule cover_del [OF D(2) Some])
    have vpos: "0 < v"
      using D(3) [OF v] by simp
    have nb: "map_of fr (o1 + len + v) = None"
      using coalescedD [OF D(5) v] by simp
    have "free_list_ok n fr'"
    proof -
      have "cover fr' x \<le> of_bool (x < n)" for x
      proof -
        have "cover fr' x \<le> cover fr x"
          using cv [of x] by simp
        moreover have "cover fr x \<le> of_bool (x < n)"
          using ok by (simp add: free_list_ok_def)
        ultimately show ?thesis by (rule order_trans)
      qed
      then show ?thesis
        using D(1,2,4,5) by (auto simp: eq free_list_ok_def coalesced_def)
    qed
    moreover have "aligned_block (o1, len')"
      using al D(4) [OF v] by (simp add: eq aligned_block_def)
    moreover have "map_of fr' (o1 + len') = None"
      using nb by (simp add: eq add.assoc)
    moreover have "cover fr' x + of_bool (in_block (o1, len') x)
      = cover fr x + of_bool (in_block (o1, len) x)" for x
    proof -
      have "of_bool (in_block (o1, len') x)
        = of_bool (in_block (o1, len) x) + (of_bool (in_block (o1 + len, v) x) :: nat)"
        by (auto simp: eq in_block_def)
      then show ?thesis using cv [of x] by simp
    qed
    ultimately show ?thesis
      using bnd by (simp add: eq)
  qed
  then show "free_list_ok n fr'" "aligned_block (o1, len')" "o1 + len' \<le> n"
    "map_of fr' (o1 + len') = None"
    "cover fr' x + of_bool (in_block (o1, len') x)
      = cover fr x + of_bool (in_block (o1, len) x)"
    by auto
qed

lemma coalesce_prev_ok:
  assumes ok: "free_list_ok n fr" and len: "o1 + len \<le> n"
    and al: "aligned_block (o1, len)"
    and gap: "\<And>x. in_block (o1, len) x \<Longrightarrow> cover fr x = 0"
    and right: "map_of fr (o1 + len) = None"
  shows "free_list_ok n (coalesce_prev fr o1 len)"
    and "cover (coalesce_prev fr o1 len) x = cover fr x + of_bool (in_block (o1, len) x)"
proof -
  note D = free_list_okD [OF ok]
  let ?r = "coalesce_prev fr o1 len"
  have lpos: "0 < len"
    using al by (simp add: aligned_block_def)
  have fresh: "map_of fr o1 = None"
  proof (rule ccontr)
    assume "map_of fr o1 \<noteq> None"
    then obtain v where v: "(o1, v) \<in> set fr" by (auto dest: map_of_SomeD)
    then have "in_block (o1, v) o1"
      using D(3) [OF v] by (simp add: in_block_def)
    then have "0 < cover fr o1"
      by (rule cover_pos [OF v])
    then show False
      using gap [of o1] lpos by (simp add: in_block_def)
  qed
  have cases: "(\<exists>k v. (k, v) \<in> set fr \<and> k + v = o1 \<and> k < o1 \<and> ?r = om_put k (v + len) fr) \<or>
      (\<forall>b \<in> set fr. fst b + snd b \<noteq> o1) \<and> ?r = om_put o1 len fr"
  proof (cases "om_before o1 fr")
    case None
    then have "fst b + snd b \<noteq> o1" if "b \<in> set fr" for b
      using om_before_greatest [OF D(2) that, of o1] D(3) [OF that] by auto
    then show ?thesis
      using None by (simp add: coalesce_prev_def)
  next
    case (Some p)
    obtain k v where p: "p = (k, v)" by (cases p)
    have kv: "(k, v) \<in> set fr" "k < o1"
      using om_before_SomeD [OF Some] p by auto
    have sa: "sz_add k v = k + v" "sz_add v len = v + len" if "k + v = o1"
      using D(7) [OF kv(1)] D(1) len that by (auto intro!: sz_add_exact)
    have sa': "sz_add k v = k + v"
      using D(7) [OF kv(1)] D(1) by (auto intro!: sz_add_exact)
    show ?thesis
    proof (cases "k + v = o1")
      case True
      then show ?thesis
        using Some p kv sa by (auto simp: coalesce_prev_def)
    next
      case False
      have "fst b + snd b \<noteq> o1" if b: "b \<in> set fr" for b
      proof
        assume e: "fst b + snd b = o1"
        then have "fst b < o1"
          using D(3) [OF b] by simp
        from om_before_greatest [OF D(2) b this] have le: "fst b \<le> k"
          using Some p by auto
        then have "in_block b k" "in_block (k, v) k"
          using e kv D(3) [OF kv(1)] by (auto simp: in_block_def)
        from free_list_unique [OF ok b kv(1) this] e False show False by simp
      qed
      then show ?thesis
        using False Some p sa' by (simp add: coalesce_prev_def)
    qed
  qed
  have cv: "cover ?r x = cover fr x + of_bool (in_block (o1, len) x)" for x
    using cases
  proof
    assume "\<exists>k v. (k, v) \<in> set fr \<and> k + v = o1 \<and> k < o1 \<and> ?r = om_put k (v + len) fr"
    then obtain k v where kv: "(k, v) \<in> set fr" "k + v = o1" "?r = om_put k (v + len) fr" by blast
    then have "map_of fr k = Some v"
      using D(2) by (simp add: om_get_iff)
    from cover_put_over [OF D(2) this, of "v + len" x]
    have "cover ?r x + of_bool (in_block (k, v) x) = of_bool (in_block (k, v + len) x) + cover fr x"
      by (simp add: kv(3))
    moreover have "of_bool (in_block (k, v + len) x)
        = of_bool (in_block (k, v) x) + (of_bool (in_block (o1, len) x) :: nat)"
      using kv(2) by (auto simp: in_block_def)
    ultimately show ?thesis by simp
  qed (simp add: cover_put [OF D(2) fresh])
  show "cover ?r x = cover fr x + of_bool (in_block (o1, len) x)"
    by (rule cv)
  have "coalesced ?r"
    unfolding coalesced_def
  proof
    fix b assume b: "b \<in> set ?r"
    from cases show "map_of ?r (fst b + snd b) = None"
    proof
      assume "\<exists>k v. (k, v) \<in> set fr \<and> k + v = o1 \<and> k < o1 \<and> ?r = om_put k (v + len) fr"
      then obtain k v where kv: "(k, v) \<in> set fr" "k + v = o1" "k < o1"
        "?r = om_put k (v + len) fr" by blast
      then have mk: "map_of fr k = Some v"
        using D(2) by (simp add: om_get_iff)
      have mr: "map_of ?r j = None" if "map_of fr j = None" for j
        using that mk D(2) by (auto simp: kv(4))
      have "b = (k, v + len) \<or> b \<in> set fr"
        using b D(2) by (auto simp: kv(4) set_om_put)
      then show ?thesis
      proof
        assume "b = (k, v + len)"
        then have "fst b + snd b = o1 + len"
          using kv(2) by simp
        with mr right show ?thesis by simp
      next
        assume "b \<in> set fr"
        then show ?thesis
          using mr coalescedD [OF D(5)] by blast
      qed
    next
      assume r: "(\<forall>b \<in> set fr. fst b + snd b \<noteq> o1) \<and> ?r = om_put o1 len fr"
      then have mr: "map_of ?r j = None" if "map_of fr j = None" "j \<noteq> o1" for j
        using that D(2) by simp
      have "b = (o1, len) \<or> b \<in> set fr"
        using b D(2) r by (auto simp: set_om_put)
      then show ?thesis
      proof
        assume "b = (o1, len)"
        then show ?thesis
          using mr [of "o1 + len"] right lpos by simp
      next
        assume bf: "b \<in> set fr"
        then have "fst b + snd b \<noteq> o1"
          using r by blast
        then show ?thesis
          using mr coalescedD [OF D(5) bf] by blast
      qed
    qed
  qed
  moreover have "om_sorted ?r"
    using cases D(2) by auto
  moreover have "\<forall>b \<in> set ?r. aligned_block b"
  proof
    fix b assume b: "b \<in> set ?r"
    have "b \<in> set fr \<or> b = (o1, len) \<or> (\<exists>k v. (k, v) \<in> set fr \<and> b = (k, v + len))"
      using cases b D(2) by (auto simp: set_om_put)
    then consider "b \<in> set fr" | "b = (o1, len)" | k v where "(k, v) \<in> set fr" "b = (k, v + len)"
      by blast
    then show "aligned_block b"
    proof cases
      case 3
      from D(4) [OF this(1)] al 3(2) show ?thesis
        by (simp add: aligned_block_def)
    qed (simp_all add: D(4) al)
  qed
  moreover have "cover ?r x \<le> of_bool (x < n)" for x
  proof (cases "in_block (o1, len) x")
    case True
    then show ?thesis
      using cv [of x] gap [OF True] len by (simp add: in_block_def)
  next
    case False
    then show ?thesis
      using cv [of x] ok by (simp add: free_list_ok_def)
  qed
  ultimately show "free_list_ok n ?r"
    using D(1) by (simp add: free_list_ok_def)
qed

section \<open>What the operations do\<close>

lemma arena_allocate_cases:
  assumes inv: "arena_inv a" and res: "arena_allocate a n = (a', r)"
  obtains
    (hit) p av where "n \<le> ar_size a" "first_fit (round_up n) (ar_free a) = Some (p, av)"
      "r = Some p" "(p, av) \<in> set (ar_free a)" "round_up n \<le> av"
      "p + round_up n \<le> ar_size a"
      "ar_live a' = om_put p (round_up n) (ar_live a)"
      "ar_free a' = (if round_up n < av
        then om_put (p + round_up n) (av - round_up n) (om_del p (ar_free a))
        else om_del p (ar_free a))"
      "ar_size a' = ar_size a" "ar_used a' = sz_add (ar_used a) (round_up n)"
      "ar_hwm a' = max (ar_hwm a) (ar_used a')"
  | (miss) "r = None" "n \<le> ar_size a \<Longrightarrow> first_fit (round_up n) (ar_free a) = None"
      "ar_live a' = ar_live a" "ar_free a' = ar_free a" "ar_size a' = ar_size a"
      "ar_used a' = ar_used a" "ar_hwm a' = ar_hwm a"
proof (cases "if n \<le> ar_size a then first_fit (round_up n) (ar_free a) else None")
  case None
  then show ?thesis
    using res miss by (auto simp: arena_allocate_def split: if_splits)
next
  case (Some b)
  obtain p av where b: "b = (p, av)" by (cases b)
  have le: "n \<le> ar_size a" and ff: "first_fit (round_up n) (ar_free a) = Some (p, av)"
    using Some b by (auto split: if_splits)
  have m: "(p, av) \<in> set (ar_free a)" "round_up n \<le> av"
    using first_fit_SomeD [OF ff] by auto
  have bd: "p + round_up n \<le> ar_size a"
    using free_bounded [OF inv m(1)] m(2) by simp
  moreover have "sz_add p (round_up n) = p + round_up n"
    using bd arena_invD(1) [OF inv] by (intro sz_add_exact) simp
  ultimately show ?thesis
    using res hit [OF le ff _ m bd] le ff by (auto simp: arena_allocate_def Let_def)
qed

lemma arena_allocate_hit:
  assumes inv: "arena_inv a" and res: "arena_allocate a n = (a', Some p)"
  shows "arena_inv a'" and "ar_live a' = om_put p (round_up n) (ar_live a)"
    and "map_of (ar_live a) p = None" and "n \<le> round_up n" and "k_align dvd p"
    and "p + round_up n \<le> ar_size a" and "ar_size a' = ar_size a"
    and "\<And>b. b \<in> set (ar_live a) \<Longrightarrow> disjoint_blocks (p, round_up n) b"
proof -
  note I = arena_invD [OF inv]
  let ?need = "round_up n"
  from inv res obtain av where h: "n \<le> ar_size a" "(p, av) \<in> set (ar_free a)" "?need \<le> av"
    "p + ?need \<le> ar_size a" "ar_live a' = om_put p ?need (ar_live a)"
    "ar_free a' = (if ?need < av then om_put (p + ?need) (av - ?need) (om_del p (ar_free a))
        else om_del p (ar_free a))"
    "ar_size a' = ar_size a" "ar_used a' = sz_add (ar_used a) ?need"
    "ar_hwm a' = max (ar_hwm a) (ar_used a')"
    by (rule arena_allocate_cases) auto
  note R = round_up_facts [OF h(1) I(1,2)]
  note T = take_from_block [OF arena_free_ok [OF inv] h(2) R(3) h(3) R(4) h(6)]
  have incl: "in_block (p, av) x" if "in_block (p, ?need) x" for x
    using that h(3) by (auto simp: in_block_def)
  have nolive: "cover (ar_live a) x = 0" if "in_block (p, ?need) x" for x
    using tiledD(3) [OF I(7)] cover_pos [OF h(2) incl [OF that]] by blast
  show fresh: "map_of (ar_live a) p = None"
  proof (rule ccontr)
    assume "map_of (ar_live a) p \<noteq> None"
    then obtain v where v: "(p, v) \<in> set (ar_live a)" by (auto dest: map_of_SomeD)
    then have "0 < cover (ar_live a) p"
      using I(6) [OF v] by (intro cover_pos [OF v]) (simp add: in_block_def aligned_block_def)
    then show False
      using nolive [of p] R(3) by (simp add: in_block_def)
  qed
  show dj: "disjoint_blocks (p, ?need) b" if b: "b \<in> set (ar_live a)" for b
  proof (rule disjoint_blocksI)
    show "0 < snd (p, ?need)" "0 < snd b"
      using R(3) I(6) [OF b] by (auto simp: aligned_block_def)
    show "\<not> (in_block (p, ?need) x \<and> in_block b x)" for x
      using nolive [of x] cover_pos [OF b, of x] by auto
  qed
  show al: "k_align dvd p"
    using I(5) [OF h(2)] by (simp add: aligned_block_def)
  have "sum_list (map snd ((p, ?need) # ar_live a)) \<le> ar_size a"
    using h(4) live_bounded [OF inv] tiledD(2) [OF I(7)] nolive
    by (intro sum_lengths_le) auto
  then have sum: "?need + ar_used a \<le> ar_size a"
    by (simp add: I(9))
  then have used: "ar_used a' = ar_used a + ?need"
    unfolding h(8) using I(1) by (intro sz_add_exact) simp
  have "cover (ar_free a') x + cover (ar_live a') x = of_bool (x < ar_size a')" for x
  proof -
    have "cover (ar_live a') x = of_bool (in_block (p, ?need) x) + cover (ar_live a) x"
      unfolding h(5) by (rule cover_put [OF I(4) fresh])
    moreover have "cover (ar_free a) x + cover (ar_live a) x = of_bool (x < ar_size a)"
      using I(7) by (simp add: tiled_def)
    ultimately show ?thesis
      using T(2) [of x] h(7) by simp
  qed
  then show "arena_inv a'"
    using T(1) I(1,2,4,6,9,10,11) R(3,4) al sum used h(7,9) fresh
    by (auto simp: arena_inv_def tiled_def free_list_ok_def h(5) set_om_put sum_lengths_put
        aligned_block_def)
  show "n \<le> round_up n" "p + round_up n \<le> ar_size a" "ar_size a' = ar_size a"
    "ar_live a' = om_put p (round_up n) (ar_live a)"
    by (fact R(2) h(4,5,7))+
qed

lemma arena_allocate_miss:
  assumes "arena_inv a" and "arena_allocate a n = (a', None)"
  shows "arena_inv a'" and "ar_live a' = ar_live a" and "ar_free a' = ar_free a"
    and "n \<le> ar_size a \<Longrightarrow> b \<in> set (ar_free a) \<Longrightarrow> snd b < round_up n"
proof -
  from assms have m: "n \<le> ar_size a \<Longrightarrow> first_fit (round_up n) (ar_free a) = None"
    "ar_live a' = ar_live a" "ar_free a' = ar_free a" "ar_size a' = ar_size a"
    "ar_used a' = ar_used a" "ar_hwm a' = ar_hwm a"
    by (rule arena_allocate_cases; simp)+
  then show "arena_inv a'"
    using assms(1) by (simp add: arena_inv_def tiled_def)
  show "ar_live a' = ar_live a" "ar_free a' = ar_free a"
    by (fact m)+
  show "n \<le> ar_size a \<Longrightarrow> b \<in> set (ar_free a) \<Longrightarrow> snd b < round_up n"
    using m(1) first_fit_NoneD by blast
qed

lemma arena_release_live:
  assumes inv: "arena_inv a" and live: "map_of (ar_live a) p = Some len"
  shows "arena_inv (fst (arena_release a p))" and "snd (arena_release a p)"
    and "ar_live (fst (arena_release a p)) = om_del p (ar_live a)"
    and "ar_size (fst (arena_release a p)) = ar_size a"
proof -
  note I = arena_invD [OF inv]
  have b: "(p, len) \<in> set (ar_live a)"
    by (rule map_of_SomeD [OF live])
  have al: "aligned_block (p, len)" and bd: "p + len \<le> ar_size a"
    using I(6) [OF b] live_bounded [OF inv b] by auto
  have pos: "0 < len"
    using al by (simp add: aligned_block_def)
  have gap: "cover (ar_free a) x = 0" if "in_block (p, len) x" for x
    using tiledD(4) [OF I(7)] cover_pos [OF b that] by blast
  obtain fr l where fl: "coalesce_next (ar_free a) p len = (fr, l)"
    by (cases "coalesce_next (ar_free a) p len")
  note N = coalesce_next_ok [OF arena_free_ok [OF inv] pos bd al gap fl]
  have gap2: "cover fr x = 0" if "in_block (p, l) x" for x
    using N(5) [of x] that gap [of x] free_list_okD(6) [OF arena_free_ok [OF inv], of x]
    by (cases "in_block (p, len) x") auto
  note P = coalesce_prev_ok [OF N(1,3,2) gap2 N(4)]
  let ?a = "fst (arena_release a p)"
  have eqs: "ar_free ?a = coalesce_prev fr p l" "ar_live ?a = om_del p (ar_live a)"
    "ar_used ?a = sz_sub (ar_used a) len" "ar_hwm ?a = ar_hwm a" "ar_size ?a = ar_size a"
    "snd (arena_release a p)"
    by (simp_all add: arena_release_def live fl)
  then show "snd (arena_release a p)" "ar_live ?a = om_del p (ar_live a)" "ar_size ?a = ar_size a"
    by auto
  have sum: "sum_list (map snd (om_del p (ar_live a))) + len = ar_used a"
    using sum_lengths_del [OF I(4) live] I(9) by simp
  then have used: "ar_used ?a = ar_used a - len"
    unfolding eqs using I(1,10,11) by (intro sz_sub_exact) auto
  have "cover (ar_free ?a) x + cover (ar_live ?a) x = of_bool (x < ar_size ?a)" for x
  proof -
    have "cover (ar_live ?a) x + of_bool (in_block (p, len) x) = cover (ar_live a) x"
      unfolding eqs by (rule cover_del [OF I(4) live])
    moreover have "cover (ar_free a) x + cover (ar_live a) x = of_bool (x < ar_size a)"
      using I(7) by (simp add: tiled_def)
    ultimately show ?thesis
      using P(2) [of x] N(5) [of x] unfolding eqs by simp
  qed
  then show "arena_inv ?a"
    using P(1) I(1,2,4,6,10,11) sum used
    by (auto simp: arena_inv_def tiled_def free_list_ok_def eqs)
qed

lemma arena_release_dead:
  "map_of (ar_live a) p = None \<Longrightarrow> arena_release a p = (a, False)"
  by (simp add: arena_release_def)

lemma arena_step_inv: "arena_inv a \<Longrightarrow> arena_inv (arena_step a c)"
proof (cases c)
  case (Allocate n)
  assume inv: "arena_inv a"
  obtain a' r where r: "arena_allocate a n = (a', r)" by (cases "arena_allocate a n")
  then show ?thesis
    using Allocate arena_allocate_hit(1) [OF inv] arena_allocate_miss(1) [OF inv] by (cases r) auto
next
  case (Release p)
  assume "arena_inv a"
  then show ?thesis
    using Release arena_release_live(1) arena_release_dead
    by (cases "map_of (ar_live a) p") auto
qed

lemma arena_run_inv: "arena_inv a \<Longrightarrow> arena_inv (foldl arena_step a cs)"
  by (induction cs arbitrary: a) (auto simp: arena_step_inv)

lemma arena_step_size: "ar_size (arena_step a c) = ar_size a"
  by (cases c) (auto simp: arena_allocate_def arena_release_def Let_def split: option.split prod.split)

section \<open>The arena as a range allocator\<close>

interpretation arena: range_allocator arena_allocate "\<lambda>a p. fst (arena_release a p)"
  "\<lambda>a. set (ar_live a)" arena_inv
proof unfold_locales
  fix a n
  assume "arena_inv a" "0 < n" "n < size_limit"
  then show "arena_inv (fst (arena_allocate a n))"
    using arena_step_inv [of a "Allocate n"] by simp
next
  fix a p len
  assume i: "arena_inv a" and l: "(p, len) \<in> set (ar_live a)"
  then have m: "map_of (ar_live a) p = Some len"
    using arena_invD(4) by (simp add: om_get_iff)
  show "arena_inv (fst (arena_release a p))"
    by (rule arena_release_live(1) [OF i m])
  show "set (ar_live (fst (arena_release a p))) = set (ar_live a) - {(p, len)}"
    unfolding arena_release_live(3) [OF i m]
    by (rule set_om_del_live [OF arena_invD(4) [OF i] m])
next
  fix a n a' p
  assume i: "arena_inv a" and r: "arena_allocate a n = (a', Some p)"
  note H = arena_allocate_hit [OF i r]
  have "\<not> (\<exists>v. (p, v) \<in> set (ar_live a))"
    using om_get_None [OF H(3)] by blast
  then have "set (ar_live a') = insert (p, round_up n) (set (ar_live a))"
    unfolding H(2) set_om_put [OF arena_invD(4) [OF i]] by force
  with H(4) \<open>\<not> (\<exists>v. (p, v) \<in> set (ar_live a))\<close>
  show "\<exists>len. n \<le> len \<and> (p, len) \<notin> set (ar_live a) \<and> set (ar_live a') = insert (p, len) (set (ar_live a))"
    by blast
next
  fix a n a'
  assume "arena_inv a" "arena_allocate a n = (a', None)"
  then show "set (ar_live a') = set (ar_live a)"
    by (simp add: arena_allocate_miss(2))
next
  fix a b c
  assume "arena_inv a" "b \<in> set (ar_live a)" "c \<in> set (ar_live a)" "b \<noteq> c"
  then show "disjoint_blocks b c"
    by (rule live_blocks_disjoint)
next
  fix a b
  assume "arena_inv a" "b \<in> set (ar_live a)"
  then show "0 < snd b"
    using arena_invD(6) by (simp add: aligned_block_def)
qed

section \<open>Completeness and round trip\<close>

text \<open>
  A maximal run of free bytes is one free block, because free blocks that touch are
  merged: a run of free bytes from \<open>p\<close> lies in the block that holds \<open>p\<close>.
\<close>

lemma free_run_in_block:
  assumes ok: "free_list_ok n fr" and run: "\<And>x. in_block (p, len) x \<Longrightarrow> 0 < cover fr x"
    and pos: "0 < len"
  shows "\<exists>b \<in> set fr. fst b \<le> p \<and> p + len \<le> fst b + snd b"
proof -
  have "in_block (p, len) p"
    using pos by (simp add: in_block_def)
  then obtain b where b: "b \<in> set fr" "in_block b p"
    using run cover_pos_iff by blast
  have "p + len \<le> fst b + snd b"
  proof (rule ccontr)
    let ?e = "fst b + snd b"
    assume "\<not> p + len \<le> ?e"
    then have "in_block (p, len) ?e"
      using b(2) by (auto simp: in_block_def)
    then obtain c where c: "c \<in> set fr" "in_block c ?e"
      using run cover_pos_iff by blast
    have "fst c \<noteq> ?e"
    proof
      assume e: "fst c = ?e"
      have "map_of fr ?e = None"
        by (rule coalescedD [OF free_list_okD(5) [OF ok] b(1)])
      then have "?e \<notin> fst ` set fr"
        unfolding map_of_eq_None_iff .
      moreover have "fst c \<in> fst ` set fr"
        using c(1) by (rule imageI)
      ultimately show False
        unfolding e by blast
    qed
    then have "in_block c (?e - 1)" "in_block b (?e - 1)"
      using c b(2) free_list_okD(3) [OF ok b(1)] by (auto simp: in_block_def)
    from free_list_unique [OF ok c(1) b(1) this] c(2) show False
      by (simp add: in_block_def)
  qed
  then show ?thesis
    using b by (auto simp: in_block_def)
qed

lemma free_list_canonical:
  assumes ok: "free_list_ok n fr" "free_list_ok n fr'" and same: "\<And>x. cover fr x = cover fr' x"
  shows "fr = fr'"
proof -
  have sub: "set f \<subseteq> set g"
    if f: "free_list_ok n f" and g: "free_list_ok n g" and eq: "\<And>x. cover f x = cover g x" for f g
  proof
    fix b assume b: "b \<in> set f"
    have bpos: "0 < snd b"
      by (rule free_list_okD(3) [OF f b])
    have "0 < cover g x" if "in_block (fst b, snd b) x" for x
      using cover_pos [OF b, of x] that eq [of x] by simp
    from free_run_in_block [OF g, of "fst b" "snd b", OF this bpos]
    obtain c where c: "c \<in> set g" "fst c \<le> fst b" "fst b + snd b \<le> fst c + snd c" by blast
    have "0 < cover f x" if "in_block (fst c, snd c) x" for x
      using cover_pos [OF c(1), of x] that eq [of x] by simp
    from free_run_in_block [OF f, of "fst c" "snd c", OF this free_list_okD(3) [OF g c(1)]]
    obtain d where d: "d \<in> set f" "fst d \<le> fst c" "fst c + snd c \<le> fst d + snd d" by blast
    have "in_block b (fst b)" "in_block d (fst b)"
      using bpos c d by (auto simp: in_block_def)
    from free_list_unique [OF f b d(1) this] have "b = d" .
    then have "b = c"
      using c d by (auto simp: prod_eq_iff)
    with c(1) show "b \<in> set g" by simp
  qed
  have "set fr = set fr'"
    using sub [OF ok same] sub [OF ok(2,1) same [symmetric]] by blast
  then show ?thesis
    using free_list_okD(2) ok by (intro om_sorted_ext) auto
qed

lemma live_map_of: "om_sorted m \<Longrightarrow> b \<in> set m \<Longrightarrow> map_of m (fst b) = Some (snd b)"
  by (metis om_get_iff prod.collapse)

text \<open>Closed arenas are evaluated by rewriting with these equations.\<close>

lemmas arena_eval =
  arena_init_def arena_allocate_def arena_release_def arena_block_bytes_def round_up_def k_align_def
  coalesce_next_def coalesce_prev_def om_del_def om_lower_bound_def om_before_def
  sz_add_def sz_sub_def Let_def

section \<open>Properties\<close>

text \<open>C1: safety of the first-fit allocation over any history of the arena: a successful
  allocation returns the start of a fresh, aligned block of at least the requested bytes
  inside the arena, disjoint from every block still live, and leaves those blocks as they
  were.\<close>

theorem arena_allocate_safe:
  assumes "n < size_limit" and "a = foldl arena_step (arena_init n) ops"
    and "arena_allocate a bytes = (a', Some p)"
  shows "bytes \<le> arena_block_bytes a' p \<and> k_align dvd p \<and>
    p + arena_block_bytes a' p \<le> ar_size a \<and> arena_block_bytes a p = 0 \<and>
    (\<forall>q. 0 < arena_block_bytes a q \<longrightarrow>
      arena_block_bytes a' q = arena_block_bytes a q \<and>
      disjoint_blocks (p, arena_block_bytes a' p) (q, arena_block_bytes a q))"
proof -
  have inv: "arena_inv a"
    unfolding assms(2) by (intro arena_run_inv arena_init_inv assms(1))
  note H = arena_allocate_hit [OF inv assms(3)] and S = arena_invD(4) [OF inv]
  have "arena_block_bytes a' q = (if q = p then round_up bytes else arena_block_bytes a q)" for q
    using S by (simp add: arena_block_bytes_def H(2))
  moreover have "(q, arena_block_bytes a q) \<in> set (ar_live a)" if "0 < arena_block_bytes a q" for q
    using that by (auto simp: arena_block_bytes_def split: option.splits dest: map_of_SomeD)
  moreover have "arena_block_bytes a p = 0"
    by (simp add: arena_block_bytes_def H(3))
  ultimately show ?thesis
    using H(4-6,8) by auto
qed

theorem arena_allocate_safe_witness:
  "snd (arena_allocate (foldl arena_step (arena_init 20000) [Allocate 5000, Allocate 1, Release 0]) 100)
    = Some 0 \<and>
   disjoint_blocks (0, 4096) (8192, 4096)"
proof -
  define a where "a = foldl arena_step (arena_init 20000) [Allocate 5000, Allocate 1, Release 0]"
  have s: "snd (arena_allocate a 100) = Some 0" "arena_block_bytes (fst (arena_allocate a 100)) 0 = 4096"
    "arena_block_bytes a 8192 = 4096"
    by (simp_all add: a_def arena_eval)
  then have "arena_allocate a 100 = (fst (arena_allocate a 100), Some 0)"
    by (metis prod.collapse)
  from arena_allocate_safe [OF _ a_def this]
  have "\<forall>q. 0 < arena_block_bytes a q \<longrightarrow>
      disjoint_blocks (0, arena_block_bytes (fst (arena_allocate a 100)) 0) (q, arena_block_bytes a q)"
    by simp
  from spec [OF this, of 8192] s show ?thesis
    by (simp add: a_def)
qed

text \<open>C2: completeness of first-fit with coalescing: whenever the arena still holds a run of
  bytes, as long as the rounded request and untouched by any live block, the allocation
  succeeds; fragmentation never hides free space that is contiguous.\<close>

theorem arena_allocate_complete:
  assumes "n < size_limit" and "a = foldl arena_step (arena_init n) ops"
    and "bytes \<le> ar_size a" and "p + round_up bytes \<le> ar_size a"
    and "\<forall>q. 0 < arena_block_bytes a q \<longrightarrow>
      disjoint_blocks (p, round_up bytes) (q, arena_block_bytes a q)"
  shows "snd (arena_allocate a bytes) \<noteq> None"
proof
  assume none: "snd (arena_allocate a bytes) = None"
  have inv: "arena_inv a"
    unfolding assms(2) by (intro arena_run_inv arena_init_inv assms(1))
  note I = arena_invD [OF inv] and R = round_up_facts [OF assms(3) arena_invD(1,2) [OF inv]]
  have "0 < cover (ar_free a) x" if x: "in_block (p, round_up bytes) x" for x
  proof -
    have "\<not> in_block b x" if b: "b \<in> set (ar_live a)" for b
    proof -
      have "arena_block_bytes a (fst b) = snd b"
        using live_map_of [OF I(4) b] by (simp add: arena_block_bytes_def)
      then have "disjoint_blocks (p, round_up bytes) b"
        using assms(5) I(6) [OF b] by (metis aligned_block_def prod.collapse)
      with x show ?thesis
        using in_block_disjoint by blast
    qed
    then have "cover (ar_live a) x = 0"
      by (metis cover_pos_iff gr0I)
    moreover have "x < ar_size a"
      using x assms(4) by (simp add: in_block_def)
    ultimately show ?thesis
      using tiledD(7) [OF I(7)] by (metis less_numeral_extra(3))
  qed
  from free_run_in_block [OF arena_free_ok [OF inv], of p "round_up bytes", OF this R(3)]
  obtain b where b: "b \<in> set (ar_free a)" "round_up bytes \<le> snd b" by auto
  have "arena_allocate a bytes = (fst (arena_allocate a bytes), None)"
    using none by (metis prod.collapse)
  from arena_allocate_miss(4) [OF inv this assms(3) b(1)] b(2) show False by simp
qed

theorem arena_allocate_complete_witness:
  "snd (arena_allocate (foldl arena_step (arena_init 16384)
      [Allocate 4096, Allocate 4096, Allocate 4096, Release 0, Release 4096]) 8192) \<noteq> None"
proof -
  define a where "a = foldl arena_step (arena_init 16384)
      [Allocate 4096, Allocate 4096, Allocate 4096, Release 0, Release 4096]"
  have l: "ar_live a = [(8192, 4096)]" and s: "ar_size a = 16384" and r: "round_up 8192 = 8192"
    by (simp_all add: a_def arena_eval)
  have "\<forall>q. 0 < arena_block_bytes a q \<longrightarrow>
      disjoint_blocks (0, round_up 8192) (q, arena_block_bytes a q)"
    unfolding arena_block_bytes_def l r by (auto simp: disjoint_blocks_def)
  then have "snd (arena_allocate a 8192) \<noteq> None"
    by (intro arena_allocate_complete [OF _ a_def, of 8192 0]) (simp_all add: s r)
  then show ?thesis
    unfolding a_def .
qed

text \<open>C3: the free list is determined by the live blocks: two histories that end with the same
  size and the same live blocks have equal free lists, so releasing what was allocated
  restores the arena exactly and no history leaves fragmentation behind.\<close>

theorem arena_free_determined:
  assumes "n < size_limit" and "a = foldl arena_step (arena_init n) ops"
    and "b = foldl arena_step (arena_init n) ops'" and "ar_live a = ar_live b"
  shows "ar_free a = ar_free b"
proof -
  have i: "arena_inv a" "arena_inv b"
    unfolding assms(2,3) by (intro arena_run_inv arena_init_inv assms(1))+
  have "ar_size (foldl arena_step c cs) = ar_size c" for c cs
    by (induction cs arbitrary: c) (simp_all add: arena_step_size)
  then have sz: "ar_size a = ar_size b"
    by (simp add: assms(2,3))
  have "cover (ar_free a) x = cover (ar_free b) x" for x
    using arena_invD(7) [OF i(1)] arena_invD(7) [OF i(2)] sz assms(4)
    by (metis add_right_cancel tiled_def)
  then show ?thesis
    using free_list_canonical arena_free_ok i sz by metis
qed

theorem arena_free_determined_witness:
  "ar_free (foldl arena_step (arena_init 40960) [Allocate 4096, Allocate 8192, Allocate 1, Release 0, Release 4096])
   = ar_free (foldl arena_step (arena_init 40960) [Allocate 12288, Allocate 4096, Release 0])"
proof -
  have "ar_live (foldl arena_step (arena_init 40960) [Allocate 4096, Allocate 8192, Allocate 1, Release 0, Release 4096])
      = ar_live (foldl arena_step (arena_init 40960) [Allocate 12288, Allocate 4096, Release 0])"
    by (simp add: arena_eval)
  then show ?thesis
    by (rule arena_free_determined [OF _ refl refl, of 40960, simplified])
qed

end
