(* ===== verification/Device_Runtime.thy ===== *)
theory Device_Runtime
  imports Transient_Arena
begin

text \<open>
  The device side of one session: the HIP calls the runtime makes, the session state of
  \<open>lib/Runtime/runtime_state_internal.h\<close>, and the session's device allocator of
  \<open>hipdnn_ep_runtime_state.cpp\<close>, which serves a request from the transient arena when it
  fits and from \<open>hipMalloc\<close> otherwise.

  HIP is not part of the repository: where an allocation lands and whether a call succeeds
  are answers of the record \<open>hip_api\<close>, which may depend on everything that happened
  before; what HIP documents of them is the predicate \<open>hip_ok\<close>.  The device keeps its live
  allocations, its memory \<open>g_mem\<close>, the pinned host memory \<open>g_host\<close> and a trace of the calls,
  newest first.  A host-mapped byte is the byte of \<open>g_mem\<close> at its device address.
\<close>

section \<open>The HIP device\<close>

datatype hip_event =
    Ev_malloc nat nat
  | Ev_malloc_failed nat
  | Ev_free nat
  | Ev_bad_free nat
  | Ev_host_malloc nat nat
  | Ev_host_malloc_failed nat
  | Ev_host_free nat
  | Ev_bad_host_free nat
  | Ev_stream_sync
  | Ev_device_sync
  | Ev_call string

record gpu =
  g_dev :: "block list"
  g_pin :: "block list"
  g_streams :: "nat list"
  g_blas :: "nat list"
  g_events :: "nat list"
  g_profiles :: nat
  g_mem :: "nat \<Rightarrow> 8 word"
  g_host :: "nat \<Rightarrow> 8 word"
  g_trace :: "hip_event list"

text \<open>
  The answers of the outside world: addresses or \<open>None\<close> for a failed allocation, handles
  for created objects, and whether a call named by its function succeeds.  \<open>api_heap\<close> is
  the C heap, \<open>api_env\<close> the process environment.
\<close>

record hip_api =
  api_dev_at :: "gpu \<Rightarrow> nat \<Rightarrow> nat option"
  api_pin_at :: "gpu \<Rightarrow> nat \<Rightarrow> nat option"
  api_create :: "gpu \<Rightarrow> string \<Rightarrow> nat option"
  api_call :: "gpu \<Rightarrow> string \<Rightarrow> bool"
  api_heap :: "gpu \<Rightarrow> nat \<Rightarrow> bool"
  api_env :: "string \<Rightarrow> string option"

section \<open>The session state\<close>

text \<open>\<open>0\<close> is the null pointer.  A grow-on-demand buffer is its pointer and its size.\<close>

record scratch =
  sc_ptr :: nat
  sc_size :: nat

text \<open>The buffers the state keeps as a field \<open>x\<close> and a field \<open>x_size\<close>, by the field's name.\<close>

datatype slot =
    Workspace | Qmoe_scratch | Qmoe_amd_scratch | Conv_scratch | Qlpnormalization_scratch
  | Qsigmoid_scratch | Matmul_dp4a_scratch | La_scratch | Gqa_fp32_adapter_scratch

datatype host_slot =
    Qmoe_host_scratch | Qmoe_amd_host_scratch | Host_scratch | Disk_gather_staging

record transient_arena =
  ta_base :: nat
  ta_blocks :: arena
  ta_direct :: "block list"
  ta_live :: nat
  ta_hwm :: nat

text \<open>
  A disk-resident constant: the bytes of its mapped file (\<open>None\<close> before it is mapped), where
  its table starts in them, and the table's size.
\<close>

record disk_constant =
  dc_view :: "8 word list option"
  dc_data :: nat
  dc_size :: int

record loop_buffers =
  lb_iter_buf :: nat
  lb_iter_capacity :: nat
  lb_iter_dev :: nat
  lb_cond_host :: nat
  lb_cond_dev :: nat
  lb_event :: nat

text \<open>An operator's private state: its address and its deletor, null where there is none.\<close>

record op_state =
  os_ptr :: nat
  os_deletor :: nat

text \<open>A scalar read back once per forward pass, with the address it was read from.\<close>

record cached_int =
  ci_valid :: bool
  ci_val :: int
  ci_ptr :: nat

record runtime_state =
  rs_stream :: nat
  rs_blas :: nat
  rs_blob :: nat
  rs_constants :: "nat list"
  rs_disk :: "disk_constant list option"
  rs_pools :: "block list"
  rs_scan_pools :: "block list"
  rs_scan_active :: bool
  rs_offsets :: "nat list option"
  rs_num_buffers :: nat
  rs_scratch :: "slot \<Rightarrow> scratch"
  rs_host :: "host_slot \<Rightarrow> scratch"
  rs_output_self :: nat
  rs_output_fn :: nat
  rs_op_profile :: bool
  rs_options :: "(string \<times> string) list option"
  rs_error_flag :: nat
  rs_seqlens :: cached_int
  rs_sai :: cached_int
  rs_loop :: loop_buffers
  rs_op_states :: "op_state list option"
  rs_num_op_states :: int
  rs_zp_cache :: nat
  rs_gqa_policy :: nat
  rs_hipdnn_handle :: nat
  rs_graph_registry :: nat
  rs_arena :: "transient_arena option"

text \<open>
  The machine: the outside world, the device, the session (\<open>None\<close> is a null state) and the
  stream the thread published in \<open>tls_stream.cpp\<close>.
\<close>

record machine =
  mc_api :: hip_api
  mc_gpu :: gpu
  mc_state :: "runtime_state option"
  mc_current_stream :: nat

abbreviation st :: "machine \<Rightarrow> runtime_state" where
  "st m \<equiv> the (mc_state m)"

definition upd_gpu :: "(gpu \<Rightarrow> gpu) \<Rightarrow> machine \<Rightarrow> machine" where
  "upd_gpu f m = m\<lparr>mc_gpu := f (mc_gpu m)\<rparr>"

definition upd_st :: "(runtime_state \<Rightarrow> runtime_state) \<Rightarrow> machine \<Rightarrow> machine" where
  "upd_st f m = m\<lparr>mc_state := map_option f (mc_state m)\<rparr>"

definition emit :: "hip_event \<Rightarrow> gpu \<Rightarrow> gpu" where
  "emit e g = g\<lparr>g_trace := e # g_trace g\<rparr>"

section \<open>HIP calls\<close>

text \<open>A request of no bytes succeeds with the null pointer.\<close>

definition hip_malloc :: "machine \<Rightarrow> nat \<Rightarrow> machine \<times> nat option" where
  "hip_malloc m n =
     (if n = 0 then (m, Some 0)
      else case api_dev_at (mc_api m) (mc_gpu m) n of
             None \<Rightarrow> (upd_gpu (emit (Ev_malloc_failed n)) m, None)
           | Some p \<Rightarrow>
               (upd_gpu (\<lambda>g. emit (Ev_malloc p n) (g\<lparr>g_dev := (p, n) # g_dev g\<rparr>)) m, Some p))"

definition hip_free :: "machine \<Rightarrow> nat \<Rightarrow> machine \<times> bool" where
  "hip_free m p =
     (if p = 0 then (m, True)
      else if p \<in> set (map fst (g_dev (mc_gpu m)))
      then (upd_gpu (\<lambda>g. emit (Ev_free p) (g\<lparr>g_dev := filter (\<lambda>b. fst b \<noteq> p) (g_dev g)\<rparr>)) m, True)
      else (upd_gpu (emit (Ev_bad_free p)) m, False))"

definition hip_host_malloc :: "machine \<Rightarrow> nat \<Rightarrow> machine \<times> nat option" where
  "hip_host_malloc m n =
     (if n = 0 then (m, Some 0)
      else case api_pin_at (mc_api m) (mc_gpu m) n of
             None \<Rightarrow> (upd_gpu (emit (Ev_host_malloc_failed n)) m, None)
           | Some p \<Rightarrow>
               (upd_gpu (\<lambda>g. emit (Ev_host_malloc p n) (g\<lparr>g_pin := (p, n) # g_pin g\<rparr>)) m, Some p))"

definition hip_host_free :: "machine \<Rightarrow> nat \<Rightarrow> machine \<times> bool" where
  "hip_host_free m p =
     (if p = 0 then (m, True)
      else if p \<in> set (map fst (g_pin (mc_gpu m)))
      then (upd_gpu (\<lambda>g. emit (Ev_host_free p) (g\<lparr>g_pin := filter (\<lambda>b. fst b \<noteq> p) (g_pin g)\<rparr>)) m, True)
      else (upd_gpu (emit (Ev_bad_host_free p)) m, False))"

definition hip_call :: "string \<Rightarrow> machine \<Rightarrow> machine \<times> bool" where
  "hip_call name m = (upd_gpu (emit (Ev_call name)) m, api_call (mc_api m) (mc_gpu m) name)"

definition hip_stream_sync :: "machine \<Rightarrow> machine \<times> bool" where
  "hip_stream_sync m =
     (upd_gpu (emit Ev_stream_sync) m, api_call (mc_api m) (mc_gpu m) ''hipStreamSynchronize'')"

definition hip_device_sync :: "machine \<Rightarrow> machine \<times> bool" where
  "hip_device_sync m =
     (upd_gpu (emit Ev_device_sync) m, api_call (mc_api m) (mc_gpu m) ''hipDeviceSynchronize'')"

text \<open>\<open>if (state->stream) hipStreamSynchronize(state->stream)\<close>, its status only logged.\<close>

definition sync_session :: "machine \<Rightarrow> machine" where
  "sync_session m = (if rs_stream (st m) \<noteq> 0 then fst (hip_stream_sync m) else m)"

section \<open>The arena's size\<close>

definition k_default_arena_mib :: nat where
  "k_default_arena_mib = 128"

definition k_arena_min_constants_mib :: nat where
  "k_arena_min_constants_mib = 256"

definition k_max_arena_mib :: nat where
  "k_max_arena_mib = 4096"

definition get_provider_option :: "runtime_state option \<Rightarrow> string \<Rightarrow> string option" where
  "get_provider_option state key =
     (case state of
        None \<Rightarrow> None
      | Some s \<Rightarrow> (case rs_options s of None \<Rightarrow> None | Some os \<Rightarrow> map_of os key))"

text \<open>
  \<open>strtoull(v, &end, 10)\<close> of the C library: leading white space, a sign, digits; the
  value saturates at \<open>ULLONG_MAX\<close> and is negated modulo \<open>2 ^ 64\<close> after a minus sign.
  The result is the value and the rest of the string, \<open>None\<close> where no digit was read.
\<close>

definition is_space :: "char \<Rightarrow> bool" where
  "is_space c \<longleftrightarrow> c = CHR '' '' \<or> (9 \<le> (of_char c :: nat) \<and> (of_char c :: nat) \<le> 13)"

definition is_digit :: "char \<Rightarrow> bool" where
  "is_digit c \<longleftrightarrow> 48 \<le> (of_char c :: nat) \<and> (of_char c :: nat) \<le> 57"

definition decimal_value :: "string \<Rightarrow> nat" where
  "decimal_value ds = foldl (\<lambda>n c. 10 * n + (of_char c - 48)) 0 ds"

definition strtoull :: "string \<Rightarrow> (nat \<times> string) option" where
  "strtoull v =
     (let body = dropWhile is_space v;
          negative = (body \<noteq> [] \<and> hd body = CHR ''-'');
          digits = (if body \<noteq> [] \<and> (hd body = CHR ''-'' \<or> hd body = CHR ''+'') then tl body else body);
          ds = takeWhile is_digit digits
      in if ds = [] then None
         else
           let n = decimal_value ds;
               value = (if n \<ge> size_limit then size_limit - 1
                        else if negative then sz_sub 0 n else n)
           in Some (value, dropWhile is_digit digits))"

definition transient_arena_mib :: "machine \<Rightarrow> nat \<Rightarrow> nat" where
  "transient_arena_mib m constants_bytes =
     (let option = get_provider_option (mc_state m) ''transient_arena_mb'';
          v = (if option = None \<or> option = Some [] then api_env (mc_api m) ''HIPDNN_EP_TRANSIENT_ARENA_MB''
               else option);
          fallback = (if constants_bytes \<ge> k_arena_min_constants_mib * 2 ^ 20
                      then k_default_arena_mib else 0)
      in case v of
           None \<Rightarrow> fallback
         | Some s \<Rightarrow>
             if s = [] then fallback
             else (case strtoull s of
                     None \<Rightarrow> fallback
                   | Some (mib, rest) \<Rightarrow> if rest \<noteq> [] then fallback else min mib k_max_arena_mib))"

section \<open>The arena's life\<close>

definition track :: "nat \<Rightarrow> transient_arena \<Rightarrow> transient_arena" where
  "track bytes a =
     (let live = sz_add (ta_live a) bytes
      in a\<lparr>ta_live := live, ta_hwm := max (ta_hwm a) live\<rparr>)"

definition create_transient_arena :: "machine \<Rightarrow> nat \<Rightarrow> machine" where
  "create_transient_arena m constants_bytes =
     (if rs_arena (st m) \<noteq> None then m
      else
        let bytes = sz_mul (transient_arena_mib m constants_bytes) (2 ^ 20)
        in if bytes = 0 then m
           else (case hip_malloc m bytes of
                   (m1, None) \<Rightarrow> fst (hip_call ''hipGetLastError'' m1)
                 | (m1, Some p) \<Rightarrow>
                     upd_st (\<lambda>s. s\<lparr>rs_arena := Some
                       \<lparr>ta_base = p, ta_blocks = arena_init bytes, ta_direct = [], ta_live = 0,
                        ta_hwm = 0\<rparr>\<rparr>) m1))"

definition destroy_transient_arena :: "machine \<Rightarrow> machine" where
  "destroy_transient_arena m =
     (case rs_arena (st m) of
        None \<Rightarrow> m
      | Some a \<Rightarrow> upd_st (\<lambda>s. s\<lparr>rs_arena := None\<rparr>) (fst (hip_free m (ta_base a))))"

section \<open>The session's device allocator\<close>

definition session_arena :: "machine \<Rightarrow> transient_arena option" where
  "session_arena m = (case mc_state m of None \<Rightarrow> None | Some s \<Rightarrow> rs_arena s)"

definition set_arena :: "transient_arena \<Rightarrow> machine \<Rightarrow> machine" where
  "set_arena a = upd_st (\<lambda>s. s\<lparr>rs_arena := Some a\<rparr>)"

definition device_alloc :: "machine \<Rightarrow> nat \<Rightarrow> machine \<times> nat option" where
  "device_alloc m n =
     (case session_arena m of
        None \<Rightarrow> hip_malloc m n
      | Some a \<Rightarrow>
          (case arena_allocate (ta_blocks a) n of
             (blocks, Some offset) \<Rightarrow>
               (set_arena (track (arena_block_bytes blocks offset) (a\<lparr>ta_blocks := blocks\<rparr>)) m,
                Some (ta_base a + offset))
           | (blocks, None) \<Rightarrow>
               let a' = a\<lparr>ta_blocks := blocks\<rparr>
               in case hip_malloc (set_arena a' m) n of
                    (m1, None) \<Rightarrow> (m1, None)
                  | (m1, Some p) \<Rightarrow>
                      (set_arena (track n
                         (a'\<lparr>ta_direct := (p, n) # filter (\<lambda>b. fst b \<noteq> p) (ta_direct a)\<rparr>)) m1,
                       Some p)))"

definition device_free :: "machine \<Rightarrow> nat \<Rightarrow> machine \<times> bool" where
  "device_free m p =
     (if p = 0 then (m, True)
      else case session_arena m of
        None \<Rightarrow> hip_free m p
      | Some a \<Rightarrow>
          if p < ta_base a \<or> ta_base a + ar_size (ta_blocks a) \<le> p then
            let a' = (case map_of (ta_direct a) p of
                        None \<Rightarrow> a
                      | Some bytes \<Rightarrow>
                          a\<lparr>ta_live := sz_sub (ta_live a) bytes,
                            ta_direct := filter (\<lambda>b. fst b \<noteq> p) (ta_direct a)\<rparr>)
            in hip_free (set_arena a' m) p
          else
            let (m1, ok) = hip_device_sync m;
                offset = p - ta_base a;
                live = sz_sub (ta_live a) (arena_block_bytes (ta_blocks a) offset)
            in (set_arena (a\<lparr>ta_live := live, ta_blocks := fst (arena_release (ta_blocks a) offset)\<rparr>) m1,
                ok))"

end
