(* ===== verification/Session_Allocator.thy ===== *)
theory Session_Allocator
  imports Device_Runtime
begin

text \<open>
  The session's device allocator as a provider of address ranges: its invariant, which ties
  the arena's blocks and the accounting of \<open>TransientArena\<close> to the device's live
  allocations, and the interpretation of the allocator interface on it.
\<close>

named_theorems machine_simps \<open>reading a machine after an update\<close>

section \<open>Machines after an update\<close>

lemma upd_gpu_simps [machine_simps, simp]:
  "mc_api (upd_gpu f m) = mc_api m" "mc_gpu (upd_gpu f m) = f (mc_gpu m)"
  "mc_state (upd_gpu f m) = mc_state m"
  by (simp_all add: upd_gpu_def)

lemma upd_st_simps [machine_simps, simp]:
  "mc_api (upd_st f m) = mc_api m" "mc_gpu (upd_st f m) = mc_gpu m"
  "mc_state (upd_st f m) = map_option f (mc_state m)"
  by (simp_all add: upd_st_def)

lemma emit_simps [machine_simps, simp]:
  "g_dev (emit e g) = g_dev g" "g_pin (emit e g) = g_pin g" "g_streams (emit e g) = g_streams g"
  "g_blas (emit e g) = g_blas g" "g_events (emit e g) = g_events g" "g_profiles (emit e g) = g_profiles g"
  "g_mem (emit e g) = g_mem g" "g_host (emit e g) = g_host g" "g_trace (emit e g) = e # g_trace g"
  by (simp_all add: emit_def)

lemma set_arena_simps [machine_simps, simp]:
  "mc_api (set_arena a m) = mc_api m" "mc_gpu (set_arena a m) = mc_gpu m"
  "mc_state (set_arena a m) = map_option (\<lambda>s. s\<lparr>rs_arena := Some a\<rparr>) (mc_state m)"
  by (simp_all add: set_arena_def)

lemma session_arena_upd [machine_simps, simp]:
  "session_arena (upd_gpu f m) = session_arena m"
  "mc_state m \<noteq> None \<Longrightarrow> session_arena (set_arena a m) = Some a"
  by (auto simp: session_arena_def)

section \<open>Live ranges of an address space\<close>

definition blocks_ok :: "block list \<Rightarrow> bool" where
  "blocks_ok bs \<longleftrightarrow> (\<forall>b \<in> set bs. 0 < fst b \<and> 0 < snd b \<and> fst b + snd b \<le> size_limit) \<and>
     sorted_wrt disjoint_blocks bs"

lemma blocks_ok_Nil [simp]: "blocks_ok []"
  by (simp add: blocks_ok_def)

lemma blocks_ok_Cons:
  "blocks_ok (b # bs) \<longleftrightarrow> blocks_ok bs \<and> 0 < fst b \<and> 0 < snd b \<and> fst b + snd b \<le> size_limit \<and>
     (\<forall>c \<in> set bs. disjoint_blocks b c)"
  by (auto simp: blocks_ok_def)

lemma blocks_ok_filter: "blocks_ok bs \<Longrightarrow> blocks_ok (filter P bs)"
  by (auto simp: blocks_ok_def intro: sorted_wrt_filter)

lemma blocks_ok_disjoint:
  assumes "blocks_ok bs" and "b \<in> set bs" and "c \<in> set bs" and "b \<noteq> c"
  shows "disjoint_blocks b c"
  using assms by (induction bs) (auto simp: blocks_ok_Cons disjoint_blocks_sym)

lemma blocks_ok_start:
  assumes "blocks_ok bs" and "(p, m) \<in> set bs" and "(p, n) \<in> set bs"
  shows "m = n"
proof (rule ccontr)
  assume "m \<noteq> n"
  then have "disjoint_blocks (p, m) (p, n)"
    using blocks_ok_disjoint [OF assms] by simp
  moreover have "0 < m" "0 < n"
    using assms by (auto simp: blocks_ok_def)
  ultimately show False
    by (auto simp: disjoint_blocks_def)
qed

lemma blocks_ok_distinct: "blocks_ok bs \<Longrightarrow> distinct (map fst bs)"
proof (induction bs)
  case (Cons b bs)
  have "fst b \<noteq> fst c" if c: "c \<in> set bs" for c
  proof -
    have "disjoint_blocks b c" "0 < snd b" "0 < snd c"
      using Cons.prems c by (simp_all add: blocks_ok_Cons) (simp add: blocks_ok_def)
    then show ?thesis
      by (auto simp: disjoint_blocks_def)
  qed
  then have "fst b \<notin> fst ` set bs"
    by (metis imageE)
  then show ?case
    using Cons by (simp add: blocks_ok_Cons)
qed simp

lemma blocks_ok_remove:
  assumes "blocks_ok bs" and "(p, n) \<in> set bs"
  shows "set (filter (\<lambda>b. fst b \<noteq> p) bs) = set bs - {(p, n)}"
proof -
  have "(fst b \<noteq> p) = (b \<noteq> (p, n))" if "b \<in> set bs" for b
    using blocks_ok_start [OF assms(1), of p "snd b" n] assms(2) that by (cases b) auto
  then show ?thesis
    by auto
qed

lemma cover_disjoint_le: "sorted_wrt disjoint_blocks bs \<Longrightarrow> cover bs x \<le> 1"
proof (induction bs)
  case (Cons b bs)
  have "cover bs x = 0" if b: "in_block b x"
  proof (rule ccontr)
    assume "cover bs x \<noteq> 0"
    then obtain c where "c \<in> set bs" "in_block c x"
      using cover_pos_iff [of bs x] by auto
    then show False
      using Cons.prems b in_block_disjoint [of b c x] by simp
  qed
  then show ?case
    using Cons by (cases "in_block b x") simp_all
qed simp

text \<open>The live bytes of an address space fit in a \<open>size_t\<close>: nothing lives at address 0.\<close>

lemma blocks_total:
  assumes "blocks_ok bs"
  shows "sum_list (map snd bs) < size_limit"
proof -
  have "sorted_wrt disjoint_blocks ((0, 1) # bs)"
    using assms by (auto simp: blocks_ok_def disjoint_blocks_def)
  then have "sum_list (map snd ((0 :: nat, 1) # bs)) \<le> size_limit"
    using assms cover_disjoint_le [OF \<open>sorted_wrt disjoint_blocks ((0, 1) # bs)\<close>]
    by (intro sum_lengths_le) (simp_all add: blocks_ok_def)
  then show ?thesis
    by simp
qed

lemma sum_lengths_subset:
  assumes "distinct xs" and "set xs \<subseteq> set ys"
  shows "sum_list (map snd xs) \<le> sum_list (map snd (ys :: block list))"
proof -
  have "sum_list (map snd xs) = sum snd (set xs)"
    using assms(1) by (simp add: sum_list_distinct_conv_sum_set)
  also have "\<dots> \<le> sum snd (set ys)"
    using assms(2) by (intro sum_mono2) auto
  also have "\<dots> = sum_list (map snd (remdups ys))"
    by (simp add: sum_list_distinct_conv_sum_set)
  also have "\<dots> \<le> sum_list (map snd ys)"
    by (induction ys) auto
  finally show ?thesis .
qed

section \<open>What HIP promises\<close>

text \<open>
  A successful \<open>hipMalloc\<close> or \<open>hipHostMalloc\<close> of at least one byte returns a non-null
  range of the address space that overlaps none of the live ranges of its kind.  A created
  stream, handle or event is not null.
\<close>

definition handle_calls :: "string list" where
  "handle_calls = [''hipStreamCreate'', ''hipblasLtCreate'', ''hipEventCreateWithFlags'']"

definition hip_ok :: "hip_api \<Rightarrow> bool" where
  "hip_ok api \<longleftrightarrow>
     (\<forall>g n p. 0 < n \<longrightarrow>
       (api_dev_at api g n = Some p \<longrightarrow> blocks_ok (g_dev g) \<longrightarrow> blocks_ok ((p, n) # g_dev g)) \<and>
       (api_pin_at api g n = Some p \<longrightarrow> blocks_ok (g_pin g) \<longrightarrow> blocks_ok ((p, n) # g_pin g))) \<and>
     (\<forall>g. \<forall>name \<in> set handle_calls. api_create api g name \<noteq> Some 0)"

section \<open>The invariant\<close>

definition arena_ok :: "transient_arena \<Rightarrow> block list \<Rightarrow> bool" where
  "arena_ok a dev \<longleftrightarrow> arena_inv (ta_blocks a) \<and> (ta_base a, ar_size (ta_blocks a)) \<in> set dev \<and>
     set (ta_direct a) \<subseteq> set dev - {(ta_base a, ar_size (ta_blocks a))} \<and> distinct (map fst (ta_direct a)) \<and>
     ta_live a = ar_used (ta_blocks a) + sum_list (map snd (ta_direct a))"

definition allocator_inv :: "machine \<Rightarrow> bool" where
  "allocator_inv m \<longleftrightarrow> hip_ok (mc_api m) \<and> blocks_ok (g_dev (mc_gpu m)) \<and> mc_state m \<noteq> None \<and>
     (case session_arena m of None \<Rightarrow> True | Some a \<Rightarrow> arena_ok a (g_dev (mc_gpu m)))"

definition shifted :: "nat \<Rightarrow> block \<Rightarrow> block" where
  "shifted base b = (base + fst b, snd b)"

definition arena_range :: "transient_arena \<Rightarrow> block" where
  "arena_range a = (ta_base a, ar_size (ta_blocks a))"

definition session_live :: "machine \<Rightarrow> block set" where
  "session_live m =
     (case session_arena m of
        None \<Rightarrow> set (g_dev (mc_gpu m))
      | Some a \<Rightarrow> (set (g_dev (mc_gpu m)) - {arena_range a}) \<union>
          shifted (ta_base a) ` set (ar_live (ta_blocks a)))"

lemma allocator_invD:
  assumes "allocator_inv m"
  shows "hip_ok (mc_api m)" "blocks_ok (g_dev (mc_gpu m))" "mc_state m \<noteq> None"
    "session_arena m = Some a \<Longrightarrow> arena_ok a (g_dev (mc_gpu m))"
  using assms by (auto simp: allocator_inv_def)

lemma arena_okD:
  assumes "arena_ok a dev"
  shows "arena_inv (ta_blocks a)" "arena_range a \<in> set dev"
    "set (ta_direct a) \<subseteq> set dev - {arena_range a}" "distinct (map fst (ta_direct a))"
    "ta_live a = ar_used (ta_blocks a) + sum_list (map snd (ta_direct a))"
  using assms by (auto simp: arena_ok_def arena_range_def)

lemma inj_shifted: "inj (shifted base)"
  by (rule injI) (simp add: shifted_def prod_eq_iff)

lemma arena_block_pos: "arena_inv a \<Longrightarrow> b \<in> set (ar_live a) \<Longrightarrow> 0 < snd b"
  using arena_invD(6) by (simp add: aligned_block_def)

lemma shifted_in_range:
  assumes "arena_inv (ta_blocks a)" and "b \<in> shifted (ta_base a) ` set (ar_live (ta_blocks a))"
  shows "ta_base a \<le> fst b" and "fst b + snd b \<le> ta_base a + ar_size (ta_blocks a)" and "0 < snd b"
  using assms live_bounded [OF assms(1)] arena_block_pos [OF assms(1)] by (force simp: shifted_def)+

text \<open>Whether a live range lies inside the arena is decided by its start address, as the code does.\<close>

lemma live_outside:
  assumes inv: "allocator_inv m" and a: "session_arena m = Some a"
    and b: "(p, n) \<in> set (g_dev (mc_gpu m)) - {arena_range a}"
  shows "p < ta_base a \<or> ta_base a + ar_size (ta_blocks a) \<le> p"
proof -
  have "disjoint_blocks (p, n) (arena_range a)"
    using blocks_ok_disjoint [OF allocator_invD(2) [OF inv]] b arena_okD(2) [OF allocator_invD(4) [OF inv a]]
    by auto
  moreover have "0 < n"
    using allocator_invD(2) [OF inv] b by (auto simp: blocks_ok_def)
  ultimately show ?thesis
    by (auto simp: disjoint_blocks_def arena_range_def)
qed

lemma session_live_pos:
  assumes "allocator_inv m" and "b \<in> session_live m"
  shows "0 < snd b" and "0 < fst b" and "fst b + snd b \<le> size_limit"
proof -
  have dev: "0 < fst c \<and> 0 < snd c \<and> fst c + snd c \<le> size_limit" if "c \<in> set (g_dev (mc_gpu m))" for c
    using allocator_invD(2) [OF assms(1)] that by (simp add: blocks_ok_def)
  have "0 < snd b \<and> 0 < fst b \<and> fst b + snd b \<le> size_limit"
  proof (cases "session_arena m")
    case None
    then show ?thesis
      using assms(2) dev by (simp add: session_live_def)
  next
    case (Some a)
    note A = arena_okD [OF allocator_invD(4) [OF assms(1) Some]]
    have "b \<in> set (g_dev (mc_gpu m)) \<or> b \<in> shifted (ta_base a) ` set (ar_live (ta_blocks a))"
      using assms(2) Some by (auto simp: session_live_def)
    then show ?thesis
    proof
      assume b: "b \<in> shifted (ta_base a) ` set (ar_live (ta_blocks a))"
      show ?thesis
        using shifted_in_range [OF A(1) b] dev [OF A(2)] by (simp add: arena_range_def)
    qed (auto dest: dev)
  qed
  then show "0 < snd b" and "0 < fst b" and "fst b + snd b \<le> size_limit"
    by simp_all
qed

lemma session_live_disjoint:
  assumes inv: "allocator_inv m" and b: "b \<in> session_live m" and c: "c \<in> session_live m" and ne: "b \<noteq> c"
  shows "disjoint_blocks b c"
proof (cases "session_arena m")
  case None
  then show ?thesis
    using b c ne blocks_ok_disjoint [OF allocator_invD(2) [OF inv]] by (simp add: session_live_def)
next
  case (Some a)
  note A = arena_okD [OF allocator_invD(4) [OF inv Some]]
  let ?dev = "set (g_dev (mc_gpu m)) - {arena_range a}" and ?ar = "shifted (ta_base a) ` set (ar_live (ta_blocks a))"
  have mixed: "disjoint_blocks x y" if "x \<in> ?dev" "y \<in> ?ar" for x y
  proof -
    have "disjoint_blocks x (arena_range a)"
      using blocks_ok_disjoint [OF allocator_invD(2) [OF inv]] that(1) A(2) by auto
    then show ?thesis
      using shifted_in_range [OF A(1) that(2)] by (auto simp: disjoint_blocks_def arena_range_def)
  qed
  have arena: "disjoint_blocks x y" if "x \<in> ?ar" "y \<in> ?ar" "x \<noteq> y" for x y
    using that live_blocks_disjoint [OF A(1)] by (fastforce simp: shifted_def disjoint_blocks_def)
  have "b \<in> ?dev \<or> b \<in> ?ar" and "c \<in> ?dev \<or> c \<in> ?ar"
    using b c Some by (simp_all add: session_live_def)
  then show ?thesis
    using mixed arena ne blocks_ok_disjoint [OF allocator_invD(2) [OF inv]] disjoint_blocks_sym by blast
qed

section \<open>The accounting\<close>

lemma arena_accounted:
  assumes dev: "blocks_ok dev" and "arena_inv (ta_blocks a)" and "arena_range a \<in> set dev"
    and "set (ta_direct a) \<subseteq> set dev - {arena_range a}" and "distinct (map fst (ta_direct a))"
  shows "ar_used (ta_blocks a) + sum_list (map snd (ta_direct a)) < size_limit"
proof -
  have "sum_list (map snd (arena_range a # ta_direct a)) \<le> sum_list (map snd dev)"
    using assms(3,4) distinct_map [of fst "ta_direct a"] assms(5) by (intro sum_lengths_subset) auto
  moreover have "ar_used (ta_blocks a) \<le> ar_size (ta_blocks a)"
    using arena_invD(10,11) [OF assms(2)] by linarith
  ultimately show ?thesis
    using blocks_total [OF dev] by (simp add: arena_range_def)
qed

lemma track_exact:
  assumes "blocks_ok dev" and "arena_inv (ta_blocks a)" and "arena_range a \<in> set dev"
    and "set (ta_direct a) \<subseteq> set dev - {arena_range a}" and "distinct (map fst (ta_direct a))"
    and "ta_live a + bytes = ar_used (ta_blocks a) + sum_list (map snd (ta_direct a))"
  shows "arena_ok (track bytes a) dev"
proof -
  have "ta_live a + bytes < size_limit"
    unfolding assms(6) by (rule arena_accounted [OF assms(1-5)])
  then have "ta_live (track bytes a) = ta_live a + bytes"
    by (simp add: track_def Let_def sz_add_exact)
  moreover have "ta_blocks (track bytes a) = ta_blocks a" "ta_base (track bytes a) = ta_base a"
    "ta_direct (track bytes a) = ta_direct a"
    by (simp_all add: track_def Let_def)
  ultimately show ?thesis
    using assms by (simp add: arena_ok_def arena_range_def)
qed

section \<open>The laws\<close>

lemma hip_malloc_Some:
  assumes "hip_malloc m n = (m', Some p)" and "0 < n"
  shows "g_dev (mc_gpu m') = (p, n) # g_dev (mc_gpu m)" and "mc_api m' = mc_api m" and "mc_state m' = mc_state m"
    and "g_pin (mc_gpu m') = g_pin (mc_gpu m)" and "api_dev_at (mc_api m) (mc_gpu m) n = Some p"
    and "session_arena m' = session_arena m"
  using assms by (auto simp: hip_malloc_def split: option.splits)

lemma hip_malloc_None:
  assumes "hip_malloc m n = (m', None)"
  shows "g_dev (mc_gpu m') = g_dev (mc_gpu m)" and "mc_api m' = mc_api m" and "mc_state m' = mc_state m"
    and "g_pin (mc_gpu m') = g_pin (mc_gpu m)" and "session_arena m' = session_arena m"
  using assms by (auto simp: hip_malloc_def split: option.splits if_splits)

lemma hip_malloc_blocks:
  assumes "hip_ok (mc_api m)" and "blocks_ok (g_dev (mc_gpu m))" and "hip_malloc m n = (m', Some p)" and "0 < n"
  shows "blocks_ok ((p, n) # g_dev (mc_gpu m))"
  using assms hip_malloc_Some(5) [OF assms(3,4)] unfolding hip_ok_def by blast

lemma hip_free_live:
  assumes "blocks_ok (g_dev (mc_gpu m))" and "(p, n) \<in> set (g_dev (mc_gpu m))"
  shows "set (g_dev (mc_gpu (fst (hip_free m p)))) = set (g_dev (mc_gpu m)) - {(p, n)}"
    and "blocks_ok (g_dev (mc_gpu (fst (hip_free m p))))"
    and "mc_api (fst (hip_free m p)) = mc_api m" and "mc_state (fst (hip_free m p)) = mc_state m"
    and "snd (hip_free m p)"
    and "g_dev (mc_gpu (fst (hip_free m p))) = filter (\<lambda>b. fst b \<noteq> p) (g_dev (mc_gpu m))"
    and "g_trace (mc_gpu (fst (hip_free m p))) = Ev_free p # g_trace (mc_gpu m)"
proof -
  have p: "p \<noteq> 0" "p \<in> set (map fst (g_dev (mc_gpu m)))"
    using assms by (force simp: blocks_ok_def)+
  then show f: "g_dev (mc_gpu (fst (hip_free m p))) = filter (\<lambda>b. fst b \<noteq> p) (g_dev (mc_gpu m))"
    and "mc_api (fst (hip_free m p)) = mc_api m" and "mc_state (fst (hip_free m p)) = mc_state m"
    and "snd (hip_free m p)"
    and "g_trace (mc_gpu (fst (hip_free m p))) = Ev_free p # g_trace (mc_gpu m)"
    by (simp_all add: hip_free_def)
  show "set (g_dev (mc_gpu (fst (hip_free m p)))) = set (g_dev (mc_gpu m)) - {(p, n)}"
    and "blocks_ok (g_dev (mc_gpu (fst (hip_free m p))))"
    unfolding f using blocks_ok_remove [OF assms] blocks_ok_filter [OF assms(1)] by simp_all
qed

lemma device_alloc_none:
  assumes inv: "allocator_inv m" and a: "session_arena m = None" and n: "0 < n"
  shows "allocator_inv (fst (device_alloc m n))"
    and "device_alloc m n = (m', Some p) \<Longrightarrow> (p, n) \<notin> session_live m \<and> session_live m' = insert (p, n) (session_live m)"
    and "device_alloc m n = (m', None) \<Longrightarrow> session_live m' = session_live m"
proof -
  have r: "device_alloc m n = hip_malloc m n"
    using a by (simp add: device_alloc_def)
  note I = allocator_invD(1-3) [OF inv]
  have blocks: "blocks_ok ((q, n) # g_dev (mc_gpu m))" if "hip_malloc m n = (m', Some q)" for m' q
    by (rule hip_malloc_blocks [OF I(1,2) that n])
  obtain m' r' where h: "hip_malloc m n = (m', r')"
    by (cases "hip_malloc m n")
  show "allocator_inv (fst (device_alloc m n))"
  proof (cases r')
    case None
    then show ?thesis
      using I a hip_malloc_None [of m n m'] h by (simp add: r allocator_inv_def)
  next
    case (Some q)
    then show ?thesis
      using I a hip_malloc_Some [of m n m' q] h n blocks [of m' q] by (simp add: r allocator_inv_def)
  qed
  show "device_alloc m n = (m', Some p) \<Longrightarrow> (p, n) \<notin> session_live m \<and> session_live m' = insert (p, n) (session_live m)"
    for m'
    using blocks [of m' p] hip_malloc_Some [of m n m' p] n a
    by (auto simp: r session_live_def blocks_ok_Cons disjoint_blocks_def)
  show "device_alloc m n = (m', None) \<Longrightarrow> session_live m' = session_live m" for m'
    using hip_malloc_None [of m n m'] a by (simp add: r session_live_def)
qed

text \<open>With an arena: a hit, a fallback to \<open>hipMalloc\<close>, or a failure.\<close>

lemma device_alloc_hit:
  assumes inv: "allocator_inv m" and a: "session_arena m = Some a"
    and hit: "arena_allocate (ta_blocks a) n = (blocks, Some off)"
  shows "device_alloc m n = (set_arena (track (round_up n) (a\<lparr>ta_blocks := blocks\<rparr>)) m, Some (ta_base a + off))"
    and "allocator_inv (fst (device_alloc m n))"
    and "session_live (fst (device_alloc m n)) = insert (ta_base a + off, round_up n) (session_live m)"
    and "(ta_base a + off, round_up n) \<notin> session_live m" and "n \<le> round_up n"
proof -
  note A = arena_okD [OF allocator_invD(4) [OF inv a]] and I = allocator_invD [OF inv]
  note H = arena_allocate_hit [OF A(1) hit]
  have bytes: "arena_block_bytes blocks off = round_up n"
    using H(2) arena_invD(4) [OF A(1)] by (simp add: arena_block_bytes_def)
  then show r: "device_alloc m n = (set_arena (track (round_up n) (a\<lparr>ta_blocks := blocks\<rparr>)) m, Some (ta_base a + off))"
    using a hit by (simp add: device_alloc_def)
  have used: "ar_used blocks = ar_used (ta_blocks a) + round_up n"
    using arena_invD(9) [OF H(1)] arena_invD(9) [OF A(1)] H(2)
      sum_lengths_put [OF arena_invD(4) [OF A(1)] H(3), of "round_up n"] by simp
  have "arena_ok (track (round_up n) (a\<lparr>ta_blocks := blocks\<rparr>)) (g_dev (mc_gpu m))"
    using A H(1,7) used by (intro track_exact I(2)) (simp_all add: arena_range_def)
  then show "allocator_inv (fst (device_alloc m n))"
    using I by (simp add: r allocator_inv_def)
  have live: "set (ar_live blocks) = insert (off, round_up n) (set (ar_live (ta_blocks a)))"
    unfolding H(2) set_om_put [OF arena_invD(4) [OF A(1)]] using om_get_None [OF H(3)] by force
  have fresh: "(off, round_up n) \<notin> set (ar_live (ta_blocks a))"
    using om_get_None [OF H(3)] by blast
  have outside: "(ta_base a + off, round_up n) \<notin> set (g_dev (mc_gpu m)) - {arena_range a}"
  proof
    assume "(ta_base a + off, round_up n) \<in> set (g_dev (mc_gpu m)) - {arena_range a}"
    from live_outside [OF inv a this] show False
      using H(4,6) arena_block_pos [OF H(1), of "(off, round_up n)"] live by auto
  qed
  show "session_live (fst (device_alloc m n)) = insert (ta_base a + off, round_up n) (session_live m)"
    using I(3) a H(7) live
    by (auto simp: r session_live_def shifted_def arena_range_def track_def Let_def)
  show "(ta_base a + off, round_up n) \<notin> session_live m"
    using outside fresh a by (auto simp: session_live_def shifted_def)
  show "n \<le> round_up n"
    by (rule H(4))
qed

lemma arena_allocate_miss_size: "arena_allocate a n = (a', None) \<Longrightarrow> ar_size a' = ar_size a"
  by (auto simp: arena_allocate_def Let_def split: option.splits if_splits prod.splits)

lemma device_alloc_miss:
  assumes inv: "allocator_inv m" and a: "session_arena m = Some a" and n: "0 < n"
    and miss: "arena_allocate (ta_blocks a) n = (blocks, None)"
  shows "allocator_inv (fst (device_alloc m n))"
    and "device_alloc m n = (m', Some p) \<Longrightarrow> (p, n) \<notin> session_live m \<and> session_live m' = insert (p, n) (session_live m)"
    and "device_alloc m n = (m', None) \<Longrightarrow> session_live m' = session_live m"
proof -
  note A = arena_okD [OF allocator_invD(4) [OF inv a]] and I = allocator_invD [OF inv]
  note M = arena_allocate_miss [OF A(1) miss] and sz = arena_allocate_miss_size [OF miss]
  define a' where "a' = a\<lparr>ta_blocks := blocks\<rparr>"
  define m0 where "m0 = set_arena a' m"
  have range: "arena_range a' = arena_range a"
    by (simp add: a'_def arena_range_def sz)
  have used: "ar_used blocks = ar_used (ta_blocks a)"
    using arena_invD(9) [OF M(1)] arena_invD(9) [OF A(1)] M(2) by simp
  have ok': "arena_ok a' (g_dev (mc_gpu m))"
    using A M(1) used range by (simp add: arena_ok_def a'_def arena_range_def sz)
  have m0: "session_arena m0 = Some a'" "mc_gpu m0 = mc_gpu m" "mc_api m0 = mc_api m" "mc_state m0 \<noteq> None"
    using I(3) by (simp_all add: m0_def)
  have live0: "session_live m0 = session_live m"
    using a m0 M(2) range by (simp add: session_live_def a'_def arena_range_def)
  obtain m1 r where h: "hip_malloc m0 n = (m1, r)"
    by (cases "hip_malloc m0 n")
  have "allocator_inv (fst (device_alloc m n)) \<and>
    (\<forall>p. r = Some p \<longrightarrow> (p, n) \<notin> session_live m \<and>
       session_live (fst (device_alloc m n)) = insert (p, n) (session_live m)) \<and>
    (r = None \<longrightarrow> session_live (fst (device_alloc m n)) = session_live m) \<and> snd (device_alloc m n) = r"
  proof (cases r)
    case None
    note N = hip_malloc_None [OF h [unfolded None]]
    have d: "device_alloc m n = (m1, None)"
      using a miss h None by (simp add: device_alloc_def Let_def a'_def m0_def)
    have "allocator_inv m1"
      using I(1,2) m0 N ok' by (simp add: allocator_inv_def)
    moreover have "session_live m1 = session_live m"
      using N m0(1,2) live0 by (simp add: session_live_def)
    ultimately show ?thesis
      using d None by simp
  next
    case (Some p)
    note S = hip_malloc_Some [OF h [unfolded Some] n]
    have bl: "blocks_ok ((p, n) # g_dev (mc_gpu m))"
      using hip_malloc_blocks [OF _ _ h [unfolded Some] n] I(1,2) m0 by simp
    define b where "b = a'\<lparr>ta_direct := (p, n) # filter (\<lambda>b. fst b \<noteq> p) (ta_direct a)\<rparr>"
    have d: "device_alloc m n = (set_arena (track n b) m1, Some p)"
      using a miss h Some by (simp add: device_alloc_def Let_def a'_def m0_def b_def)
    have new: "p \<notin> fst ` set (g_dev (mc_gpu m))"
      using blocks_ok_distinct [OF bl] by simp
    have "p \<notin> fst ` set (ta_direct a)"
      using new A(3) by force
    have ne: "(p, n) \<noteq> arena_range a"
    proof
      assume "(p, n) = arena_range a"
      then have "(p, n) \<in> set (g_dev (mc_gpu m))"
        using A(2) by simp
      then show False
        using new by force
    qed
    then have fil: "filter (\<lambda>b. fst b \<noteq> p) (ta_direct a) = ta_direct a"
      using \<open>p \<notin> fst ` set (ta_direct a)\<close> by (intro filter_True) force
    have "arena_ok (track n b) (g_dev (mc_gpu m1))"
    proof (rule track_exact)
      show "set (ta_direct b) \<subseteq> set (g_dev (mc_gpu m1)) - {arena_range b}"
        using A(3) S(1) m0(2) ne fil by (auto simp: b_def a'_def arena_range_def sz)
      show "distinct (map fst (ta_direct b))"
        using A(4) \<open>p \<notin> fst ` set (ta_direct a)\<close> by (simp add: b_def fil)
      show "ta_live b + n = ar_used (ta_blocks b) + sum_list (map snd (ta_direct b))"
        using A(5) used by (simp add: b_def a'_def fil)
      show "blocks_ok (g_dev (mc_gpu m1))"
        using bl S(1) m0(2) by simp
      show "arena_range b \<in> set (g_dev (mc_gpu m1))"
        using A(2) S(1) m0(2) by (simp add: b_def a'_def arena_range_def sz)
    qed (simp add: b_def a'_def M(1))
    moreover have "mc_state m1 \<noteq> None"
      using S(3) m0(4) by simp
    ultimately have "allocator_inv (set_arena (track n b) m1)"
      using I(1) S(1,2) m0(2,3) bl by (simp add: allocator_inv_def)
    moreover have "session_live (set_arena (track n b) m1) = insert (p, n) (session_live m)"
      using a S(1) m0(2) M(2) ne \<open>mc_state m1 \<noteq> None\<close>
      by (auto simp: session_live_def track_def Let_def b_def a'_def arena_range_def sz)
    moreover have "(p, n) \<notin> session_live m"
    proof
      assume "(p, n) \<in> session_live m"
      then consider "(p, n) \<in> set (g_dev (mc_gpu m))"
        | "(p, n) \<in> shifted (ta_base a) ` set (ar_live (ta_blocks a))"
        using a by (auto simp: session_live_def)
      then show False
      proof cases
        case 1
        then show ?thesis
          using new by force
      next
        case 2
        have "disjoint_blocks (p, n) (arena_range a)"
          using bl A(2) by (simp add: blocks_ok_Cons)
        then show ?thesis
          using shifted_in_range [OF A(1) 2] n by (auto simp: disjoint_blocks_def arena_range_def)
      qed
    qed
    ultimately show ?thesis
      using d Some by simp
  qed
  then show "allocator_inv (fst (device_alloc m n))"
    and "device_alloc m n = (m', Some p) \<Longrightarrow> (p, n) \<notin> session_live m \<and> session_live m' = insert (p, n) (session_live m)"
    and "device_alloc m n = (m', None) \<Longrightarrow> session_live m' = session_live m"
    by auto
qed

lemma device_free_none:
  assumes inv: "allocator_inv m" and a: "session_arena m = None" and live: "(p, n) \<in> session_live m"
  shows "allocator_inv (fst (device_free m p))"
    and "session_live (fst (device_free m p)) = session_live m - {(p, n)}"
proof -
  have dev: "(p, n) \<in> set (g_dev (mc_gpu m))"
    using live a by (simp add: session_live_def)
  have r: "device_free m p = hip_free m p"
    using a by (simp add: device_free_def hip_free_def)
  note F = hip_free_live [OF allocator_invD(2) [OF inv] dev]
  have a': "session_arena (fst (hip_free m p)) = None"
    using a F(4) by (simp add: session_arena_def)
  show "allocator_inv (fst (device_free m p))"
    using allocator_invD(1,3) [OF inv] F(2-4) a' by (simp add: r allocator_inv_def)
  show "session_live (fst (device_free m p)) = session_live m - {(p, n)}"
    using a a' F(1) by (simp add: r session_live_def)
qed

lemma sum_lengths_remove:
  assumes "distinct (map fst xs)" and "map_of xs p = Some (n :: nat)"
  shows "sum_list (map snd (filter (\<lambda>b. fst b \<noteq> p) xs)) + n = sum_list (map snd xs)"
  using assms
proof (induction xs)
  case (Cons b xs)
  show ?case
  proof (cases "fst b = p")
    case True
    then have "p \<notin> fst ` set xs"
      using Cons.prems(1) by simp
    then have "filter (\<lambda>b. fst b \<noteq> p) xs = xs"
      by (intro filter_True) force
    then show ?thesis
      using True Cons.prems(2) by (cases b) simp
  next
    case False
    then show ?thesis
      using Cons by (cases b) simp
  qed
qed simp

lemma device_free_outside:
  assumes inv: "allocator_inv m" and a: "session_arena m = Some a"
    and live: "(p, n) \<in> set (g_dev (mc_gpu m)) - {arena_range a}"
  shows "allocator_inv (fst (device_free m p))"
    and "session_live (fst (device_free m p)) = session_live m - {(p, n)}"
proof -
  note A = arena_okD [OF allocator_invD(4) [OF inv a]] and I = allocator_invD [OF inv]
  have p0: "p \<noteq> 0"
    using I(2) live by (auto simp: blocks_ok_def)
  define a' where "a' = (case map_of (ta_direct a) p of
      None \<Rightarrow> a
    | Some bytes \<Rightarrow> a\<lparr>ta_live := sz_sub (ta_live a) bytes, ta_direct := filter (\<lambda>b. fst b \<noteq> p) (ta_direct a)\<rparr>)"
  have r: "device_free m p = hip_free (set_arena a' m) p"
    using a p0 live_outside [OF inv a live] by (simp add: device_free_def a'_def)
  have m0: "mc_gpu (set_arena a' m) = mc_gpu m" "mc_api (set_arena a' m) = mc_api m"
    "session_arena (set_arena a' m) = Some a'" "mc_state (set_arena a' m) \<noteq> None"
    using I(3) by simp_all
  have dev: "(p, n) \<in> set (g_dev (mc_gpu (set_arena a' m)))"
    using live m0 by simp
  note F = hip_free_live [OF I(2) [folded m0(1)] dev, unfolded m0]
  have same: "ta_base a' = ta_base a" "ta_blocks a' = ta_blocks a" "arena_range a' = arena_range a"
    by (simp_all add: a'_def arena_range_def split: option.split)
  have ok: "arena_ok a' (g_dev (mc_gpu (fst (hip_free (set_arena a' m) p))))"
  proof -
    have direct: "set (ta_direct a') \<subseteq> set (g_dev (mc_gpu m)) - {(p, n)} - {arena_range a} \<and>
        distinct (map fst (ta_direct a')) \<and> ta_live a' = ar_used (ta_blocks a) + sum_list (map snd (ta_direct a'))"
    proof (cases "map_of (ta_direct a) p")
      case None
      then have "p \<notin> fst ` set (ta_direct a)"
        by (simp add: map_of_eq_None_iff)
      then show ?thesis
        using A None by (force simp: a'_def)
    next
      case (Some bytes)
      have bytes: "(p, bytes) \<in> set (ta_direct a)"
        by (rule map_of_SomeD [OF Some])
      note sum = sum_lengths_remove [OF A(4) Some]
      have "ta_live a < size_limit"
        unfolding A(5) by (rule arena_accounted [OF I(2) A(1-4)])
      then have "sz_sub (ta_live a) bytes = ta_live a - bytes"
        using A(5) sum by (intro sz_sub_exact) linarith+
      moreover have "distinct (map fst (filter (\<lambda>b. fst b \<noteq> p) (ta_direct a)))"
        using A(4) by (rule distinct_map_filter)
      ultimately show ?thesis
        using Some A(3,5) sum by (auto simp: a'_def)
    qed
    have "arena_range a \<in> set (g_dev (mc_gpu m)) - {(p, n)}"
      using A(2) live by auto
    then show ?thesis
      using direct A(1) F(1) same by (simp add: arena_ok_def arena_range_def)
  qed
  have arena: "session_arena (fst (hip_free (set_arena a' m) p)) = Some a'"
    using F(4) m0(3) by (simp add: session_arena_def)
  show "allocator_inv (fst (device_free m p))"
    using I(1,3) F(2-4) m0 arena ok by (simp add: r allocator_inv_def)
  have "(p, n) \<notin> shifted (ta_base a) ` set (ar_live (ta_blocks a))"
  proof
    assume "(p, n) \<in> shifted (ta_base a) ` set (ar_live (ta_blocks a))"
    from shifted_in_range [OF A(1) this] live_outside [OF inv a live] show False
      by auto
  qed
  then show "session_live (fst (device_free m p)) = session_live m - {(p, n)}"
    using a arena F(1) same by (auto simp: r session_live_def)
qed

lemma device_free_inside:
  assumes inv: "allocator_inv m" and a: "session_arena m = Some a" and off: "(off, n) \<in> set (ar_live (ta_blocks a))"
  shows "allocator_inv (fst (device_free m (ta_base a + off)))"
    and "session_live (fst (device_free m (ta_base a + off))) = session_live m - {(ta_base a + off, n)}"
proof -
  note A = arena_okD [OF allocator_invD(4) [OF inv a]] and I = allocator_invD [OF inv]
  let ?blocks = "fst (arena_release (ta_blocks a) off)"
  have live: "map_of (ar_live (ta_blocks a)) off = Some n"
    using off arena_invD(4) [OF A(1)] by (simp add: om_get_iff)
  note R = arena_release_live [OF A(1) live]
  have lt: "off < ar_size (ta_blocks a)"
    using live_bounded [OF A(1) off] arena_block_pos [OF A(1) off] by simp
  have bytes: "arena_block_bytes (ta_blocks a) off = n"
    using live by (simp add: arena_block_bytes_def)
  have base: "0 < ta_base a"
    using I(2) A(2) by (auto simp: blocks_ok_def arena_range_def)
  have sum: "sum_list (map snd (ar_live ?blocks)) + n = sum_list (map snd (ar_live (ta_blocks a)))"
    unfolding R(3) by (rule sum_lengths_del [OF arena_invD(4) [OF A(1)] live])
  have "ta_live a < size_limit"
    unfolding A(5) by (rule arena_accounted [OF I(2) A(1-4)])
  then have exact: "sz_sub (ta_live a) n = ta_live a - n"
    using A(5) sum arena_invD(9) [OF A(1)] by (intro sz_sub_exact) linarith+
  define a' where "a' = a\<lparr>ta_live := sz_sub (ta_live a) n, ta_blocks := ?blocks\<rparr>"
  have r: "fst (device_free m (ta_base a + off)) = set_arena a' (fst (hip_device_sync m))"
    using a lt bytes base by (simp add: device_free_def a'_def Let_def hip_device_sync_def)
  have s: "mc_state (fst (hip_device_sync m)) = mc_state m" "mc_api (fst (hip_device_sync m)) = mc_api m"
    "g_dev (mc_gpu (fst (hip_device_sync m))) = g_dev (mc_gpu m)"
    by (simp_all add: hip_device_sync_def)
  have "arena_ok a' (g_dev (mc_gpu m))"
    using A R(1,4) exact sum arena_invD(9) [OF A(1)] arena_invD(9) [OF R(1)]
    by (simp add: arena_ok_def a'_def arena_range_def)
  then show "allocator_inv (fst (device_free m (ta_base a + off)))"
    unfolding r allocator_inv_def using I(1-3) s by simp
  have ar: "session_arena (set_arena a' (fst (hip_device_sync m))) = Some a'"
    using I(3) s(1) by (intro session_arena_upd(2)) simp
  have range: "arena_range a' = arena_range a"
    by (simp add: a'_def arena_range_def R(4))
  have keys: "set (ar_live ?blocks) = set (ar_live (ta_blocks a)) - {(off, n)}"
    unfolding R(3) by (rule set_om_del_live [OF arena_invD(4) [OF A(1)] live])
  have "(ta_base a + off, n) \<notin> set (g_dev (mc_gpu m)) - {arena_range a}"
    using live_outside [OF inv a, of "ta_base a + off" n] lt by auto
  moreover have "session_live (fst (device_free m (ta_base a + off))) =
      (set (g_dev (mc_gpu m)) - {arena_range a}) \<union> shifted (ta_base a) ` (set (ar_live (ta_blocks a)) - {(off, n)})"
    unfolding r session_live_def ar range option.case set_arena_simps(2) s(3)
    by (simp add: a'_def keys)
  moreover have "shifted (ta_base a) ` (set (ar_live (ta_blocks a)) - {(off, n)}) =
      shifted (ta_base a) ` set (ar_live (ta_blocks a)) - {(ta_base a + off, n)}"
    unfolding image_set_diff [OF inj_shifted] by (simp add: shifted_def)
  ultimately show "session_live (fst (device_free m (ta_base a + off))) = session_live m - {(ta_base a + off, n)}"
    using a by (simp add: session_live_def Un_Diff)
qed

section \<open>The session's allocator provides ranges\<close>

lemma device_alloc_laws:
  assumes "allocator_inv m" and "0 < n"
  shows "allocator_inv (fst (device_alloc m n))"
    and "device_alloc m n = (m', Some p) \<Longrightarrow>
      \<exists>len. n \<le> len \<and> (p, len) \<notin> session_live m \<and> session_live m' = insert (p, len) (session_live m)"
    and "device_alloc m n = (m', None) \<Longrightarrow> session_live m' = session_live m"
proof -
  have "allocator_inv (fst (device_alloc m n)) \<and>
    (\<forall>m' p. device_alloc m n = (m', Some p) \<longrightarrow>
      (\<exists>len. n \<le> len \<and> (p, len) \<notin> session_live m \<and> session_live m' = insert (p, len) (session_live m))) \<and>
    (\<forall>m'. device_alloc m n = (m', None) \<longrightarrow> session_live m' = session_live m)"
  proof (cases "session_arena m")
    case None
    then show ?thesis
      using device_alloc_none [OF assms(1) None assms(2)] by blast
  next
    case (Some a)
    obtain blocks r where al: "arena_allocate (ta_blocks a) n = (blocks, r)"
      by (cases "arena_allocate (ta_blocks a) n")
    show ?thesis
    proof (cases r)
      case None
      then show ?thesis
        using device_alloc_miss [OF assms(1) Some assms(2)] al by blast
    next
      case off: (Some off)
      note H = device_alloc_hit [OF assms(1) Some al [unfolded off]]
      show ?thesis
        using H by (auto simp: H(1))
    qed
  qed
  then show "allocator_inv (fst (device_alloc m n))"
    and "device_alloc m n = (m', Some p) \<Longrightarrow>
      \<exists>len. n \<le> len \<and> (p, len) \<notin> session_live m \<and> session_live m' = insert (p, len) (session_live m)"
    and "device_alloc m n = (m', None) \<Longrightarrow> session_live m' = session_live m"
    by blast+
qed

lemma device_free_laws:
  assumes "allocator_inv m" and "(p, n) \<in> session_live m"
  shows "allocator_inv (fst (device_free m p))"
    and "session_live (fst (device_free m p)) = session_live m - {(p, n)}"
proof -
  have "allocator_inv (fst (device_free m p)) \<and>
    session_live (fst (device_free m p)) = session_live m - {(p, n)}"
  proof (cases "session_arena m")
    case None
    then show ?thesis
      using device_free_none [OF assms(1) None assms(2)] by blast
  next
    case (Some a)
    then consider "(p, n) \<in> set (g_dev (mc_gpu m)) - {arena_range a}"
      | off where "p = ta_base a + off" "(off, n) \<in> set (ar_live (ta_blocks a))"
      using assms(2) by (auto simp: session_live_def shifted_def)
    then show ?thesis
    proof cases
      case 1
      then show ?thesis
        using device_free_outside [OF assms(1) Some] by blast
    next
      case 2
      then show ?thesis
        using device_free_inside [OF assms(1) Some] by blast
    qed
  qed
  then show "allocator_inv (fst (device_free m p))"
    and "session_live (fst (device_free m p)) = session_live m - {(p, n)}"
    by blast+
qed

interpretation session: pointer_allocator device_alloc "\<lambda>m p. fst (device_free m p)" session_live allocator_inv
proof unfold_locales
  fix m and n :: nat
  assume "allocator_inv m" "0 < n"
  then show "allocator_inv (fst (device_alloc m n))"
    by (rule device_alloc_laws(1))
next
  fix m p n
  assume a: "allocator_inv m" "(p, n) \<in> session_live m"
  show "allocator_inv (fst (device_free m p))" and "session_live (fst (device_free m p)) = session_live m - {(p, n)}"
    by (rule device_free_laws [OF a])+
next
  fix m m' p and n :: nat
  assume "allocator_inv m" "0 < n" "device_alloc m n = (m', Some p)"
  then show "\<exists>len. n \<le> len \<and> (p, len) \<notin> session_live m \<and> session_live m' = insert (p, len) (session_live m)"
    by (rule device_alloc_laws(2))
next
  fix m m' and n :: nat
  assume "allocator_inv m" "0 < n" "device_alloc m n = (m', None)"
  then show "session_live m' = session_live m"
    by (rule device_alloc_laws(3))
next
  fix m b c
  assume "allocator_inv m" "b \<in> session_live m" "c \<in> session_live m" "b \<noteq> c"
  then show "disjoint_blocks b c"
    by (rule session_live_disjoint)
next
  fix m b
  assume "allocator_inv m" "b \<in> session_live m"
  then show "0 < snd b"
    by (rule session_live_pos(1))
next
  fix m b
  assume "allocator_inv m" "b \<in> session_live m"
  then show "fst b \<noteq> 0"
    using session_live_pos(2) [of m b] by simp
qed

section \<open>Pinned host memory\<close>

definition pinned_inv :: "machine \<Rightarrow> bool" where
  "pinned_inv m \<longleftrightarrow> hip_ok (mc_api m) \<and> blocks_ok (g_pin (mc_gpu m))"

definition pinned_live :: "machine \<Rightarrow> block set" where
  "pinned_live m = set (g_pin (mc_gpu m))"

lemma hip_host_malloc_laws:
  assumes inv: "pinned_inv m" and n: "0 < n"
  shows "pinned_inv (fst (hip_host_malloc m n))"
    and "hip_host_malloc m n = (m', Some p) \<Longrightarrow> (p, n) \<notin> pinned_live m \<and> pinned_live m' = insert (p, n) (pinned_live m)"
    and "hip_host_malloc m n = (m', None) \<Longrightarrow> pinned_live m' = pinned_live m"
proof -
  have new: "blocks_ok ((p, n) # g_pin (mc_gpu m))" if "api_pin_at (mc_api m) (mc_gpu m) n = Some p" for p
    using inv n that unfolding pinned_inv_def hip_ok_def by blast
  have fresh: "(p, n) \<notin> set (g_pin (mc_gpu m))" if "blocks_ok ((p, n) # g_pin (mc_gpu m))" for p
    using blocks_ok_distinct [OF that] by (force simp: image_iff)
  show "pinned_inv (fst (hip_host_malloc m n))"
    using inv n new by (auto simp: hip_host_malloc_def pinned_inv_def split: option.splits)
  show "hip_host_malloc m n = (m', Some p) \<Longrightarrow> (p, n) \<notin> pinned_live m \<and> pinned_live m' = insert (p, n) (pinned_live m)"
    using n new fresh by (auto simp: hip_host_malloc_def pinned_live_def split: option.splits)
  show "hip_host_malloc m n = (m', None) \<Longrightarrow> pinned_live m' = pinned_live m"
    using n by (auto simp: hip_host_malloc_def pinned_live_def split: option.splits)
qed

lemma hip_host_free_laws:
  assumes inv: "pinned_inv m" and live: "(p, n) \<in> pinned_live m"
  shows "pinned_inv (fst (hip_host_free m p))"
    and "pinned_live (fst (hip_host_free m p)) = pinned_live m - {(p, n)}"
proof -
  have b: "blocks_ok (g_pin (mc_gpu m))" and l: "(p, n) \<in> set (g_pin (mc_gpu m))"
    using inv live by (simp_all add: pinned_inv_def pinned_live_def)
  have "p \<noteq> 0"
    using b l by (auto simp: blocks_ok_def)
  moreover have "p \<in> fst ` set (g_pin (mc_gpu m))"
    using l by force
  ultimately have "fst (hip_host_free m p) =
      upd_gpu (\<lambda>g. emit (Ev_host_free p) (g\<lparr>g_pin := filter (\<lambda>b. fst b \<noteq> p) (g_pin g)\<rparr>)) m"
    by (simp add: hip_host_free_def)
  then show "pinned_inv (fst (hip_host_free m p))"
    and "pinned_live (fst (hip_host_free m p)) = pinned_live m - {(p, n)}"
    using inv blocks_ok_filter [OF b] blocks_ok_remove [OF b l] by (simp_all add: pinned_inv_def pinned_live_def)
qed

interpretation pinned: pointer_allocator hip_host_malloc "\<lambda>m p. fst (hip_host_free m p)" pinned_live pinned_inv
proof unfold_locales
  fix m and n :: nat
  assume a: "pinned_inv m" "0 < n"
  show "pinned_inv (fst (hip_host_malloc m n))"
    by (rule hip_host_malloc_laws(1) [OF a])
  show "\<exists>len \<ge> n. (p, len) \<notin> pinned_live m \<and> pinned_live m' = insert (p, len) (pinned_live m)"
    if "hip_host_malloc m n = (m', Some p)" for m' p
    using hip_host_malloc_laws(2) [OF a that] by blast
  show "pinned_live m' = pinned_live m" if "hip_host_malloc m n = (m', None)" for m'
    by (rule hip_host_malloc_laws(3) [OF a that])
next
  fix m p n
  assume a: "pinned_inv m" "(p, n) \<in> pinned_live m"
  show "pinned_inv (fst (hip_host_free m p))" and "pinned_live (fst (hip_host_free m p)) = pinned_live m - {(p, n)}"
    by (rule hip_host_free_laws [OF a])+
next
  fix m b c
  assume "pinned_inv m" "b \<in> pinned_live m" "c \<in> pinned_live m" "b \<noteq> c"
  then show "disjoint_blocks b c"
    by (auto simp: pinned_inv_def pinned_live_def intro: blocks_ok_disjoint)
next
  fix m b
  assume "pinned_inv m" "b \<in> pinned_live m"
  then show "0 < snd b" and "fst b \<noteq> 0"
    by (auto simp: pinned_inv_def pinned_live_def blocks_ok_def)
qed

end
