(* ===== verification/Runtime_Buffers.thy ===== *)
theory Runtime_Buffers
  imports Session_Allocator
begin

text \<open>
  The buffers of a session that grow on demand, from \<open>hipdnn_ep_runtime_state.cpp\<close>: one
  pool per dominance domain, the shared workspace and the operators' scratch buffers on
  the device, and the pinned host buffers.  Every entry point takes the state pointer,
  which may be null; a null pointer result is \<open>0\<close>.
\<close>

section \<open>Fields\<close>

definition set_pool :: "nat \<Rightarrow> block \<Rightarrow> machine \<Rightarrow> machine" where
  "set_pool d b = upd_st (\<lambda>s. s\<lparr>rs_pools := (rs_pools s)[d := b]\<rparr>)"

definition set_scratch :: "slot \<Rightarrow> scratch \<Rightarrow> machine \<Rightarrow> machine" where
  "set_scratch k sc = upd_st (\<lambda>s. s\<lparr>rs_scratch := (rs_scratch s)(k := sc)\<rparr>)"

definition set_host :: "host_slot \<Rightarrow> scratch \<Rightarrow> machine \<Rightarrow> machine" where
  "set_host k sc = upd_st (\<lambda>s. s\<lparr>rs_host := (rs_host s)(k := sc)\<rparr>)"

definition no_scratch :: scratch where
  "no_scratch = \<lparr>sc_ptr = 0, sc_size = 0\<rparr>"

section \<open>Domain pools\<close>

text \<open>
  The two parallel arrays are one list of base and size; its length is
  \<open>num_pool_domains\<close>.  A failed second \<open>realloc\<close> leaves only \<open>pool_base\<close> longer than
  \<open>num_pool_domains\<close>, which no access can see.
\<close>

definition heap_call :: "machine \<Rightarrow> nat \<Rightarrow> machine \<times> bool" where
  "heap_call m n = (upd_gpu (emit (Ev_call ''realloc'')) m, api_heap (mc_api m) (mc_gpu m) n)"

definition ensure_pool_domains :: "machine \<Rightarrow> int \<Rightarrow> machine \<times> bool" where
  "ensure_pool_domains m needed =
     (if needed \<le> int (length (rs_pools (st m))) then (m, True)
      else case heap_call m (8 * nat needed) of
        (m1, False) \<Rightarrow> (m1, False)
      | (m1, True) \<Rightarrow>
          (case heap_call m1 (8 * nat needed) of
             (m2, False) \<Rightarrow> (m2, False)
           | (m2, True) \<Rightarrow>
               (upd_st (\<lambda>s. s\<lparr>rs_pools :=
                  rs_pools s @ replicate (nat needed - length (rs_pools s)) (0, 0)\<rparr>) m2, True)))"

definition pool_init :: "machine \<Rightarrow> nat \<Rightarrow> nat list option \<Rightarrow> nat \<Rightarrow> machine \<times> int" where
  "pool_init m pool_size buffer_offsets num_buffers =
     (if mc_state m = None then (m, 1)
      else case ensure_pool_domains m 1 of
        (m1, False) \<Rightarrow> (m1, 1)
      | (m1, True) \<Rightarrow>
          (case (if pool_size > 0 then device_alloc m1 pool_size else (m1, Some 0)) of
             (m2, None) \<Rightarrow> (m2, 2)
           | (m2, Some p) \<Rightarrow>
               let m3 = upd_st (\<lambda>s. s\<lparr>rs_num_buffers := num_buffers\<rparr>) (set_pool 0 (p, pool_size) m2)
               in (case (if num_buffers > 0 then buffer_offsets else None) of
                     None \<Rightarrow> (upd_st (\<lambda>s. s\<lparr>rs_offsets := None\<rparr>) m3, 0)
                   | Some offs \<Rightarrow>
                       (case heap_call m3 (8 * num_buffers) of
                          (m4, True) \<Rightarrow>
                            (upd_st (\<lambda>s. s\<lparr>rs_offsets := Some (take num_buffers offs)\<rparr>) m4, 0)
                        | (m4, False) \<Rightarrow>
                            let m5 = upd_st (\<lambda>s. s\<lparr>rs_offsets := None\<rparr>) m4
                            in (if p \<noteq> 0 then set_pool 0 (0, pool_size) (fst (device_free m5 p)) else m5,
                                1)))))"

text \<open>The read of \<open>buffer_offsets\<close> through a null pointer is a result of its own.\<close>

datatype fetched = Ptr nat | Null_deref

definition get_buffer_from_pool :: "machine \<Rightarrow> nat \<Rightarrow> fetched" where
  "get_buffer_from_pool m index =
     (case mc_state m of
        None \<Rightarrow> Ptr 0
      | Some s \<Rightarrow>
          if rs_pools s = [] \<or> fst (rs_pools s ! 0) = 0 then Ptr 0
          else if index \<ge> rs_num_buffers s then Ptr 0
          else (case rs_offsets s of
                  None \<Rightarrow> Null_deref
                | Some offs \<Rightarrow> Ptr (fst (rs_pools s ! 0) + offs ! index)))"

definition grow_pool :: "machine \<Rightarrow> nat \<Rightarrow> nat \<Rightarrow> machine \<times> nat" where
  "grow_pool m d needed =
     (let base = fst (rs_pools (st m) ! d);
          m1 = (if base \<noteq> 0 then fst (device_free (sync_session m) base) else m)
      in case device_alloc m1 needed of
           (m2, None) \<Rightarrow> (set_pool d (0, 0) m2, 0)
         | (m2, Some p) \<Rightarrow> (set_pool d (p, needed) m2, p))"

definition get_pool_base :: "machine \<Rightarrow> int \<Rightarrow> nat \<Rightarrow> machine \<times> nat" where
  "get_pool_base m domain_id needed_size =
     (if mc_state m = None \<or> domain_id < 0 then (m, 0)
      else case ensure_pool_domains m (domain_id + 1) of
        (m1, False) \<Rightarrow> (m1, 0)
      | (m1, True) \<Rightarrow>
          let needed = (if needed_size = 0 then 1 else needed_size);
              d = nat domain_id
          in if needed > snd (rs_pools (st m1) ! d) then grow_pool m1 d needed
             else (m1, fst (rs_pools (st m1) ! d)))"

section \<open>Device scratch buffers\<close>

text \<open>The new size: the request, or 1.5 times the old size where that is more.\<close>

definition grown_size :: "nat \<Rightarrow> nat \<Rightarrow> nat" where
  "grown_size old needed =
     (if old > 0 \<and> sz_add old (old div 2) > needed then sz_add old (old div 2) else needed)"

definition grow_scratch :: "slot \<Rightarrow> machine \<Rightarrow> nat \<Rightarrow> machine \<times> bool" where
  "grow_scratch k m needed =
     (let sc = rs_scratch (st m) k;
          n = grown_size (sc_size sc) needed;
          m1 = (if sc_ptr sc \<noteq> 0
                then set_scratch k no_scratch (fst (device_free (sync_session m) (sc_ptr sc))) else m)
      in case device_alloc m1 n of
           (m2, None) \<Rightarrow> (m2, False)
         | (m2, Some p) \<Rightarrow> (set_scratch k \<lparr>sc_ptr = p, sc_size = n\<rparr> m2, True))"

definition ensure_scratch :: "slot \<Rightarrow> machine \<Rightarrow> nat \<Rightarrow> machine \<times> int" where
  "ensure_scratch k m needed =
     (if mc_state m = None then (m, -1)
      else if needed = 0 then (m, 0)
      else if sc_size (rs_scratch (st m) k) \<ge> needed then (m, 0)
      else case grow_scratch k m needed of (m1, ok) \<Rightarrow> (m1, if ok then 0 else -1))"

definition get_scratch :: "slot \<Rightarrow> machine \<Rightarrow> nat" where
  "get_scratch k m = (case mc_state m of None \<Rightarrow> 0 | Some s \<Rightarrow> sc_ptr (rs_scratch s k))"

text \<open>\<open>ensure_workspace\<close> aborts the process (\<open>None\<close>) where the others report a failure.\<close>

definition ensure_workspace :: "machine \<Rightarrow> nat \<Rightarrow> (machine \<times> int) option" where
  "ensure_workspace m needed =
     (if mc_state m = None then Some (m, -1)
      else if needed = 0 then Some (m, 0)
      else if sc_size (rs_scratch (st m) Workspace) \<ge> needed then Some (m, 0)
      else case grow_scratch Workspace m needed of
             (m1, True) \<Rightarrow> Some (m1, 0)
           | (m1, False) \<Rightarrow> None)"

definition get_workspace :: "machine \<Rightarrow> nat" where
  "get_workspace = get_scratch Workspace"

definition get_workspace_size :: "machine \<Rightarrow> nat" where
  "get_workspace_size m = (case mc_state m of None \<Rightarrow> 0 | Some s \<Rightarrow> sc_size (rs_scratch s Workspace))"

definition ensure_qmoe_scratch :: "machine \<Rightarrow> nat \<Rightarrow> machine \<times> int" where
  "ensure_qmoe_scratch = ensure_scratch Qmoe_scratch"

definition ensure_qmoe_amd_scratch :: "machine \<Rightarrow> nat \<Rightarrow> machine \<times> int" where
  "ensure_qmoe_amd_scratch = ensure_scratch Qmoe_amd_scratch"

definition ensure_conv_scratch :: "machine \<Rightarrow> nat \<Rightarrow> machine \<times> int" where
  "ensure_conv_scratch = ensure_scratch Conv_scratch"

definition ensure_qlpnormalization_scratch :: "machine \<Rightarrow> nat \<Rightarrow> machine \<times> int" where
  "ensure_qlpnormalization_scratch = ensure_scratch Qlpnormalization_scratch"

definition ensure_qsigmoid_scratch :: "machine \<Rightarrow> nat \<Rightarrow> machine \<times> int" where
  "ensure_qsigmoid_scratch = ensure_scratch Qsigmoid_scratch"

definition ensure_matmul_dp4a_scratch :: "machine \<Rightarrow> nat \<Rightarrow> machine \<times> int" where
  "ensure_matmul_dp4a_scratch = ensure_scratch Matmul_dp4a_scratch"

definition ensure_la_scratch :: "machine \<Rightarrow> nat \<Rightarrow> machine \<times> int" where
  "ensure_la_scratch = ensure_scratch La_scratch"

definition get_qmoe_scratch :: "machine \<Rightarrow> nat" where
  "get_qmoe_scratch = get_scratch Qmoe_scratch"

definition get_qmoe_amd_scratch :: "machine \<Rightarrow> nat" where
  "get_qmoe_amd_scratch = get_scratch Qmoe_amd_scratch"

definition get_conv_scratch :: "machine \<Rightarrow> nat" where
  "get_conv_scratch = get_scratch Conv_scratch"

definition get_qlpnormalization_scratch :: "machine \<Rightarrow> nat" where
  "get_qlpnormalization_scratch = get_scratch Qlpnormalization_scratch"

definition get_qsigmoid_scratch :: "machine \<Rightarrow> nat" where
  "get_qsigmoid_scratch = get_scratch Qsigmoid_scratch"

definition get_matmul_dp4a_scratch :: "machine \<Rightarrow> nat" where
  "get_matmul_dp4a_scratch = get_scratch Matmul_dp4a_scratch"

definition get_la_scratch :: "machine \<Rightarrow> nat" where
  "get_la_scratch = get_scratch La_scratch"

text \<open>\<open>real/gqa.cpp\<close>: a failed synchronization or free is an error here.\<close>

definition ensure_gqa_fp32_adapter_scratch :: "machine \<Rightarrow> nat \<Rightarrow> machine \<times> int" where
  "ensure_gqa_fp32_adapter_scratch m needed =
     (let k = Gqa_fp32_adapter_scratch; sc = rs_scratch (st m) k in
      if mc_state m = None then (m, -1)
      else if needed = 0 then (m, 0)
      else if sc_size sc \<ge> needed then (m, 0)
      else
        let n = grown_size (sc_size sc) needed;
            (m1, synced) = (if sc_ptr sc \<noteq> 0 \<and> rs_stream (st m) \<noteq> 0 then hip_stream_sync m else (m, True))
        in if \<not> synced then (m1, -1)
           else
             let (m2, freed) = (if sc_ptr sc \<noteq> 0 then device_free m1 (sc_ptr sc) else (m1, True))
             in if \<not> freed then (m2, -1)
                else (case device_alloc (if sc_ptr sc \<noteq> 0 then set_scratch k no_scratch m2 else m2) n of
                        (m3, None) \<Rightarrow> (m3, -1)
                      | (m3, Some p) \<Rightarrow> (set_scratch k \<lparr>sc_ptr = p, sc_size = n\<rparr> m3, 0)))"

section \<open>Pinned host buffers\<close>

definition get_host_scratch_base :: "machine \<Rightarrow> nat \<Rightarrow> machine \<times> nat" where
  "get_host_scratch_base m needed =
     (if mc_state m = None then (m, 0)
      else
        let sc = rs_host (st m) Host_scratch in
        if needed > sc_size sc then
          let m1 = (if sc_ptr sc \<noteq> 0 then fst (hip_host_free (sync_session m) (sc_ptr sc)) else m)
          in (case hip_host_malloc m1 needed of
                (m2, None) \<Rightarrow> (set_host Host_scratch no_scratch m2, 0)
              | (m2, Some p) \<Rightarrow> (set_host Host_scratch \<lparr>sc_ptr = p, sc_size = needed\<rparr> m2, p))
        else (m, sc_ptr sc))"

definition ensure_host_scratch :: "host_slot \<Rightarrow> machine \<Rightarrow> nat \<Rightarrow> machine \<times> int" where
  "ensure_host_scratch k m needed =
     (let sc = rs_host (st m) k in
      if mc_state m = None then (m, -1)
      else if needed = 0 then (m, 0)
      else if sc_size sc \<ge> needed then (m, 0)
      else
        let n = grown_size (sc_size sc) needed;
            m1 = (if sc_ptr sc \<noteq> 0
                  then set_host k no_scratch (fst (hip_host_free (sync_session m) (sc_ptr sc))) else m)
        in case hip_host_malloc m1 n of
             (m2, None) \<Rightarrow> (m2, -1)
           | (m2, Some p) \<Rightarrow> (set_host k \<lparr>sc_ptr = p, sc_size = n\<rparr> m2, 0))"

definition get_host :: "host_slot \<Rightarrow> machine \<Rightarrow> nat" where
  "get_host k m = (case mc_state m of None \<Rightarrow> 0 | Some s \<Rightarrow> sc_ptr (rs_host s k))"

definition get_qmoe_host_scratch :: "machine \<Rightarrow> nat" where
  "get_qmoe_host_scratch = get_host Qmoe_host_scratch"

definition get_qmoe_amd_host_scratch :: "machine \<Rightarrow> nat" where
  "get_qmoe_amd_host_scratch = get_host Qmoe_amd_host_scratch"

definition ensure_qmoe_host_scratch :: "machine \<Rightarrow> nat \<Rightarrow> machine \<times> int" where
  "ensure_qmoe_host_scratch = ensure_host_scratch Qmoe_host_scratch"

definition ensure_qmoe_amd_host_scratch :: "machine \<Rightarrow> nat \<Rightarrow> machine \<times> int" where
  "ensure_qmoe_amd_host_scratch = ensure_host_scratch Qmoe_amd_host_scratch"

definition ensure_disk_gather_staging :: "machine \<Rightarrow> nat \<Rightarrow> machine \<times> int" where
  "ensure_disk_gather_staging m n =
     (let k = Disk_gather_staging; sc = rs_host (st m) k in
      if n \<le> sc_size sc then (m, 0)
      else
        let m1 = (if sc_ptr sc \<noteq> 0 then set_host k no_scratch (fst (hip_host_free m (sc_ptr sc))) else m)
        in case hip_host_malloc m1 n of
             (m2, None) \<Rightarrow> (upd_st (\<lambda>s. s\<lparr>rs_host := (rs_host s)(k := (rs_host s k)\<lparr>sc_ptr := 0\<rparr>)\<rparr>) m2, 1)
           | (m2, Some p) \<Rightarrow> (set_host k \<lparr>sc_ptr = p, sc_size = n\<rparr> m2, 0))"

end
