(* ===== verification/Buffers_Correct.thy ===== *)
theory Buffers_Correct
  imports Runtime_Buffers
begin

text \<open>
  What the grow-on-demand buffers keep: every buffer is either empty or the start of a live
  range at least as long as its recorded size, no two buffers share a range, and a grow
  step touches neither another buffer nor a live range no buffer owns.
\<close>

section \<open>What an allocator call leaves alone\<close>

definition handles :: "machine \<Rightarrow> nat list \<times> nat list \<times> nat list \<times> nat \<times> nat" where
  "handles m = (g_streams (mc_gpu m), g_blas (mc_gpu m), g_events (mc_gpu m), g_profiles (mc_gpu m),
     mc_current_stream m)"

definition same_session :: "machine \<Rightarrow> machine \<Rightarrow> bool" where
  "same_session m m' \<longleftrightarrow> mc_api m' = mc_api m \<and> g_pin (mc_gpu m') = g_pin (mc_gpu m) \<and>
     handles m' = handles m \<and> (\<exists>a. mc_state m' = map_option (\<lambda>s. s\<lparr>rs_arena := a\<rparr>) (mc_state m))"

lemma same_session_refl [simp]: "same_session m m"
proof -
  have "mc_state m = map_option (\<lambda>s. s\<lparr>rs_arena := rs_arena (st m)\<rparr>) (mc_state m)"
    by (cases "mc_state m") simp_all
  then show ?thesis
    by (auto simp: same_session_def)
qed

lemma same_session_trans [trans]: "same_session a b \<Longrightarrow> same_session b c \<Longrightarrow> same_session a c"
  by (auto simp: same_session_def option.map_comp comp_def)

lemma handles_upd_st [simp]: "handles (upd_st f m) = handles m"
  by (simp add: handles_def upd_st_def)

lemma handles_set_arena [simp]: "handles (set_arena a m) = handles m"
  by (simp add: set_arena_def)

lemma handles_upd_gpu:
  "(\<And>g. g_streams (f g) = g_streams g \<and> g_blas (f g) = g_blas g \<and> g_events (f g) = g_events g \<and>
     g_profiles (f g) = g_profiles g) \<Longrightarrow> handles (upd_gpu f m) = handles m"
  by (simp add: handles_def upd_gpu_def)

lemma same_session_gpu:
  assumes "\<And>g. g_pin (f g) = g_pin g \<and> g_streams (f g) = g_streams g \<and> g_blas (f g) = g_blas g \<and>
      g_events (f g) = g_events g \<and> g_profiles (f g) = g_profiles g"
  shows "same_session m (upd_gpu f m)"
  using same_session_refl [of m] handles_upd_gpu [of f m] assms unfolding same_session_def by simp

lemma same_session_arena [simp]: "same_session m (set_arena a m)"
  by (auto simp: same_session_def)

lemma hip_malloc_frame: "same_session m (fst (hip_malloc m n))"
  by (auto simp: hip_malloc_def split: option.split intro: same_session_gpu)

lemma hip_free_frame: "same_session m (fst (hip_free m p))"
  by (auto simp: hip_free_def intro: same_session_gpu)

lemma sync_session_frame: "same_session m (sync_session m)"
  by (auto simp: sync_session_def hip_stream_sync_def intro: same_session_gpu)

lemma device_alloc_frame: "same_session m (fst (device_alloc m n))"
proof (cases "session_arena m")
  case None
  then show ?thesis
    by (simp add: device_alloc_def hip_malloc_frame)
next
  case (Some a)
  show ?thesis
  proof (cases "snd (arena_allocate (ta_blocks a) n)")
    case None
    let ?m = "set_arena (a\<lparr>ta_blocks := fst (arena_allocate (ta_blocks a) n)\<rparr>) m"
    have "same_session m (fst (hip_malloc ?m n))"
      using same_session_arena hip_malloc_frame by (rule same_session_trans)
    then show ?thesis
      using Some None same_session_arena same_session_trans
      by (auto simp: device_alloc_def Let_def split: prod.splits option.splits)
  next
    case (Some off)
    then show ?thesis
      using \<open>session_arena m = Some a\<close> by (auto simp: device_alloc_def split: prod.splits)
  qed
qed

lemma device_free_frame: "same_session m (fst (device_free m p))"
proof (cases "session_arena m")
  case None
  then show ?thesis
    by (simp add: device_free_def hip_free_frame)
next
  case (Some a)
  have "same_session m (fst (hip_free (set_arena b m) p))" for b
    using same_session_arena hip_free_frame by (rule same_session_trans)
  moreover have "same_session m (set_arena b (upd_gpu (emit e) m))" for b e
    using same_session_gpu [of "emit e"] same_session_arena by (rule same_session_trans) simp
  ultimately show ?thesis
    using Some by (simp add: device_free_def Let_def hip_device_sync_def)
qed

section \<open>Buffers\<close>

datatype buf = Pool nat | Slot slot

fun buf_of :: "runtime_state \<Rightarrow> buf \<Rightarrow> block" where
  "buf_of s (Pool d) = (if d < length (rs_pools s) then rs_pools s ! d else (0, 0))"
| "buf_of s (Slot k) = (sc_ptr (rs_scratch s k), sc_size (rs_scratch s k))"

section \<open>Reading a buffer after an update\<close>

lemma buf_of_arena [simp]: "buf_of (s\<lparr>rs_arena := a\<rparr>) = buf_of s"
proof
  fix b show "buf_of (s\<lparr>rs_arena := a\<rparr>) b = buf_of s b"
    by (cases b) simp_all
qed

lemma same_session_state:
  assumes "same_session m m'" and "mc_state m \<noteq> None"
  shows "mc_state m' \<noteq> None" and "buf_of (st m') = buf_of (st m)" and "rs_host (st m') = rs_host (st m)"
    and "rs_stream (st m') = rs_stream (st m)" and "length (rs_pools (st m')) = length (rs_pools (st m))"
    and "rs_scratch (st m') = rs_scratch (st m)" and "rs_pools (st m') = rs_pools (st m)"
  using assms by (auto simp: same_session_def)

lemma set_pool_simps [machine_simps]:
  "mc_api (set_pool d b m) = mc_api m" "mc_gpu (set_pool d b m) = mc_gpu m"
  "mc_state (set_pool d b m) = None \<longleftrightarrow> mc_state m = None"
  "session_arena (set_pool d b m) = session_arena m"
  by (simp_all add: set_pool_def session_arena_def split: option.split)

lemma set_scratch_simps [machine_simps]:
  "mc_api (set_scratch k b m) = mc_api m" "mc_gpu (set_scratch k b m) = mc_gpu m"
  "mc_state (set_scratch k b m) = None \<longleftrightarrow> mc_state m = None"
  "session_arena (set_scratch k b m) = session_arena m"
  by (simp_all add: set_scratch_def session_arena_def split: option.split)

lemma set_host_simps [machine_simps]:
  "mc_api (set_host k b m) = mc_api m" "mc_gpu (set_host k b m) = mc_gpu m"
  "mc_state (set_host k b m) = None \<longleftrightarrow> mc_state m = None"
  "session_arena (set_host k b m) = session_arena m"
  by (simp_all add: set_host_def session_arena_def split: option.split)

lemma buf_of_set_pool:
  assumes "mc_state m \<noteq> None" and "d < length (rs_pools (st m))"
  shows "buf_of (st (set_pool d b m)) = (buf_of (st m))(Pool d := b)"
proof
  fix c show "buf_of (st (set_pool d b m)) c = ((buf_of (st m))(Pool d := b)) c"
    using assms by (cases c) (auto simp: set_pool_def)
qed

lemma buf_of_set_scratch:
  assumes "mc_state m \<noteq> None"
  shows "buf_of (st (set_scratch k \<lparr>sc_ptr = p, sc_size = n\<rparr> m)) = (buf_of (st m))(Slot k := (p, n))"
proof
  fix c show "buf_of (st (set_scratch k \<lparr>sc_ptr = p, sc_size = n\<rparr> m)) c = ((buf_of (st m))(Slot k := (p, n))) c"
    using assms by (cases c) (auto simp: set_scratch_def)
qed

lemma allocator_same:
  assumes "mc_api m' = mc_api m" "g_dev (mc_gpu m') = g_dev (mc_gpu m)" "session_arena m' = session_arena m"
    and "mc_state m' = None \<longleftrightarrow> mc_state m = None"
  shows "allocator_inv m' = allocator_inv m" and "session_live m' = session_live m"
  unfolding allocator_inv_def session_live_def assms by (rule refl)+

lemma allocator_set [simp]:
  "allocator_inv (set_pool d b m) = allocator_inv m" "session_live (set_pool d b m) = session_live m"
  "allocator_inv (set_scratch k sc m) = allocator_inv m" "session_live (set_scratch k sc m) = session_live m"
  by (rule allocator_same; simp add: machine_simps)+

lemma allocator_emit [simp]:
  assumes "\<And>g. g_dev (f g) = g_dev g"
  shows "allocator_inv (upd_gpu f m) = allocator_inv m" and "session_live (upd_gpu f m) = session_live m"
  by (rule allocator_same; simp add: assms)+

lemma allocator_sync [simp]:
  "allocator_inv (sync_session m) = allocator_inv m" "session_live (sync_session m) = session_live m"
  by (simp_all add: sync_session_def hip_stream_sync_def)

section \<open>One grow step\<close>

text \<open>
  The step every device buffer takes: the old range, if any, is freed after a
  synchronization, then a new one is requested.  \<open>B\<close> is the assignment before the step.
\<close>

definition buffers_ok :: "machine \<Rightarrow> bool" where
  "buffers_ok m \<longleftrightarrow> allocator_inv m \<and> owned_ok (buf_of (st m)) (session_live m)"

definition foreign :: "machine \<Rightarrow> block set" where
  "foreign m = unowned (buf_of (st m)) (session_live m)"

definition dropped :: "nat \<Rightarrow> machine \<Rightarrow> machine" where
  "dropped p m = (if p \<noteq> 0 then fst (device_free (sync_session m) p) else m)"

lemma dropped_frame: "same_session m (dropped p m)"
  using same_session_trans [OF sync_session_frame device_free_frame] by (simp add: dropped_def)

lemma dropped_owned:
  assumes "buffers_ok m" and "fst (buf_of (st m) b) = p"
  shows "allocator_inv (dropped p m)" and "owned_ok ((buf_of (st m))(b := (0, 0))) (session_live (dropped p m))"
    and "unowned ((buf_of (st m))(b := (0, 0))) (session_live (dropped p m)) = foreign m"
proof -
  have ok: "allocator_inv (sync_session m)" "owned_ok (buf_of (st m)) (session_live (sync_session m))"
    using assms(1) by (simp_all add: buffers_ok_def)
  have same: "(buf_of (st m))(b := (0, 0)) = buf_of (st m)" if "p = 0"
    using owned_okD(1) [OF ok(2), of b] assms(2) that by (simp add: backed_def fun_upd_idem_iff prod_eq_iff)
  show "allocator_inv (dropped p m)"
    using session.owned_free(1) [OF ok assms(2)] ok(1) by (simp add: dropped_def)
  show "owned_ok ((buf_of (st m))(b := (0, 0))) (session_live (dropped p m))"
    using session.owned_free(2) [OF ok assms(2)] ok(2) same by (simp add: dropped_def)
  show "unowned ((buf_of (st m))(b := (0, 0))) (session_live (dropped p m)) = foreign m"
    using session.owned_free(3) [OF ok assms(2)] same by (simp add: dropped_def foreign_def)
qed

lemma regrown:
  assumes ok: "buffers_ok m" and p: "fst (buf_of (st m) b) = p" and n: "0 < n" "n < size_limit"
    and m1: "allocator_inv m1 = allocator_inv (dropped p m)" "session_live m1 = session_live (dropped p m)"
    and a: "device_alloc m1 n = (m2, r)"
  shows "allocator_inv m2"
    and "r = Some q \<Longrightarrow> q \<noteq> 0 \<and> owned_ok ((buf_of (st m))(b := (q, n))) (session_live m2) \<and>
      unowned ((buf_of (st m))(b := (q, n))) (session_live m2) = foreign m"
    and "r = None \<Longrightarrow> owned_ok ((buf_of (st m))(b := (0, 0))) (session_live m2) \<and>
      unowned ((buf_of (st m))(b := (0, 0))) (session_live m2) = foreign m"
proof -
  note D = dropped_owned [OF ok p, folded m1]
  show "allocator_inv m2"
    using session.inv_alloc [OF D(1) n] a by simp
  show "r = Some q \<Longrightarrow> q \<noteq> 0 \<and> owned_ok ((buf_of (st m))(b := (q, n))) (session_live m2) \<and>
      unowned ((buf_of (st m))(b := (q, n))) (session_live m2) = foreign m"
    using session.owned_alloc [OF D(1,2), of b n m2 q] n a D(3) by simp
  show "r = None \<Longrightarrow> owned_ok ((buf_of (st m))(b := (0, 0))) (session_live m2) \<and>
      unowned ((buf_of (st m))(b := (0, 0))) (session_live m2) = foreign m"
    using session.owned_alloc_failed [OF D(1) n(2,1), of m2] a D by simp
qed

section \<open>Domain pools\<close>

lemma heap_call_frame: "same_session m (fst (heap_call m n))"
  and heap_call_allocator [simp]: "allocator_inv (fst (heap_call m n)) = allocator_inv m"
    "session_live (fst (heap_call m n)) = session_live m"
  by (simp_all add: heap_call_def same_session_gpu)

lemma ensure_pool_domains_owned:
  assumes "mc_state m \<noteq> None" and "ensure_pool_domains m needed = (m', r)"
  shows "allocator_inv m' = allocator_inv m" and "session_live m' = session_live m" and "mc_state m' \<noteq> None"
    and "buf_of (st m') = buf_of (st m)" and "r \<Longrightarrow> needed \<le> int (length (rs_pools (st m')))"
    and "rs_stream (st m') = rs_stream (st m)" and "rs_host (st m') = rs_host (st m)"
proof -
  define m1 where "m1 = fst (heap_call (fst (heap_call m (8 * nat needed))) (8 * nat needed))"
  have m1: "same_session m m1" "allocator_inv m1 = allocator_inv m" "session_live m1 = session_live m"
    using same_session_trans [OF heap_call_frame heap_call_frame] by (simp_all add: m1_def)
  note S = same_session_state [OF m1(1) assms(1)]
  define f where "f = (\<lambda>s :: runtime_state. s\<lparr>rs_pools := rs_pools s @ replicate (nat needed - length (rs_pools s)) (0, 0)\<rparr>)"
  have f: "buf_of (f s) = buf_of s" for s
  proof
    fix b show "buf_of (f s) b = buf_of s b"
      by (cases b) (auto simp: f_def nth_append)
  qed
  have al: "allocator_inv (upd_st f m1) = allocator_inv m1" "session_live (upd_st f m1) = session_live m1"
    by (rule allocator_same; simp add: session_arena_def f_def split: option.split)+
  note H = same_session_state [OF heap_call_frame assms(1)]
  consider "needed \<le> int (length (rs_pools (st m)))" "m' = m"
    | "\<not> needed \<le> int (length (rs_pools (st m)))" "m' = fst (heap_call m (8 * nat needed))" "\<not> r"
    | "\<not> needed \<le> int (length (rs_pools (st m)))" "m' = m1" "\<not> r"
    | "\<not> needed \<le> int (length (rs_pools (st m)))" "m' = upd_st f m1" "r"
    using assms(2)
    by (auto simp: ensure_pool_domains_def m1_def f_def split: if_splits prod.splits bool.splits)
  then have "allocator_inv m' = allocator_inv m \<and> session_live m' = session_live m \<and> mc_state m' \<noteq> None \<and>
    buf_of (st m') = buf_of (st m) \<and> (r \<longrightarrow> needed \<le> int (length (rs_pools (st m')))) \<and>
    rs_stream (st m') = rs_stream (st m) \<and> rs_host (st m') = rs_host (st m)"
  proof cases
    case 1
    then show ?thesis using assms(1) by simp
  next
    case 2
    then show ?thesis using H by simp
  next
    case 3
    then show ?thesis using S m1 by simp
  next
    case 4
    have "st m' = f (st m1)" "mc_state m' \<noteq> None"
      using S(1) 4(2) by (simp_all add: option.map_sel)
    moreover have "needed \<le> int (length (rs_pools (f (st m1))))"
      "rs_stream (f (st m1)) = rs_stream (st m1)" "rs_host (f (st m1)) = rs_host (st m1)"
      by (simp_all add: f_def)
    ultimately show ?thesis
      using S m1 al 4(2) f by simp
  qed
  then show "allocator_inv m' = allocator_inv m" and "session_live m' = session_live m" and "mc_state m' \<noteq> None"
    and "buf_of (st m') = buf_of (st m)" and "r \<Longrightarrow> needed \<le> int (length (rs_pools (st m')))"
    and "rs_stream (st m') = rs_stream (st m)" and "rs_host (st m') = rs_host (st m)"
    by simp_all
qed

lemma grow_pool_dropped:
  "grow_pool m d needed =
     (case device_alloc (dropped (fst (rs_pools (st m) ! d)) m) needed of
        (m2, None) \<Rightarrow> (set_pool d (0, 0) m2, 0)
      | (m2, Some p) \<Rightarrow> (set_pool d (p, needed) m2, p))"
  by (simp add: grow_pool_def dropped_def Let_def)

lemma grow_pool_owned:
  assumes ok: "buffers_ok m" and d: "d < length (rs_pools (st m))" and n: "0 < n" "n < size_limit"
    and g: "grow_pool m d n = (m', p)"
  shows "buffers_ok m'" and "foreign m' = foreign m"
    and "buf_of (st m') = (buf_of (st m))(Pool d := if p = 0 then (0, 0) else (p, n))"
proof -
  let ?B = "buf_of (st m)"
  have base: "fst (?B (Pool d)) = fst (rs_pools (st m) ! d)"
    using d by simp
  obtain m2 r where a: "device_alloc (dropped (fst (rs_pools (st m) ! d)) m) n = (m2, r)"
    by fastforce
  note R = regrown [OF ok base n refl refl a]
  have nonnull: "mc_state m \<noteq> None"
    using ok by (simp add: buffers_ok_def allocator_inv_def)
  have "same_session m m2"
    using same_session_trans [OF dropped_frame device_alloc_frame] a by (metis fst_conv)
  note S = same_session_state [OF this nonnull]
  have m': "m' = set_pool d (if p = 0 then (0, 0) else (p, n)) m2"
    using g a R(2) by (cases r) (auto simp: grow_pool_dropped)
  then show B': "buf_of (st m') = ?B(Pool d := if p = 0 then (0, 0) else (p, n))"
    using S d by (simp add: buf_of_set_pool)
  have "allocator_inv m'" "session_live m' = session_live m2"
    using R(1) m' by simp_all
  moreover have "owned_ok (?B(Pool d := if p = 0 then (0, 0) else (p, n))) (session_live m2) \<and>
      unowned (?B(Pool d := if p = 0 then (0, 0) else (p, n))) (session_live m2) = foreign m"
    using g a R(2,3) by (cases r) (auto simp: grow_pool_dropped)
  ultimately show "buffers_ok m'" and "foreign m' = foreign m"
    unfolding buffers_ok_def foreign_def B' by simp_all
qed

section \<open>Scratch buffers\<close>

lemma grown_size_ge: "needed \<le> grown_size old needed"
  by (simp add: grown_size_def)

lemma grown_size_pos: "0 < needed \<Longrightarrow> 0 < grown_size old needed"
  using grown_size_ge [of needed old] by simp

lemma grown_size_limit: "needed < size_limit \<Longrightarrow> grown_size old needed < size_limit"
  by (simp add: grown_size_def sz_add_def)

text \<open>Without wrap-around the new size is at least one and a half times the old one.\<close>

lemma grown_size_half:
  assumes "old + old div 2 < size_limit"
  shows "old + old div 2 \<le> grown_size old needed \<or> old = 0"
  using assms by (simp add: grown_size_def sz_add_exact)

lemma grow_scratch_owned:
  assumes ok: "buffers_ok m" and n: "0 < n" "n < size_limit" and g: "grow_scratch k m n = (m', r)"
  shows "buffers_ok m'" and "foreign m' = foreign m"
    and "\<not> r \<Longrightarrow> buf_of (st m') = (buf_of (st m))(Slot k := (0, 0))"
    and "r \<Longrightarrow> \<exists>p. p \<noteq> 0 \<and>
      buf_of (st m') = (buf_of (st m))(Slot k := (p, grown_size (sc_size (rs_scratch (st m) k)) n))"
proof -
  let ?B = "buf_of (st m)" and ?n = "grown_size (sc_size (rs_scratch (st m) k)) n"
    and ?p = "sc_ptr (rs_scratch (st m) k)"
  have base: "fst (?B (Slot k)) = ?p"
    by simp
  have nonnull: "mc_state m \<noteq> None"
    using ok by (simp add: buffers_ok_def allocator_inv_def)
  define m1 where "m1 = (if ?p \<noteq> 0 then set_scratch k no_scratch (dropped ?p m) else m)"
  obtain m2 x where a: "device_alloc m1 ?n = (m2, x)"
    by fastforce
  have g': "(m', r) = (case x of None \<Rightarrow> (m2, False) | Some p \<Rightarrow> (set_scratch k \<lparr>sc_ptr = p, sc_size = ?n\<rparr> m2, True))"
    using g a by (simp add: grow_scratch_def m1_def dropped_def Let_def split: if_splits)
  have al: "allocator_inv m1 = allocator_inv (dropped ?p m)" "session_live m1 = session_live (dropped ?p m)"
    by (simp_all add: m1_def dropped_def)
  have "owned_ok ?B (session_live m)"
    using ok by (simp add: buffers_ok_def)
  from owned_okD(1) [OF this, of "Slot k"] have "?p = 0 \<Longrightarrow> sc_size (rs_scratch (st m) k) = 0"
    by (simp add: backed_def)
  moreover note D = same_session_state [OF dropped_frame nonnull, of ?p]
  ultimately have "buf_of (st m1) = ?B(Slot k := (0, 0))"
    using nonnull D(1,2) by (auto simp: m1_def no_scratch_def buf_of_set_scratch fun_upd_idem_iff)
  moreover have "mc_state m1 \<noteq> None"
    using nonnull D(1) set_scratch_simps(3) [of k no_scratch "dropped ?p m"] by (simp add: m1_def del: not_None_eq)
  ultimately have m1: "mc_state m1 \<noteq> None" "buf_of (st m1) = ?B(Slot k := (0, 0))"
    by blast+
  have "same_session m1 m2"
    using device_alloc_frame [of m1 ?n] a by simp
  note S = same_session_state [OF this m1(1)]
  note R = regrown [OF ok base grown_size_pos [OF n(1)] grown_size_limit [OF n(2)] al a]
  have "buffers_ok m' \<and> foreign m' = foreign m \<and>
      (\<not> r \<longrightarrow> buf_of (st m') = ?B(Slot k := (0, 0))) \<and>
      (r \<longrightarrow> (\<exists>p. p \<noteq> 0 \<and> buf_of (st m') = ?B(Slot k := (p, ?n))))"
  proof (cases x)
    case None
    then show ?thesis
      using g' R(1,3) S(2) m1(2) by (simp add: buffers_ok_def foreign_def)
  next
    case (Some p)
    then have "buf_of (st m') = ?B(Slot k := (p, ?n))"
      using g' S(1,2) m1(2) by (simp add: buf_of_set_scratch)
    moreover have "p \<noteq> 0 \<and> buffers_ok m' \<and> foreign m' = foreign m"
      using Some g' R(1) R(2) [OF Some] calculation by (simp add: buffers_ok_def foreign_def)
    moreover have r
      using Some g' by simp
    ultimately show ?thesis
      by blast
  qed
  then show "buffers_ok m'" and "foreign m' = foreign m"
    and "\<not> r \<Longrightarrow> buf_of (st m') = ?B(Slot k := (0, 0))"
    and "r \<Longrightarrow> \<exists>p. p \<noteq> 0 \<and> buf_of (st m') = ?B(Slot k := (p, ?n))"
    by simp_all
qed

end
