(* ===== verification/Buffers_Properties.thy ===== *)
theory Buffers_Properties
  imports Buffers_Correct
begin

text \<open>
  The buffers over whole histories of requests: a request is one of the nine entry
  points for pools, workspace and operator scratch, and a history is a list of them.  The fp32
  adapter of \<open>gqa.cpp\<close>, which grows a buffer too, is not among them: it can keep a pointer to a
  range it gave back (\<open>gqa_adapter_dangles\<close>).  The pinned host buffers follow the same
  scheme over the pinned allocator.
\<close>

section \<open>Requests\<close>

datatype request =
    Req_pool int nat
  | Req_workspace nat
  | Req_qmoe nat
  | Req_qmoe_amd nat
  | Req_conv nat
  | Req_qlpnormalization nat
  | Req_qsigmoid nat
  | Req_matmul_dp4a nat
  | Req_la nat

fun request_size :: "request \<Rightarrow> nat" where
  "request_size (Req_pool d n) = n"
| "request_size (Req_workspace n) = n"
| "request_size (Req_qmoe n) = n"
| "request_size (Req_qmoe_amd n) = n"
| "request_size (Req_conv n) = n"
| "request_size (Req_qlpnormalization n) = n"
| "request_size (Req_qsigmoid n) = n"
| "request_size (Req_matmul_dp4a n) = n"
| "request_size (Req_la n) = n"

text \<open>\<open>None\<close> is the abort of a failed workspace.\<close>

fun serve :: "machine \<Rightarrow> request \<Rightarrow> machine option" where
  "serve m (Req_pool d n) = Some (fst (get_pool_base m d n))"
| "serve m (Req_workspace n) = map_option fst (ensure_workspace m n)"
| "serve m (Req_qmoe n) = Some (fst (ensure_qmoe_scratch m n))"
| "serve m (Req_qmoe_amd n) = Some (fst (ensure_qmoe_amd_scratch m n))"
| "serve m (Req_conv n) = Some (fst (ensure_conv_scratch m n))"
| "serve m (Req_qlpnormalization n) = Some (fst (ensure_qlpnormalization_scratch m n))"
| "serve m (Req_qsigmoid n) = Some (fst (ensure_qsigmoid_scratch m n))"
| "serve m (Req_matmul_dp4a n) = Some (fst (ensure_matmul_dp4a_scratch m n))"
| "serve m (Req_la n) = Some (fst (ensure_la_scratch m n))"

fun serve_all :: "machine \<Rightarrow> request list \<Rightarrow> machine option" where
  "serve_all m [] = Some m"
| "serve_all m (r # rs) = (case serve m r of None \<Rightarrow> None | Some m1 \<Rightarrow> serve_all m1 rs)"

lemmas ensure_defs =
  ensure_qmoe_scratch_def ensure_qmoe_amd_scratch_def ensure_conv_scratch_def
  ensure_qlpnormalization_scratch_def ensure_qsigmoid_scratch_def ensure_matmul_dp4a_scratch_def
  ensure_la_scratch_def

section \<open>One request\<close>

lemma get_pool_base_owned:
  assumes ok: "buffers_ok m" and n: "n < size_limit" and g: "get_pool_base m d n = (m', p)"
  shows "buffers_ok m'" and "foreign m' = foreign m"
    and "0 \<le> d \<Longrightarrow> p \<noteq> 0 \<Longrightarrow> fst (buf_of (st m') (Pool (nat d))) = p \<and> max 1 n \<le> snd (buf_of (st m') (Pool (nat d)))"
    and "b \<noteq> Pool (nat d) \<Longrightarrow> buf_of (st m') b = buf_of (st m) b"
    and "p = 0 \<Longrightarrow> buf_of (st m') (Pool (nat d)) \<in> {buf_of (st m) (Pool (nat d)), (0, 0)}"
proof -
  have nonnull: "mc_state m \<noteq> None"
    using ok by (simp add: buffers_ok_def allocator_inv_def)
  obtain m1 r where e: "ensure_pool_domains m (d + 1) = (m1, r)"
    by fastforce
  note E = ensure_pool_domains_owned [OF nonnull e]
  have ok1: "buffers_ok m1" and f1: "foreign m1 = foreign m"
    using ok E by (simp_all add: buffers_ok_def foreign_def)
  define n1 where "n1 = (if n = 0 then 1 else n)"
  have n1: "0 < n1" "n1 < size_limit" "max 1 n = n1"
    using n by (simp_all add: n1_def)
  have "(m', p) = (if d < 0 then (m, 0) else if \<not> r then (m1, 0)
      else if n1 > snd (rs_pools (st m1) ! nat d) then grow_pool m1 (nat d) n1
      else (m1, fst (rs_pools (st m1) ! nat d)))"
    using nonnull unfolding g [symmetric] get_pool_base_def e n1_def by (cases r) (auto simp: Let_def)
  then consider "d < 0" "m' = m" "p = 0" | "0 \<le> d" "\<not> r" "m' = m1" "p = 0"
    | "0 \<le> d" "r" "n1 \<le> snd (rs_pools (st m1) ! nat d)" "m' = m1" "p = fst (rs_pools (st m1) ! nat d)"
    | "0 \<le> d" "r" "grow_pool m1 (nat d) n1 = (m', p)"
    by (cases "d < 0"; cases r; cases "n1 > snd (rs_pools (st m1) ! nat d)") auto
  then have "buffers_ok m' \<and> foreign m' = foreign m \<and>
    (0 \<le> d \<longrightarrow> p \<noteq> 0 \<longrightarrow> fst (buf_of (st m') (Pool (nat d))) = p \<and> max 1 n \<le> snd (buf_of (st m') (Pool (nat d)))) \<and>
    (\<forall>b. b \<noteq> Pool (nat d) \<longrightarrow> buf_of (st m') b = buf_of (st m) b) \<and>
    (p = 0 \<longrightarrow> buf_of (st m') (Pool (nat d)) \<in> {buf_of (st m) (Pool (nat d)), (0, 0)})"
  proof cases
    case 1
    then show ?thesis using ok by simp
  next
    case 2
    then show ?thesis using ok1 f1 E(4) by simp
  next
    case 3
    have len: "nat d < length (rs_pools (st m1))"
      using E(5) 3(1,2) by linarith
    then have "buf_of (st m1) (Pool (nat d)) = rs_pools (st m1) ! nat d"
      by simp
    then show ?thesis using 3 ok1 f1 E(4) n1(3) by simp
  next
    case 4
    have len: "nat d < length (rs_pools (st m1))"
      using E(5) 4(1,2) by linarith
    note G = grow_pool_owned [OF ok1 len n1(1,2) 4(3)]
    show ?thesis
      using G(1,2) f1 n1(3) unfolding G(3) E(4) by simp
  qed
  then show "buffers_ok m'" and "foreign m' = foreign m"
    and "0 \<le> d \<Longrightarrow> p \<noteq> 0 \<Longrightarrow> fst (buf_of (st m') (Pool (nat d))) = p \<and> max 1 n \<le> snd (buf_of (st m') (Pool (nat d)))"
    and "b \<noteq> Pool (nat d) \<Longrightarrow> buf_of (st m') b = buf_of (st m) b"
    and "p = 0 \<Longrightarrow> buf_of (st m') (Pool (nat d)) \<in> {buf_of (st m) (Pool (nat d)), (0, 0)}"
    by blast+
qed

lemma ensure_scratch_owned:
  assumes ok: "buffers_ok m" and n: "n < size_limit" and e: "ensure_scratch k m n = (m', rc)"
  shows "buffers_ok m'" and "foreign m' = foreign m"
    and "rc = 0 \<Longrightarrow> n \<le> sc_size (rs_scratch (st m') k)"
    and "b \<noteq> Slot k \<Longrightarrow> buf_of (st m') b = buf_of (st m) b"
    and "rc \<noteq> 0 \<Longrightarrow> rc = -1 \<and> rs_scratch (st m') k = no_scratch"
proof -
  have nonnull: "mc_state m \<noteq> None"
    using ok by (simp add: buffers_ok_def allocator_inv_def)
  have size: "sc_size (rs_scratch s k) = snd (buf_of s (Slot k))" for s
    by simp
  consider "m' = m" "rc = 0" "n \<le> sc_size (rs_scratch (st m) k)"
    | r where "grow_scratch k m n = (m', r)" "rc = (if r then 0 else -1)" "0 < n"
    using e nonnull by (auto simp: ensure_scratch_def split: if_splits prod.splits)
  then have "buffers_ok m' \<and> foreign m' = foreign m \<and> (rc = 0 \<longrightarrow> n \<le> sc_size (rs_scratch (st m') k)) \<and>
    (\<forall>b. b \<noteq> Slot k \<longrightarrow> buf_of (st m') b = buf_of (st m) b) \<and>
    (rc \<noteq> 0 \<longrightarrow> rc = -1 \<and> buf_of (st m') (Slot k) = (0, 0))"
  proof cases
    case 1
    then show ?thesis using ok by simp
  next
    case 2
    note G = grow_scratch_owned [OF ok 2(3) n 2(1)]
    show ?thesis
    proof (cases r)
      case True
      then obtain p where B: "buf_of (st m') = (buf_of (st m))(Slot k := (p, grown_size (sc_size (rs_scratch (st m) k)) n))"
        using G(4) by blast
      show ?thesis
        using G(1,2) 2(2) True unfolding size B by (simp add: grown_size_ge)
    qed (use G(1-3) 2(2) in simp)
  qed
  then show "buffers_ok m'" and "foreign m' = foreign m"
    and "rc = 0 \<Longrightarrow> n \<le> sc_size (rs_scratch (st m') k)"
    and "b \<noteq> Slot k \<Longrightarrow> buf_of (st m') b = buf_of (st m) b"
    and "rc \<noteq> 0 \<Longrightarrow> rc = -1 \<and> rs_scratch (st m') k = no_scratch"
    by (auto simp: no_scratch_def)
qed

text \<open>Where it does not abort, the workspace is a scratch buffer like the others.\<close>

lemma ensure_workspace_scratch:
  "ensure_workspace m n =
     (case ensure_scratch Workspace m n of (m', rc) \<Rightarrow> if rc = -1 \<and> mc_state m \<noteq> None then None else Some (m', rc))"
  by (auto simp: ensure_workspace_def ensure_scratch_def split: prod.splits bool.splits)

lemma serve_owned:
  assumes "buffers_ok m" and "request_size r < size_limit" and "serve m r = Some m'"
  shows "buffers_ok m'" and "foreign m' = foreign m"
proof -
  have S: "buffers_ok m1 \<and> foreign m1 = foreign m"
    if "ensure_scratch k m (request_size r) = (m1, rc)" for k m1 rc
    using ensure_scratch_owned(1,2) [OF assms(1,2) that] by blast
  have P: "buffers_ok m1 \<and> foreign m1 = foreign m"
    if "get_pool_base m d (request_size r) = (m1, p)" for d m1 p
    using get_pool_base_owned(1,2) [OF assms(1,2) that] by blast
  have "(\<exists>d p. get_pool_base m d (request_size r) = (m', p)) \<or>
      (\<exists>k rc. ensure_scratch k m (request_size r) = (m', rc))"
    using assms(3)
    by (cases r; simp add: ensure_defs ensure_workspace_scratch split: prod.splits if_splits; metis prod.collapse)
  then show "buffers_ok m'" and "foreign m' = foreign m"
    using S P by blast+
qed

lemma serve_all_owned:
  assumes "buffers_ok m" and "\<forall>r \<in> set rs. request_size r < size_limit" and "serve_all m rs = Some m'"
  shows "buffers_ok m'" and "foreign m' = foreign m"
  using assms
proof (induction rs arbitrary: m)
  case (Cons r rs)
  {
    case 1
    then show ?case using Cons.IH serve_owned [of m r] by (auto split: option.splits)
  next
    case 2
    then show ?case using Cons.IH serve_owned [of m r] by (auto split: option.splits)
  }
qed simp_all

end
