(* ===== verification/Buffers_Trace.thy ===== *)
theory Buffers_Trace
  imports Buffers_Properties
begin

text \<open>
  The order of the device calls a request makes: a buffer that kernels in flight may still
  read is freed only after the session's stream has been synchronized.
\<close>

section \<open>Frees behind a synchronization\<close>

text \<open>Over the events of a request in the order they happen.\<close>

fun frees_synced :: "bool \<Rightarrow> hip_event list \<Rightarrow> bool" where
  "frees_synced synced [] = True"
| "frees_synced synced (Ev_stream_sync # es) = frees_synced True es"
| "frees_synced synced (Ev_free p # es) = (synced \<and> frees_synced synced es)"
| "frees_synced synced (Ev_host_free p # es) = (synced \<and> frees_synced synced es)"
| "frees_synced synced (e # es) = frees_synced synced es"

lemma frees_synced_mono: "frees_synced False es \<Longrightarrow> frees_synced b es"
  by (induction "False" es rule: frees_synced.induct) auto

lemma frees_synced_append:
  "frees_synced b xs \<Longrightarrow> frees_synced False ys \<Longrightarrow> frees_synced b (xs @ ys)"
  by (induction b xs rule: frees_synced.induct) (auto intro: frees_synced_mono)

text \<open>The events between two machines, and that the session's stream is still the same.\<close>

definition behaves :: "bool \<Rightarrow> machine \<Rightarrow> machine \<Rightarrow> bool" where
  "behaves b m m' \<longleftrightarrow> map_option rs_stream (mc_state m') = map_option rs_stream (mc_state m) \<and>
     (\<exists>es. g_trace (mc_gpu m') = rev es @ g_trace (mc_gpu m) \<and> frees_synced b es)"

lemma behaves_refl [simp]: "behaves b m m"
  by (auto simp: behaves_def intro: exI [of _ "[]"])

lemma behaves_trans [trans]: "behaves b m1 m2 \<Longrightarrow> behaves False m2 m3 \<Longrightarrow> behaves b m1 m3"
  unfolding behaves_def using frees_synced_append by (metis append.assoc rev_append)

lemma behaves_mono: "behaves False m m' \<Longrightarrow> behaves b m m'"
  unfolding behaves_def using frees_synced_mono by blast

lemma behaves_emit:
  assumes "\<And>g. g_trace (f g) = e # g_trace g" and "frees_synced b [e]"
  shows "behaves b m (upd_gpu f m)"
  using assms unfolding behaves_def by (intro conjI exI [of _ "[e]"]) simp_all

lemma behaves_upd_st [simp]:
  "(\<And>s. rs_stream (f s) = rs_stream s) \<Longrightarrow> behaves b m (upd_st f m)"
  unfolding behaves_def by (intro conjI exI [of _ "[]"]) (simp_all add: option.map_comp comp_def)

lemma behaves_set [simp]:
  "behaves b m (set_arena a m)" "behaves b m (set_pool d r m)" "behaves b m (set_scratch k sc m)"
  "behaves b m (set_host h sc m)"
  by (simp_all add: set_arena_def set_pool_def set_scratch_def set_host_def)

lemma hip_malloc_behaves: "behaves b m (fst (hip_malloc m n))"
  by (auto simp: hip_malloc_def split: option.split intro: behaves_emit)

lemma hip_host_malloc_behaves: "behaves b m (fst (hip_host_malloc m n))"
  by (auto simp: hip_host_malloc_def split: option.split intro: behaves_emit)

lemma hip_free_behaves: "behaves True m (fst (hip_free m p))"
  by (auto simp: hip_free_def intro: behaves_emit)

lemma hip_host_free_behaves: "behaves True m (fst (hip_host_free m p))"
  by (auto simp: hip_host_free_def intro: behaves_emit)

lemma device_alloc_behaves: "behaves False m (fst (device_alloc m n))"
proof (cases "session_arena m")
  case None
  then show ?thesis
    by (simp add: device_alloc_def hip_malloc_behaves)
next
  case (Some a)
  note T = behaves_trans [OF behaves_set(1) hip_malloc_behaves]
  have "behaves False m (set_arena c (fst (hip_malloc (set_arena b m) n)))" for b c
    using T behaves_set(1) by (rule behaves_trans)
  then show ?thesis
    using Some T
    by (auto simp: device_alloc_def Let_def split: prod.splits option.splits) (metis fst_conv)+
qed

lemma device_free_behaves: "behaves True m (fst (device_free m p))"
proof (cases "session_arena m")
  case None
  then show ?thesis
    by (simp add: device_free_def hip_free_behaves)
next
  case (Some a)
  have "behaves True m (fst (hip_free (set_arena b m) p))" for b
    using hip_free_behaves [of "set_arena b m" p] by (simp add: behaves_def option.map_comp comp_def)
  moreover have "behaves True m (set_arena b (upd_gpu (emit Ev_device_sync) m))" for b
    using behaves_emit [of "emit Ev_device_sync" Ev_device_sync True m] behaves_set(1)
    by (rule behaves_trans) simp_all
  ultimately show ?thesis
    using Some by (simp add: device_free_def Let_def hip_device_sync_def)
qed

text \<open>A free behind \<open>sync_session\<close> is fine where there is a stream to synchronize.\<close>

lemma sync_then:
  assumes "rs_stream (st m) \<noteq> 0" and "behaves True (sync_session m) m'"
  shows "behaves b m m'"
proof -
  have S: "g_trace (mc_gpu (sync_session m)) = Ev_stream_sync # g_trace (mc_gpu m)"
    "mc_state (sync_session m) = mc_state m"
    using assms(1) by (simp_all add: sync_session_def hip_stream_sync_def)
  obtain es where "g_trace (mc_gpu m') = rev es @ g_trace (mc_gpu (sync_session m))" "frees_synced True es"
    using assms(2) by (auto simp: behaves_def)
  then have "g_trace (mc_gpu m') = rev (Ev_stream_sync # es) @ g_trace (mc_gpu m) \<and>
      frees_synced b (Ev_stream_sync # es)"
    using S(1) by simp
  then show ?thesis
    using assms(2) S(2) unfolding behaves_def by metis
qed

lemma dropped_behaves:
  "rs_stream (st m) \<noteq> 0 \<Longrightarrow> behaves False m (dropped p m)"
  unfolding dropped_def using sync_then [OF _ device_free_behaves] by simp

section \<open>Requests\<close>

lemma behaves_stream:
  assumes "behaves b m m'" and "mc_state m \<noteq> None"
  shows "mc_state m' \<noteq> None" and "rs_stream (st m') = rs_stream (st m)"
  using assms by (auto simp: behaves_def map_option_eq_Some)

lemma heap_call_behaves: "behaves b m (fst (heap_call m n))"
  by (auto simp: heap_call_def intro: behaves_emit)

lemma ensure_pool_domains_behaves: "behaves False m (fst (ensure_pool_domains m n))"
proof -
  obtain m1 b where 1: "heap_call m (8 * nat n) = (m1, b)"
    by fastforce
  obtain m2 c where 2: "heap_call m1 (8 * nat n) = (m2, c)"
    by fastforce
  have B1: "behaves False m m1"
    using heap_call_behaves [of False m "8 * nat n"] 1 by simp
  have "behaves False m1 m2"
    using heap_call_behaves [of False m1 "8 * nat n"] 2 by simp
  with B1 have B2: "behaves False m m2"
    by (rule behaves_trans)
  have "behaves False m (upd_st (\<lambda>s. s\<lparr>rs_pools := f s\<rparr>) m2)" for f
    using B2 behaves_upd_st by (rule behaves_trans) simp
  then show ?thesis
    using B1 B2 1 2 by (cases b; cases c) (simp_all add: ensure_pool_domains_def)
qed

lemma alloc_then_set:
  assumes "behaves False m m1" and "device_alloc m1 n = (m2, r)" and "behaves False m2 m'"
  shows "behaves False m m'"
proof -
  have "behaves False m m2"
    using behaves_trans [OF assms(1) device_alloc_behaves, of n] assms(2) by simp
  then show ?thesis
    using assms(3) by (rule behaves_trans)
qed

lemma grow_pool_behaves:
  assumes "rs_stream (st m) \<noteq> 0"
  shows "behaves False m (fst (grow_pool m d n))"
  unfolding grow_pool_dropped
  by (auto split: prod.split option.split intro: alloc_then_set [OF dropped_behaves [OF assms]])

lemma grow_scratch_behaves:
  assumes "rs_stream (st m) \<noteq> 0"
  shows "behaves False m (fst (grow_scratch k m n))"
proof -
  let ?p = "sc_ptr (rs_scratch (st m) k)"
  define m1 where "m1 = (if ?p \<noteq> 0 then set_scratch k no_scratch (dropped ?p m) else m)"
  have "behaves False m m1"
    using behaves_trans [OF dropped_behaves [OF assms] behaves_set(3)] by (simp add: m1_def)
  moreover have "grow_scratch k m n =
      (case device_alloc m1 (grown_size (sc_size (rs_scratch (st m) k)) n) of
         (m2, None) \<Rightarrow> (m2, False)
       | (m2, Some p) \<Rightarrow> (set_scratch k \<lparr>sc_ptr = p, sc_size = grown_size (sc_size (rs_scratch (st m) k)) n\<rparr> m2, True))"
    by (simp add: grow_scratch_def m1_def dropped_def Let_def)
  ultimately show ?thesis
    by (auto split: prod.split option.split intro: alloc_then_set)
qed

lemma serve_behaves:
  assumes "mc_state m \<noteq> None" and s: "rs_stream (st m) \<noteq> 0" and "serve m r = Some m'"
  shows "behaves False m m'"
proof -
  have S: "behaves False m (fst (ensure_scratch k m n))" for k n
    using grow_scratch_behaves [OF s, of k n] by (auto simp: ensure_scratch_def split: prod.splits)
  have P: "behaves False m (fst (get_pool_base m d n))" for d n
  proof (cases "ensure_pool_domains m (d + 1)")
    case (Pair m1 ok)
    have B: "behaves False m m1"
      using ensure_pool_domains_behaves [of m "d + 1"] Pair by simp
    have "rs_stream (st m1) \<noteq> 0"
      using behaves_stream [OF B assms(1)] s by simp
    from behaves_trans [OF B grow_pool_behaves [OF this]] B show ?thesis
      using Pair by (cases ok) (simp_all add: get_pool_base_def Let_def)
  qed
  show ?thesis
    using assms(3) S P
    by (cases r; simp add: ensure_defs ensure_workspace_scratch split: prod.splits if_splits; metis fst_conv)
qed

end
