(* ===== verification/Buffers_Host.thy ===== *)
theory Buffers_Host
  imports Buffers_Trace
begin

text \<open>
  The pinned host buffers, clients of the pinned allocator in the way the device buffers are
  clients of the session's: what one request and a history of requests keep.
\<close>

definition host_of :: "runtime_state \<Rightarrow> host_slot \<Rightarrow> block" where
  "host_of s k = (sc_ptr (rs_host s k), sc_size (rs_host s k))"

definition pinned_ok :: "machine \<Rightarrow> bool" where
  "pinned_ok m \<longleftrightarrow> mc_state m \<noteq> None \<and> pinned_inv m \<and> owned_ok (host_of (st m)) (pinned_live m)"

definition pinned_foreign :: "machine \<Rightarrow> block set" where
  "pinned_foreign m = unowned (host_of (st m)) (pinned_live m)"

lemma pinned_same:
  assumes "mc_api m' = mc_api m" "g_pin (mc_gpu m') = g_pin (mc_gpu m)"
  shows "pinned_inv m' = pinned_inv m" and "pinned_live m' = pinned_live m"
  using assms by (simp_all add: pinned_inv_def pinned_live_def)

lemma pinned_sync [simp]:
  "pinned_inv (sync_session m) = pinned_inv m" "pinned_live (sync_session m) = pinned_live m"
  "mc_state (sync_session m) = mc_state m"
  by (simp_all add: sync_session_def hip_stream_sync_def pinned_inv_def pinned_live_def)

lemma hip_host_state [simp]:
  "mc_state (fst (hip_host_malloc m n)) = mc_state m" "mc_state (fst (hip_host_free m p)) = mc_state m"
  by (auto simp: hip_host_malloc_def hip_host_free_def split: option.split)

lemma pinned_set_host [simp]:
  "pinned_inv (set_host k sc m) = pinned_inv m" "pinned_live (set_host k sc m) = pinned_live m"
  by (rule pinned_same; simp add: machine_simps)+

lemma host_of_set_host:
  assumes "mc_state m \<noteq> None"
  shows "host_of (st (set_host k \<lparr>sc_ptr = p, sc_size = n\<rparr> m)) = (host_of (st m))(k := (p, n))"
    and "mc_state (set_host k sc m) \<noteq> None"
  using assms by (auto simp: set_host_def host_of_def)

section \<open>One grow step\<close>

definition unpinned :: "bool \<Rightarrow> nat \<Rightarrow> machine \<Rightarrow> machine" where
  "unpinned synced p m = (if p \<noteq> 0 then fst (hip_host_free (if synced then sync_session m else m) p) else m)"

lemma unpinned_state [simp]: "mc_state (unpinned s p m) = mc_state m"
  by (simp add: unpinned_def)

lemma unpinned_owned:
  assumes "pinned_ok m" and "fst (host_of (st m) k) = p"
  shows "pinned_inv (unpinned s p m)" and "owned_ok ((host_of (st m))(k := (0, 0))) (pinned_live (unpinned s p m))"
    and "unowned ((host_of (st m))(k := (0, 0))) (pinned_live (unpinned s p m)) = pinned_foreign m"
proof -
  let ?m = "if s then sync_session m else m"
  have ok: "pinned_inv ?m" "owned_ok (host_of (st m)) (pinned_live ?m)" "pinned_live ?m = pinned_live m"
    using assms(1) by (simp_all add: pinned_ok_def)
  have same: "(host_of (st m))(k := (0, 0)) = host_of (st m)" if "p = 0"
    using owned_okD(1) [OF ok(2), of k] assms(2) that by (simp add: backed_def fun_upd_idem_iff prod_eq_iff)
  show "pinned_inv (unpinned s p m)"
    using pinned.owned_free(1) [OF ok(1,2) assms(2)] assms(1) by (simp add: unpinned_def pinned_ok_def)
  show "owned_ok ((host_of (st m))(k := (0, 0))) (pinned_live (unpinned s p m))"
    using pinned.owned_free(2) [OF ok(1,2) assms(2)] ok(2,3) same by (simp add: unpinned_def)
  show "unowned ((host_of (st m))(k := (0, 0))) (pinned_live (unpinned s p m)) = pinned_foreign m"
    using pinned.owned_free(3) [OF ok(1,2) assms(2)] ok(3) same by (simp add: unpinned_def pinned_foreign_def)
qed

text \<open>
  The step every host buffer takes, from a machine \<open>m1\<close> in which the old range is gone to a
  machine \<open>m'\<close> in which the slot holds the new one or nothing.
\<close>

lemma repinned:
  assumes ok: "pinned_ok m" and n: "0 < n" "n < size_limit"
    and m1: "pinned_inv m1 = pinned_inv (unpinned s (fst (host_of (st m) k)) m)"
      "pinned_live m1 = pinned_live (unpinned s (fst (host_of (st m) k)) m)" "mc_state m1 \<noteq> None"
      "(host_of (st m1))(k := (0, 0)) = (host_of (st m))(k := (0, 0))"
    and a: "hip_host_malloc m1 n = (m2, r)"
    and m': "m' = set_host k \<lparr>sc_ptr = (case r of None \<Rightarrow> 0 | Some p \<Rightarrow> p), sc_size = (case r of None \<Rightarrow> 0 | Some p \<Rightarrow> n)\<rparr> m2"
  shows "pinned_ok m'" and "pinned_foreign m' = pinned_foreign m"
    and "host_of (st m') = (host_of (st m))(k := case r of None \<Rightarrow> (0, 0) | Some p \<Rightarrow> (p, n))"
    and "r = Some p \<Longrightarrow> p \<noteq> 0"
proof -
  let ?B = "host_of (st m)"
  note D = unpinned_owned [OF ok refl, where k = k and s = s, folded m1(1,2)]
  have s2: "mc_state m2 = mc_state m1"
    using hip_host_state(1) [of m1 n] a by simp
  have upd: "(host_of (st m1))(k := x) = ?B(k := x)" for x
    using m1(4) by (metis fun_upd_upd)
  show B': "host_of (st m') = ?B(k := case r of None \<Rightarrow> (0, 0) | Some p \<Rightarrow> (p, n))"
    using host_of_set_host(1) [of m2 k] s2 m1(3) upd by (simp add: m' split: option.split)
  have inv: "pinned_inv m2"
    using pinned.inv_alloc [OF D(1) n] a by simp
  have own: "owned_ok (?B(k := case r of None \<Rightarrow> (0, 0) | Some p \<Rightarrow> (p, n))) (pinned_live m2) \<and>
      unowned (?B(k := case r of None \<Rightarrow> (0, 0) | Some p \<Rightarrow> (p, n))) (pinned_live m2) = pinned_foreign m \<and>
      (\<forall>p. r = Some p \<longrightarrow> p \<noteq> 0)"
  proof (cases r)
    case None
    then show ?thesis
      using pinned.owned_alloc_failed [OF D(1) n(2,1), of m2] a D by simp
  next
    case (Some p)
    then show ?thesis
      using pinned.owned_alloc [OF D(1,2), of k n m2 p] n a D(3) by simp
  qed
  have "mc_state m' \<noteq> None"
    using s2 m1(3) host_of_set_host(2) [of m2] by (simp add: m')
  then show "pinned_ok m'" and "pinned_foreign m' = pinned_foreign m" and "r = Some p \<Longrightarrow> p \<noteq> 0"
    using inv own unfolding pinned_ok_def pinned_foreign_def B' by (simp_all add: m')
qed

section \<open>Requests\<close>

datatype host_request =
    Req_host_base nat
  | Req_qmoe_host nat
  | Req_qmoe_amd_host nat
  | Req_staging nat

fun host_request_size :: "host_request \<Rightarrow> nat" where
  "host_request_size (Req_host_base n) = n"
| "host_request_size (Req_qmoe_host n) = n"
| "host_request_size (Req_qmoe_amd_host n) = n"
| "host_request_size (Req_staging n) = n"

fun host_request_slot :: "host_request \<Rightarrow> host_slot" where
  "host_request_slot (Req_host_base n) = Host_scratch"
| "host_request_slot (Req_qmoe_host n) = Qmoe_host_scratch"
| "host_request_slot (Req_qmoe_amd_host n) = Qmoe_amd_host_scratch"
| "host_request_slot (Req_staging n) = Disk_gather_staging"

text \<open>The machine after a request, and whether the request succeeded.\<close>

fun serve_host :: "machine \<Rightarrow> host_request \<Rightarrow> machine \<times> bool" where
  "serve_host m (Req_host_base n) =
     (let (m', p) = get_host_scratch_base m n in (m', n = 0 \<or> p \<noteq> 0))"
| "serve_host m (Req_qmoe_host n) = (let (m', rc) = ensure_qmoe_host_scratch m n in (m', rc = 0))"
| "serve_host m (Req_qmoe_amd_host n) = (let (m', rc) = ensure_qmoe_amd_host_scratch m n in (m', rc = 0))"
| "serve_host m (Req_staging n) = (let (m', rc) = ensure_disk_gather_staging m n in (m', rc = 0))"

text \<open>What every one of them promises for its slot.\<close>

definition host_served :: "host_slot \<Rightarrow> nat \<Rightarrow> machine \<Rightarrow> machine \<Rightarrow> bool \<Rightarrow> bool" where
  "host_served k n m m' served \<longleftrightarrow> pinned_ok m' \<and> pinned_foreign m' = pinned_foreign m \<and>
     (\<forall>j. j \<noteq> k \<longrightarrow> host_of (st m') j = host_of (st m) j) \<and>
     (if served then n \<le> snd (host_of (st m') k) \<and> (0 < n \<longrightarrow> fst (host_of (st m') k) \<noteq> 0)
      else host_of (st m') k = (0, 0))"

lemma host_served_same:
  assumes "pinned_ok m" and "n \<le> sc_size (rs_host (st m) k)"
  shows "host_served k n m m True"
proof -
  have "owned_ok (host_of (st m)) (pinned_live m)"
    using assms(1) by (simp add: pinned_ok_def)
  from owned_okD(1) [OF this, of k] have "0 < n \<Longrightarrow> sc_ptr (rs_host (st m) k) \<noteq> 0"
    using assms(2) by (simp add: backed_def host_of_def split: if_splits)
  then show ?thesis
    using assms by (simp add: host_served_def host_of_def)
qed

lemma host_served_grown:
  assumes ok: "pinned_ok m" and n: "0 < n" "n \<le> n'" "n' < size_limit"
    and m1: "pinned_inv m1 = pinned_inv (unpinned s (sc_ptr (rs_host (st m) k)) m)"
      "pinned_live m1 = pinned_live (unpinned s (sc_ptr (rs_host (st m) k)) m)" "mc_state m1 \<noteq> None"
      "(host_of (st m1))(k := (0, 0)) = (host_of (st m))(k := (0, 0))"
    and a: "hip_host_malloc m1 n' = (m2, r)"
    and m': "m' = set_host k \<lparr>sc_ptr = (case r of None \<Rightarrow> 0 | Some p \<Rightarrow> p), sc_size = (case r of None \<Rightarrow> 0 | Some p \<Rightarrow> n')\<rparr> m2"
  shows "host_served k n m m' (r \<noteq> None)" and "r = Some p \<Longrightarrow> p \<noteq> 0"
proof -
  have p: "fst (host_of (st m) k) = sc_ptr (rs_host (st m) k)"
    by (simp add: host_of_def)
  have n': "0 < n'"
    using n by simp
  note R = repinned [OF ok n' n(3) m1 [folded p] a m']
  show "host_served k n m m' (r \<noteq> None)" and "r = Some p \<Longrightarrow> p \<noteq> 0"
    using R(1,2,4) n unfolding host_served_def R(3) by (simp_all split: option.split)
qed

lemma get_host_scratch_base_served:
  assumes ok: "pinned_ok m" and n: "n < size_limit" and g: "get_host_scratch_base m n = (m', p)"
  shows "host_served Host_scratch n m m' (n = 0 \<or> p \<noteq> 0)"
proof (cases "sc_size (rs_host (st m) Host_scratch) \<ge> n")
  case True
  have nonnull: "mc_state m \<noteq> None"
    using ok by (simp add: pinned_ok_def)
  then have g': "m' = m" "p = sc_ptr (rs_host (st m) Host_scratch)"
    using g True by (auto simp: get_host_scratch_base_def Let_def split: if_splits)
  note S = host_served_same [OF ok True]
  then have "n = 0 \<or> p \<noteq> 0"
    by (auto simp: host_served_def host_of_def g')
  then show ?thesis
    using S g' by simp
next
  case False
  let ?k = Host_scratch
  have nonnull: "mc_state m \<noteq> None"
    using ok by (simp add: pinned_ok_def)
  define m1 where "m1 = unpinned True (sc_ptr (rs_host (st m) ?k)) m"
  obtain m2 r where a: "hip_host_malloc m1 n = (m2, r)"
    by fastforce
  have "(m', p) = (case r of None \<Rightarrow> (set_host ?k no_scratch m2, 0) | Some p \<Rightarrow> (set_host ?k \<lparr>sc_ptr = p, sc_size = n\<rparr> m2, p))"
    using nonnull False a unfolding g [symmetric]
    by (cases r) (auto simp: get_host_scratch_base_def Let_def m1_def unpinned_def)
  then have g': "m' = set_host ?k \<lparr>sc_ptr = (case r of None \<Rightarrow> 0 | Some p \<Rightarrow> p), sc_size = (case r of None \<Rightarrow> 0 | Some p \<Rightarrow> n)\<rparr> m2"
      "p = (case r of None \<Rightarrow> 0 | Some p \<Rightarrow> p)"
    by (cases r; simp add: no_scratch_def)+
  have "0 < n" "n \<le> n"
    using False by simp_all
  note H = host_served_grown [OF ok this n, where s = True, OF _ _ _ _ a g'(1)]
  have "host_served ?k n m m' (r \<noteq> None)"
    by (rule H(1)) (use nonnull in \<open>simp_all add: m1_def\<close>)
  moreover have "q \<noteq> 0" if "r = Some q" for q
    by (rule H(2)) (use nonnull that in \<open>simp_all add: m1_def\<close>)
  then have "r \<noteq> None \<longleftrightarrow> p \<noteq> 0"
    using g'(2) by (cases r) auto
  ultimately show ?thesis
    using \<open>0 < n\<close> by simp
qed

lemma ensure_host_scratch_served:
  assumes ok: "pinned_ok m" and n: "n < size_limit" and e: "ensure_host_scratch k m n = (m', rc)"
  shows "host_served k n m m' (rc = 0)"
proof (cases "n \<le> sc_size (rs_host (st m) k)")
  case True
  have "mc_state m \<noteq> None"
    using ok by (simp add: pinned_ok_def)
  then have "m' = m" "rc = 0"
    using e True by (auto simp: ensure_host_scratch_def Let_def split: if_splits)
  then show ?thesis
    using host_served_same [OF ok True] by simp
next
  case False
  let ?p = "sc_ptr (rs_host (st m) k)" and ?n = "grown_size (sc_size (rs_host (st m) k)) n"
  have nonnull: "mc_state m \<noteq> None"
    using ok by (simp add: pinned_ok_def)
  define m1 where "m1 = (if ?p \<noteq> 0 then set_host k no_scratch (unpinned True ?p m) else m)"
  obtain m2 r where a: "hip_host_malloc m1 ?n = (m2, r)"
    by fastforce
  have e1: "(m', rc) = (case r of None \<Rightarrow> (m2, -1) | Some p \<Rightarrow> (set_host k \<lparr>sc_ptr = p, sc_size = ?n\<rparr> m2, 0))"
    using nonnull False a unfolding e [symmetric]
    by (cases r) (auto simp: ensure_host_scratch_def Let_def m1_def unpinned_def)
  have "owned_ok (host_of (st m)) (pinned_live m)"
    using ok by (simp add: pinned_ok_def)
  from owned_okD(1) [OF this, of k] have z: "?p = 0 \<Longrightarrow> sc_size (rs_host (st m) k) = 0"
    by (simp add: backed_def host_of_def)
  have m1: "mc_state m1 \<noteq> None" "host_of (st m1) = (host_of (st m))(k := (0, 0))"
    using nonnull host_of_set_host(1) [of "unpinned True ?p m" k 0 0] host_of_set_host(2) [of "unpinned True ?p m" k no_scratch] z
    by (auto simp: m1_def no_scratch_def fun_upd_idem_iff host_of_def)
  have "mc_state m2 = mc_state m1"
    using hip_host_state(1) [of m1 ?n] a by simp
  then have empty: "set_host k \<lparr>sc_ptr = 0, sc_size = 0\<rparr> m2 = m2"
  proof -
    obtain a where a: "mc_state m2 = Some a" "mc_state m1 = Some a"
      using m1(1) \<open>mc_state m2 = mc_state m1\<close> by auto
    then have "rs_host a k = \<lparr>sc_ptr = 0, sc_size = 0\<rparr>"
      using fun_cong [OF m1(2), of k] by (cases "rs_host a k") (simp add: host_of_def)
    then have "a\<lparr>rs_host := (rs_host a)(k := \<lparr>sc_ptr = 0, sc_size = 0\<rparr>)\<rparr> = a"
      by (simp add: fun_upd_idem)
    then show ?thesis
      using a(1) by (simp add: set_host_def upd_st_def)
  qed
  have m': "m' = set_host k \<lparr>sc_ptr = (case r of None \<Rightarrow> 0 | Some p \<Rightarrow> p), sc_size = (case r of None \<Rightarrow> 0 | Some p \<Rightarrow> ?n)\<rparr> m2"
    and rc: "rc = 0 \<longleftrightarrow> r \<noteq> None"
    using e1 empty by (cases r; simp)+
  have "0 < n"
    using False by simp
  note H = host_served_grown [OF ok this grown_size_ge grown_size_limit [OF n], where s = True, OF _ _ _ _ a m']
  show ?thesis
    unfolding rc by (rule H(1)) (use m1 in \<open>simp_all add: m1_def unpinned_def\<close>)
qed

lemma ensure_disk_gather_staging_served:
  assumes ok: "pinned_ok m" and n: "n < size_limit" and e: "ensure_disk_gather_staging m n = (m', rc)"
  shows "host_served Disk_gather_staging n m m' (rc = 0)"
proof (cases "n \<le> sc_size (rs_host (st m) Disk_gather_staging)")
  case True
  then have "m' = m" "rc = 0"
    using e by (simp_all add: ensure_disk_gather_staging_def Let_def)
  then show ?thesis
    using host_served_same [OF ok True] by simp
next
  case False
  let ?k = Disk_gather_staging
  let ?p = "sc_ptr (rs_host (st m) ?k)"
  have nonnull: "mc_state m \<noteq> None"
    using ok by (simp add: pinned_ok_def)
  define m1 where "m1 = (if ?p \<noteq> 0 then set_host ?k no_scratch (unpinned False ?p m) else m)"
  obtain m2 r where a: "hip_host_malloc m1 n = (m2, r)"
    by fastforce
  have e1: "(m', rc) = (case r of
      None \<Rightarrow> (upd_st (\<lambda>s. s\<lparr>rs_host := (rs_host s)(?k := (rs_host s ?k)\<lparr>sc_ptr := 0\<rparr>)\<rparr>) m2, 1)
    | Some p \<Rightarrow> (set_host ?k \<lparr>sc_ptr = p, sc_size = n\<rparr> m2, 0))"
    using False a unfolding e [symmetric]
    by (cases r) (auto simp: ensure_disk_gather_staging_def Let_def m1_def unpinned_def)
  have "owned_ok (host_of (st m)) (pinned_live m)"
    using ok by (simp add: pinned_ok_def)
  from owned_okD(1) [OF this, of ?k] have z: "?p = 0 \<Longrightarrow> sc_size (rs_host (st m) ?k) = 0"
    by (simp add: backed_def host_of_def)
  have m1: "mc_state m1 \<noteq> None" "host_of (st m1) = (host_of (st m))(?k := (0, 0))"
    using nonnull host_of_set_host(1) [of "unpinned False ?p m" ?k 0 0]
      host_of_set_host(2) [of "unpinned False ?p m" ?k no_scratch] z
    by (auto simp: m1_def no_scratch_def fun_upd_idem_iff host_of_def)
  have s2: "mc_state m2 = mc_state m1"
    using hip_host_state(1) [of m1 n] a by simp
  have "rs_host (st m2) ?k = \<lparr>sc_ptr = 0, sc_size = 0\<rparr>"
    using fun_cong [OF m1(2), of ?k] by (cases "rs_host (st m2) ?k") (simp add: host_of_def s2)
  then have failed: "upd_st (\<lambda>s. s\<lparr>rs_host := (rs_host s)(?k := (rs_host s ?k)\<lparr>sc_ptr := 0\<rparr>)\<rparr>) m2 =
      set_host ?k \<lparr>sc_ptr = 0, sc_size = 0\<rparr> m2"
    using m1(1) s2 by (auto simp: set_host_def upd_st_def)
  have m': "m' = set_host ?k \<lparr>sc_ptr = (case r of None \<Rightarrow> 0 | Some p \<Rightarrow> p), sc_size = (case r of None \<Rightarrow> 0 | Some p \<Rightarrow> n)\<rparr> m2"
    and rc: "rc = 0 \<longleftrightarrow> r \<noteq> None"
    using e1 failed by (cases r; simp)+
  have "0 < n" "n \<le> n"
    using False by simp_all
  note H = host_served_grown [OF ok this n, where s = False, OF _ _ _ _ a m']
  show ?thesis
    unfolding rc by (rule H(1)) (use m1 in \<open>simp_all add: m1_def unpinned_def\<close>)
qed

lemma serve_host_served:
  assumes "pinned_ok m" and "host_request_size r < size_limit" and "serve_host m r = (m', served)"
  shows "host_served (host_request_slot r) (host_request_size r) m m' served"
proof (cases r)
  case (Req_host_base n)
  then show ?thesis
    using get_host_scratch_base_served [OF assms(1), of n m'] assms by (auto split: prod.splits)
next
  case (Req_qmoe_host n)
  then show ?thesis
    using ensure_host_scratch_served [OF assms(1), of n Qmoe_host_scratch m'] assms
    by (auto simp: ensure_qmoe_host_scratch_def split: prod.splits)
next
  case (Req_qmoe_amd_host n)
  then show ?thesis
    using ensure_host_scratch_served [OF assms(1), of n Qmoe_amd_host_scratch m'] assms
    by (auto simp: ensure_qmoe_amd_host_scratch_def split: prod.splits)
next
  case (Req_staging n)
  then show ?thesis
    using ensure_disk_gather_staging_served [OF assms(1), of n m'] assms by (auto split: prod.splits)
qed

fun serve_host_all :: "machine \<Rightarrow> host_request list \<Rightarrow> machine" where
  "serve_host_all m [] = m"
| "serve_host_all m (r # rs) = serve_host_all (fst (serve_host m r)) rs"

lemma serve_host_all_ok:
  assumes "pinned_ok m" and "\<forall>r \<in> set rs. host_request_size r < size_limit"
  shows "pinned_ok (serve_host_all m rs) \<and> pinned_foreign (serve_host_all m rs) = pinned_foreign m"
  using assms
proof (induction rs arbitrary: m)
  case (Cons r rs)
  have "host_served (host_request_slot r) (host_request_size r) m (fst (serve_host m r)) (snd (serve_host m r))"
    using Cons.prems by (intro serve_host_served) simp_all
  then show ?case
    using Cons by (simp add: host_served_def)
qed simp

end
