(* ===== verification/Runtime_Session.thy ===== *)
theory Runtime_Session
  imports Buffers_Host
begin

text \<open>
  A session from its creation to its end, from \<open>hipdnn_ep_runtime_state.cpp\<close>,
  \<open>op_state.cpp\<close>, \<open>output_allocator.cpp\<close>, \<open>hipdnn_ep_runtime_if.cpp\<close> and
  \<open>tls_stream.cpp\<close>: the handles, the error flag on the device, the slots of the operators'
  states, and the teardown.  \<open>mc_state\<close> is the caller's \<open>*out_state\<close>.
\<close>

section \<open>Handles\<close>

text \<open>A call that creates an object and adds its handle to a list of the device.\<close>

definition hip_create :: "string \<Rightarrow> (nat \<Rightarrow> gpu \<Rightarrow> gpu) \<Rightarrow> machine \<Rightarrow> machine \<times> nat option" where
  "hip_create name add m =
     (case api_create (mc_api m) (mc_gpu m) name of
        None \<Rightarrow> (upd_gpu (emit (Ev_call name)) m, None)
      | Some h \<Rightarrow> (upd_gpu (\<lambda>g. emit (Ev_call name) (add h g)) m, Some h))"

definition stream_create :: "machine \<Rightarrow> machine \<times> nat option" where
  "stream_create = hip_create ''hipStreamCreate'' (\<lambda>h g. g\<lparr>g_streams := h # g_streams g\<rparr>)"

definition blas_create :: "machine \<Rightarrow> machine \<times> nat option" where
  "blas_create = hip_create ''hipblasLtCreate'' (\<lambda>h g. g\<lparr>g_blas := h # g_blas g\<rparr>)"

definition stream_destroy :: "nat \<Rightarrow> machine \<Rightarrow> machine" where
  "stream_destroy h m =
     (if h = 0 then m
      else upd_gpu (\<lambda>g. emit (Ev_call ''hipStreamDestroy'') (g\<lparr>g_streams := remove1 h (g_streams g)\<rparr>)) m)"

definition blas_destroy :: "nat \<Rightarrow> machine \<Rightarrow> machine" where
  "blas_destroy h m =
     (if h = 0 then m
      else upd_gpu (\<lambda>g. emit (Ev_call ''hipblasLtDestroy'') (g\<lparr>g_blas := remove1 h (g_blas g)\<rparr>)) m)"

definition event_destroy :: "nat \<Rightarrow> machine \<Rightarrow> machine" where
  "event_destroy h m =
     (if h = 0 then m
      else upd_gpu (\<lambda>g. emit (Ev_call ''hipEventDestroy'') (g\<lparr>g_events := remove1 h (g_events g)\<rparr>)) m)"

text \<open>\<open>op_profile_create\<close> and \<open>op_profile_destroy\<close>, objects of \<open>op_profile.cpp\<close>.\<close>

definition profile_create :: "machine \<Rightarrow> machine" where
  "profile_create = upd_gpu (\<lambda>g. g\<lparr>g_profiles := g_profiles g + 1\<rparr>)"

definition profile_destroy :: "machine \<Rightarrow> machine" where
  "profile_destroy = upd_gpu (\<lambda>g. g\<lparr>g_profiles := g_profiles g - 1\<rparr>)"

section \<open>Creation\<close>

text \<open>The fields of a new state, all null but the profile.\<close>

definition initial_state :: "bool \<Rightarrow> runtime_state" where
  "initial_state perf =
     \<lparr>rs_stream = 0, rs_blas = 0, rs_blob = 0, rs_constants = [], rs_disk = None, rs_pools = [],
      rs_scan_pools = [], rs_scan_active = False, rs_offsets = None, rs_num_buffers = 0,
      rs_scratch = \<lambda>k. no_scratch, rs_host = \<lambda>k. no_scratch,
      rs_output_self = 0, rs_output_fn = 0, rs_op_profile = perf, rs_options = None,
      rs_error_flag = 0, rs_seqlens = \<lparr>ci_valid = False, ci_val = 0, ci_ptr = 0\<rparr>,
      rs_sai = \<lparr>ci_valid = False, ci_val = 0, ci_ptr = 0\<rparr>,
      rs_loop = \<lparr>lb_iter_buf = 0, lb_iter_capacity = 0, lb_iter_dev = 0, lb_cond_host = 0,
        lb_cond_dev = 0, lb_event = 0\<rparr>,
      rs_op_states = None, rs_num_op_states = 0, rs_zp_cache = 0, rs_gqa_policy = 0,
      rs_hipdnn_handle = 0, rs_graph_registry = 0, rs_arena = None\<rparr>"

text \<open>Integers in memory are little-endian.\<close>

fun le_bytes :: "nat \<Rightarrow> 'a::len word \<Rightarrow> 8 word list" where
  "le_bytes 0 c = []"
| "le_bytes (Suc n) c = ucast c # le_bytes n (drop_bit 8 c)"

fun le_word :: "8 word list \<Rightarrow> 'a::len word" where
  "le_word [] = 0"
| "le_word (b # bs) = push_bit 8 (le_word bs) + ucast b"

lemma le_word_bytes: "le_word (le_bytes n c) = take_bit (8 * n) c"
proof (induction n arbitrary: c)
  case (Suc n)
  have "push_bit 8 (drop_bit 8 (take_bit (8 + 8 * n) c)) + take_bit 8 (take_bit (8 + 8 * n) c) = take_bit (8 + 8 * n) c"
    by (rule bits_ident)
  moreover have "(ucast (ucast c :: 8 word) :: 'a word) = take_bit 8 c"
    by (rule bit_word_eqI) (auto simp: bit_simps)
  ultimately show ?case
    by (simp add: Suc.IH drop_bit_take_bit)
qed simp

lemma le_bytes_length [simp]: "length (le_bytes n c) = n"
  by (induction n arbitrary: c) simp_all

text \<open>Bytes of device memory, as a successful \<open>hipMemcpy\<close> or \<open>hipMemset\<close> leaves them.\<close>

definition write_mem :: "nat \<Rightarrow> 8 word list \<Rightarrow> gpu \<Rightarrow> gpu" where
  "write_mem a bs g =
     g\<lparr>g_mem := \<lambda>x. if a \<le> x \<and> x < a + length bs then bs ! (x - a) else g_mem g x\<rparr>"

definition read_mem :: "nat \<Rightarrow> nat \<Rightarrow> gpu \<Rightarrow> 8 word list" where
  "read_mem a n g = map (\<lambda>i. g_mem g (a + i)) [0 ..< n]"

text \<open>
  A transfer named by its HIP function: when the call succeeds the bytes arrive.  The
  stream runs its operations in order and every reader synchronizes it first, so the
  arrival is modelled at the call.
\<close>

definition hip_write :: "string \<Rightarrow> nat \<Rightarrow> 8 word list \<Rightarrow> machine \<Rightarrow> machine \<times> bool" where
  "hip_write name a bs m =
     (if api_call (mc_api m) (mc_gpu m) name
      then (upd_gpu (\<lambda>g. emit (Ev_call name) (write_mem a bs g)) m, True)
      else (upd_gpu (emit (Ev_call name)) m, False))"

definition initialize_state_handles :: "bool \<Rightarrow> bool \<Rightarrow> machine \<Rightarrow> machine \<times> int" where
  "initialize_state_handles perf vendor_blas m =
     (if \<not> api_heap (mc_api m) (mc_gpu m) 0 then (m, 1)
      else
        let m1 = (if perf then profile_create m else m);
            (m2, devices) = hip_create ''hipGetDeviceCount'' (\<lambda>h g. g) m1
        in if devices = None \<or> devices = Some 0 then (m2, 2)
           else
             let (m3, set_ok) = hip_call ''hipSetDevice'' m2
             in if \<not> set_ok then (m3, 3)
                else (case stream_create m3 of
                  (m4, None) \<Rightarrow> (m4, 6)
                | (m4, Some stream) \<Rightarrow>
                    (case (if vendor_blas then blas_create m4 else (m4, Some 0)) of
                       (m5, None) \<Rightarrow> (stream_destroy stream m5, 9)
                     | (m5, Some blas) \<Rightarrow>
                         (case hip_malloc m5 4 of
                            (m6, None) \<Rightarrow> (stream_destroy stream (blas_destroy blas m6), 10)
                          | (m6, Some flag) \<Rightarrow>
                              (case hip_write ''hipMemsetAsync'' flag (replicate 4 0) m6 of
                                 (m7, False) \<Rightarrow>
                                   (stream_destroy stream (blas_destroy blas (fst (hip_free m7 flag))), 11)
                               | (m7, True) \<Rightarrow>
                                   (m7\<lparr>mc_state := Some ((initial_state perf)
                                      \<lparr>rs_stream := stream, rs_blas := blas, rs_error_flag := flag\<rparr>)\<rparr>, 0))))))"

section \<open>Accessors\<close>

definition get_stream :: "machine \<Rightarrow> nat" where
  "get_stream m = (case mc_state m of None \<Rightarrow> 0 | Some s \<Rightarrow> rs_stream s)"

definition get_hipblas_handle :: "machine \<Rightarrow> nat" where
  "get_hipblas_handle m = (case mc_state m of None \<Rightarrow> 0 | Some s \<Rightarrow> rs_blas s)"

definition get_op_profile :: "machine \<Rightarrow> bool" where
  "get_op_profile m = (case mc_state m of None \<Rightarrow> False | Some s \<Rightarrow> rs_op_profile s)"

definition constant_get :: "machine \<Rightarrow> int \<Rightarrow> nat" where
  "constant_get m index =
     (case mc_state m of
        None \<Rightarrow> 0
      | Some s \<Rightarrow>
          if index < 0 \<or> nat index \<ge> length (rs_constants s) then 0 else rs_constants s ! nat index)"

definition get_current_stream :: "machine \<Rightarrow> nat" where
  "get_current_stream m = mc_current_stream m"

definition set_current_stream :: "nat \<Rightarrow> machine \<Rightarrow> machine" where
  "set_current_stream stream m = m\<lparr>mc_current_stream := stream\<rparr>"

definition begin_compute :: "machine \<Rightarrow> machine" where
  "begin_compute m =
     (case mc_state m of
        None \<Rightarrow> m
      | Some s \<Rightarrow>
          set_current_stream (rs_stream s)
            (upd_st (\<lambda>s. s\<lparr>rs_seqlens := (rs_seqlens s)\<lparr>ci_valid := False, ci_ptr := 0\<rparr>,
                          rs_sai := (rs_sai s)\<lparr>ci_valid := False, ci_ptr := 0\<rparr>\<rparr>) m))"

section \<open>The error flag\<close>

definition get_error_flag_device_ptr :: "machine \<Rightarrow> nat" where
  "get_error_flag_device_ptr m = (case mc_state m of None \<Rightarrow> 0 | Some s \<Rightarrow> rs_error_flag s)"

definition flag_valid :: "machine \<Rightarrow> bool" where
  "flag_valid m \<longleftrightarrow> mc_state m \<noteq> None \<and> rs_error_flag (st m) \<noteq> 0 \<and> rs_stream (st m) \<noteq> 0"

definition reset_error_flag :: "machine \<Rightarrow> machine \<times> 32 word" where
  "reset_error_flag m =
     (if \<not> flag_valid m then (m, -1)
      else let (m1, ok) = hip_write ''hipMemsetAsync'' (rs_error_flag (st m)) (replicate 4 0) m
           in (m1, if ok then 0 else -1))"

definition set_error_flag :: "machine \<Rightarrow> 32 word \<Rightarrow> machine \<times> 32 word" where
  "set_error_flag m code =
     (if code = 0 then (m, 0)
      else if \<not> flag_valid m then (m, -1)
      else case hip_write ''hipMemcpyAsync'' (rs_error_flag (st m)) (le_bytes 4 code) m of
        (m1, False) \<Rightarrow> (m1, -1)
      | (m1, True) \<Rightarrow> (let (m2, ok) = hip_stream_sync m1 in (m2, if ok then 0 else -1)))"

definition read_and_clear_error_flag :: "machine \<Rightarrow> machine \<times> 32 word" where
  "read_and_clear_error_flag m =
     (if \<not> flag_valid m then (m, -1)
      else
        let flag = rs_error_flag (st m); host_error = le_word (read_mem flag 4 (mc_gpu m))
        in case hip_call ''hipMemcpyAsync'' m of
             (m1, False) \<Rightarrow> (m1, -1)
           | (m1, True) \<Rightarrow>
               (case hip_stream_sync m1 of
                  (m2, False) \<Rightarrow> (m2, -1)
                | (m2, True) \<Rightarrow>
                    if host_error \<noteq> 0 then (m2, host_error)
                    else let (m3, ok) = hip_write ''hipMemsetAsync'' flag (replicate 4 0) m2
                         in (m3, if ok then 0 else -1)))"

section \<open>Operator states\<close>

text \<open>\<open>calloc\<close> of \<open>n\<close> null slots; the count is kept in an \<open>int\<close>.\<close>

definition op_states_alloc :: "machine \<Rightarrow> int \<Rightarrow> machine \<times> bool" where
  "op_states_alloc m n =
     (let m0 = upd_st (\<lambda>s. s\<lparr>rs_op_states := None, rs_num_op_states := 0\<rparr>) m
      in if n \<le> 0 then (m0, True)
         else case heap_call m0 (8 * nat n) of
           (m1, False) \<Rightarrow> (m1, False)
         | (m1, True) \<Rightarrow>
             (upd_st (\<lambda>s. s\<lparr>rs_op_states := Some (replicate (nat n) \<lparr>os_ptr = 0, os_deletor = 0\<rparr>),
                           rs_num_op_states := sint (word_of_int n :: 32 word)\<rparr>) m1, True))"

definition op_state_get :: "machine \<Rightarrow> int \<Rightarrow> nat" where
  "op_state_get m slot =
     (case mc_state m of
        None \<Rightarrow> 0
      | Some s \<Rightarrow>
          (case rs_op_states s of
             None \<Rightarrow> 0
           | Some slots \<Rightarrow>
               if slot < 0 \<or> rs_num_op_states s \<le> slot then 0 else os_ptr (slots ! nat slot)))"

text \<open>\<open>None\<close> is the failed assertion.\<close>

definition op_state_set :: "machine \<Rightarrow> int \<Rightarrow> op_state \<Rightarrow> machine option" where
  "op_state_set m slot value =
     (case mc_state m of
        None \<Rightarrow> None
      | Some s \<Rightarrow>
          (case rs_op_states s of
             None \<Rightarrow> None
           | Some slots \<Rightarrow>
               if 0 \<le> slot \<and> slot < rs_num_op_states s \<and> os_ptr value \<noteq> 0
               then Some (upd_st (\<lambda>s. s\<lparr>rs_op_states := Some (slots[nat slot := value])\<rparr>) m)
               else None))"

section \<open>Output allocation and branches\<close>

text \<open>The allocator the execution provider installs: its context and its callback.\<close>

definition set_output_allocator :: "machine \<Rightarrow> (nat \<times> nat) option \<Rightarrow> machine" where
  "set_output_allocator m allocator =
     (case allocator of
        None \<Rightarrow> upd_st (\<lambda>s. s\<lparr>rs_output_self := 0, rs_output_fn := 0\<rparr>) m
      | Some (self, fn) \<Rightarrow> upd_st (\<lambda>s. s\<lparr>rs_output_self := self, rs_output_fn := fn\<rparr>) m)"

text \<open>\<open>call fn self index shape rank size\<close> is what the callback at \<open>fn\<close> answers.\<close>

definition alloc_output ::
  "(nat \<Rightarrow> nat \<Rightarrow> int \<Rightarrow> int list \<Rightarrow> int \<Rightarrow> int \<Rightarrow> nat) \<Rightarrow> machine \<Rightarrow> int \<Rightarrow> int list \<Rightarrow> int \<Rightarrow> int \<Rightarrow> nat"
where
  "alloc_output call m out_idx shape rank elem_size =
     (case mc_state m of
        None \<Rightarrow> 0
      | Some s \<Rightarrow>
          if rs_output_fn s = 0 then 0
          else call (rs_output_fn s) (rs_output_self s) out_idx shape rank elem_size)"

text \<open>A branch function, null as \<open>None\<close>; it runs on the machine and the descriptors.\<close>

definition run_if ::
  "machine \<Rightarrow> bool \<Rightarrow> (machine \<Rightarrow> 'd \<Rightarrow> 'd \<Rightarrow> machine \<times> int) option \<Rightarrow>
   (machine \<Rightarrow> 'd \<Rightarrow> 'd \<Rightarrow> machine \<times> int) option \<Rightarrow> 'd \<Rightarrow> 'd \<Rightarrow> machine \<times> int"
where
  "run_if m cond then_fn else_fn output_descs capture_descs =
     (case (mc_state m, then_fn, else_fn) of
        (Some s, Some t, Some e) \<Rightarrow> (if cond then t else e) m output_descs capture_descs
      | _ \<Rightarrow> (m, -1))"

section \<open>Teardown\<close>

text \<open>
  The teardown is a sequence of releases of pointers the state holds, in the order of the
  code; each is skipped for a null pointer.  Operator states are destroyed by their own
  deletors, the caches by the operators that own them: calls of the trace.
\<close>

datatype release =
    Dev_free nat
  | Raw_free nat
  | Host_free nat
  | Event_destroy nat
  | Deletor op_state
  | Unmap disk_constant

fun run_release :: "machine \<Rightarrow> release \<Rightarrow> machine" where
  "run_release m (Dev_free p) = (if p \<noteq> 0 then fst (device_free m p) else m)"
| "run_release m (Raw_free p) = (if p \<noteq> 0 then fst (hip_free m p) else m)"
| "run_release m (Host_free p) = (if p \<noteq> 0 then fst (hip_host_free m p) else m)"
| "run_release m (Event_destroy h) = event_destroy h m"
| "run_release m (Deletor os) =
     (if os_ptr os \<noteq> 0 \<and> os_deletor os \<noteq> 0 then upd_gpu (emit (Ev_call ''deletor'')) m else m)"
| "run_release m (Unmap d) = (if dc_view d \<noteq> None then upd_gpu (emit (Ev_call ''munmap'')) m else m)"

definition scratch_releases :: "runtime_state \<Rightarrow> release list" where
  "scratch_releases s =
     (let dev = \<lambda>k. Dev_free (sc_ptr (rs_scratch s k)); host = \<lambda>k. Host_free (sc_ptr (rs_host s k))
      in [dev Workspace, dev Qmoe_scratch, host Qmoe_host_scratch, dev Qmoe_amd_scratch,
          host Qmoe_amd_host_scratch, dev Conv_scratch, dev Qlpnormalization_scratch,
          dev Qsigmoid_scratch, dev Matmul_dp4a_scratch, dev La_scratch, dev Gqa_fp32_adapter_scratch])"

definition op_state_releases :: "runtime_state \<Rightarrow> release list" where
  "op_state_releases s =
     (case rs_op_states s of
        None \<Rightarrow> []
      | Some slots \<Rightarrow> map Deletor (take (nat (rs_num_op_states s)) slots))"

definition loop_releases :: "runtime_state \<Rightarrow> release list" where
  "loop_releases s =
     (let l = rs_loop s
      in [Event_destroy (lb_event l), Host_free (lb_iter_buf l), Raw_free (lb_iter_dev l),
          Host_free (lb_cond_host l)])"

definition pool_releases :: "block list \<Rightarrow> release list" where
  "pool_releases pools = map (\<lambda>b. Dev_free (fst b)) pools"

definition arena_releases :: "runtime_state \<Rightarrow> release list" where
  "arena_releases s =
     scratch_releases s @ op_state_releases s @ loop_releases s @
     [Raw_free (rs_error_flag s), Host_free (sc_ptr (rs_host s Host_scratch))] @
     pool_releases (rs_pools s) @ pool_releases (rs_scan_pools s)"

definition constant_releases :: "runtime_state \<Rightarrow> release list" where
  "constant_releases s =
     [Raw_free (rs_blob s)] @
     (case rs_disk s of None \<Rightarrow> [] | Some ds \<Rightarrow> map Unmap (take (length (rs_constants s)) ds)) @
     [Host_free (sc_ptr (rs_host s Disk_gather_staging))]"

definition call_if :: "bool \<Rightarrow> string \<Rightarrow> machine \<Rightarrow> machine" where
  "call_if b name m = (if b then upd_gpu (emit (Ev_call name)) m else m)"

definition destroy_handles :: "runtime_state \<Rightarrow> machine \<Rightarrow> machine" where
  "destroy_handles s m =
     (let m1 = call_if (rs_zp_cache s \<noteq> 0) ''hipdnn_ep_zp_unpack_cache_destroy'' m;
          m2 = (if rs_op_profile s then profile_destroy m1 else m1);
          m3 = blas_destroy (rs_blas s) m2
      in if rs_stream s \<noteq> 0 then
           stream_destroy (rs_stream s)
             (if get_current_stream m3 = rs_stream s then set_current_stream 0 m3 else m3)
         else m3)"

definition cleanup :: "machine \<Rightarrow> machine \<times> int" where
  "cleanup m =
     (case mc_state m of
        None \<Rightarrow> (m, 0)
      | Some s \<Rightarrow>
          let m1 = sync_session (call_if True ''hip_gqa_autotune_destroy'' m);
              m2 = foldl run_release m1 (arena_releases s);
              m3 = foldl run_release (destroy_transient_arena m2) (constant_releases s)
          in ((destroy_handles s m3)\<lparr>mc_state := None\<rparr>, 0))"

end
