(* ===== verification/Session_Ranges.thy ===== *)
theory Session_Ranges
  imports Runtime_Session
begin

text \<open>
  How the device's own allocations move under the session's calls.  \<open>outside m\<close> are the
  ranges of \<open>hipMalloc\<close> beside the arena's region, \<open>raw_live m\<close> those of them that the
  session's allocator did not make: only a direct \<open>hipFree\<close> may return them.
\<close>

definition outside :: "machine \<Rightarrow> block set" where
  "outside m =
     (case session_arena m of
        None \<Rightarrow> set (g_dev (mc_gpu m))
      | Some a \<Rightarrow> set (g_dev (mc_gpu m)) - {arena_range a})"

definition raw_live :: "machine \<Rightarrow> block set" where
  "raw_live m =
     (case session_arena m of
        None \<Rightarrow> set (g_dev (mc_gpu m))
      | Some a \<Rightarrow> set (g_dev (mc_gpu m)) - {arena_range a} - set (ta_direct a))"

lemma raw_outside: "raw_live m \<subseteq> outside m"
  by (auto simp: raw_live_def outside_def split: option.split)

lemma outside_live: "outside m \<subseteq> session_live m"
  by (auto simp: session_live_def outside_def split: option.split)

lemma outside_same:
  assumes "g_dev (mc_gpu m') = g_dev (mc_gpu m)" and "session_arena m' = session_arena m"
  shows "outside m' = outside m" and "raw_live m' = raw_live m"
  unfolding outside_def raw_live_def assms by (rule refl)+

text \<open>Nothing changes but ranges that start in \<open>P\<close>.\<close>

definition untouched :: "nat set \<Rightarrow> machine \<Rightarrow> machine \<Rightarrow> bool" where
  "untouched P m m' \<longleftrightarrow>
     (\<forall>r. fst r \<notin> P \<longrightarrow> (r \<in> outside m' \<longleftrightarrow> r \<in> outside m) \<and> (r \<in> raw_live m' \<longleftrightarrow> r \<in> raw_live m)) \<and>
     map_option arena_range (session_arena m') = map_option arena_range (session_arena m)"

lemma untouched_refl [simp]: "untouched P m m"
  by (simp add: untouched_def)

lemma untouched_trans: "untouched P a b \<Longrightarrow> untouched Q b c \<Longrightarrow> untouched (P \<union> Q) a c"
  by (simp add: untouched_def)

lemma untouched_mono: "untouched P m m' \<Longrightarrow> P \<subseteq> Q \<Longrightarrow> untouched Q m m'"
  unfolding untouched_def by blast

lemma untouched_same:
  assumes "g_dev (mc_gpu m') = g_dev (mc_gpu m)" and "session_arena m' = session_arena m"
  shows "untouched P m m'"
  unfolding untouched_def outside_same [OF assms] assms by simp

lemma session_arena_state: "session_arena m = Some a \<Longrightarrow> mc_state m \<noteq> None"
  by (cases "mc_state m") (simp_all add: session_arena_def)

lemma untouched_emit [simp]: "(\<And>g. g_dev (f g) = g_dev g) \<Longrightarrow> untouched P m (upd_gpu f m)"
  by (rule untouched_same) simp_all

lemma untouched_set [simp]:
  "untouched P m (set_pool d r m)" "untouched P m (set_scratch k sc m)" "untouched P m (set_host h sc m)"
  by (rule untouched_same; simp add: machine_simps)+

lemma untouched_hip_free: "untouched {p} m (fst (hip_free m p))"
  by (auto simp: untouched_def outside_def raw_live_def hip_free_def split: option.split)

lemma untouched_hip_malloc:
  assumes "hip_malloc m n = (m', r)" and "0 < n"
  shows "untouched (case r of None \<Rightarrow> {} | Some p \<Rightarrow> {p}) m m'"
  using assms
  by (auto simp: untouched_def outside_def raw_live_def hip_malloc_def split: option.splits)

lemma untouched_arena:
  assumes "session_arena m = Some a" and "arena_range b = arena_range a"
    and "\<And>r. fst r \<notin> P \<Longrightarrow> r \<in> set (ta_direct b) \<longleftrightarrow> r \<in> set (ta_direct a)"
  shows "untouched P m (set_arena b m)"
proof -
  have "mc_state m \<noteq> None"
    by (rule session_arena_state [OF assms(1)])
  then have "session_arena (set_arena b m) = Some b"
    by simp
  then show ?thesis
    using assms by (simp add: untouched_def outside_def raw_live_def)
qed

lemma arena_allocate_size: "ar_size (fst (arena_allocate a n)) = ar_size a"
  by (auto simp: arena_allocate_def Let_def split: option.split)

lemma arena_release_size: "ar_size (fst (arena_release a off)) = ar_size a"
  by (auto simp: arena_release_def Let_def split: option.split prod.split)

lemma untouched_device_alloc:
  assumes d: "device_alloc m n = (m', r)" and n: "0 < n"
  shows "untouched (case r of None \<Rightarrow> {} | Some p \<Rightarrow> {p}) m m'"
proof (cases "session_arena m")
  case None
  then show ?thesis
    using d untouched_hip_malloc [OF _ n] by (simp add: device_alloc_def)
next
  case (Some a)
  obtain blocks x where al: "arena_allocate (ta_blocks a) n = (blocks, x)"
    by fastforce
  have size: "ar_size blocks = ar_size (ta_blocks a)"
    using arena_allocate_size [of "ta_blocks a" n] al by simp
  have live: "mc_state m \<noteq> None"
    by (rule session_arena_state [OF Some])
  show ?thesis
  proof (cases x)
    case off: (Some off)
    have "m' = set_arena (track (arena_block_bytes blocks off) (a\<lparr>ta_blocks := blocks\<rparr>)) m"
      using d Some al off by (simp add: device_alloc_def)
    moreover have "untouched P m (set_arena (track b (a\<lparr>ta_blocks := blocks\<rparr>)) m)" for P b
      by (rule untouched_arena [OF Some]) (simp_all add: track_def Let_def arena_range_def size)
    ultimately show ?thesis
      by simp
  next
    case None
    define m0 where "m0 = set_arena (a\<lparr>ta_blocks := blocks\<rparr>) m"
    have m0: "untouched P m m0" "session_arena m0 = Some (a\<lparr>ta_blocks := blocks\<rparr>)" for P
      using live Some by (auto simp: m0_def arena_range_def size intro: untouched_arena)
    obtain m1 y where h: "hip_malloc m0 n = (m1, y)"
      by fastforce
    note H = untouched_hip_malloc [OF h n]
    show ?thesis
    proof (cases y)
      case None
      then have "m' = m1" "r = None"
        using d Some al \<open>x = None\<close> h by (simp_all add: device_alloc_def m0_def Let_def)
      then show ?thesis
        using untouched_trans [OF m0(1) [of "{}"] H] None by simp
    next
      case p: (Some p)
      let ?b = "track n (a\<lparr>ta_blocks := blocks, ta_direct := (p, n) # filter (\<lambda>b. fst b \<noteq> p) (ta_direct a)\<rparr>)"
      have m': "m' = set_arena ?b m1" "r = Some p"
        using d Some al \<open>x = None\<close> h p by (simp_all add: device_alloc_def m0_def Let_def)
      have "session_arena m1 = Some (a\<lparr>ta_blocks := blocks\<rparr>)"
        using h m0(2) hip_malloc_Some(6) [of m0 n m1 p] p n by simp
      then have "untouched {p} m1 m'"
        unfolding m'(1) by (rule untouched_arena) (auto simp: track_def Let_def arena_range_def)
      from untouched_trans [OF untouched_trans [OF m0(1) [of "{p}"] H] this] show ?thesis
        using p m'(2) by simp
    qed
  qed
qed

lemma untouched_device_free: "untouched {p} m (fst (device_free m p))"
proof (cases "session_arena m")
  case None
  then show ?thesis
    using untouched_hip_free by (simp add: device_free_def)
next
  case (Some a)
  have free: "untouched {p} m (fst (hip_free (set_arena b m) p))"
    if "arena_range b = arena_range a" "\<And>r. fst r \<noteq> p \<Longrightarrow> r \<in> set (ta_direct b) \<longleftrightarrow> r \<in> set (ta_direct a)" for b
    using untouched_trans [OF untouched_arena [OF Some that(1), of "{p}"] untouched_hip_free [of p]] that(2) by simp
  have keep: "untouched {p} m (set_arena b (upd_gpu (emit Ev_device_sync) m))"
    if "arena_range b = arena_range a" "ta_direct b = ta_direct a" for b
    using untouched_trans [OF untouched_emit [of "emit Ev_device_sync" "{p}" m] untouched_arena [of _ a b "{p}"]]
      Some that by simp
  show ?thesis
    using Some
    by (auto simp: device_free_def Let_def hip_device_sync_def arena_release_size arena_range_def
        split: option.split intro!: free keep)
qed

section \<open>Releasing ranges\<close>

text \<open>The device and the pinned ranges that start in \<open>P\<close> and \<open>Q\<close> go; every free was legal.\<close>

definition legal :: "hip_event \<Rightarrow> bool" where
  "legal e \<longleftrightarrow> (case e of Ev_bad_free p \<Rightarrow> False | Ev_bad_host_free p \<Rightarrow> False | _ \<Rightarrow> True)"

definition released :: "nat set \<Rightarrow> nat set \<Rightarrow> machine \<Rightarrow> machine \<Rightarrow> bool" where
  "released P Q m m' \<longleftrightarrow>
     allocator_inv m' \<and> pinned_inv m' \<and>
     session_live m' = {r \<in> session_live m. fst r \<notin> P} \<and> outside m' = {r \<in> outside m. fst r \<notin> P} \<and>
     raw_live m' = {r \<in> raw_live m. fst r \<notin> P} \<and> pinned_live m' = {r \<in> pinned_live m. fst r \<notin> Q} \<and>
     map_option arena_range (session_arena m') = map_option arena_range (session_arena m) \<and>
     (\<exists>es. g_trace (mc_gpu m') = es @ g_trace (mc_gpu m) \<and> list_all legal es)"

lemma released_trans:
  assumes "released P Q a b" and "released P' Q' b c"
  shows "released (P \<union> P') (Q \<union> Q') a c"
proof -
  obtain es where "g_trace (mc_gpu b) = es @ g_trace (mc_gpu a)" "list_all legal es"
    using assms(1) by (auto simp: released_def)
  moreover obtain fs where "g_trace (mc_gpu c) = fs @ g_trace (mc_gpu b)" "list_all legal fs"
    using assms(2) by (auto simp: released_def)
  ultimately have "g_trace (mc_gpu c) = (fs @ es) @ g_trace (mc_gpu a) \<and> list_all legal (fs @ es)"
    by simp
  then show ?thesis
    using assms unfolding released_def by (auto simp del: append_assoc)
qed

lemma released_refl: "allocator_inv m \<Longrightarrow> pinned_inv m \<Longrightarrow> released {} {} m m"
  by (simp add: released_def)

lemma released_emit:
  assumes "allocator_inv m" and "pinned_inv m"
    and "\<And>g. g_dev (f g) = g_dev g \<and> g_pin (f g) = g_pin g \<and> g_trace (f g) = e # g_trace g" and "legal e"
  shows "released {} {} m (upd_gpu f m)"
proof -
  have "allocator_inv (upd_gpu f m) = allocator_inv m" "session_live (upd_gpu f m) = session_live m"
    using assms(3) by (simp_all add: allocator_emit)
  moreover have "pinned_inv (upd_gpu f m) = pinned_inv m" "pinned_live (upd_gpu f m) = pinned_live m"
    using assms(3) by (simp_all add: pinned_inv_def pinned_live_def)
  moreover have "outside (upd_gpu f m) = outside m" "raw_live (upd_gpu f m) = raw_live m"
    by (rule outside_same; simp add: assms(3))+
  ultimately show ?thesis
    using assms by (simp add: released_def)
qed

lemma outside_restrict:
  assumes "untouched {p} m m'" and "\<And>r. r \<in> session_live m' \<Longrightarrow> fst r \<noteq> p"
  shows "outside m' = {r \<in> outside m. fst r \<notin> {p}}" and "raw_live m' = {r \<in> raw_live m. fst r \<notin> {p}}"
proof -
  have o: "fst r \<noteq> p" if "r \<in> outside m'" for r
    using that assms(2) outside_live by blast
  then have rw: "fst r \<noteq> p" if "r \<in> raw_live m'" for r
    using that raw_outside by blast
  show "outside m' = {r \<in> outside m. fst r \<notin> {p}}"
    using assms(1) o unfolding untouched_def by blast
  show "raw_live m' = {r \<in> raw_live m. fst r \<notin> {p}}"
    using assms(1) rw unfolding untouched_def by blast
qed

lemma minus_start:
  assumes "\<And>l. (p, l) \<in> L \<Longrightarrow> l = len"
  shows "L - {(p, len)} = {r \<in> L. fst r \<notin> {p}}"
proof (rule set_eqI)
  fix r :: "'b \<times> 'a"
  show "r \<in> L - {(p, len)} \<longleftrightarrow> r \<in> {r \<in> L. fst r \<notin> {p}}"
    using assms [of "snd r"] by (cases r; cases "fst r = p") auto
qed

lemma live_minus:
  assumes "allocator_inv m" and "(p, len) \<in> session_live m"
  shows "session_live m - {(p, len)} = {r \<in> session_live m. fst r \<notin> {p}}"
  by (rule minus_start) (rule session.live_start_unique [OF assms(1) _ assms(2)])

lemma same_pinned:
  assumes "same_session m m'"
  shows "pinned_inv m' = pinned_inv m" and "pinned_live m' = pinned_live m"
  using assms by (simp_all add: same_session_def pinned_inv_def pinned_live_def)

lemma device_free_trace:
  assumes inv: "allocator_inv m" and live: "(p, len) \<in> session_live m"
  shows "\<exists>e. g_trace (mc_gpu (fst (device_free m p))) = e # g_trace (mc_gpu m) \<and> legal e"
proof -
  have p: "p \<noteq> 0"
    using session_live_pos(2) [OF inv live] by simp
  show ?thesis
  proof (cases "session_arena m")
    case None
    then have "p \<in> fst ` set (g_dev (mc_gpu m))"
      using live by (force simp: session_live_def)
    then show ?thesis
      using None p by (auto simp: device_free_def hip_free_def legal_def)
  next
    case (Some a)
    then consider "(p, len) \<in> set (g_dev (mc_gpu m)) - {arena_range a}"
      | off where "p = ta_base a + off" "(off, len) \<in> set (ar_live (ta_blocks a))"
      using live by (auto simp: session_live_def shifted_def)
    then show ?thesis
    proof cases
      case 1
      then have "p \<in> set (map fst (g_dev (mc_gpu m)))"
        by force
      then have "\<exists>e. g_trace (mc_gpu (fst (hip_free (set_arena b m) p))) = e # g_trace (mc_gpu m) \<and> legal e" for b
        using p by (simp add: hip_free_def legal_def)
      then show ?thesis
        using Some p live_outside [OF inv Some 1] by (simp add: device_free_def Let_def)
    next
      case 2
      have "off < ar_size (ta_blocks a)"
        using live_bounded [OF arena_okD(1) [OF allocator_invD(4) [OF inv Some]] 2(2)]
          arena_block_pos [OF arena_okD(1) [OF allocator_invD(4) [OF inv Some]] 2(2)] by simp
      then show ?thesis
        using Some p 2(1) by (simp add: device_free_def Let_def hip_device_sync_def legal_def)
    qed
  qed
qed

lemma released_device_free:
  assumes inv: "allocator_inv m" "pinned_inv m" and live: "(p, len) \<in> session_live m"
  shows "released {p} {} m (fst (device_free m p))"
proof -
  let ?m = "fst (device_free m p)"
  have L: "session_live ?m = {r \<in> session_live m. fst r \<notin> {p}}"
    using session.release_live [OF inv(1) live] live_minus [OF inv(1) live] by simp
  then have "fst r \<noteq> p" if "r \<in> session_live ?m" for r
    using that by simp
  note O = outside_restrict [OF untouched_device_free [of p m] this]
  obtain e where "g_trace (mc_gpu ?m) = e # g_trace (mc_gpu m)" "legal e"
    using device_free_trace [OF inv(1) live] by blast
  then have "\<exists>es. g_trace (mc_gpu ?m) = es @ g_trace (mc_gpu m) \<and> list_all legal es"
    by (intro exI [of _ "[e]"]) simp
  then show ?thesis
    using session.inv_release [OF inv(1) live] L O same_pinned [OF device_free_frame, of m p] inv(2)
      untouched_device_free [of p m]
    by (simp add: released_def untouched_def)
qed

lemma released_hip_free:
  assumes inv: "allocator_inv m" "pinned_inv m" and live: "(p, len) \<in> raw_live m"
  shows "released {p} {} m (fst (hip_free m p))"
proof -
  let ?m = "fst (hip_free m p)"
  note I = allocator_invD [OF inv(1)]
  have sl: "(p, len) \<in> session_live m"
    using live raw_outside outside_live by blast
  have dev: "(p, len) \<in> set (g_dev (mc_gpu m))"
    using live by (auto simp: raw_live_def split: option.splits)
  note F = hip_free_live [OF I(2) dev]
  have arena: "session_arena ?m = session_arena m"
    using F(4) by (simp add: session_arena_def)
  have "arena_ok a (g_dev (mc_gpu ?m))" if a: "session_arena m = Some a" for a
  proof -
    note A = I(4) [OF a]
    have "(p, len) \<noteq> arena_range a" "(p, len) \<notin> set (ta_direct a)"
      using live a by (auto simp: raw_live_def)
    then show ?thesis
      using A F(1) by (auto simp: arena_ok_def arena_range_def)
  qed
  then have ai: "allocator_inv ?m"
    using I(1,3) F(2-4) arena by (auto simp: allocator_inv_def split: option.split)
  have sh: "(p, len) \<notin> shifted (ta_base a) ` set (ar_live (ta_blocks a))" if a: "session_arena m = Some a" for a
  proof
    assume s: "(p, len) \<in> shifted (ta_base a) ` set (ar_live (ta_blocks a))"
    have "(p, len) \<in> set (g_dev (mc_gpu m)) - {arena_range a}"
      using live a by (auto simp: raw_live_def)
    from live_outside [OF inv(1) a this] show False
      using shifted_in_range [OF arena_okD(1) [OF I(4) [OF a]] s] by auto
  qed
  have "session_live ?m = session_live m - {(p, len)}"
    unfolding session_live_def arena F(1) using sh by (auto split: option.split)
  then have L: "session_live ?m = {r \<in> session_live m. fst r \<notin> {p}}"
    using live_minus [OF inv(1) sl] by simp
  then have "fst r \<noteq> p" if "r \<in> session_live ?m" for r
    using that by simp
  note O = outside_restrict [OF untouched_hip_free [of p m] this]
  have "p \<noteq> 0" "p \<in> fst ` set (g_dev (mc_gpu m))"
    using session_live_pos(2) [OF inv(1) sl] dev by force+
  then have "\<exists>es. g_trace (mc_gpu ?m) = es @ g_trace (mc_gpu m) \<and> list_all legal es"
    by (intro exI [of _ "[Ev_free p]"]) (simp add: hip_free_def legal_def)
  then show ?thesis
    using ai L O same_pinned [OF hip_free_frame, of m p] inv(2) arena
    by (simp add: released_def)
qed

lemma released_host_free:
  assumes inv: "allocator_inv m" "pinned_inv m" and live: "(p, len) \<in> pinned_live m"
  shows "released {} {p} m (fst (hip_host_free m p))"
proof -
  let ?m = "fst (hip_host_free m p)"
  have "p \<noteq> 0" "p \<in> fst ` set (g_pin (mc_gpu m))"
    using pinned.live_nonnull [OF inv(2) live] live by (force simp: pinned_live_def)+
  then have m: "?m = upd_gpu (\<lambda>g. emit (Ev_host_free p) (g\<lparr>g_pin := filter (\<lambda>b. fst b \<noteq> p) (g_pin g)\<rparr>)) m"
    by (simp add: hip_host_free_def)
  have al: "allocator_inv ?m = allocator_inv m" "session_live ?m = session_live m"
    unfolding m by (rule allocator_emit; simp)+
  have "outside ?m = outside m" "raw_live ?m = raw_live m" "session_arena ?m = session_arena m"
    unfolding m by (rule outside_same; simp)+ simp
  moreover have "pinned_live m - {(p, len)} = {r \<in> pinned_live m. fst r \<notin> {p}}"
    by (rule minus_start) (rule pinned.live_start_unique [OF inv(2) _ live])
  then have "pinned_live ?m = {r \<in> pinned_live m. fst r \<notin> {p}}"
    using pinned.release_live [OF inv(2) live] by simp
  moreover have "\<exists>es. g_trace (mc_gpu ?m) = es @ g_trace (mc_gpu m) \<and> list_all legal es"
    unfolding m by (intro exI [of _ "[Ev_host_free p]"]) (simp add: legal_def)
  ultimately show ?thesis
    using al inv(1) pinned.inv_release [OF inv(2) live] by (simp add: released_def)
qed

end
