(* ===== verification/Session_Teardown.thy ===== *)
theory Session_Teardown
  imports Session_Ranges
begin

text \<open>
  The teardown of a session: a sequence of releases returns exactly its targets, and the
  teardown as a whole returns what the session holds and nothing else.
\<close>

section \<open>A sequence of releases\<close>

fun dev_target :: "release \<Rightarrow> nat" where
  "dev_target (Dev_free p) = p"
| "dev_target (Raw_free p) = p"
| "dev_target r = 0"

fun host_target :: "release \<Rightarrow> nat" where
  "host_target (Host_free p) = p"
| "host_target r = 0"

fun event_target :: "release \<Rightarrow> nat" where
  "event_target (Event_destroy p) = p"
| "event_target r = 0"

definition nonnull :: "nat \<Rightarrow> nat list" where
  "nonnull p = (if p = 0 then [] else [p])"

lemma nonnull_0 [simp]: "nonnull 0 = []"
  by (simp add: nonnull_def)

definition targets :: "(release \<Rightarrow> nat) \<Rightarrow> release list \<Rightarrow> nat list" where
  "targets f rs = filter (\<lambda>p. p \<noteq> 0) (map f rs)"

lemma targets_simps [simp]:
  "targets f [] = []" "targets f (r # rs) = nonnull (f r) @ targets f rs"
  "targets f (rs @ ss) = targets f rs @ targets f ss"
  by (simp_all add: targets_def nonnull_def)

text \<open>Every target is live for the call that releases it.\<close>

fun ready :: "machine \<Rightarrow> release \<Rightarrow> bool" where
  "ready m (Dev_free p) \<longleftrightarrow> p = 0 \<or> p \<in> fst ` session_live m"
| "ready m (Raw_free p) \<longleftrightarrow> p = 0 \<or> p \<in> fst ` raw_live m"
| "ready m (Host_free p) \<longleftrightarrow> p = 0 \<or> p \<in> fst ` pinned_live m"
| "ready m r \<longleftrightarrow> True"

lemma released_one:
  assumes inv: "allocator_inv m" "pinned_inv m" and r: "ready m r"
  shows "released (set (targets dev_target [r])) (set (targets host_target [r])) m (run_release m r)"
proof (cases r)
  case (Dev_free p)
  then show ?thesis
    using r released_refl [OF inv] released_device_free [OF inv] by (auto simp del: targets_simps(2)) (auto simp: targets_def)
next
  case (Raw_free p)
  then show ?thesis
    using r released_refl [OF inv] released_hip_free [OF inv] by (auto simp: targets_def)
next
  case (Host_free p)
  then show ?thesis
    using r released_refl [OF inv] released_host_free [OF inv] by (auto simp: targets_def)
next
  case (Event_destroy h)
  have "released {} {} m (event_destroy h m)"
    using released_refl [OF inv] released_emit [OF inv, of "\<lambda>g. emit (Ev_call ''hipEventDestroy'') (g\<lparr>g_events := remove1 h (g_events g)\<rparr>)"]
    by (auto simp: event_destroy_def legal_def)
  then show ?thesis
    using Event_destroy by (simp add: targets_def)
next
  case (Deletor os)
  then show ?thesis
    using released_refl [OF inv] released_emit [OF inv, of "emit (Ev_call ''deletor'')"] by (auto simp: targets_def legal_def)
next
  case (Unmap d)
  then show ?thesis
    using released_refl [OF inv] released_emit [OF inv, of "emit (Ev_call ''munmap'')"] by (auto simp: targets_def legal_def)
qed

lemma ready_after:
  assumes "released P Q m m'" and "ready m r" and "dev_target r \<notin> P" and "host_target r \<notin> Q"
  shows "ready m' r"
proof -
  have "p \<in> fst ` {r \<in> L. fst r \<notin> P}" if "p \<in> fst ` L" "p \<notin> P" for p P and L :: "block set"
    using that by force
  then show ?thesis
    using assms by (cases r) (auto simp: released_def)
qed

lemma run_releases:
  assumes "allocator_inv m" and "pinned_inv m" and "list_all (ready m) rs"
    and "distinct (targets dev_target rs)" and "distinct (targets host_target rs)"
  shows "released (set (targets dev_target rs)) (set (targets host_target rs)) m (foldl run_release m rs)"
  using assms
proof (induction rs arbitrary: m)
  case Nil
  then show ?case by (simp add: released_refl)
next
  case (Cons r rs)
  have one: "released (set (targets dev_target [r])) (set (targets host_target [r])) m (run_release m r)"
    using Cons.prems by (intro released_one) simp_all
  have "ready (run_release m r) q" if q: "q \<in> set rs" for q
  proof (cases "dev_target q = 0 \<and> host_target q = 0")
    case True
    then show ?thesis
      using q Cons.prems(3) by (cases q) auto
  next
    case False
    have "dev_target q \<noteq> 0 \<Longrightarrow> dev_target q \<in> set (targets dev_target rs)"
      and "host_target q \<noteq> 0 \<Longrightarrow> host_target q \<in> set (targets host_target rs)"
      using q by (auto simp: targets_def)
    then have "dev_target q \<notin> set (targets dev_target [r])" and "host_target q \<notin> set (targets host_target [r])"
      using Cons.prems(4,5) False by (auto simp: nonnull_def split: if_splits)
    then show ?thesis
      using ready_after [OF one] q Cons.prems(3) by (simp add: list_all_iff)
  qed
  then have "list_all (ready (run_release m r)) rs"
    by (simp add: list_all_iff)
  moreover have "allocator_inv (run_release m r)" "pinned_inv (run_release m r)"
    using one by (simp_all add: released_def)
  ultimately have "released (set (targets dev_target rs)) (set (targets host_target rs)) (run_release m r)
      (foldl run_release (run_release m r) rs)"
    using Cons.prems(4,5) by (intro Cons.IH) auto
  from released_trans [OF one this] show ?case
    by (simp add: Un_commute)
qed

section \<open>What a session holds\<close>

text \<open>
  While a Scan body runs, \<open>rs_pools\<close> are the Scan's pools and \<open>rs_scan_pools\<close> is the same
  array: then only \<open>rs_pools\<close> owns them.
\<close>

datatype dev_owner = Buf buf | Scan_pool nat | Blob | Error_flag | Iter_dev

fun dev_of :: "runtime_state \<Rightarrow> dev_owner \<Rightarrow> block" where
  "dev_of s (Buf b) = buf_of s b"
| "dev_of s (Scan_pool d) =
     (if d < length (rs_scan_pools s) \<and> \<not> rs_scan_active s then rs_scan_pools s ! d else (0, 0))"
| "dev_of s Blob = (rs_blob s, 0)"
| "dev_of s Error_flag = (rs_error_flag s, if rs_error_flag s = 0 then 0 else 4)"
| "dev_of s Iter_dev = (lb_iter_dev (rs_loop s), if lb_iter_dev (rs_loop s) = 0 then 0 else 8)"

datatype pin_owner = Pinned host_slot | Iter_buf | Cond_host

fun pin_of :: "runtime_state \<Rightarrow> pin_owner \<Rightarrow> block" where
  "pin_of s (Pinned k) = host_of s k"
| "pin_of s Iter_buf = (lb_iter_buf (rs_loop s), 8 * lb_iter_capacity (rs_loop s))"
| "pin_of s Cond_host = (lb_cond_host (rs_loop s), if lb_cond_host (rs_loop s) = 0 then 0 else 1)"

text \<open>The buffers \<open>hipMalloc\<close> made for the session directly, which it must free directly.\<close>

definition raw_ptrs :: "runtime_state \<Rightarrow> nat list" where
  "raw_ptrs s = [rs_blob s, rs_error_flag s, lb_iter_dev (rs_loop s)]"

definition session_ok :: "machine \<Rightarrow> bool" where
  "session_ok m \<longleftrightarrow> allocator_inv m \<and> pinned_inv m \<and>
     owned_ok (dev_of (st m)) (session_live m) \<and> owned_ok (pin_of (st m)) (pinned_live m) \<and>
     (\<forall>p \<in> set (raw_ptrs (st m)). p = 0 \<or> p \<in> fst ` raw_live m) \<and> length (raw_ptrs (st m)) = 3"

text \<open>What lives on the device beside the session.\<close>

definition dev_strangers :: "machine \<Rightarrow> block set" where
  "dev_strangers m = {r \<in> outside m. fst r \<notin> starts (dev_of (st m))}"

definition pin_strangers :: "machine \<Rightarrow> block set" where
  "pin_strangers m = {r \<in> pinned_live m. fst r \<notin> starts (pin_of (st m))}"

definition arena_owners :: "runtime_state \<Rightarrow> dev_owner list" where
  "arena_owners s =
     map (Buf \<circ> Slot) [Workspace, Qmoe_scratch, Qmoe_amd_scratch, Conv_scratch, Qlpnormalization_scratch,
       Qsigmoid_scratch, Matmul_dp4a_scratch, La_scratch, Gqa_fp32_adapter_scratch] @
     [Iter_dev, Error_flag] @
     map (Buf \<circ> Pool) [0 ..< length (rs_pools s)] @ map Scan_pool [0 ..< length (rs_scan_pools s)]"

definition arena_pins :: "pin_owner list" where
  "arena_pins = [Pinned Qmoe_host_scratch, Pinned Qmoe_amd_host_scratch, Iter_buf, Cond_host, Pinned Host_scratch]"

definition held :: "('b \<Rightarrow> block) \<Rightarrow> 'b list \<Rightarrow> nat list" where
  "held B os = filter (\<lambda>p. p \<noteq> 0) (map (fst \<circ> B) os)"

lemma held_simps [simp]:
  "held B [] = []" "held B (b # os) = nonnull (fst (B b)) @ held B os"
  "held B (os @ ps) = held B os @ held B ps"
  by (simp_all add: held_def nonnull_def)

lemma held_map: "held B (map f os) = held (B \<circ> f) os"
  by (simp add: held_def comp_def)

lemma distinct_held: "owned_ok B L \<Longrightarrow> distinct os \<Longrightarrow> distinct (held B os)"
proof (induction os)
  case (Cons b os)
  have "fst (B b) \<notin> set (held B os)" if "fst (B b) \<noteq> 0"
    using owned_okD(2) [OF Cons.prems(1), of b] that Cons.prems(2) by (fastforce simp: held_def)
  then show ?case
    using Cons by (simp add: held_def)
qed (simp add: held_def)

lemma in_held: "p \<in> set (held B os) \<longleftrightarrow> p \<noteq> 0 \<and> (\<exists>b \<in> set os. fst (B b) = p)"
  by (auto simp: held_def)

lemma set_held:
  assumes "\<And>b. fst (B b) \<noteq> 0 \<Longrightarrow> b \<in> set os"
  shows "set (held B os) = starts B"
proof (intro set_eqI iffI)
  fix p assume "p \<in> set (held B os)"
  then show "p \<in> starts B"
    unfolding in_held in_starts by blast
next
  fix p assume "p \<in> starts B"
  then obtain b where b: "p \<noteq> 0" "fst (B b) = p"
    unfolding in_starts by blast
  then have "b \<in> set os"
    by (intro assms) simp
  then show "p \<in> set (held B os)"
    unfolding in_held using b by blast
qed

lemma map_pools: "map fst bs = map (\<lambda>d. fst (if d < length bs then bs ! d else (0, 0))) [0 ..< length bs]"
  by (intro nth_equalityI) simp_all

lemma targets_pools:
  "targets dev_target (pool_releases bs) =
     filter (\<lambda>p. p \<noteq> 0) (map (\<lambda>d. fst (if d < length bs then bs ! d else (0, 0))) [0 ..< length bs])"
  "targets host_target (pool_releases bs) = []" "targets event_target (pool_releases bs) = []"
  unfolding map_pools [symmetric] by (simp_all add: targets_def pool_releases_def comp_def)

lemma targets_op_states:
  "targets dev_target (op_state_releases s) = []" "targets host_target (op_state_releases s) = []"
  "targets event_target (op_state_releases s) = []"
  by (simp_all add: targets_def op_state_releases_def comp_def split: option.split)

lemma targets_unmap:
  "targets dev_target (map Unmap ds) = []" "targets host_target (map Unmap ds) = []"
  "targets event_target (map Unmap ds) = []"
  by (simp_all add: targets_def comp_def)

lemma arena_releases_targets:
  "\<not> rs_scan_active s \<Longrightarrow> targets dev_target (arena_releases s) = held (dev_of s) (arena_owners s)"
  "targets host_target (arena_releases s) = held (pin_of s) arena_pins"
  by (simp_all add: arena_releases_def arena_owners_def arena_pins_def scratch_releases_def loop_releases_def
      targets_op_states targets_pools held_map Let_def host_of_def comp_def)
     (simp_all add: held_def comp_def)

lemma constant_releases_targets:
  "targets dev_target (constant_releases s) = held (dev_of s) [Blob]"
  "targets host_target (constant_releases s) = held (pin_of s) [Pinned Disk_gather_staging]"
  by (simp_all add: constant_releases_def targets_unmap host_of_def split: option.split)

lemma owners_complete:
  "set (held (dev_of s) (arena_owners s @ [Blob])) = starts (dev_of s)"
  "set (held (pin_of s) (arena_pins @ [Pinned Disk_gather_staging])) = starts (pin_of s)"
proof -
  have "k \<in> {Workspace, Qmoe_scratch, Qmoe_amd_scratch, Conv_scratch, Qlpnormalization_scratch,
      Qsigmoid_scratch, Matmul_dp4a_scratch, La_scratch, Gqa_fp32_adapter_scratch}" for k
    by (cases k) simp_all
  then have "b \<in> set (arena_owners s @ [Blob])" if "fst (dev_of s b) \<noteq> 0" for b
  proof (cases b)
    case (Buf c)
    then show ?thesis
      using that \<open>\<And>k. k \<in> _\<close> by (cases c) (auto simp: arena_owners_def split: if_splits)
  qed (use that in \<open>auto simp: arena_owners_def split: if_splits\<close>)
  then show "set (held (dev_of s) (arena_owners s @ [Blob])) = starts (dev_of s)"
    by (rule set_held)
  have "b \<in> set (arena_pins @ [Pinned Disk_gather_staging])" for b
  proof (cases b)
    case (Pinned k)
    then show ?thesis
      by (cases k) (simp_all add: arena_pins_def)
  qed (simp_all add: arena_pins_def)
  then show "set (held (pin_of s) (arena_pins @ [Pinned Disk_gather_staging])) = starts (pin_of s)"
    by (intro set_held)
qed

lemma owners_distinct: "distinct (arena_owners s @ [Blob])" "distinct (arena_pins @ [Pinned Disk_gather_staging])"
  by (auto simp: arena_owners_def arena_pins_def distinct_map inj_on_def)

section \<open>The teardown\<close>

lemma handles_release:
  "handles (run_release m r) =
     (g_streams (mc_gpu m), g_blas (mc_gpu m),
      (if event_target r = 0 then g_events (mc_gpu m) else remove1 (event_target r) (g_events (mc_gpu m))),
      g_profiles (mc_gpu m), mc_current_stream m)"
proof -
  have f: "handles (fst (device_free m p)) = handles m" "handles (fst (hip_free m p)) = handles m" for p
    using device_free_frame [of m p] hip_free_frame [of m p] by (simp_all add: same_session_def)
  have h: "handles (fst (hip_host_free m p)) = handles m" for p
    by (auto simp: hip_host_free_def intro: handles_upd_gpu)
  show ?thesis
    using f h by (cases r) (auto simp: handles_def event_destroy_def upd_gpu_def)
qed

lemma handles_releases:
  "handles (foldl run_release m rs) =
     (g_streams (mc_gpu m), g_blas (mc_gpu m), foldl (\<lambda>es h. remove1 h es) (g_events (mc_gpu m)) (targets event_target rs),
      g_profiles (mc_gpu m), mc_current_stream m)"
proof (induction rs arbitrary: m)
  case (Cons r rs)
  then show ?case
    using handles_release [of m r] by (auto simp: handles_def nonnull_def)
qed (simp add: handles_def)

lemma destroy_transient_arena_live:
  assumes inv: "allocator_inv m" and pin: "pinned_inv m"
  shows "allocator_inv (destroy_transient_arena m)" and "pinned_inv (destroy_transient_arena m)"
    and "session_live (destroy_transient_arena m) = outside m" and "raw_live (destroy_transient_arena m) = outside m"
    and "outside (destroy_transient_arena m) = outside m" and "pinned_live (destroy_transient_arena m) = pinned_live m"
    and "session_arena (destroy_transient_arena m) = None" and "handles (destroy_transient_arena m) = handles m"
    and "\<exists>es. g_trace (mc_gpu (destroy_transient_arena m)) = es @ g_trace (mc_gpu m) \<and> list_all legal es"
proof -
  note I = allocator_invD [OF inv]
  have ar: "rs_arena (st m) = session_arena m"
    using I(3) by (auto simp: session_arena_def)
  let ?d = "destroy_transient_arena m"
  have "allocator_inv ?d \<and> pinned_inv ?d \<and> set (g_dev (mc_gpu ?d)) = outside m \<and> session_arena ?d = None \<and>
      pinned_live ?d = pinned_live m \<and> handles ?d = handles m \<and>
      (\<exists>es. g_trace (mc_gpu ?d) = es @ g_trace (mc_gpu m) \<and> list_all legal es)"
  proof (cases "session_arena m")
    case None
    then show ?thesis
      using inv pin ar by (simp add: destroy_transient_arena_def outside_def)
  next
    case (Some a)
    have dev: "(ta_base a, ar_size (ta_blocks a)) \<in> set (g_dev (mc_gpu m))"
      using arena_okD(2) [OF I(4) [OF Some]] by (simp add: arena_range_def)
    note F = hip_free_live [OF I(2) dev]
    define m1 where "m1 = fst (hip_free m (ta_base a))"
    have d: "?d = upd_st (\<lambda>s. s\<lparr>rs_arena := None\<rparr>) m1"
      using Some ar by (simp add: destroy_transient_arena_def m1_def)
    have fr: "pinned_inv m1 = pinned_inv m" "pinned_live m1 = pinned_live m" "handles m1 = handles m"
      using same_pinned [OF hip_free_frame, of m "ta_base a"] hip_free_frame [of m "ta_base a"]
      by (simp_all add: m1_def same_session_def)
    have "session_arena ?d = None"
      by (simp add: d session_arena_def split: option.split)
    moreover have "set (g_dev (mc_gpu ?d)) = outside m"
      using F(1) Some by (simp add: d m1_def outside_def arena_range_def)
    moreover have "mc_state ?d \<noteq> None" "mc_api ?d = mc_api m" "blocks_ok (g_dev (mc_gpu ?d))"
      using I(3) F(2-4) by (simp_all add: d m1_def)
    moreover have "pinned_inv ?d = pinned_inv m" "pinned_live ?d = pinned_live m" "handles ?d = handles m"
      using fr by (simp_all add: d pinned_inv_def pinned_live_def)
    moreover have "ta_base a \<noteq> 0" "ta_base a \<in> fst ` set (g_dev (mc_gpu m))"
      using I(2) dev by (auto simp: blocks_ok_def) force
    then have "g_trace (mc_gpu ?d) = [Ev_free (ta_base a)] @ g_trace (mc_gpu m)"
      by (simp add: d m1_def hip_free_def)
    moreover have "list_all legal [Ev_free (ta_base a)]"
      by (simp add: legal_def)
    ultimately show ?thesis
      using I(1) pin by (simp add: allocator_inv_def)
  qed
  then show "allocator_inv ?d" and "pinned_inv ?d" and "session_live ?d = outside m" and "raw_live ?d = outside m"
    and "outside ?d = outside m" and "pinned_live ?d = pinned_live m" and "session_arena ?d = None"
    and "handles ?d = handles m" and "\<exists>es. g_trace (mc_gpu ?d) = es @ g_trace (mc_gpu m) \<and> list_all legal es"
    by (simp_all add: session_live_def raw_live_def outside_def)
qed

lemma released_destroy:
  assumes "released P Q m m1" and "released P' Q' (destroy_transient_arena m1) m'"
  shows "set (g_dev (mc_gpu m')) = {r \<in> outside m. fst r \<notin> P \<union> P'}"
    and "pinned_live m' = {r \<in> pinned_live m. fst r \<notin> Q \<union> Q'}"
    and "\<exists>es. g_trace (mc_gpu m') = es @ g_trace (mc_gpu m) \<and> list_all legal es"
proof -
  have inv: "allocator_inv m1" "pinned_inv m1"
    using assms(1) by (simp_all add: released_def)
  note D = destroy_transient_arena_live [OF inv]
  have "session_arena m' = None"
    using assms(2) D(7) by (simp add: released_def)
  then have "set (g_dev (mc_gpu m')) = outside m'"
    by (simp add: outside_def)
  then show "set (g_dev (mc_gpu m')) = {r \<in> outside m. fst r \<notin> P \<union> P'}"
    using assms D(5) by (auto simp: released_def)
  show "pinned_live m' = {r \<in> pinned_live m. fst r \<notin> Q \<union> Q'}"
    using assms D(6) by (auto simp: released_def)
  obtain es where es: "g_trace (mc_gpu m1) = es @ g_trace (mc_gpu m)" "list_all legal es"
    using assms(1) by (auto simp: released_def)
  obtain fs where fs: "g_trace (mc_gpu (destroy_transient_arena m1)) = fs @ g_trace (mc_gpu m1)" "list_all legal fs"
    using D(9) by blast
  obtain gs where gs: "g_trace (mc_gpu m') = gs @ g_trace (mc_gpu (destroy_transient_arena m1))" "list_all legal gs"
    using assms(2) by (auto simp: released_def)
  show "\<exists>es. g_trace (mc_gpu m') = es @ g_trace (mc_gpu m) \<and> list_all legal es"
    using es fs gs by (intro exI [of _ "gs @ fs @ es"]) simp
qed

lemma owned_start:
  assumes "owned_ok B L"
  shows "fst (B b) = 0 \<or> fst (B b) \<in> fst ` L"
proof (cases "fst (B b) = 0")
  case False
  then obtain len where "(fst (B b), len) \<in> L"
    using owned_okD(1) [OF assms, of b] by (auto simp: backed_def)
  then have "fst (fst (B b), len) \<in> fst ` L"
    by (rule imageI)
  then show ?thesis
    by simp
qed simp

lemma owners_ready:
  assumes ok: "session_ok m" and idle: "\<not> rs_scan_active (st m)" and same: "session_live m1 = session_live m" "raw_live m1 = raw_live m"
    "pinned_live m1 = pinned_live m"
  shows "list_all (ready m1) (arena_releases (st m))"
proof -
  have dev: "fst (dev_of (st m) b) = 0 \<or> fst (dev_of (st m) b) \<in> fst ` session_live m1" for b
    using owned_start [of "dev_of (st m)" "session_live m" b] ok same(1) by (simp add: session_ok_def)
  have pin: "fst (pin_of (st m) b) = 0 \<or> fst (pin_of (st m) b) \<in> fst ` pinned_live m1" for b
    using owned_start [of "pin_of (st m)" "pinned_live m" b] ok same(3) by (simp add: session_ok_def)
  have raw: "p = 0 \<or> p \<in> fst ` raw_live m1" if "p \<in> set (raw_ptrs (st m))" for p
    using ok that same(2) by (simp add: session_ok_def)
  have pools: "list_all (ready m1) (pool_releases bs)"
    if "\<And>d. d < length bs \<Longrightarrow> fst (bs ! d) = 0 \<or> fst (bs ! d) \<in> fst ` session_live m1" for bs
    using that by (simp add: pool_releases_def list_all_length)
  have "list_all (ready m1) (pool_releases (rs_pools (st m)))"
  proof (rule pools)
    fix d assume "d < length (rs_pools (st m))"
    then show "fst (rs_pools (st m) ! d) = 0 \<or> fst (rs_pools (st m) ! d) \<in> fst ` session_live m1"
      using dev [of "Buf (Pool d)"] by simp
  qed
  moreover have "list_all (ready m1) (pool_releases (rs_scan_pools (st m)))"
  proof (rule pools)
    fix d assume "d < length (rs_scan_pools (st m))"
    then show "fst (rs_scan_pools (st m) ! d) = 0 \<or> fst (rs_scan_pools (st m) ! d) \<in> fst ` session_live m1"
      using dev [of "Scan_pool d"] idle by simp
  qed
  moreover have "list_all (ready m1) (op_state_releases (st m))"
    by (auto simp: op_state_releases_def list_all_iff split: option.split)
  moreover have "list_all (ready m1) (scratch_releases (st m))"
    using dev [of "Buf (Slot k)" for k] pin [of "Pinned k" for k]
    by (simp add: scratch_releases_def Let_def host_of_def)
  moreover have "list_all (ready m1) (loop_releases (st m))"
    using raw pin [of Iter_buf] pin [of Cond_host] by (simp add: loop_releases_def Let_def raw_ptrs_def)
  ultimately show ?thesis
    using raw pin [of "Pinned Host_scratch"] by (simp add: arena_releases_def raw_ptrs_def host_of_def)
qed

lemma destroy_handles_devices:
  "g_dev (mc_gpu (destroy_handles s m)) = g_dev (mc_gpu m)" "g_pin (mc_gpu (destroy_handles s m)) = g_pin (mc_gpu m)"
  "\<exists>es. g_trace (mc_gpu (destroy_handles s m)) = es @ g_trace (mc_gpu m) \<and> list_all legal es"
  by (auto simp: destroy_handles_def Let_def call_if_def profile_destroy_def blas_destroy_def stream_destroy_def
      set_current_stream_def get_current_stream_def legal_def)

lemma destroy_handles_handles:
  "handles (destroy_handles s m) =
     (remove1 (rs_stream s) (g_streams (mc_gpu m)), remove1 (rs_blas s) (g_blas (mc_gpu m)), g_events (mc_gpu m),
      g_profiles (mc_gpu m) - (if rs_op_profile s then 1 else 0),
      if mc_current_stream m = rs_stream s then 0 else mc_current_stream m)"
  if "0 \<notin> set (g_streams (mc_gpu m))" "0 \<notin> set (g_blas (mc_gpu m))"
  using that
  by (auto simp: destroy_handles_def Let_def call_if_def profile_destroy_def blas_destroy_def stream_destroy_def
      set_current_stream_def get_current_stream_def handles_def remove1_idem upd_gpu_def emit_def)

lemma cleanup_releases:
  assumes ok: "session_ok m" and idle: "\<not> rs_scan_active (st m)" and c: "cleanup m = (m', rc)"
  shows "rc = 0" and "mc_state m' = None" and "set (g_dev (mc_gpu m')) = dev_strangers m"
    and "set (g_pin (mc_gpu m')) = pin_strangers m"
    and "\<exists>es. g_trace (mc_gpu m') = es @ g_trace (mc_gpu m) \<and> list_all legal es"
proof -
  obtain s where s: "mc_state m = Some s" "st m = s"
    using ok by (auto simp: session_ok_def allocator_inv_def)
  define m1 where "m1 = sync_session (call_if True ''hip_gqa_autotune_destroy'' m)"
  define m2 where "m2 = foldl run_release m1 (arena_releases s)"
  define m3 where "m3 = foldl run_release (destroy_transient_arena m2) (constant_releases s)"
  have m': "m' = (destroy_handles s m3)\<lparr>mc_state := None\<rparr>" and rc: "rc = 0"
    using c s by (simp_all add: cleanup_def m1_def m2_def m3_def Let_def)
  have dev1: "g_dev (mc_gpu m1) = g_dev (mc_gpu m)" "session_arena m1 = session_arena m"
    "g_pin (mc_gpu m1) = g_pin (mc_gpu m)" "mc_api m1 = mc_api m" "mc_state m1 = mc_state m"
    by (simp_all add: m1_def call_if_def sync_session_def hip_stream_sync_def session_arena_def)
  have live1: "session_live m1 = session_live m" "outside m1 = outside m" "raw_live m1 = raw_live m"
    "pinned_live m1 = pinned_live m" "allocator_inv m1" "pinned_inv m1"
    using ok outside_same [OF dev1(1,2)] allocator_same [of m1 m] dev1
    by (simp_all add: session_ok_def pinned_live_def pinned_inv_def)
  define es1 where "es1 = (if rs_stream s \<noteq> 0 then [Ev_stream_sync] else []) @ [Ev_call ''hip_gqa_autotune_destroy'']"
  have es1: "g_trace (mc_gpu m1) = es1 @ g_trace (mc_gpu m)" "list_all legal es1"
    using s by (simp_all add: m1_def es1_def call_if_def sync_session_def hip_stream_sync_def legal_def)
  have own: "owned_ok (dev_of s) (session_live m)" "owned_ok (pin_of s) (pinned_live m)"
    using ok s by (simp_all add: session_ok_def)
  note T = arena_releases_targets(1) [OF idle [unfolded s(2)]] arena_releases_targets(2) constant_releases_targets
  have dist: "distinct (held (dev_of s) (arena_owners s) @ held (dev_of s) [Blob])"
    "distinct (held (pin_of s) arena_pins @ held (pin_of s) [Pinned Disk_gather_staging])"
    using distinct_held [OF own(1) owners_distinct(1)] distinct_held [OF own(2) owners_distinct(2)] by simp_all
  have R1: "released (set (targets dev_target (arena_releases s))) (set (targets host_target (arena_releases s))) m1 m2"
    unfolding m2_def using dist owners_ready [OF ok idle live1(1,3,4)] s(2)
    by (intro run_releases live1) (simp_all add: T)
  then have inv2: "allocator_inv m2" "pinned_inv m2"
    by (simp_all add: released_def)
  note D = destroy_transient_arena_live [OF inv2]
  have blob: "rs_blob s = 0 \<or> rs_blob s \<in> fst ` raw_live (destroy_transient_arena m2)"
  proof (cases "rs_blob s = 0")
    case False
    then obtain r where r: "r \<in> raw_live m" "fst r = rs_blob s"
      using ok s(2) by (auto simp: session_ok_def raw_ptrs_def)
    have "rs_blob s \<notin> set (held (dev_of s) (arena_owners s))"
      using dist(1) False by (auto simp: nonnull_def)
    then have "r \<in> outside m2"
      using R1 r live1(2,3) raw_outside [of m] by (auto simp: released_def T)
    then show ?thesis
      using D(4) r(2) by force
  qed simp
  have staging: "sc_ptr (rs_host s Disk_gather_staging) = 0 \<or>
      sc_ptr (rs_host s Disk_gather_staging) \<in> fst ` pinned_live (destroy_transient_arena m2)"
  proof (cases "sc_ptr (rs_host s Disk_gather_staging) = 0")
    case False
    let ?p = "sc_ptr (rs_host s Disk_gather_staging)"
    obtain len where "(?p, len) \<in> pinned_live m"
      using owned_okD(1) [OF own(2), of "Pinned Disk_gather_staging"] False by (auto simp: backed_def host_of_def)
    moreover have "?p \<notin> set (held (pin_of s) arena_pins)"
      using dist(2) False by (auto simp: nonnull_def host_of_def)
    ultimately have "(?p, len) \<in> pinned_live m2"
      using R1 live1(4) by (simp add: released_def T)
    then show ?thesis
      using D(6) by force
  qed simp
  have "list_all (ready (destroy_transient_arena m2)) (constant_releases s)"
    using blob staging by (auto simp: constant_releases_def list_all_iff split: option.split)
  then have R2: "released (set (targets dev_target (constant_releases s))) (set (targets host_target (constant_releases s)))
      (destroy_transient_arena m2) m3"
    unfolding m3_def using dist by (intro run_releases D) (simp_all add: T)
  note R = released_destroy [OF R1 R2]
  show "rc = 0" and "mc_state m' = None"
    using rc m' by simp_all
  have "set (targets dev_target (arena_releases s)) \<union> set (targets dev_target (constant_releases s)) = starts (dev_of s)"
    "set (targets host_target (arena_releases s)) \<union> set (targets host_target (constant_releases s)) = starts (pin_of s)"
    using owners_complete [of s] by (simp_all add: T)
  then show "set (g_dev (mc_gpu m')) = dev_strangers m" and "set (g_pin (mc_gpu m')) = pin_strangers m"
    using R(1,2) live1(2,4) s(2) destroy_handles_devices(1,2) [of s m3]
    by (simp_all add: m' dev_strangers_def pin_strangers_def pinned_live_def)
  obtain es2 where es2: "g_trace (mc_gpu m3) = es2 @ g_trace (mc_gpu m1)" "list_all legal es2"
    using R(3) by blast
  obtain es3 where es3: "g_trace (mc_gpu (destroy_handles s m3)) = es3 @ g_trace (mc_gpu m3)" "list_all legal es3"
    using destroy_handles_devices(3) by blast
  show "\<exists>es. g_trace (mc_gpu m') = es @ g_trace (mc_gpu m) \<and> list_all legal es"
    using es1 es2 es3 by (intro exI [of _ "es3 @ es2 @ es1"]) (simp add: m')
qed

end
