(* ===== verification/Session_Steps.thy ===== *)
theory Session_Steps
  imports Session_Teardown
begin

text \<open>
  The session invariant under the requests: what a request for device or host buffers
  leaves alone, and that it keeps everything else the session holds.
\<close>

section \<open>The rest of the state\<close>

definition forget :: "runtime_state \<Rightarrow> runtime_state" where
  "forget s = s\<lparr>rs_pools := [], rs_scratch := \<lambda>k. no_scratch, rs_num_buffers := 0, rs_offsets := None,
     rs_arena := None\<rparr>"

definition same_rest :: "machine \<Rightarrow> machine \<Rightarrow> bool" where
  "same_rest m m' \<longleftrightarrow> mc_api m' = mc_api m \<and> g_pin (mc_gpu m') = g_pin (mc_gpu m) \<and> handles m' = handles m \<and>
     map_option forget (mc_state m') = map_option forget (mc_state m)"

lemma same_rest_refl [simp]: "same_rest m m"
  by (simp add: same_rest_def)

lemma same_rest_trans [trans]: "same_rest a b \<Longrightarrow> same_rest b c \<Longrightarrow> same_rest a c"
  by (simp add: same_rest_def)

lemma forget_arena: "forget (s\<lparr>rs_arena := a\<rparr>) = forget s"
  by (simp add: forget_def)

lemma same_session_rest: "same_session m m' \<Longrightarrow> same_rest m m'"
  by (auto simp: same_session_def same_rest_def option.map_comp comp_def forget_arena)

lemma same_rest_upd:
  "(\<And>s. forget (f s) = forget s) \<Longrightarrow> same_rest m (upd_st f m)"
  by (simp add: same_rest_def option.map_comp comp_def)

lemma same_rest_set [simp]: "same_rest m (set_pool d b m)" "same_rest m (set_scratch k sc m)"
  by (auto simp: set_pool_def set_scratch_def forget_def intro: same_rest_upd)

lemma forget_fields:
  assumes "forget s' = forget s"
  shows "rs_scan_pools s' = rs_scan_pools s" "rs_blob s' = rs_blob s" "rs_error_flag s' = rs_error_flag s"
    "rs_loop s' = rs_loop s" "rs_host s' = rs_host s" "rs_stream s' = rs_stream s" "rs_blas s' = rs_blas s"
    "rs_op_profile s' = rs_op_profile s" "rs_scan_active s' = rs_scan_active s"
proof -
  have f: "rs_scan_pools (forget t) = rs_scan_pools t" "rs_blob (forget t) = rs_blob t"
    "rs_error_flag (forget t) = rs_error_flag t" "rs_loop (forget t) = rs_loop t" "rs_host (forget t) = rs_host t"
    "rs_stream (forget t) = rs_stream t" "rs_blas (forget t) = rs_blas t" "rs_op_profile (forget t) = rs_op_profile t"
    "rs_scan_active (forget t) = rs_scan_active t" for t
    by (simp_all add: forget_def)
  show "rs_scan_pools s' = rs_scan_pools s" "rs_blob s' = rs_blob s" "rs_error_flag s' = rs_error_flag s"
    "rs_loop s' = rs_loop s" "rs_host s' = rs_host s" "rs_stream s' = rs_stream s" "rs_blas s' = rs_blas s"
    "rs_op_profile s' = rs_op_profile s" "rs_scan_active s' = rs_scan_active s"
    using f [of s'] f [of s] unfolding assms by simp_all
qed

section \<open>Owners among other owners\<close>

text \<open>
  Some of the owners change their ranges and everything they do not own stays: then the other
  owners keep theirs, and what nobody owns stays too.
\<close>

lemma in_starts_sub:
  "p \<in> starts B \<longleftrightarrow> p \<in> starts (B \<circ> e) \<or> (\<exists>o'. o' \<notin> range e \<and> p \<noteq> 0 \<and> fst (B o') = p)"
proof -
  have "(\<exists>o'. fst (B o') = p) \<longleftrightarrow> (\<exists>b. fst (B (e b)) = p) \<or> (\<exists>o'. o' \<notin> range e \<and> fst (B o') = p)"
    by (metis rangeE)
  then show ?thesis
    unfolding in_starts comp_def by blast
qed

lemma owner_unowned:
  assumes ok: "owned_ok B L" and o': "o' \<notin> range e" and r: "r \<in> L" "fst r = fst (B o')" "fst r \<noteq> 0"
  shows "r \<in> unowned (B \<circ> e) L"
proof -
  have "fst (B o') \<noteq> fst (B (e b))" for b
    using owned_okD(2) [OF ok, of o' "e b"] o' r(2,3) by auto
  then have "fst r \<notin> starts (B \<circ> e)"
    unfolding in_starts r(2) comp_def by metis
  then show ?thesis
    using r(1) by (simp add: unowned_def)
qed

lemma owned_sub:
  fixes e :: "'b \<Rightarrow> 'o"
  assumes "owned_ok B L" and "inj e"
  shows "owned_ok (B \<circ> e) L"
  unfolding owned_ok_def
proof (intro conjI allI impI)
  fix b show "backed ((B \<circ> e) b) L"
    using owned_okD(1) [OF assms(1), of "e b"] by simp
next
  fix b c :: 'b assume "b \<noteq> c"
  then have "e b \<noteq> e c"
    using injD [OF assms(2)] by blast
  from owned_okD(2) [OF assms(1) this]
  show "fst ((B \<circ> e) b) = 0 \<or> fst ((B \<circ> e) b) \<noteq> fst ((B \<circ> e) c)"
    by simp
qed

lemma owned_extend:
  fixes B B' :: "'o \<Rightarrow> block" and e :: "'b \<Rightarrow> 'o"
  assumes own: "owned_ok B L" and sub: "owned_ok (B' \<circ> e) L'"
    and same: "\<And>o'. o' \<notin> range e \<Longrightarrow> B' o' = B o'" and rest: "unowned (B' \<circ> e) L' = unowned (B \<circ> e) L"
  shows "owned_ok B' L'" and "unowned B' L' = unowned B L"
proof -
  have kept: "(fst (B o'), len) \<in> unowned (B' \<circ> e) L'" if "o' \<notin> range e" "fst (B o') \<noteq> 0" "(fst (B o'), len) \<in> L" for o' len
    using owner_unowned [OF own that(1,3)] that(2) rest by simp
  have mixed: "fst (B o') = 0 \<or> fst (B o') \<noteq> fst (B' (e b))" if "o' \<notin> range e" for o' b
  proof (cases "fst (B o') = 0")
    case False
    then obtain len where "(fst (B o'), len) \<in> L"
      using owned_okD(1) [OF own, of o'] by (auto simp: backed_def)
    from kept [OF that False this] have "fst (B o') \<notin> starts (B' \<circ> e)"
      by (simp add: unowned_def)
    then show ?thesis
      unfolding in_starts comp_def by metis
  qed simp
  show "owned_ok B' L'"
    unfolding owned_ok_def
  proof (intro conjI allI impI)
    fix x :: 'o
    show "backed (B' x) L'"
    proof (cases "x \<in> range e")
      case True
      then show ?thesis using owned_okD(1) [OF sub] by auto
    next
      case False
      have "backed (B x) L"
        by (rule owned_okD(1) [OF own])
      then show ?thesis
        using same [OF False] kept [OF False] by (auto simp: backed_def unowned_def split: if_splits)
    qed
  next
    fix x y :: 'o assume ne: "x \<noteq> y"
    show "fst (B' x) = 0 \<or> fst (B' x) \<noteq> fst (B' y)"
    proof (cases "x \<in> range e"; cases "y \<in> range e")
      assume "x \<in> range e" "y \<in> range e"
      then obtain b c where bc: "x = e b" "y = e c"
        by blast
      then have "b \<noteq> c"
        using ne by blast
      from owned_okD(2) [OF sub this] show ?thesis
        unfolding bc by simp
    next
      assume x: "x \<in> range e" and y: "y \<notin> range e"
      then obtain b where "x = e b"
        by blast
      then show ?thesis
        using same [OF y] mixed [OF y, of b] by metis
    next
      assume x: "x \<notin> range e" and y: "y \<in> range e"
      then obtain c where "y = e c"
        by blast
      then show ?thesis
        using same [OF x] mixed [OF x, of c] by metis
    next
      assume "x \<notin> range e" "y \<notin> range e"
      then show ?thesis
        using same [of x] same [of y] owned_okD(2) [OF own ne] by simp
    qed
  qed
  have "(\<exists>o'. o' \<notin> range e \<and> p \<noteq> 0 \<and> fst (B' o') = p) \<longleftrightarrow> (\<exists>o'. o' \<notin> range e \<and> p \<noteq> 0 \<and> fst (B o') = p)" for p
    using same by metis
  then have "r \<in> unowned B' L' \<longleftrightarrow> r \<in> unowned (B' \<circ> e) L' \<and> \<not> (\<exists>o'. o' \<notin> range e \<and> fst r \<noteq> 0 \<and> fst (B o') = fst r)" for r
    unfolding unowned_def mem_Collect_eq in_starts_sub [of "fst r" B' e] by blast
  moreover have "r \<in> unowned B L \<longleftrightarrow> r \<in> unowned (B \<circ> e) L \<and> \<not> (\<exists>o'. o' \<notin> range e \<and> fst r \<noteq> 0 \<and> fst (B o') = fst r)" for r
    unfolding unowned_def mem_Collect_eq in_starts_sub [of "fst r" B e] by blast
  ultimately show "unowned B' L' = unowned B L"
    using rest by blast
qed

section \<open>A step of the device buffers\<close>

definition dev_step :: "machine \<Rightarrow> machine \<Rightarrow> bool" where
  "dev_step m m' \<longleftrightarrow> buffers_ok m' \<and> foreign m' = foreign m \<and> same_rest m m' \<and>
     untouched (starts (buf_of (st m)) \<union> starts (buf_of (st m'))) m m'"

lemma dev_of_Buf: "dev_of s \<circ> Buf = buf_of s" "inj Buf"
  by (auto simp: inj_on_def)

lemma session_ok_buffers:
  assumes "session_ok m"
  shows "buffers_ok m"
  using owned_sub [of "dev_of (st m)" "session_live m" Buf] assms dev_of_Buf
  by (simp add: session_ok_def buffers_ok_def)

lemma dev_of_rest:
  assumes "forget s' = forget s" and "o' \<notin> range Buf"
  shows "dev_of s' o' = dev_of s o'"
  using assms(2) forget_fields [OF assms(1)] by (cases o') auto

lemma foreign_iff: "r \<in> foreign m \<longleftrightarrow> r \<in> session_live m \<and> fst r \<notin> starts (buf_of (st m))"
  by (simp add: foreign_def unowned_def)

lemma dev_strangers_iff: "r \<in> dev_strangers m \<longleftrightarrow> r \<in> outside m \<and> r \<in> unowned (dev_of (st m)) (session_live m)"
  using outside_live by (auto simp: dev_strangers_def unowned_def)

lemma raw_owner: "p \<in> set (raw_ptrs s) \<Longrightarrow> \<exists>o'. o' \<notin> range Buf \<and> fst (dev_of s o') = p"
  using image_iff by (auto simp: raw_ptrs_def intro: exI [of _ Blob] exI [of _ Error_flag] exI [of _ Iter_dev])

lemma dev_step_session:
  assumes ok: "session_ok m" and step: "dev_step m m'"
  shows "session_ok m'" and "dev_strangers m' = dev_strangers m" and "pin_strangers m' = pin_strangers m"
    and "handles m' = handles m" and "unowned (dev_of (st m')) (session_live m') = unowned (dev_of (st m)) (session_live m)"
proof -
  let ?s = "st m" and ?s' = "st m'"
  have S: "buffers_ok m'" "foreign m' = foreign m" "same_rest m m'"
    "untouched (starts (buf_of ?s) \<union> starts (buf_of ?s')) m m'"
    using step by (simp_all add: dev_step_def)
  have nonnull: "mc_state m \<noteq> None" "mc_state m' \<noteq> None"
    using ok S(1) by (simp_all add: session_ok_def buffers_ok_def allocator_inv_def)
  have fg: "forget ?s' = forget ?s"
    using S(3) nonnull by (auto simp: same_rest_def)
  note F = forget_fields [OF fg]
  show "handles m' = handles m"
    using S(3) by (simp add: same_rest_def)
  have own: "owned_ok (dev_of ?s) (session_live m)"
    using ok by (simp add: session_ok_def)
  have E: "owned_ok (dev_of ?s') (session_live m')" "unowned (dev_of ?s') (session_live m') = unowned (dev_of ?s) (session_live m)"
    using owned_extend [OF own, where B' = "dev_of ?s'" and e = Buf and L' = "session_live m'"]
      dev_of_rest [OF fg] S(1,2) by (simp_all add: dev_of_Buf buffers_ok_def foreign_def)
  then show "unowned (dev_of ?s') (session_live m') = unowned (dev_of ?s) (session_live m)"
    by simp
  have both: "fst r \<notin> starts (buf_of ?s) \<union> starts (buf_of ?s')" if "r \<in> foreign m" for r
    using that S(2) foreign_iff by (metis Un_iff)
  have raws: "raw_ptrs ?s' = raw_ptrs ?s"
    using F by (simp add: raw_ptrs_def)
  moreover have "p = 0 \<or> p \<in> fst ` raw_live m'" if p: "p \<in> set (raw_ptrs ?s)" for p
  proof (cases "p = 0")
    case False
    then obtain l where l: "(p, l) \<in> raw_live m"
      using ok p by (force simp: session_ok_def)
    obtain o' where o': "o' \<notin> range Buf" "fst (dev_of ?s o') = p"
      using raw_owner [OF p] by blast
    have "(p, l) \<in> session_live m"
      using l raw_outside outside_live by blast
    from owner_unowned [OF own o'(1) this] have "(p, l) \<in> foreign m"
      using o'(2) False by (simp add: foreign_def dev_of_Buf)
    then have "(p, l) \<in> raw_live m'"
      using both [of "(p, l)"] S(4) l by (auto simp: untouched_def)
    then show ?thesis
      by force
  qed simp
  moreover have pin: "pinned_inv m' = pinned_inv m" "pinned_live m' = pinned_live m" "pin_of ?s' = pin_of ?s"
  proof -
    show "pinned_inv m' = pinned_inv m" "pinned_live m' = pinned_live m"
      using S(3) by (simp_all add: same_rest_def pinned_inv_def pinned_live_def)
    show "pin_of ?s' = pin_of ?s"
    proof
      fix x show "pin_of ?s' x = pin_of ?s x"
        using F by (cases x) (simp_all add: host_of_def)
    qed
  qed
  ultimately show "session_ok m'"
    using ok S(1) E(1) by (simp add: session_ok_def buffers_ok_def raws)
  show "pin_strangers m' = pin_strangers m"
    by (simp add: pin_strangers_def pin)
  have "r \<in> outside m' \<longleftrightarrow> r \<in> outside m" if "r \<in> foreign m" for r
    using both [OF that] S(4) unfolding untouched_def by blast
  moreover have "r \<in> foreign m" if "r \<in> unowned (dev_of ?s) (session_live m)" for r
    using that in_starts_sub [of "fst r" "dev_of ?s" Buf] by (auto simp: unowned_def foreign_def dev_of_Buf)
  ultimately show "dev_strangers m' = dev_strangers m"
    unfolding set_eq_iff dev_strangers_iff E(2) by blast
qed

section \<open>Requests are such steps\<close>

lemma untouched_dropped: "untouched (if p = 0 then {} else {p}) m (dropped p m)"
proof -
  have "untouched {} m (sync_session m)"
    by (rule untouched_same) (simp_all add: sync_session_def hip_stream_sync_def)
  from untouched_trans [OF this untouched_device_free] have "untouched {p} m (fst (device_free (sync_session m) p))"
    by simp
  then show ?thesis
    by (simp add: dropped_def)
qed

lemma untouched_both: "untouched (P \<union> Q) m m' \<Longrightarrow> P \<subseteq> P' \<Longrightarrow> Q \<subseteq> Q' \<Longrightarrow> untouched (P' \<union> Q') m m'"
  by (erule untouched_mono) blast

lemma grow_pool_step:
  assumes ok: "buffers_ok m" and d: "d < length (rs_pools (st m))" and n: "0 < n" "n < size_limit"
    and g: "grow_pool m d n = (m', p)"
  shows "dev_step m m'"
proof -
  let ?p = "fst (rs_pools (st m) ! d)"
  note G = grow_pool_owned [OF ok d n g]
  obtain m2 r where a: "device_alloc (dropped ?p m) n = (m2, r)"
    by fastforce
  have m': "m' = set_pool d (case r of None \<Rightarrow> (0, 0) | Some q \<Rightarrow> (q, n)) m2"
    and p: "p = (case r of None \<Rightarrow> 0 | Some q \<Rightarrow> q)"
    using g a by (auto simp: grow_pool_dropped split: option.splits)
  have "same_rest m m2"
    using same_rest_trans [OF same_session_rest [OF dropped_frame [of m ?p]]
        same_session_rest [OF device_alloc_frame [of "dropped ?p m" n]]] a by simp
  then have rest: "same_rest m m'"
    unfolding m' using same_rest_set(1) by (rule same_rest_trans)
  have "untouched ((if ?p = 0 then {} else {?p}) \<union> (case r of None \<Rightarrow> {} | Some q \<Rightarrow> {q})) m m'"
    using untouched_trans [OF untouched_trans [OF untouched_dropped untouched_device_alloc [OF a n(1)]] untouched_set(1) [of "{}"]]
    unfolding m' by simp
  moreover have "(if ?p = 0 then {} else {?p}) \<subseteq> starts (buf_of (st m))"
    using d by (auto simp: in_starts intro: exI [of _ "Pool d"])
  moreover have "(case r of None \<Rightarrow> {} | Some q \<Rightarrow> {q}) \<subseteq> starts (buf_of (st m'))"
  proof (cases r)
    case (Some q)
    note R = regrown(2) [OF ok _ n refl refl a [unfolded Some] refl, of "Pool d"]
    have "q \<noteq> 0"
      using R d by simp
    then show ?thesis
      unfolding in_starts subset_iff using G(3) p Some by (auto simp del: buf_of.simps intro!: exI [of _ "Pool d"])
  qed simp
  ultimately have "untouched (starts (buf_of (st m)) \<union> starts (buf_of (st m'))) m m'"
    by (rule untouched_both)
  then show ?thesis
    using G(1,2) rest by (simp add: dev_step_def)
qed

lemma grow_scratch_step:
  assumes ok: "buffers_ok m" and n: "0 < n" "n < size_limit" and g: "grow_scratch k m n = (m', r)"
  shows "dev_step m m'"
proof -
  let ?p = "sc_ptr (rs_scratch (st m) k)" and ?n = "grown_size (sc_size (rs_scratch (st m) k)) n"
  note G = grow_scratch_owned [OF ok n g]
  define m1 where "m1 = (if ?p \<noteq> 0 then set_scratch k no_scratch (dropped ?p m) else m)"
  obtain m2 x where a: "device_alloc m1 ?n = (m2, x)"
    by fastforce
  have g': "(m', r) = (case x of None \<Rightarrow> (m2, False) | Some p \<Rightarrow> (set_scratch k \<lparr>sc_ptr = p, sc_size = ?n\<rparr> m2, True))"
    using g a by (simp add: grow_scratch_def m1_def dropped_def Let_def split: if_splits)
  have "same_rest m m1"
    using same_rest_trans [OF same_session_rest [OF dropped_frame [of m ?p]] same_rest_set(2)] by (simp add: m1_def)
  then have "same_rest m m2"
    using same_rest_trans [OF _ same_session_rest [OF device_alloc_frame [of m1 ?n]]] a by simp
  then have rest: "same_rest m m'"
    using g' same_rest_trans [OF _ same_rest_set(2)] by (cases x) auto
  have "untouched (if ?p = 0 then {} else {?p}) m m1"
    using untouched_trans [OF untouched_dropped [of ?p m] untouched_set(2) [of "{}"]] by (auto simp: m1_def split: if_splits)
  from untouched_trans [OF this untouched_device_alloc [OF a grown_size_pos [OF n(1)]]]
  have "untouched ((if ?p = 0 then {} else {?p}) \<union> (case x of None \<Rightarrow> {} | Some q \<Rightarrow> {q})) m m2" .
  then have "untouched ((if ?p = 0 then {} else {?p}) \<union> (case x of None \<Rightarrow> {} | Some q \<Rightarrow> {q})) m m'"
    using g' untouched_trans [OF _ untouched_set(2) [of "{}"]] by (cases x) fastforce+
  moreover have "(if ?p = 0 then {} else {?p}) \<subseteq> starts (buf_of (st m))"
    by (auto simp: in_starts intro: exI [of _ "Slot k"])
  moreover have "(case x of None \<Rightarrow> {} | Some q \<Rightarrow> {q}) \<subseteq> starts (buf_of (st m'))"
  proof (cases x)
    case (Some q)
    then have "sc_ptr (rs_scratch (st m') k) = q"
      using g' device_alloc_frame [of m1 ?n] a G(1)
      by (auto simp: set_scratch_def buffers_ok_def allocator_inv_def)
    moreover obtain p where "p \<noteq> 0" "buf_of (st m') = (buf_of (st m))(Slot k := (p, ?n))"
      using G(4) g' Some by auto
    from this(1) fun_cong [OF this(2), of "Slot k"] have "sc_ptr (rs_scratch (st m') k) \<noteq> 0"
      by simp
    ultimately show ?thesis
      using Some by (auto simp: in_starts intro: exI [of _ "Slot k"])
  qed simp
  ultimately have "untouched (starts (buf_of (st m)) \<union> starts (buf_of (st m'))) m m'"
    by (rule untouched_both)
  then show ?thesis
    using G(1,2) rest by (simp add: dev_step_def)
qed

lemma dev_step_refl: "buffers_ok m \<Longrightarrow> dev_step m m"
  by (simp add: dev_step_def)

lemma ensure_pool_domains_step:
  assumes ok: "buffers_ok m" and e: "ensure_pool_domains m n = (m', r)"
  shows "dev_step m m'"
proof -
  have nonnull: "mc_state m \<noteq> None"
    using ok by (simp add: buffers_ok_def allocator_inv_def)
  note E = ensure_pool_domains_owned [OF nonnull e]
  obtain m1 b where 1: "heap_call m (8 * nat n) = (m1, b)"
    by fastforce
  obtain m2 c where 2: "heap_call m1 (8 * nat n) = (m2, c)"
    by fastforce
  have h: "same_rest x (fst (heap_call x k)) \<and> untouched {} x (fst (heap_call x k))" for x k
    using same_session_rest [OF heap_call_frame] by (simp add: heap_call_def)
  have h1: "same_rest m m1" "untouched {} m m1"
    using h [of m "8 * nat n"] 1 by simp_all
  have h2: "same_rest m m2" "untouched {} m m2"
    using h [of m1 "8 * nat n"] 2 same_rest_trans [OF h1(1)] untouched_trans [OF h1(2)] by auto
  have p: "same_rest m (upd_st (\<lambda>s. s\<lparr>rs_pools := f s\<rparr>) m2)" "untouched {} m (upd_st (\<lambda>s. s\<lparr>rs_pools := f s\<rparr>) m2)" for f
  proof -
    show "same_rest m (upd_st (\<lambda>s. s\<lparr>rs_pools := f s\<rparr>) m2)"
      using h2(1) by (rule same_rest_trans) (rule same_rest_upd, simp add: forget_def)
    have "untouched {} m2 (upd_st (\<lambda>s. s\<lparr>rs_pools := f s\<rparr>) m2)"
      by (rule untouched_same) (simp_all add: session_arena_def split: option.split)
    from untouched_trans [OF h2(2) this] show "untouched {} m (upd_st (\<lambda>s. s\<lparr>rs_pools := f s\<rparr>) m2)"
      by simp
  qed
  have "same_rest m m' \<and> untouched {} m m'"
    using e 1 2 h1 h2 p by (cases b; cases c) (auto simp: ensure_pool_domains_def split: if_splits)
  then show ?thesis
    using ok E by (simp add: dev_step_def buffers_ok_def foreign_def untouched_mono [of "{}"])
qed

text \<open>Every live range that is not the session's, inside the arena or beside it.\<close>

definition strangers :: "machine \<Rightarrow> block set" where
  "strangers m = unowned (dev_of (st m)) (session_live m)"

text \<open>
  The handles on the device, the session's event apart, and the fields of the state that no
  call but the creation, the teardown and a Scan changes.
\<close>

definition event_strangers :: "machine \<Rightarrow> nat list" where
  "event_strangers m =
     (if lb_event (rs_loop (st m)) = 0 then g_events (mc_gpu m)
      else remove1 (lb_event (rs_loop (st m))) (g_events (mc_gpu m)))"

definition fixed :: "machine \<Rightarrow> (nat list \<times> nat list \<times> nat) \<times> nat \<times> nat \<times> bool \<times> bool" where
  "fixed m = ((g_streams (mc_gpu m), g_blas (mc_gpu m), g_profiles (mc_gpu m)),
     rs_stream (st m), rs_blas (st m), rs_op_profile (st m), rs_scan_active (st m))"

definition keeps :: "machine \<Rightarrow> machine \<Rightarrow> bool" where
  "keeps m m' \<longleftrightarrow> session_ok m' \<and> dev_strangers m' = dev_strangers m \<and> pin_strangers m' = pin_strangers m \<and>
     strangers m' = strangers m \<and> fixed m' = fixed m \<and> event_strangers m' = event_strangers m"

lemma keeps_refl: "session_ok m \<Longrightarrow> keeps m m"
  by (simp add: keeps_def)

lemma keeps_trans: "keeps a b \<Longrightarrow> keeps b c \<Longrightarrow> keeps a c"
  by (simp add: keeps_def)

lemma keeps_ok: "keeps m m' \<Longrightarrow> session_ok m'"
  by (simp add: keeps_def)

lemma session_ok_state: "session_ok m \<Longrightarrow> mc_state m \<noteq> None"
  by (simp add: session_ok_def allocator_inv_def)

lemma keeps_dev_step:
  assumes ok: "session_ok m" and step: "dev_step m m'"
  shows "keeps m m'"
proof -
  note D = dev_step_session [OF ok step]
  have "forget (st m') = forget (st m)"
    using step session_ok_state [OF ok] session_ok_state [OF D(1)] by (auto simp: dev_step_def same_rest_def)
  note F = forget_fields [OF this]
  show ?thesis
    using D F by (simp add: keeps_def strangers_def fixed_def event_strangers_def handles_def Let_def)
qed

lemma get_pool_base_keeps:
  assumes ok: "session_ok m" and n: "n < size_limit" and g: "get_pool_base m d n = (m', p)"
  shows "keeps m m'"
proof -
  note B = session_ok_buffers [OF ok]
  obtain m1 r where e: "ensure_pool_domains m (d + 1) = (m1, r)"
    by fastforce
  have K1: "keeps m m1"
    by (rule keeps_dev_step [OF ok ensure_pool_domains_step [OF B e]])
  have ok1: "session_ok m1"
    using K1 by (simp add: keeps_def)
  have nonnull: "mc_state m \<noteq> None"
    using B by (simp add: buffers_ok_def allocator_inv_def)
  note len = ensure_pool_domains_owned(5) [OF nonnull e]
  have G: "keeps m m2" if "r" "0 \<le> d" "grow_pool m1 (nat d) (if n = 0 then 1 else n) = (m2, q)" for m2 q
  proof -
    have "nat d < length (rs_pools (st m1))"
      using len that(1,2) by linarith
    moreover have "0 < (if n = 0 then 1 else n)" "(if n = 0 then 1 else n) < size_limit"
      using n by simp_all
    ultimately have "dev_step m1 m2"
      by (rule grow_pool_step [OF session_ok_buffers [OF ok1] _ _ _ that(3)])
    from keeps_trans [OF K1 keeps_dev_step [OF ok1 this]] show ?thesis .
  qed
  have "(m', p) = (if d < 0 then (m, 0) else if \<not> r then (m1, 0)
      else if (if n = 0 then 1 else n) > snd (rs_pools (st m1) ! nat d) then grow_pool m1 (nat d) (if n = 0 then 1 else n)
      else (m1, fst (rs_pools (st m1) ! nat d)))"
    using nonnull unfolding g [symmetric] get_pool_base_def e by (cases r) (auto simp: Let_def)
  then show ?thesis
    using K1 keeps_refl [OF ok] G [of m' p]
    by (cases "d < 0"; cases r; cases "(if n = 0 then 1 else n) > snd (rs_pools (st m1) ! nat d)") auto
qed

lemma ensure_scratch_keeps:
  assumes ok: "session_ok m" and n: "n < size_limit" and e: "ensure_scratch k m n = (m', rc)"
  shows "keeps m m'"
proof -
  have nonnull: "mc_state m \<noteq> None"
    using ok by (simp add: session_ok_def allocator_inv_def)
  consider "m' = m" | r where "grow_scratch k m n = (m', r)" "0 < n"
    using e nonnull by (auto simp: ensure_scratch_def split: if_splits prod.splits)
  then show ?thesis
  proof cases
    case 2
    from keeps_dev_step [OF ok grow_scratch_step [OF session_ok_buffers [OF ok] 2(2) n 2(1)]] show ?thesis .
  qed (simp add: keeps_refl [OF ok])
qed

end
