(* ===== verification/Session_Keeps.thy ===== *)
theory Session_Keeps
  imports Session_Steps
begin

text \<open>
  What every call on a session keeps: its invariant, the live ranges that are not its own,
  and its handles.  One lemma per entry point.
\<close>

section \<open>Requests for device buffers\<close>

lemma serve_keeps:
  assumes ok: "session_ok m" and n: "request_size r < size_limit" and s: "serve m r = Some m'"
  shows "keeps m m'"
proof -
  have "(\<exists>d p. get_pool_base m d (request_size r) = (m', p)) \<or>
      (\<exists>k rc. ensure_scratch k m (request_size r) = (m', rc))"
    using s
    by (cases r; simp add: ensure_defs ensure_workspace_scratch split: prod.splits if_splits; metis prod.collapse)
  then show ?thesis
    using get_pool_base_keeps [OF ok n] ensure_scratch_keeps [OF ok n] by blast
qed

lemma serve_all_keeps:
  assumes "session_ok m" and "\<forall>r \<in> set rs. request_size r < size_limit" and "serve_all m rs = Some m'"
  shows "keeps m m'"
  using assms
proof (induction rs arbitrary: m)
  case (Cons r rs)
  then obtain m1 where m1: "serve m r = Some m1" "serve_all m1 rs = Some m'"
    by (auto split: option.splits)
  have K: "keeps m m1"
    using serve_keeps [OF Cons.prems(1) _ m1(1)] Cons.prems(2) by simp
  then have "keeps m1 m'"
    using Cons.IH [OF _ _ m1(2)] Cons.prems(2) by (simp add: keeps_def)
  with K show ?case
    by (rule keeps_trans)
qed (simp add: keeps_refl)

section \<open>Requests for pinned buffers\<close>

definition host_rest :: "machine \<Rightarrow> machine \<Rightarrow> bool" where
  "host_rest m m' \<longleftrightarrow> mc_api m' = mc_api m \<and> g_dev (mc_gpu m') = g_dev (mc_gpu m) \<and> handles m' = handles m \<and>
     map_option (\<lambda>s. s\<lparr>rs_host := \<lambda>k. no_scratch\<rparr>) (mc_state m') =
     map_option (\<lambda>s. s\<lparr>rs_host := \<lambda>k. no_scratch\<rparr>) (mc_state m)"

lemma host_rest_refl [simp]: "host_rest m m"
  by (simp add: host_rest_def)

lemma host_rest_trans: "host_rest a b \<Longrightarrow> host_rest b c \<Longrightarrow> host_rest a c"
  by (simp add: host_rest_def)

lemma host_rest_upd_host: "host_rest m (upd_st (\<lambda>s. s\<lparr>rs_host := f s\<rparr>) m)"
  by (simp add: host_rest_def option.map_comp comp_def)

lemma host_rest_set [simp]: "host_rest m (set_host k sc m)"
  unfolding set_host_def by (rule host_rest_upd_host)

lemma host_rest_calls [simp]:
  "host_rest m (fst (hip_host_malloc m n))" "host_rest m (fst (hip_host_free m p))" "host_rest m (sync_session m)"
  by (auto simp: host_rest_def hip_host_malloc_def hip_host_free_def sync_session_def hip_stream_sync_def
      split: option.split intro: handles_upd_gpu)

lemma host_rest_unpinned: "host_rest m (fst (hip_host_free (sync_session m) p))"
  by (rule host_rest_trans [OF host_rest_calls(3) host_rest_calls(2)])

lemma host_rest_malloc:
  assumes "host_rest m m1" and "hip_host_malloc m1 n = (m2, r)" and "host_rest m2 m'"
  shows "host_rest m m'"
  using host_rest_trans [OF assms(1) host_rest_trans [OF _ assms(3)]] host_rest_calls(1) [of m1 n] assms(2) by simp

lemma get_host_scratch_base_rest: "host_rest m (fst (get_host_scratch_base m n))"
  by (auto simp: get_host_scratch_base_def Let_def split: prod.split option.split
      intro: host_rest_malloc [OF host_rest_unpinned] host_rest_malloc [OF host_rest_refl])

lemma host_rest_grow:
  assumes "host_rest m m1" and "\<And>m2. host_rest m2 (f m2)" and "\<And>m2 p. host_rest m2 (g m2 p)"
  shows "host_rest m (fst (case hip_host_malloc m1 n of (m2, None) \<Rightarrow> (f m2, a) | (m2, Some p) \<Rightarrow> (g m2 p, b)))"
proof -
  obtain m2 r where r: "hip_host_malloc m1 n = (m2, r)"
    by fastforce
  show ?thesis
    using host_rest_malloc [OF assms(1) r] assms(2,3) by (simp add: r split: option.split)
qed

lemma ensure_host_scratch_rest: "host_rest m (fst (ensure_host_scratch k m n))"
proof -
  have free: "host_rest m (set_host k no_scratch (fst (hip_host_free (sync_session m) p)))" for p
    by (rule host_rest_trans [OF host_rest_unpinned host_rest_set])
  show ?thesis
    unfolding ensure_host_scratch_def Let_def
    by (simp add: host_rest_grow [where f = "\<lambda>m. m"] free)
qed

lemma ensure_disk_gather_staging_rest: "host_rest m (fst (ensure_disk_gather_staging m n))"
proof -
  have free: "host_rest m (set_host k no_scratch (fst (hip_host_free m p)))" for p k
    by (rule host_rest_trans [OF host_rest_calls(2) host_rest_set])
  show ?thesis
    unfolding ensure_disk_gather_staging_def Let_def
    by (simp add: host_rest_grow free host_rest_upd_host)
qed

lemma pin_of_Pinned: "pin_of s \<circ> Pinned = host_of s" "inj Pinned"
  by (auto simp: inj_on_def)

lemma session_ok_pinned:
  assumes "session_ok m"
  shows "pinned_ok m"
  using owned_sub [of "pin_of (st m)" "pinned_live m" Pinned] assms pin_of_Pinned
  by (simp add: session_ok_def pinned_ok_def allocator_inv_def)

lemma host_rest_fields:
  assumes "host_rest m m'" and "mc_state m \<noteq> None"
  shows "mc_state m' \<noteq> None" "dev_of (st m') = dev_of (st m)" "raw_ptrs (st m') = raw_ptrs (st m)"
    "rs_loop (st m') = rs_loop (st m)" "session_arena m' = session_arena m"
    "rs_stream (st m') = rs_stream (st m)" "rs_blas (st m') = rs_blas (st m)"
    "rs_op_profile (st m') = rs_op_profile (st m)" "rs_scan_active (st m') = rs_scan_active (st m)"
proof -
  obtain s s' where s: "mc_state m = Some s" "mc_state m' = Some s'"
    "s'\<lparr>rs_host := \<lambda>k. no_scratch\<rparr> = s\<lparr>rs_host := \<lambda>k. no_scratch\<rparr>"
    using assms by (auto simp: host_rest_def)
  have dev: "dev_of (t\<lparr>rs_host := h\<rparr>) = dev_of t" for t h
  proof
    fix x show "dev_of (t\<lparr>rs_host := h\<rparr>) x = dev_of t x"
    proof (cases x)
      case (Buf b) then show ?thesis by (cases b) simp_all
    qed simp_all
  qed
  have raw: "raw_ptrs (t\<lparr>rs_host := h\<rparr>) = raw_ptrs t" "rs_loop (t\<lparr>rs_host := h\<rparr>) = rs_loop t"
    "rs_arena (t\<lparr>rs_host := h\<rparr>) = rs_arena t" "rs_stream (t\<lparr>rs_host := h\<rparr>) = rs_stream t"
    "rs_blas (t\<lparr>rs_host := h\<rparr>) = rs_blas t" "rs_op_profile (t\<lparr>rs_host := h\<rparr>) = rs_op_profile t"
    "rs_scan_active (t\<lparr>rs_host := h\<rparr>) = rs_scan_active t" for t h
    by (simp_all add: raw_ptrs_def)
  have eq: "dev_of s' = dev_of s" "raw_ptrs s' = raw_ptrs s" "rs_loop s' = rs_loop s" "rs_arena s' = rs_arena s"
    "rs_stream s' = rs_stream s" "rs_blas s' = rs_blas s" "rs_op_profile s' = rs_op_profile s"
    "rs_scan_active s' = rs_scan_active s"
    using dev [of "\<lambda>k. no_scratch" s'] dev [of "\<lambda>k. no_scratch" s] raw [of "\<lambda>k. no_scratch" s']
      raw [of "\<lambda>k. no_scratch" s] unfolding s(3) by simp_all
  show "mc_state m' \<noteq> None" "dev_of (st m') = dev_of (st m)" "raw_ptrs (st m') = raw_ptrs (st m)"
    "rs_loop (st m') = rs_loop (st m)" "session_arena m' = session_arena m"
    "rs_stream (st m') = rs_stream (st m)" "rs_blas (st m') = rs_blas (st m)"
    "rs_op_profile (st m') = rs_op_profile (st m)" "rs_scan_active (st m') = rs_scan_active (st m)"
    using s(1,2) eq by (simp_all add: session_arena_def)
qed

text \<open>A step beside the device's ranges: the pinned owners may change theirs.\<close>

lemma keeps_pins:
  assumes ok: "session_ok m" and state: "mc_state m' \<noteq> None"
    and same: "mc_api m' = mc_api m" "g_dev (mc_gpu m') = g_dev (mc_gpu m)" "session_arena m' = session_arena m"
      "dev_of (st m') = dev_of (st m)" "raw_ptrs (st m') = raw_ptrs (st m)"
      "fixed m' = fixed m" "event_strangers m' = event_strangers m"
    and pins: "pinned_inv m'" "owned_ok (pin_of (st m')) (pinned_live m')"
      "unowned (pin_of (st m')) (pinned_live m') = unowned (pin_of (st m)) (pinned_live m)"
  shows "keeps m m'"
proof -
  have A: "allocator_inv m' = allocator_inv m" "session_live m' = session_live m"
    using allocator_same [OF same(1-3)] state session_ok_state [OF ok] by blast+
  show ?thesis
    using ok A outside_same [OF same(2,3)] pins same
    by (simp add: keeps_def session_ok_def dev_strangers_def strangers_def pin_strangers_def unowned_def)
qed

text \<open>A step that touches no range at all.\<close>

lemma keeps_same:
  assumes ok: "session_ok m" and state: "mc_state m' \<noteq> None"
    and same: "mc_api m' = mc_api m" "g_dev (mc_gpu m') = g_dev (mc_gpu m)" "session_arena m' = session_arena m"
      "dev_of (st m') = dev_of (st m)" "raw_ptrs (st m') = raw_ptrs (st m)"
      "fixed m' = fixed m" "event_strangers m' = event_strangers m"
      "g_pin (mc_gpu m') = g_pin (mc_gpu m)" "pin_of (st m') = pin_of (st m)"
  shows "keeps m m'"
proof (rule keeps_pins [OF ok state same(1-7)])
  show "pinned_inv m'" "owned_ok (pin_of (st m')) (pinned_live m')"
    "unowned (pin_of (st m')) (pinned_live m') = unowned (pin_of (st m)) (pinned_live m)"
    using ok pinned_same [OF same(1,8)] same(9) by (simp_all add: session_ok_def)
qed

lemma host_served_keeps:
  assumes ok: "session_ok m" and h: "host_served k n m m' served" and r: "host_rest m m'"
  shows "keeps m m'"
proof -
  note F = host_rest_fields [OF r session_ok_state [OF ok]]
  have same: "mc_api m' = mc_api m" "g_dev (mc_gpu m') = g_dev (mc_gpu m)" "handles m' = handles m"
    using r by (simp_all add: host_rest_def)
  have P: "pinned_inv m'" "owned_ok (host_of (st m')) (pinned_live m')" "pinned_foreign m' = pinned_foreign m"
    using h by (simp_all add: host_served_def pinned_ok_def)
  have keep: "pin_of (st m') o' = pin_of (st m) o'" if "o' \<notin> range Pinned" for o'
    using that F(4) by (cases o') auto
  have own: "owned_ok (pin_of (st m)) (pinned_live m)"
    using ok by (simp add: session_ok_def)
  have E: "owned_ok (pin_of (st m')) (pinned_live m')"
    "unowned (pin_of (st m')) (pinned_live m') = unowned (pin_of (st m)) (pinned_live m)"
    using owned_extend [OF own, where B' = "pin_of (st m')" and e = Pinned and L' = "pinned_live m'"] keep P
    by (simp_all add: pin_of_Pinned pinned_foreign_def)
  have "fixed m' = fixed m" "event_strangers m' = event_strangers m"
    using same(3) F(4,6-9) by (simp_all add: fixed_def event_strangers_def handles_def Let_def)
  then show ?thesis
    by (rule keeps_pins [OF ok F(1) same(1,2) F(5,2,3) _ _ P(1) E])
qed

lemma serve_host_keeps:
  assumes ok: "session_ok m" and n: "host_request_size r < size_limit" and s: "serve_host m r = (m', served)"
  shows "keeps m m'"
proof -
  have "host_rest m m'"
    using s get_host_scratch_base_rest [of m] ensure_host_scratch_rest [of m] ensure_disk_gather_staging_rest [of m]
    by (cases r; simp add: ensure_qmoe_host_scratch_def ensure_qmoe_amd_host_scratch_def split: prod.splits; metis fst_conv)
  then show ?thesis
    by (rule host_served_keeps [OF ok serve_host_served [OF session_ok_pinned [OF ok] n s]])
qed

section \<open>A direct allocation of the session\<close>

text \<open>
  One of the owners that call \<open>hipMalloc\<close> beside the session's allocator gets its range.
\<close>

lemma hip_malloc_ranges:
  assumes inv: "allocator_inv m" and a: "hip_malloc m n = (m1, Some p)" "0 < n"
    and same: "mc_api m' = mc_api m1" "g_dev (mc_gpu m') = g_dev (mc_gpu m1)" "session_arena m' = session_arena m1"
      "mc_state m' \<noteq> None"
  shows "allocator_inv m'" and "p \<noteq> 0" and "(p, l) \<notin> session_live m"
    and "session_live m' = insert (p, n) (session_live m)" and "outside m' = insert (p, n) (outside m)"
    and "raw_live m' = insert (p, n) (raw_live m)"
proof -
  note M = hip_malloc_Some [OF a]
  note I = allocator_invD [OF inv]
  have dev: "g_dev (mc_gpu m') = (p, n) # g_dev (mc_gpu m)" "session_arena m' = session_arena m"
    using same M by simp_all
  have blocks: "blocks_ok ((p, n) # g_dev (mc_gpu m))"
    by (rule hip_malloc_blocks [OF I(1,2) a])
  have fresh: "(p, l) \<notin> set (g_dev (mc_gpu m))" for l
    using blocks_ok_distinct [OF blocks] by force
  have arena: "arena_ok b (g_dev (mc_gpu m')) \<and> (p, l) \<noteq> arena_range b \<and> (p, l) \<notin> set (ta_direct b)"
    if b: "session_arena m = Some b" for b l
  proof -
    note A = arena_okD [OF I(4) [OF b]]
    then show ?thesis
      using fresh [of l] I(4) [OF b] unfolding dev arena_ok_def by auto
  qed
  show inv': "allocator_inv m'"
    using I(1) blocks dev same(1,4) M(2) arena by (simp add: allocator_inv_def split: option.split)
  show "p \<noteq> 0"
    using blocks by (simp add: blocks_ok_def)
  show live: "session_live m' = insert (p, n) (session_live m)" and "outside m' = insert (p, n) (outside m)"
    and "raw_live m' = insert (p, n) (raw_live m)"
    using arena [of _ n] unfolding session_live_def outside_def raw_live_def dev
    by (cases "session_arena m"; force)+
  have "(p, n) \<notin> session_live m"
  proof (cases "session_arena m")
    case None
    then show ?thesis
      using fresh by (simp add: session_live_def)
  next
    case (Some b)
    have "p < ta_base b \<or> ta_base b + ar_size (ta_blocks b) \<le> p"
      using live_outside [OF inv', of b p n] Some dev arena [OF Some, of n] by simp
    then have "(p, n) \<notin> shifted (ta_base b) ` set (ar_live (ta_blocks b))"
      using shifted_in_range(1,2,3) [OF arena_okD(1) [OF I(4) [OF Some]], of "(p, n)"] by (intro notI) simp
    then show ?thesis
      using fresh Some by (simp add: session_live_def)
  qed
  then show "(p, l) \<notin> session_live m"
    using session.live_start_unique [OF inv', of p l n] live by auto
qed

lemma keeps_direct:
  assumes ok: "session_ok m" and a: "hip_malloc m n = (m1, Some p)" "0 < n"
    and same: "mc_api m' = mc_api m1" "g_dev (mc_gpu m') = g_dev (mc_gpu m1)" "session_arena m' = session_arena m1"
      "mc_state m' \<noteq> None" "fixed m' = fixed m" "event_strangers m' = event_strangers m"
      "g_pin (mc_gpu m') = g_pin (mc_gpu m1)" "pin_of (st m') = pin_of (st m)"
    and new: "fst (dev_of (st m) b) = 0" "dev_of (st m') = (dev_of (st m))(b := (p, k))" "k \<le> n"
      "set (raw_ptrs (st m')) \<subseteq> insert p (set (raw_ptrs (st m)))"
  shows "keeps m m'"
proof -
  have inv: "allocator_inv m" and own: "owned_ok (dev_of (st m)) (session_live m)"
    and raw: "\<And>q. q \<in> set (raw_ptrs (st m)) \<Longrightarrow> q = 0 \<or> q \<in> fst ` raw_live m"
    using ok by (auto simp: session_ok_def)
  note R = hip_malloc_ranges [OF inv a same(1-4)]
  note O = owned_acquire [OF own new(1) R(2) new(3) R(3)]
  note M = hip_malloc_Some [OF a]
  have pins: "pinned_inv m' = pinned_inv m" "pinned_live m' = pinned_live m"
    using pinned_same [of m' m] same(1,7) M(2,4) by simp_all
  have own': "owned_ok (dev_of (st m')) (session_live m')"
    and rest: "unowned (dev_of (st m')) (session_live m') = unowned (dev_of (st m)) (session_live m)"
    using O unfolding new(2) R(4) by blast+
  have raw': "\<forall>q \<in> set (raw_ptrs (st m')). q = 0 \<or> q \<in> fst ` raw_live m'"
  proof
    fix q assume "q \<in> set (raw_ptrs (st m'))"
    then consider "q = p" | "q \<in> set (raw_ptrs (st m))"
      using new(4) by blast
    then show "q = 0 \<or> q \<in> fst ` raw_live m'"
      using raw [of q] unfolding R(6) by cases auto
  qed
  have ok': "session_ok m'"
    using ok own' raw' R(1) pins same(8) by (simp add: session_ok_def raw_ptrs_def)
  have "starts (dev_of (st m')) = insert p (starts (dev_of (st m)))"
    unfolding new(2) using new(1) R(2) by (rule starts_acquire)
  moreover have "fst r \<noteq> p" if "r \<in> outside m" for r
    using R(3) [of "snd r"] that outside_live by (cases r) auto
  ultimately have "dev_strangers m' = dev_strangers m"
    unfolding dev_strangers_def R(5) by auto
  then show ?thesis
    using ok' rest pins same(5,6,8) by (simp add: keeps_def strangers_def pin_strangers_def)
qed

end
