(* ===== verification/Loop_Driver.thy ===== *)
theory Loop_Driver
  imports Session_Keeps
begin

text \<open>
  The drivers of ONNX Loop and Scan, from \<open>hipdnn_ep_runtime_loop.cpp\<close>.  A loop body is a
  function compiled from the model: a parameter, which runs on the machine and returns a
  status.  Loops return \<open>None\<close> where the code writes past the end of a buffer.
\<close>

section \<open>The buffers of the loop driver\<close>

text \<open>Bytes of pinned host memory.\<close>

definition write_host :: "nat \<Rightarrow> 8 word list \<Rightarrow> gpu \<Rightarrow> gpu" where
  "write_host a bs g =
     g\<lparr>g_host := \<lambda>x. if a \<le> x \<and> x < a + length bs then bs ! (x - a) else g_host g x\<rparr>"

definition read_host :: "nat \<Rightarrow> nat \<Rightarrow> gpu \<Rightarrow> 8 word list" where
  "read_host a n g = map (\<lambda>i. g_host g (a + i)) [0 ..< n]"

definition upd_loop :: "(loop_buffers \<Rightarrow> loop_buffers) \<Rightarrow> machine \<Rightarrow> machine" where
  "upd_loop f = upd_st (\<lambda>s. s\<lparr>rs_loop := f (rs_loop s)\<rparr>)"

text \<open>Bytes written to an array of \<open>len\<close> bytes at \<open>buf\<close>; \<open>None\<close> if they do not all fall inside it.\<close>

definition write_within :: "nat \<Rightarrow> nat \<Rightarrow> nat \<Rightarrow> 8 word list \<Rightarrow> gpu \<Rightarrow> gpu option" where
  "write_within buf len off bs g = (if off + length bs \<le> len then Some (write_host (buf + off) bs g) else None)"

text \<open>\<open>new_arr[i] = i\<close> for the indices of a list, in its order.\<close>

fun fill_within :: "nat \<Rightarrow> nat \<Rightarrow> nat list \<Rightarrow> gpu \<Rightarrow> gpu option" where
  "fill_within buf len [] g = Some g"
| "fill_within buf len (i # rest) g =
     (case write_within buf len (8 * i) (le_bytes 8 (word_of_nat i :: 64 word)) g of
        None \<Rightarrow> None
      | Some g' \<Rightarrow> fill_within buf len rest g')"

text \<open>The size of the new array is a product of \<open>size_t\<close>, which wraps.\<close>

definition grow_iter_buffer :: "machine \<Rightarrow> nat \<Rightarrow> (machine \<times> int) option" where
  "grow_iter_buffer m new_cap =
     (let l = rs_loop (st m); old_buf = lb_iter_buf l; old_cap = lb_iter_capacity l; len = sz_mul new_cap 8
      in case hip_host_malloc m len of
           (m1, None) \<Rightarrow> Some (m1, -1)
         | (m1, Some new_buf) \<Rightarrow>
             let g1 = mc_gpu m1;
                 copied = (if old_buf \<noteq> 0 \<and> 0 < old_cap
                           then write_within new_buf len 0 (read_host old_buf (8 * old_cap) g1) g1 else Some g1)
             in case Option.bind copied (fill_within new_buf len [old_cap ..< new_cap]) of
                  None \<Rightarrow> None
                | Some g2 \<Rightarrow>
                    let filled = upd_gpu (\<lambda>g. g2) m1;
                        drained = (if old_buf \<noteq> 0 then fst (hip_host_free (fst (hip_stream_sync filled)) old_buf)
                                   else filled)
                    in Some (upd_loop (\<lambda>l. l\<lparr>lb_iter_buf := new_buf, lb_iter_capacity := new_cap\<rparr>) drained, 0))"

definition ensure_iter_dev :: "machine \<Rightarrow> machine \<times> int" where
  "ensure_iter_dev m =
     (if lb_iter_dev (rs_loop (st m)) \<noteq> 0 then (m, 0)
      else case hip_malloc m 8 of
        (m1, None) \<Rightarrow> (upd_loop (\<lambda>l. l\<lparr>lb_iter_dev := 0\<rparr>) m1, -1)
      | (m1, Some p) \<Rightarrow> (upd_loop (\<lambda>l. l\<lparr>lb_iter_dev := p\<rparr>) m1, 0))"

definition ensure_cond :: "machine \<Rightarrow> machine \<times> int" where
  "ensure_cond m =
     (if lb_cond_host (rs_loop (st m)) \<noteq> 0 then (m, 0)
      else case hip_host_malloc m 1 of
        (m1, None) \<Rightarrow> (upd_loop (\<lambda>l. l\<lparr>lb_cond_host := 0\<rparr>) m1, -1)
      | (m1, Some p) \<Rightarrow>
          (case hip_create ''hipHostGetDevicePointer'' (\<lambda>h g. g) m1 of
             (m2, None) \<Rightarrow> (upd_loop (\<lambda>l. l\<lparr>lb_cond_host := 0, lb_cond_dev := 0\<rparr>) (fst (hip_host_free m2 p)), -1)
           | (m2, Some d) \<Rightarrow> (upd_loop (\<lambda>l. l\<lparr>lb_cond_host := p, lb_cond_dev := d\<rparr>) m2, 0)))"

definition event_create :: "machine \<Rightarrow> machine \<times> nat option" where
  "event_create = hip_create ''hipEventCreateWithFlags'' (\<lambda>h g. g\<lparr>g_events := h # g_events g\<rparr>)"

definition ensure_event :: "machine \<Rightarrow> machine \<times> int" where
  "ensure_event m =
     (if lb_event (rs_loop (st m)) \<noteq> 0 then (m, 0)
      else case event_create m of
        (m1, None) \<Rightarrow> (m1, -1)
      | (m1, Some e) \<Rightarrow> (upd_loop (\<lambda>l. l\<lparr>lb_event := e\<rparr>) m1, 0))"

text \<open>Each step runs when the one before it returned 0.\<close>

definition and_then :: "machine \<times> int \<Rightarrow> (machine \<Rightarrow> machine \<times> int) \<Rightarrow> machine \<times> int" where
  "and_then r f = (if snd r \<noteq> 0 then r else f (fst r))"

definition ensure_loop_buffers :: "machine \<Rightarrow> int \<Rightarrow> (machine \<times> int) option" where
  "ensure_loop_buffers m max_trip_count =
     map_option (\<lambda>r. and_then (and_then (and_then r ensure_iter_dev) ensure_cond) ensure_event)
       (if 0 < max_trip_count \<and> nat max_trip_count > lb_iter_capacity (rs_loop (st m))
        then grow_iter_buffer m (nat max_trip_count) else Some (m, 0))"

section \<open>Loops\<close>

text \<open>
  \<open>body iter_dev cond_dev loop_carried_descs capture_descs\<close>; the descriptors are addresses
  the driver only passes on.
\<close>

type_synonym loop_body = "machine \<Rightarrow> nat \<Rightarrow> nat \<Rightarrow> nat \<Rightarrow> nat \<Rightarrow> machine \<times> int"

datatype policy = Counted | Dynamic

definition consults_cond :: "policy \<Rightarrow> bool" where
  "consults_cond p = (p = Dynamic)"

text \<open>The status, and whether to continue when it is 0; \<open>cond_dev\<close> is where the byte is mapped.\<close>

definition check_cond :: "policy \<Rightarrow> machine \<Rightarrow> nat \<Rightarrow> machine \<times> int \<times> bool" where
  "check_cond p m cond_dev =
     (case p of
        Counted \<Rightarrow> (m, 0, True)
      | Dynamic \<Rightarrow>
          (case hip_call ''hipEventRecord'' m of
             (m1, False) \<Rightarrow> (m1, -1, True)
           | (m1, True) \<Rightarrow>
               (case hip_call ''hipEventSynchronize'' m1 of
                  (m2, False) \<Rightarrow> (m2, -1, True)
                | (m2, True) \<Rightarrow> (m2, 0, g_mem (mc_gpu m2) cond_dev \<noteq> 0))))"

text \<open>The loop from iteration \<open>i\<close> on, with \<open>n\<close> iterations left; the locals are the pointers read before it.\<close>

fun loop_from :: "policy \<Rightarrow> (machine \<Rightarrow> nat \<Rightarrow> nat \<Rightarrow> machine \<times> int) \<Rightarrow> loop_buffers \<Rightarrow> nat \<Rightarrow> nat \<Rightarrow> bool \<Rightarrow>
    machine \<Rightarrow> machine \<times> int"
where
  "loop_from p body l i 0 keep_going m = (m, 0)"
| "loop_from p body l i (Suc n) keep_going m =
     (if consults_cond p \<and> \<not> keep_going then (m, 0)
      else case hip_write ''hipMemcpyAsync'' (lb_iter_dev l) (read_host (lb_iter_buf l + 8 * i) 8 (mc_gpu m)) m of
        (m1, False) \<Rightarrow> (m1, -1)
      | (m1, True) \<Rightarrow>
          (let (m2, rc) = body m1 (lb_iter_dev l) (lb_cond_dev l)
           in if rc \<noteq> 0 then (m2, rc)
              else if consults_cond p then
                (let (m3, status, go) = check_cond p m2 (lb_cond_dev l)
                 in if status \<noteq> 0 then (m3, -1) else loop_from p body l (Suc i) n go m3)
              else loop_from p body l (Suc i) n keep_going m2))"

definition run_loop_impl :: "policy \<Rightarrow> machine \<Rightarrow> loop_body option \<Rightarrow> int \<Rightarrow> bool \<Rightarrow> nat \<Rightarrow> nat \<Rightarrow> (machine \<times> int) option" where
  "run_loop_impl p m body_fn max_trip_count cond_init loop_carried captures =
     (case (mc_state m, body_fn) of
        (Some s, Some body) \<Rightarrow>
          if max_trip_count < 0 then Some (m, -1)
          else if \<not> cond_init then Some (m, 0)
          else (case ensure_loop_buffers m max_trip_count of
             None \<Rightarrow> None
           | Some (m1, rc) \<Rightarrow>
               if rc \<noteq> 0 then Some (m1, -1)
               else
                 let l = rs_loop (st m1); m2 = upd_gpu (write_mem (lb_cond_dev l) [1]) m1
                 in Some (loop_from p (\<lambda>m iter cond. body m iter cond loop_carried captures) l 0
                      (nat max_trip_count) True m2))
      | _ \<Rightarrow> Some (m, -1))"

definition run_counted_loop :: "machine \<Rightarrow> loop_body option \<Rightarrow> int \<Rightarrow> bool \<Rightarrow> nat \<Rightarrow> nat \<Rightarrow> (machine \<times> int) option" where
  "run_counted_loop = run_loop_impl Counted"

definition run_loop :: "machine \<Rightarrow> loop_body option \<Rightarrow> int \<Rightarrow> bool \<Rightarrow> nat \<Rightarrow> nat \<Rightarrow> (machine \<times> int) option" where
  "run_loop = run_loop_impl Dynamic"

section \<open>Scans\<close>

text \<open>\<open>body i state_descs scan_input_descs capture_descs scan_output_descs\<close>.\<close>

type_synonym scan_body = "machine \<Rightarrow> int \<Rightarrow> nat \<Rightarrow> nat \<Rightarrow> nat \<Rightarrow> nat \<Rightarrow> machine \<times> int"

fun scan_from :: "(machine \<Rightarrow> int \<Rightarrow> machine \<times> int) \<Rightarrow> int \<Rightarrow> nat \<Rightarrow> machine \<Rightarrow> machine \<times> int" where
  "scan_from body i 0 m = (m, 0)"
| "scan_from body i (Suc n) m =
     (let (m1, rc) = body m i in if rc \<noteq> 0 then (m1, rc) else scan_from body (i + 1) n m1)"

definition enter_scan :: "machine \<Rightarrow> machine" where
  "enter_scan = upd_st (\<lambda>s. s\<lparr>rs_pools := rs_scan_pools s, rs_scan_active := True\<rparr>)"

definition leave_scan :: "block list \<Rightarrow> machine \<Rightarrow> machine" where
  "leave_scan parent =
     upd_st (\<lambda>s. s\<lparr>rs_scan_pools := rs_pools s, rs_pools := parent, rs_scan_active := False\<rparr>)"

definition run_scan :: "machine \<Rightarrow> scan_body option \<Rightarrow> int \<Rightarrow> nat \<Rightarrow> nat \<Rightarrow> nat \<Rightarrow> nat \<Rightarrow> machine \<times> int" where
  "run_scan m body_fn trip_count state_descs inputs captures outputs =
     (case (mc_state m, body_fn) of
        (Some s, Some body) \<Rightarrow>
          if trip_count < 0 then (m, -1)
          else if rs_scan_active s then (m, -1)
          else
            let (m1, result) = scan_from (\<lambda>m i. body m i state_descs inputs captures outputs) 0
                  (nat trip_count) (enter_scan m)
            in (leave_scan (rs_pools s) m1, result)
      | _ \<Rightarrow> (m, -1))"

end
