(* ===== verification/Loop_Correct.thy ===== *)
theory Loop_Correct
  imports Loop_Driver
begin

text \<open>
  What the loop drivers keep of a session, and what their iterations are: the staging array,
  the trace of an iteration sequence, and the pools of a Scan.
\<close>

section \<open>The buffers\<close>

lemma owned_replace:
  assumes ok: "owned_ok B L" and new: "p \<noteq> 0" "n \<le> len" "\<And>l. (p, l) \<notin> L"
    and start: "\<And>l k. (fst (B b), l) \<in> L \<Longrightarrow> (fst (B b), k) \<in> L \<Longrightarrow> l = k"
    and L': "L' = insert (p, len) (if fst (B b) = 0 then L else {r \<in> L. fst r \<noteq> fst (B b)})"
  shows "owned_ok (B(b := (p, n))) L'" and "unowned (B(b := (p, n))) L' = unowned B L"
proof -
  define L1 where "L1 = (if fst (B b) = 0 then L else {r \<in> L. fst r \<noteq> fst (B b)})"
  have "owned_ok (B(b := (0, 0))) L1 \<and> unowned (B(b := (0, 0))) L1 = unowned B L"
  proof (cases "fst (B b) = 0")
    case True
    then have "B(b := (0, 0)) = B"
      using owned_okD(1) [OF ok, of b] by (simp add: backed_def fun_upd_idem_iff prod_eq_iff)
    then show ?thesis
      using True ok by (simp add: L1_def)
  next
    case False
    then obtain len where len: "(fst (B b), len) \<in> L"
      using owned_okD(1) [OF ok, of b] by (auto simp: backed_def)
    have only: "l = len" if "(fst (B b), l) \<in> L" for l
      using that len by (rule start)
    have "{r \<in> L. fst r \<noteq> q} = L - {(q, len)}" if "\<And>l. (q, l) \<in> L \<Longrightarrow> l = len" for q :: nat
    proof (rule set_eqI)
      fix r :: block
      have "(q, snd r) \<in> L \<Longrightarrow> snd r = len"
        by (rule that)
      then show "r \<in> {r \<in> L. fst r \<noteq> q} \<longleftrightarrow> r \<in> L - {(q, len)}"
        by (cases r) auto
    qed
    from this [OF only] have "L1 = L - {(fst (B b), len)}"
      using False by (simp add: L1_def)
    then show ?thesis
      using owned_release [OF ok refl False only] by simp
  qed
  moreover have "(p, l) \<notin> L1" for l
    using new(3) by (simp add: L1_def)
  ultimately have "owned_ok (B(b := (0, 0), b := (p, n))) (insert (p, len) L1)"
    "unowned (B(b := (0, 0), b := (p, n))) (insert (p, len) L1) = unowned B L"
    using owned_acquire [of "B(b := (0, 0))" L1 b p n len] new by simp_all
  then show "owned_ok (B(b := (p, n))) L'" and "unowned (B(b := (p, n))) L' = unowned B L"
    by (simp_all add: L' L1_def)
qed

lemma upd_loop_simps [simp]:
  "mc_api (upd_loop f m) = mc_api m" "mc_gpu (upd_loop f m) = mc_gpu m"
  "mc_state (upd_loop f m) = map_option (\<lambda>s. s\<lparr>rs_loop := f (rs_loop s)\<rparr>) (mc_state m)"
  by (simp_all add: upd_loop_def)

lemma session_arena_loop [simp]: "session_arena (upd_loop f m) = session_arena m"
  by (simp add: session_arena_def split: option.split)

lemma write_host_simps [simp]:
  "g_dev (write_host a bs g) = g_dev g" "g_pin (write_host a bs g) = g_pin g" "g_streams (write_host a bs g) = g_streams g"
  "g_blas (write_host a bs g) = g_blas g" "g_events (write_host a bs g) = g_events g"
  "g_profiles (write_host a bs g) = g_profiles g" "g_mem (write_host a bs g) = g_mem g" "g_trace (write_host a bs g) = g_trace g"
  by (simp_all add: write_host_def)

lemma read_host_length [simp]: "length (read_host a n g) = n"
  by (simp add: read_host_def)

text \<open>The indices stored one after the other, without regard to the array's end.\<close>

definition store_iter :: "nat \<Rightarrow> nat \<Rightarrow> gpu \<Rightarrow> gpu" where
  "store_iter arr i = write_host (arr + 8 * i) (le_bytes 8 (word_of_nat i :: 64 word))"

definition fill_iter :: "nat \<Rightarrow> nat \<Rightarrow> nat \<Rightarrow> gpu \<Rightarrow> gpu" where
  "fill_iter arr old_cap new_cap g = foldl (\<lambda>g i. store_iter arr i g) g [old_cap ..< new_cap]"

lemma fill_within_append:
  "fill_within buf len (xs @ ys) g = Option.bind (fill_within buf len xs g) (fill_within buf len ys)"
  by (induction xs arbitrary: g) (simp_all split: option.split)

text \<open>The indices are stored exactly if the array holds the last one.\<close>

lemma fill_within_eq:
  assumes "c \<le> n"
  shows "fill_within buf len [c ..< n] g = (if c < n \<and> len < 8 * n then None else Some (fill_iter buf c n g))"
  using assms
proof (induction n rule: dec_induct)
  case (step n)
  then show ?case
    by (auto simp: fill_within_append write_within_def fill_iter_def store_iter_def)
qed (simp add: fill_iter_def)

lemma grow_iter_buffer_eq:
  assumes "lb_iter_capacity (rs_loop (st m)) < n"
  shows "grow_iter_buffer m n =
    (let l = rs_loop (st m); old_buf = lb_iter_buf l; old_cap = lb_iter_capacity l
     in case hip_host_malloc m (sz_mul n 8) of
          (m1, None) \<Rightarrow> Some (m1, -1)
        | (m1, Some new_buf) \<Rightarrow>
            if sz_mul n 8 < n * 8 then None
            else
              let copied = (if old_buf \<noteq> 0 \<and> 0 < old_cap
                            then upd_gpu (\<lambda>g. write_host new_buf (read_host old_buf (8 * old_cap) g) g) m1 else m1);
                  filled = upd_gpu (fill_iter new_buf old_cap n) copied;
                  drained = (if old_buf \<noteq> 0 then fst (hip_host_free (fst (hip_stream_sync filled)) old_buf)
                             else filled)
              in Some (upd_loop (\<lambda>l. l\<lparr>lb_iter_buf := new_buf, lb_iter_capacity := n\<rparr>) drained, 0))"
proof -
  let ?l = "rs_loop (st m)"
  have F: "fill_within p len [lb_iter_capacity ?l ..< n] g =
      (if len < n * 8 then None else Some (fill_iter p (lb_iter_capacity ?l) n g))" for p len g
    using assms by (simp add: fill_within_eq mult.commute)
  show ?thesis
    using assms
    by (auto simp: grow_iter_buffer_def Let_def F write_within_def upd_gpu_def split: option.split prod.split)
qed

lemma fill_iter_simps [simp]:
  "g_dev (fill_iter a i n g) = g_dev g" "g_pin (fill_iter a i n g) = g_pin g" "g_streams (fill_iter a i n g) = g_streams g"
  "g_blas (fill_iter a i n g) = g_blas g" "g_events (fill_iter a i n g) = g_events g"
  "g_profiles (fill_iter a i n g) = g_profiles g" "g_mem (fill_iter a i n g) = g_mem g"
  "g_trace (fill_iter a i n g) = g_trace g"
  by (induction n arbitrary: g) (auto simp: fill_iter_def store_iter_def not_le)

text \<open>The session's fields when only the loop's buffers change.\<close>

lemma dev_of_loop:
  "lb_iter_dev l = lb_iter_dev (rs_loop s) \<Longrightarrow> dev_of (s\<lparr>rs_loop := l\<rparr>) = dev_of s"
proof
  fix x assume "lb_iter_dev l = lb_iter_dev (rs_loop s)"
  then show "dev_of (s\<lparr>rs_loop := l\<rparr>) x = dev_of s x"
  proof (cases x)
    case (Buf b) then show ?thesis by (cases b) simp_all
  qed simp_all
qed

lemma pin_of_loop:
  "pin_of (s\<lparr>rs_loop := l\<rparr>) = (pin_of s)
     (Iter_buf := (lb_iter_buf l, 8 * lb_iter_capacity l),
      Cond_host := (lb_cond_host l, if lb_cond_host l = 0 then 0 else 1))"
proof
  fix x show "pin_of (s\<lparr>rs_loop := l\<rparr>) x = ((pin_of s)
     (Iter_buf := (lb_iter_buf l, 8 * lb_iter_capacity l),
      Cond_host := (lb_cond_host l, if lb_cond_host l = 0 then 0 else 1))) x"
    by (cases x) (simp_all add: host_of_def)
qed

lemma fixed_loop [simp]: "fixed (upd_loop f m) = fixed m" if "mc_state m \<noteq> None"
  using that by (auto simp: fixed_def)

lemma events_loop [simp]:
  "lb_event (f (rs_loop (st m))) = lb_event (rs_loop (st m)) \<Longrightarrow> mc_state m \<noteq> None \<Longrightarrow>
   event_strangers (upd_loop f m) = event_strangers m"
  by (auto simp: event_strangers_def Let_def)

lemma raw_ptrs_loop:
  "raw_ptrs (s\<lparr>rs_loop := l\<rparr>) = [rs_blob s, rs_error_flag s, lb_iter_dev l]"
  by (simp add: raw_ptrs_def)

text \<open>Machines with the same device, up to memory and the trace.\<close>

definition same_device :: "machine \<Rightarrow> machine \<Rightarrow> bool" where
  "same_device m m' \<longleftrightarrow> mc_api m' = mc_api m \<and> g_dev (mc_gpu m') = g_dev (mc_gpu m) \<and>
     mc_state m' = mc_state m \<and> g_streams (mc_gpu m') = g_streams (mc_gpu m) \<and> g_blas (mc_gpu m') = g_blas (mc_gpu m) \<and>
     g_profiles (mc_gpu m') = g_profiles (mc_gpu m) \<and> g_events (mc_gpu m') = g_events (mc_gpu m)"

lemma same_device_refl [simp]: "same_device m m"
  by (simp add: same_device_def)

lemma same_device_trans: "same_device a b \<Longrightarrow> same_device b c \<Longrightarrow> same_device a c"
  by (simp add: same_device_def)

lemma same_device_calls [simp]:
  "same_device m (fst (hip_host_malloc m n))" "same_device m (fst (hip_host_free m p))"
  "same_device m (fst (hip_stream_sync m))" "same_device m (upd_gpu (fill_iter a i k) m)"
  "same_device m (upd_gpu (\<lambda>g. write_host a (bs g) g) m)"
  by (auto simp: same_device_def hip_host_malloc_def hip_host_free_def hip_stream_sync_def split: option.split)

lemma same_deviceD:
  assumes "same_device m m'"
  shows "fixed m' = fixed m" "event_strangers m' = event_strangers m" "session_arena m' = session_arena m"
  using assms by (simp_all add: same_device_def fixed_def event_strangers_def session_arena_def Let_def)

text \<open>A pinned allocation replaces the range of one pinned owner.\<close>

lemma keeps_pinned_step:
  assumes ok: "session_ok m" and a: "hip_host_malloc m n = (m1, Some p)" and n: "0 < n" "n < size_limit" "k \<le> n"
    and rest: "same_device m m2" and pins: "pinned_inv m2"
      "pinned_live m2 = insert (p, n)
         (if fst (pin_of (st m) b) = 0 then pinned_live m else {r \<in> pinned_live m. fst r \<noteq> fst (pin_of (st m) b)})"
    and l: "lb_iter_dev (f (rs_loop (st m))) = lb_iter_dev (rs_loop (st m))"
      "lb_event (f (rs_loop (st m))) = lb_event (rs_loop (st m))"
      "p \<noteq> 0 \<Longrightarrow> pin_of ((st m)\<lparr>rs_loop := f (rs_loop (st m))\<rparr>) = (pin_of (st m))(b := (p, k))"
  shows "keeps m (upd_loop f m2)"
proof -
  let ?m' = "upd_loop f m2"
  have nonnull: "mc_state m \<noteq> None"
    by (rule session_ok_state [OF ok])
  have same: "mc_api m2 = mc_api m" "g_dev (mc_gpu m2) = g_dev (mc_gpu m)" "mc_state m2 = mc_state m"
    using rest by (simp_all add: same_device_def)
  note D = same_deviceD [OF rest]
  have st': "st ?m' = (st m)\<lparr>rs_loop := f (rs_loop (st m))\<rparr>" "mc_state ?m' \<noteq> None"
    using nonnull same by auto
  have inv: "pinned_inv m" and own: "owned_ok (pin_of (st m)) (pinned_live m)"
    using ok by (simp_all add: session_ok_def)
  have p: "p \<noteq> 0"
    using pinned.owned_alloc(2) [of m "\<lambda>b::unit. (0, 0)" "()" n m1 p] inv a n(1,2)
    by (simp add: owned_ok_def backed_def)
  obtain "(p, n) \<notin> pinned_live m" "pinned_live m1 = insert (p, n) (pinned_live m)" "pinned_inv m1"
    using hip_host_malloc_laws [OF inv n(1)] a by force
  then have fresh: "(p, l) \<notin> pinned_live m" for l
    using pinned.live_start_unique [of m1 p l n] by auto
  have "l = l'" if "(fst (pin_of (st m) b), l) \<in> pinned_live m" "(fst (pin_of (st m) b), l') \<in> pinned_live m" for l l'
    using pinned.live_start_unique [OF inv that] .
  note O = owned_replace [OF own p n(3) fresh this pins(2)]
  have gpu: "mc_gpu ?m' = mc_gpu m2"
    by simp
  have live: "pinned_live ?m' = pinned_live m2" "pinned_inv ?m' = pinned_inv m2"
    using pinned_same [of ?m' m2] by simp_all
  show ?thesis
  proof (rule keeps_pins [OF ok st'(2)])
    show "mc_api ?m' = mc_api m" "g_dev (mc_gpu ?m') = g_dev (mc_gpu m)" "session_arena ?m' = session_arena m"
      using same D by simp_all
    show "dev_of (st ?m') = dev_of (st m)" "raw_ptrs (st ?m') = raw_ptrs (st m)"
      unfolding st' using l(1) by (simp_all add: dev_of_loop raw_ptrs_def)
    show "fixed ?m' = fixed m" "event_strangers ?m' = event_strangers m"
      using D same nonnull l(2) by simp_all
    show "pinned_inv ?m'" "owned_ok (pin_of (st ?m')) (pinned_live ?m')"
      "unowned (pin_of (st ?m')) (pinned_live ?m') = unowned (pin_of (st m)) (pinned_live m)"
      unfolding st'(1) live l(3) [OF p] using pins(1) O by simp_all
  qed
qed

lemma same_device_upd:
  "(\<And>g. g_dev (f g) = g_dev g \<and> g_streams (f g) = g_streams g \<and> g_blas (f g) = g_blas g \<and>
     g_profiles (f g) = g_profiles g \<and> g_events (f g) = g_events g) \<Longrightarrow> same_device m (upd_gpu f m)"
  by (simp add: same_device_def)

lemma keeps_same_device:
  assumes ok: "session_ok m" and r: "same_device m m'" and pin: "g_pin (mc_gpu m') = g_pin (mc_gpu m)"
  shows "keeps m m'"
  using keeps_same [OF ok, of m'] session_ok_state [OF ok] same_deviceD [OF r] r pin by (simp add: same_device_def)

lemma pinned_after_free:
  "pinned_inv m \<Longrightarrow> q \<in> fst ` pinned_live m \<Longrightarrow>
   pinned_live (fst (hip_host_free m q)) = {r \<in> pinned_live m. fst r \<noteq> q} \<and> pinned_inv (fst (hip_host_free m q))"
proof -
  assume inv: "pinned_inv m" and q: "q \<in> fst ` pinned_live m"
  then obtain len where len: "(q, len) \<in> pinned_live m"
    by auto
  have "q \<noteq> 0"
    using pinned.live_nonnull [OF inv len] by simp
  then have "pinned_live (fst (hip_host_free m q)) = {r \<in> pinned_live m. fst r \<noteq> q}"
    using q by (auto simp: hip_host_free_def pinned_live_def)
  then show ?thesis
    using hip_host_free_laws(1) [OF inv len] by simp
qed

lemma grow_iter_buffer_keeps:
  assumes ok: "session_ok m" and n: "lb_iter_capacity (rs_loop (st m)) < n" "n < size_limit"
    and g: "grow_iter_buffer m n = Some (m', rc)"
  shows "keeps m m'"
proof -
  let ?old = "lb_iter_buf (rs_loop (st m))" and ?cap = "lb_iter_capacity (rs_loop (st m))"
  obtain m1 r where a: "hip_host_malloc m (sz_mul n 8) = (m1, r)"
    by fastforce
  have m1: "same_device m m1"
    using same_device_calls(1) [of m "sz_mul n 8"] a by simp
  have inv: "pinned_inv m"
    using ok by (simp add: session_ok_def)
  show ?thesis
  proof (cases r)
    case None
    then have "m' = m1" "g_pin (mc_gpu m1) = g_pin (mc_gpu m)"
      using g a by (auto simp: grow_iter_buffer_eq [OF n(1)] hip_host_malloc_def split: option.splits if_splits)
    then show ?thesis
      using keeps_same_device [OF ok m1] by simp
  next
    case (Some p)
    define m2 where "m2 = (if ?old \<noteq> 0 \<and> 0 < ?cap
      then upd_gpu (\<lambda>g. write_host p (read_host ?old (8 * ?cap) g) g) m1 else m1)"
    define m3 where "m3 = upd_gpu (fill_iter p ?cap n) m2"
    define m4 where "m4 = (if ?old \<noteq> 0 then fst (hip_host_free (fst (hip_stream_sync m3)) ?old) else m3)"
    have fits: "\<not> sz_mul n 8 < n * 8" and m': "m' = upd_loop (\<lambda>l. l\<lparr>lb_iter_buf := p, lb_iter_capacity := n\<rparr>) m4"
      using g a Some by (auto simp: grow_iter_buffer_eq [OF n(1)] Let_def m2_def m3_def m4_def split: if_splits)
    have size: "sz_mul n 8 = 8 * n" "8 * n < size_limit"
      using fits mod_less_eq_dividend [of "n * 8" size_limit] mod_less_divisor [of size_limit "n * 8"]
      by (auto simp: sz_mul_def)
    have "same_device m m2"
      using m1 same_device_trans [OF m1 same_device_calls(5)] by (auto simp: m2_def)
    from same_device_trans [OF this same_device_calls(4)] have m3: "same_device m m3"
      by (simp add: m3_def)
    have m4: "same_device m m4"
      using m3 same_device_trans [OF same_device_trans [OF m3 same_device_calls(3)] same_device_calls(2)]
      by (simp add: m4_def)
    obtain L: "(p, 8 * n) \<notin> pinned_live m" "pinned_live m1 = insert (p, 8 * n) (pinned_live m)" "pinned_inv m1"
      using hip_host_malloc_laws [OF inv, of "8 * n"] a Some n(1) size by force
    have s: "g_pin (mc_gpu (fst (hip_stream_sync m3))) = g_pin (mc_gpu m1)" "mc_api (fst (hip_stream_sync m3)) = mc_api m1"
      "g_pin (mc_gpu m3) = g_pin (mc_gpu m1)" "mc_api m3 = mc_api m1"
      by (simp_all add: hip_stream_sync_def m3_def m2_def)
    note P = pinned_same [OF s(2,1)] pinned_same [OF s(4,3)]
    have old: "?old = 0 \<or> ?old \<in> fst ` pinned_live m"
      using ok owned_okD(1) [of "pin_of (st m)" "pinned_live m" Iter_buf]
      by (force simp: session_ok_def backed_def split: if_splits)
    have ne: "?old \<noteq> p" if "?old \<noteq> 0"
      using pinned.live_start_unique [OF L(3), of p "8 * n"] old that L(1,2) by (metis (no_types) imageE insertCI prod.collapse)
    have pins: "pinned_inv m4 \<and> pinned_live m4 = insert (p, 8 * n)
       (if fst (pin_of (st m) Iter_buf) = 0 then pinned_live m else {r \<in> pinned_live m. fst r \<noteq> fst (pin_of (st m) Iter_buf)})"
    proof (cases "?old = 0")
      case False
      then have "pinned_live m4 = {r \<in> pinned_live m1. fst r \<noteq> ?old} \<and> pinned_inv m4"
        using pinned_after_free [of "fst (hip_stream_sync m3)" ?old] old L by (auto simp: m4_def P)
      then show ?thesis
        using False ne L(2) by auto
    qed (use L P in \<open>simp add: m4_def\<close>)
    show ?thesis
      unfolding m'
    proof (rule keeps_pinned_step [OF ok _ _ _ _ m4, where n = "8 * n" and p = p and k = "8 * n" and b = Iter_buf])
      show "hip_host_malloc m (8 * n) = (m1, Some p)"
        using a Some size by simp
      show "pin_of ((st m)\<lparr>rs_loop := (rs_loop (st m))\<lparr>lb_iter_buf := p, lb_iter_capacity := n\<rparr>\<rparr>) =
          (pin_of (st m))(Iter_buf := (p, 8 * n))"
        by (simp add: pin_of_loop fun_eq_iff)
    qed (use pins n size in simp_all)
  qed
qed

lemma ensure_iter_dev_keeps:
  assumes ok: "session_ok m" and e: "ensure_iter_dev m = (m', rc)"
  shows "keeps m m'" and "rc = 0 \<Longrightarrow> lb_iter_dev (rs_loop (st m')) \<noteq> 0"
proof -
  have nonnull: "mc_state m \<noteq> None"
    by (rule session_ok_state [OF ok])
  have "keeps m m' \<and> (rc = 0 \<longrightarrow> lb_iter_dev (rs_loop (st m')) \<noteq> 0)"
  proof (cases "lb_iter_dev (rs_loop (st m)) = 0")
    case False
    then show ?thesis
      using e keeps_refl [OF ok] by (auto simp: ensure_iter_dev_def)
  next
    case True
    obtain m1 r where a: "hip_malloc m 8 = (m1, r)"
      by fastforce
    have st1: "mc_state m1 = mc_state m" "g_pin (mc_gpu m1) = g_pin (mc_gpu m)" "g_streams (mc_gpu m1) = g_streams (mc_gpu m)"
      "g_blas (mc_gpu m1) = g_blas (mc_gpu m)" "g_profiles (mc_gpu m1) = g_profiles (mc_gpu m)"
      "g_events (mc_gpu m1) = g_events (mc_gpu m)"
      using a by (auto simp: hip_malloc_def split: option.splits)
    have same: "fixed (upd_loop f m1) = fixed m" for f
      using st1 nonnull by (simp add: fixed_def) auto
    show ?thesis
    proof (cases r)
      case None
      have m': "m' = upd_loop (\<lambda>l. l\<lparr>lb_iter_dev := 0\<rparr>) m1" "rc = -1"
        using e a None True by (simp_all add: ensure_iter_dev_def)
      have M: "g_dev (mc_gpu m1) = g_dev (mc_gpu m)" "mc_api m1 = mc_api m" "session_arena m1 = session_arena m"
        using a None by (auto dest: hip_malloc_None)
      have st': "st m' = st m"
        using m' st1(1) nonnull True by auto
      have "keeps m m'"
      proof (rule keeps_same [OF ok])
        show "fixed m' = fixed m" "event_strangers m' = event_strangers m"
          using m' same st1 st' by (simp_all add: event_strangers_def Let_def)
      qed (use m' M st1 st' nonnull in simp_all)
      then show ?thesis
        using m'(2) by simp
    next
      case (Some p)
      have m': "m' = upd_loop (\<lambda>l. l\<lparr>lb_iter_dev := p\<rparr>) m1" "rc = 0"
        using e a Some True by (simp_all add: ensure_iter_dev_def)
      have st': "st m' = (st m)\<lparr>rs_loop := (rs_loop (st m))\<lparr>lb_iter_dev := p\<rparr>\<rparr>" "mc_state m' \<noteq> None"
        using m' st1(1) nonnull by auto
      have a': "hip_malloc m 8 = (m1, Some p)"
        using a Some by simp
      have p: "p \<noteq> 0"
        using hip_malloc_ranges(2) [of m 8 m1 p m1] a' ok st1(1) nonnull by (simp add: session_ok_def)
      have "dev_of (st m') x = ((dev_of (st m))(Iter_dev := (p, 8))) x" for x
      proof (cases x)
        case (Buf b)
        then show ?thesis
          using st' by (cases b) simp_all
      qed (use st' p in simp_all)
      then have dev: "dev_of (st m') = (dev_of (st m))(Iter_dev := (p, 8))"
        by blast
      have "keeps m m'"
      proof (rule keeps_direct [OF ok a'])
        show "fixed m' = fixed m" "event_strangers m' = event_strangers m"
          using m' same st1 st' by (simp_all add: event_strangers_def Let_def)
        show "pin_of (st m') = pin_of (st m)"
        proof
          fix x show "pin_of (st m') x = pin_of (st m) x"
            using st' by (cases x) (simp_all add: host_of_def)
        qed
      qed (use m' st' True dev in \<open>auto simp: raw_ptrs_def\<close>)
      then show ?thesis
        using m'(2) st' p by simp
    qed
  qed
  then show "keeps m m'" and "rc = 0 \<Longrightarrow> lb_iter_dev (rs_loop (st m')) \<noteq> 0"
    by blast+
qed

lemma ensure_cond_keeps:
  assumes ok: "session_ok m" and e: "ensure_cond m = (m', rc)"
  shows "keeps m m'"
proof (cases "lb_cond_host (rs_loop (st m)) = 0")
  case False
  then show ?thesis
    using e keeps_refl [OF ok] by (auto simp: ensure_cond_def)
next
  case True
  have nonnull: "mc_state m \<noteq> None" and inv: "pinned_inv m"
    using session_ok_state [OF ok] ok by (simp_all add: session_ok_def)
  obtain m1 r where a: "hip_host_malloc m 1 = (m1, r)"
    by fastforce
  have m1: "same_device m m1"
    using same_device_calls(1) [of m 1] unfolding a by simp
  have loop: "keeps m (upd_loop f x)" if "same_device m x" "pinned_live x = pinned_live m"
    "pin_of ((st m)\<lparr>rs_loop := f (rs_loop (st m))\<rparr>) = pin_of (st m)"
    "lb_iter_dev (f (rs_loop (st m))) = lb_iter_dev (rs_loop (st m))"
    "lb_event (f (rs_loop (st m))) = lb_event (rs_loop (st m))" "pinned_inv x" for f x
  proof -
    note D = same_deviceD [OF that(1)]
    have x: "mc_state x = mc_state m" "mc_state (upd_loop f x) \<noteq> None"
      "st (upd_loop f x) = (st m)\<lparr>rs_loop := f (rs_loop (st m))\<rparr>"
      using that(1) nonnull by (auto simp: same_device_def)
    have P: "pinned_live (upd_loop f x) = pinned_live m" "pinned_inv (upd_loop f x)"
      using that(2,6) pinned_same [of "upd_loop f x" x] by simp_all
    show ?thesis
    proof (rule keeps_pins [OF ok x(2)])
      show "owned_ok (pin_of (st (upd_loop f x))) (pinned_live (upd_loop f x))"
        using ok unfolding x(3) that(3) P(1) by (simp add: session_ok_def)
    qed (use that D x P nonnull in \<open>simp_all add: same_device_def dev_of_loop raw_ptrs_def\<close>)
  qed
  show ?thesis
  proof (cases r)
    case None
    have "pinned_live m1 = pinned_live m" "pinned_inv m1"
      using hip_host_malloc_laws [OF inv, of 1] a None by auto
    then have "keeps m (upd_loop (\<lambda>l. l\<lparr>lb_cond_host := 0\<rparr>) m1)"
      using m1 True by (intro loop) (simp_all add: pin_of_loop fun_eq_iff)
    then show ?thesis
      using e a None True by (simp add: ensure_cond_def)
  next
    case (Some p)
    obtain m2 d where c: "hip_create ''hipHostGetDevicePointer'' (\<lambda>h g. g) m1 = (m2, d)"
      by fastforce
    then have m2: "same_device m1 m2" "g_pin (mc_gpu m2) = g_pin (mc_gpu m1)" "mc_api m2 = mc_api m1"
      by (auto simp: hip_create_def same_device_def split: option.splits)
    note P2 = pinned_same [OF m2(3,2)]
    have L: "(p, 1) \<notin> pinned_live m" "pinned_live m1 = insert (p, 1) (pinned_live m)" "pinned_inv m1"
      using hip_host_malloc_laws [OF inv, of 1] a Some by auto
    have p: "p \<noteq> 0"
      using pinned.live_nonnull [OF L(3), of "(p, 1)"] L(2) by simp
    show ?thesis
    proof (cases d)
      case None
      have "pinned_live (fst (hip_host_free m2 p)) = pinned_live m" "pinned_inv (fst (hip_host_free m2 p))"
        using hip_host_free_laws [of m2 p 1] P2 L by auto
      then have "keeps m (upd_loop (\<lambda>l. l\<lparr>lb_cond_host := 0, lb_cond_dev := 0\<rparr>) (fst (hip_host_free m2 p)))"
        using same_device_trans [OF same_device_trans [OF m1 m2(1)] same_device_calls(2)] True
        by (intro loop) (simp_all add: pin_of_loop fun_eq_iff)
      then show ?thesis
        using e a c None Some True by (simp add: ensure_cond_def)
    next
      case (Some q)
      have "keeps m (upd_loop (\<lambda>l. l\<lparr>lb_cond_host := p, lb_cond_dev := q\<rparr>) m2)"
      proof (rule keeps_pinned_step [OF ok _ _ _ _ same_device_trans [OF m1 m2(1)], where n = 1 and p = p and k = 1 and b = Cond_host])
        show "hip_host_malloc m 1 = (m1, Some p)"
          using a \<open>r = Some p\<close> by simp
      qed (use P2 L p True in \<open>simp_all add: pin_of_loop fun_eq_iff\<close>)
      then show ?thesis
        using e a c Some \<open>r = Some p\<close> True by (simp add: ensure_cond_def)
    qed
  qed
qed

lemma ensure_event_keeps:
  assumes ok: "session_ok m" and e: "ensure_event m = (m', rc)"
  shows "keeps m m'"
proof (cases "lb_event (rs_loop (st m)) = 0")
  case False
  then show ?thesis
    using e keeps_refl [OF ok] by (auto simp: ensure_event_def)
next
  case True
  have nonnull: "mc_state m \<noteq> None"
    by (rule session_ok_state [OF ok])
  obtain m1 r where c: "event_create m = (m1, r)"
    by fastforce
  have m1: "g_dev (mc_gpu m1) = g_dev (mc_gpu m)" "g_pin (mc_gpu m1) = g_pin (mc_gpu m)" "mc_api m1 = mc_api m"
    "mc_state m1 = mc_state m" "fixed m1 = fixed m" "session_arena m1 = session_arena m"
    "g_events (mc_gpu m1) = (case r of None \<Rightarrow> [] | Some h \<Rightarrow> [h]) @ g_events (mc_gpu m)"
    using c by (auto simp: event_create_def hip_create_def fixed_def session_arena_def split: option.splits)
  show ?thesis
  proof (cases r)
    case None
    then have "m' = m1"
      using e c True by (simp add: ensure_event_def)
    then show ?thesis
      using m1 None nonnull by (intro keeps_same [OF ok]) (simp_all add: event_strangers_def)
  next
    case (Some h)
    then have m': "m' = upd_loop (\<lambda>l. l\<lparr>lb_event := h\<rparr>) m1"
      using e c True by (simp add: ensure_event_def)
    have st': "mc_state m' \<noteq> None" "st m' = (st m)\<lparr>rs_loop := (rs_loop (st m))\<lparr>lb_event := h\<rparr>\<rparr>"
      using nonnull m1(4) by (auto simp: m')
    have pin: "pin_of (st m') = pin_of (st m)"
      unfolding st'(2) by (simp add: pin_of_loop fun_eq_iff)
    have "api_create (mc_api m) (mc_gpu m) ''hipEventCreateWithFlags'' = Some h"
      using c Some by (auto simp: event_create_def hip_create_def split: option.splits)
    moreover have "\<forall>g. api_create (mc_api m) g ''hipEventCreateWithFlags'' \<noteq> Some 0"
      using ok by (simp add: session_ok_def allocator_inv_def hip_ok_def handle_calls_def)
    ultimately have "h \<noteq> 0"
      by metis
    then have ev: "event_strangers m' = event_strangers m"
      using m1 Some True st' by (simp add: event_strangers_def m')
    show ?thesis
    proof (rule keeps_same [OF ok st'(1) _ _ _ _ _ _ ev _ pin])
      show "dev_of (st m') = dev_of (st m)" "raw_ptrs (st m') = raw_ptrs (st m)"
        unfolding st'(2) by (simp_all add: dev_of_loop raw_ptrs_def)
      have gpu: "mc_gpu m' = mc_gpu m1"
        by (simp add: m')
      show "fixed m' = fixed m"
        using m1(4,5) unfolding fixed_def gpu st'(2) by simp
    qed (use m1 in \<open>simp_all add: m'\<close>)
  qed
qed

lemma ensure_loop_buffers_keeps:
  assumes ok: "session_ok m" and n: "k < int size_limit" and e: "ensure_loop_buffers m k = Some (m', rc)"
  shows "keeps m m'"
proof -
  have step: "keeps m (fst (and_then r f))" if "keeps m (fst r)" "\<And>y. session_ok y \<Longrightarrow> keeps y (fst (f y))" for r f
    using keeps_trans [OF that(1) that(2) [OF keeps_ok [OF that(1)]]] that(1) by (simp add: and_then_def)
  have K: "keeps y (fst (ensure_iter_dev y))" "keeps y (fst (ensure_cond y))" "keeps y (fst (ensure_event y))"
    if "session_ok y" for y
    using ensure_iter_dev_keeps(1) [OF that] ensure_cond_keeps [OF that] ensure_event_keeps [OF that]
    by (metis prod.collapse)+
  obtain m1 rc1 where 1: "(if 0 < k \<and> nat k > lb_iter_capacity (rs_loop (st m))
        then grow_iter_buffer m (nat k) else Some (m, 0)) = Some (m1, rc1)"
    and m': "(m', rc) = and_then (and_then (and_then (m1, rc1) ensure_iter_dev) ensure_cond) ensure_event"
    using e by (auto simp: ensure_loop_buffers_def split: if_splits)
  have "keeps m m1"
    using 1 grow_iter_buffer_keeps [OF ok, of "nat k" m1 rc1] n keeps_refl [OF ok] by (auto split: if_splits)
  then have "keeps m (fst (and_then (and_then (and_then (m1, rc1) ensure_iter_dev) ensure_cond) ensure_event))"
    by (intro step K) simp_all
  then show ?thesis
    using m' by (metis fst_conv)
qed

section \<open>Loops and Scans keep the session\<close>

text \<open>What the drivers ask of a body: every call keeps the session's other ranges and handles.\<close>

definition body_keeps :: "(machine \<Rightarrow> machine \<times> int) \<Rightarrow> bool" where
  "body_keeps f \<longleftrightarrow> (\<forall>m. session_ok m \<longrightarrow> keeps m (fst (f m)))"

lemma hip_write_keeps: "session_ok m \<Longrightarrow> keeps m (fst (hip_write name a bs m))"
  by (rule keeps_same_device) (auto simp: hip_write_def same_device_def write_mem_def)

lemma hip_call_keeps: "session_ok m \<Longrightarrow> keeps m (fst (hip_call name m))"
  by (rule keeps_same_device) (auto simp: hip_call_def same_device_def)

lemma check_cond_keeps: "session_ok m \<Longrightarrow> keeps m (fst (check_cond p m c))"
proof -
  assume ok: "session_ok m"
  obtain m1 b1 where 1: "hip_call ''hipEventRecord'' m = (m1, b1)"
    by fastforce
  obtain m2 b2 where 2: "hip_call ''hipEventSynchronize'' m1 = (m2, b2)"
    by fastforce
  have k1: "keeps m m1"
    using hip_call_keeps [OF ok] 1 by (metis fst_conv)
  have "keeps m1 m2"
    using hip_call_keeps [OF keeps_ok [OF k1]] 2 by (metis fst_conv)
  with k1 have "keeps m m2"
    by (rule keeps_trans)
  then show ?thesis
    using k1 keeps_refl [OF ok] by (cases p; cases b1; cases b2) (simp_all add: check_cond_def 1 2)
qed

lemma loop_from_keeps:
  assumes "\<And>a b. body_keeps (\<lambda>m. body m a b)" and "session_ok m"
  shows "keeps m (fst (loop_from p body l i n go m))"
  using assms(2)
proof (induction n arbitrary: m i go)
  case (Suc n)
  obtain m1 ok1 where 1: "hip_write ''hipMemcpyAsync'' (lb_iter_dev l) (read_host (lb_iter_buf l + 8 * i) 8 (mc_gpu m)) m = (m1, ok1)"
    by fastforce
  have k1: "keeps m m1"
    using hip_write_keeps [OF Suc.prems] 1 by (metis fst_conv)
  obtain m2 rc where 2: "body m1 (lb_iter_dev l) (lb_cond_dev l) = (m2, rc)"
    by fastforce
  have "keeps m1 m2"
    using assms(1) [of "lb_iter_dev l" "lb_cond_dev l"] keeps_ok [OF k1] 2 unfolding body_keeps_def by (metis fst_conv)
  with k1 have k2: "keeps m m2"
    by (rule keeps_trans)
  obtain m3 status go' where 3: "check_cond p m2 (lb_cond_dev l) = (m3, status, go')"
    using prod_cases3 by blast
  have "keeps m2 m3"
    using check_cond_keeps [OF keeps_ok [OF k2], of p "lb_cond_dev l"] 3 by simp
  with k2 have k3: "keeps m m3"
    by (rule keeps_trans)
  have rest: "keeps m (fst (loop_from p body l (Suc i) n g x))" if "keeps m x" for g x
    using keeps_trans [OF that Suc.IH [OF keeps_ok [OF that]]] .
  show ?case
    using k1 k2 k3 rest keeps_refl [OF Suc.prems] by (simp add: 1 2 3 split: bool.split)
qed (simp add: keeps_refl)

lemma run_loop_impl_keeps:
  assumes "\<And>a b c d. body_keeps (\<lambda>m. body m a b c d)" and ok: "session_ok m" and n: "k < int size_limit"
    and r: "run_loop_impl p m (Some body) k cond carried captures = Some (m', rc)"
  shows "keeps m m'"
proof -
  obtain s where s: "mc_state m = Some s"
    using session_ok_state [OF ok] by auto
  show ?thesis
  proof (cases "k < 0 \<or> \<not> cond")
    case True
    then show ?thesis
      using r s keeps_refl [OF ok] by (auto simp: run_loop_impl_def split: if_splits)
  next
    case False
    then obtain m1 rc1 where 1: "ensure_loop_buffers m k = Some (m1, rc1)"
      using r s by (auto simp: run_loop_impl_def split: option.splits)
    have k1: "keeps m m1"
      by (rule ensure_loop_buffers_keeps [OF ok n 1])
    let ?m2 = "upd_gpu (write_mem (lb_cond_dev (rs_loop (st m1))) [1]) m1"
    have k2: "keeps m1 ?m2"
      by (rule keeps_same_device [OF keeps_ok [OF k1]]) (simp_all add: same_device_upd write_mem_def)
    have "keeps m (fst (loop_from p (\<lambda>m i c. body m i c carried captures) l 0 (nat k) True ?m2))" for l
      using keeps_trans [OF keeps_trans [OF k1 k2] loop_from_keeps [OF assms(1) keeps_ok [OF k2]]] by simp
    then show ?thesis
      using r s 1 False k1 by (auto simp: run_loop_impl_def Let_def split: if_splits; metis fst_conv)
  qed
qed

end
