(* ===== verification/Scan_Correct.thy ===== *)
theory Scan_Correct
  imports Loop_Correct
begin

text \<open>
  A Scan runs its body on the Scan's own pools while the parent's are parked: the ranges of
  the parent's pools are then strangers to the session, and every call of the body keeps them.
\<close>

section \<open>Owners renamed, dropped and merged\<close>

lemma owned_drop:
  assumes "owned_ok B L"
  shows "owned_ok (\<lambda>x. if Q x then B x else (0, 0)) L"
  unfolding owned_ok_def
proof (intro conjI allI impI)
  fix b show "backed (if Q b then B b else (0, 0)) L"
    using owned_okD(1) [OF assms, of b] by (simp add: backed_def)
next
  fix b c :: 'a assume "b \<noteq> c"
  then show "fst (if Q b then B b else (0, 0)) = 0 \<or>
      fst (if Q b then B b else (0, 0)) \<noteq> fst (if Q c then B c else (0, 0))"
    using owned_okD(2) [OF assms, of b c] by auto
qed

lemma drop_starts: "p \<noteq> 0 \<Longrightarrow> (\<exists>x. fst (if Q x then B x else (0, 0)) = p) \<longleftrightarrow> (\<exists>x. Q x \<and> fst (B x) = p)"
  by (metis fst_conv)

lemma owned_merge:
  assumes A: "owned_ok A L" and C: "owned_ok C L" and one: "\<And>x. fst (A x) = 0 \<or> fst (C x) = 0"
    and apart: "starts A \<inter> starts C = {}"
  shows "owned_ok (\<lambda>x. if fst (A x) = 0 then C x else A x) L"
    and "starts (\<lambda>x. if fst (A x) = 0 then C x else A x) = starts A \<union> starts C"
proof -
  have ne: "fst (A x) = 0 \<or> fst (A x) \<noteq> fst (C y)" for x y
  proof (rule ccontr)
    assume "\<not> ?thesis"
    then have "fst (A x) \<in> starts A \<inter> starts C"
      unfolding Int_iff in_starts by metis
    then show False
      using apart by blast
  qed
  show "owned_ok (\<lambda>x. if fst (A x) = 0 then C x else A x) L"
    unfolding owned_ok_def
  proof (intro conjI allI impI)
    fix b show "backed (if fst (A b) = 0 then C b else A b) L"
      using owned_okD(1) [OF A, of b] owned_okD(1) [OF C, of b] by simp
  next
    fix b c :: 'a assume "b \<noteq> c"
    then show "fst (if fst (A b) = 0 then C b else A b) = 0 \<or>
        fst (if fst (A b) = 0 then C b else A b) \<noteq> fst (if fst (A c) = 0 then C c else A c)"
      using owned_okD(2) [OF A, of b c] owned_okD(2) [OF C, of b c] ne [of b c] ne [of c b] by auto
  qed
  have "p \<in> starts (\<lambda>x. if fst (A x) = 0 then C x else A x) \<longleftrightarrow> p \<in> starts A \<or> p \<in> starts C" for p
    unfolding in_starts using one by metis
  then show "starts (\<lambda>x. if fst (A x) = 0 then C x else A x) = starts A \<union> starts C"
    by blast
qed

lemma starts_bij: "surj e \<Longrightarrow> starts (B \<circ> e) = starts B"
  unfolding starts_def comp_assoc [symmetric] image_comp [symmetric] by simp

section \<open>Parking the parent's pools\<close>

fun swap_pools :: "dev_owner \<Rightarrow> dev_owner" where
  "swap_pools (Buf (Pool d)) = Scan_pool d"
| "swap_pools (Scan_pool d) = Buf (Pool d)"
| "swap_pools x = x"

lemma swap_pools_twice [simp]: "swap_pools (swap_pools x) = x"
  by (cases x rule: swap_pools.cases) simp_all

lemma swap_pools_ex: "(\<exists>x. P x \<and> Q (swap_pools x)) \<longleftrightarrow> (\<exists>x. P (swap_pools x) \<and> Q x)"
  by (metis swap_pools_twice)

lemma swap_pools_bij: "inj swap_pools" "surj swap_pools"
  by (metis swap_pools_twice injI, metis swap_pools_twice surjI)

fun is_scan :: "dev_owner \<Rightarrow> bool" where
  "is_scan (Scan_pool d) = True"
| "is_scan x = False"

text \<open>The parent's pools alone, as an assignment of ranges.\<close>

fun parked :: "block list \<Rightarrow> dev_owner \<Rightarrow> block" where
  "parked bs (Buf (Pool d)) = (if d < length bs then bs ! d else (0, 0))"
| "parked bs x = (0, 0)"

lemma parked_drop: "parked (rs_pools s) = (\<lambda>x. if is_scan (swap_pools x) then dev_of s x else (0, 0))"
proof
  fix x show "parked (rs_pools s) x = (if is_scan (swap_pools x) then dev_of s x else (0, 0))"
    by (cases x rule: swap_pools.cases) simp_all
qed

lemma dev_of_enter:
  assumes "\<not> rs_scan_active s"
  shows "dev_of (s\<lparr>rs_pools := rs_scan_pools s, rs_scan_active := True\<rparr>) =
    (\<lambda>x. if \<not> is_scan x then (dev_of s \<circ> swap_pools) x else (0, 0))"
proof
  fix x show "dev_of (s\<lparr>rs_pools := rs_scan_pools s, rs_scan_active := True\<rparr>) x =
      (if \<not> is_scan x then (dev_of s \<circ> swap_pools) x else (0, 0))"
    using assms by (cases x rule: swap_pools.cases) simp_all
qed

lemma dev_of_leave:
  assumes "rs_scan_active s" and "owned_ok (dev_of s) L"
  shows "dev_of (s\<lparr>rs_scan_pools := rs_pools s, rs_pools := bs, rs_scan_active := False\<rparr>) =
    (\<lambda>x. if fst ((dev_of s \<circ> swap_pools) x) = 0 then parked bs x else (dev_of s \<circ> swap_pools) x)"
proof
  fix x
  have null: "fst (dev_of s y) = 0 \<Longrightarrow> dev_of s y = (0, 0)" for y
    using owned_okD(1) [OF assms(2), of y] by (simp add: backed_def prod_eq_iff)
  show "dev_of (s\<lparr>rs_scan_pools := rs_pools s, rs_pools := bs, rs_scan_active := False\<rparr>) x =
    (if fst ((dev_of s \<circ> swap_pools) x) = 0 then parked bs x else (dev_of s \<circ> swap_pools) x)"
  proof (cases "fst (dev_of s (swap_pools x)) = 0")
    case True
    from null [OF True] True show ?thesis
      using assms(1) by (cases x rule: swap_pools.cases) (simp_all split: if_splits)
  next
    case False
    then show ?thesis
      using assms(1) by (cases x rule: swap_pools.cases) (simp_all split: if_splits)
  qed
qed

lemma pin_of_pools [simp]:
  "pin_of (s\<lparr>rs_pools := a\<rparr>) = pin_of s" "pin_of (s\<lparr>rs_scan_pools := a\<rparr>) = pin_of s"
  "pin_of (s\<lparr>rs_scan_active := b\<rparr>) = pin_of s"
proof -
  have "pin_of (s\<lparr>rs_pools := a\<rparr>) x = pin_of s x" "pin_of (s\<lparr>rs_scan_pools := a\<rparr>) x = pin_of s x"
    "pin_of (s\<lparr>rs_scan_active := b\<rparr>) x = pin_of s x" for x
    by (cases x; simp add: host_of_def)+
  then show "pin_of (s\<lparr>rs_pools := a\<rparr>) = pin_of s" "pin_of (s\<lparr>rs_scan_pools := a\<rparr>) = pin_of s"
    "pin_of (s\<lparr>rs_scan_active := b\<rparr>) = pin_of s"
    by blast+
qed

lemma unowned_minus: "unowned B L = {r \<in> unowned C L. fst r \<notin> P}" if "starts B = starts C \<union> P"
  unfolding unowned_def that by blast

lemma enter_scan_ok:
  assumes ok: "session_ok m" and idle: "\<not> rs_scan_active (st m)"
  shows "session_ok (enter_scan m)"
    and "owned_ok (parked (rs_pools (st m))) (strangers (enter_scan m))"
    and "starts (dev_of (st m)) = starts (dev_of (st (enter_scan m))) \<union> starts (parked (rs_pools (st m)))"
proof -
  let ?m = "enter_scan m" and ?s = "st m" and ?P = "parked (rs_pools (st m))"
  let ?in = "\<lambda>x. if \<not> is_scan x then (dev_of ?s \<circ> swap_pools) x else (0, 0)"
  have st: "mc_state ?m \<noteq> None" "st ?m = ?s\<lparr>rs_pools := rs_scan_pools ?s, rs_scan_active := True\<rparr>"
    "mc_gpu ?m = mc_gpu m" "mc_api ?m = mc_api m" "session_arena ?m = session_arena m"
    using session_ok_state [OF ok] by (auto simp: enter_scan_def session_arena_def)
  have own: "owned_ok (dev_of ?s) (session_live m)"
    using ok by (simp add: session_ok_def)
  have A: "allocator_inv ?m = allocator_inv m" "session_live ?m = session_live m"
    using allocator_same [of ?m m] st session_ok_state [OF ok] by simp_all
  note O = outside_same [of ?m m]
  have in_own: "owned_ok ?in (session_live m)"
    by (rule owned_drop [OF owned_sub [OF own swap_pools_bij(1)]])
  have dev: "dev_of (st ?m) = ?in"
    unfolding st(2) by (rule dev_of_enter [OF idle])
  show "session_ok ?m"
    using ok in_own A O st pinned_same [of ?m m] unfolding session_ok_def dev by (simp add: raw_ptrs_def)
  have apart: "starts ?in \<inter> starts ?P = {}"
  proof -
    have "\<not> (p \<in> starts ?in \<and> p \<in> starts ?P)" for p
    proof
      assume "p \<in> starts ?in \<and> p \<in> starts ?P"
      then obtain x y where xy: "p \<noteq> 0" "fst (?in x) = p" "fst (?P y) = p"
        unfolding in_starts by blast
      have x: "\<not> is_scan x" "fst (dev_of ?s (swap_pools x)) = p"
        using xy(1,2) by (auto split: if_splits)
      have y: "is_scan (swap_pools y)" "fst (dev_of ?s y) = p"
        using xy(1,3) unfolding parked_drop by (auto split: if_splits)
      have "swap_pools x \<noteq> y"
        using x(1) y(1) by auto
      from owned_okD(2) [OF own this] show False
        using x(2) y(2) xy(1) by simp
    qed
    then show ?thesis
      by blast
  qed
  have all: "p \<in> starts (dev_of ?s) \<longleftrightarrow> p \<in> starts ?in \<or> p \<in> starts ?P" for p
  proof -
    have "p \<noteq> 0 \<Longrightarrow> (\<exists>x. fst (?in x) = p) \<longleftrightarrow> (\<exists>x. \<not> is_scan (swap_pools x) \<and> fst (dev_of ?s x) = p)"
      unfolding drop_starts using swap_pools_ex [of "\<lambda>x. \<not> is_scan x" "\<lambda>x. fst (dev_of ?s x) = p"] by simp
    moreover have "p \<noteq> 0 \<Longrightarrow> (\<exists>x. fst (?P x) = p) \<longleftrightarrow> (\<exists>x. is_scan (swap_pools x) \<and> fst (dev_of ?s x) = p)"
      unfolding parked_drop drop_starts by simp
    ultimately show ?thesis
      unfolding in_starts by blast
  qed
  then show split: "starts (dev_of ?s) = starts (dev_of (st ?m)) \<union> starts ?P"
    unfolding dev by blast
  have P: "owned_ok ?P (session_live m)"
    unfolding parked_drop by (rule owned_drop [OF own])
  show "owned_ok ?P (strangers ?m)"
    unfolding owned_ok_def
  proof (intro conjI allI impI)
    fix x
    have "(fst (?P x), len) \<in> strangers ?m" if "fst (?P x) \<noteq> 0" "(fst (?P x), len) \<in> session_live m" for len
    proof -
      have "fst (?P x) \<in> starts ?P"
        using that(1) unfolding in_starts by blast
      then show ?thesis
        using that(2) apart by (auto simp: strangers_def unowned_def A dev)
    qed
    then show "backed (?P x) (strangers ?m)"
      using owned_okD(1) [OF P, of x] by (auto simp: backed_def split: if_splits)
  next
    fix x y :: dev_owner assume "x \<noteq> y"
    then show "fst (?P x) = 0 \<or> fst (?P x) \<noteq> fst (?P y)"
      by (rule owned_okD(2) [OF P])
  qed
qed

lemma leave_scan_ok:
  assumes ok: "session_ok m" and idle: "\<not> rs_scan_active (st m)" and k: "keeps (enter_scan m) m1"
  shows "keeps m (leave_scan (rs_pools (st m)) m1)"
    and "rs_pools (st (leave_scan (rs_pools (st m)) m1)) = rs_pools (st m)"
    and "\<not> rs_scan_active (st (leave_scan (rs_pools (st m)) m1))"
proof -
  let ?s = "st m" and ?m0 = "enter_scan m" and ?s1 = "st m1" and ?m2 = "leave_scan (rs_pools (st m)) m1"
  let ?P = "parked (rs_pools ?s)" and ?A = "dev_of ?s1 \<circ> swap_pools"
  let ?B = "\<lambda>x. if fst (?A x) = 0 then ?P x else ?A x"
  note E = enter_scan_ok [OF ok idle]
  have nonnull: "mc_state m \<noteq> None" "mc_state m1 \<noteq> None"
    using session_ok_state [OF ok] session_ok_state [OF keeps_ok [OF k]] by blast+
  have s0: "st ?m0 = ?s\<lparr>rs_pools := rs_scan_pools ?s, rs_scan_active := True\<rparr>" "mc_gpu ?m0 = mc_gpu m"
    using nonnull by (auto simp: enter_scan_def)
  have K: "session_ok m1" "dev_strangers m1 = dev_strangers ?m0" "pin_strangers m1 = pin_strangers ?m0"
    "strangers m1 = strangers ?m0" "fixed m1 = fixed ?m0" "event_strangers m1 = event_strangers ?m0"
    using k by (simp_all add: keeps_def)
  have active: "rs_scan_active ?s1"
    using K(5) by (simp add: fixed_def s0)
  have st2: "mc_state ?m2 \<noteq> None" "st ?m2 = ?s1\<lparr>rs_scan_pools := rs_pools ?s1, rs_pools := rs_pools ?s, rs_scan_active := False\<rparr>"
    "mc_gpu ?m2 = mc_gpu m1" "mc_api ?m2 = mc_api m1" "session_arena ?m2 = session_arena m1"
    using nonnull(2) by (auto simp: leave_scan_def session_arena_def)
  have own: "owned_ok (dev_of ?s1) (session_live m1)"
    using K(1) by (simp add: session_ok_def)
  have dev: "dev_of (st ?m2) = ?B"
    unfolding st2(2) by (rule dev_of_leave [OF active own])
  have P: "owned_ok ?P (strangers m1)"
    using E(2) K(4) by simp
  have "backed (?P x) (session_live m1)" for x
    using owned_okD(1) [OF P, of x] by (auto simp: backed_def strangers_def unowned_def split: if_splits)
  then have P1: "owned_ok ?P (session_live m1)"
    using owned_okD(2) [OF P] unfolding owned_ok_def by blast
  have A: "owned_ok ?A (session_live m1)" "starts ?A = starts (dev_of ?s1)"
    using owned_sub [OF own swap_pools_bij(1)] starts_bij [OF swap_pools_bij(2)] by blast+
  have apart: "starts ?A \<inter> starts ?P = {}"
  proof -
    have "p \<notin> starts (dev_of ?s1)" if p: "p \<in> starts ?P" for p
    proof -
      obtain x where x: "p \<noteq> 0" "fst (?P x) = p"
        using p unfolding in_starts by blast
      then obtain len where "(p, len) \<in> strangers m1"
        using owned_okD(1) [OF P, of x] by (auto simp: backed_def)
      then show ?thesis
        by (simp add: strangers_def unowned_def)
    qed
    then show ?thesis
      unfolding A(2) by blast
  qed
  have one: "fst (?A x) = 0 \<or> fst (?P x) = 0" for x
    using active by (cases x rule: swap_pools.cases) simp_all
  note M = owned_merge [OF A(1) P1 one apart]
  have live: "allocator_inv ?m2 = allocator_inv m1" "session_live ?m2 = session_live m1"
    using allocator_same [of ?m2 m1] st2 nonnull(2) by simp_all
  have out: "outside ?m2 = outside m1" "raw_live ?m2 = raw_live m1"
    using outside_same [of ?m2 m1] st2 by simp_all
  have pins: "pinned_inv ?m2 = pinned_inv m1" "pinned_live ?m2 = pinned_live m1" "pin_of (st ?m2) = pin_of ?s1"
    using pinned_same [of ?m2 m1] st2 by simp_all
  have raws: "raw_ptrs (st ?m2) = raw_ptrs ?s1"
    by (simp add: st2(2) raw_ptrs_def)
  have starts2: "starts (dev_of (st ?m2)) = starts (dev_of ?s1) \<union> starts ?P"
    unfolding dev M(2) A(2) by (rule refl)
  have ok2: "session_ok ?m2"
    using K(1) M(1) unfolding session_ok_def live pins raws out dev by simp
  have 1: "strangers ?m2 = {r \<in> strangers m1. fst r \<notin> starts ?P}"
    unfolding strangers_def live(2) by (rule unowned_minus [OF starts2])
  have 2: "strangers m = {r \<in> strangers ?m0. fst r \<notin> starts ?P}"
  proof -
    have "session_live ?m0 = session_live m"
      using allocator_same(2) [of ?m0 m] nonnull(1) by (auto simp: enter_scan_def session_arena_def)
    then show ?thesis
      unfolding strangers_def using unowned_minus [OF E(3)] by simp
  qed
  have 3: "dev_strangers ?m2 = {r \<in> dev_strangers m1. fst r \<notin> starts ?P}"
    unfolding dev_strangers_def out starts2 by blast
  have 4: "dev_strangers m = {r \<in> dev_strangers ?m0. fst r \<notin> starts ?P}"
  proof -
    have "outside ?m0 = outside m"
      using outside_same(1) [of ?m0 m] nonnull(1) by (auto simp: enter_scan_def session_arena_def)
    then show ?thesis
      unfolding dev_strangers_def E(3) by blast
  qed
  have 5: "pin_strangers ?m2 = pin_strangers m1" "pin_strangers ?m0 = pin_strangers m"
    unfolding pin_strangers_def pins using pinned_same(2) [of ?m0 m] s0 by (simp_all add: enter_scan_def)
  have 6: "fixed ?m2 = fixed m" "event_strangers ?m2 = event_strangers m"
    using K(5,6) idle unfolding fixed_def event_strangers_def s0 st2(2,3) by (simp_all cong: if_cong)
  show "keeps m ?m2"
    using ok2 K(2-4) unfolding keeps_def 1 2 3 4 5 6 by simp
  show "rs_pools (st ?m2) = rs_pools ?s" "\<not> rs_scan_active (st ?m2)"
    unfolding st2(2) by simp_all
qed

lemma scan_from_keeps:
  assumes "\<And>i. body_keeps (\<lambda>m. body m i)" and "session_ok m"
  shows "keeps m (fst (scan_from body i n m))"
  using assms(2)
proof (induction n arbitrary: m i)
  case (Suc n)
  obtain m1 rc where 1: "body m i = (m1, rc)"
    by fastforce
  have k: "keeps m m1"
    using assms(1) [of i] Suc.prems 1 unfolding body_keeps_def by (metis fst_conv)
  then show ?case
    using keeps_trans [OF k Suc.IH [OF keeps_ok [OF k]]] by (simp add: 1)
qed (simp add: keeps_refl)

lemma run_scan_keeps:
  assumes "\<And>i a b c d. body_keeps (\<lambda>m. body m i a b c d)" and ok: "session_ok m"
    and r: "run_scan m (Some body) n a b c d = (m', rc)"
  shows "keeps m m'" and "\<not> rs_scan_active (st m) \<Longrightarrow> rs_pools (st m') = rs_pools (st m)"
proof -
  obtain s where s: "mc_state m = Some s"
    using session_ok_state [OF ok] by auto
  obtain m1 rc1 where 1: "scan_from (\<lambda>m i. body m i a b c d) 0 (nat n) (enter_scan m) = (m1, rc1)"
    by fastforce
  have L: "keeps m (leave_scan (rs_pools s) m1)" "rs_pools (st (leave_scan (rs_pools s) m1)) = rs_pools s" if "\<not> rs_scan_active s"
  proof -
    have idle: "\<not> rs_scan_active (st m)"
      using s that by simp
    have "keeps (enter_scan m) m1"
      using scan_from_keeps [of "\<lambda>m i. body m i a b c d" "enter_scan m" 0 "nat n"] assms(1) enter_scan_ok(1) [OF ok idle] 1
      by simp
    from leave_scan_ok [OF ok idle this] show "keeps m (leave_scan (rs_pools s) m1)"
      "rs_pools (st (leave_scan (rs_pools s) m1)) = rs_pools s"
      using s by simp_all
  qed
  show "keeps m m'"
    using r s L keeps_refl [OF ok] by (auto simp: run_scan_def 1 split: if_splits)
  show "rs_pools (st m') = rs_pools (st m)" if "\<not> rs_scan_active (st m)"
    using r s L that by (auto simp: run_scan_def 1 split: if_splits)
qed

end
