(* ===== verification/Session_Life.thy ===== *)
theory Session_Life
  imports Scan_Correct
begin

text \<open>
  The life of a session: its creation establishes the invariant, every entry point keeps it,
  and its teardown gives everything back.
\<close>

section \<open>Creation\<close>

text \<open>A device nobody has broken: what HIP promises, and the live ranges of both kinds.\<close>

definition device_ok :: "machine \<Rightarrow> bool" where
  "device_ok m \<longleftrightarrow> hip_ok (mc_api m) \<and> blocks_ok (g_dev (mc_gpu m)) \<and> blocks_ok (g_pin (mc_gpu m)) \<and>
     0 \<notin> set (g_streams (mc_gpu m)) \<and> 0 \<notin> set (g_blas (mc_gpu m))"

lemma dev_of_initial:
  "dev_of ((initial_state perf)\<lparr>rs_stream := s, rs_blas := b, rs_error_flag := f\<rparr>) =
     (\<lambda>x. (0, 0))(Error_flag := (f, if f = 0 then 0 else 4))"
proof
  fix x show "dev_of ((initial_state perf)\<lparr>rs_stream := s, rs_blas := b, rs_error_flag := f\<rparr>) x =
      ((\<lambda>x. (0, 0))(Error_flag := (f, if f = 0 then 0 else 4))) x"
  proof (cases x)
    case (Buf y) then show ?thesis by (cases y) (simp_all add: initial_state_def no_scratch_def)
  qed (simp_all add: initial_state_def)
qed

lemma pin_of_initial:
  "pin_of ((initial_state perf)\<lparr>rs_stream := s, rs_blas := b, rs_error_flag := f\<rparr>) = (\<lambda>x. (0, 0))"
proof
  fix x show "pin_of ((initial_state perf)\<lparr>rs_stream := s, rs_blas := b, rs_error_flag := f\<rparr>) x = (0, 0)"
    by (cases x) (simp_all add: initial_state_def host_of_def no_scratch_def)
qed

text \<open>The machine without its events and contents, as far as the creation reads it.\<close>

definition same_handles :: "machine \<Rightarrow> machine \<Rightarrow> bool" where
  "same_handles m m' \<longleftrightarrow> mc_api m' = mc_api m \<and> g_dev (mc_gpu m') = g_dev (mc_gpu m) \<and>
     g_pin (mc_gpu m') = g_pin (mc_gpu m) \<and> g_streams (mc_gpu m') = g_streams (mc_gpu m) \<and>
     g_blas (mc_gpu m') = g_blas (mc_gpu m) \<and> g_events (mc_gpu m') = g_events (mc_gpu m) \<and>
     g_profiles (mc_gpu m') = g_profiles (mc_gpu m) \<and> mc_state m' = mc_state m"

lemma write_mem_simps [simp]:
  "g_dev (write_mem a bs g) = g_dev g" "g_pin (write_mem a bs g) = g_pin g" "g_streams (write_mem a bs g) = g_streams g"
  "g_blas (write_mem a bs g) = g_blas g" "g_events (write_mem a bs g) = g_events g"
  "g_profiles (write_mem a bs g) = g_profiles g" "g_host (write_mem a bs g) = g_host g" "g_trace (write_mem a bs g) = g_trace g"
  by (simp_all add: write_mem_def)

lemma initialize_cases:
  assumes ok: "device_ok m" and none: "mc_state m = None" and i: "initialize_state_handles perf vendor m = (m', rc)"
  obtains (failed) "rc \<noteq> 0" "mc_state m' = None" "g_dev (mc_gpu m') = g_dev (mc_gpu m)" "g_pin (mc_gpu m') = g_pin (mc_gpu m)"
      "g_streams (mc_gpu m') = g_streams (mc_gpu m)" "g_blas (mc_gpu m') = g_blas (mc_gpu m)"
      "g_events (mc_gpu m') = g_events (mc_gpu m)"
      "g_profiles (mc_gpu m') = g_profiles (mc_gpu m) + (if perf \<and> rc \<noteq> 1 then 1 else 0)"
  | (created) stream blas flag where "rc = 0"
      "mc_state m' = Some ((initial_state perf)\<lparr>rs_stream := stream, rs_blas := blas, rs_error_flag := flag\<rparr>)"
      "stream \<noteq> 0" "vendor \<longleftrightarrow> blas \<noteq> 0" "mc_api m' = mc_api m"
      "g_dev (mc_gpu m') = (flag, 4) # g_dev (mc_gpu m)" "blocks_ok ((flag, 4) # g_dev (mc_gpu m))"
      "g_pin (mc_gpu m') = g_pin (mc_gpu m)" "g_streams (mc_gpu m') = stream # g_streams (mc_gpu m)"
      "g_blas (mc_gpu m') = (if vendor then [blas] else []) @ g_blas (mc_gpu m)"
      "g_events (mc_gpu m') = g_events (mc_gpu m)"
      "g_profiles (mc_gpu m') = g_profiles (mc_gpu m) + (if perf then 1 else 0)"
      "\<forall>i < 4. g_mem (mc_gpu m') (flag + i) = 0"
proof -
  have c: "\<forall>g. api_create (mc_api m) g ''hipStreamCreate'' \<noteq> Some 0" "\<forall>g. api_create (mc_api m) g ''hipblasLtCreate'' \<noteq> Some 0"
    using ok unfolding device_ok_def hip_ok_def handle_calls_def by simp_all
  have H: "api_create (mc_api m) g ''hipStreamCreate'' = Some h \<Longrightarrow> 0 < h"
    "api_create (mc_api m) g ''hipblasLtCreate'' = Some h \<Longrightarrow> 0 < h"
    "0 < n \<Longrightarrow> api_dev_at (mc_api m) g n = Some p \<Longrightarrow> blocks_ok (g_dev g) \<Longrightarrow> blocks_ok ((p, n) # g_dev g)" for g h n p
    using c ok unfolding device_ok_def hip_ok_def by (metis neq0_conv)+
  define m1 where "m1 = (if perf then profile_create m else m)"
  obtain m2 d where 2: "hip_create ''hipGetDeviceCount'' (\<lambda>h g. g) m1 = (m2, d)" by fastforce
  obtain m3 b3 where 3: "hip_call ''hipSetDevice'' m2 = (m3, b3)" by fastforce
  obtain m4 s4 where 4: "stream_create m3 = (m4, s4)" by fastforce
  obtain m5 s5 where 5: "(if vendor then blas_create m4 else (m4, Some 0)) = (m5, s5)" by fastforce
  obtain m6 s6 where 6: "hip_malloc m5 4 = (m6, s6)" by fastforce
  have e1: "mc_api m1 = mc_api m" "mc_state m1 = None" "g_dev (mc_gpu m1) = g_dev (mc_gpu m)" "g_pin (mc_gpu m1) = g_pin (mc_gpu m)"
    "g_streams (mc_gpu m1) = g_streams (mc_gpu m)" "g_blas (mc_gpu m1) = g_blas (mc_gpu m)"
    "g_events (mc_gpu m1) = g_events (mc_gpu m)" "g_profiles (mc_gpu m1) = g_profiles (mc_gpu m) + (if perf then 1 else 0)"
    using none by (simp_all add: m1_def profile_create_def)
  have e2: "same_handles m1 m2" using 2 by (auto simp: same_handles_def hip_create_def split: option.splits)
  have e3: "same_handles m2 m3" using 3 by (auto simp: same_handles_def hip_call_def)
  have e13: "mc_api m3 = mc_api m" "mc_state m3 = None" "g_dev (mc_gpu m3) = g_dev (mc_gpu m)"
    "g_pin (mc_gpu m3) = g_pin (mc_gpu m)" "g_streams (mc_gpu m3) = g_streams (mc_gpu m)"
    "g_blas (mc_gpu m3) = g_blas (mc_gpu m)" "g_events (mc_gpu m3) = g_events (mc_gpu m)"
    "g_profiles (mc_gpu m3) = g_profiles (mc_gpu m) + (if perf then 1 else 0)"
    using e1 e2 e3 by (simp_all add: same_handles_def)
  have e4: "mc_api m4 = mc_api m" "mc_state m4 = None" "g_dev (mc_gpu m4) = g_dev (mc_gpu m)"
    "g_pin (mc_gpu m4) = g_pin (mc_gpu m)" "g_blas (mc_gpu m4) = g_blas (mc_gpu m)"
    "g_events (mc_gpu m4) = g_events (mc_gpu m)" "g_profiles (mc_gpu m4) = g_profiles (mc_gpu m3)"
    "s4 \<noteq> Some 0" "g_streams (mc_gpu m4) = (case s4 of None \<Rightarrow> [] | Some h \<Rightarrow> [h]) @ g_streams (mc_gpu m)"
    using 4 e13 H(1) by (auto simp: stream_create_def hip_create_def split: option.splits)
  have e5: "mc_api m5 = mc_api m" "mc_state m5 = None" "g_dev (mc_gpu m5) = g_dev (mc_gpu m)"
    "g_pin (mc_gpu m5) = g_pin (mc_gpu m)" "g_streams (mc_gpu m5) = g_streams (mc_gpu m4)"
    "g_events (mc_gpu m5) = g_events (mc_gpu m)" "g_profiles (mc_gpu m5) = g_profiles (mc_gpu m3)"
    "s5 \<noteq> None \<Longrightarrow> vendor \<longleftrightarrow> s5 \<noteq> Some 0"
    "g_blas (mc_gpu m5) = (if vendor then (case s5 of None \<Rightarrow> [] | Some h \<Rightarrow> [h]) else []) @ g_blas (mc_gpu m)"
    using 5 e4 H(2) by (auto simp: blas_create_def hip_create_def split: option.splits if_splits)
  have e6: "mc_api m6 = mc_api m" "mc_state m6 = None" "g_pin (mc_gpu m6) = g_pin (mc_gpu m)"
    "g_streams (mc_gpu m6) = g_streams (mc_gpu m4)" "g_blas (mc_gpu m6) = g_blas (mc_gpu m5)"
    "g_events (mc_gpu m6) = g_events (mc_gpu m)" "g_profiles (mc_gpu m6) = g_profiles (mc_gpu m3)"
    "g_dev (mc_gpu m6) = (case s6 of None \<Rightarrow> [] | Some p \<Rightarrow> [(p, 4)]) @ g_dev (mc_gpu m)"
    "s6 = Some p \<Longrightarrow> blocks_ok ((p, 4) # g_dev (mc_gpu m))" for p
    using 6 e5 H(3) [of 4 "mc_gpu m5" p] ok by (auto simp: hip_malloc_def device_ok_def split: option.splits)
  have none0: "0 \<notin> set (g_streams (mc_gpu m))" "0 \<notin> set (g_blas (mc_gpu m))"
    using ok by (simp_all add: device_ok_def)
  note start = i [unfolded initialize_state_handles_def Let_def, folded m1_def, unfolded 2 prod.case 3 4]
  show thesis
  proof (cases "api_heap (mc_api m) (mc_gpu m) 0 \<and> d \<noteq> None \<and> d \<noteq> Some 0 \<and> b3 \<and> s4 \<noteq> None")
    case False
    show thesis
      by (rule failed; use False start none e1 e2 e13 e4 in \<open>auto simp: same_handles_def split: if_splits option.splits\<close>)
  next
    case True
    then obtain stream where s4: "s4 = Some stream" "stream \<noteq> 0"
      using e4(8) by auto
    have i5: "(m', rc) = (case s5 of None \<Rightarrow> (stream_destroy stream m5, 9)
         | Some blas \<Rightarrow> (case s6 of None \<Rightarrow> (stream_destroy stream (blas_destroy blas m6), 10)
           | Some flag \<Rightarrow> (case hip_write ''hipMemsetAsync'' flag (replicate 4 0) m6 of
               (m7, False) \<Rightarrow> (stream_destroy stream (blas_destroy blas (fst (hip_free m7 flag))), 11)
             | (m7, True) \<Rightarrow> (m7\<lparr>mc_state := Some ((initial_state perf)
                  \<lparr>rs_stream := stream, rs_blas := blas, rs_error_flag := flag\<rparr>)\<rparr>, 0))))"
      using start True s4 by (simp add: 5 6 split: option.splits)
    show thesis
    proof (cases s5)
      case None
      show thesis
        by (rule failed; use i5 None s4 e13 e4 e5 in \<open>simp add: stream_destroy_def\<close>)
    next
      case s5: (Some blas)
      show thesis
      proof (cases s6)
        case None
        show thesis
          by (rule failed; use i5 None s4 s5 e13 e4 e5 e6 in \<open>auto simp: stream_destroy_def blas_destroy_def\<close>)
      next
        case s6: (Some flag)
        have flag: "flag \<noteq> 0" "filter (\<lambda>b. fst b \<noteq> flag) (g_dev (mc_gpu m)) = g_dev (mc_gpu m)"
          using e6(9) [OF s6] blocks_ok_distinct [OF e6(9) [OF s6]]
          by (force simp: blocks_ok_def filter_id_conv)+
        show thesis
        proof (cases "api_call (mc_api m6) (mc_gpu m6) ''hipMemsetAsync''")
          case False
          show thesis
            by (rule failed; use i5 False s4 s5 s6 e13 e4 e5 e6 flag
              in \<open>auto simp: stream_destroy_def blas_destroy_def hip_write_def hip_free_def\<close>)
        next
          case True
          have m': "rc = 0" "m' = (upd_gpu (\<lambda>g. emit (Ev_call ''hipMemsetAsync'') (write_mem flag (replicate 4 0) g)) m6)
              \<lparr>mc_state := Some ((initial_state perf)\<lparr>rs_stream := stream, rs_blas := blas, rs_error_flag := flag\<rparr>)\<rparr>"
            using i5 True s5 s6 by (simp_all add: hip_write_def)
          have v: "vendor \<longleftrightarrow> blas \<noteq> 0"
            using e5(8) s5 by simp
          have mem: "\<forall>i < 4. g_mem (write_mem flag (replicate 4 0) g) (flag + i) = 0" for g
            by (simp add: write_mem_def nth_replicate)
          have gpu: "mc_gpu m' = emit (Ev_call ''hipMemsetAsync'') (write_mem flag (replicate 4 0) (mc_gpu m6))" "mc_api m' = mc_api m6"
            by (simp_all add: m'(2))
          have dev: "g_dev (mc_gpu m6) = (flag, 4) # g_dev (mc_gpu m)" "g_blas (mc_gpu m6) = (if vendor then [blas] else []) @ g_blas (mc_gpu m)"
            "g_streams (mc_gpu m6) = stream # g_streams (mc_gpu m)" "g_profiles (mc_gpu m6) = g_profiles (mc_gpu m) + (if perf then 1 else 0)"
            using e6 e5 e4 e13 s4 s5 s6 by simp_all
          show thesis
          proof (rule created [OF m'(1) _ s4(2) v])
            show "mc_state m' = Some ((initial_state perf)\<lparr>rs_stream := stream, rs_blas := blas, rs_error_flag := flag\<rparr>)"
              by (simp add: m'(2))
            show "\<forall>i < 4. g_mem (mc_gpu m') (flag + i) = 0"
              using mem unfolding gpu by simp
          qed (use gpu dev e6 s6 in simp_all)
        qed
      qed
    qed
  qed
qed

lemma initialize_ok:
  assumes ok: "device_ok m" and none: "mc_state m = None" and i: "initialize_state_handles perf vendor m = (m', 0)"
  shows "session_ok m'" and "dev_strangers m' = set (g_dev (mc_gpu m))" and "pin_strangers m' = set (g_pin (mc_gpu m))"
    and "event_strangers m' = g_events (mc_gpu m)" and "\<not> rs_scan_active (st m')"
    and "g_streams (mc_gpu m') = rs_stream (st m') # g_streams (mc_gpu m)"
    and "g_blas (mc_gpu m') = (if rs_blas (st m') = 0 then [] else [rs_blas (st m')]) @ g_blas (mc_gpu m)"
    and "g_profiles (mc_gpu m') = g_profiles (mc_gpu m) + (if rs_op_profile (st m') then 1 else 0)"
    and "rs_stream (st m') \<noteq> 0"
proof -
  from initialize_cases [OF ok none i] obtain stream blas flag where c:
    "mc_state m' = Some ((initial_state perf)\<lparr>rs_stream := stream, rs_blas := blas, rs_error_flag := flag\<rparr>)"
    "stream \<noteq> 0" "vendor \<longleftrightarrow> blas \<noteq> 0" "mc_api m' = mc_api m"
    "g_dev (mc_gpu m') = (flag, 4) # g_dev (mc_gpu m)" "blocks_ok ((flag, 4) # g_dev (mc_gpu m))"
    "g_pin (mc_gpu m') = g_pin (mc_gpu m)" "g_streams (mc_gpu m') = stream # g_streams (mc_gpu m)"
    "g_blas (mc_gpu m') = (if vendor then [blas] else []) @ g_blas (mc_gpu m)"
    "g_events (mc_gpu m') = g_events (mc_gpu m)"
    "g_profiles (mc_gpu m') = g_profiles (mc_gpu m) + (if perf then 1 else 0)"
    by cases blast+
  have st: "st m' = (initial_state perf)\<lparr>rs_stream := stream, rs_blas := blas, rs_error_flag := flag\<rparr>"
    using c(1) by simp
  have arena: "session_arena m' = None"
    by (simp add: session_arena_def c(1) initial_state_def)
  have flag: "flag \<noteq> 0"
    using c(6) by (simp add: blocks_ok_def)
  have fresh: "(flag, l) \<notin> set (g_dev (mc_gpu m))" for l
    using blocks_ok_distinct [OF c(6)] by force
  have live: "session_live m' = set (g_dev (mc_gpu m'))" "outside m' = set (g_dev (mc_gpu m'))" "raw_live m' = set (g_dev (mc_gpu m'))"
    by (simp_all add: session_live_def outside_def raw_live_def arena)
  have dev: "dev_of (st m') = (\<lambda>x. (0, 0))(Error_flag := (flag, 4))"
    unfolding st using dev_of_initial flag by simp
  have starts: "starts (dev_of (st m')) = {flag}"
    unfolding dev using flag starts_acquire [of "\<lambda>x :: dev_owner. (0, 0)" Error_flag flag 4] by (simp add: starts_def)
  have pin: "pin_of (st m') = (\<lambda>x. (0, 0))"
    unfolding st by (rule pin_of_initial)
  have "allocator_inv m'"
    using ok c(1,4-6) arena by (simp add: allocator_inv_def device_ok_def)
  moreover have "pinned_inv m'"
    using ok c(4,7) by (simp add: pinned_inv_def device_ok_def)
  moreover have "owned_ok (dev_of (st m')) (session_live m')"
    using owned_acquire(1) [of "\<lambda>x :: dev_owner. (0, 0)" "set (g_dev (mc_gpu m))" Error_flag flag 4 4] flag fresh
    unfolding dev live c(5) by (simp add: owned_ok_def backed_def)
  moreover have "owned_ok (pin_of (st m')) L" for L
    unfolding pin by (simp add: owned_ok_def backed_def)
  moreover have "raw_ptrs (st m') = [0, flag, 0]"
    unfolding st by (simp add: raw_ptrs_def initial_state_def)
  ultimately show "session_ok m'"
    using c(5) by (force simp: session_ok_def live)
  show "dev_strangers m' = set (g_dev (mc_gpu m))"
    unfolding dev_strangers_def live starts c(5) using fresh by force
  show "pin_strangers m' = set (g_pin (mc_gpu m))"
    unfolding pin_strangers_def pin pinned_live_def c(7) by (simp add: starts_def)
  show "event_strangers m' = g_events (mc_gpu m)"
    using c(10) unfolding event_strangers_def st by (simp add: initial_state_def)
  show "\<not> rs_scan_active (st m')" "rs_stream (st m') \<noteq> 0"
    "g_streams (mc_gpu m') = rs_stream (st m') # g_streams (mc_gpu m)"
    "g_blas (mc_gpu m') = (if rs_blas (st m') = 0 then [] else [rs_blas (st m')]) @ g_blas (mc_gpu m)"
    "g_profiles (mc_gpu m') = g_profiles (mc_gpu m) + (if rs_op_profile (st m') then 1 else 0)"
    using c unfolding st by (simp_all add: initial_state_def)
qed

section \<open>The entry points\<close>

text \<open>Updates of fields that own nothing.\<close>

lemma dev_of_cong:
  assumes "rs_pools s' = rs_pools s" "rs_scan_pools s' = rs_scan_pools s" "rs_scan_active s' = rs_scan_active s"
    "rs_scratch s' = rs_scratch s" "rs_blob s' = rs_blob s" "rs_error_flag s' = rs_error_flag s" "rs_loop s' = rs_loop s"
  shows "dev_of s' = dev_of s"
proof
  fix x show "dev_of s' x = dev_of s x"
  proof (cases x)
    case (Buf b) with assms show ?thesis by (cases b) simp_all
  qed (simp_all add: assms)
qed

lemma pin_of_cong:
  assumes "rs_host s' = rs_host s" "rs_loop s' = rs_loop s"
  shows "pin_of s' = pin_of s"
proof
  fix x show "pin_of s' x = pin_of s x"
    by (cases x) (simp_all add: assms host_of_def)
qed

lemma keeps_fields:
  assumes k: "keeps m m1" and f: "\<And>s. rs_pools (f s) = rs_pools s" "\<And>s. rs_scan_pools (f s) = rs_scan_pools s"
    "\<And>s. rs_scratch (f s) = rs_scratch s" "\<And>s. rs_blob (f s) = rs_blob s" "\<And>s. rs_error_flag (f s) = rs_error_flag s"
    "\<And>s. rs_host (f s) = rs_host s" "\<And>s. rs_arena (f s) = rs_arena s" "\<And>s. rs_loop (f s) = rs_loop s"
    "\<And>s. (rs_stream (f s), rs_blas (f s), rs_op_profile (f s), rs_scan_active (f s)) =
      (rs_stream s, rs_blas s, rs_op_profile s, rs_scan_active s)"
  shows "keeps m (upd_st f m1)"
proof -
  have ok: "session_ok m1"
    by (rule keeps_ok [OF k])
  obtain s where s: "mc_state m1 = Some s"
    using session_ok_state [OF ok] by auto
  have D: "dev_of (f s) = dev_of s" "pin_of (f s) = pin_of s"
    using f by (auto intro: dev_of_cong pin_of_cong)
  have "keeps m1 (upd_st f m1)"
    by (rule keeps_same [OF ok]) (use s f D in \<open>simp_all add: session_arena_def fixed_def event_strangers_def raw_ptrs_def\<close>)
  with k show ?thesis
    by (rule keeps_trans)
qed

lemma keeps_stream: "session_ok m \<Longrightarrow> keeps m (set_current_stream h m)"
proof -
  assume ok: "session_ok m"
  have same: "mc_gpu (set_current_stream h m) = mc_gpu m" "mc_state (set_current_stream h m) = mc_state m"
    "mc_api (set_current_stream h m) = mc_api m"
    by (simp_all add: set_current_stream_def)
  show ?thesis
    by (rule keeps_same [OF ok])
      (use session_ok_state [OF ok] in \<open>simp_all add: same session_arena_def fixed_def event_strangers_def\<close>)
qed

lemma begin_compute_keeps:
  assumes ok: "session_ok m"
  shows "keeps m (begin_compute m)"
proof -
  obtain s where s: "mc_state m = Some s"
    using session_ok_state [OF ok] by auto
  have k: "keeps m (upd_st (\<lambda>s. s\<lparr>rs_seqlens := (rs_seqlens s)\<lparr>ci_valid := False, ci_ptr := 0\<rparr>,
                          rs_sai := (rs_sai s)\<lparr>ci_valid := False, ci_ptr := 0\<rparr>\<rparr>) m)"
    by (rule keeps_fields [OF keeps_refl [OF ok]]) simp_all
  from keeps_trans [OF k keeps_stream [OF keeps_ok [OF k]]] show ?thesis
    by (simp add: begin_compute_def s)
qed

lemma flag_ops_keep:
  assumes ok: "session_ok m"
  shows "keeps m (fst (reset_error_flag m))" and "keeps m (fst (set_error_flag m c))"
    and "keeps m (fst (read_and_clear_error_flag m))"
proof -
  have W: "hip_write name a bs x = (y, b) \<Longrightarrow> keeps m x \<Longrightarrow> keeps m y" for x y name a bs b
    using hip_write_keeps [of x name a bs] keeps_trans keeps_ok by (metis fst_conv)
  have C: "hip_call name x = (y, b) \<Longrightarrow> keeps m x \<Longrightarrow> keeps m y" for x y name b
    using hip_call_keeps [of x name] keeps_trans keeps_ok by (metis fst_conv)
  have S: "hip_stream_sync x = (y, b) \<Longrightarrow> keeps m x \<Longrightarrow> keeps m y" for x y b
    using keeps_same_device [of x y] keeps_trans [of m x y] keeps_ok by (auto simp: hip_stream_sync_def same_device_def)
  note K = keeps_refl [OF ok]
  show "keeps m (fst (reset_error_flag m))"
    using K by (auto simp: reset_error_flag_def split: prod.splits intro: W)
  show "keeps m (fst (set_error_flag m c))"
    using K by (auto simp: set_error_flag_def split: prod.splits bool.splits intro: W S)
  let ?flag = "rs_error_flag (st m)"
  obtain m1 b1 where 1: "hip_call ''hipMemcpyAsync'' m = (m1, b1)" by fastforce
  obtain m2 b2 where 2: "hip_stream_sync m1 = (m2, b2)" by fastforce
  obtain m3 b3 where 3: "hip_write ''hipMemsetAsync'' ?flag (replicate 4 0) m2 = (m3, b3)" by fastforce
  note k1 = C [OF 1 K] note k2 = S [OF 2 k1] note k3 = W [OF 3 k2]
  define code where "code = (le_word (read_mem ?flag 4 (mc_gpu m)) :: 32 word)"
  show "keeps m (fst (read_and_clear_error_flag m))"
    unfolding read_and_clear_error_flag_def Let_def code_def [symmetric] 1 2 3 prod.case
    using K k1 k2 k3 by (simp split: bool.split)
qed

lemma op_states_keep:
  assumes ok: "session_ok m"
  shows "keeps m (fst (op_states_alloc m n))" and "op_state_set m slot v = Some m' \<Longrightarrow> keeps m m'"
    and "keeps m (set_output_allocator m a)"
proof -
  note K = keeps_refl [OF ok]
  have 0: "keeps m (upd_st (\<lambda>s. s\<lparr>rs_op_states := None, rs_num_op_states := 0\<rparr>) m)"
    by (rule keeps_fields [OF K]) simp_all
  have 1: "keeps m (fst (heap_call x k))" if "keeps m x" for x k
    using keeps_trans [OF that keeps_same_device] keeps_ok [OF that] by (simp add: heap_call_def same_device_upd)
  have 2: "keeps m (upd_st (\<lambda>s. s\<lparr>rs_op_states := a, rs_num_op_states := b\<rparr>) x)" if "keeps m x" for a b x
    by (rule keeps_fields [OF that]) simp_all
  obtain x b where x: "heap_call (upd_st (\<lambda>s. s\<lparr>rs_op_states := None, rs_num_op_states := 0\<rparr>) m) (8 * nat n) = (x, b)"
    by fastforce
  show "keeps m (fst (op_states_alloc m n))"
    using 0 1 [OF 0, of "8 * nat n"] 2 by (simp add: op_states_alloc_def Let_def x split: bool.split)
  show "op_state_set m slot v = Some m' \<Longrightarrow> keeps m m'"
    by (auto simp: op_state_set_def split: option.splits if_splits intro!: keeps_fields [OF K])
  show "keeps m (set_output_allocator m a)"
    by (auto simp: set_output_allocator_def split: option.split intro!: keeps_fields [OF K])
qed

lemma arena_init_exact:
  assumes n: "n < size_limit" and d: "4096 dvd n"
  shows "ar_size (arena_init n) = n" "ar_live (arena_init n) = []" "ar_used (arena_init n) = 0"
proof -
  have m: "(of_nat k_align - 1 :: 64 word) = mask 12"
    by (simp add: k_align_def mask_eq_exp_minus_1)
  have "unat ((of_nat n :: 64 word) AND NOT (of_nat k_align - 1)) = n - n mod 2 ^ 12"
    unfolding m unat_and_not_mask using n by (simp add: unat_of_nat)
  then show "ar_size (arena_init n) = n" "ar_live (arena_init n) = []" "ar_used (arena_init n) = 0"
    using d by (simp_all add: arena_init_def Let_def dvd_eq_mod_eq_0)
qed

lemma create_transient_arena_keeps:
  assumes ok: "session_ok m"
  shows "keeps m (create_transient_arena m n)"
proof (cases "rs_arena (st m) = None")
  case False
  then show ?thesis
    using keeps_refl [OF ok] by (simp add: create_transient_arena_def)
next
  case none: True
  define bytes where "bytes = sz_mul (transient_arena_mib m n) (2 ^ 20)"
  obtain m1 r where a: "hip_malloc m bytes = (m1, r)"
    by fastforce
  obtain s where s: "mc_state m = Some s"
    using session_ok_state [OF ok] by auto
  have arena: "session_arena m = None"
    using none s by (simp add: session_arena_def)
  have def: "create_transient_arena m n = (if bytes = 0 then m else (case r of
        None \<Rightarrow> fst (hip_call ''hipGetLastError'' m1)
      | Some p \<Rightarrow> upd_st (\<lambda>s. s\<lparr>rs_arena := Some
          \<lparr>ta_base = p, ta_blocks = arena_init bytes, ta_direct = [], ta_live = 0, ta_hwm = 0\<rparr>\<rparr>) m1))"
    using none a by (simp add: create_transient_arena_def bytes_def Let_def split: option.split)
  show ?thesis
  proof (cases "bytes = 0")
    case True
    then show ?thesis
      using def keeps_refl [OF ok] by simp
  next
    case pos: False
    have m1: "mc_state m1 = mc_state m" "g_pin (mc_gpu m1) = g_pin (mc_gpu m)" "mc_api m1 = mc_api m" "fixed m1 = fixed m"
      "g_events (mc_gpu m1) = g_events (mc_gpu m)" "g_streams (mc_gpu m1) = g_streams (mc_gpu m)"
      "g_blas (mc_gpu m1) = g_blas (mc_gpu m)" "g_profiles (mc_gpu m1) = g_profiles (mc_gpu m)"
      using a by (auto simp: hip_malloc_def fixed_def split: option.splits if_splits)
    show ?thesis
    proof (cases r)
      case None
      have "same_device m (fst (hip_call ''hipGetLastError'' m1))"
        using a None m1 by (auto simp: same_device_def hip_call_def dest: hip_malloc_None)
      then show ?thesis
        using keeps_same_device [OF ok] m1 def pos None by (simp add: hip_call_def)
    next
      case (Some p)
      let ?a = "\<lparr>ta_base = p, ta_blocks = arena_init bytes, ta_direct = [], ta_live = 0, ta_hwm = 0\<rparr>"
      let ?m = "upd_st (\<lambda>s. s\<lparr>rs_arena := Some ?a\<rparr>) m1"
      have a': "hip_malloc m bytes = (m1, Some p)" "0 < bytes"
        using a Some pos by simp_all
      note M = hip_malloc_Some [OF a']
      have inv: "allocator_inv m"
        using ok by (simp add: session_ok_def)
      note I = allocator_invD [OF inv]
      note blocks = hip_malloc_blocks [OF I(1,2) a']
      have fresh: "(p, l) \<notin> set (g_dev (mc_gpu m))" for l
        using blocks_ok_distinct [OF blocks] by force
      have small: "bytes < size_limit"
        by (simp add: bytes_def sz_mul_def)
      have arena': "session_arena ?m = Some ?a" "mc_state ?m \<noteq> None" "mc_gpu ?m = mc_gpu m1" "mc_api ?m = mc_api m"
        using s m1 M by (simp_all add: session_arena_def)
      have "4096 dvd transient_arena_mib m n * 2 ^ 20" "(4096 :: nat) dvd size_limit"
        by (simp_all add: dvd_mult)
      then have "4096 dvd bytes"
        unfolding bytes_def sz_mul_def by (rule dvd_mod)
      note E = arena_init_exact [OF small this]
      then have range: "arena_range ?a = (p, bytes)"
        by (simp add: arena_range_def)
      have ai: "arena_inv (arena_init bytes)"
        using a'(2) small by (intro arena_init_inv) simp_all
      have inv': "allocator_inv ?m"
        using I(1) blocks arena' ai M(1,2) E by (simp add: allocator_inv_def arena_ok_def)
      have live: "session_live ?m = session_live m" "outside ?m = outside m" "raw_live ?m = raw_live m"
        using fresh [of bytes] unfolding session_live_def outside_def raw_live_def arena arena' M(1)
        by (simp_all add: E range)
      have D: "dev_of (st ?m) = dev_of (st m)"
        by (rule dev_of_cong) (simp_all add: s m1(1))
      have "pin_of (st ?m) = pin_of (st m)"
        by (rule pin_of_cong) (simp_all add: s m1(1))
      moreover have "raw_ptrs (st ?m) = raw_ptrs (st m)"
        by (simp add: raw_ptrs_def s m1(1))
      moreover note D
      ultimately have D: "dev_of (st ?m) = dev_of (st m)" "pin_of (st ?m) = pin_of (st m)" "raw_ptrs (st ?m) = raw_ptrs (st m)"
        by blast+
      have P: "pinned_inv ?m = pinned_inv m" "pinned_live ?m = pinned_live m"
        using pinned_same [of ?m m] arena' m1 by simp_all
      have "session_ok ?m"
        using ok inv' unfolding session_ok_def D live P by simp
      moreover have "fixed ?m = fixed m" "event_strangers ?m = event_strangers m"
        using s m1 by (simp_all add: fixed_def event_strangers_def)
      ultimately have "keeps m ?m"
        unfolding keeps_def dev_strangers_def pin_strangers_def strangers_def D live P by simp
      then show ?thesis
        using def pos Some by simp
    qed
  qed
qed

section \<open>A session's steps\<close>

text \<open>
  What the host program and the compiled model do with a session between its creation and
  its teardown.  A body of a loop or Scan is any function that itself keeps the session.
\<close>

inductive session_step :: "machine \<Rightarrow> machine \<Rightarrow> bool" where
  arena: "session_step m (create_transient_arena m n)"
| request: "request_size r < size_limit \<Longrightarrow> serve m r = Some m' \<Longrightarrow> session_step m m'"
| host_request: "host_request_size r < size_limit \<Longrightarrow> serve_host m r = (m', served) \<Longrightarrow> session_step m m'"
| compute: "session_step m (begin_compute m)"
| reset_flag: "session_step m (fst (reset_error_flag m))"
| set_flag: "session_step m (fst (set_error_flag m c))"
| read_flag: "session_step m (fst (read_and_clear_error_flag m))"
| alloc_states: "session_step m (fst (op_states_alloc m n))"
| set_state: "op_state_set m slot v = Some m' \<Longrightarrow> session_step m m'"
| output_allocator: "session_step m (set_output_allocator m a)"
| stream: "session_step m (set_current_stream h m)"
| loop: "(\<And>a b c d. body_keeps (\<lambda>m. body m a b c d)) \<Longrightarrow> k < int size_limit \<Longrightarrow>
    run_loop_impl p m (Some body) k cond carried captures = Some (m', rc) \<Longrightarrow> session_step m m'"
| scan: "(\<And>i a b c d. body_keeps (\<lambda>m. sbody m i a b c d)) \<Longrightarrow>
    run_scan m (Some sbody) n a b c d = (m', rc) \<Longrightarrow> session_step m m'"

lemma session_step_keeps: "session_step m m' \<Longrightarrow> session_ok m \<Longrightarrow> keeps m m'"
proof (induction rule: session_step.induct)
  case (loop body k p m cond carried captures m' rc)
  then show ?case
    using run_loop_impl_keeps by blast
next
  case (scan sbody m n a b c d m' rc)
  then show ?case
    using run_scan_keeps(1) by blast
qed (auto intro: create_transient_arena_keeps serve_keeps serve_host_keeps begin_compute_keeps flag_ops_keep
      op_states_keep keeps_stream)

lemma session_steps_keep:
  assumes "session_step\<^sup>*\<^sup>* m m'" and "session_ok m"
  shows "keeps m m'"
  using assms
proof (induction rule: rtranclp_induct)
  case (step y z)
  have k: "keeps m y"
    using step by blast
  from keeps_trans [OF k session_step_keeps [OF step.hyps(2) keeps_ok [OF k]]] show ?case .
qed (simp add: keeps_refl)

text \<open>A body made of session steps is a body the drivers accept.\<close>

lemma body_keeps_steps: "(\<And>m. session_step\<^sup>*\<^sup>* m (fst (f m))) \<Longrightarrow> body_keeps f"
  using session_steps_keep by (simp add: body_keeps_def)

end
