(* ===== verification/Constants_Load.thy ===== *)
theory Constants_Load
  imports Session_Life
begin

text \<open>
  Loading a model's constants, from \<open>hipdnn_ep_runtime_state.cpp\<close>: one device range holds them
  all, filled from the constants file as a whole or constant by constant from a splat, a file
  of the operating system or the constants file; disk-resident tables stay in mapped files
  and their rows are gathered on demand.

  The file system of the execution provider, the files of the operating system and the
  decoded metadata are data the code is given: records of functions and lists.  A read or
  write outside a buffer, and an exception, are the result \<open>None\<close>.
\<close>

section \<open>Metadata and files\<close>

datatype source =
    No_source
  | Splat_source "8 word list"
  | File_ref_source string int
  | Mem_source int

record const_info =
  ci_size :: int
  ci_offset :: int
  ci_source :: source
  ci_disk :: bool

text \<open>A reader: its size, its mapping if it has one, and the bytes \<open>fread\<close> yields in order.\<close>

record reader =
  rd_size :: nat
  rd_map :: "8 word list option"
  rd_data :: "8 word list"

text \<open>
  \<open>fs_reader\<close> is \<open>create_reader_template\<close>, \<open>os_open\<close> is \<open>fopen\<close> with the file's bytes, and
  \<open>os_map\<close> the mapping of a whole file, which fails for an empty one.
\<close>

record files =
  fs_reader :: "string \<Rightarrow> reader option"
  os_open :: "string \<Rightarrow> 8 word list option"
  os_map :: "string \<Rightarrow> 8 word list option"

text \<open>The cast of an \<open>int64_t\<close> to \<open>size_t\<close>.\<close>

definition to_size :: "int \<Rightarrow> nat" where
  "to_size x = nat (x mod 2 ^ 64)"

definition map_file_readonly :: "files \<Rightarrow> string \<Rightarrow> 8 word list option" where
  "map_file_readonly fs path = (case os_map fs path of None \<Rightarrow> None | Some bytes \<Rightarrow> if bytes = [] then None else Some bytes)"

section \<open>The blob\<close>

definition prepare_constants_array :: "machine \<Rightarrow> const_info list \<Rightarrow> machine \<times> int" where
  "prepare_constants_array m constants =
     (if constants = [] then (m, 0)
      else case heap_call m (8 * length constants) of
        (m1, False) \<Rightarrow> (m1, 1)
      | (m1, True) \<Rightarrow> (upd_st (\<lambda>s. s\<lparr>rs_constants := replicate (length constants) 0\<rparr>) m1, 0))"

definition const_end :: "const_info \<Rightarrow> nat" where
  "const_end c = sz_add (to_size (ci_offset c)) (to_size (ci_size c))"

definition compute_constants_total_size :: "const_info list \<Rightarrow> nat" where
  "compute_constants_total_size constants =
     foldl (\<lambda>total c. if ci_disk c then total else if const_end c > total then const_end c else total) 0 constants"

definition hipmalloc_and_fixup :: "machine \<Rightarrow> const_info list \<Rightarrow> nat \<Rightarrow> machine \<times> int" where
  "hipmalloc_and_fixup m constants total_size =
     (case hip_malloc m total_size of
        (m1, None) \<Rightarrow> (m1, 1)
      | (m1, Some blob) \<Rightarrow>
          (upd_st (\<lambda>s. s\<lparr>rs_blob := blob,
             rs_constants := map2 (\<lambda>c p. if ci_disk c then p else sz_add blob (to_size (ci_offset c))) constants
               (rs_constants s)\<rparr>) m1, 0))"

text \<open>\<open>hipMemcpy\<close> of host bytes to the device, whose destination must be inside one live range.\<close>

definition in_device :: "machine \<Rightarrow> nat \<Rightarrow> nat \<Rightarrow> bool" where
  "in_device m dst n \<longleftrightarrow> n = 0 \<or> list_ex (\<lambda>b. fst b \<le> dst \<and> dst + n \<le> fst b + snd b) (g_dev (mc_gpu m))"

definition upload :: "machine \<Rightarrow> nat \<Rightarrow> 8 word list \<Rightarrow> (machine \<times> bool) option" where
  "upload m dst bytes = (if in_device m dst (length bytes) then Some (hip_write ''hipMemcpy'' dst bytes m) else None)"

definition upload_or :: "machine \<Rightarrow> nat \<Rightarrow> 8 word list \<Rightarrow> (machine \<times> int) option" where
  "upload_or m dst bytes = map_option (\<lambda>(m1, ok). (m1, if ok then 0 else 1)) (upload m dst bytes)"

section \<open>The whole file\<close>

definition bulk_load_constants :: "machine \<Rightarrow> files \<Rightarrow> string \<Rightarrow> (machine \<times> int) option" where
  "bulk_load_constants m fs constants_filename =
     (case fs_reader fs constants_filename of
        None \<Rightarrow> Some (m, 1)
      | Some reader \<Rightarrow>
          let total_size = rd_size reader; blob = rs_blob (st m)
          in (case rd_map reader of
                Some src \<Rightarrow> if length src < total_size then None else upload_or m blob (take total_size src)
              | None \<Rightarrow>
                  (case heap_call m total_size of
                     (m1, False) \<Rightarrow> Some (m1, 1)
                   | (m1, True) \<Rightarrow>
                       if length (rd_data reader) < total_size then Some (m1, 1)
                       else upload_or m1 blob (take total_size (rd_data reader)))))"

section \<open>File references\<close>

record fref_cache =
  fc_path :: string
  fc_fp :: "8 word list option"

definition fref_cache_init :: fref_cache where
  "fref_cache_init = \<lparr>fc_path = [], fc_fp = None\<rparr>"

definition fref_cache_release :: "fref_cache \<Rightarrow> fref_cache" where
  "fref_cache_release c = c\<lparr>fc_fp := None\<rparr>"

definition fref_cache_open :: "files \<Rightarrow> fref_cache \<Rightarrow> string \<Rightarrow> fref_cache \<times> bool" where
  "fref_cache_open fs c path =
     (if fc_fp c \<noteq> None \<and> fc_path c = path then (c, True)
      else
        let c1 = fref_cache_release c
        in if length path + 1 > 1024 then (c1, False)
           else (case os_open fs path of
                   None \<Rightarrow> (c1\<lparr>fc_path := path, fc_fp := None\<rparr>, False)
                 | Some bytes \<Rightarrow> (c1\<lparr>fc_path := path, fc_fp := Some bytes\<rparr>, True)))"

text \<open>The seek to a negative offset fails; a read past the end is short.\<close>

definition fref_fetch :: "8 word list \<Rightarrow> int \<Rightarrow> nat \<Rightarrow> 8 word list option" where
  "fref_fetch file file_offset sz =
     (if file_offset < 0 then None
      else let got = take sz (drop (nat file_offset) file)
           in if length got \<noteq> sz then None else Some got)"

section \<open>The constants file, read on demand\<close>

record file_cache =
  cf_reader :: "reader option"
  cf_tried :: bool

definition file_cache_init :: file_cache where
  "file_cache_init = \<lparr>cf_reader = None, cf_tried = False\<rparr>"

definition constants_file_cache_open :: "files \<Rightarrow> string \<Rightarrow> file_cache \<Rightarrow> file_cache \<times> bool" where
  "constants_file_cache_open fs constants_filename c =
     (if cf_tried c then (c, cf_reader c \<noteq> None)
      else let r = fs_reader fs constants_filename in (\<lparr>cf_reader = r, cf_tried = True\<rparr>, r \<noteq> None))"

text \<open>The chunk size of the skip, and the skip of \<open>remaining\<close> bytes from \<open>pos\<close>: where it ends.\<close>

definition k_skip_chunk :: nat where
  "k_skip_chunk = 64 * 1024"

function skip_bytes :: "nat \<Rightarrow> nat \<Rightarrow> nat \<Rightarrow> nat option" where
  "skip_bytes len pos remaining =
     (if remaining = 0 then Some pos
      else
        let to_read = min remaining k_skip_chunk; got = min to_read (len - pos)
        in if got \<noteq> to_read then None else skip_bytes len (pos + got) (remaining - to_read))"
  by pat_completeness auto
termination
  by (relation "measure (\<lambda>(len, pos, remaining). remaining)") (auto simp: k_skip_chunk_def)

declare skip_bytes.simps [simp del]

datatype content = Bytes "8 word list" | Fetch_failed | Out_of_bounds

text \<open>The pointer \<open>mmap_base + offset\<close> of a negative offset lies before the mapping.\<close>

definition constants_file_fetch :: "reader \<Rightarrow> int \<Rightarrow> nat \<Rightarrow> content" where
  "constants_file_fetch r offset sz =
     (if sz_add (to_size offset) sz > rd_size r then Fetch_failed
      else case rd_map r of
        Some base \<Rightarrow>
          if sz = 0 then Bytes []
          else if offset < 0 \<or> nat offset + sz > length base then Out_of_bounds
          else Bytes (take sz (drop (nat offset) base))
      | None \<Rightarrow>
          (case skip_bytes (length (rd_data r)) 0 (to_size offset) of
             None \<Rightarrow> Fetch_failed
           | Some pos \<Rightarrow>
               let got = take sz (drop pos (rd_data r))
               in if length got \<noteq> sz then Fetch_failed else Bytes got))"

section \<open>Constant by constant\<close>

definition max_tensor_size :: "const_info list \<Rightarrow> nat" where
  "max_tensor_size constants =
     foldl (\<lambda>n c. if ci_disk c then n else if to_size (ci_size c) > n then to_size (ci_size c) else n) 0 constants"

text \<open>The element tiled until \<open>sz\<close> bytes are reached; the last copy may go past them.\<close>

function splat_fill :: "8 word list \<Rightarrow> nat \<Rightarrow> nat \<Rightarrow> 8 word list" where
  "splat_fill eb sz off = (if off < sz \<and> eb \<noteq> [] then eb @ splat_fill eb sz (off + length eb) else [])"
  by pat_completeness auto
termination
  by (relation "measure (\<lambda>(eb, sz, off). sz - off)") (auto simp: neq_Nil_conv)

declare splat_fill.simps [simp del]

text \<open>The state of the loop over the constants.\<close>

record loading =
  ld_machine :: machine
  ld_fref :: fref_cache
  ld_file :: file_cache

definition load_disk_resident :: "files \<Rightarrow> loading \<Rightarrow> nat \<Rightarrow> const_info \<Rightarrow> loading \<times> int" where
  "load_disk_resident fs l i c =
     (let (path, file_offset) = (case ci_source c of File_ref_source p off \<Rightarrow> (p, off) | _ \<Rightarrow> ([], 0));
          sz = to_size (ci_size c);
          view = (case map_file_readonly fs path of
                    None \<Rightarrow> None
                  | Some v \<Rightarrow> if file_offset < 0 \<or> sz_add (nat file_offset) sz > length v then None else Some v)
      in case view of
           None \<Rightarrow> (l, 1)
         | Some v \<Rightarrow>
             (l\<lparr>ld_machine := upd_st (\<lambda>s. s\<lparr>rs_disk := map_option
                  (\<lambda>ds. ds[i := \<lparr>dc_view = Some v, dc_data = nat file_offset, dc_size = ci_size c\<rparr>]) (rs_disk s)\<rparr>)
                (ld_machine l)\<rparr>, 0))"

text \<open>The bytes of one constant, fetched to a staging buffer of \<open>staging\<close> bytes.\<close>

definition fetch_source :: "files \<Rightarrow> string \<Rightarrow> nat \<Rightarrow> loading \<Rightarrow> const_info \<Rightarrow> loading \<times> content" where
  "fetch_source fs constants_filename staging l c =
     (let sz = to_size (ci_size c)
      in case ci_source c of
           Splat_source eb \<Rightarrow>
             if eb = [] \<or> length eb > 8 then (l, Fetch_failed)
             else let bytes = splat_fill eb sz 0
                  in (l, if length bytes > staging then Out_of_bounds else Bytes (take sz bytes))
         | File_ref_source path file_offset \<Rightarrow>
             (case fref_cache_open fs (ld_fref l) path of
                (fc, False) \<Rightarrow> (l\<lparr>ld_fref := fc\<rparr>, Fetch_failed)
              | (fc, True) \<Rightarrow>
                  (l\<lparr>ld_fref := fc\<rparr>,
                   case fref_fetch (the (fc_fp fc)) file_offset sz of None \<Rightarrow> Fetch_failed | Some bytes \<Rightarrow> Bytes bytes))
         | Mem_source mem_offset \<Rightarrow>
             (case constants_file_cache_open fs constants_filename (ld_file l) of
                (cf, False) \<Rightarrow> (l\<lparr>ld_file := cf\<rparr>, Fetch_failed)
              | (cf, True) \<Rightarrow> (l\<lparr>ld_file := cf\<rparr>, constants_file_fetch (the (cf_reader cf)) mem_offset sz))
         | No_source \<Rightarrow> (l, Fetch_failed))"

definition load_entry :: "files \<Rightarrow> string \<Rightarrow> nat \<Rightarrow> loading \<Rightarrow> nat \<Rightarrow> const_info \<Rightarrow> (loading \<times> int) option" where
  "load_entry fs constants_filename staging l i c =
     (if ci_disk c then Some (load_disk_resident fs l i c)
      else case fetch_source fs constants_filename staging l c of
        (l1, Fetch_failed) \<Rightarrow> Some (l1, 1)
      | (l1, Out_of_bounds) \<Rightarrow> None
      | (l1, Bytes bytes) \<Rightarrow>
          (let dst = sz_add (rs_blob (st (ld_machine l1))) (to_size (ci_offset c))
           in map_option (\<lambda>(m, rc). (l1\<lparr>ld_machine := m\<rparr>, rc)) (upload_or (ld_machine l1) dst bytes)))"

fun load_entries :: "files \<Rightarrow> string \<Rightarrow> nat \<Rightarrow> loading \<Rightarrow> nat \<Rightarrow> const_info list \<Rightarrow> (loading \<times> int) option" where
  "load_entries fs name staging l i [] = Some (l, 0)"
| "load_entries fs name staging l i (c # cs) =
     (case load_entry fs name staging l i c of
        None \<Rightarrow> None
      | Some (l1, rc) \<Rightarrow> if rc \<noteq> 0 then Some (l1, rc) else load_entries fs name staging l1 (Suc i) cs)"

definition no_disk_constant :: disk_constant where
  "no_disk_constant = \<lparr>dc_view = None, dc_data = 0, dc_size = 0\<rparr>"

definition per_entry_load_constants :: "machine \<Rightarrow> const_info list \<Rightarrow> files \<Rightarrow> string \<Rightarrow> (machine \<times> int) option" where
  "per_entry_load_constants m constants fs constants_filename =
     (let staging = max_tensor_size constants;
          (m1, ok1) = (if list_ex ci_disk constants then heap_call m (40 * length constants) else (m, True))
      in if \<not> ok1 then Some (m1, 1)
         else
           let m2 = (if list_ex ci_disk constants
                     then upd_st (\<lambda>s. s\<lparr>rs_disk := Some (replicate (length constants) no_disk_constant)\<rparr>) m1 else m1);
               (m3, ok3) = (if staging \<noteq> 0 then heap_call m2 staging else (m2, True))
           in if \<not> ok3 then Some (m3, 1)
              else map_option (\<lambda>(l, rc). (ld_machine l, rc))
                (load_entries fs constants_filename staging
                  \<lparr>ld_machine = m3, ld_fref = fref_cache_init, ld_file = file_cache_init\<rparr> 0 constants))"

section \<open>Initialization with a file system\<close>

text \<open>The options the host passes, \<open>None\<close> for a null key or value; a later key replaces an earlier one.\<close>

definition provider_options :: "(string option \<times> string option) list \<Rightarrow> (string \<times> string) list option" where
  "provider_options config =
     (if config = [] then None
      else Some (foldl (\<lambda>os (key, value). case key of
          None \<Rightarrow> os
        | Some k \<Rightarrow> (k, case value of None \<Rightarrow> [] | Some v \<Rightarrow> v) # filter (\<lambda>e. fst e \<noteq> k) os) [] config))"

text \<open>The metadata: the name of the constants file, if any, and the constants; \<open>None\<close> is no metadata.\<close>

definition set_options :: "(string option \<times> string option) list \<Rightarrow> machine \<Rightarrow> machine" where
  "set_options config m =
     (let m1 = upd_st (\<lambda>s. s\<lparr>rs_options := provider_options config\<rparr>) m;
          (m2, policy) = hip_create ''hip_gqa_autotune_create'' (\<lambda>h g. g) m1;
          m3 = upd_st (\<lambda>s. s\<lparr>rs_gqa_policy := (case policy of None \<Rightarrow> 0 | Some p \<Rightarrow> p)\<rparr>) m2
      in upd_gpu (emit (Ev_call ''hip_matmul_nbits_autotune_set_mode'')) m3)"

text \<open>A failed step cleans the session up.\<close>

definition or_cleanup :: "machine \<times> int \<Rightarrow> machine \<times> int" where
  "or_cleanup r = (if snd r \<noteq> 0 then (fst (cleanup (fst r)), snd r) else r)"

definition load_constants :: "machine \<Rightarrow> files \<Rightarrow> string option \<Rightarrow> const_info list \<Rightarrow> (machine \<times> int) option" where
  "load_constants m fs filename constants =
     (let name = (case filename of None \<Rightarrow> ''constants.bin'' | Some f \<Rightarrow> f)
      in case prepare_constants_array m constants of
           (m1, rc1) \<Rightarrow>
             if rc1 \<noteq> 0 then Some (m1, rc1)
             else
               (case hipmalloc_and_fixup m1 constants (compute_constants_total_size constants) of
                  (m2, rc2) \<Rightarrow>
                    if rc2 \<noteq> 0 then Some (m2, rc2)
                    else if list_ex (\<lambda>c. ci_source c \<noteq> No_source) constants
                      then per_entry_load_constants m2 constants fs name
                      else bulk_load_constants m2 fs name))"

definition init_with_fs ::
  "bool \<Rightarrow> bool \<Rightarrow> machine \<Rightarrow> files option \<Rightarrow> (string option \<times> const_info list) option \<Rightarrow>
   (string option \<times> string option) list \<Rightarrow> (machine \<times> int) option"
where
  "init_with_fs perf vendor m fs metadata config =
     (case fs of
        None \<Rightarrow> Some (m, 1)
      | Some files \<Rightarrow>
          (case initialize_state_handles perf vendor m of
             (m1, rc) \<Rightarrow>
               if rc \<noteq> 0 then Some (m1, rc)
               else
                 let m2 = set_options config m1
                 in (case metadata of
                       None \<Rightarrow> Some (create_transient_arena m2 0, 0)
                     | Some (filename, constants) \<Rightarrow>
                         if constants = [] then Some (create_transient_arena m2 0, 0)
                         else (case load_constants m2 files filename constants of
                                 None \<Rightarrow> None
                               | Some r \<Rightarrow>
                                   if snd r \<noteq> 0 then Some (or_cleanup r)
                                   else Some (create_transient_arena (fst r) (compute_constants_total_size constants), 0)))))"

section \<open>Rows of a disk-resident table\<close>

text \<open>The rows \<open>[begin, end)\<close> of one task copied to their places; a null row is zeros.\<close>

definition row_bytes_of :: "8 word list option \<Rightarrow> nat \<Rightarrow> 8 word list" where
  "row_bytes_of row row_bytes = (case row of None \<Rightarrow> replicate row_bytes 0 | Some bytes \<Rightarrow> bytes)"

definition copy_rows :: "8 word list option list \<Rightarrow> nat \<Rightarrow> nat \<Rightarrow> nat \<times> nat \<Rightarrow> gpu \<Rightarrow> gpu" where
  "copy_rows rows dst row_bytes task g =
     foldl (\<lambda>g i. write_host (dst + i * row_bytes) (row_bytes_of (rows ! i) row_bytes) g) g [fst task ..< snd task]"

definition k_max_threads :: nat where
  "k_max_threads = 8"

definition k_min_bytes_per_thread :: nat where
  "k_min_bytes_per_thread = 4 * 2 ^ 20"

definition thread_count :: "nat \<Rightarrow> nat \<Rightarrow> nat" where
  "thread_count n row_bytes = min k_max_threads (max 1 (n * row_bytes div k_min_bytes_per_thread))"

definition row_tasks :: "nat \<Rightarrow> nat \<Rightarrow> (nat \<times> nat) list" where
  "row_tasks n row_bytes =
     (let threads = thread_count n row_bytes in map (\<lambda>t. (n * t div threads, n * (t + 1) div threads)) [0 ..< threads])"

text \<open>
  The tasks run on threads, or inline where a thread cannot be made: \<open>order\<close> is the order in
  which they take effect.
\<close>

definition gather_rows :: "(nat \<times> nat) list \<Rightarrow> 8 word list option list \<Rightarrow> nat \<Rightarrow> nat \<Rightarrow> gpu \<Rightarrow> gpu" where
  "gather_rows order rows row_bytes dst g = foldl (\<lambda>g task. copy_rows rows dst row_bytes task g) g order"

text \<open>The \<open>k\<close>-th index among the bytes read back, four or eight bytes wide and signed.\<close>

definition index_at :: "nat \<Rightarrow> 8 word list \<Rightarrow> nat \<Rightarrow> int" where
  "index_at index_bytes bytes k =
     (let raw = take index_bytes (drop (k * index_bytes) bytes)
      in if index_bytes = 8 then sint (le_word raw :: 64 word) else sint (le_word raw :: 32 word))"

definition select_row :: "disk_constant \<Rightarrow> nat \<Rightarrow> int \<Rightarrow> int \<Rightarrow> 8 word list option" where
  "select_row table row_bytes num_rows index =
     (let row = (if index < 0 then index + num_rows else index)
      in if row < 0 \<or> num_rows \<le> row then None
         else Some (take row_bytes (drop (dc_data table + nat row * row_bytes) (the (dc_view table)))))"

definition region :: "nat \<Rightarrow> nat" where
  "region indices_size = unat ((word_of_nat (sz_add indices_size 63) :: 64 word) AND NOT 63)"

definition disk_constant_gather_rows ::
  "((nat \<times> nat) list \<Rightarrow> (nat \<times> nat) list) \<Rightarrow> machine \<Rightarrow> int \<Rightarrow> nat \<Rightarrow> int \<Rightarrow> int \<Rightarrow> int \<Rightarrow> int \<Rightarrow> nat \<Rightarrow> (machine \<times> int) option"
where
  "disk_constant_gather_rows schedule m constant_index indices num_indices index_bytes num_rows row_bytes dst =
     (case mc_state m of
        None \<Rightarrow> Some (m, -1)
      | Some s \<Rightarrow>
          (case rs_disk s of
             None \<Rightarrow> Some (m, -1)
           | Some tables \<Rightarrow>
               if constant_index < 0 \<or> nat constant_index \<ge> length (rs_constants s) \<or> indices = 0 \<or> dst = 0 \<or>
                  (index_bytes \<noteq> 4 \<and> index_bytes \<noteq> 8) then Some (m, -1)
               else
                 let table = tables ! nat constant_index
                 in if dc_view table = None \<or> num_rows \<le> 0 \<or> row_bytes \<le> 0 \<or> sint (word_of_int (row_bytes * num_rows) :: 64 word) \<noteq> dc_size table
                    then Some (m, -1)
                    else
                      let indices_size = to_size (num_indices * index_bytes);
                          rows_at = region indices_size;
                          rows_size = to_size (num_indices * row_bytes)
                      in (case ensure_disk_gather_staging m (sz_add rows_at rows_size) of
                            (m1, rc) \<Rightarrow>
                              if rc \<noteq> 0 then Some (m1, -1)
                              else
                                let host = sc_ptr (rs_host (st m1) Disk_gather_staging);
                                    (m2, ok2) = hip_call ''hipMemcpyAsync'' m1;
                                    (m3, ok3) = (if ok2 then hip_stream_sync m2 else (m2, False))
                                in if \<not> ok3 then Some (m3, -1)
                                   else if num_indices < 0 then None
                                   else
                                     let bytes = read_mem indices indices_size (mc_gpu m1);
                                         rows = map (\<lambda>k. select_row table (nat row_bytes) num_rows
                                           (index_at (nat index_bytes) bytes k)) [0 ..< nat num_indices];
                                         m4 = upd_gpu (\<lambda>g. gather_rows (schedule (row_tasks (length rows) (nat row_bytes)))
                                           rows (nat row_bytes) (host + rows_at) (write_host host bytes g)) m3;
                                         (m5, ok5) = hip_write ''hipMemcpyAsync'' dst
                                           (read_host (host + rows_at) rows_size (mc_gpu m4)) m4;
                                         (m6, ok6) = (if ok5 then hip_stream_sync m5 else (m5, False))
                                     in Some (m6, if ok6 then 0 else -1))))"

end
