(* ===== verification/Constants_Correct.thy ===== *)
theory Constants_Correct
  imports Constants_Load
begin

text \<open>
  What loading leaves in the device: the bytes of each constant's source, described without
  the caches, the chunked skip and the staging buffer the code uses.
\<close>

section \<open>Sources\<close>

text \<open>The bytes a constant's source stands for, where it has them.\<close>

definition slice :: "nat \<Rightarrow> nat \<Rightarrow> 'a list \<Rightarrow> 'a list option" where
  "slice off n bytes = (if off + n \<le> length bytes then Some (take n (drop off bytes)) else None)"

definition reader_bytes :: "reader \<Rightarrow> 8 word list" where
  "reader_bytes r = (case rd_map r of Some b \<Rightarrow> b | None \<Rightarrow> rd_data r)"

definition source_content :: "files \<Rightarrow> string \<Rightarrow> const_info \<Rightarrow> 8 word list option" where
  "source_content fs name c =
     (let sz = nat (ci_size c)
      in case ci_source c of
           No_source \<Rightarrow> None
         | Splat_source eb \<Rightarrow>
             if eb = [] \<or> length eb > 8 then None else Some (map (\<lambda>i. eb ! (i mod length eb)) [0 ..< sz])
         | File_ref_source path off \<Rightarrow>
             if off < 0 \<or> length path + 1 > 1024 then None
             else (case os_open fs path of None \<Rightarrow> None | Some bytes \<Rightarrow> if sz = 0 then Some [] else slice (nat off) sz bytes)
         | Mem_source off \<Rightarrow>
             if off < 0 then None
             else (case fs_reader fs name of None \<Rightarrow> None | Some r \<Rightarrow> slice (nat off) sz (reader_bytes r)))"

text \<open>What a reader promises: its size is the length of its mapping and of what it yields.\<close>

definition reader_ok :: "reader \<Rightarrow> bool" where
  "reader_ok r \<longleftrightarrow> rd_size r = length (reader_bytes r) \<and> rd_size r < 2 ^ 63"

definition files_ok :: "files \<Rightarrow> bool" where
  "files_ok fs \<longleftrightarrow> (\<forall>name r. fs_reader fs name = Some r \<longrightarrow> reader_ok r)"

text \<open>Constants the compiler writes: no negative numbers, and a splat's element divides its size.\<close>

definition const_ok :: "const_info \<Rightarrow> bool" where
  "const_ok c \<longleftrightarrow> 0 \<le> ci_size c \<and> ci_size c < 2 ^ 62 \<and> 0 \<le> ci_offset c \<and> ci_offset c < 2 ^ 62 \<and>
     (case ci_source c of
        Splat_source eb \<Rightarrow> eb \<noteq> [] \<longrightarrow> length eb dvd nat (ci_size c)
      | File_ref_source path off \<Rightarrow> 0 \<le> off \<and> off < 2 ^ 63
      | Mem_source off \<Rightarrow> 0 \<le> off \<and> off < 2 ^ 63
      | No_source \<Rightarrow> True)"

lemma to_size_nonneg [simp]: "0 \<le> x \<Longrightarrow> x < 2 ^ 64 \<Longrightarrow> to_size x = nat x"
  by (simp add: to_size_def)

lemma const_ok_size:
  assumes "const_ok c"
  shows "to_size (ci_size c) = nat (ci_size c)" and "to_size (ci_offset c) = nat (ci_offset c)"
    and "const_end c = nat (ci_offset c) + nat (ci_size c)" and "const_end c < 2 ^ 63"
proof -
  have b: "0 \<le> ci_size c" "ci_size c < 2 ^ 62" "0 \<le> ci_offset c" "ci_offset c < 2 ^ 62"
    using assms by (simp_all add: const_ok_def)
  then show s: "to_size (ci_size c) = nat (ci_size c)" "to_size (ci_offset c) = nat (ci_offset c)"
    by simp_all
  have n: "nat (ci_size c) < 2 ^ 62" "nat (ci_offset c) < 2 ^ 62"
    using b by (simp_all add: nat_less_iff)
  then show "const_end c = nat (ci_offset c) + nat (ci_size c)"
    by (simp add: const_end_def s sz_add_def)
  then show "const_end c < 2 ^ 63"
    using n by simp
qed

section \<open>Fetching\<close>

lemma skip_bytes_exact: "pos \<le> len \<Longrightarrow> skip_bytes len pos n = (if pos + n \<le> len then Some (pos + n) else None)"
proof (induction len pos n rule: skip_bytes.induct)
  case (1 len pos n)
  show ?case
  proof (cases "n = 0")
    case True
    then show ?thesis
      using 1(2) by (simp add: skip_bytes.simps [of len pos])
  next
    case False
    define k where "k = min n k_skip_chunk"
    have k: "0 < k" "k \<le> n"
      using False by (simp_all add: k_def k_skip_chunk_def)
    have step: "skip_bytes len pos n = (if min k (len - pos) \<noteq> k then None else skip_bytes len (pos + k) (n - k))"
      using False by (simp add: skip_bytes.simps [of len pos n] Let_def flip: k_def)
    show ?thesis
    proof (cases "pos + k \<le> len")
      case True
      then have m: "min k (len - pos) = k"
        by simp
      have "skip_bytes len (pos + k) (n - k) = (if pos + k + (n - k) \<le> len then Some (pos + k + (n - k)) else None)"
        using 1(1) [OF False k_def refl] True by (simp only: m)
      moreover have "pos + k + (n - k) = pos + n"
        using k by simp
      ultimately show ?thesis
        using step m by simp
    next
      case False
      then show ?thesis
        using step k by auto
    qed
  qed
qed

lemma splat_fill_tiles:
  assumes "eb \<noteq> []" and "length eb dvd sz" and "length eb dvd off" and "off \<le> sz"
  shows "splat_fill eb sz off = map (\<lambda>i. eb ! (i mod length eb)) [off ..< sz]"
  using assms
proof (induction eb sz off rule: splat_fill.induct)
  case (1 eb sz off)
  show ?case
  proof (cases "off < sz")
    case False
    then show ?thesis
      using 1(5) by (simp add: splat_fill.simps [of eb sz sz])
  next
    case True
    let ?n = "length eb"
    have "?n dvd sz - off"
      using 1(3,4) by simp
    then have le: "off + ?n \<le> sz"
      using True dvd_imp_le [of ?n "sz - off"] by simp
    have "[off ..< sz] = [off ..< off + ?n] @ [off + ?n ..< sz]"
      using le upt_add_eq_append [of off "off + ?n" "sz - (off + ?n)"] by simp
    moreover have "map (\<lambda>i. eb ! (i mod ?n)) [off ..< off + ?n] = eb"
    proof (rule nth_equalityI)
      fix i assume "i < length (map (\<lambda>i. eb ! (i mod ?n)) [off ..< off + ?n])"
      then have "i < ?n"
        by simp
      then show "map (\<lambda>i. eb ! (i mod ?n)) [off ..< off + ?n] ! i = eb ! i"
        using 1(4) by (auto elim!: dvdE)
    qed simp
    moreover have "splat_fill eb sz (off + ?n) = map (\<lambda>i. eb ! (i mod ?n)) [off + ?n ..< sz]"
      using 1 True le by simp
    ultimately show ?thesis
      using True 1(2) by (simp add: splat_fill.simps [of eb sz off])
  qed
qed

text \<open>The caches hold what opening again would give.\<close>

definition caches_ok :: "files \<Rightarrow> string \<Rightarrow> loading \<Rightarrow> bool" where
  "caches_ok fs name l \<longleftrightarrow>
     (\<forall>b. fc_fp (ld_fref l) = Some b \<longrightarrow> os_open fs (fc_path (ld_fref l)) = Some b \<and> length (fc_path (ld_fref l)) + 1 \<le> 1024) \<and>
     (cf_tried (ld_file l) \<longrightarrow> cf_reader (ld_file l) = fs_reader fs name)"

lemma fref_cache_open_ok:
  assumes "caches_ok fs name l" and "fref_cache_open fs (ld_fref l) path = (fc, r)"
  shows "caches_ok fs name (l\<lparr>ld_fref := fc\<rparr>)"
    and "r \<longleftrightarrow> length path + 1 \<le> 1024 \<and> os_open fs path \<noteq> None" and "r \<Longrightarrow> fc_fp fc = os_open fs path"
  using assms
  by (auto simp: caches_ok_def fref_cache_open_def fref_cache_release_def Let_def split: if_splits option.splits)

lemma file_cache_open_ok:
  assumes "caches_ok fs name l" and "constants_file_cache_open fs name (ld_file l) = (cf, r)"
  shows "caches_ok fs name (l\<lparr>ld_file := cf\<rparr>)" and "cf_reader cf = fs_reader fs name" and "r \<longleftrightarrow> fs_reader fs name \<noteq> None"
  using assms
  by (auto simp: caches_ok_def constants_file_cache_open_def Let_def split: if_splits)

text \<open>Fetching refines the description of the sources.\<close>

lemma fetch_source_refines:
  assumes c: "const_ok c" and caches: "caches_ok fs name l" and files: "files_ok fs"
    and staging: "nat (ci_size c) \<le> staging" and f: "fetch_source fs name staging l c = (l', r)"
  shows "r = (case source_content fs name c of None \<Rightarrow> Fetch_failed | Some bytes \<Rightarrow> Bytes bytes)"
    and "caches_ok fs name l'" and "ld_machine l' = ld_machine l"
    and "r = Bytes bytes \<Longrightarrow> length bytes = nat (ci_size c)"
proof -
  note S = const_ok_size [OF c]
  let ?sz = "nat (ci_size c)"
  have "r = (case source_content fs name c of None \<Rightarrow> Fetch_failed | Some bytes \<Rightarrow> Bytes bytes) \<and>
    caches_ok fs name l' \<and> ld_machine l' = ld_machine l \<and> (\<forall>bytes. r = Bytes bytes \<longrightarrow> length bytes = ?sz)"
  proof (cases "ci_source c")
    case No_source
    then show ?thesis
      using f caches by (auto simp: fetch_source_def source_content_def)
  next
    case (Splat_source eb)
    show ?thesis
    proof (cases "eb = [] \<or> length eb > 8")
      case True
      then show ?thesis
        using f caches Splat_source by (auto simp: fetch_source_def source_content_def Let_def)
    next
      case False
      then have "splat_fill eb ?sz 0 = map (\<lambda>i. eb ! (i mod length eb)) [0 ..< ?sz]"
        using c Splat_source by (intro splat_fill_tiles) (simp_all add: const_ok_def)
      then show ?thesis
        using f caches Splat_source False staging by (auto simp: fetch_source_def source_content_def Let_def S)
    qed
  next
    case (File_ref_source path off)
    have off: "0 \<le> off"
      using c File_ref_source by (simp add: const_ok_def)
    obtain fc b where o: "fref_cache_open fs (ld_fref l) path = (fc, b)"
      by fastforce
    note O = fref_cache_open_ok [OF caches o]
    show ?thesis
      using f off O by (auto simp: fetch_source_def source_content_def File_ref_source Let_def o S fref_fetch_def slice_def
          split: bool.splits option.splits if_splits)
  next
    case (Mem_source off)
    have off: "0 \<le> off" "off < 2 ^ 63"
      using c Mem_source by (simp_all add: const_ok_def)
    obtain cf b where o: "constants_file_cache_open fs name (ld_file l) = (cf, b)"
      by fastforce
    note O = file_cache_open_ok [OF caches o]
    show ?thesis
    proof (cases "fs_reader fs name")
      case None
      then show ?thesis
        using f off O by (auto simp: fetch_source_def source_content_def Mem_source Let_def o split: bool.splits)
    next
      case (Some rd)
      have rd: "rd_size rd = length (reader_bytes rd)" "rd_size rd < 2 ^ 63"
        using files Some unfolding files_ok_def reader_ok_def by blast+
      have add: "sz_add (nat off) ?sz = nat off + ?sz"
      proof -
        have "nat off < 2 ^ 63" "?sz < 2 ^ 63"
          using off c by (simp_all add: nat_less_iff const_ok_def)
        then show ?thesis
          by (simp add: sz_add_def)
      qed
      have "constants_file_fetch rd off ?sz = (case slice (nat off) ?sz (reader_bytes rd) of None \<Rightarrow> Fetch_failed | Some bytes \<Rightarrow> Bytes bytes)"
      proof (cases "nat off + ?sz \<le> rd_size rd")
        case False
        then show ?thesis
          using rd off by (simp add: constants_file_fetch_def add slice_def)
      next
        case True
        then show ?thesis
          using rd off by (auto simp: constants_file_fetch_def add slice_def reader_bytes_def skip_bytes_exact Let_def
              split: option.splits)
      qed
      then show ?thesis
        using f off O Some by (auto simp: fetch_source_def source_content_def Mem_source Let_def o S slice_def
            split: bool.splits option.splits if_splits)
    qed
  qed
  then show "r = (case source_content fs name c of None \<Rightarrow> Fetch_failed | Some bytes \<Rightarrow> Bytes bytes)"
    and "caches_ok fs name l'" and "ld_machine l' = ld_machine l"
    and "r = Bytes bytes \<Longrightarrow> length bytes = nat (ci_size c)"
    by blast+
qed

end
