(* ===== verification/Constants_Device.thy ===== *)
theory Constants_Device
  imports Constants_Correct
begin

text \<open>
  Loading as the device sees it: every constant ends up at its offset in the blob with the
  bytes of its source, the rest of the device keeps its bytes, and the session invariant
  holds at every step.
\<close>

section \<open>Memory\<close>

lemma read_write_same: "read_mem a (length bs) (write_mem a bs g) = bs"
  by (rule nth_equalityI) (simp_all add: read_mem_def write_mem_def)

lemma read_write_apart: "a + n \<le> b \<or> b + length bs \<le> a \<Longrightarrow> read_mem a n (write_mem b bs g) = read_mem a n g"
  by (auto simp: read_mem_def write_mem_def)

lemma read_mem_emit' [simp]: "read_mem a n (emit e g) = read_mem a n g"
  by (simp add: read_mem_def emit_def)

section \<open>The device side of loading\<close>

text \<open>What the loop over the constants changes: contents, caches and the table of mapped constants.\<close>

definition loads :: "machine \<Rightarrow> machine \<Rightarrow> bool" where
  "loads m m' \<longleftrightarrow> keeps m m' \<and> g_dev (mc_gpu m') = g_dev (mc_gpu m) \<and> rs_blob (st m') = rs_blob (st m) \<and>
     rs_constants (st m') = rs_constants (st m) \<and> mc_api m' = mc_api m"

lemma loads_refl: "session_ok m \<Longrightarrow> loads m m"
  by (simp add: loads_def keeps_refl)

lemma loads_trans [trans]: "loads a b \<Longrightarrow> loads b c \<Longrightarrow> loads a c"
  using keeps_trans by (auto simp: loads_def)

lemma loads_ok: "loads m m' \<Longrightarrow> session_ok m'"
  by (simp add: loads_def keeps_def)

lemma hip_write_loads: "session_ok m \<Longrightarrow> loads m (fst (hip_write name a bs m))"
  using hip_write_keeps by (auto simp: loads_def hip_write_def)

lemma heap_call_keeps: "session_ok m \<Longrightarrow> keeps m (fst (heap_call m n))"
  by (rule keeps_same_device) (auto simp: heap_call_def same_device_def)

lemma heap_call_loads: "session_ok m \<Longrightarrow> loads m (fst (heap_call m n))"
  using heap_call_keeps by (auto simp: loads_def heap_call_def)

lemma disk_loads: "session_ok m \<Longrightarrow> loads m (upd_st (\<lambda>s. s\<lparr>rs_disk := f s\<rparr>) m)"
  using keeps_fields [OF keeps_refl, of m "\<lambda>s. s\<lparr>rs_disk := f s\<rparr>"] session_ok_state [of m]
  by (auto simp: loads_def)

text \<open>A blob large enough for a constant: the copy to its place is in bounds.\<close>

definition blob_holds :: "machine \<Rightarrow> nat \<Rightarrow> bool" where
  "blob_holds m cap \<longleftrightarrow> cap = 0 \<or> (rs_blob (st m), cap) \<in> set (g_dev (mc_gpu m)) \<and> rs_blob (st m) + cap \<le> size_limit"

lemma blob_holds_loads: "loads m m' \<Longrightarrow> blob_holds m' cap = blob_holds m cap"
  by (simp add: blob_holds_def loads_def)

lemma upload_at:
  assumes "blob_holds m cap" and "off + length bs \<le> cap"
  shows "in_device m (sz_add (rs_blob (st m)) off) (length bs)"
    and "bs \<noteq> [] \<Longrightarrow> sz_add (rs_blob (st m)) off = rs_blob (st m) + off"
proof -
  show e: "bs \<noteq> [] \<Longrightarrow> sz_add (rs_blob (st m)) off = rs_blob (st m) + off"
    using assms by (cases bs) (auto simp: blob_holds_def sz_add_def)
  show "in_device m (sz_add (rs_blob (st m)) off) (length bs)"
  proof (cases "bs = []")
    case False
    then have "cap \<noteq> 0"
      using assms(2) False by (cases bs) simp_all
    then have "list_ex (\<lambda>b. fst b \<le> rs_blob (st m) + off \<and> rs_blob (st m) + off + length bs \<le> fst b + snd b) (g_dev (mc_gpu m))"
      using assms by (auto simp: blob_holds_def list_ex_iff intro!: bexI [of _ "(rs_blob (st m), cap)"])
    then show ?thesis
      using e False by (simp add: in_device_def)
  qed (simp add: in_device_def)
qed

section \<open>One constant\<close>

lemma load_entry_device:
  assumes ok: "session_ok (ld_machine l)" and caches: "caches_ok fs name l" and files: "files_ok fs"
    and c: "const_ok c" "\<not> ci_disk c" and staging: "nat (ci_size c) \<le> staging"
    and blob: "blob_holds (ld_machine l) cap" "const_end c \<le> cap"
  obtains l' rc where "load_entry fs name staging l i c = Some (l', rc)" "caches_ok fs name l'"
    "loads (ld_machine l) (ld_machine l')" "rs_disk (st (ld_machine l')) = rs_disk (st (ld_machine l))"
    "rc = 0 \<Longrightarrow> \<exists>bytes es. source_content fs name c = Some bytes \<and> length bytes = nat (ci_size c) \<and>
       mc_gpu (ld_machine l') = emit es (write_mem (sz_add (rs_blob (st (ld_machine l))) (nat (ci_offset c))) bytes (mc_gpu (ld_machine l)))"
    "rc = 0 \<longleftrightarrow> source_content fs name c \<noteq> None \<and>
       api_call (mc_api (ld_machine l)) (mc_gpu (ld_machine l)) ''hipMemcpy''"
proof -
  let ?m = "ld_machine l"
  obtain l1 r where f: "fetch_source fs name staging l c = (l1, r)"
    by fastforce
  note F = fetch_source_refines [OF c(1) caches files staging f]
  note S = const_ok_size [OF c(1)]
  show thesis
  proof (cases "source_content fs name c")
    case None
    then have "load_entry fs name staging l i c = Some (l1, 1)"
      using f F(1) c(2) by (simp add: load_entry_def)
    then show thesis
      using None F(2,3) loads_refl [OF ok] by (intro that [of l1 1]) simp_all
  next
    case (Some bytes)
    let ?dst = "sz_add (rs_blob (st ?m)) (nat (ci_offset c))"
    have len: "length bytes = nat (ci_size c)"
      using F(1,4) Some by simp
    have "in_device ?m ?dst (length bytes)"
      using upload_at(1) [OF blob(1), of "nat (ci_offset c)" bytes] blob(2) S(3) len by simp
    then have e: "load_entry fs name staging l i c = (case hip_write ''hipMemcpy'' ?dst bytes ?m of
        (m, ok) \<Rightarrow> Some (l1\<lparr>ld_machine := m\<rparr>, if ok then 0 else 1))"
      using f F(1,3) Some c(2) S(2) by (simp add: load_entry_def upload_or_def upload_def split: prod.split)
    obtain m' b where w: "hip_write ''hipMemcpy'' ?dst bytes ?m = (m', b)"
      by fastforce
    have "loads ?m m'"
      using hip_write_loads [OF ok, of "''hipMemcpy''" ?dst bytes] w by simp
    moreover have "caches_ok fs name (l1\<lparr>ld_machine := m'\<rparr>)"
      using F(2) by (simp add: caches_ok_def)
    ultimately show thesis
      using e w Some len by (intro that [of "l1\<lparr>ld_machine := m'\<rparr>" "if b then 0 else 1"])
        (auto simp: hip_write_def upd_gpu_def split: if_splits)
  qed
qed

text \<open>A disk-resident constant is mapped, or the load fails.\<close>

definition disk_view :: "files \<Rightarrow> const_info \<Rightarrow> disk_constant option" where
  "disk_view fs c =
     (case (case ci_source c of File_ref_source p off \<Rightarrow> (p, off) | _ \<Rightarrow> ([], 0)) of
        (path, off) \<Rightarrow>
          (case os_map fs path of
             None \<Rightarrow> None
           | Some v \<Rightarrow>
               if v = [] \<or> off < 0 \<or> nat off + nat (ci_size c) > length v then None
               else Some \<lparr>dc_view = Some v, dc_data = nat off, dc_size = ci_size c\<rparr>))"

lemma load_disk_resident_eq:
  assumes "const_ok c"
  shows "load_disk_resident fs l i c =
    (case disk_view fs c of
       None \<Rightarrow> (l, 1)
     | Some d \<Rightarrow>
         (l\<lparr>ld_machine := upd_st (\<lambda>s. s\<lparr>rs_disk := map_option (\<lambda>ds. ds[i := d]) (rs_disk s)\<rparr>) (ld_machine l)\<rparr>, 0))"
proof -
  note S = const_ok_size [OF assms]
  obtain path off where po: "(case ci_source c of File_ref_source p off \<Rightarrow> (p, off) | _ \<Rightarrow> ([], 0)) = (path, off)"
    by fastforce
  have "off < 2 ^ 63"
    using po assms by (auto simp: const_ok_def split: source.splits)
  then have "nat off < 2 ^ 63"
    by (simp add: nat_less_iff)
  moreover have "nat (ci_size c) < 2 ^ 62"
    using assms by (simp add: const_ok_def nat_less_iff)
  ultimately have "sz_add (nat off) (nat (ci_size c)) = nat off + nat (ci_size c)"
    by (simp add: sz_add_def)
  then show ?thesis
    by (auto simp: load_disk_resident_def disk_view_def po S map_file_readonly_def Let_def split: option.splits)
qed

section \<open>All constants\<close>

text \<open>The ranges of two constants in the blob do not meet.\<close>

definition apart :: "const_info \<Rightarrow> const_info \<Rightarrow> bool" where
  "apart c d \<longleftrightarrow> ci_disk c \<or> ci_disk d \<or> const_end c \<le> nat (ci_offset d) \<or> const_end d \<le> nat (ci_offset c)"

text \<open>A constant is where the operators look for it.\<close>

definition const_loaded :: "files \<Rightarrow> string \<Rightarrow> machine \<Rightarrow> nat \<Rightarrow> const_info \<Rightarrow> bool" where
  "const_loaded fs name m i c \<longleftrightarrow>
     (if ci_disk c then
        (case rs_disk (st m) of None \<Rightarrow> False | Some ds \<Rightarrow> i < length ds \<and> disk_view fs c = Some (ds ! i))
      else source_content fs name c = Some (read_mem (rs_blob (st m) + nat (ci_offset c)) (nat (ci_size c)) (mc_gpu m)))"

text \<open>What loading the constants \<open>cs\<close> to the places \<open>i\<close>, \<open>i + 1\<close>, \dots leaves as it was.\<close>

definition mem_elsewhere :: "const_info list \<Rightarrow> machine \<Rightarrow> machine \<Rightarrow> bool" where
  "mem_elsewhere cs m m' \<longleftrightarrow>
     (\<forall>c. const_ok c \<longrightarrow> list_all (apart c) cs \<longrightarrow> \<not> ci_disk c \<longrightarrow>
        read_mem (rs_blob (st m) + nat (ci_offset c)) (nat (ci_size c)) (mc_gpu m') =
        read_mem (rs_blob (st m) + nat (ci_offset c)) (nat (ci_size c)) (mc_gpu m))"

definition disk_elsewhere :: "nat \<Rightarrow> machine \<Rightarrow> machine \<Rightarrow> bool" where
  "disk_elsewhere i m m' \<longleftrightarrow>
     map_option (\<lambda>ds. (length ds, take i ds)) (rs_disk (st m')) = map_option (\<lambda>ds. (length ds, take i ds)) (rs_disk (st m))"

definition elsewhere :: "const_info list \<Rightarrow> nat \<Rightarrow> machine \<Rightarrow> machine \<Rightarrow> bool" where
  "elsewhere cs i m m' \<longleftrightarrow> mem_elsewhere cs m m' \<and> disk_elsewhere i m m'"

lemma elsewhere_refl [simp]: "elsewhere cs i m m"
  by (simp add: elsewhere_def mem_elsewhere_def disk_elsewhere_def)

lemma disk_elsewhere_le: "disk_elsewhere (Suc i) m m' \<Longrightarrow> disk_elsewhere i m m'"
proof -
  have t: "take i ds = take i (take (Suc i) ds)" for ds :: "disk_constant list"
    by (simp add: min_def)
  assume "disk_elsewhere (Suc i) m m'"
  then have "map_option (\<lambda>p. (fst p, take i (snd p))) (map_option (\<lambda>ds. (length ds, take (Suc i) ds)) (rs_disk (st m'))) =
      map_option (\<lambda>p. (fst p, take i (snd p))) (map_option (\<lambda>ds. (length ds, take (Suc i) ds)) (rs_disk (st m)))"
    by (simp add: disk_elsewhere_def)
  then show ?thesis
    by (simp add: disk_elsewhere_def option.map_comp comp_def t [symmetric])
qed

lemma elsewhere_step:
  assumes "elsewhere [c] i m m1" and "elsewhere cs (Suc i) m1 m'" and "rs_blob (st m1) = rs_blob (st m)"
  shows "elsewhere (c # cs) i m m'"
proof -
  have "disk_elsewhere i m m1" "disk_elsewhere i m1 m'"
    using assms disk_elsewhere_le by (auto simp: elsewhere_def)
  moreover have "mem_elsewhere (c # cs) m m'"
    using assms by (simp add: elsewhere_def mem_elsewhere_def)
  ultimately show ?thesis
    by (simp add: elsewhere_def disk_elsewhere_def)
qed

lemma const_loaded_later:
  assumes l: "const_loaded fs name m1 i c" and e: "elsewhere cs (Suc i) m1 m'" and a: "list_all (apart c) cs"
    and b: "rs_blob (st m') = rs_blob (st m1)" and c: "const_ok c"
  shows "const_loaded fs name m' i c"
proof (cases "ci_disk c")
  case False
  have "mem_elsewhere cs m1 m'"
    using e by (simp add: elsewhere_def)
  then show ?thesis
    using l a b c False by (simp add: const_loaded_def mem_elsewhere_def)
next
  case True
  then obtain ds where ds: "rs_disk (st m1) = Some ds" "i < length ds" "disk_view fs c = Some (ds ! i)"
    using l by (auto simp: const_loaded_def split: option.splits)
  then obtain ds' where ds': "rs_disk (st m') = Some ds'" "length ds' = length ds" "take (Suc i) ds' = take (Suc i) ds"
    using e by (auto simp: elsewhere_def disk_elsewhere_def)
  have "ds' ! i = ds ! i"
    using arg_cong [OF ds'(3), of "\<lambda>d. d ! i"] by simp
  then show ?thesis
    using ds ds' True by (simp add: const_loaded_def)
qed

definition available :: "files \<Rightarrow> string \<Rightarrow> const_info \<Rightarrow> bool" where
  "available fs name c \<longleftrightarrow> (if ci_disk c then disk_view fs c \<noteq> None else source_content fs name c \<noteq> None)"

lemma load_entry_loads:
  assumes ok: "session_ok (ld_machine l)" and caches: "caches_ok fs name l" and files: "files_ok fs"
    and c: "const_ok c" and staging: "\<not> ci_disk c \<Longrightarrow> nat (ci_size c) \<le> staging"
    and blob: "blob_holds (ld_machine l) cap" "\<not> ci_disk c \<Longrightarrow> const_end c \<le> cap"
    and disk: "ci_disk c \<Longrightarrow> \<exists>ds. rs_disk (st (ld_machine l)) = Some ds \<and> i < length ds"
  obtains l' rc where "load_entry fs name staging l i c = Some (l', rc)" "caches_ok fs name l'"
    "loads (ld_machine l) (ld_machine l')" "mc_api (ld_machine l') = mc_api (ld_machine l)"
    "rc = 0 \<Longrightarrow> const_loaded fs name (ld_machine l') i c \<and> elsewhere [c] i (ld_machine l) (ld_machine l')"
    "rc \<noteq> 0 \<Longrightarrow> \<not> available fs name c \<or> (\<exists>g. \<not> api_call (mc_api (ld_machine l)) g ''hipMemcpy'')"
proof (cases "ci_disk c")
  case True
  let ?m = "ld_machine l"
  obtain ds where ds: "rs_disk (st ?m) = Some ds" "i < length ds"
    using disk True by blast
  obtain s where s: "mc_state ?m = Some s"
    using session_ok_state [OF ok] by blast
  show thesis
  proof (cases "disk_view fs c")
    case None
    then show thesis
      using that [of l 1] True caches loads_refl [OF ok]
      by (simp add: load_entry_def load_disk_resident_eq [OF c] available_def)
  next
    case (Some d)
    let ?m' = "upd_st (\<lambda>s. s\<lparr>rs_disk := map_option (\<lambda>ds. ds[i := d]) (rs_disk s)\<rparr>) ?m"
    have "const_loaded fs name ?m' i c" "elsewhere [c] i ?m ?m'"
      using True Some ds s by (simp_all add: const_loaded_def elsewhere_def mem_elsewhere_def disk_elsewhere_def apart_def)
    moreover have "caches_ok fs name (l\<lparr>ld_machine := ?m'\<rparr>)"
      using caches by (simp add: caches_ok_def)
    ultimately show thesis
      using that [of "l\<lparr>ld_machine := ?m'\<rparr>" 0] True Some disk_loads [OF ok]
      by (simp add: load_entry_def load_disk_resident_eq [OF c])
  qed
next
  case False
  let ?m = "ld_machine l"
  have cap: "const_end c \<le> cap"
    by (rule blob(2) [OF False])
  note S = const_ok_size [OF c]
  obtain l' rc where L: "load_entry fs name staging l i c = Some (l', rc)" "caches_ok fs name l'"
    "loads ?m (ld_machine l')" "rs_disk (st (ld_machine l')) = rs_disk (st ?m)"
    "rc = 0 \<Longrightarrow> \<exists>bytes es. source_content fs name c = Some bytes \<and> length bytes = nat (ci_size c) \<and>
       mc_gpu (ld_machine l') = emit es (write_mem (sz_add (rs_blob (st ?m)) (nat (ci_offset c))) bytes (mc_gpu ?m))"
    "rc = 0 \<longleftrightarrow> source_content fs name c \<noteq> None \<and> api_call (mc_api ?m) (mc_gpu ?m) ''hipMemcpy''"
    using load_entry_device [OF ok caches files c False staging [OF False] blob(1) cap] by metis
  have "const_loaded fs name (ld_machine l') i c \<and> elsewhere [c] i ?m (ld_machine l')" if rc: "rc = 0"
  proof -
    obtain bytes es where b: "source_content fs name c = Some bytes" "length bytes = nat (ci_size c)"
      "mc_gpu (ld_machine l') = emit es (write_mem (sz_add (rs_blob (st ?m)) (nat (ci_offset c))) bytes (mc_gpu ?m))"
      using L(5) [OF rc] by blast
    have blob': "rs_blob (st (ld_machine l')) = rs_blob (st ?m)"
      using L(3) by (simp add: loads_def)
    have at: "bytes \<noteq> [] \<Longrightarrow> sz_add (rs_blob (st ?m)) (nat (ci_offset c)) = rs_blob (st ?m) + nat (ci_offset c)"
      using upload_at(2) [OF blob(1), of "nat (ci_offset c)" bytes] cap S(3) b(2) by simp
    have "bytes = read_mem (rs_blob (st ?m) + nat (ci_offset c)) (nat (ci_size c)) (mc_gpu (ld_machine l'))"
    proof (cases "bytes = []")
      case True
      then show ?thesis
        using b(2) by (simp add: read_mem_def)
    next
      case False
      then show ?thesis
        using at read_write_same [of "rs_blob (st ?m) + nat (ci_offset c)" bytes] b(2,3) by simp
    qed
    then have loaded: "const_loaded fs name (ld_machine l') i c"
      using False b(1) blob' by (simp add: const_loaded_def)
    have "read_mem (rs_blob (st ?m) + nat (ci_offset d)) (nat (ci_size d)) (mc_gpu (ld_machine l')) =
        read_mem (rs_blob (st ?m) + nat (ci_offset d)) (nat (ci_size d)) (mc_gpu ?m)"
      if d: "const_ok d" "apart d c" "\<not> ci_disk d" for d
    proof (cases "bytes = []")
      case True
      then show ?thesis
        using b(3) by (auto simp: write_mem_def read_mem_def emit_def)
    next
      case False
      have "nat (ci_offset d) + nat (ci_size d) \<le> nat (ci_offset c) \<or> nat (ci_offset c) + length bytes \<le> nat (ci_offset d)"
        using d(2,3) \<open>\<not> ci_disk c\<close> S(3) const_ok_size(3) [OF d(1)] b(2) by (auto simp: apart_def)
      then show ?thesis
        using at False b(3) by (simp add: read_write_apart)
    qed
    then have "elsewhere [c] i ?m (ld_machine l')"
      using L(4) by (simp add: elsewhere_def mem_elsewhere_def disk_elsewhere_def)
    with loaded show ?thesis
      by blast
  qed
  moreover have "mc_api (ld_machine l') = mc_api ?m"
    using L(3) by (simp add: loads_def)
  moreover have "\<not> available fs name c \<or> (\<exists>g. \<not> api_call (mc_api ?m) g ''hipMemcpy'')" if "rc \<noteq> 0"
    using L(6) that False by (auto simp: available_def)
  ultimately show thesis
    using that [OF L(1-3)] by blast
qed

text \<open>The constants of a model: their numbers are good, and their ranges do not meet.\<close>

definition consts_ok :: "const_info list \<Rightarrow> bool" where
  "consts_ok cs \<longleftrightarrow> list_all const_ok cs \<and> sorted_wrt apart cs"

definition fits :: "nat \<Rightarrow> nat \<Rightarrow> const_info list \<Rightarrow> bool" where
  "fits staging cap cs \<longleftrightarrow> list_all (\<lambda>c. \<not> ci_disk c \<longrightarrow> nat (ci_size c) \<le> staging \<and> const_end c \<le> cap) cs"

definition all_loaded :: "files \<Rightarrow> string \<Rightarrow> machine \<Rightarrow> nat \<Rightarrow> const_info list \<Rightarrow> bool" where
  "all_loaded fs name m i cs \<longleftrightarrow> (\<forall>j < length cs. const_loaded fs name m (i + j) (cs ! j))"

lemma all_loaded_Cons: "all_loaded fs name m i (c # cs) \<longleftrightarrow> const_loaded fs name m i c \<and> all_loaded fs name m (Suc i) cs"
proof -
  have "(\<forall>j < length (c # cs). const_loaded fs name m (i + j) ((c # cs) ! j)) \<longleftrightarrow>
      const_loaded fs name m i c \<and> (\<forall>j < length cs. const_loaded fs name m (i + Suc j) (cs ! j))"
    using All_less_Suc2 [of "length cs" "\<lambda>j. const_loaded fs name m (i + j) ((c # cs) ! j)"] by simp
  then show ?thesis
    by (simp add: all_loaded_def)
qed

lemma load_entries_loads:
  assumes "session_ok (ld_machine l)" and "caches_ok fs name l" and "files_ok fs"
    and "consts_ok cs" and "fits staging cap cs" and "blob_holds (ld_machine l) cap"
    and "list_ex ci_disk cs \<Longrightarrow> \<exists>ds. rs_disk (st (ld_machine l)) = Some ds \<and> i + length cs \<le> length ds"
  shows "\<exists>l' rc. load_entries fs name staging l i cs = Some (l', rc) \<and> loads (ld_machine l) (ld_machine l') \<and>
    (rc = 0 \<longrightarrow> all_loaded fs name (ld_machine l') i cs \<and> elsewhere cs i (ld_machine l) (ld_machine l')) \<and>
    (rc \<noteq> 0 \<longrightarrow> (\<exists>c \<in> set cs. \<not> available fs name c) \<or> (\<exists>g. \<not> api_call (mc_api (ld_machine l)) g ''hipMemcpy''))"
  using assms
proof (induction cs arbitrary: l i)
  case Nil
  then show ?case
    by (simp add: loads_refl all_loaded_def)
next
  case (Cons c cs)
  let ?m = "ld_machine l"
  have c: "const_ok c" "list_all (apart c) cs" "consts_ok cs" "fits staging cap cs"
    using Cons.prems(4,5) by (simp_all add: consts_ok_def fits_def list_all_iff)
  have f: "\<not> ci_disk c \<Longrightarrow> nat (ci_size c) \<le> staging" "\<not> ci_disk c \<Longrightarrow> const_end c \<le> cap"
    using Cons.prems(5) by (simp_all add: fits_def)
  have d: "ci_disk c \<Longrightarrow> \<exists>ds. rs_disk (st ?m) = Some ds \<and> i < length ds"
    using Cons.prems(7) by fastforce
  obtain l1 rc1 where one: "load_entry fs name staging l i c = Some (l1, rc1)" "caches_ok fs name l1"
    "loads ?m (ld_machine l1)" "mc_api (ld_machine l1) = mc_api ?m"
    "rc1 = 0 \<Longrightarrow> const_loaded fs name (ld_machine l1) i c \<and> elsewhere [c] i ?m (ld_machine l1)"
    "rc1 \<noteq> 0 \<Longrightarrow> \<not> available fs name c \<or> (\<exists>g. \<not> api_call (mc_api ?m) g ''hipMemcpy'')"
    using load_entry_loads [OF Cons.prems(1-3) c(1) f(1) Cons.prems(6) f(2) d] by metis
  show ?case
  proof (cases "rc1 = 0")
    case False
    then show ?thesis
      using one by auto
  next
    case True
    note E = one(5) [OF True]
    have blob1: "rs_blob (st (ld_machine l1)) = rs_blob (st ?m)"
      using one(3) by (simp add: loads_def)
    have holds: "blob_holds (ld_machine l1) cap"
      using blob_holds_loads [OF one(3)] Cons.prems(6) by simp
    have disk: "\<exists>ds. rs_disk (st (ld_machine l1)) = Some ds \<and> Suc i + length cs \<le> length ds" if "list_ex ci_disk cs"
    proof -
      have "list_ex ci_disk (c # cs)"
        using that by simp
      then obtain ds where "rs_disk (st ?m) = Some ds" "i + length (c # cs) \<le> length ds"
        using Cons.prems(7) by blast
      then show ?thesis
        using E by (auto simp: elsewhere_def disk_elsewhere_def)
    qed
    obtain l' rc where rest: "load_entries fs name staging l1 (Suc i) cs = Some (l', rc)"
      "loads (ld_machine l1) (ld_machine l')"
      "rc = 0 \<Longrightarrow> all_loaded fs name (ld_machine l') (Suc i) cs \<and> elsewhere cs (Suc i) (ld_machine l1) (ld_machine l')"
      "rc \<noteq> 0 \<Longrightarrow> (\<exists>c \<in> set cs. \<not> available fs name c) \<or> (\<exists>g. \<not> api_call (mc_api (ld_machine l1)) g ''hipMemcpy'')"
      using Cons.IH [OF loads_ok [OF one(3)] one(2) Cons.prems(3) c(3,4) holds disk] by blast
    have blob': "rs_blob (st (ld_machine l')) = rs_blob (st (ld_machine l1))"
      using rest(2) by (simp add: loads_def)
    have "all_loaded fs name (ld_machine l') i (c # cs) \<and> elsewhere (c # cs) i ?m (ld_machine l')" if "rc = 0"
      using rest(3) [OF that] E const_loaded_later [OF _ _ c(2) blob' c(1)] elsewhere_step [OF _ _ blob1]
      unfolding all_loaded_Cons by blast
    then show ?thesis
      using one(1,4) rest(1,2,4) True loads_trans [OF one(3) rest(2)] by auto
  qed
qed

section \<open>The whole load\<close>

lemma foldl_larger_start:
  fixes f :: "'a \<Rightarrow> nat" and b :: nat
  shows "b \<le> foldl (\<lambda>n x. if P x then n else if f x > n then f x else n) b xs"
proof (induction xs arbitrary: b)
  case (Cons y ys)
  show ?case
    using Cons [of "if P y then b else if f y > b then f y else b"] by (simp split: if_splits)
qed simp

lemma foldl_larger_bound:
  fixes f :: "'a \<Rightarrow> nat" and b :: nat
  assumes "x \<in> set xs" and "\<not> P x"
  shows "f x \<le> foldl (\<lambda>n x. if P x then n else if f x > n then f x else n) b xs"
  using assms(1)
proof (induction xs arbitrary: b)
  case (Cons y ys)
  show ?case
  proof (cases "x = y")
    case True
    have "f x \<le> (if f y > b then f y else b)"
      using True by simp
    also have "\<dots> \<le> foldl (\<lambda>n x. if P x then n else if f x > n then f x else n) (if f y > b then f y else b) ys"
      by (rule foldl_larger_start)
    finally show ?thesis
      using True assms(2) by simp
  next
    case False
    then show ?thesis
      using Cons by simp
  qed
qed simp

lemma fits_computed:
  assumes "list_all const_ok cs"
  shows "fits (max_tensor_size cs) (compute_constants_total_size cs) cs"
  unfolding fits_def list_all_iff
proof (intro ballI impI conjI)
  fix c assume c: "c \<in> set cs" "\<not> ci_disk c"
  have "to_size (ci_size c) \<le> max_tensor_size cs"
    unfolding max_tensor_size_def by (rule foldl_larger_bound) (use c in simp_all)
  then show "nat (ci_size c) \<le> max_tensor_size cs"
    using assms c(1) const_ok_size(1) [of c] by (simp add: list_all_iff)
  show "const_end c \<le> compute_constants_total_size cs"
    unfolding compute_constants_total_size_def by (rule foldl_larger_bound) (use c in simp_all)
qed

lemma total_size_bound: "list_all const_ok cs \<Longrightarrow> compute_constants_total_size cs < 2 ^ 63"
proof -
  have "b < 2 ^ 63 \<Longrightarrow> list_all const_ok cs \<Longrightarrow>
      foldl (\<lambda>n c. if ci_disk c then n else if const_end c > n then const_end c else n) b cs < 2 ^ 63" for b
  proof (induction cs arbitrary: b)
    case (Cons c cs)
    then have "(if ci_disk c then b else if const_end c > b then const_end c else b) < 2 ^ 63" "list_all const_ok cs"
      using const_ok_size(4) [of c] by simp_all
    then show ?case
      using Cons.IH by simp
  qed simp
  then show "list_all const_ok cs \<Longrightarrow> ?thesis"
    by (simp add: compute_constants_total_size_def)
qed

lemma per_entry_loads:
  assumes ok: "session_ok m" and files: "files_ok fs" and cs: "consts_ok cs"
    and blob: "blob_holds m (compute_constants_total_size cs)"
  shows "\<exists>m' rc. per_entry_load_constants m cs fs name = Some (m', rc) \<and> loads m m' \<and>
    (rc = 0 \<longrightarrow> all_loaded fs name m' 0 cs) \<and>
    (rc \<noteq> 0 \<longrightarrow> (\<exists>c \<in> set cs. \<not> available fs name c) \<or> (\<exists>g. \<not> api_call (mc_api m) g ''hipMemcpy'') \<or>
       (\<exists>g n. \<not> api_heap (mc_api m) g n))"
proof -
  define disk where "disk \<longleftrightarrow> list_ex ci_disk cs"
  define staging where "staging = max_tensor_size cs"
  obtain m1 ok1 where 1: "(if disk then heap_call m (40 * length cs) else (m, True)) = (m1, ok1)"
    by fastforce
  define m2 where "m2 = (if disk then upd_st (\<lambda>s. s\<lparr>rs_disk := Some (replicate (length cs) no_disk_constant)\<rparr>) m1 else m1)"
  obtain m3 ok3 where 3: "(if staging \<noteq> 0 then heap_call m2 staging else (m2, True)) = (m3, ok3)"
    by fastforce
  let ?l = "\<lparr>ld_machine = m3, ld_fref = fref_cache_init, ld_file = file_cache_init\<rparr>"
  have e: "per_entry_load_constants m cs fs name =
      (if \<not> ok1 then Some (m1, 1) else if \<not> ok3 then Some (m3, 1)
       else map_option (\<lambda>(l, rc). (ld_machine l, rc)) (load_entries fs name staging ?l 0 cs))"
    using 1 3 unfolding per_entry_load_constants_def disk_def [symmetric] staging_def [symmetric] Let_def
    by (simp only: prod.case m2_def [symmetric])
  have l1: "loads m m1"
    using 1 heap_call_loads [OF ok, of "40 * length cs"] loads_refl [OF ok] by (auto split: if_splits)
  have l2: "loads m m2"
    using loads_trans [OF l1 disk_loads [OF loads_ok [OF l1]]] l1 by (auto simp: m2_def)
  have l3: "loads m m3"
    using 3 loads_trans [OF l2 heap_call_loads [OF loads_ok [OF l2], of staging]] l2 by (auto split: if_splits)
  have heap: "\<exists>g n. \<not> api_heap (mc_api m) g n" if "\<not> ok1 \<or> \<not> ok3"
    using that 1 3 l2 by (auto simp: heap_call_def loads_def split: if_splits)
  have nonnull: "mc_state m1 \<noteq> None"
    by (rule session_ok_state [OF loads_ok [OF l1]])
  have table: "rs_disk (st m3) = Some (replicate (length cs) no_disk_constant)" if disk
    using that 3 nonnull by (auto simp: m2_def heap_call_def split: if_splits)
  have "caches_ok fs name ?l"
    by (simp add: caches_ok_def fref_cache_init_def file_cache_init_def)
  moreover have "fits staging (compute_constants_total_size cs) cs"
    using cs fits_computed by (simp add: consts_ok_def staging_def)
  moreover have "blob_holds (ld_machine ?l) (compute_constants_total_size cs)"
    using blob blob_holds_loads [OF l3] by simp
  ultimately obtain l' rc where L: "load_entries fs name staging ?l 0 cs = Some (l', rc)" "loads m3 (ld_machine l')"
    "rc = 0 \<Longrightarrow> all_loaded fs name (ld_machine l') 0 cs"
    "rc \<noteq> 0 \<Longrightarrow> (\<exists>c \<in> set cs. \<not> available fs name c) \<or> (\<exists>g. \<not> api_call (mc_api m3) g ''hipMemcpy'')"
    using load_entries_loads [of ?l fs name cs staging "compute_constants_total_size cs" 0] loads_ok [OF l3] files cs table
    by (auto simp: disk_def)
  have "mc_api m3 = mc_api m"
    using l3 by (simp add: loads_def)
  then show ?thesis
    using e L heap l1 l3 loads_trans [OF l3 L(2)] by auto
qed

section \<open>The blob\<close>

lemma prepare_keeps:
  assumes ok: "session_ok m" and p: "prepare_constants_array m cs = (m', rc)"
  shows "keeps m m'" and "rs_blob (st m') = rs_blob (st m)" and "mc_api m' = mc_api m"
    and "rc = 0 \<Longrightarrow> cs \<noteq> [] \<Longrightarrow> rs_constants (st m') = replicate (length cs) 0"
proof -
  define m1 where "m1 = fst (heap_call m (8 * length cs))"
  have k1: "keeps m m1"
    using heap_call_keeps [OF ok] by (simp add: m1_def)
  have k2: "keeps m (upd_st (\<lambda>s. s\<lparr>rs_constants := replicate (length cs) 0\<rparr>) m1)"
    by (rule keeps_fields [OF k1]) simp_all
  have s: "mc_state m1 = mc_state m" "mc_api m1 = mc_api m" "mc_state m \<noteq> None"
    using session_ok_state [OF ok] by (simp_all add: m1_def heap_call_def)
  have "(cs = [] \<and> m' = m \<or> m' = m1 \<or> m' = upd_st (\<lambda>s. s\<lparr>rs_constants := replicate (length cs) 0\<rparr>) m1)"
    "rc = 0 \<Longrightarrow> cs \<noteq> [] \<Longrightarrow> m' = upd_st (\<lambda>s. s\<lparr>rs_constants := replicate (length cs) 0\<rparr>) m1"
    using p by (auto simp: prepare_constants_array_def m1_def split: if_splits prod.splits bool.splits)
  then show "keeps m m'" "rs_blob (st m') = rs_blob (st m)" "mc_api m' = mc_api m"
    and "rc = 0 \<Longrightarrow> cs \<noteq> [] \<Longrightarrow> rs_constants (st m') = replicate (length cs) 0"
    using k1 k2 keeps_refl [OF ok] s by auto
qed

lemma fixup_keeps:
  assumes ok: "session_ok m" and none: "rs_blob (st m) = 0" and n: "n < 2 ^ 63"
    and h: "hipmalloc_and_fixup m cs n = (m', rc)"
  shows "keeps m m'" and "mc_api m' = mc_api m" and "rc = 0 \<Longrightarrow> blob_holds m' n"
    and "rc = 0 \<Longrightarrow> rs_constants (st m') = map2 (\<lambda>c p. if ci_disk c then p else sz_add (rs_blob (st m')) (to_size (ci_offset c)))
           cs (rs_constants (st m))"
proof -
  obtain m1 r where a: "hip_malloc m n = (m1, r)"
    by fastforce
  obtain s where s: "mc_state m = Some s"
    using session_ok_state [OF ok] by blast
  have "keeps m m' \<and> mc_api m' = mc_api m \<and> (rc = 0 \<longrightarrow> blob_holds m' n \<and>
      rs_constants (st m') = map2 (\<lambda>c p. if ci_disk c then p else sz_add (rs_blob (st m')) (to_size (ci_offset c)))
           cs (rs_constants (st m)))"
  proof (cases r)
    case None
    then have m': "m' = m1" "rc = 1"
      using h a by (simp_all add: hipmalloc_and_fixup_def)
    have "same_device m m1"
      using a None by (auto simp: hip_malloc_def same_device_def split: if_splits option.splits)
    then have "keeps m m1"
      using keeps_same_device [OF ok] a None by (auto simp: hip_malloc_def split: if_splits option.splits)
    then show ?thesis
      using m' a None by (auto simp: hip_malloc_def split: if_splits option.splits)
  next
    case (Some p)
    define f where "f = (\<lambda>s :: runtime_state. s\<lparr>rs_blob := p, rs_constants := map2 (\<lambda>c q. if ci_disk c then q
        else sz_add p (to_size (ci_offset c))) cs (rs_constants s)\<rparr>)"
    have m': "m' = upd_st f m1" "rc = 0"
      using h a Some by (simp_all add: hipmalloc_and_fixup_def f_def)
    have st1: "mc_state m1 = mc_state m" "mc_api m1 = mc_api m"
      using a by (auto simp: hip_malloc_def split: if_splits option.splits)
    have st': "st m' = f s"
      using m' st1 s by simp
    have keep: "keeps m m'"
    proof (cases "n = 0")
      case True
      then have p: "p = 0" "m1 = m"
        using a Some by (simp_all add: hip_malloc_def)
      define g where "g = (\<lambda>t :: runtime_state. t\<lparr>rs_constants := map2 (\<lambda>c q. if ci_disk c then q
        else sz_add p (to_size (ci_offset c))) cs (rs_constants s)\<rparr>)"
      have "m' = upd_st g m"
        using m' p s none by (simp add: f_def g_def upd_st_def)
      then show ?thesis
        using keeps_fields [OF keeps_refl [OF ok], of g] by (simp add: g_def)
    next
      case False
      then have a': "hip_malloc m n = (m1, Some p)" "0 < n"
        using a Some by simp_all
      have dev: "dev_of (f s) = (dev_of s)(Blob := (p, 0))"
      proof
        fix x show "dev_of (f s) x = ((dev_of s)(Blob := (p, 0))) x"
        proof (cases x)
          case (Buf b) then show ?thesis by (cases b) (simp_all add: f_def)
        qed (simp_all add: f_def)
      qed
      have pin: "pin_of (f s) = pin_of s"
        by (rule pin_of_cong) (simp_all add: f_def)
      have g: "mc_gpu m1 = emit (Ev_malloc p n) (mc_gpu m\<lparr>g_dev := (p, n) # g_dev (mc_gpu m)\<rparr>)"
        using a' by (auto simp: hip_malloc_def split: option.splits)
      show ?thesis
      proof (rule keeps_direct [OF ok a', where b = Blob and k = 0])
        show "session_arena m' = session_arena m1" "mc_state m' \<noteq> None"
          using m' st1 s by (simp_all add: session_arena_def f_def)
        show "fixed m' = fixed m" "event_strangers m' = event_strangers m"
          using m' st1 s g by (simp_all add: fixed_def event_strangers_def f_def)
        show "set (raw_ptrs (st m')) \<subseteq> insert p (set (raw_ptrs (st m)))"
          using st' s by (auto simp: raw_ptrs_def f_def)
      qed (use m' st1 s st' dev pin none in simp_all)
    qed
    moreover have "blob_holds m' n"
    proof (cases "n = 0")
      case False
      then have "hip_malloc m n = (m1, Some p)" "0 < n"
        using a Some by simp_all
      moreover have "hip_ok (mc_api m)" "blocks_ok (g_dev (mc_gpu m))"
        using ok by (simp_all add: session_ok_def allocator_inv_def)
      ultimately have "g_dev (mc_gpu m1) = (p, n) # g_dev (mc_gpu m)" "blocks_ok (g_dev (mc_gpu m1))"
        by (auto simp: hip_malloc_def hip_ok_def split: option.splits)
      then show ?thesis
        using m' st1 s by (simp add: blob_holds_def f_def blocks_ok_Cons)
    qed (simp add: blob_holds_def)
    moreover have b': "rs_blob (st m') = p" "rs_constants (st m') = map2 (\<lambda>c q. if ci_disk c then q
        else sz_add p (to_size (ci_offset c))) cs (rs_constants (st m))"
      using st1 m' s by (simp_all add: f_def)
    moreover have "mc_api m' = mc_api m"
      using st1 m' by simp
    ultimately show ?thesis
      unfolding b' by simp
  qed
  then show "keeps m m'" and "mc_api m' = mc_api m" and "rc = 0 \<Longrightarrow> blob_holds m' n"
    and "rc = 0 \<Longrightarrow> rs_constants (st m') = map2 (\<lambda>c p. if ci_disk c then p else sz_add (rs_blob (st m')) (to_size (ci_offset c)))
           cs (rs_constants (st m))"
    by simp_all
qed

end
