(* ===== verification/Example_Device.thy ===== *)
theory Example_Device
  imports Session_Allocator
begin

text \<open>
  A concrete device to evaluate the runtime on: allocations are bumped to the end of the live
  ones, every call succeeds, and handles are numbered.
\<close>

definition next_free :: "block list \<Rightarrow> nat" where
  "next_free bs = foldr (\<lambda>b a. max (fst b + snd b) a) bs 4096"

definition bump :: "block list \<Rightarrow> nat \<Rightarrow> nat option" where
  "bump bs n = (if next_free bs + n \<le> size_limit then Some (next_free bs) else None)"

definition bump_api :: hip_api where
  "bump_api =
     \<lparr>api_dev_at = \<lambda>g. bump (g_dev g), api_pin_at = \<lambda>g. bump (g_pin g),
      api_create = \<lambda>g name. Some (Suc (length (g_trace g))), api_call = \<lambda>g name. True,
      api_heap = \<lambda>g n. True, api_env = \<lambda>name. None\<rparr>"

definition failing_api :: "string \<Rightarrow> hip_api" where
  "failing_api call = bump_api\<lparr>api_call := \<lambda>g name. name \<noteq> call\<rparr>"

definition empty_gpu :: gpu where
  "empty_gpu =
     \<lparr>g_dev = [], g_pin = [], g_streams = [], g_blas = [], g_events = [], g_profiles = 0,
      g_mem = \<lambda>a. 0, g_host = \<lambda>a. 0, g_trace = []\<rparr>"

text \<open>The state \<open>calloc\<close> leaves.\<close>

definition zero_state :: runtime_state where
  "zero_state =
     \<lparr>rs_stream = 0, rs_blas = 0, rs_blob = 0, rs_constants = [], rs_disk = None, rs_pools = [],
      rs_scan_pools = [], rs_scan_active = False, rs_offsets = None, rs_num_buffers = 0,
      rs_scratch = \<lambda>k. \<lparr>sc_ptr = 0, sc_size = 0\<rparr>, rs_host = \<lambda>k. \<lparr>sc_ptr = 0, sc_size = 0\<rparr>,
      rs_output_self = 0, rs_output_fn = 0, rs_op_profile = False, rs_options = None,
      rs_error_flag = 0, rs_seqlens = \<lparr>ci_valid = False, ci_val = 0, ci_ptr = 0\<rparr>,
      rs_sai = \<lparr>ci_valid = False, ci_val = 0, ci_ptr = 0\<rparr>,
      rs_loop = \<lparr>lb_iter_buf = 0, lb_iter_capacity = 0, lb_iter_dev = 0, lb_cond_host = 0,
        lb_cond_dev = 0, lb_event = 0\<rparr>,
      rs_op_states = None, rs_num_op_states = 0, rs_zp_cache = 0, rs_gqa_policy = 0,
      rs_hipdnn_handle = 0, rs_graph_registry = 0, rs_arena = None\<rparr>"

definition example_machine :: "hip_api \<Rightarrow> runtime_state \<Rightarrow> machine" where
  "example_machine api s = \<lparr>mc_api = api, mc_gpu = empty_gpu, mc_state = Some s, mc_current_stream = 0\<rparr>"

lemma next_free_le: "b \<in> set bs \<Longrightarrow> fst b + snd b \<le> next_free bs"
  by (induction bs) (auto simp: next_free_def)

lemma next_free_pos: "0 < next_free bs"
  by (induction bs) (auto simp: next_free_def)

lemma bump_ok: "0 < n \<Longrightarrow> bump bs n = Some p \<Longrightarrow> blocks_ok bs \<Longrightarrow> blocks_ok ((p, n) # bs)"
  using next_free_le next_free_pos by (fastforce simp: bump_def blocks_ok_Cons disjoint_blocks_def split: if_splits)

lemma bump_api_ok [simp]: "hip_ok bump_api"
  by (simp add: hip_ok_def bump_api_def bump_ok)

lemma failing_api_ok [simp]: "hip_ok (failing_api call)"
  using bump_api_ok by (simp add: hip_ok_def failing_api_def)

lemmas device_literals =
  bump_api_def failing_api_def empty_gpu_def bump_def next_free_def zero_state_def example_machine_def
  upd_st_def upd_gpu_def emit_def

end
