(* ===== verification/Runtime_Properties.thy ===== *)
theory Runtime_Properties
  imports Buffers_Host Example_Device
begin

text \<open>
  The properties of the session's device allocator and of its grow-on-demand buffers.
\<close>

section \<open>A session to evaluate\<close>

definition example_session :: machine where
  "example_session =
     example_machine bump_api (zero_state\<lparr>rs_stream := 7, rs_arena := Some
       \<lparr>ta_base = 4096, ta_blocks = arena_init 16384, ta_direct = [], ta_live = 0, ta_hwm = 0\<rparr>\<rparr>)
     \<lparr>mc_gpu := empty_gpu\<lparr>g_dev := [(4096, 16384)]\<rparr>\<rparr>"

lemma buf_of_zero [simp]: "rs_pools s = [] \<Longrightarrow> rs_scratch s = (\<lambda>k. \<lparr>sc_ptr = 0, sc_size = 0\<rparr>) \<Longrightarrow> buf_of s b = (0, 0)"
  by (cases b) simp_all

lemma owned_none [simp]: "(\<And>b. B b = (0, 0)) \<Longrightarrow> owned_ok B L"
  by (simp add: owned_ok_def backed_def)

lemma example_session_ok [simp]: "buffers_ok example_session"
proof -
  have "arena_inv (arena_init 16384)"
    by (rule arena_init_inv) simp_all
  then have "allocator_inv example_session"
    by (simp add: allocator_inv_def arena_ok_def example_session_def example_machine_def session_arena_def
        zero_state_def empty_gpu_def blocks_ok_Cons arena_eval)
  moreover have "owned_ok (buf_of (st example_session)) L" for L
    by (rule owned_none) (simp add: example_session_def example_machine_def zero_state_def)
  ultimately show ?thesis
    by (simp add: buffers_ok_def)
qed

lemmas request_eval =
  ensure_workspace_def grow_scratch_def get_pool_base_def ensure_pool_domains_def grow_pool_def ensure_scratch_def
  heap_call_def device_alloc_def device_free_def hip_malloc_def hip_free_def hip_device_sync_def hip_stream_sync_def
  sync_session_def set_pool_def set_scratch_def set_arena_def session_arena_def track_def no_scratch_def grown_size_def
  ensure_defs example_session_def device_literals arena_eval

definition example_requests :: "request list" where
  "example_requests = [Req_pool 0 5000, Req_workspace 4096, Req_pool 0 9000]"

definition example_after :: machine where
  "example_after = the (serve_all example_session example_requests)"

lemma example_served [simp]:
  "serve_all example_session example_requests = Some example_after"
  "buf_of (st example_after) (Pool 0) = (20480, 9000)"
  "buf_of (st example_after) (Slot Workspace) = (12288, 4096)"
  by (simp_all add: example_after_def example_requests_def request_eval)

section \<open>Histories of requests\<close>

text \<open>C17: After any history of requests for pools, workspace and operator scratch (the nine entry
  points of \<open>request\<close>; the fp32 adapter of \<open>gqa.cpp\<close>, which C23 is about, is not one) that did not
  abort, two non-empty buffers of the session share no byte, nor does a buffer with a live
  range that is not a buffer; each buffer is backed by a live device range at least as long
  as its recorded size, and the ranges that are not buffers are the ones from before.\<close>

theorem requests_keep_buffers_apart:
  assumes ok: "buffers_ok m" and n: "\<forall>r \<in> set rs. request_size r < size_limit"
    and run: "serve_all m rs = Some m'"
    and b: "b \<noteq> c" "fst (buf_of (st m') b) \<noteq> 0" "fst (buf_of (st m') c) \<noteq> 0"
  shows "disjoint_blocks (buf_of (st m') b) (buf_of (st m') c) \<and>
    (\<forall>f \<in> foreign m'. disjoint_blocks (buf_of (st m') b) f) \<and>
    (\<exists>len \<ge> snd (buf_of (st m') b). (fst (buf_of (st m') b), len) \<in> session_live m') \<and>
    foreign m' = foreign m"
proof -
  have ok': "allocator_inv m'" "owned_ok (buf_of (st m')) (session_live m')"
    using serve_all_owned(1) [OF ok n run] by (simp_all add: buffers_ok_def)
  have live: "\<exists>len. snd (buf_of (st m') b) \<le> len \<and> (fst (buf_of (st m') b), len) \<in> session_live m'"
    if "fst (buf_of (st m') b) \<noteq> 0" for b
    using owned_okD(1) [OF ok'(2), of b] that by (simp add: backed_def)
  obtain k where k: "snd (buf_of (st m') b) \<le> k" "(fst (buf_of (st m') b), k) \<in> session_live m'"
    using live b by blast
  obtain l where l: "snd (buf_of (st m') c) \<le> l" "(fst (buf_of (st m') c), l) \<in> session_live m'"
    using live b by blast
  have apart: "disjoint_blocks (buf_of (st m') b) (p, j)"
    if "(p, i) \<in> session_live m'" "p \<noteq> fst (buf_of (st m') b)" "j \<le> i" for p i j
    using session.live_disjoint [OF ok'(1) k(2) that(1)] that(2,3) k(1) by (auto simp: disjoint_blocks_def)
  have "disjoint_blocks (buf_of (st m') b) (buf_of (st m') c)"
    using apart [OF l(2) _ l(1)] owned_okD(2) [OF ok'(2) b(1)] b(2) by simp
  moreover have "disjoint_blocks (buf_of (st m') b) f" if f: "f \<in> foreign m'" for f
  proof -
    have "f \<in> session_live m'" "fst f \<noteq> fst (buf_of (st m') b)"
      using f b(2) by (auto simp: foreign_def unowned_def in_starts)
    then show ?thesis
      using apart [of "fst f" "snd f" "snd f"] by simp
  qed
  ultimately show ?thesis
    using k serve_all_owned(2) [OF ok n run] by blast
qed

theorem requests_keep_buffers_apart_witness:
  "disjoint_blocks (20480, 9000) (12288, 4096) \<and> foreign example_after = foreign example_session"
  using requests_keep_buffers_apart [OF example_session_ok _ example_served(1), of "Pool 0" "Slot Workspace"]
  by (simp add: example_requests_def del: buf_of.simps)

section \<open>What a request delivers\<close>

text \<open>C19: \<open>hipdnn_ep_get_pool_base\<close> answers a request for a domain with the start of that
  domain's buffer, which is live and at least as long as the request and at least one byte
  long; a failure leaves the domain as it was or empty.  No other buffer moves.\<close>

theorem pool_base_delivered:
  assumes ok: "buffers_ok m" and "n < size_limit" and "0 \<le> d" and "get_pool_base m d n = (m', p)"
  shows "(if p \<noteq> 0 then fst (buf_of (st m') (Pool (nat d))) = p \<and> (\<exists>len \<ge> max 1 n. (p, len) \<in> session_live m')
      else buf_of (st m') (Pool (nat d)) \<in> {buf_of (st m) (Pool (nat d)), (0, 0)}) \<and>
    (\<forall>b. b \<noteq> Pool (nat d) \<longrightarrow> buf_of (st m') b = buf_of (st m) b)"
proof -
  note G = get_pool_base_owned [OF ok assms(2,4)]
  have "owned_ok (buf_of (st m')) (session_live m')"
    using G(1) by (simp add: buffers_ok_def)
  then have B: "backed (buf_of (st m') (Pool (nat d))) (session_live m')"
    by (rule owned_okD(1))
  have "\<exists>len \<ge> max 1 n. (p, len) \<in> session_live m'" if "p \<noteq> 0"
    using B G(3) [OF assms(3) that] that by (auto simp: backed_def intro: order_trans simp del: buf_of.simps)
  then show ?thesis
    using G(3) [OF assms(3)] G(4,5) by (simp del: buf_of.simps)
qed

theorem pool_base_delivered_witness:
  "snd (get_pool_base example_after 1 0) = 4096 \<and>
   (\<exists>len. 1 \<le> len \<and> (4096, len) \<in> session_live (fst (get_pool_base example_after 1 0)))"
proof -
  have ok: "buffers_ok example_after"
    using serve_all_owned(1) [OF example_session_ok _ example_served(1)] by (simp add: example_requests_def)
  have p: "snd (get_pool_base example_after 1 0) = 4096"
    by (simp add: example_after_def example_requests_def request_eval)
  show ?thesis
    using pool_base_delivered [OF ok, of 0 1 "fst (get_pool_base example_after 1 0)" 4096] p
    by (simp add: prod_eq_iff del: buf_of.simps)
qed

text \<open>The scratch buffers and the entry points that grow them.\<close>

definition scratch_entries :: "((machine \<Rightarrow> nat \<Rightarrow> machine \<times> int) \<times> slot) list" where
  "scratch_entries =
     [(ensure_qmoe_scratch, Qmoe_scratch), (ensure_qmoe_amd_scratch, Qmoe_amd_scratch),
      (ensure_conv_scratch, Conv_scratch), (ensure_qlpnormalization_scratch, Qlpnormalization_scratch),
      (ensure_qsigmoid_scratch, Qsigmoid_scratch), (ensure_matmul_dp4a_scratch, Matmul_dp4a_scratch),
      (ensure_la_scratch, La_scratch)]"

text \<open>C20: Each of the seven scratch entry points returns 0 with a buffer of at least the
  requested bytes or -1 with the buffer empty, and moves no other buffer; the buffer never
  shrinks while the calls succeed.\<close>

theorem scratch_delivered:
  assumes "buffers_ok m" and "n < size_limit" and "(ensure, k) \<in> set scratch_entries" and "ensure m n = (m', rc)"
  shows "(if rc = 0 then max n (sc_size (rs_scratch (st m) k)) \<le> sc_size (rs_scratch (st m') k) \<and>
        (0 < n \<longrightarrow> get_scratch k m' \<noteq> 0)
      else rc = -1 \<and> rs_scratch (st m') k = no_scratch) \<and>
    (\<forall>b. b \<noteq> Slot k \<longrightarrow> buf_of (st m') b = buf_of (st m) b)"
proof -
  have e: "ensure_scratch k m n = (m', rc)"
    using assms(3,4) by (auto simp: scratch_entries_def ensure_defs)
  note E = ensure_scratch_owned [OF assms(1,2) e]
  have "owned_ok (buf_of (st m')) (session_live m')" and nonnull: "mc_state m' \<noteq> None"
    using E(1) by (simp_all add: buffers_ok_def allocator_inv_def)
  from owned_okD(1) [OF this(1), of "Slot k"] E(3) have p: "rc = 0 \<Longrightarrow> 0 < n \<Longrightarrow> get_scratch k m' \<noteq> 0"
    using nonnull by (auto simp: backed_def get_scratch_def split: if_splits)
  have grow: "sc_size (rs_scratch (st m) k) \<le> sc_size (rs_scratch (st m') k)" if "rc = 0"
  proof (cases "n \<le> sc_size (rs_scratch (st m) k)")
    case True
    then show ?thesis using e by (auto simp: ensure_scratch_def split: if_splits prod.splits)
  next
    case False
    then show ?thesis using E(3) that by simp
  qed
  show ?thesis
    using E(3-5) p grow by auto
qed

theorem scratch_delivered_witness:
  "get_scratch Conv_scratch (fst (ensure_conv_scratch example_session 100)) \<noteq> 0"
proof -
  have "snd (ensure_conv_scratch example_session 100) = 0"
    by (simp add: request_eval)
  then show ?thesis
    using scratch_delivered [OF example_session_ok, of 100 ensure_conv_scratch Conv_scratch
        "fst (ensure_conv_scratch example_session 100)" 0]
    by (simp add: scratch_entries_def prod_eq_iff)
qed

section \<open>The order of device calls\<close>

text \<open>C18: With a compute stream, no request calls \<open>hipFree\<close> before it has synchronized the stream
  in that same request: kernels in flight never lose their buffer.  A block given back to the
  arena is no \<open>hipFree\<close> and not in the trace; the arena synchronizes the device before it.\<close>

theorem request_frees_after_sync:
  assumes "mc_state m \<noteq> None" and "rs_stream (st m) \<noteq> 0" and "serve m r = Some m'"
  shows "\<exists>es. g_trace (mc_gpu m') = rev es @ g_trace (mc_gpu m) \<and> frees_synced False es"
  using serve_behaves [OF assms] by (simp add: behaves_def)

theorem request_frees_after_sync_witness:
  "\<exists>es. g_trace (mc_gpu (the (serve example_after (Req_pool 0 10000)))) = rev es @ g_trace (mc_gpu example_after) \<and>
     frees_synced False es"
proof (rule request_frees_after_sync [of _ "Req_pool 0 10000"])
  show "mc_state example_after \<noteq> None" and "rs_stream (st example_after) \<noteq> 0"
    by (simp_all add: example_after_def example_requests_def request_eval)
  show "serve example_after (Req_pool 0 10000) = Some (the (serve example_after (Req_pool 0 10000)))"
    by simp
qed

section \<open>Amortized growth\<close>

text \<open>How often a series of workspace requests enlarges the workspace.\<close>

fun regrowths :: "machine \<Rightarrow> nat list \<Rightarrow> nat" where
  "regrowths m [] = 0"
| "regrowths m (n # ns) =
     (case ensure_workspace m n of
        None \<Rightarrow> 0
      | Some (m1, rc) \<Rightarrow>
          (if get_workspace_size m1 = get_workspace_size m then 0 else 1) + regrowths m1 ns)"

lemma ensure_workspace_size:
  assumes ok: "buffers_ok m" and n: "n \<le> 2 ^ 63" and e: "ensure_workspace m n = Some (m1, rc)"
  shows "buffers_ok m1" and "get_workspace_size m1 = get_workspace_size m \<or>
    (get_workspace_size m + get_workspace_size m div 2 \<le> get_workspace_size m1)"
proof -
  have n': "n < size_limit"
    using n by simp
  have nonnull: "mc_state m \<noteq> None"
    using ok by (simp add: buffers_ok_def allocator_inv_def)
  have "ensure_scratch Workspace m n = (m1, rc)"
    using e by (auto simp: ensure_workspace_scratch split: prod.splits if_splits)
  from ensure_scratch_owned(1) [OF ok n' this] show ok1: "buffers_ok m1" .
  have size: "get_workspace_size x = sc_size (rs_scratch (st x) Workspace)" if "buffers_ok x" for x
    using that by (auto simp: get_workspace_size_def buffers_ok_def allocator_inv_def)
  let ?s = "get_workspace_size m"
  have "m1 = m \<or> grow_scratch Workspace m n = (m1, True) \<and> 0 < n \<and> ?s < n"
    using e nonnull by (auto simp: ensure_workspace_def size [OF ok] split: if_splits prod.splits bool.splits)
  moreover have "?s + ?s div 2 \<le> get_workspace_size m1"
    if g: "grow_scratch Workspace m n = (m1, True)" "0 < n" "?s < n"
  proof -
    obtain p where "buf_of (st m1) = (buf_of (st m))(Slot Workspace := (p, grown_size (sc_size (rs_scratch (st m) Workspace)) n))"
      using grow_scratch_owned(4) [OF ok g(2) n' g(1)] by blast
    from fun_cong [OF this, of "Slot Workspace"] have "get_workspace_size m1 = grown_size ?s n"
      by (simp add: size ok ok1)
    moreover have "?s + ?s div 2 < size_limit"
      using g(3) n by simp
    ultimately show ?thesis
      using grown_size_half [of ?s n] by auto
  qed
  ultimately show "get_workspace_size m1 = ?s \<or> ?s + ?s div 2 \<le> get_workspace_size m1"
    by blast
qed

text \<open>C21: The workspace is enlarged only logarithmically often: for requests of at most \<open>2 ^ 63\<close> bytes,
  where the size computation cannot wrap, and a workspace of at least two bytes, \<open>k\<close> enlargements
  multiply its size less one byte by at least \<open>(3/2)^k\<close>.  (The size itself may grow by less: three
  bytes become four.)\<close>

theorem workspace_growth_logarithmic:
  assumes "buffers_ok m" and "2 \<le> get_workspace_size m" and "\<forall>n \<in> set ns. n \<le> 2 ^ 63"
    and "serve_all m (map Req_workspace ns) = Some m'"
  shows "3 ^ regrowths m ns * (get_workspace_size m - 1) \<le> 2 ^ regrowths m ns * (get_workspace_size m' - 1)"
  using assms
proof (induction ns arbitrary: m)
  case (Cons n ns)
  then obtain m1 rc where e: "ensure_workspace m n = Some (m1, rc)" and run: "serve_all m1 (map Req_workspace ns) = Some m'"
    by (auto split: option.splits)
  let ?s = "get_workspace_size m" and ?s1 = "get_workspace_size m1" and ?k = "regrowths m1 ns"
  note S = ensure_workspace_size [OF Cons.prems(1) _ e]
  have s1: "?s1 = ?s \<or> 3 * (?s - 1) \<le> 2 * (?s1 - 1) \<and> ?s < ?s1"
    using S(2) Cons.prems(2,3) by auto
  then have IH: "3 ^ ?k * (?s1 - 1) \<le> 2 ^ ?k * (get_workspace_size m' - 1)"
    using Cons.prems S(1) run by (intro Cons.IH) auto
  show ?case
  proof (cases "?s1 = ?s")
    case True
    then show ?thesis using IH e by simp
  next
    case False
    have "3 ^ Suc ?k * (?s - 1) = 3 ^ ?k * (3 * (?s - 1))"
      by simp
    also have "\<dots> \<le> 3 ^ ?k * (2 * (?s1 - 1))"
      using s1 False by (intro mult_le_mono2) blast
    also have "\<dots> = 2 * (3 ^ ?k * (?s1 - 1))"
      by simp
    also have "\<dots> \<le> 2 * (2 ^ ?k * (get_workspace_size m' - 1))"
      using IH by (rule mult_le_mono2)
    finally show ?thesis
      using False e by simp
  qed
qed simp

theorem workspace_growth_logarithmic_witness:
  "3 ^ regrowths example_after [5000, 5500] * (4096 - 1) \<le> 2 ^ regrowths example_after [5000, 5500] *
     (get_workspace_size (the (serve_all example_after (map Req_workspace [5000, 5500]))) - 1)"
proof -
  have ok: "buffers_ok example_after"
    using serve_all_owned(1) [OF example_session_ok _ example_served(1)] by (simp add: example_requests_def)
  have s: "get_workspace_size example_after = 4096"
    by (simp add: example_after_def example_requests_def request_eval get_workspace_size_def)
  have "serve_all example_after (map Req_workspace [5000, 5500]) \<noteq> None"
    by (simp add: example_after_def example_requests_def request_eval)
  then have "serve_all example_after (map Req_workspace [5000, 5500]) =
      Some (the (serve_all example_after (map Req_workspace [5000, 5500])))"
    by simp
  from workspace_growth_logarithmic [OF ok _ _ this] show ?thesis
    by (simp add: s)
qed

section \<open>Pinned host buffers\<close>

text \<open>C22: After any history of requests for pinned host buffers, each request delivers at
  least its bytes or empties its own slot, whatever came before; the other slots and the
  pinned ranges that are no slot's stay as they are, and no two slots share a range.\<close>

theorem host_request_delivered:
  assumes "pinned_ok m" and "\<forall>r \<in> set (rs @ [r]). host_request_size r < size_limit"
    and "serve_host (serve_host_all m rs) r = (m', served)"
  shows "(if served then host_request_size r \<le> snd (host_of (st m') (host_request_slot r))
      else host_of (st m') (host_request_slot r) = (0, 0)) \<and>
    (\<forall>k. k \<noteq> host_request_slot r \<longrightarrow> host_of (st m') k = host_of (st (serve_host_all m rs)) k) \<and>
    pinned_foreign m' = pinned_foreign m \<and> owned_ok (host_of (st m')) (pinned_live m')"
proof -
  have H: "pinned_ok (serve_host_all m rs)" "pinned_foreign (serve_host_all m rs) = pinned_foreign m"
    using serve_host_all_ok [OF assms(1), of rs] assms(2) by simp_all
  have "host_request_size r < size_limit"
    using assms(2) by simp
  from serve_host_served [OF H(1) this assms(3)] show ?thesis
    using H(2) by (auto simp: host_served_def pinned_ok_def)
qed

lemma example_pinned_ok: "pinned_ok example_session"
proof -
  have "owned_ok (host_of (st example_session)) L" for L
    by (rule owned_none) (simp add: host_of_def example_session_def example_machine_def zero_state_def)
  then show ?thesis
    by (simp add: pinned_ok_def pinned_inv_def example_session_def example_machine_def empty_gpu_def)
qed

theorem host_request_delivered_witness:
  "300 \<le> snd (host_of (st (fst (serve_host (serve_host_all example_session [Req_qmoe_host 100]) (Req_staging 300))))
     Disk_gather_staging)"
proof -
  let ?r = "serve_host (serve_host_all example_session [Req_qmoe_host 100]) (Req_staging 300)"
  have "snd ?r"
    by (simp add: ensure_qmoe_host_scratch_def ensure_host_scratch_def ensure_disk_gather_staging_def
        hip_host_malloc_def set_host_def request_eval)
  then have "?r = (fst ?r, True)"
    by (metis prod.collapse)
  from host_request_delivered [OF example_pinned_ok _ this] show ?thesis
    by simp
qed

section \<open>The fp32 adapter of grouped-query attention\<close>

text \<open>C23: The adapter scratch of \<open>real/gqa.cpp\<close> gives up when the free reports an error, but
  the session's allocator has by then taken an arena block back: after a failed
  \<open>hipDeviceSynchronize\<close> the state still names a buffer that is no longer live.\<close>

theorem gqa_adapter_dangles:
  assumes ok: "buffers_ok m" and a: "session_arena m = Some a"
    and p: "sc_ptr (rs_scratch (st m) Gqa_fp32_adapter_scratch) = ta_base a + off" and "off < ar_size (ta_blocks a)"
    and "sc_size (rs_scratch (st m) Gqa_fp32_adapter_scratch) < n" and "n < size_limit"
    and stream: "rs_stream (st m) = 0 \<or> api_call (mc_api m) (mc_gpu m) ''hipStreamSynchronize''"
    and dev: "\<And>g. \<not> api_call (mc_api m) g ''hipDeviceSynchronize''"
    and e: "ensure_gqa_fp32_adapter_scratch m n = (m', rc)"
  shows "rc = -1 \<and> get_scratch Gqa_fp32_adapter_scratch m' = ta_base a + off \<and>
    (\<forall>len. (ta_base a + off, len) \<notin> session_live m')"
proof -
  let ?k = Gqa_fp32_adapter_scratch
  let ?p = "ta_base a + off"
  have inv: "allocator_inv m" and nonnull: "mc_state m \<noteq> None"
    using ok by (auto simp: buffers_ok_def allocator_inv_def)
  have own: "owned_ok (buf_of (st m)) (session_live m)"
    using ok by (simp add: buffers_ok_def)
  have base: "0 < ta_base a"
    using allocator_invD(2) [OF inv] arena_okD(2) [OF allocator_invD(4) [OF inv a]]
    by (auto simp: blocks_ok_def arena_range_def)
  define m1 where "m1 = sync_session m"
  have m1: "allocator_inv m1" "session_live m1 = session_live m" "mc_state m1 = mc_state m" "session_arena m1 = Some a"
    "mc_api m1 = mc_api m"
    using inv a by (simp_all add: m1_def session_arena_def sync_session_def hip_stream_sync_def)
  have p0: "fst (buf_of (st m) (Slot ?k)) = ?p"
    using p by simp
  obtain len where len: "(?p, len) \<in> session_live m"
    using owned_okD(1) [OF own, of "Slot ?k"] p0 base by (auto simp: backed_def)
  have gone: "session_live (fst (device_free m1 ?p)) = session_live m - {(?p, len)}"
    using session.release_live [OF m1(1), of ?p len] len m1(2) by simp
  have "\<not> snd (device_free m1 ?p)"
    using base assms(4) dev m1(4,5) by (simp add: device_free_def hip_device_sync_def)
  then obtain m2 where m2: "device_free m1 ?p = (m2, False)"
    by (cases "device_free m1 ?p") simp
  have "(if ?p \<noteq> 0 \<and> rs_stream (st m) \<noteq> 0 then hip_stream_sync m else (m, True)) = (m1, True)"
    using stream base by (auto simp: m1_def sync_session_def hip_stream_sync_def)
  then have "ensure_gqa_fp32_adapter_scratch m n = (m2, -1)"
    using nonnull assms(5) base p m2 by (auto simp: ensure_gqa_fp32_adapter_scratch_def Let_def)
  then have m': "m' = fst (device_free m1 ?p)" "rc = -1"
    using e m2 by simp_all
  have "same_session m1 m'"
    unfolding m'(1) by (rule device_free_frame)
  from same_session_state [OF this] nonnull have "get_scratch ?k m' = ?p"
    using p m1(3) by (auto simp: get_scratch_def)
  moreover have "(?p, l) \<notin> session_live m'" for l
    using session.live_start_unique [OF inv, of ?p l len] len by (auto simp: m'(1) gone)
  ultimately show ?thesis
    using m'(2) by blast
qed

definition gqa_session :: machine where
  "gqa_session =
     fst (ensure_gqa_fp32_adapter_scratch (example_session\<lparr>mc_api := failing_api ''hipDeviceSynchronize''\<rparr>) 100)"

lemma gqa_session_ok: "buffers_ok gqa_session"
  and gqa_session_buffer: "sc_ptr (rs_scratch (st gqa_session) Gqa_fp32_adapter_scratch) = 4096"
    "sc_size (rs_scratch (st gqa_session) Gqa_fp32_adapter_scratch) = 100"
proof -
  let ?m = "example_session\<lparr>mc_api := failing_api ''hipDeviceSynchronize''\<rparr>"
  have a: "session_arena ?m = session_arena example_session"
    by (simp add: session_arena_def)
  have "session_live ?m = session_live example_session"
    unfolding session_live_def a by (cases "session_arena example_session") simp_all
  moreover have "allocator_inv ?m"
    using example_session_ok unfolding allocator_inv_def a buffers_ok_def
    by (cases "session_arena example_session") simp_all
  ultimately have "buffers_ok ?m"
    using example_session_ok by (simp add: buffers_ok_def)
  moreover have "ensure_gqa_fp32_adapter_scratch ?m 100 = (fst (ensure_scratch Gqa_fp32_adapter_scratch ?m 100), 0)"
    by (simp add: ensure_gqa_fp32_adapter_scratch_def request_eval)
  ultimately show "buffers_ok gqa_session"
    using ensure_scratch_owned(1) [of ?m 100 Gqa_fp32_adapter_scratch] by (simp add: gqa_session_def prod_eq_iff)
  show "sc_ptr (rs_scratch (st gqa_session) Gqa_fp32_adapter_scratch) = 4096"
    and "sc_size (rs_scratch (st gqa_session) Gqa_fp32_adapter_scratch) = 100"
    by (simp_all add: gqa_session_def ensure_gqa_fp32_adapter_scratch_def request_eval)
qed

theorem gqa_adapter_dangles_witness:
  "get_scratch Gqa_fp32_adapter_scratch (fst (ensure_gqa_fp32_adapter_scratch gqa_session 5000)) = 4096 \<and>
   (4096, 4096) \<notin> session_live (fst (ensure_gqa_fp32_adapter_scratch gqa_session 5000))"
proof -
  obtain a where a: "session_arena gqa_session = Some a" "ta_base a = 4096" "ar_size (ta_blocks a) = 16384"
    by (simp add: gqa_session_def ensure_gqa_fp32_adapter_scratch_def request_eval)
  have api: "\<not> api_call (mc_api gqa_session) g ''hipDeviceSynchronize''"
    "api_call (mc_api gqa_session) g ''hipStreamSynchronize''" for g
    by (simp_all add: gqa_session_def ensure_gqa_fp32_adapter_scratch_def request_eval)
  show ?thesis
    using gqa_adapter_dangles [OF gqa_session_ok a(1), of 0 5000 "fst (ensure_gqa_fp32_adapter_scratch gqa_session 5000)"
        "snd (ensure_gqa_fp32_adapter_scratch gqa_session 5000)"] gqa_session_buffer a(2,3) api
    by simp
qed

end
