(* ===== verification/Loop_Properties.thy ===== *)
theory Loop_Properties
  imports Session_Life Runtime_Properties
begin

text \<open>
  What the Loop and Scan drivers do: the iteration slot, the number of iterations, and the
  parent's pools.
\<close>

section \<open>The staging array\<close>

definition staged :: "machine \<Rightarrow> bool" where
  "staged m \<longleftrightarrow> (let l = rs_loop (st m) in \<forall>i < lb_iter_capacity l.
     read_host (lb_iter_buf l + 8 * i) 8 (mc_gpu m) = le_bytes 8 (word_of_nat i :: 64 word))"

lemma read_write_host: "length bs = n \<Longrightarrow> read_host a n (write_host a bs g) = bs"
  by (rule nth_equalityI) (simp_all add: read_host_def write_host_def)

lemma read_write_host_other: "a + n \<le> b \<or> b + length bs \<le> a \<Longrightarrow> read_host a n (write_host b bs g) = read_host a n g"
  by (auto simp: read_host_def write_host_def)

lemma read_host_split: "k + n \<le> length bs \<Longrightarrow> read_host (a + k) n (write_host a bs g) = take n (drop k bs)"
  by (rule nth_equalityI) (auto simp: read_host_def write_host_def)

lemma fill_iter_Suc: "c \<le> n \<Longrightarrow> fill_iter a c (Suc n) g = store_iter a n (fill_iter a c n g)"
  by (simp add: fill_iter_def)

lemma read_fill_iter:
  assumes "i < n" and "c \<le> n"
  shows "read_host (a + 8 * i) 8 (fill_iter a c n g) =
    (if i < c then read_host (a + 8 * i) 8 g else le_bytes 8 (word_of_nat i :: 64 word))"
  using assms(2,1)
proof (induction n rule: dec_induct)
  case base
  then show ?case
    by (simp add: fill_iter_def)
next
  case (step n)
  show ?case
  proof (cases "i = n")
    case True
    then show ?thesis
      using step.hyps by (simp add: fill_iter_Suc store_iter_def read_write_host)
  next
    case False
    then have "i < n"
      using step.prems by simp
    then show ?thesis
      using step by (simp add: fill_iter_Suc store_iter_def read_write_host_other)
  qed
qed

lemma read_host_read: "k + n \<le> len \<Longrightarrow> take n (drop k (read_host a len g)) = read_host (a + k) n g"
  by (rule nth_equalityI) (auto simp: read_host_def add.assoc)

lemma grow_iter_buffer_staged:
  assumes ok: "session_ok m" and s: "staged m" and n: "lb_iter_capacity (rs_loop (st m)) < n"
    and g: "grow_iter_buffer m n = Some (m', rc)"
  shows "staged m'" and "rc = 0 \<Longrightarrow> lb_iter_capacity (rs_loop (st m')) = n"
proof -
  let ?old = "lb_iter_buf (rs_loop (st m))" and ?cap = "lb_iter_capacity (rs_loop (st m))"
  have nonnull: "mc_state m \<noteq> None"
    by (rule session_ok_state [OF ok])
  obtain m1 r where a: "hip_host_malloc m (sz_mul n 8) = (m1, r)"
    by fastforce
  have m1: "mc_state m1 = mc_state m" "g_host (mc_gpu m1) = g_host (mc_gpu m)"
    using a by (auto simp: hip_host_malloc_def split: option.splits if_splits)
  have R: "read_host p k (mc_gpu m1) = read_host p k (mc_gpu m)" for p k
    by (simp add: read_host_def m1)
  have "staged m' \<and> (rc = 0 \<longrightarrow> lb_iter_capacity (rs_loop (st m')) = n)"
  proof (cases r)
    case None
    then have "m' = m1" "rc = -1"
      using g a by (simp_all add: grow_iter_buffer_eq [OF n])
    then show ?thesis
      using s by (simp add: staged_def m1 R)
  next
    case (Some p)
    define copy where "copy = (\<lambda>g. if ?old \<noteq> 0 \<and> 0 < ?cap then write_host p (read_host ?old (8 * ?cap) g) g else g)"
    define m2 where "m2 = (if ?old \<noteq> 0 \<and> 0 < ?cap
      then upd_gpu (\<lambda>g. write_host p (read_host ?old (8 * ?cap) g) g) m1 else m1)"
    define m3 where "m3 = upd_gpu (fill_iter p ?cap n) m2"
    define m4 where "m4 = (if ?old \<noteq> 0 then fst (hip_host_free (fst (hip_stream_sync m3)) ?old) else m3)"
    have m': "m' = upd_loop (\<lambda>l. l\<lparr>lb_iter_buf := p, lb_iter_capacity := n\<rparr>) m4"
      using g a Some by (auto simp: grow_iter_buffer_eq [OF n] Let_def m2_def m3_def m4_def split: if_splits)
    have m4: "mc_state m4 = mc_state m" "g_host (mc_gpu m4) = g_host (fill_iter p ?cap n (copy (mc_gpu m1)))"
      using m1 by (auto simp: m4_def m3_def m2_def copy_def hip_host_free_def hip_stream_sync_def)
    have l: "rs_loop (st m') = (rs_loop (st m))\<lparr>lb_iter_buf := p, lb_iter_capacity := n\<rparr>"
      using nonnull m4(1) by (auto simp: m')
    have old: "?old = 0 \<Longrightarrow> ?cap = 0"
      using ok owned_okD(1) [of "pin_of (st m)" "pinned_live m" Iter_buf] by (simp add: session_ok_def backed_def)
    have "read_host (p + 8 * i) 8 (mc_gpu m') = le_bytes 8 (word_of_nat i :: 64 word)" if i: "i < n" for i
    proof -
      have "read_host (p + 8 * i) 8 (mc_gpu m') = read_host (p + 8 * i) 8 (fill_iter p ?cap n (copy (mc_gpu m1)))"
        by (simp add: read_host_def m' m4)
      also have "\<dots> = (if i < ?cap then read_host (p + 8 * i) 8 (copy (mc_gpu m1)) else le_bytes 8 (word_of_nat i :: 64 word))"
        using read_fill_iter [OF i] n by simp
      also have "\<dots> = le_bytes 8 (word_of_nat i :: 64 word)"
      proof (cases "i < ?cap")
        case True
        then have "copy (mc_gpu m1) = write_host p (read_host ?old (8 * ?cap) (mc_gpu m1)) (mc_gpu m1)"
          using old by (auto simp: copy_def)
        then have "read_host (p + 8 * i) 8 (copy (mc_gpu m1)) = read_host (?old + 8 * i) 8 (mc_gpu m1)"
          using True by (simp add: read_host_split read_host_read)
        then show ?thesis
          using s True by (simp add: R staged_def Let_def)
      qed simp
      finally show ?thesis .
    qed
    then show ?thesis
      unfolding staged_def l by (simp add: Let_def)
  qed
  then show "staged m'" and "rc = 0 \<Longrightarrow> lb_iter_capacity (rs_loop (st m')) = n"
    by blast+
qed

text \<open>Steps that leave the staging array alone.\<close>

definition keeps_staging :: "machine \<Rightarrow> machine \<Rightarrow> bool" where
  "keeps_staging m m' \<longleftrightarrow> g_host (mc_gpu m') = g_host (mc_gpu m) \<and>
     lb_iter_buf (rs_loop (st m')) = lb_iter_buf (rs_loop (st m)) \<and>
     lb_iter_capacity (rs_loop (st m')) = lb_iter_capacity (rs_loop (st m))"

lemma staged_keep: "keeps_staging m m' \<Longrightarrow> staged m' = staged m"
  by (simp add: keeps_staging_def staged_def read_host_def Let_def)

lemma keeps_staging_trans: "keeps_staging a b \<Longrightarrow> keeps_staging b c \<Longrightarrow> keeps_staging a c"
  by (simp add: keeps_staging_def)

lemma keeps_staging_ensure:
  assumes "mc_state m \<noteq> None"
  shows "keeps_staging m (fst (ensure_iter_dev m))" "keeps_staging m (fst (ensure_cond m))" "keeps_staging m (fst (ensure_event m))"
    "mc_state (fst (ensure_iter_dev m)) \<noteq> None" "mc_state (fst (ensure_cond m)) \<noteq> None" "mc_state (fst (ensure_event m)) \<noteq> None"
  using assms
  by (auto simp: ensure_iter_dev_def ensure_cond_def ensure_event_def keeps_staging_def event_create_def hip_create_def
      hip_malloc_def hip_host_malloc_def hip_host_free_def split: option.split prod.split)

lemma ensure_loop_buffers_staged:
  assumes ok: "session_ok m" and s: "staged m" and e: "ensure_loop_buffers m k = Some (m', 0)"
  shows "staged m'" and "nat k \<le> lb_iter_capacity (rs_loop (st m'))"
proof -
  obtain m1 rc1 where 1: "(if 0 < k \<and> nat k > lb_iter_capacity (rs_loop (st m))
        then grow_iter_buffer m (nat k) else Some (m, 0)) = Some (m1, rc1)"
    and m': "(m', 0) = and_then (and_then (and_then (m1, rc1) ensure_iter_dev) ensure_cond) ensure_event"
    using e by (auto simp: ensure_loop_buffers_def split: if_splits)
  have rc: "rc1 = 0"
    using m' by (simp add: and_then_def split: if_splits)
  have s1: "staged m1" "nat k \<le> lb_iter_capacity (rs_loop (st m1))"
    using 1 s grow_iter_buffer_staged [OF ok s] rc by (auto split: if_splits)
  have "mc_state m1 \<noteq> None"
  proof (cases "0 < k \<and> nat k > lb_iter_capacity (rs_loop (st m))")
    case True
    then have n: "lb_iter_capacity (rs_loop (st m)) < nat k"
      by simp
    then have "mc_state m1 \<noteq> None"
      using 1 session_ok_state [OF ok] True
      by (auto simp: grow_iter_buffer_eq [OF n] Let_def hip_host_malloc_def hip_host_free_def hip_stream_sync_def split: option.splits if_splits)
    then show ?thesis .
  qed (use 1 session_ok_state [OF ok] in auto)
  define m2 where "m2 = fst (ensure_iter_dev m1)"
  define m3 where "m3 = fst (ensure_cond m2)"
  have n: "mc_state m2 \<noteq> None" "mc_state m3 \<noteq> None"
    using keeps_staging_ensure(4) [OF \<open>mc_state m1 \<noteq> None\<close>] keeps_staging_ensure(5) by (simp_all add: m2_def m3_def)
  have "m' = fst (ensure_event m3)"
    using m' rc by (cases "ensure_iter_dev m1"; cases "ensure_cond m2"; cases "ensure_event m3")
      (auto simp: and_then_def m2_def m3_def split: if_splits)
  moreover have "keeps_staging m1 m2" "keeps_staging m2 m3" "keeps_staging m3 (fst (ensure_event m3))"
    using keeps_staging_ensure(1) [OF \<open>mc_state m1 \<noteq> None\<close>] keeps_staging_ensure(2) [OF n(1)] keeps_staging_ensure(3) [OF n(2)]
    by (simp_all add: m2_def m3_def)
  ultimately have K: "keeps_staging m1 m'"
    by (simp add: keeps_staging_def)
  show "staged m'"
    using s1(1) staged_keep [OF K] by simp
  show "nat k \<le> lb_iter_capacity (rs_loop (st m'))"
    using s1(2) K by (simp add: keeps_staging_def)
qed

section \<open>Counted loops\<close>

text \<open>
  The reference: the body runs once per index, on a machine whose iteration slot holds the
  index; the copy that puts it there is the last call of the trace.
\<close>

definition put_iter :: "nat \<Rightarrow> nat \<Rightarrow> machine \<Rightarrow> machine" where
  "put_iter iter_dev i =
     upd_gpu (\<lambda>g. emit (Ev_call ''hipMemcpyAsync'') (write_mem iter_dev (le_bytes 8 (word_of_nat i :: 64 word)) g))"

fun for_each :: "(nat \<Rightarrow> machine \<Rightarrow> machine \<times> int) \<Rightarrow> nat list \<Rightarrow> machine \<Rightarrow> machine \<times> int" where
  "for_each f [] m = (m, 0)"
| "for_each f (i # is) m = (let (m1, rc) = f i m in if rc \<noteq> 0 then (m1, rc) else for_each f is m1)"

definition keeps_array :: "loop_buffers \<Rightarrow> machine \<Rightarrow> machine \<Rightarrow> bool" where
  "keeps_array l m m' \<longleftrightarrow> mc_api m' = mc_api m \<and>
     read_host (lb_iter_buf l) (8 * lb_iter_capacity l) (mc_gpu m') = read_host (lb_iter_buf l) (8 * lb_iter_capacity l) (mc_gpu m)"

lemma keeps_arrayD:
  assumes "keeps_array l m m'" and "i < lb_iter_capacity l"
  shows "read_host (lb_iter_buf l + 8 * i) 8 (mc_gpu m') = read_host (lb_iter_buf l + 8 * i) 8 (mc_gpu m)"
  using assms read_host_read [of "8 * i" 8 "8 * lb_iter_capacity l" "lb_iter_buf l"]
  by (simp add: keeps_array_def) (metis)

lemma counted_from:
  assumes body: "\<And>m. keeps_array l m (fst (body m (lb_iter_dev l) (lb_cond_dev l)))"
    and copies: "\<And>g. api_call (mc_api m) g ''hipMemcpyAsync''"
    and array: "\<And>j. j < i + n \<Longrightarrow>
      read_host (lb_iter_buf l + 8 * j) 8 (mc_gpu m) = le_bytes 8 (word_of_nat j :: 64 word)"
    and cap: "i + n \<le> lb_iter_capacity l"
  shows "loop_from Counted body l i n go m =
    for_each (\<lambda>i m. body (put_iter (lb_iter_dev l) i m) (lb_iter_dev l) (lb_cond_dev l)) [i ..< i + n] m"
  using copies array cap
proof (induction n arbitrary: i go m)
  case (Suc n)
  let ?m1 = "put_iter (lb_iter_dev l) i m"
  have w: "hip_write ''hipMemcpyAsync'' (lb_iter_dev l) (read_host (lb_iter_buf l + 8 * i) 8 (mc_gpu m)) m = (?m1, True)"
    using Suc.prems(1,2) by (simp add: hip_write_def put_iter_def)
  obtain m2 rc where b: "body ?m1 (lb_iter_dev l) (lb_cond_dev l) = (m2, rc)"
    by fastforce
  have k: "keeps_array l m m2"
    using body [of ?m1] b by (simp add: keeps_array_def put_iter_def read_host_def write_mem_def)
  have "loop_from Counted body l (Suc i) n go m2 =
      for_each (\<lambda>i m. body (put_iter (lb_iter_dev l) i m) (lb_iter_dev l) (lb_cond_dev l)) [Suc i ..< Suc i + n] m2"
  proof (rule Suc.IH)
    show "api_call (mc_api m2) g ''hipMemcpyAsync''" for g
      using k Suc.prems(1) by (simp add: keeps_array_def)
    show "read_host (lb_iter_buf l + 8 * j) 8 (mc_gpu m2) = le_bytes 8 (word_of_nat j :: 64 word)" if "j < Suc i + n" for j
      using keeps_arrayD [OF k, of j] Suc.prems(2) [of j] Suc.prems(3) that by simp
  qed (use Suc.prems(3) in simp)
  moreover have "[i ..< i + Suc n] = i # [Suc i ..< Suc i + n]"
    using upt_conv_Cons [of i "i + Suc n"] by simp
  ultimately show ?case
    by (simp add: w b consults_cond_def)
qed simp

section \<open>Dynamic loops\<close>

text \<open>One iteration that returns 0: the index is copied in, the body runs, the condition is read.\<close>

definition dynamic_step :: "(machine \<Rightarrow> nat \<Rightarrow> nat \<Rightarrow> machine \<times> int) \<Rightarrow> loop_buffers \<Rightarrow> nat \<Rightarrow> machine \<Rightarrow> machine \<Rightarrow> bool" where
  "dynamic_step body l i m m' \<longleftrightarrow>
     (let m1 = fst (hip_write ''hipMemcpyAsync'' (lb_iter_dev l) (read_host (lb_iter_buf l + 8 * i) 8 (mc_gpu m)) m);
          m2 = fst (body m1 (lb_iter_dev l) (lb_cond_dev l))
      in snd (body m1 (lb_iter_dev l) (lb_cond_dev l)) = 0 \<and> m' = fst (check_cond Dynamic m2 (lb_cond_dev l)))"

definition goes_on :: "loop_buffers \<Rightarrow> machine \<Rightarrow> bool" where
  "goes_on l m \<longleftrightarrow> g_mem (mc_gpu m) (lb_cond_dev l) \<noteq> 0"

lemma check_cond_Dynamic:
  "check_cond Dynamic m c = (m', 0, go) \<Longrightarrow> go = (g_mem (mc_gpu m') c \<noteq> 0)"
  by (auto simp: check_cond_def split: prod.splits bool.splits)

definition dynamic_trace :: "(machine \<Rightarrow> nat \<Rightarrow> nat \<Rightarrow> machine \<times> int) \<Rightarrow> loop_buffers \<Rightarrow> nat \<Rightarrow> nat \<Rightarrow> machine list \<Rightarrow> bool" where
  "dynamic_trace body l i n ms \<longleftrightarrow> ms \<noteq> [] \<and> length ms \<le> Suc n \<and>
     (\<forall>j. Suc j < length ms \<longrightarrow> dynamic_step body l (i + j) (ms ! j) (ms ! Suc j)) \<and>
     (\<forall>j. 0 < j \<and> Suc j < length ms \<longrightarrow> goes_on l (ms ! j)) \<and>
     (length ms = Suc n \<or> 1 < length ms \<and> \<not> goes_on l (last ms))"

lemma dynamic_trace_Cons:
  assumes t: "dynamic_trace body l (Suc i) n ms" and step: "dynamic_step body l i m (hd ms)" and go: "goes_on l (hd ms)"
  shows "dynamic_trace body l i (Suc n) (m # ms)"
proof -
  have hd: "ms ! 0 = hd ms"
    using t by (simp add: dynamic_trace_def hd_conv_nth)
  have "dynamic_step body l (i + j) ((m # ms) ! j) ((m # ms) ! Suc j)" if "Suc j < length (m # ms)" for j
    using t step that hd by (cases j) (simp_all add: dynamic_trace_def)
  moreover have "goes_on l ((m # ms) ! j)" if j: "0 < j" "Suc j < length (m # ms)" for j
  proof -
    obtain k where k: "j = Suc k"
      using j(1) by (cases j) simp_all
    have "goes_on l (ms ! k)"
      using t go hd j(2) by (cases "k = 0") (simp_all add: dynamic_trace_def k)
    then show ?thesis
      by (simp add: k)
  qed
  ultimately show ?thesis
    using t by (auto simp: dynamic_trace_def)
qed

lemma dynamic_from:
  "loop_from Dynamic body l i n True m = (m', 0) \<Longrightarrow> \<exists>ms. dynamic_trace body l i n ms \<and> hd ms = m \<and> last ms = m'"
proof (induction n arbitrary: i m)
  case 0
  then show ?case
    by (intro exI [of _ "[m]"]) (simp add: dynamic_trace_def)
next
  case (Suc n)
  obtain m1 b1 where 1: "hip_write ''hipMemcpyAsync'' (lb_iter_dev l) (read_host (lb_iter_buf l + 8 * i) 8 (mc_gpu m)) m = (m1, b1)"
    by fastforce
  obtain m2 rc where 2: "body m1 (lb_iter_dev l) (lb_cond_dev l) = (m2, rc)"
    by fastforce
  obtain m3 status go where 3: "check_cond Dynamic m2 (lb_cond_dev l) = (m3, status, go)"
    using prod_cases3 by blast
  have ok: "b1" "rc = 0" "status = 0" and rest: "loop_from Dynamic body l (Suc i) n go m3 = (m', 0)"
    using Suc.prems by (auto simp: 1 2 3 consults_cond_def split: bool.splits if_splits)
  have go: "go = goes_on l m3"
    using check_cond_Dynamic [of m2 _ m3 go] 3 ok(3) by (simp add: goes_on_def)
  have step: "dynamic_step body l i m m3"
    by (simp add: dynamic_step_def Let_def 1 2 3 ok)
  show ?case
  proof (cases "go \<and> 0 < n")
    case True
    then have "loop_from Dynamic body l (Suc i) n True m3 = (m', 0)"
      using rest by simp
    from Suc.IH [OF this] obtain ms where ms: "dynamic_trace body l (Suc i) n ms" "hd ms = m3" "last ms = m'"
      by blast
    have "dynamic_trace body l i (Suc n) (m # ms)"
      using ms(1) step True go by (intro dynamic_trace_Cons) (simp_all add: ms(2))
    then show ?thesis
      using ms by (intro exI [of _ "m # ms"]) (auto simp: dynamic_trace_def)
  next
    case False
    then have "m' = m3" "n = 0 \<or> \<not> goes_on l m3"
      using rest go by (cases n; simp add: consults_cond_def)+
    then show ?thesis
      using step by (intro exI [of _ "[m, m3]"]) (auto simp: dynamic_trace_def)
  qed
qed

section \<open>A session to evaluate\<close>

definition fresh_machine :: machine where
  "fresh_machine = \<lparr>mc_api = bump_api, mc_gpu = empty_gpu, mc_state = None, mc_current_stream = 0\<rparr>"

lemma fresh_machine_ok [simp]: "device_ok fresh_machine" "mc_state fresh_machine = None"
  by (simp_all add: device_ok_def fresh_machine_def empty_gpu_def blocks_ok_def)

definition open_session :: machine where
  "open_session = fst (initialize_state_handles True True fresh_machine)"

lemmas create_eval =
  initialize_state_handles_def stream_create_def blas_create_def hip_create_def hip_call_def hip_malloc_def hip_write_def
  profile_create_def write_mem_def initial_state_def fresh_machine_def device_literals no_scratch_def

lemma open_session_created: "initialize_state_handles True True fresh_machine = (open_session, 0)"
  by (simp add: open_session_def create_eval)

lemma open_session_ok [simp]: "session_ok open_session" "staged open_session" "\<not> rs_scan_active (st open_session)"
proof -
  note I = initialize_ok [OF fresh_machine_ok open_session_created]
  show "session_ok open_session" "\<not> rs_scan_active (st open_session)"
    using I(1,5) by blast+
  show "staged open_session"
    by (simp add: staged_def open_session_def create_eval)
qed

lemmas loop_eval =
  ensure_loop_buffers_def grow_iter_buffer_eq ensure_iter_dev_def ensure_cond_def ensure_event_def event_create_def
  and_then_def hip_host_malloc_def sz_mul_def upd_loop_def
  open_session_def create_eval

section \<open>Properties\<close>

text \<open>C25: A counted loop calls its body once per index, in order, each time on a machine whose
  iteration slot on the device holds the index, until a body returns a status other than 0;
  the staging array the slot is copied from is right after every growth.\<close>

theorem counted_loop_is_for_each:
  assumes ok: "session_ok m" "staged m" and k: "0 \<le> k"
    and e: "ensure_loop_buffers m k = Some (m1, 0)" and l: "l = rs_loop (st m1)"
    and copies: "\<And>g. api_call (mc_api m1) g ''hipMemcpyAsync''"
    and body: "\<And>x. keeps_array l x (fst (body x (lb_iter_dev l) (lb_cond_dev l) d c))"
  shows "run_counted_loop m (Some body) k True d c =
    Some (for_each (\<lambda>i x. body (put_iter (lb_iter_dev l) i x) (lb_iter_dev l) (lb_cond_dev l) d c)
      [0 ..< nat k] (upd_gpu (write_mem (lb_cond_dev l) [1]) m1))"
proof -
  obtain s where s: "mc_state m = Some s"
    using session_ok_state [OF ok(1)] by auto
  note S = ensure_loop_buffers_staged [OF ok e]
  let ?m2 = "upd_gpu (write_mem (lb_cond_dev l) [1]) m1"
  have "read_host (lb_iter_buf l + 8 * j) 8 (mc_gpu ?m2) = le_bytes 8 (word_of_nat j :: 64 word)" if "j < nat k" for j
    using S that by (simp add: staged_def Let_def l read_host_def)
  then have "loop_from Counted (\<lambda>x a b. body x a b d c) l 0 (nat k) True ?m2 =
    for_each (\<lambda>i x. body (put_iter (lb_iter_dev l) i x) (lb_iter_dev l) (lb_cond_dev l) d c) [0 ..< 0 + nat k] ?m2"
    using S(2) body copies by (intro counted_from) (simp_all add: l)
  then show ?thesis
    using k s by (simp add: run_counted_loop_def run_loop_impl_def e l Let_def)
qed

lemma read_mem_emit: "read_mem a n (emit e g) = read_mem a n g"
  by (simp add: read_mem_def)

lemma read_write_mem_first: "read_mem a (Suc 0) (write_mem a (le_bytes 8 (w :: 64 word)) g) = [ucast w]"
  by (simp add: read_mem_def write_mem_def numeral_eq_Suc)

lemma write_mem_one: "g_mem (write_mem a [b] g) a = b"
  by (simp add: write_mem_def)

definition index_body :: loop_body where
  "index_body m iter_dev cond_dev d c = (upd_gpu (write_mem 64 (read_mem iter_dev 1 (mc_gpu m))) m, 0)"

theorem counted_loop_is_for_each_witness:
  "\<exists>m' rc. run_counted_loop open_session (Some index_body) 3 True 0 0 = Some (m', rc) \<and> rc = 0 \<and> g_mem (mc_gpu m') 64 = 2"
proof -
  define m1 where "m1 = fst (the (ensure_loop_buffers open_session 3))"
  have e: "ensure_loop_buffers open_session 3 = Some (m1, 0)"
    by (simp add: m1_def loop_eval)
  have l: "lb_iter_dev (rs_loop (st m1)) \<noteq> 64" "lb_iter_dev (rs_loop (st m1)) = 4100"
    by (simp_all add: m1_def loop_eval)
  have "run_counted_loop open_session (Some index_body) 3 True 0 0 =
    Some (for_each (\<lambda>i x. index_body (put_iter 4100 i x) 4100 (lb_cond_dev (rs_loop (st m1))) 0 0)
      [0 ..< nat 3] (upd_gpu (write_mem (lb_cond_dev (rs_loop (st m1))) [1]) m1))"
    by (subst counted_loop_is_for_each [OF open_session_ok(1,2) _ e refl])
      (simp_all add: m1_def loop_eval keeps_array_def index_body_def read_host_def)
  moreover have "[0 ..< nat 3] = [0, 1, 2]"
    by (simp add: upt_rec)
  ultimately show ?thesis
    by (simp add: index_body_def put_iter_def read_mem_emit read_write_mem_first write_mem_one)
qed

text \<open>C26: A dynamic loop that returns 0 made at most \<open>M\<close> iterations, each of them complete: the
  index was copied in, the body returned 0 and the condition was read after it; every
  iteration but the first ran because the condition read was not 0, and it stopped after
  \<open>M\<close> iterations or at a condition of 0.\<close>

theorem dynamic_loop_stops:
  assumes "run_loop m (Some body) k True d c = Some (m', 0)" and "mc_state m \<noteq> None"
  shows "\<exists>m1 ms. ensure_loop_buffers m k = Some (m1, 0) \<and>
    dynamic_trace (\<lambda>x a b. body x a b d c) (rs_loop (st m1)) 0 (nat k) ms \<and>
    hd ms = upd_gpu (write_mem (lb_cond_dev (rs_loop (st m1))) [1]) m1 \<and> last ms = m'"
proof -
  obtain m1 where m1: "ensure_loop_buffers m k = Some (m1, 0)"
    "loop_from Dynamic (\<lambda>x a b. body x a b d c) (rs_loop (st m1)) 0 (nat k) True
       (upd_gpu (write_mem (lb_cond_dev (rs_loop (st m1))) [1]) m1) = (m', 0)"
    using assms by (auto simp: run_loop_def run_loop_impl_def Let_def split: option.splits if_splits)
  from dynamic_from [OF m1(2)] m1(1) show ?thesis
    by blast
qed

text \<open>A body that clears the condition when the index is 1.\<close>

definition stop_body :: loop_body where
  "stop_body m iter_dev cond_dev d c =
     (upd_gpu (write_mem cond_dev [if g_mem (mc_gpu m) iter_dev = 1 then 0 else 1]) m, 0)"

lemma loop_from_succeeds:
  assumes "\<And>m a b. snd (body m a b) = 0 \<and> mc_api (fst (body m a b)) = mc_api m" and "\<And>g name. api_call (mc_api m) g name"
  shows "snd (loop_from p body l i n go m) = 0"
  using assms(2)
proof (induction n arbitrary: i go m)
  case (Suc n)
  obtain m1 where 1: "hip_write ''hipMemcpyAsync'' (lb_iter_dev l) (read_host (lb_iter_buf l + 8 * i) 8 (mc_gpu m)) m = (m1, True)"
    "mc_api m1 = mc_api m"
    using Suc.prems by (simp add: hip_write_def)
  obtain m2 where 2: "body m1 (lb_iter_dev l) (lb_cond_dev l) = (m2, 0)" "mc_api m2 = mc_api m"
    using assms(1) [of m1 "lb_iter_dev l" "lb_cond_dev l"] 1(2) by (cases "body m1 (lb_iter_dev l) (lb_cond_dev l)") simp
  obtain m3 go' where 3: "check_cond p m2 (lb_cond_dev l) = (m3, 0, go')" "mc_api m3 = mc_api m"
    using Suc.prems 2(2) by (cases p) (simp_all add: check_cond_def hip_call_def)
  have "snd (loop_from p body l (Suc i) n g x) = 0" if "mc_api x = mc_api m" for g x
    using Suc.prems that by (intro Suc.IH) simp
  then show ?case
    using 2(2) 3(2) by (simp add: 1(1) 2(1) 3(1))
qed simp

theorem dynamic_loop_stops_witness:
  "\<exists>m' m1 ms. run_loop open_session (Some stop_body) 3 True 0 0 = Some (m', 0) \<and>
    ensure_loop_buffers open_session 3 = Some (m1, 0) \<and>
    dynamic_trace (\<lambda>x a b. stop_body x a b 0 0) (rs_loop (st m1)) 0 3 ms \<and> last ms = m'"
proof -
  define m1 where "m1 = fst (the (ensure_loop_buffers open_session 3))"
  have e: "ensure_loop_buffers open_session 3 = Some (m1, 0)" and api: "mc_api m1 = bump_api"
    by (simp_all add: m1_def loop_eval)
  let ?l = "rs_loop (st m1)"
  let ?r = "loop_from Dynamic (\<lambda>x a b. stop_body x a b 0 0) ?l 0 3 True (upd_gpu (write_mem (lb_cond_dev ?l) [1]) m1)"
  define m' where "m' = fst ?r"
  have "snd ?r = 0"
    by (rule loop_from_succeeds) (simp_all add: stop_body_def api, simp add: bump_api_def)
  then have "run_loop open_session (Some stop_body) 3 True 0 0 = Some (m', 0)"
    using session_ok_state [OF open_session_ok(1)]
    by (auto simp: run_loop_def run_loop_impl_def Let_def e m'_def prod_eq_iff)
  from this dynamic_loop_stops [OF this] show ?thesis
    using session_ok_state [OF open_session_ok(1)] by auto
qed

text \<open>Without a session or a body, or with a negative trip count, a loop returns -1 and changes
  nothing; with a false initial condition it returns 0, runs no body and changes nothing,
  whatever the trip count.\<close>

theorem loop_guards:
  assumes "mc_state m = None \<or> body = None \<or> k < 0 \<or> \<not> cond"
  shows "run_loop_impl p m body k cond d c =
    Some (m, if mc_state m = None \<or> body = None \<or> k < 0 then -1 else 0)"
  using assms by (cases "mc_state m"; cases body) (auto simp: run_loop_impl_def)

theorem loop_guards_witness:
  "run_loop_impl Dynamic open_session (Some index_body) 9 False 0 0 = Some (open_session, 0)"
  using loop_guards [of open_session "Some index_body" 9 False Dynamic 0 0] session_ok_state [OF open_session_ok(1)] by simp

text \<open>C29: The size of the staging array is a product of \<open>size_t\<close>.  For every trip count from
  \<open>2 ^ 61\<close> on it wraps to fewer bytes than the indices take (to 0 for \<open>2 ^ 61\<close>, which the
  allocation answers with success and the null pointer).  If the smaller allocation fails the loop
  returns -1; if it succeeds the driver stores indices outside the array.\<close>

theorem loop_count_overflow:
  assumes "mc_state m = Some s" and "lb_iter_capacity (rs_loop s) < nat k" and "2 ^ 61 \<le> k" and "k < 2 ^ 63"
  shows "8 * nat k mod 2 ^ 64 < 8 * nat k \<and>
    (k = 2 ^ 61 \<longrightarrow> hip_host_malloc m (8 * nat k mod 2 ^ 64) = (m, Some 0)) \<and>
    (case hip_host_malloc m (8 * nat k mod 2 ^ 64) of
       (m1, None) \<Rightarrow> run_loop_impl p m (Some body) k True d c = Some (m1, -1)
     | (m1, Some buf) \<Rightarrow> run_loop_impl p m (Some body) k True d c = None)"
proof -
  have k: "2 ^ 61 \<le> nat k" "0 < k"
    using assms(3) by (simp_all add: nat_le_iff le_nat_iff)
  have "8 * nat k mod 2 ^ 64 < 2 ^ 64"
    by simp
  also have "2 ^ 64 \<le> 8 * nat k"
    using k(1) by simp
  finally have wraps: "8 * nat k mod 2 ^ 64 < 8 * nat k" .
  have cap: "lb_iter_capacity (rs_loop (st m)) < nat k"
    using assms(1,2) by simp
  have size: "sz_mul (nat k) 8 = 8 * nat k mod 2 ^ 64"
    by (simp add: sz_mul_def mult.commute)
  then have outside: "sz_mul (nat k) 8 < nat k * 8"
    using wraps by (simp add: mult.commute)
  have "run_loop_impl p m (Some body) k True d c =
      (case hip_host_malloc m (8 * nat k mod 2 ^ 64) of (m1, None) \<Rightarrow> Some (m1, -1) | (m1, Some buf) \<Rightarrow> None)"
    using k(2) cap assms(1) outside
    by (simp add: run_loop_impl_def ensure_loop_buffers_def grow_iter_buffer_eq [OF cap] size and_then_def
        split: prod.split option.split)
  moreover have "k = 2 ^ 61 \<longrightarrow> hip_host_malloc m (8 * nat k mod 2 ^ 64) = (m, Some 0)"
    by (simp add: hip_host_malloc_def)
  ultimately show ?thesis
    using wraps by (auto split: option.split prod.split)
qed

theorem loop_count_overflow_witness:
  "run_loop_impl Dynamic open_session (Some stop_body) (2 ^ 61) True 0 0 = None \<and>
   run_loop_impl Dynamic open_session (Some stop_body) (2 ^ 61 + 1) True 0 0 = None"
proof -
  have s: "mc_state open_session = Some (st open_session)" "lb_iter_capacity (rs_loop (st open_session)) = 0"
    by (simp_all add: open_session_def create_eval)
  have "hip_host_malloc open_session 8 = (m1, r) \<Longrightarrow> r \<noteq> None" for m1 r
    by (auto simp: hip_host_malloc_def open_session_def create_eval)
  then show ?thesis
    using loop_count_overflow [OF s(1), of "2 ^ 61" Dynamic stop_body 0 0]
      loop_count_overflow [OF s(1), of "2 ^ 61 + 1" Dynamic stop_body 0 0]
    by (simp add: s(2) nat_add_distrib split: prod.splits option.splits)
qed

lemma scan_trace:
  "scan_from body i n m = (m', rc) \<Longrightarrow> \<exists>ms. ms \<noteq> [] \<and> hd ms = m \<and> last ms = m' \<and> length ms \<le> n + 1 \<and>
     (\<forall>k. Suc k < length ms \<longrightarrow>
        body (ms ! k) (i + int k) = (ms ! Suc k, if Suc (Suc k) = length ms then rc else 0)) \<and>
     (rc = 0 \<longrightarrow> length ms = n + 1) \<and> (rc \<noteq> 0 \<longrightarrow> 1 < length ms)"
proof (induction n arbitrary: i m)
  case 0
  then show ?case
    by (intro exI [of _ "[m]"]) simp
next
  case (Suc n)
  obtain m1 rc1 where b: "body m i = (m1, rc1)"
    by fastforce
  show ?case
  proof (cases "rc1 = 0")
    case False
    then show ?thesis
      using Suc.prems b by (intro exI [of _ "[m, m1]"]) simp
  next
    case True
    then have "scan_from body (i + 1) n m1 = (m', rc)"
      using Suc.prems b by simp
    from Suc.IH [OF this] obtain ms where ms: "ms \<noteq> []" "hd ms = m1" "last ms = m'" "length ms \<le> n + 1"
      "\<forall>k. Suc k < length ms \<longrightarrow> body (ms ! k) (i + 1 + int k) = (ms ! Suc k, if Suc (Suc k) = length ms then rc else 0)"
      "rc = 0 \<longrightarrow> length ms = n + 1" "rc \<noteq> 0 \<longrightarrow> 1 < length ms"
      by blast
    have last: "rc = 0" if "length ms = 1"
      using ms(7) that by auto
    have "body ((m # ms) ! k) (i + int k) = ((m # ms) ! Suc k, if Suc (Suc k) = length (m # ms) then rc else 0)"
      if "Suc k < length (m # ms)" for k
    proof (cases k)
      case 0
      then show ?thesis
        using b True ms(1,2) last by (auto simp: hd_conv_nth)
    next
      case (Suc j)
      then show ?thesis
        using ms(5) [rule_format, of j] that by (simp add: algebra_simps)
    qed
    then show ?thesis
      using ms(1,3,4,6,7) by (intro exI [of _ "m # ms"]) auto
  qed
qed

text \<open>C28: A Scan that starts makes the Scan's pools the session's and calls its body on the indices
  0, 1, ... in order, each call on the machine the call before it left, as long as the calls return
  0 and indices are left; it returns the status of the last call.  Then the pools the body left
  are kept for the next Scan, the session's pools are the parent's again, and nothing else has
  changed since the last call.  Inside a Scan, without a session or a body, or with a negative
  trip count it returns -1 and changes nothing.\<close>

theorem scan_runs_body:
  "case (mc_state m, body) of
     (Some s, Some f) \<Rightarrow>
       if n < 0 \<or> rs_scan_active s then run_scan m body n a b c d = (m, -1)
       else \<exists>ms m' rc. run_scan m body n a b c d = (m', rc) \<and> ms \<noteq> [] \<and> length ms \<le> nat n + 1 \<and>
         hd ms = m\<lparr>mc_state := Some (s\<lparr>rs_pools := rs_scan_pools s, rs_scan_active := True\<rparr>)\<rparr> \<and>
         (\<forall>k. Suc k < length ms \<longrightarrow>
            f (ms ! k) (int k) a b c d = (ms ! Suc k, if Suc (Suc k) = length ms then rc else 0)) \<and>
         (rc = 0 \<longrightarrow> length ms = nat n + 1) \<and> (rc \<noteq> 0 \<longrightarrow> 1 < length ms) \<and>
         m' = (last ms)\<lparr>mc_state := map_option (\<lambda>t. t\<lparr>rs_scan_pools := rs_pools t, rs_pools := rs_pools s,
           rs_scan_active := False\<rparr>) (mc_state (last ms))\<rparr>
   | _ \<Rightarrow> run_scan m body n a b c d = (m, -1)"
proof (cases "mc_state m = None \<or> body = None")
  case True
  then show ?thesis
    by (cases "mc_state m"; cases body) (simp_all add: run_scan_def)
next
  case False
  then obtain s f where sf: "mc_state m = Some s" "body = Some f"
    by auto
  show ?thesis
  proof (cases "n < 0 \<or> rs_scan_active s")
    case True
    then show ?thesis
      using sf by (auto simp: run_scan_def)
  next
    case ok: False
    obtain m1 rc where r: "scan_from (\<lambda>x i. f x i a b c d) 0 (nat n) (enter_scan m) = (m1, rc)"
      by fastforce
    from scan_trace [OF r] obtain ms where ms: "ms \<noteq> []" "hd ms = enter_scan m" "last ms = m1" "length ms \<le> nat n + 1"
      "\<forall>k. Suc k < length ms \<longrightarrow>
        f (ms ! k) (0 + int k) a b c d = (ms ! Suc k, if Suc (Suc k) = length ms then rc else 0)"
      "rc = 0 \<longrightarrow> length ms = nat n + 1" "rc \<noteq> 0 \<longrightarrow> 1 < length ms"
      by blast
    have run: "run_scan m body n a b c d = (leave_scan (rs_pools s) m1, rc)"
      using ok r sf by (simp add: run_scan_def)
    have hd: "hd ms = m\<lparr>mc_state := Some (s\<lparr>rs_pools := rs_scan_pools s, rs_scan_active := True\<rparr>)\<rparr>"
      using sf(1) by (simp add: ms(2) enter_scan_def upd_st_def)
    have m': "leave_scan (rs_pools s) m1 = (last ms)\<lparr>mc_state := map_option (\<lambda>t. t\<lparr>rs_scan_pools := rs_pools t,
        rs_pools := rs_pools s, rs_scan_active := False\<rparr>) (mc_state (last ms))\<rparr>"
      by (simp add: ms(3) leave_scan_def upd_st_def)
    show ?thesis
      unfolding sf option.case prod.case if_not_P [OF ok]
      using ms(5) [unfolded add_0]
      by (intro exI [of _ ms] exI [of _ "leave_scan (rs_pools s) m1"] exI [of _ rc] conjI run [unfolded sf] ms(1,4,6,7) hd m')
  qed
qed

text \<open>C27: When every call of the body keeps the session, so does a Scan: the session's invariant
  holds again, every range that is not the session's stays, and the parent's pools are the
  ones it had, still backed by live ranges.  While the body runs, in any state it reaches,
  each of the parent's pools is a live range that the session does not own, so no call of the
  body hands out its bytes or frees it.\<close>

theorem scan_protects_parent:
  assumes "session_ok m" and "\<not> rs_scan_active (st m)"
    and "\<And>i a b c d. body_keeps (\<lambda>m. body m i a b c d)"
    and "run_scan m (Some body) n a b c d = (m', rc)"
  shows "keeps m m' \<and> rs_pools (st m') = rs_pools (st m) \<and> \<not> rs_scan_active (st m') \<and>
    (\<forall>x. keeps (enter_scan m) x \<longrightarrow>
      (\<forall>p \<in> set (rs_pools (st m)). fst p \<noteq> 0 \<longrightarrow> (\<exists>len \<ge> snd p. (fst p, len) \<in> strangers x)))"
proof -
  note R = run_scan_keeps [OF assms(3,1,4)]
  have "\<not> rs_scan_active (st m')"
    using R(1) assms(2) by (simp add: keeps_def fixed_def)
  moreover have "\<exists>len \<ge> snd p. (fst p, len) \<in> strangers x"
    if x: "keeps (enter_scan m) x" and p: "p \<in> set (rs_pools (st m))" "fst p \<noteq> 0" for x p
  proof -
    obtain d where d: "d < length (rs_pools (st m))" "rs_pools (st m) ! d = p"
      using p(1) by (auto simp: in_set_conv_nth)
    then have "parked (rs_pools (st m)) (Buf (Pool d)) = p"
      by simp
    with owned_okD(1) [OF enter_scan_ok(2) [OF assms(1,2)], of "Buf (Pool d)"] p(2)
    have "\<exists>len \<ge> snd p. (fst p, len) \<in> strangers (enter_scan m)"
      by (simp add: backed_def)
    moreover have "strangers x = strangers (enter_scan m)"
      using x by (simp add: keeps_def)
    ultimately show ?thesis
      by simp
  qed
  ultimately show ?thesis
    using R(1) R(2) [OF assms(2)] by blast
qed

text \<open>A body that grows the first pool of the Scan with its index.\<close>

definition pool_body :: scan_body where
  "pool_body m i a b c d = (fst (get_pool_base m 0 (nat i mod 1024 + 16)), 0)"

lemma pool_body_keeps: "body_keeps (\<lambda>m. pool_body m i a b c d)"
  unfolding body_keeps_def
proof (intro allI impI)
  fix m assume ok: "session_ok m"
  obtain m' p where g: "get_pool_base m 0 (nat i mod 1024 + 16) = (m', p)"
    by fastforce
  have "nat i mod 1024 < 1024"
    by simp
  then have "nat i mod 1024 + 16 < size_limit"
    by simp
  from get_pool_base_keeps [OF ok this g] show "keeps m (fst (pool_body m i a b c d))"
    by (simp add: pool_body_def g)
qed

theorem scan_runs_body_witness:
  "(\<exists>ms m'. run_scan open_session (Some pool_body) 2 0 0 0 0 = (m', 0) \<and> length ms = 3 \<and>
     ms ! 1 = fst (pool_body (ms ! 0) 0 0 0 0 0) \<and> ms ! 2 = fst (pool_body (ms ! 1) 1 0 0 0 0) \<and>
     rs_pools (st m') = rs_pools (st open_session)) \<and>
   run_scan (enter_scan open_session) (Some pool_body) 2 0 0 0 0 = (enter_scan open_session, -1)"
proof
  obtain t where t: "mc_state open_session = Some t"
    using session_ok_state [OF open_session_ok(1)] by auto
  have a: "\<not> rs_scan_active t"
    using open_session_ok(3) by (simp add: t)
  have ex: "\<exists>ms m' rc. run_scan open_session (Some pool_body) 2 0 0 0 0 = (m', rc) \<and> ms \<noteq> [] \<and> length ms \<le> nat 2 + 1 \<and>
    hd ms = open_session\<lparr>mc_state := Some (t\<lparr>rs_pools := rs_scan_pools t, rs_scan_active := True\<rparr>)\<rparr> \<and>
    (\<forall>k. Suc k < length ms \<longrightarrow>
      pool_body (ms ! k) (int k) 0 0 0 0 = (ms ! Suc k, if Suc (Suc k) = length ms then rc else 0)) \<and>
    (rc = 0 \<longrightarrow> length ms = nat 2 + 1) \<and> (rc \<noteq> 0 \<longrightarrow> 1 < length ms) \<and>
    m' = (last ms)\<lparr>mc_state := map_option (\<lambda>u. u\<lparr>rs_scan_pools := rs_pools u, rs_pools := rs_pools t,
       rs_scan_active := False\<rparr>) (mc_state (last ms))\<rparr>"
  proof -
    have "\<not> ((2 :: int) < 0 \<or> rs_scan_active t)"
      using a by simp
    then show ?thesis
      using scan_runs_body [of open_session "Some pool_body" 2 0 0 0 0] by (simp only: t option.case prod.case if_False)
  qed
  then obtain ms m' rc where r: "run_scan open_session (Some pool_body) 2 0 0 0 0 = (m', rc)" "ms \<noteq> []" "length ms \<le> nat 2 + 1"
    "\<forall>k. Suc k < length ms \<longrightarrow>
      pool_body (ms ! k) (int k) 0 0 0 0 = (ms ! Suc k, if Suc (Suc k) = length ms then rc else 0)"
    "rc = 0 \<longrightarrow> length ms = nat 2 + 1" "rc \<noteq> 0 \<longrightarrow> 1 < length ms"
    "m' = (last ms)\<lparr>mc_state := map_option (\<lambda>u. u\<lparr>rs_scan_pools := rs_pools u, rs_pools := rs_pools t,
       rs_scan_active := False\<rparr>) (mc_state (last ms))\<rparr>"
    by (elim exE conjE) (rule that)
  have 0: "snd (pool_body x i 0 0 0 0) = 0" for x i
    by (simp add: pool_body_def)
  have rc: "rc = 0"
  proof (rule ccontr)
    assume "rc \<noteq> 0"
    then have "Suc (length ms - 2) < length ms" "Suc (Suc (length ms - 2)) = length ms"
      using r(6) by simp_all
    from arg_cong [OF r(4) [rule_format, OF this(1)], of snd] this(2) show False
      using \<open>rc \<noteq> 0\<close> by (simp add: 0)
  qed
  have len: "length ms = 3"
    using r(5) rc by simp
  have "keeps open_session m'"
    using run_scan_keeps(1) [OF pool_body_keeps open_session_ok(1) r(1)] .
  then have "session_ok m'"
    by (simp add: keeps_def)
  then have "mc_state (last ms) \<noteq> None"
    using session_ok_state [of m'] r(7) by simp
  then have "rs_pools (st m') = rs_pools (st open_session)"
    unfolding r(7) by (auto simp: t)
  moreover have "pool_body (ms ! 0) 0 0 0 0 0 = (ms ! 1, 0)" "pool_body (ms ! 1) 1 0 0 0 0 = (ms ! 2, 0)"
    using r(4) [rule_format, of 0] r(4) [rule_format, of 1] len rc by (simp_all add: numeral_2_eq_2)
  ultimately show "\<exists>ms m'. run_scan open_session (Some pool_body) 2 0 0 0 0 = (m', 0) \<and> length ms = 3 \<and>
     ms ! 1 = fst (pool_body (ms ! 0) 0 0 0 0 0) \<and> ms ! 2 = fst (pool_body (ms ! 1) 1 0 0 0 0) \<and>
     rs_pools (st m') = rs_pools (st open_session)"
    using r(1) rc len by (intro exI [of _ ms] exI [of _ m']) simp
  show "run_scan (enter_scan open_session) (Some pool_body) 2 0 0 0 0 = (enter_scan open_session, -1)"
  proof -
    have e: "mc_state (enter_scan open_session) = Some (t\<lparr>rs_pools := rs_scan_pools t, rs_scan_active := True\<rparr>)"
      by (simp add: enter_scan_def t)
    have "(2 :: int) < 0 \<or> rs_scan_active (t\<lparr>rs_pools := rs_scan_pools t, rs_scan_active := True\<rparr>)"
      by simp
    then show ?thesis
      using scan_runs_body [of "enter_scan open_session" "Some pool_body" 2 0 0 0 0]
      by (simp only: e option.case prod.case if_True)
  qed
qed

theorem scan_protects_parent_witness:
  "\<exists>m m' p. m = fst (get_pool_base open_session 0 100) \<and> p \<in> set (rs_pools (st m)) \<and> fst p \<noteq> 0 \<and>
    run_scan m (Some pool_body) 2 0 0 0 0 = (m', 0) \<and> rs_pools (st m') = rs_pools (st m) \<and>
    (\<exists>len. (fst p, len) \<in> strangers (enter_scan m))"
proof -
  define m where "m = fst (get_pool_base open_session 0 100)"
  obtain q where g: "get_pool_base open_session 0 100 = (m, q)"
    by (simp add: m_def) (metis prod.collapse)
  have k: "keeps open_session m"
    by (rule get_pool_base_keeps [OF open_session_ok(1) _ g]) simp
  then have ok: "session_ok m" "\<not> rs_scan_active (st m)"
    using open_session_ok(3) by (simp_all add: keeps_def fixed_def)
  have pools: "rs_pools (st m) = [(4100, 100)]"
    by (simp add: m_def request_eval open_session_def create_eval)
  obtain m' rc where r: "run_scan m (Some pool_body) 2 0 0 0 0 = (m', rc)"
    by fastforce
  have "rc = 0"
    using r ok session_ok_state [OF ok(1)]
    by (auto simp: run_scan_def pool_body_def numeral_2_eq_2)
  moreover have "rs_pools (st m') = rs_pools (st m) \<and> (\<exists>len. (4100, len) \<in> strangers (enter_scan m))"
    using scan_protects_parent [OF ok pool_body_keeps r] keeps_refl [OF enter_scan_ok(1) [OF ok]] by (auto simp: pools)
  ultimately show ?thesis
    using r pools by (intro exI [of _ m] exI [of _ m'] exI [of _ "(4100, 100)"]) (simp add: m_def)
qed

end
