(* ===== verification/Session_Properties.thy ===== *)
theory Session_Properties
  imports Loop_Properties
begin

text \<open>
  The properties of a session from its creation to its end: what it gives back, the error
  flag, the slots of the operators' states and the hooks of a forward pass.
\<close>

section \<open>The teardown of the handles\<close>

lemma cleanup_handles:
  assumes ok: "session_ok m" and c: "cleanup m = (m', rc)"
    and h: "g_streams (mc_gpu m) = rs_stream (st m) # ss" "0 \<notin> set (g_streams (mc_gpu m))"
      "g_blas (mc_gpu m) = (if rs_blas (st m) = 0 then [] else [rs_blas (st m)]) @ bs" "0 \<notin> set bs"
  shows "g_streams (mc_gpu m') = ss" and "g_blas (mc_gpu m') = bs" and "g_events (mc_gpu m') = event_strangers m"
    and "g_profiles (mc_gpu m') = g_profiles (mc_gpu m) - (if rs_op_profile (st m) then 1 else 0)"
    and "mc_current_stream m' = (if mc_current_stream m = rs_stream (st m) then 0 else mc_current_stream m)"
proof -
  obtain s where s: "mc_state m = Some s" "st m = s"
    using session_ok_state [OF ok] by auto
  define m1 where "m1 = sync_session (call_if True ''hip_gqa_autotune_destroy'' m)"
  define m2 where "m2 = foldl run_release m1 (arena_releases s)"
  define m2' where "m2' = destroy_transient_arena m2"
  define m3 where "m3 = foldl run_release m2' (constant_releases s)"
  have m': "m' = (destroy_handles s m3)\<lparr>mc_state := None\<rparr>"
    using c s by (simp add: cleanup_def m1_def m2_def m2'_def m3_def Let_def)
  have 1: "handles m1 = handles m"
    by (simp add: m1_def call_if_def sync_session_def hip_stream_sync_def handles_upd_gpu)
  have t: "targets event_target (arena_releases s) = nonnull (lb_event (rs_loop s))" "targets event_target (constant_releases s) = []"
    by (auto simp: targets_def arena_releases_def constant_releases_def scratch_releases_def op_state_releases_def
        loop_releases_def pool_releases_def nonnull_def Let_def comp_def filter_empty_conv split: option.split)
  have 2: "handles m2' = (g_streams (mc_gpu m), g_blas (mc_gpu m), event_strangers m, g_profiles (mc_gpu m), mc_current_stream m)"
  proof -
    have "handles m2' = handles m2"
      using hip_free_frame by (auto simp: m2'_def destroy_transient_arena_def same_session_def split: option.split)
    also have "\<dots> = (g_streams (mc_gpu m), g_blas (mc_gpu m), event_strangers m, g_profiles (mc_gpu m), mc_current_stream m)"
      using 1 unfolding m2_def handles_releases t by (simp add: handles_def event_strangers_def s nonnull_def)
    finally show ?thesis .
  qed
  have 3: "handles m3 = (g_streams (mc_gpu m), g_blas (mc_gpu m), event_strangers m, g_profiles (mc_gpu m), mc_current_stream m)"
    using 2 unfolding m3_def handles_releases t by (simp add: handles_def)
  have nonnull: "0 \<notin> set (g_streams (mc_gpu m3))" "0 \<notin> set (g_blas (mc_gpu m3))"
    using 3 h by (auto simp: handles_def)
  have "handles m' = (ss, bs, event_strangers m, g_profiles (mc_gpu m) - (if rs_op_profile s then 1 else 0),
      if mc_current_stream m = rs_stream s then 0 else mc_current_stream m)"
  proof -
    have "handles m' = handles (destroy_handles s m3)"
      by (simp add: m' handles_def)
    also have "\<dots> = (remove1 (rs_stream s) (g_streams (mc_gpu m)), remove1 (rs_blas s) (g_blas (mc_gpu m)), event_strangers m,
        g_profiles (mc_gpu m) - (if rs_op_profile s then 1 else 0),
        if mc_current_stream m = rs_stream s then 0 else mc_current_stream m)"
      using destroy_handles_handles [OF nonnull, of s] 3 by (simp add: handles_def)
    also have "remove1 (rs_stream s) (g_streams (mc_gpu m)) = ss"
      using h(1) s by simp
    also have "remove1 (rs_blas s) (g_blas (mc_gpu m)) = bs"
      using h(3,4) s by (simp add: remove1_idem)
    finally show ?thesis .
  qed
  then show "g_streams (mc_gpu m') = ss" and "g_blas (mc_gpu m') = bs" and "g_events (mc_gpu m') = event_strangers m"
    and "g_profiles (mc_gpu m') = g_profiles (mc_gpu m) - (if rs_op_profile (st m) then 1 else 0)"
    and "mc_current_stream m' = (if mc_current_stream m = rs_stream (st m) then 0 else mc_current_stream m)"
    by (simp_all add: handles_def s)
qed

section \<open>Properties\<close>

text \<open>C24: A session gives back everything it took: from a successful creation, through any sequence of
  arena, buffer, flag, operator-state, loop and Scan calls, to its teardown, the device's and
  the pinned live ranges, the streams, the BLAS handles, the events and the operator profiles
  are those from before, the state is gone, and the teardown frees nothing that is not live.  The
  calls are those of \<open>session_step\<close>, which leaves out the fp32 adapter of \<open>gqa.cpp\<close>,
  \<open>hipdnn_ep_pool_init\<close> and the staging of the disk-resident gather.\<close>

theorem session_lifecycle:
  assumes "device_ok m" and "mc_state m = None"
    and "initialize_state_handles perf vendor m = (m1, 0)"
    and "session_step\<^sup>*\<^sup>* m1 m2" and "cleanup m2 = (m3, rc)"
  shows "rc = 0 \<and> mc_state m3 = None \<and> set (g_dev (mc_gpu m3)) = set (g_dev (mc_gpu m)) \<and>
    set (g_pin (mc_gpu m3)) = set (g_pin (mc_gpu m)) \<and> g_streams (mc_gpu m3) = g_streams (mc_gpu m) \<and>
    g_blas (mc_gpu m3) = g_blas (mc_gpu m) \<and> g_events (mc_gpu m3) = g_events (mc_gpu m) \<and>
    g_profiles (mc_gpu m3) = g_profiles (mc_gpu m) \<and>
    (\<exists>es. g_trace (mc_gpu m3) = es @ g_trace (mc_gpu m2) \<and> list_all legal es)"
proof -
  note I = initialize_ok [OF assms(1-3)]
  have k: "keeps m1 m2"
    by (rule session_steps_keep [OF assms(4) I(1)])
  then have K: "session_ok m2" "dev_strangers m2 = dev_strangers m1" "pin_strangers m2 = pin_strangers m1"
    "fixed m2 = fixed m1" "event_strangers m2 = event_strangers m1"
    by (simp_all add: keeps_def)
  have f: "g_streams (mc_gpu m2) = g_streams (mc_gpu m1)" "g_blas (mc_gpu m2) = g_blas (mc_gpu m1)"
    "g_profiles (mc_gpu m2) = g_profiles (mc_gpu m1)" "rs_stream (st m2) = rs_stream (st m1)"
    "rs_blas (st m2) = rs_blas (st m1)" "rs_op_profile (st m2) = rs_op_profile (st m1)" "\<not> rs_scan_active (st m2)"
    using K(4) I(5) by (simp_all add: fixed_def)
  have z: "0 \<notin> set (g_streams (mc_gpu m2))" "0 \<notin> set (g_blas (mc_gpu m))"
    using assms(1) I(6,9) f(1) by (auto simp: device_ok_def)
  note R = cleanup_releases [OF K(1) f(7) assms(5)]
  note H = cleanup_handles [OF K(1) assms(5), of "g_streams (mc_gpu m)" "g_blas (mc_gpu m)"]
  have "g_streams (mc_gpu m3) = g_streams (mc_gpu m)" "g_blas (mc_gpu m3) = g_blas (mc_gpu m)"
    "g_events (mc_gpu m3) = event_strangers m2"
    "g_profiles (mc_gpu m3) = g_profiles (mc_gpu m2) - (if rs_op_profile (st m2) then 1 else 0)"
    using H I(6,7) f z by simp_all
  then show ?thesis
    using R I K(2,3,5) f(3,6) by simp
qed

theorem session_lifecycle_witness:
  "\<exists>m2 m3. session_step\<^sup>*\<^sup>* open_session m2 \<and> cleanup m2 = (m3, 0) \<and> rs_pools (st m2) = [(4100, 100)] \<and>
    set (g_dev (mc_gpu m3)) = {} \<and> g_streams (mc_gpu m3) = []"
proof -
  define m2 where "m2 = fst (get_pool_base open_session 0 100)"
  have "serve open_session (Req_pool 0 100) = Some m2"
    by (simp add: m2_def)
  then have "session_step open_session m2"
    by (rule session_step.request [rotated]) simp
  then have steps: "session_step\<^sup>*\<^sup>* open_session m2"
    by blast
  obtain m3 rc where c: "cleanup m2 = (m3, rc)"
    by fastforce
  have "rs_pools (st m2) = [(4100, 100)]"
    by (simp add: m2_def request_eval open_session_def create_eval)
  moreover note session_lifecycle [OF fresh_machine_ok open_session_created steps c]
  ultimately show ?thesis
    using steps c by (auto simp: fresh_machine_def empty_gpu_def)
qed

text \<open>C30: A creation that fails returns one of the seven codes, makes no state and leaves the live
  ranges, streams, BLAS handles and events as they were; but with profiling on, every failure
  after the first allocation leaves the operator profile it made behind.\<close>

theorem initialize_failure:
  assumes "device_ok m" and "mc_state m = None"
    and "initialize_state_handles perf vendor m = (m', rc)" and "rc \<noteq> 0"
  shows "mc_state m' = None \<and> g_dev (mc_gpu m') = g_dev (mc_gpu m) \<and> g_pin (mc_gpu m') = g_pin (mc_gpu m) \<and>
    g_streams (mc_gpu m') = g_streams (mc_gpu m) \<and> g_blas (mc_gpu m') = g_blas (mc_gpu m) \<and>
    g_events (mc_gpu m') = g_events (mc_gpu m) \<and> rc \<in> {1, 2, 3, 6, 9, 10, 11} \<and>
    g_profiles (mc_gpu m') = g_profiles (mc_gpu m) + (if perf \<and> rc \<noteq> 1 then 1 else 0)"
proof -
  have "rc \<in> {0, 1, 2, 3, 6, 9, 10, 11}"
    using assms(3) by (auto simp: initialize_state_handles_def Let_def split: if_splits prod.splits option.splits bool.splits)
  then have codes: "rc \<in> {1, 2, 3, 6, 9, 10, 11}"
    using assms(4) by simp
  from assms(1-3) show ?thesis
  proof (cases rule: initialize_cases)
    case failed
    then show ?thesis
      using codes by blast
  qed (use assms(4) in simp)
qed

theorem initialize_failure_witness:
  "\<exists>m'. initialize_state_handles True True (fresh_machine\<lparr>mc_api := failing_api ''hipMemsetAsync''\<rparr>) = (m', 11) \<and>
    mc_state m' = None \<and> g_dev (mc_gpu m') = [] \<and> g_streams (mc_gpu m') = [] \<and> g_profiles (mc_gpu m') = 1"
proof -
  let ?m = "fresh_machine\<lparr>mc_api := failing_api ''hipMemsetAsync''\<rparr>"
  have ok: "device_ok ?m" "mc_state ?m = None"
    by (simp_all add: device_ok_def fresh_machine_def empty_gpu_def blocks_ok_def)
  obtain m' rc where i: "initialize_state_handles True True ?m = (m', rc)"
    by fastforce
  then have "rc = 11"
    by (simp add: create_eval hip_free_def stream_destroy_def blas_destroy_def split: if_splits)
  then show ?thesis
    using i initialize_failure [OF ok i] by (simp add: fresh_machine_def empty_gpu_def)
qed

section \<open>The error flag\<close>

text \<open>The error flag is a round trip: a code set is the code read, at every width of \<open>int\<close>; after a
  reset 0 is read; and a read that returns a code leaves it there, so the next read returns it
  again, unlike the name of the call says.\<close>

theorem error_flag_roundtrip:
  assumes "flag_valid m" and "\<And>g name. api_call (mc_api m) g name" and "code \<noteq> 0"
    and "m1 = fst (set_error_flag m code)" and "m2 = fst (read_and_clear_error_flag m1)"
  shows "snd (set_error_flag m code) = 0 \<and> snd (read_and_clear_error_flag m1) = code \<and>
    snd (read_and_clear_error_flag m2) = code \<and>
    snd (reset_error_flag m2) = 0 \<and> snd (read_and_clear_error_flag (fst (reset_error_flag m2))) = 0"
proof -
  let ?p = "rs_error_flag (st m)"
  have rd: "le_word (read_mem a 4 (write_mem a (le_bytes 4 c) g)) = (c :: 32 word)" for a c g
  proof -
    have "read_mem a 4 (write_mem a bs g) = bs" if "length bs = 4" for bs g
      using that by (intro nth_equalityI) (simp_all add: read_mem_def write_mem_def)
    then show ?thesis
      by (simp add: le_word_bytes take_bit_word_eq_self)
  qed
  have z: "replicate 4 0 = le_bytes 4 (0 :: 32 word)"
    by (simp add: numeral_eq_Suc)
  have v: "flag_valid x" "snd (read_and_clear_error_flag x) = code \<and> mc_state (fst (read_and_clear_error_flag x)) = mc_state x \<and>
      mc_api (fst (read_and_clear_error_flag x)) = mc_api x \<and>
      g_mem (mc_gpu (fst (read_and_clear_error_flag x))) = g_mem (mc_gpu x)"
    if x: "mc_state x = mc_state m" "mc_api x = mc_api m" "le_word (read_mem ?p 4 (mc_gpu x)) = code" for x
  proof -
    show f: "flag_valid x"
      using assms(1) x by (simp add: flag_valid_def)
    show "snd (read_and_clear_error_flag x) = code \<and> mc_state (fst (read_and_clear_error_flag x)) = mc_state x \<and>
      mc_api (fst (read_and_clear_error_flag x)) = mc_api x \<and>
      g_mem (mc_gpu (fst (read_and_clear_error_flag x))) = g_mem (mc_gpu x)"
      using f x assms(2,3)
      by (simp add: read_and_clear_error_flag_def Let_def hip_call_def hip_stream_sync_def)
  qed
  have 1: "mc_state m1 = mc_state m" "mc_api m1 = mc_api m" "le_word (read_mem ?p 4 (mc_gpu m1)) = code"
    "snd (set_error_flag m code) = 0"
    using assms(1-4) rd by (simp_all add: set_error_flag_def hip_write_def hip_stream_sync_def read_mem_emit)
  note r1 = v [OF 1(1-3)]
  have 2: "mc_state m2 = mc_state m" "mc_api m2 = mc_api m" "le_word (read_mem ?p 4 (mc_gpu m2)) = code"
    using r1(2) 1 assms(5) by (simp_all add: read_mem_def)
  note r2 = v [OF 2]
  have 3: "snd (reset_error_flag m2) = 0" "mc_state (fst (reset_error_flag m2)) = mc_state m"
    "mc_api (fst (reset_error_flag m2)) = mc_api m" "le_word (read_mem ?p 4 (mc_gpu (fst (reset_error_flag m2)))) = (0 :: 32 word)"
    using r2(1) 2 assms(2) rd [of ?p 0] by (simp_all add: reset_error_flag_def hip_write_def z read_mem_emit)
  have "flag_valid (fst (reset_error_flag m2))"
    using assms(1) 3(2) by (simp add: flag_valid_def)
  then have "snd (read_and_clear_error_flag (fst (reset_error_flag m2))) = 0"
    using 3(2-4) assms(2) by (simp add: read_and_clear_error_flag_def Let_def hip_call_def hip_stream_sync_def hip_write_def)
  then show ?thesis
    using 1(4) r1(2) r2(2) 3(1) by simp
qed

theorem error_flag_roundtrip_witness:
  "snd (read_and_clear_error_flag (fst (set_error_flag open_session 0x01020304))) = 0x01020304"
proof -
  have "flag_valid open_session" "\<And>g name. api_call (mc_api open_session) g name"
    by (simp_all add: flag_valid_def open_session_def create_eval)
  from error_flag_roundtrip [OF this, of "0x01020304" _ _, OF _ refl refl] show ?thesis
    by simp
qed

section \<open>Operator states and hooks\<close>

text \<open>After \<open>op_states_alloc\<close> of \<open>n\<close> slots, every slot is null; a stored state is what a later
  read of its slot returns, the other slots are unchanged, and a slot outside the \<open>n\<close>
  allocated reads as null.\<close>

theorem op_state_slots:
  assumes "mc_state m \<noteq> None" and "0 \<le> n" and "n < 2 ^ 31"
    and "op_states_alloc m n = (m1, True)" and "op_state_set m1 slot v = Some m2"
  shows "(\<forall>k. op_state_get m1 k = 0) \<and> op_state_get m2 slot = os_ptr v \<and> os_ptr v \<noteq> 0 \<and> 0 \<le> slot \<and> slot < n \<and>
    (\<forall>k. k \<noteq> slot \<longrightarrow> op_state_get m2 k = op_state_get m1 k)"
proof -
  obtain s where s: "mc_state m = Some s"
    using assms(1) by auto
  have n: "0 < n"
    using assms(2,4,5) s by (cases "n = 0") (auto simp: op_states_alloc_def op_state_set_def)
  have i: "sint (word_of_int n :: 32 word) = n"
    using assms(3) n by (simp add: sint_sbintrunc' signed_take_bit_int_eq_self)
  have m1: "mc_state m1 = Some (s\<lparr>rs_op_states := Some (replicate (nat n) \<lparr>os_ptr = 0, os_deletor = 0\<rparr>), rs_num_op_states := n\<rparr>)"
    using assms(4) n s i by (auto simp: op_states_alloc_def heap_call_def Let_def split: if_splits bool.splits)
  have 0: "op_state_get m1 k = 0" for k
    by (simp add: op_state_get_def m1)
  have slot: "0 \<le> slot" "slot < n" "os_ptr v \<noteq> 0"
    and m2: "mc_state m2 = Some (s\<lparr>rs_op_states := Some ((replicate (nat n) \<lparr>os_ptr = 0, os_deletor = 0\<rparr>)[nat slot := v]), rs_num_op_states := n\<rparr>)"
    using assms(5) by (auto simp: op_state_set_def m1 split: if_splits)
  have "op_state_get m2 k = (if k = slot then os_ptr v else 0)" for k
    using slot by (auto simp: op_state_get_def m2 nth_list_update)
  then show ?thesis
    using 0 slot by simp
qed

theorem op_state_slots_witness:
  "\<exists>m1 m2. op_states_alloc open_session 3 = (m1, True) \<and> op_state_set m1 1 \<lparr>os_ptr = 9, os_deletor = 5\<rparr> = Some m2 \<and>
    op_state_get m2 1 = 9 \<and> op_state_get m2 2 = 0 \<and> op_state_get m2 7 = 0"
proof -
  define m1 where "m1 = fst (op_states_alloc open_session 3)"
  define m2 where "m2 = the (op_state_set m1 1 \<lparr>os_ptr = 9, os_deletor = 5\<rparr>)"
  have a: "op_states_alloc open_session 3 = (m1, True)" "op_state_set m1 1 \<lparr>os_ptr = 9, os_deletor = 5\<rparr> = Some m2"
    by (simp_all add: m2_def m1_def op_states_alloc_def op_state_set_def heap_call_def open_session_def create_eval)
  from op_state_slots [OF _ _ _ a] session_ok_state [OF open_session_ok(1)] a show ?thesis
    by simp
qed

text \<open>\<open>begin_compute\<close> makes both cached scalars invalid and publishes the session's stream to the
  thread, and leaves everything the session holds in place; after the teardown the thread's
  stream is not the destroyed one.\<close>

theorem begin_compute_publishes:
  assumes "session_ok m" and "rs_stream (st m) \<noteq> 0"
  shows "get_current_stream (begin_compute m) = get_stream m \<and>
    \<not> ci_valid (rs_seqlens (st (begin_compute m))) \<and> \<not> ci_valid (rs_sai (st (begin_compute m))) \<and>
    keeps m (begin_compute m) \<and> get_current_stream (fst (cleanup (begin_compute m))) \<noteq> get_stream m"
proof -
  obtain s where s: "mc_state m = Some s"
    using session_ok_state [OF assms(1)] by auto
  have b: "get_current_stream (begin_compute m) = get_stream m" "\<not> ci_valid (rs_seqlens (st (begin_compute m)))"
    "\<not> ci_valid (rs_sai (st (begin_compute m)))"
    using s by (simp_all add: begin_compute_def get_current_stream_def get_stream_def set_current_stream_def)
  have d: "mc_current_stream (destroy_handles x y) \<noteq> rs_stream x" if "rs_stream x \<noteq> 0" for x y
    using that by (simp add: destroy_handles_def Let_def stream_destroy_def get_current_stream_def set_current_stream_def upd_gpu_def)
  obtain t where t: "mc_state (begin_compute m) = Some t" "rs_stream t = rs_stream s"
    using s by (simp add: begin_compute_def set_current_stream_def)
  have "rs_stream t \<noteq> 0"
    using assms(2) s t by simp
  from d [OF this] have "get_current_stream (fst (cleanup (begin_compute m))) \<noteq> rs_stream t"
    by (simp add: cleanup_def t(1) Let_def get_current_stream_def)
  then have "get_current_stream (fst (cleanup (begin_compute m))) \<noteq> get_stream m"
    by (simp add: get_stream_def s t(2))
  then show ?thesis
    using b begin_compute_keeps [OF assms(1)] by blast
qed

theorem begin_compute_publishes_witness:
  "get_current_stream (begin_compute open_session) = 3"
proof -
  have "rs_stream (st open_session) \<noteq> 0" "get_stream open_session = 3"
    by (simp_all add: get_stream_def open_session_def create_eval)
  then show ?thesis
    using begin_compute_publishes [OF open_session_ok(1)] by simp
qed


end
