(* ===== verification/Constants_Properties.thy ===== *)
theory Constants_Properties
  imports Constants_Device Session_Properties
begin

text \<open>
  Properties of the loading of constants: fetching a constant's bytes is what its source
  says, a successful initialization leaves every constant where the operators look for it,
  and a failed one leaves nothing behind.
\<close>

section \<open>Loading\<close>

lemma read_mem_part: "k + n \<le> len \<Longrightarrow> read_mem (a + k) n g = take n (drop k (read_mem a len g))"
  by (rule nth_equalityI) (simp_all add: read_mem_def add.assoc)

text \<open>The contents after loading: constant by constant, or the file as a whole.\<close>

definition sourced :: "const_info list \<Rightarrow> bool" where
  "sourced cs \<longleftrightarrow> list_ex (\<lambda>c. ci_source c \<noteq> No_source) cs"

definition file_loaded :: "files \<Rightarrow> string \<Rightarrow> machine \<Rightarrow> const_info list \<Rightarrow> bool" where
  "file_loaded fs name m cs \<longleftrightarrow>
     (\<exists>r. fs_reader fs name = Some r \<and>
       list_all (\<lambda>c. const_end c \<le> rd_size r \<longrightarrow>
         slice (nat (ci_offset c)) (nat (ci_size c)) (reader_bytes r) =
           Some (read_mem (rs_blob (st m) + nat (ci_offset c)) (nat (ci_size c)) (mc_gpu m))) cs)"

definition contents_loaded :: "files \<Rightarrow> string \<Rightarrow> machine \<Rightarrow> const_info list \<Rightarrow> bool" where
  "contents_loaded fs name m cs \<longleftrightarrow> (if sourced cs then all_loaded fs name m 0 cs else file_loaded fs name m cs)"

text \<open>The constants file of a model without sources is not larger than the blob.\<close>

definition file_fits :: "files \<Rightarrow> string \<Rightarrow> const_info list \<Rightarrow> bool" where
  "file_fits fs name cs \<longleftrightarrow>
     (sourced cs \<or> (\<forall>r. fs_reader fs name = Some r \<longrightarrow> rd_size r \<le> compute_constants_total_size cs))"

lemma bulk_loads:
  assumes ok: "session_ok m" and files: "files_ok fs" and cs: "list_all const_ok cs"
    and blob: "blob_holds m cap" and size: "\<And>r. fs_reader fs name = Some r \<Longrightarrow> rd_size r \<le> cap"
  shows "\<exists>m' rc. bulk_load_constants m fs name = Some (m', rc) \<and> loads m m' \<and> (rc = 0 \<longrightarrow> file_loaded fs name m' cs)"
proof (cases "fs_reader fs name")
  case None
  then show ?thesis
    using loads_refl [OF ok] by (simp add: bulk_load_constants_def)
next
  case (Some r)
  let ?n = "rd_size r" and ?bytes = "reader_bytes r"
  have n: "?n = length ?bytes"
    using files Some by (simp add: files_ok_def reader_ok_def)
  define m1 where "m1 = (if rd_map r = None then fst (heap_call m ?n) else m)"
  have l1: "loads m m1"
    using heap_call_loads [OF ok] loads_refl [OF ok] by (simp add: m1_def)
  have blob1: "rs_blob (st m1) = rs_blob (st m)" "blob_holds m1 cap"
    using l1 blob_holds_loads [OF l1] blob by (simp_all add: loads_def)
  have inside: "in_device m1 (rs_blob (st m)) (length ?bytes)"
  proof (cases "?bytes = []")
    case False
    then have "0 < cap" "length ?bytes \<le> cap"
      using size [OF Some] n by (cases ?bytes; simp)+
    then have "list_ex (\<lambda>b. fst b \<le> rs_blob (st m) \<and> rs_blob (st m) + length ?bytes \<le> fst b + snd b) (g_dev (mc_gpu m1))"
      using blob1 by (auto simp: blob_holds_def list_ex_iff intro!: bexI [of _ "(rs_blob (st m), cap)"])
    then show ?thesis
      by (simp add: in_device_def)
  qed (simp add: in_device_def)
  obtain m2 b where w: "hip_write ''hipMemcpy'' (rs_blob (st m)) ?bytes m1 = (m2, b)"
    by fastforce
  have up: "upload_or m1 (rs_blob (st m)) ?bytes = Some (m2, if b then 0 else 1)"
    using inside w by (simp add: upload_or_def upload_def)
  have e: "bulk_load_constants m fs name = Some (m2, if b then 0 else 1) \<or> bulk_load_constants m fs name = Some (m1, 1)"
  proof (cases "rd_map r")
    case None
    obtain h where h: "heap_call m ?n = (m1, h)"
      using None by (simp add: m1_def heap_call_def)
    have "?bytes = rd_data r"
      using None by (simp add: reader_bytes_def)
    then show ?thesis
      using Some None h n up by (cases h) (simp_all add: bulk_load_constants_def Let_def)
  next
    case mapped: (Some src)
    then have "m1 = m" "?bytes = src"
      by (simp_all add: m1_def reader_bytes_def)
    then show ?thesis
      using Some mapped n up by (simp add: bulk_load_constants_def Let_def)
  qed
  have l2: "loads m m2"
    using loads_trans [OF l1 hip_write_loads [OF loads_ok [OF l1], of "''hipMemcpy''" "rs_blob (st m)" ?bytes]] w by simp
  have "file_loaded fs name m2 cs" if b
  proof -
    have whole: "read_mem (rs_blob (st m)) ?n (mc_gpu m2) = ?bytes"
    proof -
      have "mc_gpu m2 = emit (Ev_call ''hipMemcpy'') (write_mem (rs_blob (st m)) ?bytes (mc_gpu m1))"
        using w that by (auto simp: hip_write_def split: if_splits)
      then show ?thesis
        using read_write_same [of "rs_blob (st m)" ?bytes] n by simp
    qed
    have blob2: "rs_blob (st m2) = rs_blob (st m)"
      using l2 by (simp add: loads_def)
    have "slice (nat (ci_offset c)) (nat (ci_size c)) ?bytes =
        Some (read_mem (rs_blob (st m2) + nat (ci_offset c)) (nat (ci_size c)) (mc_gpu m2))"
      if c: "c \<in> set cs" "const_end c \<le> ?n" for c
    proof -
      have le: "nat (ci_offset c) + nat (ci_size c) \<le> ?n"
        using c cs const_ok_size(3) [of c] by (simp add: list_all_iff)
      show ?thesis
        using le n unfolding blob2 read_mem_part [OF le] whole slice_def by simp
    qed
    then show ?thesis
      using Some by (auto simp: file_loaded_def list_all_iff)
  qed
  then show ?thesis
    using e l1 l2 by (metis zero_neq_one)
qed

text \<open>What survives the creation of the arena.\<close>

lemma contents_kept:
  assumes "contents_loaded fs name m cs" and "g_mem (mc_gpu m') = g_mem (mc_gpu m)"
    and "rs_blob (st m') = rs_blob (st m)" and "rs_disk (st m') = rs_disk (st m)"
  shows "contents_loaded fs name m' cs"
proof -
  have "read_mem a n (mc_gpu m') = read_mem a n (mc_gpu m)" for a n
    using assms(2) by (simp add: read_mem_def)
  then have "const_loaded fs name m' = const_loaded fs name m" "file_loaded fs name m' = file_loaded fs name m"
    using assms(3,4) by (simp_all add: fun_eq_iff const_loaded_def file_loaded_def)
  then show ?thesis
    using assms(1) by (simp add: contents_loaded_def all_loaded_def split: if_splits)
qed

lemma arena_creation:
  assumes "session_ok m"
  shows "g_mem (mc_gpu (create_transient_arena m n)) = g_mem (mc_gpu m)"
    and "rs_blob (st (create_transient_arena m n)) = rs_blob (st m)"
    and "rs_disk (st (create_transient_arena m n)) = rs_disk (st m)"
    and "rs_constants (st (create_transient_arena m n)) = rs_constants (st m)"
  using session_ok_state [OF assms]
  by (auto simp: create_transient_arena_def Let_def hip_malloc_def hip_call_def emit_def split: option.splits)

definition file_name :: "string option \<Rightarrow> string" where
  "file_name filename = (case filename of None \<Rightarrow> ''constants.bin'' | Some f \<Rightarrow> f)"

text \<open>The addresses the operators read: null for a disk-resident constant.\<close>

definition const_address :: "machine \<Rightarrow> const_info \<Rightarrow> nat" where
  "const_address m c = (if ci_disk c then 0 else sz_add (rs_blob (st m)) (nat (ci_offset c)))"

lemma load_constants_loads:
  assumes ok: "session_ok m" and none: "rs_blob (st m) = 0" and files: "files_ok fs" and cs: "consts_ok cs" "cs \<noteq> []"
    and fits: "file_fits fs (file_name filename) cs"
  shows "\<exists>m' rc. load_constants m fs filename cs = Some (m', rc) \<and> keeps m m' \<and>
    (rc = 0 \<longrightarrow> contents_loaded fs (file_name filename) m' cs \<and> rs_constants (st m') = map (const_address m') cs)"
proof -
  let ?total = "compute_constants_total_size cs" and ?name = "file_name filename"
  have good: "list_all const_ok cs"
    using cs by (simp add: consts_ok_def)
  obtain m1 rc1 where 1: "prepare_constants_array m cs = (m1, rc1)"
    by fastforce
  note P = prepare_keeps [OF ok 1]
  obtain m2 rc2 where 2: "hipmalloc_and_fixup m1 cs ?total = (m2, rc2)"
    by fastforce
  have "rs_blob (st m1) = 0"
    using P(2) none by simp
  note F = fixup_keeps [OF keeps_ok [OF P(1)] this total_size_bound [OF good] 2]
  have k2: "keeps m m2"
    by (rule keeps_trans [OF P(1) F(1)])
  note ok2 = keeps_ok [OF k2]
  have e: "load_constants m fs filename cs = (if rc1 \<noteq> 0 then Some (m1, rc1) else if rc2 \<noteq> 0 then Some (m2, rc2)
      else if sourced cs then per_entry_load_constants m2 cs fs ?name else bulk_load_constants m2 fs ?name)"
    by (simp add: load_constants_def 1 2 sourced_def file_name_def)
  show ?thesis
  proof (cases "rc1 = 0 \<and> rc2 = 0")
    case False
    then show ?thesis
      using e P(1) k2 by auto
  next
    case True
    then have rc: "rc1 = 0" "rc2 = 0"
      by simp_all
    have holds: "blob_holds m2 ?total"
      using F(3) rc by simp
    have "\<exists>m' rc. (if sourced cs then per_entry_load_constants m2 cs fs ?name else bulk_load_constants m2 fs ?name) = Some (m', rc) \<and>
        loads m2 m' \<and> (rc = 0 \<longrightarrow> contents_loaded fs ?name m' cs)"
    proof (cases "sourced cs")
      case True
      then show ?thesis
        using per_entry_loads [OF ok2 files cs(1) holds, of ?name] by (auto simp: contents_loaded_def)
    next
      case False
      then have "\<And>r. fs_reader fs ?name = Some r \<Longrightarrow> rd_size r \<le> ?total"
        using fits by (simp add: file_fits_def)
      from bulk_loads [OF ok2 files good holds this] False show ?thesis
        by (auto simp: contents_loaded_def)
    qed
    then obtain m' rc where L: "(if sourced cs then per_entry_load_constants m2 cs fs ?name else bulk_load_constants m2 fs ?name) = Some (m', rc)"
      "loads m2 m'" "rc = 0 \<Longrightarrow> contents_loaded fs ?name m' cs"
      by blast
    have "rs_constants (st m2) = map (const_address m2) cs"
    proof -
      have two: "map2 (\<lambda>c p. if ci_disk c then p else f c) xs (replicate (length xs) (0 :: nat)) = map (\<lambda>c. if ci_disk c then 0 else f c) xs" for f xs
        by (induction xs) simp_all
      have m1: "rs_constants (st m1) = replicate (length cs) 0"
        by (rule P(4) [OF rc(1) cs(2)])
      have "map (\<lambda>c. if ci_disk c then 0 else sz_add (rs_blob (st m2)) (to_size (ci_offset c))) cs = map (const_address m2) cs"
        using good const_ok_size(2) by (simp add: const_address_def list_all_iff)
      then show ?thesis
        unfolding F(4) [OF rc(2)] m1 two .
    qed
    moreover have "rs_constants (st m') = rs_constants (st m2)" "rs_blob (st m') = rs_blob (st m2)"
      using L(2) by (simp_all add: loads_def)
    ultimately have "rs_constants (st m') = map (const_address m') cs"
      by (simp add: const_address_def)
    moreover have "keeps m m'"
      using keeps_trans [OF k2] L(2) by (simp add: loads_def)
    ultimately show ?thesis
      using e rc L by simp
  qed
qed

section \<open>Initialization\<close>

lemma set_options_keeps:
  assumes ok: "session_ok m"
  shows "keeps m (set_options config m)" and "rs_blob (st (set_options config m)) = rs_blob (st m)"
proof -
  define m1 where "m1 = upd_st (\<lambda>s. s\<lparr>rs_options := provider_options config\<rparr>) m"
  have k1: "keeps m m1"
    unfolding m1_def by (rule keeps_fields [OF keeps_refl [OF ok]]) simp_all
  obtain m2 p where 2: "hip_create ''hip_gqa_autotune_create'' (\<lambda>h g. g) m1 = (m2, p)"
    by fastforce
  have d2: "same_device m1 m2" "g_pin (mc_gpu m2) = g_pin (mc_gpu m1)"
    using 2 by (auto simp: hip_create_def same_device_def split: option.splits)
  define q where "q = (case p of None \<Rightarrow> 0 | Some h \<Rightarrow> h)"
  define m3 where "m3 = upd_st (\<lambda>s. s\<lparr>rs_gqa_policy := q\<rparr>) m2"
  have k3: "keeps m m3"
    unfolding m3_def by (rule keeps_fields [OF keeps_trans [OF k1 keeps_same_device [OF keeps_ok [OF k1] d2]]]) simp_all
  have e: "set_options config m = upd_gpu (emit (Ev_call ''hip_matmul_nbits_autotune_set_mode'')) m3"
    by (simp add: set_options_def Let_def m1_def [symmetric] 2 m3_def q_def)
  have "keeps m3 (set_options config m)"
    unfolding e by (rule keeps_same_device [OF keeps_ok [OF k3]]) (simp_all add: same_device_def)
  with k3 show "keeps m (set_options config m)"
    by (rule keeps_trans)
  have "mc_state m2 = mc_state m1" "mc_state m \<noteq> None"
    using d2(1) session_ok_state [OF ok] by (simp_all add: same_device_def)
  then show "rs_blob (st (set_options config m)) = rs_blob (st m)"
    unfolding e by (auto simp: m3_def m1_def)
qed

lemma initialize_blob:
  assumes "device_ok m" and "mc_state m = None" and "initialize_state_handles perf vendor m = (m1, 0)"
  shows "rs_blob (st m1) = 0"
  using assms by (cases rule: initialize_cases) (auto simp: initial_state_def)

text \<open>What the creation of a session gives and the session keeps: what was there stays there.\<close>

definition session_beside :: "machine \<Rightarrow> machine \<Rightarrow> bool" where
  "session_beside m m' \<longleftrightarrow> session_ok m' \<and> dev_strangers m' = set (g_dev (mc_gpu m)) \<and>
     pin_strangers m' = set (g_pin (mc_gpu m)) \<and> event_strangers m' = g_events (mc_gpu m) \<and> \<not> rs_scan_active (st m') \<and>
     g_streams (mc_gpu m') = rs_stream (st m') # g_streams (mc_gpu m) \<and>
     g_blas (mc_gpu m') = (if rs_blas (st m') = 0 then [] else [rs_blas (st m')]) @ g_blas (mc_gpu m) \<and>
     g_profiles (mc_gpu m') = g_profiles (mc_gpu m) + (if rs_op_profile (st m') then 1 else 0) \<and> rs_stream (st m') \<noteq> 0"

lemma session_beside_init:
  assumes "device_ok m" and "mc_state m = None" and "initialize_state_handles perf vendor m = (m1, 0)"
  shows "session_beside m m1"
  using initialize_ok [OF assms] by (simp add: session_beside_def)

lemma session_beside_keeps: "session_beside m m1 \<Longrightarrow> keeps m1 m2 \<Longrightarrow> session_beside m m2"
  by (simp add: session_beside_def keeps_def fixed_def)

text \<open>The machine without the session: everything the session took is back.\<close>

definition gone :: "machine \<Rightarrow> machine \<Rightarrow> bool" where
  "gone m m' \<longleftrightarrow> mc_state m' = None \<and> set (g_dev (mc_gpu m')) = set (g_dev (mc_gpu m)) \<and>
     set (g_pin (mc_gpu m')) = set (g_pin (mc_gpu m)) \<and> g_streams (mc_gpu m') = g_streams (mc_gpu m) \<and>
     g_blas (mc_gpu m') = g_blas (mc_gpu m) \<and> g_events (mc_gpu m') = g_events (mc_gpu m)"

lemma cleanup_gone:
  assumes dev: "device_ok m" and b: "session_beside m m1" and c: "cleanup m1 = (m2, rc)"
  shows "gone m m2" and "rc = 0" and "g_profiles (mc_gpu m2) = g_profiles (mc_gpu m)"
proof -
  have z: "0 \<notin> set (g_streams (mc_gpu m1))" "0 \<notin> set (g_blas (mc_gpu m))"
    using dev b by (auto simp: device_ok_def session_beside_def)
  have ok: "session_ok m1" "\<not> rs_scan_active (st m1)"
    using b by (simp_all add: session_beside_def)
  note R = cleanup_releases [OF ok c]
  note H = cleanup_handles [OF ok(1) c, of "g_streams (mc_gpu m)" "g_blas (mc_gpu m)"]
  show "gone m m2" "rc = 0" "g_profiles (mc_gpu m2) = g_profiles (mc_gpu m)"
    using R H z b by (simp_all add: gone_def session_beside_def)
qed

text \<open>The constants of a model, \<open>[]\<close> without metadata.\<close>

definition model_constants :: "(string option \<times> const_info list) option \<Rightarrow> const_info list" where
  "model_constants metadata = (case metadata of None \<Rightarrow> [] | Some (_, cs) \<Rightarrow> cs)"

definition model_file :: "(string option \<times> const_info list) option \<Rightarrow> string" where
  "model_file metadata = (case metadata of None \<Rightarrow> [] | Some (f, _) \<Rightarrow> file_name f)"

definition model_ok :: "files \<Rightarrow> (string option \<times> const_info list) option \<Rightarrow> bool" where
  "model_ok fs metadata \<longleftrightarrow> files_ok fs \<and> consts_ok (model_constants metadata) \<and>
     file_fits fs (model_file metadata) (model_constants metadata)"

lemma init_with_fs_cases:
  assumes dev: "device_ok m" and none: "mc_state m = None" and model: "model_ok fs metadata"
  shows "\<exists>m' rc. init_with_fs perf vendor m (Some fs) metadata config = Some (m', rc) \<and>
    (rc = 0 \<longrightarrow> session_beside m m' \<and>
      (model_constants metadata \<noteq> [] \<longrightarrow> contents_loaded fs (model_file metadata) m' (model_constants metadata) \<and>
         rs_constants (st m') = map (const_address m') (model_constants metadata))) \<and>
    (rc \<noteq> 0 \<longrightarrow> gone m m')"
proof -
  obtain m1 rc1 where 1: "initialize_state_handles perf vendor m = (m1, rc1)"
    by fastforce
  show ?thesis
  proof (cases "rc1 = 0")
    case False
    have "gone m m1"
      using dev none 1 by (cases rule: initialize_cases) (use False in \<open>simp_all add: gone_def\<close>)
    then show ?thesis
      using 1 False by (simp add: init_with_fs_def)
  next
    case True
    then have i: "initialize_state_handles perf vendor m = (m1, 0)"
      using 1 by simp
    note b1 = session_beside_init [OF dev none i]
    then have ok1: "session_ok m1"
      by (simp add: session_beside_def)
    note O = set_options_keeps [OF ok1, of config]
    define m2 where "m2 = set_options config m1"
    have b2: "session_beside m m2" "session_ok m2" "rs_blob (st m2) = 0"
      using session_beside_keeps [OF b1 O(1)] keeps_ok [OF O(1)] O(2) initialize_blob [OF dev none i] by (simp_all add: m2_def)
    show ?thesis
    proof (cases "model_constants metadata = []")
      case True
      then have "init_with_fs perf vendor m (Some fs) metadata config = Some (create_transient_arena m2 0, 0)"
        by (auto simp: init_with_fs_def i m2_def model_constants_def split: option.splits)
      then show ?thesis
        using True session_beside_keeps [OF b2(1) create_transient_arena_keeps [OF b2(2)]] by simp
    next
      case False
      then obtain f cs where md: "metadata = Some (f, cs)" "cs \<noteq> []"
        by (auto simp: model_constants_def split: option.splits)
      have cs: "model_constants metadata = cs" "model_file metadata = file_name f"
        by (simp_all add: md model_constants_def model_file_def)
      obtain m3 rc where L: "load_constants m2 fs f cs = Some (m3, rc)" "keeps m2 m3"
        "rc = 0 \<Longrightarrow> contents_loaded fs (file_name f) m3 cs \<and> rs_constants (st m3) = map (const_address m3) cs"
        using load_constants_loads [OF b2(2,3)] model md(2) unfolding model_ok_def cs by blast
      have b3: "session_beside m m3" "session_ok m3"
        using session_beside_keeps [OF b2(1) L(2)] keeps_ok [OF L(2)] by simp_all
      have e: "init_with_fs perf vendor m (Some fs) metadata config =
          (if rc \<noteq> 0 then Some (fst (cleanup m3), rc)
           else Some (create_transient_arena m3 (compute_constants_total_size cs), 0))"
        by (simp add: init_with_fs_def i md m2_def [symmetric] L(1) or_cleanup_def)
      show ?thesis
      proof (cases "rc = 0")
        case False
        then show ?thesis
          using e cleanup_gone(1) [OF dev b3(1)] by (metis option.inject prod.collapse prod.inject)
      next
        case True
        let ?m = "create_transient_arena m3 (compute_constants_total_size cs)"
        note A = arena_creation [OF b3(2), of "compute_constants_total_size cs"]
        have "contents_loaded fs (file_name f) ?m cs" "rs_constants (st ?m) = map (const_address ?m) cs"
          using contents_kept [OF _ A(1-3)] L(3) [OF True] A(2,4) by (simp_all add: const_address_def)
        then show ?thesis
          using e True session_beside_keeps [OF b3(1) create_transient_arena_keeps [OF b3(2)]] unfolding cs by simp
      qed
    qed
  qed
qed

section \<open>Properties\<close>

text \<open>C33: Fetching a constant gives the bytes its source stands for, or fails exactly where the source has
  none: a splat's element tiled to the size, the slice of a file of the operating system, the slice of the
  constants file; the caches of the open files, the skip in chunks of a file without a mapping and the
  staging buffer do not show, no access leaves a buffer, and the machine is not touched.\<close>

theorem fetch_refines_source:
  assumes "const_ok c" and "caches_ok fs name l" and "files_ok fs" and "nat (ci_size c) \<le> staging"
  shows "\<exists>l'. fetch_source fs name staging l c =
      (l', case source_content fs name c of None \<Rightarrow> Fetch_failed | Some bytes \<Rightarrow> Bytes bytes) \<and>
    caches_ok fs name l' \<and> ld_machine l' = ld_machine l"
  using fetch_source_refines(1-3) [OF assms] by (metis surj_pair)

text \<open>C31: A successful initialization with a file system loads a model that \<open>model_ok\<close> admits (sizes and
  offsets below 2^62, whole splat elements, constants apart from each other, a constants file that is not larger
  than the blob).  If some constant has a source of its own, every constant that is not disk-resident has its
  source's bytes at its offset in the blob and every disk-resident one is mapped with its table in the mapping.
  If none has, the constants file is copied as a whole, and the constants that end within that file have its
  bytes; the code accepts a shorter file and leaves the others as the allocation had them.  The array the
  operators read has the addresses of all of them, null for the disk-resident ones, and the session is valid
  beside everything that was on the device before.\<close>

theorem initialize_loads_constants:
  assumes "device_ok m" and "mc_state m = None" and "model_ok fs metadata" and "model_constants metadata \<noteq> []"
    and "init_with_fs perf vendor m (Some fs) metadata config = Some (m', 0)"
  shows "session_beside m m' \<and> contents_loaded fs (model_file metadata) m' (model_constants metadata) \<and>
    rs_constants (st m') = map (const_address m') (model_constants metadata)"
  using init_with_fs_cases [OF assms(1-3), of perf vendor config] assms(4,5) by auto

text \<open>C32: For a model that \<open>model_ok\<close> admits an initialization stays within its buffers, and one that
  fails, at whichever step, a missing file, a short read, a refused allocation or a failed copy, leaves nothing
  behind: no state, and the device's and the pinned ranges, the streams, the BLAS handles and the events are
  those from before.  The code does not check what \<open>model_ok\<close> asks: a negative offset into a mapped
  constants file, a splat element that does not divide its constant's size and a constants file larger than the
  blob are accesses outside a buffer.\<close>

theorem initialize_all_or_nothing:
  assumes "device_ok m" and "mc_state m = None" and "model_ok fs metadata"
  shows "\<exists>m' rc. init_with_fs perf vendor m (Some fs) metadata config = Some (m', rc) \<and>
    (if rc = 0 then session_beside m m' else gone m m')"
proof -
  obtain m' rc where "init_with_fs perf vendor m (Some fs) metadata config = Some (m', rc)"
    "rc = 0 \<Longrightarrow> session_beside m m'" "rc \<noteq> 0 \<Longrightarrow> gone m m'"
    using init_with_fs_cases [OF assms, of perf vendor config] by blast
  then show ?thesis
    by (intro exI [of _ m'] exI [of _ rc]) simp
qed

definition example_files :: files where
  "example_files = \<lparr>fs_reader = (\<lambda>_. Some \<lparr>rd_size = 3, rd_map = None, rd_data = [7, 8, 9]\<rparr>),
     os_open = (\<lambda>_. None), os_map = (\<lambda>_. None)\<rparr>"

definition splat_const :: const_info where
  "splat_const = \<lparr>ci_size = 4, ci_offset = 0, ci_source = Splat_source [5, 6], ci_disk = False\<rparr>"

definition mem_const :: const_info where
  "mem_const = \<lparr>ci_size = 2, ci_offset = 64, ci_source = Mem_source 1, ci_disk = False\<rparr>"

definition missing_const :: const_info where
  "missing_const = \<lparr>ci_size = 2, ci_offset = 64, ci_source = File_ref_source ''w'' 0, ci_disk = False\<rparr>"

lemma example_files_ok [simp]: "files_ok example_files"
  by (simp add: files_ok_def reader_ok_def reader_bytes_def example_files_def)

lemma example_consts_ok [simp]: "consts_ok [splat_const, mem_const]" "consts_ok [splat_const, missing_const]"
  "const_ok splat_const" "const_ok mem_const"
  by (simp_all add: consts_ok_def const_ok_def apart_def const_end_def to_size_def splat_const_def mem_const_def
      missing_const_def sz_add_def dvd_eq_mod_eq_0
      numeral_2_eq_2 [symmetric])

lemma example_model_ok [simp]:
  "model_ok example_files (Some (None, [splat_const, mem_const]))"
  "model_ok example_files (Some (None, [splat_const, missing_const]))"
  by (simp_all add: model_ok_def model_constants_def file_fits_def sourced_def splat_const_def [THEN arg_cong [of _ _ ci_source]])

theorem fetch_refines_source_witness:
  "\<exists>l'. fetch_source example_files ''c'' 4
     \<lparr>ld_machine = fresh_machine, ld_fref = fref_cache_init, ld_file = file_cache_init\<rparr> mem_const = (l', Bytes [8, 9])"
proof -
  have "caches_ok example_files ''c'' \<lparr>ld_machine = fresh_machine, ld_fref = fref_cache_init, ld_file = file_cache_init\<rparr>"
    by (simp add: caches_ok_def fref_cache_init_def file_cache_init_def)
  moreover have "source_content example_files ''c'' mem_const = Some [8, 9]"
    by (simp add: source_content_def mem_const_def example_files_def slice_def reader_bytes_def)
  ultimately show ?thesis
    using fetch_refines_source [of mem_const example_files "''c''" _ 4] by (auto simp: mem_const_def [THEN arg_cong [of _ _ ci_size]])
qed

lemmas load_eval =
  init_with_fs_def load_constants_def set_options_def provider_options_def prepare_constants_array_def heap_call_def
  hipmalloc_and_fixup_def compute_constants_total_size_def per_entry_load_constants_def max_tensor_size_def
  load_entry_def fetch_source_def upload_or_def upload_def in_device_def const_end_def to_size_def sz_add_def
  splat_const_def mem_const_def missing_const_def create_eval

lemma example_fetch:
  "constants_file_fetch \<lparr>rd_size = 3, rd_map = None, rd_data = [7, 8, 9]\<rparr> 1 2 = Bytes [8, 9]"
  by (simp add: constants_file_fetch_def to_size_def sz_add_def skip_bytes_exact)

lemma example_init:
  "\<exists>m'. init_with_fs True True fresh_machine (Some example_files) (Some (None, [splat_const, mem_const])) [] = Some (m', 0)"
  by (simp add: load_eval splat_fill.simps constants_file_cache_open_def file_cache_init_def example_files_def example_fetch)

theorem initialize_loads_constants_witness:
  "\<exists>m'. init_with_fs True True fresh_machine (Some example_files) (Some (None, [splat_const, mem_const])) [] = Some (m', 0) \<and>
     read_mem (rs_blob (st m')) 4 (mc_gpu m') = [5, 6, 5, 6] \<and> read_mem (rs_blob (st m') + 64) 2 (mc_gpu m') = [8, 9] \<and>
     length (rs_constants (st m')) = 2"
proof -
  let ?md = "Some (None, [splat_const, mem_const]) :: (string option \<times> const_info list) option"
  obtain m' where i: "init_with_fs True True fresh_machine (Some example_files) ?md [] = Some (m', 0)"
    using example_init by blast
  have "model_constants ?md = [splat_const, mem_const]" "model_file ?md = ''constants.bin''"
    by (simp_all add: model_constants_def model_file_def file_name_def)
  then have "all_loaded example_files ''constants.bin'' m' 0 [splat_const, mem_const]" "length (rs_constants (st m')) = 2"
    using initialize_loads_constants [OF fresh_machine_ok example_model_ok(1) _ i] by (simp_all add: contents_loaded_def sourced_def splat_const_def)
  then show ?thesis
    using i by (simp add: all_loaded_Cons const_loaded_def source_content_def splat_const_def mem_const_def
        example_files_def slice_def reader_bytes_def upt_rec mod_Suc)
qed

theorem initialize_all_or_nothing_witness:
  "\<exists>m' rc. init_with_fs True True fresh_machine (Some example_files) (Some (None, [splat_const, missing_const])) [] = Some (m', rc) \<and>
     (if rc = 0 then session_beside fresh_machine m' else gone fresh_machine m')"
  by (rule initialize_all_or_nothing [OF fresh_machine_ok example_model_ok(2)])

end
