(* ===== verification/Constants_Gather.thy ===== *)
theory Constants_Gather
  imports Constants_Properties
begin

text \<open>
  The gather of rows of a disk-resident table: the tasks partition the rows, so the rows
  arrive whatever the order in which the threads run, and the device gets the rows the
  indices select.
\<close>

section \<open>Tasks\<close>

lemma tasks_cover:
  fixes n i T :: nat
  assumes "0 < T" and "i < n"
  shows "\<exists>t < T. n * t div T \<le> i \<and> i < n * (t + 1) div T"
proof -
  have "i < n * k div T \<Longrightarrow> \<exists>t < k. n * t div T \<le> i \<and> i < n * (t + 1) div T" for k :: nat
  proof (induction k)
    case (Suc k)
    show ?case
    proof (cases "i < n * k div T")
      case True
      then show ?thesis
        using Suc.IH less_SucI by blast
    next
      case False
      then show ?thesis
        using Suc.prems by (intro exI [of _ k]) simp
    qed
  qed simp
  from this [of T] assms show ?thesis
    by simp
qed

lemma thread_count_pos: "0 < thread_count n row_bytes"
  by (simp add: thread_count_def k_max_threads_def)

lemma row_tasks_cover: "i < n \<Longrightarrow> \<exists>task \<in> set (row_tasks n row_bytes). fst task \<le> i \<and> i < snd task"
  using tasks_cover [OF thread_count_pos [of n row_bytes], of i n]
  by (auto simp: row_tasks_def Let_def)

lemma row_tasks_inside: "task \<in> set (row_tasks n row_bytes) \<Longrightarrow> snd task \<le> n"
proof -
  let ?T = "thread_count n row_bytes"
  have "n * (t + 1) div ?T \<le> n" if "t < ?T" for t
  proof -
    have "n * (t + 1) div ?T \<le> n * ?T div ?T"
      using that by (intro div_le_mono mult_le_mono2) simp
    then show ?thesis
      using thread_count_pos [of n row_bytes] by simp
  qed
  then show "task \<in> set (row_tasks n row_bytes) \<Longrightarrow> ?thesis"
    by (auto simp: row_tasks_def Let_def)
qed

section \<open>Rows\<close>

definition rows_ok :: "8 word list option list \<Rightarrow> nat \<Rightarrow> bool" where
  "rows_ok rows row_bytes \<longleftrightarrow> (\<forall>r \<in> set rows. length (row_bytes_of r row_bytes) = row_bytes)"

text \<open>Row \<open>i\<close> is in place.\<close>

definition row_there :: "8 word list option list \<Rightarrow> nat \<Rightarrow> nat \<Rightarrow> nat \<Rightarrow> gpu \<Rightarrow> bool" where
  "row_there rows row_bytes dst i g \<longleftrightarrow> read_host (dst + i * row_bytes) row_bytes g = row_bytes_of (rows ! i) row_bytes"

lemma rows_apart:
  fixes i j dst rb :: nat
  assumes "i < j"
  shows "dst + i * rb + rb \<le> dst + j * rb"
proof -
  have "Suc i * rb \<le> j * rb"
    using assms by (intro mult_le_mono1) simp
  then show ?thesis
    by simp
qed

lemma copy_row:
  fixes dst :: nat and g :: gpu
  assumes ok: "rows_ok rows rb" and i: "i < length rows"
  defines "g' \<equiv> write_host (dst + i * rb) (row_bytes_of (rows ! i) rb) g"
  shows "row_there rows rb dst i g'" and "row_there rows rb dst j g \<Longrightarrow> row_there rows rb dst j g'"
proof -
  have len: "length (row_bytes_of (rows ! i) rb) = rb"
    using ok i by (simp add: rows_ok_def)
  show there: "row_there rows rb dst i g'"
    using read_write_host [OF len] by (simp add: row_there_def g'_def)
  show "row_there rows rb dst j g \<Longrightarrow> row_there rows rb dst j g'"
  proof (cases "j = i")
    case False
    then have "dst + j * rb + rb \<le> dst + i * rb \<or> dst + i * rb + length (row_bytes_of (rows ! i) rb) \<le> dst + j * rb"
      using rows_apart [of i j dst rb] rows_apart [of j i dst rb] len by (cases "j < i") simp_all
    then show "row_there rows rb dst j g \<Longrightarrow> ?thesis"
      using read_write_host_other [of "dst + j * rb" rb "dst + i * rb" "row_bytes_of (rows ! i) rb"]
      by (simp add: row_there_def g'_def)
  qed (use there in simp)
qed

lemma copy_rows_there:
  assumes ok: "rows_ok rows rb" and "snd task \<le> length rows"
    and "row_there rows rb dst j g \<or> fst task \<le> j \<and> j < snd task"
  shows "row_there rows rb dst j (copy_rows rows dst rb task g)"
proof -
  have "\<forall>i \<in> set is. i < length rows \<Longrightarrow> row_there rows rb dst j g \<or> j \<in> set is \<Longrightarrow>
      row_there rows rb dst j (foldl (\<lambda>g i. write_host (dst + i * rb) (row_bytes_of (rows ! i) rb) g) g is)" for "is"
  proof (induction "is" arbitrary: g)
    case (Cons i "is")
    then have "row_there rows rb dst j (write_host (dst + i * rb) (row_bytes_of (rows ! i) rb) g) \<or> j \<in> set is"
      using copy_row [OF ok, where i = i and dst = dst and g = g] by auto
    with Cons show ?case
      by simp
  qed simp
  from this [of "[fst task ..< snd task]"] assms(2,3) show ?thesis
    by (auto simp: copy_rows_def)
qed

lemma gather_rows_there:
  assumes ok: "rows_ok rows rb" and "\<forall>t \<in> set order. snd t \<le> length rows"
    and "row_there rows rb dst j g \<or> (\<exists>t \<in> set order. fst t \<le> j \<and> j < snd t)"
  shows "row_there rows rb dst j (gather_rows order rows rb dst g)"
  using assms(2,3)
proof (induction order arbitrary: g)
  case (Cons t order)
  have "row_there rows rb dst j (copy_rows rows dst rb t g) \<or> (\<exists>t \<in> set order. fst t \<le> j \<and> j < snd t)"
    using Cons.prems copy_rows_there [OF ok, of t dst j g] by auto
  with Cons show ?case
    by (simp add: gather_rows_def)
qed (simp add: gather_rows_def)

lemma rows_concat:
  assumes "\<forall>i < n. read_host (dst + i * rb) rb g = f i"
  shows "read_host dst (n * rb) g = concat (map f [0 ..< n])"
  using assms
proof (induction n)
  case (Suc n)
  have "[0 ..< Suc n * rb] = [0 ..< n * rb] @ [n * rb ..< n * rb + rb]"
    using upt_add_eq_append [of 0 "n * rb" rb] by (simp add: add.commute)
  moreover have "map (\<lambda>i. g_host g (dst + i)) [n * rb ..< n * rb + rb] = read_host (dst + n * rb) rb g"
    by (rule nth_equalityI) (simp_all add: read_host_def add.assoc)
  ultimately have "read_host dst (Suc n * rb) g = read_host dst (n * rb) g @ read_host (dst + n * rb) rb g"
    by (simp add: read_host_def del: upt_Suc)
  with Suc show ?case
    by simp
qed (simp add: read_host_def)

lemma gather_rows_gathers:
  assumes "rows_ok rows rb" and "set order = set (row_tasks (length rows) rb)"
  shows "read_host dst (length rows * rb) (gather_rows order rows rb dst g) = concat (map (\<lambda>r. row_bytes_of r rb) rows)"
proof -
  have "\<forall>i < length rows. row_there rows rb dst i (gather_rows order rows rb dst g)"
    using gather_rows_there [OF assms(1)] row_tasks_inside row_tasks_cover by (metis assms(2))
  then have "read_host dst (length rows * rb) (gather_rows order rows rb dst g) =
      concat (map (\<lambda>i. row_bytes_of (rows ! i) rb) [0 ..< length rows])"
    by (intro rows_concat) (simp add: row_there_def)
  moreover have "map (\<lambda>i. row_bytes_of (rows ! i) rb) [0 ..< length rows] = map (\<lambda>r. row_bytes_of r rb) rows"
    by (rule nth_equalityI) simp_all
  ultimately show ?thesis
    by simp
qed

section \<open>The gather\<close>

lemma copy_rows_mem [simp]: "g_mem (copy_rows rows dst rb t g) = g_mem g"
proof -
  have "g_mem (foldl (\<lambda>g i. write_host (f i) (h i) g) g xs) = g_mem g" for f h and xs :: "nat list"
    by (induction xs arbitrary: g) (simp_all add: write_host_def)
  then show ?thesis
    by (simp add: copy_rows_def)
qed

lemma staging_mem: "g_mem (mc_gpu (fst (ensure_disk_gather_staging m n))) = g_mem (mc_gpu m)"
  by (auto simp: ensure_disk_gather_staging_def Let_def hip_host_malloc_def hip_host_free_def set_host_def emit_def
      split: option.splits prod.splits)

text \<open>A table of a mapped constant, and numbers the code's 64-bit arithmetic holds.\<close>

definition table_ok :: "disk_constant \<Rightarrow> int \<Rightarrow> int \<Rightarrow> bool" where
  "table_ok t num_rows row_bytes \<longleftrightarrow> (case dc_view t of None \<Rightarrow> False | Some v \<Rightarrow> dc_data t + nat (dc_size t) \<le> length v) \<and>
     0 < num_rows \<and> 0 < row_bytes \<and> row_bytes * num_rows = dc_size t"

lemma select_row_ok:
  assumes "table_ok t num_rows row_bytes"
  shows "length (row_bytes_of (select_row t (nat row_bytes) num_rows index) (nat row_bytes)) = nat row_bytes"
proof -
  obtain v where v: "dc_view t = Some v" "dc_data t + nat (dc_size t) \<le> length v"
    using assms by (auto simp: table_ok_def split: option.splits)
  have "dc_data t + nat r * nat row_bytes + nat row_bytes \<le> length v" if r: "0 \<le> r" "r < num_rows" for r
  proof -
    have "nat (dc_size t) = nat row_bytes * nat num_rows"
      using assms by (simp add: table_ok_def flip: nat_mult_distrib)
    moreover have "Suc (nat r) * nat row_bytes \<le> nat num_rows * nat row_bytes"
      using r by (intro mult_le_mono1) linarith
    ultimately show ?thesis
      using v(2) by (simp add: mult.commute)
  qed
  then have "length (take (nat row_bytes) (drop (dc_data t + nat r * nat row_bytes) v)) = nat row_bytes"
    if "0 \<le> r" "r < num_rows" for r
    using that by (metis add_le_imp_le_diff length_drop length_take min.absorb2 add.commute)
  then show ?thesis
    using v(1) by (simp add: select_row_def row_bytes_of_def Let_def del: length_take length_drop)
qed

definition selected :: "disk_constant \<Rightarrow> int \<Rightarrow> int \<Rightarrow> int \<Rightarrow> 8 word list \<Rightarrow> int \<Rightarrow> 8 word list" where
  "selected t num_rows row_bytes index_bytes bytes n =
     concat (map (\<lambda>k. row_bytes_of (select_row t (nat row_bytes) num_rows (index_at (nat index_bytes) bytes k)) (nat row_bytes))
       [0 ..< nat n])"

lemma gather_guard:
  assumes "mc_state m = Some s" and "rs_disk s = Some tables"
    and "disk_constant_gather_rows schedule m i indices n index_bytes num_rows row_bytes dst = Some (m', 0)"
  shows "\<not> (i < 0 \<or> nat i \<ge> length (rs_constants s) \<or> indices = 0 \<or> dst = 0 \<or> (index_bytes \<noteq> 4 \<and> index_bytes \<noteq> 8))"
    (is "\<not> ?bad")
proof
  assume ?bad
  then have "disk_constant_gather_rows schedule m i indices n index_bytes num_rows row_bytes dst = Some (m, -1)"
    unfolding disk_constant_gather_rows_def assms(1) option.case assms(2) by (simp only: if_True)
  with assms(3) show False
    by simp
qed

lemma gather_table_guard:
  assumes "mc_state m = Some s" and "rs_disk s = Some tables" and "t = tables ! nat i"
    and "disk_constant_gather_rows schedule m i indices n index_bytes num_rows row_bytes dst = Some (m', 0)"
  shows "\<not> (dc_view t = None \<or> num_rows \<le> 0 \<or> row_bytes \<le> 0 \<or> sint (word_of_int (row_bytes * num_rows) :: 64 word) \<noteq> dc_size t)"
    (is "\<not> ?bad")
proof
  assume ?bad
  then have "disk_constant_gather_rows schedule m i indices n index_bytes num_rows row_bytes dst = Some (m, -1)"
    unfolding disk_constant_gather_rows_def assms(1) option.case assms(2) Let_def assms(3) [symmetric]
    using gather_guard [OF assms(1,2,4)] by (simp only: if_True if_False)
  with assms(4) show False
    by simp
qed

lemma written_back:
  assumes "hip_write ''hipMemcpyAsync'' dst out m = (m1, ok1)" and "(if ok1 then hip_stream_sync m1 else (m1, False)) = (m2, True)"
  shows "read_mem dst (length out) (mc_gpu m2) = out"
proof -
  have "mc_gpu m2 = emit Ev_stream_sync (emit (Ev_call ''hipMemcpyAsync'') (write_mem dst out (mc_gpu m)))"
    using assms by (auto simp: hip_write_def hip_stream_sync_def split: if_splits)
  then show ?thesis
    using read_write_same [of dst out] by simp
qed

text \<open>C34: The gather of rows of a disk-resident table gives the device, when it succeeds, the rows its indices
  select, one after the other, whatever the order in which the threads copy them: an index is a signed number
  of four or eight bytes, a negative one counts from the end, and one outside the table gives a row of zeros.\<close>

theorem disk_gather_selects:
  assumes "mc_state m = Some s" and "rs_disk s = Some tables" and "t = tables ! nat i" and "table_ok t num_rows row_bytes"
    and "\<And>ts. set (schedule ts) = set ts" and "0 \<le> n" and "n * index_bytes < 2 ^ 63" and "n * row_bytes < 2 ^ 63"
    and "disk_constant_gather_rows schedule m i indices n index_bytes num_rows row_bytes dst = Some (m', 0)"
  shows "read_mem dst (nat n * nat row_bytes) (mc_gpu m') =
    selected t num_rows row_bytes index_bytes (read_mem indices (nat n * nat index_bytes) (mc_gpu m)) n"
proof -
  let ?rb = "nat row_bytes" and ?isz = "to_size (n * index_bytes)" and ?rsz = "to_size (n * row_bytes)"
  note guard = gather_guard [OF assms(1,2,9)]
  then have ib: "index_bytes = 4 \<or> index_bytes = 8"
    by blast
  note valid = gather_table_guard [OF assms(1-3,9)]
  have isz: "?isz = nat n * nat index_bytes" and rsz: "?rsz = nat n * ?rb"
    using assms(4,6-8) ib by (auto simp: table_ok_def nat_mult_distrib)
  obtain m1 rc1 where 1: "ensure_disk_gather_staging m (sz_add (region ?isz) ?rsz) = (m1, rc1)"
    by fastforce
  obtain m2 ok2 where 2: "hip_call ''hipMemcpyAsync'' m1 = (m2, ok2)"
    by fastforce
  obtain m3 ok3 where 3: "(if ok2 then hip_stream_sync m2 else (m2, False)) = (m3, ok3)"
    by fastforce
  have mem: "g_mem (mc_gpu m1) = g_mem (mc_gpu m)"
    using staging_mem [of m "sz_add (region ?isz) ?rsz"] 1 by simp
  define host where "host = sc_ptr (rs_host (st m1) Disk_gather_staging)"
  define bytes where "bytes = read_mem indices ?isz (mc_gpu m1)"
  define rows where "rows = map (\<lambda>k. select_row t ?rb num_rows (index_at (nat index_bytes) bytes k)) [0 ..< nat n]"
  define m4 where "m4 = upd_gpu (\<lambda>g. gather_rows (schedule (row_tasks (length rows) ?rb)) rows ?rb (host + region ?isz)
    (write_host host bytes g)) m3"
  define out where "out = read_host (host + region ?isz) ?rsz (mc_gpu m4)"
  obtain m5 ok5 where 5: "hip_write ''hipMemcpyAsync'' dst out m4 = (m5, ok5)"
    by fastforce
  obtain m6 ok6 where 6: "(if ok5 then hip_stream_sync m5 else (m5, False)) = (m6, ok6)"
    by fastforce
  have "disk_constant_gather_rows schedule m i indices n index_bytes num_rows row_bytes dst =
      (if rc1 \<noteq> 0 then Some (m1, -1) else if \<not> ok3 then Some (m3, -1) else Some (m6, if ok6 then 0 else -1))"
    unfolding disk_constant_gather_rows_def assms(1) option.case assms(2) Let_def assms(3) [symmetric]
    using guard valid assms(6)
    by (simp only: if_False 1 2 3 prod.case not_less [symmetric] host_def [symmetric] bytes_def [symmetric]
        rows_def [symmetric] m4_def [symmetric] out_def [symmetric] 5 6 cong: if_cong)
  then have m': "m' = m6" "ok6" "rc1 = 0" "ok3"
    using assms(9) by (auto split: if_splits)
  have "read_mem dst (length out) (mc_gpu m6) = out"
    using written_back [OF 5] 6 m'(2) by simp
  moreover have len: "length rows = nat n"
    by (simp add: rows_def)
  have "rows_ok rows ?rb"
    using select_row_ok [OF assms(4)] by (auto simp: rows_ok_def rows_def)
  then have "out = concat (map (\<lambda>r. row_bytes_of r ?rb) rows)"
    using gather_rows_gathers [of rows ?rb "schedule (row_tasks (length rows) ?rb)"] assms(5)
    unfolding out_def m4_def rsz len [symmetric] by simp
  moreover have "length out = nat n * ?rb"
    by (simp add: out_def rsz)
  ultimately have "read_mem dst (nat n * ?rb) (mc_gpu m') = concat (map (\<lambda>r. row_bytes_of r ?rb) rows)"
    using m'(1) by simp
  moreover have "bytes = read_mem indices (nat n * nat index_bytes) (mc_gpu m)"
    by (simp add: bytes_def isz read_mem_def mem)
  ultimately show ?thesis
    by (simp add: selected_def rows_def comp_def)
qed

definition gather_table :: disk_constant where
  "gather_table = \<lparr>dc_view = Some [1, 2, 3, 4, 5, 6], dc_data = 2, dc_size = 4\<rparr>"

definition gather_machine :: machine where
  "gather_machine = upd_gpu (write_mem 64 (le_bytes 4 (-1 :: 32 word) @ le_bytes 4 (0 :: 32 word) @ le_bytes 4 (7 :: 32 word)))
     (example_machine bump_api (zero_state\<lparr>rs_constants := [0], rs_disk := Some [gather_table]\<rparr>))"

lemma gather_example:
  "\<exists>m'. disk_constant_gather_rows rev gather_machine 0 64 3 4 2 2 128 = Some (m', 0)"
  by (simp add: disk_constant_gather_rows_def gather_machine_def gather_table_def device_literals
      ensure_disk_gather_staging_def hip_host_malloc_def hip_host_free_def hip_call_def hip_stream_sync_def hip_write_def
      set_host_def no_scratch_def Let_def to_size_def region_def sz_add_def write_mem_def)

theorem disk_gather_selects_witness:
  "\<exists>m'. disk_constant_gather_rows rev gather_machine 0 64 3 4 2 2 128 = Some (m', 0) \<and>
     read_mem 128 6 (mc_gpu m') = [5, 6, 3, 4, 0, 0]"
proof -
  obtain m' where g: "disk_constant_gather_rows rev gather_machine 0 64 3 4 2 2 128 = Some (m', 0)"
    using gather_example by blast
  have "read_mem 64 12 (mc_gpu gather_machine) = le_bytes 4 (-1 :: 32 word) @ le_bytes 4 (0 :: 32 word) @ le_bytes 4 (7 :: 32 word)"
    using read_write_same [of 64 "le_bytes 4 (-1 :: 32 word) @ le_bytes 4 (0 :: 32 word) @ le_bytes 4 (7 :: 32 word)"]
    by (simp add: gather_machine_def upd_gpu_def)
  moreover have "selected gather_table 2 2 4 (le_bytes 4 (-1 :: 32 word) @ le_bytes 4 (0 :: 32 word) @ le_bytes 4 (7 :: 32 word)) 3 =
      [5, 6, 3, 4, 0, 0]"
    by code_simp
  moreover have "read_mem 128 (nat 3 * nat 2) (mc_gpu m') = selected gather_table 2 2 4 (read_mem 64 (nat 3 * nat 4) (mc_gpu gather_machine)) 3"
    by (rule disk_gather_selects [OF _ _ _ _ _ _ _ _ g, of "zero_state\<lparr>rs_constants := [0], rs_disk := Some [gather_table]\<rparr>" "[gather_table]"])
      (simp_all add: gather_machine_def example_machine_def upd_gpu_def table_ok_def gather_table_def)
  ultimately show ?thesis
    using g by simp
qed

end
