(* ===== verification/Tar_Header.thy ===== *)
theory Tar_Header
  imports Prelude
begin

text \<open>
  The headers of the compiled models' tar files, from
  \<open>morphizen/morphizen-core/src/tar_header.cpp\<close>: \<open>TarHeader\<close> fills one 512-byte block
  (three or more for a name of 100 bytes or more) and reads it back.

  A stream is its bytes, its put and its get position, which \<open>FileStream\<close> and
  \<open>std::stringstream\<close> keep apart, whether it is good, and how many bytes it can come to hold;
  strings are lists of bytes.  A write that does not fit leaves the stream not good, as the
  string stream does that the tar file falls back to; \<open>FileStream\<close>, whose buffer of 4 MiB is not
  modelled, ends the program when the device is full, so every property of a write has room
  for it as a hypothesis.  Positions are unbounded; the properties bound them where
  \<open>std::streamoff\<close> does.  A read outside the 512-byte buffer is a result of its own, and so is
  an exception of \<open>std::stoll\<close> and its like.
\<close>

section \<open>Streams\<close>

type_synonym byte = "8 word"

record stream =
  sm_data :: "byte list"
  sm_pos :: nat
  sm_get :: nat
  sm_ok :: bool
  sm_limit :: nat

definition text_bytes :: "string \<Rightarrow> byte list" where
  "text_bytes s = map (\<lambda>c. word_of_nat (of_char c)) s"

text \<open>\<open>write\<close> overwrites and extends; a hole left by a seek past the end reads as zeros.\<close>

definition stream_write :: "byte list \<Rightarrow> stream \<Rightarrow> stream" where
  "stream_write bs s =
     (if \<not> sm_ok s then s
      else if sm_limit s < sm_pos s + length bs then s\<lparr>sm_ok := False\<rparr>
      else s\<lparr>sm_data := take (sm_pos s) (sm_data s @ replicate (sm_pos s - length (sm_data s)) 0) @ bs @
               drop (sm_pos s + length bs) (sm_data s),
             sm_pos := sm_pos s + length bs\<rparr>)"

definition tell :: "stream \<Rightarrow> int" where
  "tell s = (if sm_ok s then int (sm_pos s) else -1)"

definition seek :: "int \<Rightarrow> stream \<Rightarrow> stream" where
  "seek p s = (if \<not> sm_ok s then s else if p < 0 then s\<lparr>sm_ok := False\<rparr> else s\<lparr>sm_pos := nat p\<rparr>)"

definition tellg :: "stream \<Rightarrow> int" where
  "tellg s = (if sm_ok s then int (sm_get s) else -1)"

definition seekg :: "int \<Rightarrow> stream \<Rightarrow> stream" where
  "seekg p s = (if \<not> sm_ok s then s else if p < 0 then s\<lparr>sm_ok := False\<rparr> else s\<lparr>sm_get := nat p\<rparr>)"

text \<open>\<open>read\<close> of one block: a short one leaves the stream not good.\<close>

definition read_block :: "stream \<Rightarrow> stream \<times> byte list" where
  "read_block s =
     (if \<not> sm_ok s then (s, [])
      else let got = take 512 (drop (sm_get s) (sm_data s))
           in (s\<lparr>sm_get := sm_get s + length got, sm_ok := (length got = 512)\<rparr>, got))"

section \<open>Filling a header\<close>

text \<open>The header: name, size, the target of a symbolic link, time and the positions.\<close>

record tar_header =
  th_name :: "byte list"
  th_size :: nat
  th_link :: "byte list option"
  th_mtime :: nat
  th_block_begin :: int
  th_block_end :: int
  th_data_begin :: int
  th_data_end :: int

definition make_header :: "byte list \<Rightarrow> nat \<Rightarrow> tar_header" where
  "make_header name sz = \<lparr>th_name = name, th_size = sz, th_link = None, th_mtime = 0, th_block_begin = 0, th_block_end = 0,
     th_data_begin = 0, th_data_end = 0\<rparr>"

text \<open>Bytes copied to an offset of the block.\<close>

definition put :: "nat \<Rightarrow> byte list \<Rightarrow> byte list \<Rightarrow> byte list" where
  "put off bs b = take off b @ bs @ drop (off + length bs) b"

text \<open>\<open>snprintf\<close> with \<open>%0<width>o\<close> to a buffer of \<open>room\<close> bytes: zero-padded digits, cut off, and a zero.\<close>

fun octal :: "nat \<Rightarrow> byte list" where
  "octal n = (if n < 8 then [word_of_nat (48 + n)] else octal (n div 8) @ [word_of_nat (48 + n mod 8)])"

declare octal.simps [simp del]

definition print_octal :: "nat \<Rightarrow> nat \<Rightarrow> nat \<Rightarrow> byte list" where
  "print_octal room width n = take (room - 1) (replicate (width - length (octal n)) 48 @ octal n) @ [0]"

definition is_long_name :: "tar_header \<Rightarrow> bool" where
  "is_long_name h \<longleftrightarrow> length (th_name h) \<ge> 100"

definition fill_name :: "byte list \<Rightarrow> byte list \<Rightarrow> byte list" where
  "fill_name name b = put 0 (take 100 name) b"

definition fill_mode :: "nat \<Rightarrow> byte list \<Rightarrow> byte list" where
  "fill_mode mode b = put 107 [0] (put 100 (print_octal 8 7 mode) b)"

definition fill_uid :: "nat \<Rightarrow> byte list \<Rightarrow> byte list" where
  "fill_uid uid b = put 115 [0] (put 108 (print_octal 8 7 uid) b)"

definition fill_gid :: "nat \<Rightarrow> byte list \<Rightarrow> byte list" where
  "fill_gid gid b = put 123 [0] (put 116 (print_octal 8 7 gid) b)"

text \<open>The bytes of a large size from the last to the first.\<close>

fun base256 :: "nat \<Rightarrow> nat \<Rightarrow> byte list \<Rightarrow> byte list" where
  "base256 0 tmp acc = acc"
| "base256 (Suc i) tmp acc = base256 i (tmp div 256) (word_of_nat (tmp mod 256) # acc)"

definition max_octal_size :: nat where
  "max_octal_size = 8589934591"

definition fill_size :: "nat \<Rightarrow> byte list \<Rightarrow> byte list" where
  "fill_size sz b =
     (if sz \<le> max_octal_size then put 135 [0] (put 124 (print_octal 12 11 sz) b)
      else put 124 (0x80 # base256 11 sz []) b)"

definition fill_mtime :: "nat \<Rightarrow> byte list \<Rightarrow> byte list" where
  "fill_mtime t b = put 147 [0] (put 136 (print_octal 12 11 t) b)"

definition fill_chksum :: "byte list \<Rightarrow> byte list" where
  "fill_chksum b =
     (let spaced = put 148 (replicate 8 32) b;
          checksum_value = sum_list (map unat (take 512 spaced))
      in put 148 (print_octal 8 6 checksum_value) spaced)"

definition fill_linkflag :: "byte \<Rightarrow> byte list \<Rightarrow> byte list" where
  "fill_linkflag c b = put 156 [c] b"

definition fill_linkname :: "byte list \<Rightarrow> byte list \<Rightarrow> byte list" where
  "fill_linkname name b = put 157 (take 100 name) b"

definition fill_magic :: "byte list \<Rightarrow> byte list" where
  "fill_magic b = put 257 (text_bytes ''ustar  '' @ [0]) b"

definition fill_uname :: "byte list \<Rightarrow> byte list \<Rightarrow> byte list" where
  "fill_uname uname b = put 265 (take 32 uname) b"

definition fill_gname :: "byte list \<Rightarrow> byte list \<Rightarrow> byte list" where
  "fill_gname gname b = put 297 (take 32 gname) b"

definition fill_devmajor :: "nat \<Rightarrow> byte list \<Rightarrow> byte list" where
  "fill_devmajor dev b = put 336 [0] (put 329 (print_octal 8 7 dev) b)"

definition fill_devminor :: "nat \<Rightarrow> byte list \<Rightarrow> byte list" where
  "fill_devminor dev b = put 344 [0] (put 337 (print_octal 8 7 dev) b)"

definition fill_prefix :: "byte list \<Rightarrow> byte list \<Rightarrow> byte list" where
  "fill_prefix prefix b = put 345 (take 155 prefix) b"

definition default_name :: "byte list" where
  "default_name = text_bytes ''chunywan'' @ [0]"

definition long_link :: "byte list" where
  "long_link = text_bytes ''././@LongLink'' @ [0]"

definition zero_block :: "byte list" where
  "zero_block = replicate 512 0"

text \<open>What both headers of an entry end with.\<close>

definition fill_rest :: "byte list \<Rightarrow> byte list" where
  "fill_rest b = fill_chksum (fill_prefix [] (fill_devminor 0 (fill_devmajor 0 (fill_gname default_name
     (fill_uname default_name (fill_magic b))))))"

definition fill_start :: "byte list \<Rightarrow> nat \<Rightarrow> nat \<Rightarrow> byte list" where
  "fill_start name sz mtime = fill_mtime mtime (fill_size sz (fill_gid 10585 (fill_uid 30870 (fill_mode 420 (fill_name name zero_block)))))"

text \<open>The header of a long name and, in blocks after it, the name.\<close>

definition name_blocks :: "byte list \<Rightarrow> nat" where
  "name_blocks name = (length name + 511) div 512"

definition construct_long_name :: "tar_header \<Rightarrow> byte list" where
  "construct_long_name h =
     fill_rest (fill_linkname [] (fill_linkflag (word_of_nat (of_char (CHR ''L''))) (fill_start long_link (length (th_name h)) (th_mtime h)))) @
     th_name h @ replicate (512 * name_blocks (th_name h) - length (th_name h)) 0"

text \<open>The blocks of a header; a link target of 100 bytes or more is a failed \<open>CHECK\<close>.\<close>

definition construct_header :: "nat \<Rightarrow> tar_header \<Rightarrow> (tar_header \<times> byte list) option" where
  "construct_header now h0 =
     (let h = h0\<lparr>th_mtime := now\<rparr>;
          long = (if is_long_name h then construct_long_name h else []);
          start = fill_linkname [] (fill_start (th_name h) (th_size h) (th_mtime h))
      in case th_link h of
           None \<Rightarrow> Some (h, long @ fill_rest (fill_linkname [] (fill_linkflag (word_of_nat (of_char (CHR ''0''))) start)))
         | Some real_path \<Rightarrow>
             if length real_path \<ge> 100 then None
             else Some (h, long @ fill_rest (fill_linkname real_path (fill_linkflag (word_of_nat (of_char (CHR ''2''))) start))))"

text \<open>A size as a \<open>std::streamoff\<close>, which is signed.\<close>

definition stream_off :: "nat \<Rightarrow> int" where
  "stream_off n = sint (word_of_nat n :: 64 word)"

definition write_header :: "nat \<Rightarrow> tar_header \<Rightarrow> stream \<Rightarrow> (tar_header \<times> stream \<times> bool) option" where
  "write_header now h0 os =
     (case construct_header now h0 of
        None \<Rightarrow> None
      | Some (h, block) \<Rightarrow>
          let os1 = stream_write block os
          in Some (h\<lparr>th_block_begin := tell os, th_block_end := tell os1, th_data_begin := tell os1,
                     th_data_end := tell os1 + stream_off (th_size h)\<rparr>, os1, sm_ok os1))"

section \<open>Reading a header\<close>

text \<open>The string that starts at a place of the block, \<open>None\<close> where no zero ends it.\<close>

definition c_string :: "byte list \<Rightarrow> byte list option" where
  "c_string bs = (if 0 \<in> set bs then Some (takeWhile (\<lambda>b. b \<noteq> 0) bs) else None)"

text \<open>\<open>std::stoll\<close> and \<open>std::stoull\<close> in base 8; \<open>None\<close> is an exception.\<close>

definition blank :: "byte \<Rightarrow> bool" where
  "blank b \<longleftrightarrow> b = 32 \<or> 9 \<le> b \<and> b \<le> 13"

definition octal_digit :: "byte \<Rightarrow> bool" where
  "octal_digit b \<longleftrightarrow> 48 \<le> b \<and> b \<le> 55"

definition octal_value :: "byte list \<Rightarrow> nat" where
  "octal_value ds = foldl (\<lambda>n d. 8 * n + (unat d - 48)) 0 ds"

definition scan_octal :: "byte list \<Rightarrow> (bool \<times> nat) option" where
  "scan_octal s =
     (let body = dropWhile blank s;
          signed = (body \<noteq> [] \<and> (hd body = 45 \<or> hd body = 43));
          ds = takeWhile octal_digit (if signed then tl body else body)
      in if ds = [] then None else Some (signed \<and> hd body = 45, octal_value ds))"

definition stoll8 :: "byte list \<Rightarrow> int option" where
  "stoll8 s = (case scan_octal s of
       None \<Rightarrow> None
     | Some (negative, n) \<Rightarrow>
         if negative then if n > 2 ^ 63 then None else Some (- int n)
         else if n \<ge> 2 ^ 63 then None else Some (int n))"

definition stoull8 :: "byte list \<Rightarrow> nat option" where
  "stoull8 s = (case scan_octal s of
       None \<Rightarrow> None
     | Some (negative, n) \<Rightarrow>
         if n \<ge> 2 ^ 64 then None else Some (if negative then sz_sub 0 n else n))"

datatype check_result = Check_empty | Check_valid | Check_corrupt | Check_throws | Check_overrun

text \<open>The sums are over the 500 bytes of the header, the checksum's eight counted as blanks.\<close>

definition tar_checksum :: "byte list \<Rightarrow> check_result" where
  "tar_checksum b =
     (let head = take 500 b; chk = take 8 (drop 148 b);
          unsigned_sum = (\<Sum>x\<leftarrow>head. int (unat x)); signed_sum = (\<Sum>x\<leftarrow>head. sint x)
      in if unsigned_sum = 0 then Check_empty
         else
           let u = unsigned_sum - (\<Sum>x\<leftarrow>chk. int (unat x)) + 256; s = signed_sum - (\<Sum>x\<leftarrow>chk. sint x) + 256
           in case c_string (drop 148 b) of
                None \<Rightarrow> Check_overrun
              | Some digits \<Rightarrow>
                  (case stoll8 digits of
                     None \<Rightarrow> Check_throws
                   | Some parsed_sum \<Rightarrow>
                       if parsed_sum < 0 then Check_corrupt
                       else let recorded_sum = sint (word_of_int parsed_sum :: 32 word)
                            in if u \<noteq> recorded_sum \<and> s \<noteq> recorded_sum then Check_corrupt else Check_valid))"

datatype 'a read_result = Header 'a | No_header | Exception | Overrun

definition fail_check :: "check_result \<Rightarrow> 'a read_result option" where
  "fail_check c = (case c of Check_valid \<Rightarrow> None | Check_throws \<Rightarrow> Some Exception | Check_overrun \<Rightarrow> Some Overrun | _ \<Rightarrow> Some No_header)"

text \<open>The size of the entry's data: base 256 if the first bit is set, octal otherwise.\<close>

definition read_size :: "byte list \<Rightarrow> nat read_result" where
  "read_size b =
     (if (b ! 124) AND 0x80 \<noteq> 0 then Header (foldl (\<lambda>v x. (v * 256 + unat x) mod 2 ^ 64) 0 (take 11 (drop 125 b)))
      else case c_string (drop 124 b) of
             None \<Rightarrow> Overrun
           | Some s \<Rightarrow> (case stoull8 s of None \<Rightarrow> Exception | Some n \<Rightarrow> Header n))"

text \<open>A string field read up to its zero and cut to its length.\<close>

definition read_text :: "nat \<Rightarrow> byte list \<Rightarrow> byte list option" where
  "read_text off b = map_option (take 100) (c_string (drop off b))"

definition round_up_to_block_size :: "int \<Rightarrow> int" where
  "round_up_to_block_size n = (n + 511) div 512 * 512"

text \<open>The fields after the name, from the data header.\<close>

definition read_data_header :: "stream \<Rightarrow> int \<Rightarrow> byte list \<Rightarrow> byte list \<Rightarrow> stream \<times> tar_header read_result" where
  "read_data_header is block_begin name b =
     (case (if b ! 156 = 50 then map_option Some (read_text 157 b) else Some None) of
        None \<Rightarrow> (is, Overrun)
      | Some link \<Rightarrow>
          (case read_size b of
             Header sz \<Rightarrow>
               let data_end = tellg is + stream_off sz
               in (seekg (round_up_to_block_size data_end) is,
                   Header \<lparr>th_name = name, th_size = sz, th_link = link, th_mtime = 0, th_block_begin = block_begin,
                     th_block_end = tellg is, th_data_begin = tellg is, th_data_end = data_end\<rparr>)
           | No_header \<Rightarrow> (is, No_header)
           | Exception \<Rightarrow> (is, Exception)
           | Overrun \<Rightarrow> (is, Overrun)))"

text \<open>A long name: one block is read for it, whatever its length.\<close>

definition read_long_name :: "stream \<Rightarrow> int \<Rightarrow> byte list \<Rightarrow> stream \<times> tar_header read_result" where
  "read_long_name is block_begin b =
     (case c_string (drop 124 b) of
        None \<Rightarrow> (is, Overrun)
      | Some s \<Rightarrow>
          (case stoull8 s of
             None \<Rightarrow> (is, Exception)
           | Some n \<Rightarrow>
               if n \<ge> 2 ^ 63 then (is, Exception)
               else case read_block is of
                 (is1, nb) \<Rightarrow>
                   if length nb \<noteq> 512 then (is1, No_header)
                   else if n > 512 then (is1, Overrun)
                   else case read_block is1 of
                     (is2, b2) \<Rightarrow>
                       if length b2 \<noteq> 512 then (is2, No_header)
                       else (case fail_check (tar_checksum b2) of
                               Some r \<Rightarrow> (is2, r)
                             | None \<Rightarrow> read_data_header is2 block_begin (take n nb) b2)))"

definition read_header :: "stream \<Rightarrow> stream \<times> tar_header read_result" where
  "read_header is =
     (case read_block is of
        (is1, b) \<Rightarrow>
          if length b \<noteq> 512 then
            (if sm_ok is then is1\<lparr>sm_ok := True, sm_get := length (sm_data is1)\<rparr> else is1, No_header)
          else (case fail_check (tar_checksum b) of
                  Some r \<Rightarrow> (is1, r)
                | None \<Rightarrow>
                    let block_begin = tellg is1 - 512
                    in if b ! 156 = 76 then read_long_name is1 block_begin b
                       else (case read_text 0 b of
                               None \<Rightarrow> (is1, Overrun)
                             | Some name \<Rightarrow> read_data_header is1 block_begin name b)))"

end
