(* ===== verification/Tar_Roundtrip.thy ===== *)
theory Tar_Roundtrip
  imports Tar_Header
begin

text \<open>
  What a header written to a stream reads back as: numbers in octal and base 256, the fields
  of the block, the checksum, and the whole header.
\<close>

section \<open>Numbers\<close>

lemma digit_unat: "k < 8 \<Longrightarrow> unat (word_of_nat (48 + k) :: byte) = 48 + k"
  by (simp add: unat_of_nat del: of_nat_add)

lemma octal_set: "d \<in> set (octal n) \<Longrightarrow> octal_digit d"
proof (induction n rule: octal.induct)
  case (1 n)
  have d: "octal_digit (word_of_nat (48 + k))" if "k < 8" for k
    using digit_unat [OF that] that by (simp add: octal_digit_def word_le_nat_alt del: of_nat_add)
  show ?case
    using 1 d by (subst (asm) (2) octal.simps) (auto split: if_splits)
qed

lemma octal_nonempty: "octal n \<noteq> []"
  by (subst octal.simps) simp

lemma octal_value_append: "octal_value (xs @ [d]) = 8 * octal_value xs + (unat d - 48)"
  by (simp add: octal_value_def)

lemma octal_value_octal: "octal_value (octal n) = n"
proof (induction n rule: octal.induct)
  case (1 n)
  show ?case
  proof (cases "n < 8")
    case True
    then show ?thesis
      using digit_unat [of n] by (subst octal.simps) (simp add: octal_value_def del: of_nat_add)
  next
    case False
    have "octal_value (octal n) = 8 * (n div 8) + (unat (word_of_nat (48 + n mod 8) :: byte) - 48)"
      using False 1 by (subst octal.simps) (simp add: octal_value_append del: of_nat_add)
    then show ?thesis
      using digit_unat [of "n mod 8"] by simp
  qed
qed

lemma octal_value_zeros: "octal_value (replicate k 48 @ ds) = octal_value ds"
proof -
  have "foldl (\<lambda>n d. 8 * n + (unat (d :: byte) - 48)) 0 (replicate k 48) = 0"
    by (induction k) simp_all
  then show ?thesis
    by (simp add: octal_value_def)
qed

lemma octal_length: "n < 8 ^ k \<Longrightarrow> 0 < k \<Longrightarrow> length (octal n) \<le> k"
proof (induction n arbitrary: k rule: octal.induct)
  case (1 n)
  show ?case
  proof (cases "n < 8")
    case True
    then show ?thesis
      using 1(3) by (subst octal.simps) simp
  next
    case False
    then obtain j where j: "k = Suc j" "0 < j"
      using 1(2,3) by (cases k; cases "k - 1") auto
    then have "n div 8 < 8 ^ j"
      using 1(2) by (simp add: less_mult_imp_div_less mult.commute)
    then show ?thesis
      using 1(1) [OF False, of j] j False by (subst octal.simps) simp
  qed
qed

lemma print_octal_fits:
  assumes "n < 8 ^ w" and "0 < w" and "w < room"
  shows "print_octal room w n = replicate (w - length (octal n)) 48 @ octal n @ [0]"
  using octal_length [OF assms(1,2)] assms(3) by (simp add: print_octal_def)

lemma print_octal_length: "n < 8 ^ w \<Longrightarrow> 0 < w \<Longrightarrow> w < room \<Longrightarrow> length (print_octal room w n) = Suc w"
  using octal_length [of n w] by (simp add: print_octal_fits)

lemma print_octal_room: "0 < room \<Longrightarrow> length (print_octal room (room - 1) n) = room"
  by (auto simp: print_octal_def min_def)

lemma digit_not_blank: "octal_digit d \<Longrightarrow> \<not> blank d \<and> d \<noteq> 0 \<and> d \<noteq> 45 \<and> d \<noteq> 43"
  by (auto simp: octal_digit_def blank_def word_le_nat_alt)

lemma scan_octal_digits:
  assumes "\<And>d. d \<in> set ds \<Longrightarrow> octal_digit d" and "ds \<noteq> []"
  shows "scan_octal ds = Some (False, octal_value ds)"
proof -
  have h: "octal_digit (hd ds)"
    using assms by simp
  have dw: "dropWhile blank ds = ds"
    using digit_not_blank [OF h] by (simp add: dropWhile_eq_self_iff)
  have tw: "takeWhile octal_digit ds = ds"
    using assms(1) by (simp add: takeWhile_eq_all_conv)
  show ?thesis
    using assms(2) digit_not_blank [OF h] by (simp add: scan_octal_def Let_def dw tw del: takeWhile_eq_all_conv)
qed

text \<open>A printed number reads back from its C string.\<close>

lemma printed:
  assumes "n < 8 ^ w" and "0 < w" and "w < room"
  shows "0 \<in> set (print_octal room w n)"
    and "scan_octal (takeWhile (\<lambda>b. b \<noteq> 0) (print_octal room w n @ rest)) = Some (False, n)"
proof -
  let ?ds = "replicate (w - length (octal n)) 48 @ octal n"
  have digit: "octal_digit d" if "d \<in> set ?ds" for d
    using that octal_set by (auto simp: octal_digit_def)
  have p: "print_octal room w n = ?ds @ [0]"
    using print_octal_fits [OF assms] by simp
  show "0 \<in> set (print_octal room w n)"
    unfolding p by simp
  have "takeWhile (\<lambda>b. b \<noteq> 0) (?ds @ 0 # rest) = takeWhile (\<lambda>b. b \<noteq> 0) ?ds"
    by (rule takeWhile_tail) simp
  moreover have "takeWhile (\<lambda>b. b \<noteq> 0) ?ds = ?ds"
    unfolding takeWhile_eq_all_conv using digit digit_not_blank by blast
  ultimately have "takeWhile (\<lambda>b. b \<noteq> 0) (print_octal room w n @ rest) = ?ds"
    unfolding p by simp
  then show "scan_octal (takeWhile (\<lambda>b. b \<noteq> 0) (print_octal room w n @ rest)) = Some (False, n)"
    using scan_octal_digits [of ?ds] digit octal_nonempty by (simp add: octal_value_zeros octal_value_octal)
qed

lemma base256_length: "length (base256 k n acc) = k + length acc"
  by (induction k n acc rule: base256.induct) simp_all

lemma base256_append: "base256 k n acc = base256 k n [] @ acc"
proof (induction k arbitrary: n acc)
  case (Suc k)
  show ?case
    using Suc [of "n div 256" "word_of_nat (n mod 256) # acc"] Suc [of "n div 256" "[word_of_nat (n mod 256)]"] by simp
qed simp

lemma base256_value: "foldl (\<lambda>v x. v * 256 + unat (x :: byte)) 0 (base256 k n []) = n mod 256 ^ k"
proof (induction k arbitrary: n)
  case (Suc k)
  have "base256 (Suc k) n [] = base256 k (n div 256) [] @ [word_of_nat (n mod 256)]"
    using base256_append [of k "n div 256" "[word_of_nat (n mod 256)]"] by simp
  moreover have "unat (word_of_nat (n mod 256) :: byte) = n mod 256"
    by (simp add: unat_of_nat)
  ultimately show ?case
    using Suc [of "n div 256"] by (simp add: mod_mult2_eq)
qed simp

lemma foldl_mod:
  "foldl (\<lambda>v x. (v * 256 + f x) mod M) (a mod M) xs = foldl (\<lambda>v x. v * 256 + f x) a xs mod (M :: nat)"
proof (induction xs arbitrary: a)
  case (Cons x xs)
  have "(a mod M * 256 + f x) mod M = (a * 256 + f x) mod M"
    by (metis mod_add_left_eq mod_mult_left_eq)
  then show ?case
    using Cons [of "a * 256 + f x"] by simp
qed simp

section \<open>Blocks\<close>

lemma put_length [simp]: "off + length bs \<le> length b \<Longrightarrow> length (put off bs b) = length b"
  by (simp add: put_def)

lemma put_Nil [simp]: "off \<le> length b \<Longrightarrow> put off [] b = b"
  by (simp add: put_def)

definition field :: "nat \<Rightarrow> nat \<Rightarrow> byte list \<Rightarrow> byte list" where
  "field off n b = take n (drop off b)"

lemma field_length [simp]: "off + n \<le> length b \<Longrightarrow> length (field off n b) = n"
  by (simp add: field_def)

lemma put_nth:
  "off + length bs \<le> length b \<Longrightarrow> i < length b \<Longrightarrow>
     put off bs b ! i = (if off \<le> i \<and> i < off + length bs then bs ! (i - off) else b ! i)"
  by (auto simp: put_def nth_append min_def)

lemma field_put_other:
  "off + n \<le> off' \<or> off' + length bs \<le> off \<Longrightarrow> off' + length bs \<le> length b \<Longrightarrow> off + n \<le> length b \<Longrightarrow>
     field off n (put off' bs b) = field off n b"
  by (rule nth_equalityI) (auto simp: field_def put_nth)

lemma field_put:
  "length bs \<le> n \<Longrightarrow> off + n \<le> length b \<Longrightarrow> field off n (put off bs b) = bs @ drop (length bs) (field off n b)"
  by (rule nth_equalityI) (auto simp: field_def put_nth nth_append)

lemma field_zero_block: "off + n \<le> 512 \<Longrightarrow> field off n zero_block = replicate n 0"
  by (rule nth_equalityI) (auto simp: field_def zero_block_def)

lemma c_string_field:
  assumes "0 \<in> set (field off n b)"
  shows "c_string (drop off b) = Some (takeWhile (\<lambda>x. x \<noteq> 0) (field off n b))"
proof -
  have d: "drop off b = field off n b @ drop n (drop off b)"
    by (simp only: field_def append_take_drop_id)
  have "takeWhile (\<lambda>x. x \<noteq> 0) (drop off b) = takeWhile (\<lambda>x. x \<noteq> 0) (field off n b)"
    by (subst d) (use assms in \<open>simp add: takeWhile_append1\<close>)
  moreover have "0 \<in> set (drop off b)"
    by (subst d) (use assms in simp)
  ultimately show ?thesis
    by (simp add: c_string_def)
qed

lemma nth_field: "i < length b \<Longrightarrow> field i (Suc 0) b = [x] \<Longrightarrow> b ! i = x"
  by (simp add: field_def take_Suc_conv_app_nth)

section \<open>The checksum\<close>

definition before_chksum :: "byte list \<Rightarrow> byte list" where
  "before_chksum b = fill_prefix [] (fill_devminor 0 (fill_devmajor 0 (fill_gname default_name
     (fill_uname default_name (fill_magic b)))))"

lemma literal_lengths [simp]: "length default_name = 9" "length long_link = 14" "length (text_bytes s) = length s"
  by (simp_all add: default_name_def long_link_def text_bytes_def)

lemma rest_lengths [simp]:
  "length b = 512 \<Longrightarrow> length (fill_magic b) = 512" "length b = 512 \<Longrightarrow> length (fill_uname default_name b) = 512"
  "length b = 512 \<Longrightarrow> length (fill_gname default_name b) = 512" "length b = 512 \<Longrightarrow> length (fill_devmajor k b) = 512"
  "length b = 512 \<Longrightarrow> length (fill_devminor k b) = 512" "length b = 512 \<Longrightarrow> length (fill_prefix [] b) = 512"
  using print_octal_room [of 8 k]
  by (simp_all add: fill_magic_def fill_uname_def fill_gname_def fill_devmajor_def fill_devminor_def fill_prefix_def)

lemma before_chksum_length [simp]: "length b = 512 \<Longrightarrow> length (before_chksum b) = 512"
  by (simp add: before_chksum_def)

lemma before_chksum_field:
  assumes "length b = 512" and "off + n \<le> 257 \<or> 500 \<le> off \<and> off + n \<le> 512"
  shows "field off n (before_chksum b) = field off n b"
  using assms print_octal_room [of 8 0]
  by (elim disjE) (simp_all add: before_chksum_def fill_magic_def fill_uname_def fill_gname_def fill_devmajor_def fill_devminor_def
      fill_prefix_def field_put_other)

lemma fill_rest_eq: "fill_rest b = fill_chksum (before_chksum b)"
  by (simp add: fill_rest_def before_chksum_def)

lemma block_parts:
  assumes "length c = 512"
  shows "c = take 148 c @ field 148 8 c @ field 156 344 c @ field 500 12 c"
proof -
  have "drop 500 c = take 12 (drop 500 c)"
    using assms by simp
  moreover have "drop 156 c = take 344 (drop 156 c) @ drop 500 c"
    using append_take_drop_id [of 344 "drop 156 c"] by simp
  moreover have "drop 148 c = take 8 (drop 148 c) @ drop 156 c"
    using append_take_drop_id [of 8 "drop 148 c"] by simp
  moreover have "c = take 148 c @ drop 148 c"
    by simp
  ultimately show ?thesis
    unfolding field_def by metis
qed

text \<open>The block with its checksum, and its sums.\<close>

definition chksum_of :: "byte list \<Rightarrow> nat" where
  "chksum_of c = sum_list (map unat (take 148 c)) + 256 + sum_list (map unat (field 156 344 c))"

lemma sum_bytes_bound: "sum_list (map unat (bs :: byte list)) \<le> 255 * length bs"
proof (induction bs)
  case (Cons b bs)
  have "unat b < 256"
    using unsigned_less [of b] by simp
  with Cons show ?case
    by simp
qed simp

lemma chksum_bound:
  assumes "length c = 512"
  shows "chksum_of c < 8 ^ 6"
  using sum_bytes_bound [of "take 148 c"] sum_bytes_bound [of "field 156 344 c"] assms by (simp add: chksum_of_def)

lemma fill_chksum_eq:
  assumes len: "length c = 512" and zeros: "field 500 12 c = replicate 12 0"
  shows "fill_chksum c = take 148 c @ (print_octal 8 6 (chksum_of c) @ [32]) @ field 156 344 c @ replicate 12 0"
proof -
  let ?A = "take 148 c" and ?B = "field 156 344 c" and ?Z = "replicate 12 (0 :: byte)"
  have l: "length ?A = 148" "length ?B = 344"
    using len by (simp_all add: field_def)
  have c: "c = ?A @ field 148 8 c @ ?B @ ?Z"
    using block_parts [OF len] zeros by simp
  have "drop 156 c = ?B @ ?Z"
  proof -
    have "drop 156 (?A @ field 148 8 c @ ?B @ ?Z) = ?B @ ?Z"
      using l len by (simp add: drop_append field_def)
    then show ?thesis
      using c by simp
  qed
  then have spaced: "put 148 (replicate 8 32) c = ?A @ replicate 8 32 @ ?B @ ?Z"
    by (simp add: put_def)
  have sum: "sum_list (map unat (take 512 (put 148 (replicate 8 32) c))) = chksum_of c"
    unfolding spaced using l by (simp add: chksum_of_def sum_list_replicate)
  have p: "length (print_octal 8 6 (chksum_of c)) = 7"
    using print_octal_length [of "chksum_of c" 6 8] chksum_bound [OF len] by simp
  have "put 148 (print_octal 8 6 (chksum_of c)) (?A @ replicate 8 32 @ ?B @ ?Z) =
      ?A @ print_octal 8 6 (chksum_of c) @ drop 7 (replicate 8 32) @ ?B @ ?Z"
    using l p by (simp add: put_def)
  then show ?thesis
    unfolding fill_chksum_def Let_def sum unfolding spaced by simp
qed

lemma fill_chksum_length: "length c = 512 \<Longrightarrow> field 500 12 c = replicate 12 0 \<Longrightarrow> length (fill_chksum c) = 512"
  using print_octal_length [of "chksum_of c" 6 8] chksum_bound [of c] by (simp add: fill_chksum_eq field_def)

lemma fill_chksum_field:
  assumes "length c = 512" and "field 500 12 c = replicate 12 0" and "off + n \<le> 148 \<or> 156 \<le> off \<and> off + n \<le> 512"
  shows "field off n (fill_chksum c) = field off n c"
proof -
  have p: "length (print_octal 8 6 (chksum_of c)) = 7"
    using print_octal_length [of "chksum_of c" 6 8] chksum_bound [OF assms(1)] by simp
  have "put 148 (print_octal 8 6 (chksum_of c) @ [32]) c = fill_chksum c"
  proof -
    have "drop 156 c = field 156 344 c @ field 500 12 c"
      using append_take_drop_id [of 344 "drop 156 c"] assms(1) by (simp add: field_def)
    then show ?thesis
      using fill_chksum_eq [OF assms(1,2)] p assms(2) by (simp add: put_def)
  qed
  then show ?thesis
    using field_put_other [of off n 148 "print_octal 8 6 (chksum_of c) @ [32]" c] assms(1,3) p by auto
qed

lemma checksum_valid:
  assumes len: "length c = 512" and zeros: "field 500 12 c = replicate 12 0" and flag: "c ! 156 \<noteq> 0"
  shows "tar_checksum (fill_chksum c) = Check_valid"
proof -
  let ?A = "take 148 c" and ?B = "field 156 344 c" and ?Z = "replicate 12 (0 :: byte)" and ?S = "chksum_of c"
  let ?p = "print_octal 8 6 ?S @ [32]"
  have l: "length ?A = 148" "length ?B = 344"
    using len by (simp_all add: field_def)
  have S: "?S < 8 ^ 6"
    by (rule chksum_bound [OF len])
  have p: "length ?p = 8"
    using print_octal_length [of ?S 6 8] S by simp
  note e = fill_chksum_eq [OF len zeros]
  have head: "take 500 (fill_chksum c) = ?A @ ?p @ ?B"
    unfolding e using l p by simp
  have rest: "drop 148 (fill_chksum c) = print_octal 8 6 ?S @ (32 # ?B @ ?Z)"
    unfolding e using l by simp
  have chk: "take 8 (drop 148 (fill_chksum c)) = ?p"
    unfolding e using l p by simp
  note P = printed(1) [where n = ?S and w = 6 and room = 8]
    printed(2) [where n = ?S and w = 6 and room = 8 and rest = "32 # ?B @ ?Z"]
  have str: "c_string (drop 148 (fill_chksum c)) = Some (takeWhile (\<lambda>b. b \<noteq> 0) (print_octal 8 6 ?S @ (32 # ?B @ ?Z)))"
    unfolding rest using P(1) S by (simp add: c_string_def)
  have parsed: "stoll8 (takeWhile (\<lambda>b. b \<noteq> 0) (print_octal 8 6 ?S @ (32 # ?B @ ?Z))) = Some (int ?S)"
    using P(2) S by (simp add: stoll8_def)
  have rec: "sint (word_of_int (int ?S) :: 32 word) = int ?S"
    using S by (simp add: sint_sbintrunc' signed_take_bit_int_eq_self del: of_int_of_nat_eq)
  have u: "(\<Sum>x\<leftarrow>?A @ ?p @ ?B. int (unat x)) - (\<Sum>x\<leftarrow>?p. int (unat x)) + 256 = int ?S"
    by (simp add: chksum_of_def sum_list_of_nat [symmetric, where 'a = int] comp_def)
  have nonzero: "(\<Sum>x\<leftarrow>?A @ ?p @ ?B. int (unat x)) \<noteq> 0"
  proof -
    have "unat (32 :: byte) \<le> sum_list (map unat (?A @ ?p @ ?B))"
      by (rule member_le_sum_list) simp_all
    then have "(0 :: int) < int (sum_list (map unat (?A @ ?p @ ?B)))"
      by simp
    moreover have "int (sum_list (map unat (?A @ ?p @ ?B))) = (\<Sum>x\<leftarrow>?A @ ?p @ ?B. int (unat x))"
      by (simp only: sum_list_of_nat [symmetric, where 'a = int] map_map comp_def)
    ultimately show ?thesis
      by linarith
  qed
  show ?thesis
    unfolding tar_checksum_def Let_def head chk str option.case parsed using u nonzero by (simp add: rec del: of_int_of_nat_eq)
qed

section \<open>A header\<close>

text \<open>A block as the writer leaves it: its length, its checksum and the fields the reader looks at.\<close>

definition block_holds_fields :: "byte list \<Rightarrow> byte list \<Rightarrow> nat \<Rightarrow> byte \<Rightarrow> byte list \<Rightarrow> bool" where
  "block_holds_fields b name sz flag link \<longleftrightarrow> length b = 512 \<and> tar_checksum b = Check_valid \<and> b ! 156 = flag \<and>
     field 0 100 b = take 100 name @ replicate (100 - length name) 0 \<and>
     field 157 100 b = link @ replicate (100 - length link) 0 \<and>
     (if sz \<le> max_octal_size then field 124 12 b = print_octal 12 11 sz else field 124 12 b = 0x80 # base256 11 sz [])"

lemma print_octal_end:
  assumes "length (print_octal room w n) = Suc k"
  shows "print_octal room w n ! k = 0"
proof -
  have "k = length (take (room - 1) (replicate (w - length (octal n)) 48 @ octal n))"
    using assms by (simp add: print_octal_def)
  then show ?thesis
    by (simp only: print_octal_def nth_append_length)
qed

lemma put_same:
  assumes "off + length bs \<le> length b" and "field off (length bs) b = bs"
  shows "put off bs b = b"
proof (rule nth_equalityI)
  fix i assume i: "i < length (put off bs b)"
  have "bs ! (i - off) = b ! i" if "off \<le> i" "i < off + length bs"
  proof -
    have "bs ! (i - off) = field off (length bs) b ! (i - off)"
      by (simp only: assms(2))
    then show ?thesis
      using that assms(1) by (simp add: field_def)
  qed
  then show "put off bs b ! i = b ! i"
    using i assms(1) by (auto simp: put_nth)
qed (use assms(1) in simp)

lemma size_field:
  assumes "length b = 512"
  shows "length (fill_size sz b) = 512"
    and "off + n \<le> 124 \<or> 136 \<le> off \<and> off + n \<le> 512 \<Longrightarrow> field off n (fill_size sz b) = field off n b"
    and "field 124 12 (fill_size sz b) = (if sz \<le> max_octal_size then print_octal 12 11 sz else 0x80 # base256 11 sz [])"
proof -
  have p: "length (print_octal 12 11 sz) = 12"
    using print_octal_room [of 12 sz] by simp
  have q: "length (0x80 # base256 11 sz []) = 12"
    by (simp add: base256_length)
  define b1 where "b1 = put 124 (print_octal 12 11 sz) b"
  have b1: "length b1 = 512" "field 124 12 b1 = print_octal 12 11 sz"
    using assms p by (simp_all add: b1_def field_put)
  have "b1 ! 135 = field 124 12 b1 ! 11"
    using b1(1) by (simp add: field_def)
  also have "\<dots> = 0"
    using print_octal_end [of 12 11 sz 11] p b1(2) by simp
  finally have "field 135 1 b1 = [0]"
    using b1(1) by (simp add: field_def take_Suc_conv_app_nth)
  then have s: "put 135 [0] b1 = b1"
    using put_same [of 135 "[0]" b1] b1(1) by simp
  show "length (fill_size sz b) = 512"
    using assms q b1(1) s by (simp add: fill_size_def b1_def)
  show "off + n \<le> 124 \<or> 136 \<le> off \<and> off + n \<le> 512 \<Longrightarrow> field off n (fill_size sz b) = field off n b"
    using assms p q s by (auto simp: fill_size_def b1_def field_put_other)
  show "field 124 12 (fill_size sz b) = (if sz \<le> max_octal_size then print_octal 12 11 sz else 0x80 # base256 11 sz [])"
    using b1 s q assms by (simp add: fill_size_def b1_def field_put)
qed

lemma start_fields:
  shows "length (fill_start name sz t) = 512"
    and "field 0 100 (fill_start name sz t) = take 100 name @ replicate (100 - length name) 0"
    and "field 124 12 (fill_start name sz t) = (if sz \<le> max_octal_size then print_octal 12 11 sz else 0x80 # base256 11 sz [])"
    and "148 \<le> off \<Longrightarrow> off + n \<le> 512 \<Longrightarrow> field off n (fill_start name sz t) = replicate n 0"
proof -
  define b1 where "b1 = fill_gid 10585 (fill_uid 30870 (fill_mode 420 (fill_name name zero_block)))"
  have z: "length zero_block = 512"
    by (simp add: zero_block_def)
  have p: "length (print_octal 8 7 n) = 8" "length (print_octal 12 11 n) = 12" for n
    using print_octal_room [of 8 n] print_octal_room [of 12 n] by simp_all
  have b1: "length b1 = 512"
    using z p by (simp add: b1_def fill_gid_def fill_uid_def fill_mode_def fill_name_def)
  have name: "field 0 100 b1 = take 100 name @ replicate (100 - length name) 0"
    using z p by (simp add: b1_def fill_gid_def fill_uid_def fill_mode_def fill_name_def field_put_other field_put field_zero_block)
  have other: "124 \<le> off \<Longrightarrow> off + n \<le> 512 \<Longrightarrow> field off n b1 = replicate n 0" for off n
    using z p by (simp add: b1_def fill_gid_def fill_uid_def fill_mode_def fill_name_def field_put_other field_zero_block)
  note S = size_field [OF b1, where sz = sz]
  have m: "length (fill_mtime t b) = 512" "off + n \<le> 136 \<or> 148 \<le> off \<and> off + n \<le> 512 \<Longrightarrow> field off n (fill_mtime t b) = field off n b"
    if "length b = 512" for b off n
    using that p by (auto simp: fill_mtime_def field_put_other)
  have e: "fill_start name sz t = fill_mtime t (fill_size sz b1)"
    by (simp add: fill_start_def b1_def)
  show "length (fill_start name sz t) = 512"
    "field 0 100 (fill_start name sz t) = take 100 name @ replicate (100 - length name) 0"
    "field 124 12 (fill_start name sz t) = (if sz \<le> max_octal_size then print_octal 12 11 sz else 0x80 # base256 11 sz [])"
    "148 \<le> off \<Longrightarrow> off + n \<le> 512 \<Longrightarrow> field off n (fill_start name sz t) = replicate n 0"
    using e m(1) [OF S(1)] m(2) [OF S(1)] S(2,3) name other by simp_all
qed

lemma finished_block:
  assumes "length link < 100" and "flag \<noteq> 0"
    and "b = fill_rest (fill_linkname link (fill_linkflag flag (fill_start name sz t)))"
  shows "block_holds_fields b name sz flag link"
proof -
  define c where "c = before_chksum (fill_linkname link (fill_linkflag flag (fill_start name sz t)))"
  note S = start_fields [where name = name and sz = sz and t = t]
  have l: "length (fill_linkname link (fill_linkflag flag (fill_start name sz t))) = 512"
    using S(1) by (simp add: fill_linkname_def fill_linkflag_def)
  have len: "length c = 512"
    using l by (simp add: c_def)
  have f: "field off n c = field off n (fill_linkname link (fill_linkflag flag (fill_start name sz t)))"
    if "off + n \<le> 257 \<or> 500 \<le> off \<and> off + n \<le> 512" for off n
    using before_chksum_field [OF l that] by (simp add: c_def)
  have zeros: "field 500 12 c = replicate 12 0"
    using S(1,4) by (simp add: f fill_linkname_def fill_linkflag_def field_put_other)
  have flag: "field 156 (Suc 0) c = [flag]"
    using S(1,4) by (simp add: f fill_linkname_def fill_linkflag_def field_put_other field_put)
  have c156: "c ! 156 = flag"
    by (rule nth_field) (simp_all add: len flag)
  have b: "b = fill_chksum c"
    using assms(3) by (simp add: fill_rest_eq c_def)
  have g: "field off n b = field off n c" if "off + n \<le> 148 \<or> 156 \<le> off \<and> off + n \<le> 512" for off n
    unfolding b by (rule fill_chksum_field [OF len zeros that])
  have "field 0 100 b = take 100 name @ replicate (100 - length name) 0"
    using S(1,2) by (simp add: g f fill_linkname_def fill_linkflag_def field_put_other)
  moreover have "field 124 12 b = (if sz \<le> max_octal_size then print_octal 12 11 sz else 0x80 # base256 11 sz [])"
    using S(1,3) by (simp add: g f fill_linkname_def fill_linkflag_def field_put_other)
  moreover have "field 157 100 b = link @ replicate (100 - length link) 0"
    using S(1,4) assms(1) by (simp add: g f fill_linkname_def fill_linkflag_def field_put_other field_put)
  moreover have "b ! 156 = flag"
    by (rule nth_field) (simp_all add: b fill_chksum_length [OF len zeros] flag fill_chksum_field [OF len zeros])
  moreover have "tar_checksum b = Check_valid"
    using checksum_valid [OF len zeros] c156 assms(2) b by simp
  ultimately show ?thesis
    using fill_chksum_length [OF len zeros] b by (simp add: block_holds_fields_def)
qed

section \<open>Reading it back\<close>

lemma text_field:
  assumes "field off 100 b = t @ replicate (100 - length t) 0" and "0 \<notin> set t" and "length t < 100"
  shows "read_text off b = Some t"
proof -
  obtain k where k: "100 - length t = Suc k"
    using assms(3) by (metis Suc_diff_Suc)
  have "takeWhile (\<lambda>x. x \<noteq> 0) (t @ replicate (100 - length t) 0) = t"
    unfolding k using assms(2) by (simp add: takeWhile_append)
  moreover have "0 \<in> set (field off 100 b)"
    unfolding assms(1) k by simp
  ultimately show ?thesis
    using c_string_field [of off 100 b] assms(1,3) by (simp add: read_text_def)
qed

lemma octal_size:
  assumes b: "block_holds_fields b name sz flag link" and sz: "sz \<le> max_octal_size"
  shows "\<exists>s. c_string (drop 124 b) = Some s \<and> stoull8 s = Some sz" and "(b ! 124) AND 0x80 = 0"
proof -
  have small: "sz < 8 ^ 11"
    using sz by (simp add: max_octal_size_def)
  have f: "field 124 12 b = print_octal 12 11 sz"
    using b sz by (simp add: block_holds_fields_def)
  have z: "0 \<in> set (field 124 12 b)"
    unfolding f using printed(1) [OF small, of 12] by simp
  have "scan_octal (takeWhile (\<lambda>x. x \<noteq> 0) (print_octal 12 11 sz)) = Some (False, sz)"
    using printed(2) [OF small, of 12 "[]"] by simp
  moreover have "sz < 2 ^ 64"
    using small by simp
  ultimately show "\<exists>s. c_string (drop 124 b) = Some s \<and> stoull8 s = Some sz"
    using c_string_field [OF z] by (simp add: f stoull8_def)
  have len: "length b = 512"
    using b by (simp add: block_holds_fields_def)
  let ?ds = "replicate (11 - length (octal sz)) 48 @ octal sz"
  have p: "print_octal 12 11 sz = ?ds @ [0]"
    using print_octal_fits [OF small, of 12] by simp
  have "b ! 124 = field 124 12 b ! 0"
    using len by (simp add: field_def)
  also have "\<dots> = hd ?ds"
    using octal_nonempty unfolding f p by (simp add: hd_conv_nth nth_append)
  finally have "octal_digit (b ! 124)"
    using octal_set [of "hd ?ds" sz] octal_nonempty [of sz] hd_in_set [of ?ds] by (auto simp: octal_digit_def)
  then have "b ! 124 \<le> 55"
    by (simp add: octal_digit_def)
  then have "unat (b ! 124) < 2 ^ 7"
    by (simp add: word_le_nat_alt)
  then have "unat (take_bit 7 (b ! 124)) = unat (b ! 124)"
    by (simp add: unsigned_take_bit_eq take_bit_nat_eq_self)
  then have "take_bit 7 (b ! 124) = b ! 124"
    by (simp only: word_unat_eq_iff)
  then have "\<not> bit (b ! 124) 7"
    using bit_take_bit_iff [of 7 "b ! 124" 7] by simp
  moreover have "bit (0x80 :: byte) n \<longleftrightarrow> n = 7" for n
  proof -
    have e: "(0x80 :: byte) = push_bit 7 1"
      by simp
    show ?thesis
      unfolding e by (simp only: bit_push_bit_iff bit_1_iff possible_bit_word) auto
  qed
  ultimately have "bit ((b ! 124) AND 0x80) n = bit (0 :: byte) n" for n
    by (auto simp only: bit_and_iff bit_0_eq)
  then show "(b ! 124) AND 0x80 = 0"
    by (rule bit_eqI)
qed

lemma read_size_written:
  assumes b: "block_holds_fields b name sz flag link" and sz: "sz < 2 ^ 64"
  shows "read_size b = Header sz"
proof (cases "sz \<le> max_octal_size")
  case True
  then show ?thesis
    using octal_size [OF b True] by (auto simp: read_size_def)
next
  case False
  then have f: "field 124 12 b = 0x80 # base256 11 sz []" and len: "length b = 512"
    using b by (simp_all add: block_holds_fields_def)
  have "b ! 124 = field 124 12 b ! 0"
    using len by (simp add: field_def)
  then have first: "b ! 124 = 0x80"
    by (simp add: f)
  have "take 11 (drop 125 b) = tl (field 124 12 b)"
    using len drop_Suc [of 124 b] by (simp add: field_def tl_take tl_drop)
  then have rest: "take 11 (drop 125 b) = base256 11 sz []"
    by (simp add: f)
  have "foldl (\<lambda>v x. (v * 256 + unat x) mod 2 ^ 64) 0 (base256 11 sz []) = sz mod 256 ^ 11 mod 2 ^ 64"
    using foldl_mod [where f = unat and M = "2 ^ 64" and a = 0 and xs = "base256 11 sz []"] base256_value [of 11 sz] by simp
  also have "\<dots> = sz"
    using sz by simp
  finally show ?thesis
    unfolding read_size_def first rest by simp
qed

lemma read_block_at:
  assumes "sm_ok s" and "drop (sm_get s) (sm_data s) = b @ rest" and "length b = 512"
  shows "read_block s = (s\<lparr>sm_get := sm_get s + 512\<rparr>, b)"
  using assms by (simp add: read_block_def)

lemma stream_written:
  assumes "stream_write bs s = s'" and "sm_ok s'"
  shows "sm_ok s" and "sm_pos s' = sm_pos s + length bs" and "drop (sm_pos s) (sm_data s') = bs @ drop (sm_pos s + length bs) (sm_data s)"
  using assms by (auto simp: stream_write_def split: if_splits)

text \<open>Reading from where a data header and the blocks before it were written.\<close>

lemma read_data_written:
  assumes b: "block_holds_fields b name sz flag (case link of None \<Rightarrow> [] | Some l \<Rightarrow> l)"
    and link: "case link of None \<Rightarrow> flag = 48 | Some l \<Rightarrow> flag = 50 \<and> 0 \<notin> set l \<and> length l < 100" and sz: "sz < 2 ^ 64"
  shows "read_data_header is block_begin nm b =
    (seekg (round_up_to_block_size (tellg is + stream_off sz)) is,
     Header \<lparr>th_name = nm, th_size = sz, th_link = link, th_mtime = 0, th_block_begin = block_begin,
       th_block_end = tellg is, th_data_begin = tellg is, th_data_end = tellg is + stream_off sz\<rparr>)"
proof -
  have "(if b ! 156 = 50 then map_option Some (read_text 157 b) else Some None) = Some link"
  proof (cases link)
    case None
    then show ?thesis
      using b link by (simp add: block_holds_fields_def)
  next
    case (Some l)
    then have "read_text 157 b = Some l"
      using b link by (intro text_field) (simp_all add: block_holds_fields_def)
    then show ?thesis
      using b link Some by (simp add: block_holds_fields_def)
  qed
  then show ?thesis
    by (simp add: read_data_header_def read_size_written [OF b sz] Let_def)
qed

text \<open>A stream that holds what was written and whose reader stands at a place.\<close>

definition reads_from :: "stream \<Rightarrow> nat \<Rightarrow> stream \<Rightarrow> bool" where
  "reads_from s' p r \<longleftrightarrow> sm_ok r \<and> sm_data r = sm_data s' \<and> sm_get r = p"

definition link_ok :: "byte list option \<Rightarrow> bool" where
  "link_ok link \<longleftrightarrow> (case link of None \<Rightarrow> True | Some l \<Rightarrow> 0 \<notin> set l)"

text \<open>The blocks a header writes: the long name's, if it has one, and the data header.\<close>

lemma constructed:
  assumes "construct_header now h0 = Some (h, block)"
  obtains b flag where
    "h = h0\<lparr>th_mtime := now\<rparr>"
    "block = (if is_long_name h then construct_long_name h else []) @ b"
    "block_holds_fields b (th_name h) (th_size h) flag (case th_link h of None \<Rightarrow> [] | Some l \<Rightarrow> l)"
    "case th_link h of None \<Rightarrow> flag = 48 | Some l \<Rightarrow> flag = 50 \<and> length l < 100"
proof -
  define link where "link = (case th_link h0 of None \<Rightarrow> [] | Some l \<Rightarrow> l)"
  define flag :: byte where "flag = (case th_link h0 of None \<Rightarrow> 48 | Some l \<Rightarrow> 50)"
  define b where "b = fill_rest (fill_linkname link (fill_linkflag flag (fill_linkname [] (fill_start (th_name h0) (th_size h0) now))))"
  have h: "h = h0\<lparr>th_mtime := now\<rparr>" and block: "block = (if is_long_name h then construct_long_name h else []) @ b"
    and len: "length link < 100"
    using assms by (auto simp: construct_header_def Let_def b_def link_def flag_def split: option.splits if_splits)
  have "fill_linkname [] (fill_start (th_name h0) (th_size h0) now) = fill_start (th_name h0) (th_size h0) now"
    using start_fields(1) [where name = "th_name h0" and sz = "th_size h0" and t = now] by (simp add: fill_linkname_def)
  then have "block_holds_fields b (th_name h0) (th_size h0) flag link"
    by (intro finished_block [OF len]) (simp_all add: b_def flag_def split: option.splits)
  then show thesis
    using len h block by (intro that [of b flag]) (auto simp: link_def flag_def split: option.splits)
qed

lemma long_name_blocks:
  obtains b where "construct_long_name h = b @ th_name h @ replicate (512 * name_blocks (th_name h) - length (th_name h)) 0"
    "block_holds_fields b long_link (length (th_name h)) 76 []"
proof -
  define b where "b = fill_rest (fill_linkname [] (fill_linkflag 76 (fill_start long_link (length (th_name h)) (th_mtime h))))"
  have "block_holds_fields b long_link (length (th_name h)) 76 []"
    by (rule finished_block) (simp_all add: b_def)
  then show thesis
    using that [of b] by (simp add: construct_long_name_def b_def)
qed

lemma name_blocks_bounds: "length name \<le> 512 * name_blocks name" "512 * name_blocks name < length name + 512"
proof -
  have "length name + 511 = 512 * name_blocks name + (length name + 511) mod 512"
    by (simp add: name_blocks_def)
  moreover have "(length name + 511) mod 512 < 512"
    by simp
  ultimately show "length name \<le> 512 * name_blocks name" "512 * name_blocks name < length name + 512"
    by linarith+
qed

lemma valid_block [simp]: "block_holds_fields b name sz flag link \<Longrightarrow> fail_check (tar_checksum b) = None"
  and flag_block: "block_holds_fields b name sz flag link \<Longrightarrow> b ! 156 = flag"
  and length_block: "block_holds_fields b name sz flag link \<Longrightarrow> length b = 512"
  by (simp_all add: block_holds_fields_def fail_check_def)

lemma written:
  assumes "write_header now h0 s = Some (h, s', True)"
  obtains h1 block where "construct_header now h0 = Some (h1, block)" "stream_write block s = s'" "sm_ok s'"
    "h = h1\<lparr>th_block_begin := tell s, th_block_end := tell s', th_data_begin := tell s', th_data_end := tell s' + stream_off (th_size h1)\<rparr>"
  using assms by (auto simp: write_header_def Let_def split: option.splits)

lemma written_header:
  assumes "write_header now h0 s = Some (h, s', True)"
  shows "h = h0\<lparr>th_mtime := now, th_block_begin := int (sm_pos s), th_block_end := int (sm_pos s'),
    th_data_begin := int (sm_pos s'), th_data_end := int (sm_pos s') + stream_off (th_size h0)\<rparr>"
proof -
  obtain h1 block where W: "construct_header now h0 = Some (h1, block)" "stream_write block s = s'" "sm_ok s'"
    "h = h1\<lparr>th_block_begin := tell s, th_block_end := tell s', th_data_begin := tell s', th_data_end := tell s' + stream_off (th_size h1)\<rparr>"
    using written [OF assms] by blast
  then show ?thesis
    using stream_written(1) [OF W(2,3)] by (elim constructed) (simp add: tell_def)
qed

lemma write_header_good: "write_header now h0 s = Some (h, s', True) \<Longrightarrow> sm_ok s'"
  by (elim written)

lemma write_header_within: "write_header now h0 s = Some (h, s', True) \<Longrightarrow> sm_pos s' \<le> sm_limit s"
  by (elim written) (auto simp: stream_write_def split: if_splits)

lemma read_short:
  assumes w: "write_header now h0 s = Some (h, s', True)" and name: "0 \<notin> set (th_name h0)" "length (th_name h0) < 100"
    and sz: "th_size h0 < 2 ^ 64" and link: "link_ok (th_link h0)" and r: "reads_from s' (sm_pos s) r"
  shows "read_header r = (seekg (round_up_to_block_size (th_data_end h)) (r\<lparr>sm_get := sm_pos s'\<rparr>), Header (h\<lparr>th_mtime := 0\<rparr>))"
proof -
  obtain h1 block where W: "construct_header now h0 = Some (h1, block)" "stream_write block s = s'" "sm_ok s'"
    "h = h1\<lparr>th_block_begin := tell s, th_block_end := tell s', th_data_begin := tell s', th_data_end := tell s' + stream_off (th_size h1)\<rparr>"
    using written [OF w] by blast
  obtain b flag where C: "h1 = h0\<lparr>th_mtime := now\<rparr>" "block = (if is_long_name h1 then construct_long_name h1 else []) @ b"
    "block_holds_fields b (th_name h1) (th_size h1) flag (case th_link h1 of None \<Rightarrow> [] | Some l \<Rightarrow> l)"
    "case th_link h1 of None \<Rightarrow> flag = 48 | Some l \<Rightarrow> flag = 50 \<and> length l < 100"
    using constructed [OF W(1)] by blast
  have block: "block = b"
    using C(1,2) name(2) by (simp add: is_long_name_def)
  note L = stream_written [OF W(2,3), unfolded block]
  have b: "length b = 512"
    using C(3) length_block by blast
  define r1 where "r1 = r\<lparr>sm_get := sm_pos s'\<rparr>"
  have read: "read_block r = (r1, b)"
    using read_block_at [of r b] r L b by (simp add: reads_from_def r1_def)
  have "field 0 100 b = th_name h0 @ replicate (100 - length (th_name h0)) 0"
    using C(1,3) name(2) by (simp add: block_holds_fields_def)
  then have nm: "read_text 0 b = Some (th_name h0)"
    by (rule text_field) (rule name)+
  have tells: "tellg r1 = tell s'" "tell s' - 512 = tell s"
    using W(3) L(1,2) b r by (simp_all add: tell_def tellg_def r1_def reads_from_def)
  have "b ! 156 \<noteq> 76"
    using flag_block [OF C(3)] C(4) by (auto split: option.splits)
  then have "read_header r = read_data_header r1 (tell s) (th_name h0) b"
    using C(3) nm b tells by (simp add: read_header_def read)
  also have "\<dots> = (seekg (round_up_to_block_size (tell s' + stream_off (th_size h1))) r1,
     Header \<lparr>th_name = th_name h0, th_size = th_size h1, th_link = th_link h1, th_mtime = 0, th_block_begin = tell s,
       th_block_end = tell s', th_data_begin = tell s', th_data_end = tell s' + stream_off (th_size h1)\<rparr>)"
    using C(1,4) sz link by (subst read_data_written [OF C(3)]) (auto simp: link_ok_def tells split: option.splits)
  finally show ?thesis
    using W(4) C(1) by (simp add: r1_def)
qed

lemma read_long:
  assumes w: "write_header now h0 s = Some (h, s', True)" and name: "100 \<le> length (th_name h0)"
    and small: "length (th_name h0) < 2 ^ 32" and sz: "th_size h0 < 2 ^ 64" and link: "link_ok (th_link h0)" and r: "reads_from s' (sm_pos s) r"
  shows "length (th_name h0) \<le> 512 \<Longrightarrow>
      read_header r = (seekg (round_up_to_block_size (th_data_end h)) (r\<lparr>sm_get := sm_pos s'\<rparr>), Header (h\<lparr>th_mtime := 0\<rparr>))"
    and "512 < length (th_name h0) \<Longrightarrow> snd (read_header r) = Overrun"
proof -
  let ?n = "length (th_name h0)"
  obtain h1 block where W: "construct_header now h0 = Some (h1, block)" "stream_write block s = s'" "sm_ok s'"
    "h = h1\<lparr>th_block_begin := tell s, th_block_end := tell s', th_data_begin := tell s', th_data_end := tell s' + stream_off (th_size h1)\<rparr>"
    using written [OF w] by blast
  obtain b flag where C: "h1 = h0\<lparr>th_mtime := now\<rparr>" "block = (if is_long_name h1 then construct_long_name h1 else []) @ b"
    "block_holds_fields b (th_name h1) (th_size h1) flag (case th_link h1 of None \<Rightarrow> [] | Some l \<Rightarrow> l)"
    "case th_link h1 of None \<Rightarrow> flag = 48 | Some l \<Rightarrow> flag = 50 \<and> length l < 100"
    using constructed [OF W(1)] by blast
  obtain lb where LB: "construct_long_name h1 = lb @ th_name h1 @ replicate (512 * name_blocks (th_name h1) - length (th_name h1)) 0"
    "block_holds_fields lb long_link (length (th_name h1)) 76 []"
    by (rule long_name_blocks)
  define padded where "padded = th_name h0 @ replicate (512 * name_blocks (th_name h0) - ?n) 0"
  have block: "block = lb @ padded @ b"
    using C(1,2) LB(1) name by (simp add: is_long_name_def padded_def)
  note L = stream_written [OF W(2,3), unfolded block]
  have b: "length b = 512" "length lb = 512"
    using length_block [OF C(3)] length_block [OF LB(2)] by blast+
  note N = name_blocks_bounds [of "th_name h0"]
  have padded: "length padded = 512 * name_blocks (th_name h0)"
    using N by (simp add: padded_def)
  then have pos: "sm_pos s' = sm_pos s + 512 + 512 * name_blocks (th_name h0) + 512"
    using L(2) b by simp
  define is1 where "is1 = r\<lparr>sm_get := sm_pos s + 512\<rparr>"
  have read1: "read_block r = (is1, lb)"
    using read_block_at [of r lb] r L(3) b by (simp add: reads_from_def is1_def)
  have data1: "drop (sm_get is1) (sm_data is1) = padded @ b @ drop (sm_pos s + length block) (sm_data s)"
    using arg_cong [OF L(3), of "drop 512"] b(2) block r by (simp add: is1_def reads_from_def add.commute)
  have bpos: "tellg is1 - 512 = tell s"
    using r L(1) by (simp add: tell_def tellg_def is1_def reads_from_def)
  have n_small: "?n \<le> max_octal_size"
    using small by (simp add: max_octal_size_def)
  then obtain str where str: "c_string (drop 124 lb) = Some str" "stoull8 str = Some ?n"
    using octal_size(1) [OF LB(2)] C(1) by auto
  have start: "read_header r = read_long_name is1 (tell s) lb"
    using LB(2) flag_block [OF LB(2)] b bpos by (simp add: read_header_def read1)
  have big: "\<not> 2 ^ 63 \<le> ?n"
    using small by simp
  define nb where "nb = take 512 padded"
  have nb_len: "length nb = 512"
    using padded name N by (simp add: nb_def)
  define is2 where "is2 = r\<lparr>sm_get := sm_pos s + 1024\<rparr>"
  have read2: "read_block is1 = (is2, nb)"
    using read_block_at [of is1 nb "drop 512 padded @ b @ drop (sm_pos s + length block) (sm_data s)"] r data1 nb_len
    by (simp add: is1_def is2_def nb_def reads_from_def)
  show "512 < ?n \<Longrightarrow> snd (read_header r) = Overrun"
    using start big nb_len by (simp add: read_long_name_def str read2)
  assume n: "?n \<le> 512"
  have one: "name_blocks (th_name h0) = 1"
    using N n name by linarith
  have nb: "nb = padded"
    using padded one by (simp add: nb_def)
  define r1 where "r1 = r\<lparr>sm_get := sm_pos s'\<rparr>"
  have pos2: "sm_pos s' = sm_pos s + 1024 + 512"
    using pos one by simp
  have "drop (sm_get is2) (sm_data is2) = b @ drop (sm_pos s + length block) (sm_data s)"
    using arg_cong [OF data1, of "drop 512"] nb nb_len by (simp add: is1_def is2_def add.commute)
  then have read3: "read_block is2 = (r1, b)"
    using read_block_at [of is2 b] r b pos2 by (simp add: is2_def r1_def reads_from_def)
  have tells: "tellg r1 = tell s'"
    using W(3) r by (simp add: tell_def tellg_def r1_def reads_from_def)
  have "take ?n nb = th_name h0"
    by (simp add: nb padded_def)
  then have "read_header r = read_data_header r1 (tell s) (th_name h0) b"
    using start big n nb_len b C(3) by (simp add: read_long_name_def str read2 read3)
  also have "\<dots> = (seekg (round_up_to_block_size (tell s' + stream_off (th_size h1))) r1,
     Header \<lparr>th_name = th_name h0, th_size = th_size h1, th_link = th_link h1, th_mtime = 0, th_block_begin = tell s,
       th_block_end = tell s', th_data_begin = tell s', th_data_end = tell s' + stream_off (th_size h1)\<rparr>)"
    using C(1,4) sz link by (subst read_data_written [OF C(3)]) (auto simp: link_ok_def tells split: option.splits)
  finally show "read_header r = (seekg (round_up_to_block_size (th_data_end h)) (r\<lparr>sm_get := sm_pos s'\<rparr>), Header (h\<lparr>th_mtime := 0\<rparr>))"
    using W(4) C(1) by (simp add: r1_def)
qed

end
