(* ===== verification/Tar_File.thy ===== *)
theory Tar_File
  imports Tar_Roundtrip
begin

text \<open>
  The tar file of a compiled model, from \<open>tar_file.cpp\<close> and \<open>tar_entry.cpp\<close>: its entries,
  read when it is opened; a file opened for reading; and the one writer, which stores the
  bytes of a file once under the name of their MD5 sum, aligned to 4 KiB, and the file's own
  name as a symbolic link to them.

  The stream keeps a put and a get position, as \<open>FileStream\<close> does.  The get position is followed
  while a file is opened, where each header is read behind the one before; after that every
  reader seeks first, so the position a read leaves is not kept.  The MD5 sum is the parameter \<open>md5\<close>,
  the time of day the parameter \<open>now\<close>.  A function that need not return, by a recursion on
  links that form a cycle or a loop that waits for a failed stream, is a
  \<open>partial_function\<close>, and a failed \<open>CHECK\<close> is \<open>None\<close> like a call that does not return.
\<close>

section \<open>Entries\<close>

record entry =
  en_path :: "byte list"
  en_link :: "byte list option"
  en_data_begin :: int
  en_data_end :: int
  en_block_begin :: int
  en_block_end :: int

record tar_file =
  tf_stream :: stream
  tf_entries :: "entry list"
  tf_writing :: bool
  tf_padding :: nat
  tf_mapped :: bool

definition is_symlink :: "entry \<Rightarrow> bool" where
  "is_symlink e \<longleftrightarrow> en_link e \<noteq> None"

text \<open>The size of an entry's data; a negative one is a failed \<open>CHECK\<close>.\<close>

definition entry_size :: "entry \<Rightarrow> nat option" where
  "entry_size e = (let n = en_data_end e - en_data_begin e in if n \<ge> 0 then Some (nat n) else None)"

definition has_file :: "tar_file \<Rightarrow> byte list \<Rightarrow> bool" where
  "has_file tf filename = list_ex (\<lambda>e. en_path e = filename) (tf_entries tf)"

definition remove_duplicate_entry :: "byte list \<Rightarrow> tar_file \<Rightarrow> tar_file" where
  "remove_duplicate_entry path tf = tf\<lparr>tf_entries := filter (\<lambda>e. en_path e \<noteq> path) (tf_entries tf)\<rparr>"

definition add_entry :: "entry \<Rightarrow> tar_file \<Rightarrow> tar_file" where
  "add_entry e tf = tf\<lparr>tf_entries := tf_entries tf @ [e]\<rparr>"

definition add_regular_entry :: "byte list \<Rightarrow> int \<Rightarrow> int \<Rightarrow> int \<Rightarrow> int \<Rightarrow> tar_file \<Rightarrow> tar_file" where
  "add_regular_entry path data_begin data_end block_begin block_end tf =
     add_entry \<lparr>en_path = path, en_link = None, en_data_begin = data_begin, en_data_end = data_end,
       en_block_begin = block_begin, en_block_end = block_end\<rparr> (remove_duplicate_entry path tf)"

text \<open>The links followed from the last entry of a name; \<open>Some None\<close> is the null pointer.\<close>

partial_function (option) find_real_entry :: "entry list \<Rightarrow> byte list \<Rightarrow> entry option option" where
  "find_real_entry es real_path =
     (case find (\<lambda>e. en_path e = real_path) (rev es) of
        None \<Rightarrow> Some None
      | Some e \<Rightarrow> (case en_link e of None \<Rightarrow> Some (Some e) | Some l \<Rightarrow> find_real_entry es l))"

definition add_symlink_entry :: "byte list \<Rightarrow> byte list \<Rightarrow> int \<Rightarrow> int \<Rightarrow> tar_file \<Rightarrow> tar_file option" where
  "add_symlink_entry symlink_name real_path_name block_begin block_end tf =
     (let tf1 = remove_duplicate_entry symlink_name tf
      in case find_real_entry (tf_entries tf1) real_path_name of
           None \<Rightarrow> None
         | Some real_entry \<Rightarrow>
             let (data_begin, data_end) = (case real_entry of None \<Rightarrow> (-1, -1) | Some r \<Rightarrow> (en_data_begin r, en_data_end r))
             in Some (add_entry \<lparr>en_path = symlink_name, en_link = Some real_path_name, en_data_begin = data_begin,
                  en_data_end = data_end, en_block_begin = block_begin, en_block_end = block_end\<rparr> tf1))"

section \<open>Opening a tar file\<close>

definition padding_prefix :: "byte list" where
  "padding_prefix = text_bytes ''_data/padding_''"

definition is_padding_header :: "tar_header \<Rightarrow> bool" where
  "is_padding_header h \<longleftrightarrow> \<not> (\<exists>l. th_link h = Some l \<and> l \<noteq> []) \<and> th_size h = 0 \<and>
     (let n = min 14 (length (th_name h)) in take n (th_name h) = take n padding_prefix)"

partial_function (option) skip_padding :: "stream \<Rightarrow> (stream \<times> tar_header read_result) option" where
  "skip_padding s =
     (case read_header s of
        (s1, r) \<Rightarrow> (case r of Header h \<Rightarrow> if is_padding_header h then skip_padding s1 else Some (s1, r) | _ \<Rightarrow> Some (s1, r)))"

text \<open>Whether there was an entry; the end of the file clears the stream's flags.\<close>

definition read_tar_entry :: "tar_file \<Rightarrow> (tar_file \<times> bool read_result) option" where
  "read_tar_entry tf =
     (case skip_padding (tf_stream tf) of
        None \<Rightarrow> None
      | Some (s, r) \<Rightarrow>
          let tf1 = tf\<lparr>tf_stream := s\<rparr>
          in (case r of
                Header h \<Rightarrow>
                  (case th_link h of
                     None \<Rightarrow> Some (add_regular_entry (th_name h) (th_data_begin h) (th_data_end h) (th_block_begin h)
                       (th_block_end h) tf1, Header True)
                   | Some l \<Rightarrow> map_option (\<lambda>t. (t, Header True)) (add_symlink_entry (th_name h) l (th_block_begin h)
                       (th_block_end h) tf1))
              | No_header \<Rightarrow> Some (tf\<lparr>tf_stream := s\<lparr>sm_ok := True\<rparr>\<rparr>, Header False)
              | Exception \<Rightarrow> Some (tf1, Exception)
              | Overrun \<Rightarrow> Some (tf1, Overrun)))"

partial_function (option) read_entries :: "tar_file \<Rightarrow> tar_file read_result option" where
  "read_entries tf =
     (case read_tar_entry tf of
        None \<Rightarrow> None
      | Some (tf1, r) \<Rightarrow>
          (case r of Header there \<Rightarrow> if there then read_entries tf1 else Some (Header tf1)
           | No_header \<Rightarrow> Some No_header | Exception \<Rightarrow> Some Exception | Overrun \<Rightarrow> Some Overrun))"

definition open_tar :: "bool \<Rightarrow> stream \<Rightarrow> tar_file read_result option" where
  "open_tar mapped s =
     (if \<not> sm_ok (seekg 0 s) then None
      else read_entries \<lparr>tf_stream = seekg 0 s, tf_entries = [], tf_writing = False, tf_padding = 0, tf_mapped = mapped\<rparr>)"

text \<open>The size, and the whole file copied to a buffer of \<open>sz\<close> bytes: \<open>Some None\<close> is the refusal of
  a small buffer; a larger one than the file is a short read, a failed \<open>CHECK\<close>.\<close>

definition current_size :: "tar_file \<Rightarrow> nat option" where
  "current_size tf = (if sm_ok (tf_stream tf) then Some (length (sm_data (tf_stream tf))) else None)"

definition dump_to :: "tar_file \<Rightarrow> nat \<Rightarrow> byte list option option" where
  "dump_to tf sz =
     (case current_size tf of
        None \<Rightarrow> None
      | Some expected_size \<Rightarrow>
          if sz < expected_size then Some None
          else let got = take sz (sm_data (tf_stream tf)) in if length got < sz then None else Some (Some got))"

section \<open>Reading a file\<close>

text \<open>The read position of an entry's stream and the size of its buffer.\<close>

record reading =
  rd_entry :: entry
  rd_pos :: int
  rd_room :: nat

definition open_entry :: "entry \<Rightarrow> reading" where
  "open_entry e = \<lparr>rd_entry = e, rd_pos = en_block_begin e,
     rd_room = min (4 * 1024 * 1024) (nat (max 1 (en_data_end e - en_data_begin e)))\<rparr>"

text \<open>\<open>open_for_read\<close>: the first entry of the name, its link resolved on the first use.\<close>

definition open_for_read :: "tar_file \<Rightarrow> byte list \<Rightarrow> (tar_file \<times> reading option) option" where
  "open_for_read tf filename =
     (case find (\<lambda>e. en_path e = filename) (tf_entries tf) of
        None \<Rightarrow> Some (tf, None)
      | Some e \<Rightarrow>
          if en_data_begin e = -1 then
            (case find_real_entry (tf_entries tf) filename of
               None \<Rightarrow> None
             | Some None \<Rightarrow> Some (tf, None)
             | Some (Some r) \<Rightarrow>
                 let e1 = e\<lparr>en_data_begin := en_data_begin r, en_data_end := en_data_end r\<rparr>
                 in Some (tf\<lparr>tf_entries := map (\<lambda>x. if x = e then e1 else x) (tf_entries tf)\<rparr>,
                      Some ((open_entry e)\<lparr>rd_entry := e1, rd_pos := en_data_begin r\<rparr>)))
          else Some (tf, Some ((open_entry e)\<lparr>rd_pos := en_data_begin e\<rparr>)))"

text \<open>One refill: the bytes, none at the end; a failed seek or a short read is a failed \<open>CHECK\<close>.  The
  get position it leaves in the file's stream is not kept: whatever uses the stream next seeks first.\<close>

definition underflow :: "stream \<Rightarrow> reading \<Rightarrow> (reading \<times> byte list) option" where
  "underflow s r =
     (if rd_pos r \<ge> en_data_end (rd_entry r) then Some (r, [])
      else if \<not> sm_ok (seekg (rd_pos r) s) then None
      else
        let read_size = min (rd_room r) (nat (en_data_end (rd_entry r) - rd_pos r));
            got = take read_size (drop (nat (rd_pos r)) (sm_data s))
        in if length got \<noteq> read_size then None else Some (r\<lparr>rd_pos := rd_pos r + int (length got)\<rparr>, got))"

datatype seek_way = From_begin | From_current | From_end

text \<open>\<open>seekoff\<close>; \<open>unread\<close> is how much of the buffer was taken.\<close>

definition seekoff :: "int \<Rightarrow> seek_way \<Rightarrow> int \<Rightarrow> reading \<Rightarrow> reading \<times> int" where
  "seekoff offset way taken r =
     (let pos = (case way of
            From_begin \<Rightarrow> en_data_begin (rd_entry r) + offset
          | From_current \<Rightarrow> rd_pos r + taken + offset
          | From_end \<Rightarrow> en_data_end (rd_entry r) + offset)
      in (r\<lparr>rd_pos := pos\<rparr>, pos - en_data_begin (rd_entry r)))"

function read_rest :: "stream \<Rightarrow> reading \<Rightarrow> byte list option" where
  "read_rest s r =
     (case underflow s r of
        None \<Rightarrow> None
      | Some (r1, got) \<Rightarrow> if got = [] then Some [] else map_option (\<lambda>rest. got @ rest) (read_rest s r1))"
  by pat_completeness auto
termination
proof (relation "measure (\<lambda>(s, r). nat (en_data_end (rd_entry r) - rd_pos r))")
  fix s r x r1 got
  assume "underflow s r = Some x" and "(r1, got) = x" and "got \<noteq> []"
  then show "((s, r1), (s, r)) \<in> measure (\<lambda>(s, r). nat (en_data_end (rd_entry r) - rd_pos r))"
    by (auto simp: underflow_def Let_def split: if_splits)
qed simp

declare read_rest.simps [simp del]

section \<open>Writing a file\<close>

record writer =
  wr_name :: "byte list"
  wr_begin :: int

definition append_pos :: "entry \<Rightarrow> int" where
  "append_pos last_entry =
     (let end_pos = (if is_symlink last_entry then en_block_end last_entry else en_data_end last_entry);
          padding = (if end_pos mod 512 \<noteq> 0 then 512 - end_pos mod 512 else 0)
      in end_pos + padding + 512)"

text \<open>\<open>std::to_string\<close>.\<close>

fun decimal :: "nat \<Rightarrow> byte list" where
  "decimal n = (if n < 10 then [word_of_nat (48 + n)] else decimal (n div 10) @ [word_of_nat (48 + n mod 10)])"

declare decimal.simps [simp del]

definition data_name :: "byte list \<Rightarrow> byte list" where
  "data_name hash = text_bytes ''_data/'' @ hash"

definition add_padding_block :: "nat \<Rightarrow> stream \<Rightarrow> nat \<Rightarrow> stream option" where
  "add_padding_block now s k =
     map_option (\<lambda>(h, s1, _). s1) (write_header now (make_header (padding_prefix @ decimal k) 0) s)"

text \<open>Blocks up to the next multiple of 4 KiB; the position of a stream that is not good is \<open>-1\<close>.\<close>

partial_function (option) align_4k :: "nat \<Rightarrow> stream \<Rightarrow> nat \<Rightarrow> (stream \<times> nat) option" where
  "align_4k now s k =
     (if tell s mod 4096 = 0 then Some (s, k)
      else case add_padding_block now s k of None \<Rightarrow> None | Some s1 \<Rightarrow> align_4k now s1 (k + 1))"

definition maybe_add_4k_align :: "nat \<Rightarrow> tar_file \<Rightarrow> tar_file option" where
  "maybe_add_4k_align now tf =
     (let s = seek (tell (tf_stream tf) - 512) (tf_stream tf)
      in if \<not> sm_ok s then None
         else (case add_padding_block now s (tf_padding tf) of
                 None \<Rightarrow> None
               | Some s1 \<Rightarrow>
                   (case align_4k now s1 (tf_padding tf + 1) of
                      None \<Rightarrow> None
                    | Some (s2, k) \<Rightarrow> Some (tf\<lparr>tf_stream := s2, tf_padding := k\<rparr>))))"

text \<open>\<open>TarEntryOutputStream::create\<close>.\<close>

definition create_writer :: "nat \<Rightarrow> tar_file \<Rightarrow> byte list \<Rightarrow> (tar_file \<times> writer option) option" where
  "create_writer now tf name =
     (if tf_writing tf then Some (tf, None)
      else
        let tf1 = tf\<lparr>tf_writing := True\<rparr>; zeros = replicate 1024 0;
            s1 = (if tf_entries tf = [] then stream_write zeros (tf_stream tf) else tf_stream tf);
            begin_pos = (if tf_entries tf = [] then 512 else append_pos (last (tf_entries tf)));
            s2 = seek begin_pos s1; s3 = stream_write zeros s2; s4 = seek begin_pos s3
        in if \<not> sm_ok s1 then Some (tf1\<lparr>tf_stream := s1\<rparr>, None)
           else if \<not> sm_ok s2 then Some (tf1\<lparr>tf_stream := s2\<rparr>, None)
           else if \<not> sm_ok s3 then Some (tf1\<lparr>tf_stream := s3\<rparr>, None)
           else if \<not> sm_ok s4 then Some (tf1\<lparr>tf_stream := s4\<rparr>, None)
           else (case maybe_add_4k_align now (tf1\<lparr>tf_stream := s4\<rparr>) of
                   None \<Rightarrow> None
                 | Some tf2 \<Rightarrow> Some (tf2, Some \<lparr>wr_name = name, wr_begin = tell (tf_stream tf2)\<rparr>)))"

definition open_for_write :: "nat \<Rightarrow> tar_file \<Rightarrow> byte list \<Rightarrow> (tar_file \<times> writer option) option" where
  "open_for_write now tf name = (if tf_mapped tf then Some (tf, None) else create_writer now tf name)"

definition calculate_md5 :: "(byte list \<Rightarrow> byte list) \<Rightarrow> stream \<Rightarrow> int \<Rightarrow> int \<Rightarrow> byte list" where
  "calculate_md5 md5 s begin_pos sz =
     (let got = take (nat sz) (drop (nat begin_pos) (sm_data s)) in if length got = nat sz then md5 got else [])"

text \<open>The padding and the sum: the end of the data's blocks, the data's size and the sum; no sum for a failed stream.\<close>

definition get_content_check_sum ::
  "(byte list \<Rightarrow> byte list) \<Rightarrow> writer \<Rightarrow> stream \<Rightarrow> (stream \<times> (int \<times> nat \<times> byte list) option) option"
where
  "get_content_check_sum md5 w s =
     (let current = tell s; s1 = seek (wr_begin w) s
      in if \<not> sm_ok s1 then Some (s1, None)
         else
           let sz = current - wr_begin w; padding = round_up_to_block_size sz - sz;
               s2 = (if padding > 0 then stream_write (replicate (nat padding) 0) (seek current s1) else s1);
               end_pos = (if padding > 0 then tell s2 else current)
           in if \<not> sm_ok s2 then None
              else Some (seek end_pos s2, Some (end_pos, nat sz, calculate_md5 md5 s2 (wr_begin w) sz)))"

definition find_prev_entry :: "tar_file \<Rightarrow> byte list \<Rightarrow> entry option" where
  "find_prev_entry tf path = find (\<lambda>e. en_path e = path) (tf_entries tf)"

text \<open>The writer's name as a link to the data's, written where the stream is.\<close>

definition add_link :: "nat \<Rightarrow> writer \<Rightarrow> byte list \<Rightarrow> tar_file \<Rightarrow> tar_file option" where
  "add_link now w target tf =
     (case write_header now ((make_header (wr_name w) 0)\<lparr>th_link := Some target\<rparr>) (tf_stream tf) of
        None \<Rightarrow> None
      | Some (h, s, _) \<Rightarrow> add_symlink_entry (wr_name w) target (th_block_begin h) (th_block_end h) (tf\<lparr>tf_stream := s\<rparr>))"

definition add_entry_for_new_data :: "nat \<Rightarrow> writer \<Rightarrow> int \<Rightarrow> nat \<Rightarrow> byte list \<Rightarrow> tar_file \<Rightarrow> tar_file option" where
  "add_entry_for_new_data now w end_pos sz hash tf =
     (let s = seek (wr_begin w - 512) (tf_stream tf)
      in if \<not> sm_ok s then None
         else (case write_header now (make_header (data_name hash) sz) s of
                 None \<Rightarrow> None
               | Some (h, s1, _) \<Rightarrow>
                   add_link now w (data_name hash)
                     (add_regular_entry (data_name hash) (th_data_begin h) (th_data_end h) (th_block_begin h) (th_block_end h)
                       (tf\<lparr>tf_stream := seek end_pos s1\<rparr>))))"

definition add_symlink_for_existing_entry :: "nat \<Rightarrow> writer \<Rightarrow> byte list \<Rightarrow> tar_file \<Rightarrow> tar_file option" where
  "add_symlink_for_existing_entry now w hash tf =
     (let s = seek (wr_begin w - 512) (tf_stream tf)
      in if \<not> sm_ok s then Some (tf\<lparr>tf_stream := s\<rparr>) else add_link now w (data_name hash) (tf\<lparr>tf_stream := s\<rparr>))"

definition add_1024_padding :: "tar_file \<Rightarrow> tar_file" where
  "add_1024_padding tf = tf\<lparr>tf_stream := stream_write (replicate 1024 0) (tf_stream tf)\<rparr>"

text \<open>The writer's flags die with it: the stream of the file was good when the writer was made.\<close>

definition leave_writer :: "tar_file \<Rightarrow> tar_file" where
  "leave_writer tf = tf\<lparr>tf_stream := (tf_stream tf)\<lparr>sm_ok := True\<rparr>\<rparr>"

text \<open>The destructor.\<close>

definition close_writer :: "(byte list \<Rightarrow> byte list) \<Rightarrow> nat \<Rightarrow> writer \<Rightarrow> tar_file \<Rightarrow> tar_file option" where
  "close_writer md5 now w tf =
     (let tf0 = tf\<lparr>tf_writing := False\<rparr>
      in case get_content_check_sum md5 w (tf_stream tf) of
           None \<Rightarrow> None
         | Some (s, None) \<Rightarrow> Some (leave_writer (tf0\<lparr>tf_stream := s\<rparr>))
         | Some (s, Some (end_pos, sz, hash)) \<Rightarrow>
             let tf1 = tf0\<lparr>tf_stream := s\<rparr>;
                 same_data = (find_prev_entry tf1 (data_name hash) \<noteq> None);
                 same_path = (find_prev_entry tf1 (wr_name w) \<noteq> None)
             in map_option (leave_writer \<circ> add_1024_padding)
                  (if \<not> same_data then add_entry_for_new_data now w end_pos sz hash tf1
                   else if \<not> same_path then add_symlink_for_existing_entry now w hash tf1
                   else let s1 = seek (wr_begin w - 512) s in if sm_ok s1 then Some (tf1\<lparr>tf_stream := s1\<rparr>) else None))"

text \<open>A whole write: open, put the bytes, close; and a whole read.\<close>

definition write_file :: "(byte list \<Rightarrow> byte list) \<Rightarrow> nat \<Rightarrow> tar_file \<Rightarrow> byte list \<Rightarrow> byte list \<Rightarrow> tar_file option" where
  "write_file md5 now tf name content =
     (case open_for_write now tf name of
        Some (tf1, Some w) \<Rightarrow> close_writer md5 now w (tf1\<lparr>tf_stream := stream_write content (tf_stream tf1)\<rparr>)
      | _ \<Rightarrow> None)"

definition read_file :: "tar_file \<Rightarrow> byte list \<Rightarrow> byte list option" where
  "read_file tf name =
     (case open_for_read tf name of
        Some (tf1, Some r) \<Rightarrow> read_rest (tf_stream tf1) r
      | _ \<Rightarrow> None)"

end
