(* ===== verification/Tar_Scan.thy ===== *)
theory Tar_Scan
  imports Tar_File
begin

text \<open>
  What opening a tar file reads: a scan over its bytes that meets padding blocks, headers of
  data and headers of links, and stops at a block of zeros or the end.  The reader's loop
  follows such a scan, and a scan is kept by whatever happens behind its end.
\<close>

section \<open>A header at a place\<close>

definition holds_header :: "byte list \<Rightarrow> nat \<Rightarrow> tar_header \<Rightarrow> nat \<Rightarrow> bool" where
  "holds_header d p h k \<longleftrightarrow> (\<exists>now h' block. construct_header now h = Some (h', block) \<and> length block = 512 * k \<and>
     field p (512 * k) d = block \<and> p + 512 * k \<le> length d)"

definition fair_header :: "tar_header \<Rightarrow> bool" where
  "fair_header h \<longleftrightarrow> 0 \<notin> set (th_name h) \<and> length (th_name h) \<le> 512 \<and> th_size h < 2 ^ 62 \<and> link_ok (th_link h)"

definition placed_header :: "nat \<Rightarrow> nat \<Rightarrow> tar_header \<Rightarrow> tar_header" where
  "placed_header p k h = h\<lparr>th_mtime := 0, th_block_begin := int p, th_block_end := int (p + 512 * k),
     th_data_begin := int (p + 512 * k), th_data_end := int (p + 512 * k + th_size h)\<rparr>"

definition header_next :: "nat \<Rightarrow> nat \<Rightarrow> tar_header \<Rightarrow> nat" where
  "header_next p k h = (p + 512 * k + th_size h + 511) div 512 * 512"

lemma small_offset: "n < 2 ^ 63 \<Longrightarrow> stream_off n = int n"
proof -
  assume n: "n < 2 ^ 63"
  have "sint (word_of_int (int n) :: 64 word) = int n"
    using n by (simp add: sint_sbintrunc' signed_take_bit_int_eq_self del: of_int_of_nat_eq)
  then show ?thesis
    by (simp add: stream_off_def)
qed

lemma write_same_bytes:
  assumes "sm_ok s" and "sm_pos s + n \<le> length (sm_data s)" and "length (sm_data s) \<le> sm_limit s" and "field (sm_pos s) n (sm_data s) = bs"
  shows "stream_write bs s = s\<lparr>sm_pos := sm_pos s + n\<rparr>"
proof -
  have len: "length bs = n"
    using assms(2,4) by auto
  have "take (sm_pos s) (sm_data s) @ field (sm_pos s) n (sm_data s) @ drop (sm_pos s + n) (sm_data s) = sm_data s"
    unfolding field_def by (metis append_take_drop_id drop_drop add.commute)
  then show ?thesis
    using assms len by (simp add: stream_write_def)
qed

lemma read_at:
  assumes ok: "sm_ok s" and h: "holds_header (sm_data s) (sm_get s) h k" and fair: "fair_header h"
  shows "read_header s = (s\<lparr>sm_get := header_next (sm_get s) k h\<rparr>, Header (placed_header (sm_get s) k h))"
proof -
  obtain now h1 block where b: "construct_header now h = Some (h1, block)" "length block = 512 * k"
    "field (sm_get s) (512 * k) (sm_data s) = block" "sm_get s + 512 * k \<le> length (sm_data s)"
    using h by (auto simp: holds_header_def)
  define w where "w = s\<lparr>sm_pos := sm_get s, sm_limit := length (sm_data s)\<rparr>"
  define w' where "w' = w\<lparr>sm_pos := sm_get s + 512 * k\<rparr>"
  have wr: "stream_write block w = w'"
    using write_same_bytes [of w "512 * k" block] ok b(3,4) by (simp add: w_def w'_def)
  have h1: "h1 = h\<lparr>th_mtime := now\<rparr>"
    using b(1) by (auto simp: construct_header_def Let_def split: option.splits if_splits)
  define h2 where "h2 = h1\<lparr>th_block_begin := tell w, th_block_end := tell w', th_data_begin := tell w',
    th_data_end := tell w' + stream_off (th_size h1)\<rparr>"
  have W: "write_header now h w = Some (h2, w', True)"
    using ok by (simp add: write_header_def b(1) wr h2_def Let_def) (simp add: w_def w'_def)
  have stands: "reads_from w' (sm_pos w) s"
    using ok by (simp add: reads_from_def w_def w'_def)
  have size: "th_size h < 2 ^ 64" "length (th_name h) < 2 ^ 32" "stream_off (th_size h) = int (th_size h)"
    using fair small_offset [of "th_size h"] by (simp_all add: fair_header_def)
  have "read_header s = (seekg (round_up_to_block_size (th_data_end h2)) (s\<lparr>sm_get := sm_pos w'\<rparr>), Header (h2\<lparr>th_mtime := 0\<rparr>))"
    using read_short [OF W _ _ _ _ stands] read_long(1) [OF W _ size(2) _ _ stands] fair size(1)
    by (cases "length (th_name h) < 100") (simp_all add: fair_header_def)
  moreover have "h2\<lparr>th_mtime := 0\<rparr> = placed_header (sm_get s) k h"
    using ok size(3) by (simp add: h2_def h1 placed_header_def tell_def w_def w'_def)
  moreover have "th_data_end h2 = int (sm_get s + 512 * k + th_size h)"
    using ok size(3) by (simp add: h2_def h1 tell_def w_def w'_def)
  then have "round_up_to_block_size (th_data_end h2) = int (header_next (sm_get s) k h)"
    by (simp add: round_up_to_block_size_def header_next_def zdiv_int)
  ultimately show ?thesis
    using ok by (simp add: seekg_def)
qed

lemma holds_header_same:
  assumes "holds_header d p h k" and "\<And>off n. off + n \<le> G \<Longrightarrow> off + n \<le> length d \<Longrightarrow> field off n d' = field off n d"
    and "p + 512 * k \<le> G" and "length d \<le> length d'"
  shows "holds_header d' p h k"
proof -
  have "field p (512 * k) d' = field p (512 * k) d" if "p + 512 * k \<le> length d"
    by (rule assms(2) [OF assms(3) that])
  then show ?thesis
    using assms(1,4) unfolding holds_header_def by force
qed

section \<open>Padding\<close>

definition padding_header :: "nat \<Rightarrow> tar_header" where
  "padding_header k = make_header (padding_prefix @ decimal k) 0"

definition pads :: "byte list \<Rightarrow> nat \<Rightarrow> nat \<Rightarrow> bool" where
  "pads d p i \<longleftrightarrow> (\<forall>j<i. \<exists>k. length (decimal k) \<le> 10 \<and> holds_header d (p + 512 * j) (padding_header k) 1)"

lemma unat_word_of_nat_small: "n < 256 \<Longrightarrow> unat (word_of_nat n :: byte) = n"
  by (simp add: unsigned_of_nat take_bit_nat_eq_self)

lemma decimal_set: "b \<in> set (decimal n) \<Longrightarrow> b \<noteq> 0"
proof (induction n rule: decimal.induct)
  case (1 n)
  have digit: "(word_of_nat (48 + k) :: byte) \<noteq> 0" if "k < 10" for k :: nat
  proof -
    have "unat (word_of_nat (48 + k) :: byte) = 48 + k"
      using that by (intro unat_word_of_nat_small) simp
    then show ?thesis
      using that by auto
  qed
  show ?case
    using 1 digit [of n] digit [of "n mod 10"] by (subst (asm) decimal.simps) (auto split: if_splits)
qed

lemma prefix_bytes: "padding_prefix = [95, 100, 97, 116, 97, 47, 112, 97, 100, 100, 105, 110, 103, 95]"
  by (simp add: padding_prefix_def text_bytes_def)

lemma padding_fair: "length (decimal k) \<le> 10 \<Longrightarrow> fair_header (padding_header k)"
  using decimal_set [of 0 k] by (auto simp: fair_header_def padding_header_def make_header_def link_ok_def prefix_bytes)

lemma padding_is_padding: "is_padding_header (placed_header p k (padding_header n))"
  by (simp add: is_padding_header_def placed_header_def padding_header_def make_header_def prefix_bytes Let_def)

lemma pads_0 [simp]: "pads d p 0"
  by (simp add: pads_def)

lemma pads_less: "pads d p i \<Longrightarrow> j \<le> i \<Longrightarrow> pads d p j"
  by (simp add: pads_def)

lemma pads_Suc:
  assumes "length (decimal k) \<le> 10" and "holds_header d p (padding_header k) 1" and "pads d (p + 512) i"
  shows "pads d p (Suc i)"
  unfolding pads_def
proof (intro allI impI)
  fix j
  assume "j < Suc i"
  then show "\<exists>k. length (decimal k) \<le> 10 \<and> holds_header d (p + 512 * j) (padding_header k) 1"
    using assms by (cases j) (auto simp: pads_def algebra_simps)
qed

lemma pads_same:
  assumes "pads d p i" and "\<And>off n. off + n \<le> G \<Longrightarrow> off + n \<le> length d \<Longrightarrow> field off n d' = field off n d"
    and "p + 512 * i \<le> G" and "length d \<le> length d'"
  shows "pads d' p i"
  unfolding pads_def
proof (intro allI impI)
  fix j
  assume "j < i"
  then obtain k where k: "length (decimal k) \<le> 10" "holds_header d (p + 512 * j) (padding_header k) 1"
    using assms(1) by (auto simp: pads_def)
  have "p + 512 * j + 512 * 1 \<le> G"
    using \<open>j < i\<close> assms(3) by simp
  then show "\<exists>k. length (decimal k) \<le> 10 \<and> holds_header d' (p + 512 * j) (padding_header k) 1"
    using holds_header_same [OF k(2) assms(2) _ assms(4)] k(1) by blast
qed

section \<open>Scans\<close>

definition regular_at :: "nat \<Rightarrow> nat \<Rightarrow> tar_header \<Rightarrow> entry" where
  "regular_at p k h = \<lparr>en_path = th_name h, en_link = None, en_data_begin = int (p + 512 * k),
     en_data_end = int (p + 512 * k + th_size h), en_block_begin = int p, en_block_end = int (p + 512 * k)\<rparr>"

definition link_at :: "nat \<Rightarrow> nat \<Rightarrow> tar_header \<Rightarrow> byte list \<Rightarrow> entry \<Rightarrow> entry" where
  "link_at p k h l r = \<lparr>en_path = th_name h, en_link = Some l, en_data_begin = en_data_begin r, en_data_end = en_data_end r,
     en_block_begin = int p, en_block_end = int (p + 512 * k)\<rparr>"

definition without :: "byte list \<Rightarrow> entry list \<Rightarrow> entry list" where
  "without name es = filter (\<lambda>e. en_path e \<noteq> name) es"

inductive scan :: "byte list \<Rightarrow> nat \<Rightarrow> entry list \<Rightarrow> nat \<Rightarrow> entry list \<Rightarrow> bool" for d where
  stop: "scan d p es p es"
| padding: "holds_header d p h k \<Longrightarrow> fair_header h \<Longrightarrow> is_padding_header h \<Longrightarrow> scan d (header_next p k h) es q es' \<Longrightarrow> scan d p es q es'"
| regular: "holds_header d p h k \<Longrightarrow> fair_header h \<Longrightarrow> \<not> is_padding_header h \<Longrightarrow> th_link h = None \<Longrightarrow>
    scan d (header_next p k h) (without (th_name h) es @ [regular_at p k h]) q es' \<Longrightarrow> scan d p es q es'"
| link: "holds_header d p h k \<Longrightarrow> fair_header h \<Longrightarrow> \<not> is_padding_header h \<Longrightarrow> th_link h = Some l \<Longrightarrow>
    find_real_entry (without (th_name h) es) l = Some (Some r) \<Longrightarrow>
    scan d (header_next p k h) (without (th_name h) es @ [link_at p k h l r]) q es' \<Longrightarrow> scan d p es q es'"

lemma header_next_ge: "p + 512 * k \<le> header_next p k h"
proof -
  have "p + 512 * k + th_size h + 511 = header_next p k h + (p + 512 * k + th_size h + 511) mod 512"
    by (simp add: header_next_def)
  moreover have "(p + 512 * k + th_size h + 511) mod 512 < 512"
    by simp
  ultimately show ?thesis
    by linarith
qed

lemma scan_le: "scan d p es q es' \<Longrightarrow> p \<le> q"
proof (induction rule: scan.induct)
  case (padding p h k es q es')
  then show ?case
    using header_next_ge [of p k h] by simp
next
  case (regular p h k es q es')
  then show ?case
    using header_next_ge [of p k h] by simp
next
  case (link p h k l es r q es')
  then show ?case
    using header_next_ge [of p k h] by simp
qed simp

lemma scan_trans: "scan d p es q es' \<Longrightarrow> scan d q es' r es'' \<Longrightarrow> scan d p es r es''"
  by (induction rule: scan.induct) (blast intro: scan.intros)+

lemma scan_same:
  assumes "scan d p es q es'" and "\<And>off n. off + n \<le> G \<Longrightarrow> off + n \<le> length d \<Longrightarrow> field off n d' = field off n d"
    and "q \<le> G" and "length d \<le> length d'"
  shows "scan d' p es q es'"
  using assms(1,3)
proof (induction rule: scan.induct)
  case (stop p es)
  show ?case
    by (rule scan.stop)
next
  case (padding p h k es q es')
  have "holds_header d' p h k"
    using holds_header_same [OF padding(1) assms(2) _ assms(4)] header_next_ge [of p k h] scan_le [OF padding(4)] padding(6) by simp
  then show ?case
    using padding by (blast intro: scan.padding)
next
  case (regular p h k es q es')
  have "holds_header d' p h k"
    using holds_header_same [OF regular(1) assms(2) _ assms(4)] header_next_ge [of p k h] scan_le [OF regular(5)] regular(7) by simp
  then show ?case
    using regular by (blast intro: scan.regular)
next
  case (link p h k l es r q es')
  have "holds_header d' p h k"
    using holds_header_same [OF link(1) assms(2) _ assms(4)] header_next_ge [of p k h] scan_le [OF link(6)] link(8) by simp
  then show ?case
    using link by (blast intro: scan.link)
qed

lemma scan_pads:
  assumes "pads d p i" and "512 dvd p"
  shows "scan d p es (p + 512 * i) es"
  using assms
proof (induction i arbitrary: p)
  case 0
  then show ?case
    using scan.stop by simp
next
  case (Suc i)
  obtain k where k: "length (decimal k) \<le> 10" "holds_header d p (padding_header k) 1"
    using Suc.prems(1) by (force simp: pads_def)
  have "pads d (p + 512) i"
    using Suc.prems(1) unfolding pads_def by (metis Suc_less_eq add.assoc mult_Suc_right)
  then have "scan d (p + 512) es (p + 512 + 512 * i) es"
    using Suc.prems(2) by (intro Suc.IH) simp_all
  moreover have "header_next p 1 (padding_header k) = p + 512"
    using Suc.prems(2) by (auto simp: header_next_def padding_header_def make_header_def elim!: dvdE)
  moreover have "is_padding_header (padding_header k)"
    by (simp add: is_padding_header_def padding_header_def make_header_def prefix_bytes Let_def)
  ultimately show ?case
    using scan.padding [OF k(2) padding_fair [OF k(1)]] by (simp add: algebra_simps)
qed

section \<open>The reader follows a scan\<close>

definition reading_at :: "tar_file \<Rightarrow> nat \<Rightarrow> entry list \<Rightarrow> tar_file" where
  "reading_at tf p es = tf\<lparr>tf_stream := (tf_stream tf)\<lparr>sm_get := p\<rparr>, tf_entries := es\<rparr>"

lemma placed_padding: "is_padding_header (placed_header p k h) \<longleftrightarrow> is_padding_header h"
  by (simp add: is_padding_header_def placed_header_def)

lemma skip_padding_step:
  assumes "read_header s = (s1, Header h)"
  shows "skip_padding s = (if is_padding_header h then skip_padding s1 else Some (s1, Header h))"
  using assms by (subst skip_padding.simps) simp

lemma read_tar_entry_skip:
  assumes "skip_padding a = skip_padding b"
  shows "read_tar_entry (tf\<lparr>tf_stream := a, tf_entries := es\<rparr>) = read_tar_entry (tf\<lparr>tf_stream := b, tf_entries := es\<rparr>)"
proof -
  have "tf\<lparr>tf_stream := a, tf_entries := es, tf_stream := s\<rparr> = tf\<lparr>tf_stream := b, tf_entries := es, tf_stream := s\<rparr>" for s
    by simp
  moreover have "skip_padding (tf_stream (tf\<lparr>tf_stream := a, tf_entries := es\<rparr>)) =
      skip_padding (tf_stream (tf\<lparr>tf_stream := b, tf_entries := es\<rparr>))"
    using assms by simp
  ultimately show ?thesis
    by (simp only: read_tar_entry_def)
qed

lemma scan_reads:
  assumes "scan d p es q es'" and ok: "sm_ok (tf_stream tf)" "sm_data (tf_stream tf) = d"
  shows "read_entries (reading_at tf p es) = read_entries (reading_at tf q es')"
  using assms(1)
proof (induction rule: scan.induct)
  case (stop p es)
  then show ?case
    by simp
next
  case (padding p h k es q es')
  let ?s = "(tf_stream tf)\<lparr>sm_get := p\<rparr>" and ?n = "header_next p k h"
  have "read_header ?s = (?s\<lparr>sm_get := ?n\<rparr>, Header (placed_header p k h))"
    using read_at [of ?s h k] ok padding(1,2) by simp
  then have "skip_padding ?s = skip_padding ((tf_stream tf)\<lparr>sm_get := ?n\<rparr>)"
    using skip_padding_step padding(3) by (simp add: placed_padding)
  then have "read_tar_entry (reading_at tf p es) = read_tar_entry (reading_at tf ?n es)"
    unfolding reading_at_def by (rule read_tar_entry_skip)
  then have "read_entries (reading_at tf p es) = read_entries (reading_at tf ?n es)"
    by (subst (1 2) read_entries.simps) simp
  then show ?case
    using padding.IH by simp
next
  case (regular p h k es q es')
  let ?s = "(tf_stream tf)\<lparr>sm_get := p\<rparr>" and ?n = "header_next p k h"
  have "read_header ?s = (?s\<lparr>sm_get := ?n\<rparr>, Header (placed_header p k h))"
    using read_at [of ?s h k] ok regular(1,2) by simp
  then have "skip_padding ?s = Some ((tf_stream tf)\<lparr>sm_get := ?n\<rparr>, Header (placed_header p k h))"
    using skip_padding_step regular(3) by (simp add: placed_padding)
  then have "read_tar_entry (reading_at tf p es) = Some (reading_at tf ?n (without (th_name h) es @ [regular_at p k h]), Header True)"
    using regular(4) by (simp add: read_tar_entry_def reading_at_def placed_header_def add_regular_entry_def remove_duplicate_entry_def
        add_entry_def without_def regular_at_def)
  then have "read_entries (reading_at tf p es) = read_entries (reading_at tf ?n (without (th_name h) es @ [regular_at p k h]))"
    by (subst read_entries.simps) simp
  then show ?case
    using regular.IH by simp
next
  case (link p h k l es r q es')
  let ?s = "(tf_stream tf)\<lparr>sm_get := p\<rparr>" and ?n = "header_next p k h"
  have "read_header ?s = (?s\<lparr>sm_get := ?n\<rparr>, Header (placed_header p k h))"
    using read_at [of ?s h k] ok link(1,2) by simp
  then have "skip_padding ?s = Some ((tf_stream tf)\<lparr>sm_get := ?n\<rparr>, Header (placed_header p k h))"
    using skip_padding_step link(3) by (simp add: placed_padding)
  then have "read_tar_entry (reading_at tf p es) = Some (reading_at tf ?n (without (th_name h) es @ [link_at p k h l r]), Header True)"
    using link(4,5) by (simp add: read_tar_entry_def reading_at_def placed_header_def add_symlink_entry_def remove_duplicate_entry_def
        add_entry_def without_def link_at_def Let_def)
  then have "read_entries (reading_at tf p es) = read_entries (reading_at tf ?n (without (th_name h) es @ [link_at p k h l r]))"
    by (subst read_entries.simps) simp
  then show ?case
    using link.IH by simp
qed

text \<open>Where a scan stops.\<close>

definition ends_at :: "byte list \<Rightarrow> nat \<Rightarrow> bool" where
  "ends_at d q \<longleftrightarrow> field q 512 d = zero_block \<or> length d < q + 512"

lemma end_reads:
  assumes ok: "sm_ok s" and e: "ends_at (sm_data s) (sm_get s)"
  obtains s1 where "read_header s = (s1, No_header)" "sm_data s1 = sm_data s" "sm_limit s1 = sm_limit s"
proof (cases "length (sm_data s) < sm_get s + 512")
  case True
  then have "length (snd (read_block s)) \<noteq> 512"
    using ok by (simp add: read_block_def Let_def)
  then show thesis
    using ok by (intro that [of "fst (read_block s)\<lparr>sm_ok := True, sm_get := length (sm_data s)\<rparr>"])
      (auto simp: read_header_def read_block_def Let_def)
next
  case False
  then have z: "field (sm_get s) 512 (sm_data s) = zero_block"
    using e by (simp add: ends_at_def)
  have zero_length: "length zero_block = 512"
    by (simp add: zero_block_def)
  have "tar_checksum zero_block = Check_empty"
    by (simp add: tar_checksum_def zero_block_def Let_def sum_list_replicate)
  then show thesis
    using ok z False by (intro that [of "s\<lparr>sm_get := sm_get s + 512\<rparr>"])
      (simp_all add: read_header_def read_block_def field_def [symmetric] Let_def fail_check_def zero_length)
qed

lemma end_entries:
  assumes "sm_ok (tf_stream tf)" and "ends_at (sm_data (tf_stream tf)) q"
  obtains s1 where "read_entries (reading_at tf q es) = Some (Header (tf\<lparr>tf_stream := s1, tf_entries := es\<rparr>))"
    "sm_ok s1" "sm_data s1 = sm_data (tf_stream tf)" "sm_limit s1 = sm_limit (tf_stream tf)"
proof -
  let ?s = "(tf_stream tf)\<lparr>sm_get := q\<rparr>"
  obtain s1 where s1: "read_header ?s = (s1, No_header)" "sm_data s1 = sm_data ?s" "sm_limit s1 = sm_limit ?s"
    using end_reads [of ?s thesis] assms by auto
  then have "skip_padding ?s = Some (s1, No_header)"
    by (subst skip_padding.simps) simp
  then have "read_entries (reading_at tf q es) = Some (Header (tf\<lparr>tf_stream := s1\<lparr>sm_ok := True\<rparr>, tf_entries := es\<rparr>))"
    by (subst read_entries.simps) (simp add: read_tar_entry_def reading_at_def)
  then show thesis
    using s1 by (intro that [of "s1\<lparr>sm_ok := True\<rparr>"]) simp_all
qed

end
