(* ===== verification/Tar_Correct.thy ===== *)
theory Tar_Correct
  imports Tar_Scan
begin

text \<open>
  What a write does to a tar file: nothing below the place it appends at changes, the data
  arrives where its entry says, and reading gives it back.
\<close>

section \<open>Streams that grow\<close>

text \<open>The bytes below \<open>F\<close> stay.\<close>

definition grows :: "nat \<Rightarrow> stream \<Rightarrow> stream \<Rightarrow> bool" where
  "grows F s s' \<longleftrightarrow> sm_ok s' \<and> sm_limit s' = sm_limit s \<and> length (sm_data s) \<le> length (sm_data s') \<and>
     (length (sm_data s) \<le> sm_limit s \<longrightarrow> length (sm_data s') \<le> sm_limit s') \<and>
     (\<forall>off n. off + n \<le> F \<longrightarrow> off + n \<le> length (sm_data s) \<longrightarrow> field off n (sm_data s') = field off n (sm_data s))"

lemma grows_refl: "sm_ok s \<Longrightarrow> grows F s s"
  by (simp add: grows_def)

lemma grows_trans: "grows F a b \<Longrightarrow> grows F b c \<Longrightarrow> grows F a c"
  unfolding grows_def by (metis le_trans)

lemma grows_less: "grows F a b \<Longrightarrow> G \<le> F \<Longrightarrow> grows G a b"
  unfolding grows_def by (meson le_trans)

lemma grows_pos: "sm_ok s \<Longrightarrow> grows F s (s\<lparr>sm_pos := p\<rparr>)"
  by (simp add: grows_def)

lemma seekg_good: "sm_ok s \<Longrightarrow> 0 \<le> p \<Longrightarrow> seekg p s = s\<lparr>sm_get := nat p\<rparr>"
  by (simp add: seekg_def)

lemma seek_good: "sm_ok s \<Longrightarrow> 0 \<le> p \<Longrightarrow> seek p s = s\<lparr>sm_pos := nat p\<rparr>"
  by (simp add: seek_def)

lemma tell_ok: "sm_ok s \<Longrightarrow> tell s = int (sm_pos s)"
  by (simp add: tell_def)

lemma tell_aligned: "sm_ok s \<Longrightarrow> tell s mod 4096 = 0 \<longleftrightarrow> sm_pos s mod 4096 = 0"
  using zmod_int [of "sm_pos s" 4096] by (simp add: tell_ok) linarith

lemma write_facts:
  assumes ok: "sm_ok s" and room: "sm_pos s + length bs \<le> sm_limit s" and w: "s' = stream_write bs s"
  shows "sm_ok s'" and "sm_pos s' = sm_pos s + length bs" and "sm_limit s' = sm_limit s"
    and "length (sm_data s') = max (length (sm_data s)) (sm_pos s + length bs)"
    and "field (sm_pos s) (length bs) (sm_data s') = bs"
    and "sm_pos s + length bs \<le> off \<Longrightarrow> field off n (sm_data s') = field off n (sm_data s)"
    and "off + n \<le> sm_pos s \<Longrightarrow> off + n \<le> length (sm_data s) \<Longrightarrow> field off n (sm_data s') = field off n (sm_data s)"
proof -
  let ?A = "take (sm_pos s) (sm_data s @ replicate (sm_pos s - length (sm_data s)) 0)"
  have d: "sm_data s' = ?A @ bs @ drop (sm_pos s + length bs) (sm_data s)"
    using ok room by (simp add: w stream_write_def)
  have A: "length ?A = sm_pos s"
    by simp
  show "sm_ok s'" "sm_pos s' = sm_pos s + length bs" "sm_limit s' = sm_limit s"
    using ok room by (simp_all add: w stream_write_def)
  show "length (sm_data s') = max (length (sm_data s)) (sm_pos s + length bs)"
    by (simp add: d)
  show "field (sm_pos s) (length bs) (sm_data s') = bs"
    by (simp add: d field_def)
  show "field off n (sm_data s') = field off n (sm_data s)" if le: "sm_pos s + length bs \<le> off"
  proof -
    have "drop off (sm_data s') = drop (off - (sm_pos s + length bs)) (drop (sm_pos s + length bs) (sm_data s))"
      unfolding d drop_append A using le by simp
    also have "\<dots> = drop off (sm_data s)"
      using le by simp
    finally show ?thesis
      by (simp only: field_def)
  qed
  show "field off n (sm_data s') = field off n (sm_data s)" if le: "off + n \<le> sm_pos s" "off + n \<le> length (sm_data s)"
  proof -
    have "take (off + n) (sm_data s') = take (off + n) ?A"
      unfolding d take_append A using le by simp
    also have "\<dots> = take (off + n) (sm_data s)"
      using le by (simp add: min_def)
    finally have "drop off (take (off + n) (sm_data s')) = drop off (take (off + n) (sm_data s))"
      by simp
    then show ?thesis
      by (simp add: field_def drop_take)
  qed
qed

lemmas write_state = write_facts(1-3)

lemma write_grows:
  assumes "sm_ok s" and "sm_pos s + length bs \<le> sm_limit s" and "s' = stream_write bs s" and "F \<le> sm_pos s"
  shows "grows F s s'"
  using write_facts [OF assms(1-3)] assms(2,4) by (auto simp: grows_def)

section \<open>Headers\<close>

definition header_blocks :: "byte list \<Rightarrow> nat" where
  "header_blocks name = (if length name \<ge> 100 then name_blocks name + 2 else 1)"

definition short_link :: "tar_header \<Rightarrow> bool" where
  "short_link h \<longleftrightarrow> (case th_link h of None \<Rightarrow> True | Some l \<Rightarrow> length l < 100)"

lemma write_header_ok:
  assumes "sm_ok s" and "short_link h" and "sm_pos s + 512 * header_blocks (th_name h) \<le> sm_limit s"
  obtains h' block where "write_header now h s = Some (h', stream_write block s, True)"
    "length block = 512 * header_blocks (th_name h)"
    "th_block_begin h' = int (sm_pos s)" "th_block_end h' = int (sm_pos s + 512 * header_blocks (th_name h))"
    "th_data_begin h' = int (sm_pos s + 512 * header_blocks (th_name h))"
    "th_data_end h' = int (sm_pos s + 512 * header_blocks (th_name h)) + stream_off (th_size h)"
    "\<exists>h1. construct_header now h = Some (h1, block)"
proof -
  obtain h1 block where c: "construct_header now h = Some (h1, block)"
    using assms(2) by (auto simp: construct_header_def short_link_def Let_def split: option.splits)
  obtain b flag where C: "h1 = h\<lparr>th_mtime := now\<rparr>" "block = (if is_long_name h1 then construct_long_name h1 else []) @ b"
    "block_holds_fields b (th_name h1) (th_size h1) flag (case th_link h1 of None \<Rightarrow> [] | Some l \<Rightarrow> l)"
    using constructed [OF c] by metis
  obtain lb where LB: "construct_long_name h1 = lb @ th_name h1 @ replicate (512 * name_blocks (th_name h1) - length (th_name h1)) 0"
    "block_holds_fields lb long_link (length (th_name h1)) 76 []"
    by (rule long_name_blocks)
  have len: "length block = 512 * header_blocks (th_name h)"
    using C(1,2) LB(1) length_block [OF C(3)] length_block [OF LB(2)] name_blocks_bounds(1) [of "th_name h"]
    by (simp add: header_blocks_def is_long_name_def)
  have room: "sm_pos s + length block \<le> sm_limit s"
    using assms(3) len by simp
  note W = write_state [OF assms(1) room refl]
  show thesis
    using W len C(1) assms(1) by (intro that [of "h1\<lparr>th_block_begin := tell s, th_block_end := tell (stream_write block s),
        th_data_begin := tell (stream_write block s),
        th_data_end := tell (stream_write block s) + stream_off (th_size h1)\<rparr>" block])
      (simp_all add: write_header_def c Let_def tell_def)
qed

lemma decimal_length: "n < 10 ^ k \<Longrightarrow> 0 < k \<Longrightarrow> length (decimal n) \<le> k"
proof (induction n arbitrary: k rule: decimal.induct)
  case (1 n)
  show ?case
  proof (cases "n < 10")
    case True
    then show ?thesis
      using 1(3) by (subst decimal.simps) simp
  next
    case False
    then obtain j where j: "k = Suc j" "0 < j"
      using 1(2,3) by (cases k; cases "k - 1") auto
    then have "n div 10 < 10 ^ j"
      using 1(2) by (simp add: less_mult_imp_div_less mult.commute)
    then show ?thesis
      using 1(1) [OF False, of j] j False by (subst decimal.simps) simp
  qed
qed

text \<open>A header that was written is found at its place.\<close>

lemma written_holds:
  assumes "sm_ok s" and "sm_pos s + length block \<le> sm_limit s" and "\<exists>h1. construct_header now h = Some (h1, block)"
    and "length block = 512 * k"
  shows "holds_header (sm_data (stream_write block s)) (sm_pos s) h k"
  using write_facts(4,5) [OF assms(1,2) refl] assms(3,4) by (force simp: holds_header_def)

lemma holds_kept:
  assumes "holds_header (sm_data s) p h k" and "grows G s s'" and "p + 512 * k \<le> G"
  shows "holds_header (sm_data s') p h k"
  by (rule holds_header_same [OF assms(1) _ assms(3)]) (use assms(2) in \<open>auto simp: grows_def\<close>)

lemma pads_kept:
  assumes "pads (sm_data s) p i" and "grows G s s'" and "p + 512 * i \<le> G"
  shows "pads (sm_data s') p i"
  by (rule pads_same [OF assms(1) _ assms(3)]) (use assms(2) in \<open>auto simp: grows_def\<close>)

lemma padding_block:
  assumes "sm_ok s" and "sm_pos s + 512 \<le> sm_limit s" and "k < 2 ^ 31"
  obtains block where "add_padding_block now s k = Some (stream_write block s)" "length block = 512"
    "\<exists>h1. construct_header now (padding_header k) = Some (h1, block)" "length (decimal k) \<le> 10"
proof -
  let ?h = "make_header (padding_prefix @ decimal k) 0"
  have ten: "length (decimal k) \<le> 10"
    using decimal_length [of k 10] assms(3) by simp
  then have one: "header_blocks (th_name ?h) = 1"
    by (simp add: header_blocks_def make_header_def padding_prefix_def)
  obtain h' block where "write_header now ?h s = Some (h', stream_write block s, True)" "length block = 512"
    "\<exists>h1. construct_header now ?h = Some (h1, block)"
    using write_header_ok [OF assms(1), of ?h now thesis] assms(2) one by (auto simp: short_link_def make_header_def)
  then show thesis
    using that [of block] ten by (simp add: add_padding_block_def padding_header_def)
qed

lemma align_reaches:
  assumes "sm_ok s" and "F \<le> sm_pos s" and "(sm_pos s + 512 * j) mod 4096 = 0" and "sm_pos s + 512 * j \<le> sm_limit s"
    and "k + j < 2 ^ 31"
  shows "\<exists>s' k' i. align_4k now s k = Some (s', k') \<and> grows F s s' \<and> sm_pos s' = sm_pos s + 512 * i \<and> i \<le> j \<and>
    sm_pos s' mod 4096 = 0 \<and> k' \<le> k + j \<and> pads (sm_data s') (sm_pos s) i"
  using assms
proof (induction j arbitrary: s k F)
  case 0
  then have "tell s mod 4096 = 0"
    by (simp add: tell_aligned)
  then have "align_4k now s k = Some (s, k)"
    by (subst align_4k.simps) simp
  then show ?case
    using 0 grows_refl by auto
next
  case (Suc j)
  show ?case
  proof (cases "tell s mod 4096 = 0")
    case True
    then have "align_4k now s k = Some (s, k)"
      by (subst align_4k.simps) simp
    moreover have "sm_pos s mod 4096 = 0"
      using True Suc.prems(1) by (simp add: tell_aligned)
    ultimately show ?thesis
      using Suc.prems(1) grows_refl by (intro exI [of _ s] exI [of _ k] exI [of _ 0]) simp
  next
    case False
    obtain block where b: "add_padding_block now s k = Some (stream_write block s)" "length block = 512"
      "\<exists>h1. construct_header now (padding_header k) = Some (h1, block)" "length (decimal k) \<le> 10"
      using padding_block [of s k now thesis] Suc.prems by auto
    define s1 where "s1 = stream_write block s"
    have room: "sm_pos s + length block \<le> sm_limit s"
      using Suc.prems(4) b(2) by simp
    note W = write_state [OF Suc.prems(1) room s1_def]
    have g: "grows F s s1"
      by (rule write_grows [OF Suc.prems(1) room s1_def Suc.prems(2)])
    have "\<exists>s' k' i. align_4k now s1 (k + 1) = Some (s', k') \<and> grows (sm_pos s1) s1 s' \<and> sm_pos s' = sm_pos s1 + 512 * i \<and>
        i \<le> j \<and> sm_pos s' mod 4096 = 0 \<and> k' \<le> k + 1 + j \<and> pads (sm_data s') (sm_pos s1) i"
      using Suc.prems W b(2) by (intro Suc.IH) (simp_all add: algebra_simps)
    then obtain s' k' i where r: "align_4k now s1 (k + 1) = Some (s', k')" "grows (sm_pos s1) s1 s'" "sm_pos s' = sm_pos s1 + 512 * i"
      "i \<le> j" "sm_pos s' mod 4096 = 0" "k' \<le> k + 1 + j" "pads (sm_data s') (sm_pos s1) i"
      by (elim exE conjE) (rule that)
    have "align_4k now s k = Some (s', k')"
      using False b r(1) by (subst align_4k.simps) (simp add: s1_def)
    moreover have "holds_header (sm_data s1) (sm_pos s) (padding_header k) 1"
      unfolding s1_def by (rule written_holds [OF Suc.prems(1) room b(3)]) (simp add: b(2))
    then have "holds_header (sm_data s') (sm_pos s) (padding_header k) 1"
      by (rule holds_kept [OF _ r(2)]) (simp add: W b(2))
    then have "pads (sm_data s') (sm_pos s) (Suc i)"
      using r(7) W(2) b(2,4) by (intro pads_Suc) simp_all
    moreover have "grows F s s'"
      using grows_trans [OF g grows_less [OF r(2)]] Suc.prems(2) W(2) by simp
    ultimately show ?thesis
      using r W b(2) by (intro exI [of _ s'] exI [of _ k'] exI [of _ "Suc i"]) simp
  qed
qed

section \<open>A valid tar file\<close>

text \<open>Where the next file is appended, and files whose data lies below it.\<close>

definition frontier :: "tar_file \<Rightarrow> int" where
  "frontier tf = (if tf_entries tf = [] then 0 else append_pos (last (tf_entries tf)) - 512)"

definition entry_ok :: "nat \<Rightarrow> entry \<Rightarrow> bool" where
  "entry_ok F e \<longleftrightarrow> 0 \<le> en_data_begin e \<and> en_data_begin e \<le> en_data_end e \<and> en_data_end e \<le> int F"

definition tar_ok :: "tar_file \<Rightarrow> bool" where
  "tar_ok tf \<longleftrightarrow> sm_ok (tf_stream tf) \<and> \<not> tf_writing tf \<and> \<not> tf_mapped tf \<and> 0 \<le> frontier tf \<and> 512 dvd nat (frontier tf) \<and>
     nat (frontier tf) \<le> length (sm_data (tf_stream tf)) \<and> list_all (entry_ok (nat (frontier tf))) (tf_entries tf)"

text \<open>Room for \<open>need\<close> bytes behind the frontier, and for the counter of padding blocks.\<close>

definition room_for :: "nat \<Rightarrow> tar_file \<Rightarrow> bool" where
  "room_for need tf \<longleftrightarrow> nat (frontier tf) + 4096 + need \<le> sm_limit (tf_stream tf) \<and> sm_limit (tf_stream tf) < 2 ^ 62 \<and>
     sm_pos (tf_stream tf) + 1024 \<le> sm_limit (tf_stream tf) \<and> tf_padding tf + 9 < 2 ^ 31"

lemma next_aligned:
  fixes F :: nat
  assumes "512 dvd F"
  shows "\<exists>j \<le> 7. (F + 512 + 512 * j) mod 4096 = 0"
proof -
  obtain f where f: "F = 512 * f"
    using assms by auto
  let ?j = "7 - f mod 8"
  have "f mod 8 \<le> 7"
    by simp
  then have "F + 512 + 512 * ?j = 512 * (f + 8 - f mod 8)"
    unfolding f by (simp add: algebra_simps)
  also have "f + 8 - f mod 8 = 8 * (f div 8 + 1)"
    by presburger
  finally have e: "F + 512 + 512 * ?j = 4096 * (f div 8 + 1)"
    by simp
  have "(F + 512 + 512 * ?j) mod 4096 = 0"
    unfolding e by (rule mod_mult_self1_is_0)
  then show ?thesis
    by (intro exI [of _ ?j]) simp
qed

lemma align_tar:
  assumes ok: "sm_ok (tf_stream tf)" and pos: "sm_pos (tf_stream tf) = F + 512" and F: "512 dvd F"
    and room: "F + 4096 \<le> sm_limit (tf_stream tf)" "tf_padding tf + 9 < 2 ^ 31"
  obtains tf' i where "maybe_add_4k_align now tf = Some tf'" "grows F (tf_stream tf) (tf_stream tf')"
    "tf' = tf\<lparr>tf_stream := tf_stream tf', tf_padding := tf_padding tf'\<rparr>" "sm_pos (tf_stream tf') = F + 512 * Suc i" "i \<le> 7"
    "sm_pos (tf_stream tf') mod 4096 = 0" "tf_padding tf' \<le> tf_padding tf + 8" "pads (sm_data (tf_stream tf')) F (Suc i)"
proof -
  define s where "s = seek (tell (tf_stream tf) - 512) (tf_stream tf)"
  have s: "s = (tf_stream tf)\<lparr>sm_pos := F\<rparr>"
    using ok pos by (simp add: s_def seek_good tell_ok)
  obtain block where b: "add_padding_block now s (tf_padding tf) = Some (stream_write block s)" "length block = 512"
    "\<exists>h1. construct_header now (padding_header (tf_padding tf)) = Some (h1, block)" "length (decimal (tf_padding tf)) \<le> 10"
    using padding_block [of s "tf_padding tf" now thesis] ok s room by auto
  define s1 where "s1 = stream_write block s"
  have sok: "sm_ok s" "sm_pos s = F" "sm_limit s = sm_limit (tf_stream tf)"
    using ok by (simp_all add: s)
  have r1: "sm_pos s + length block \<le> sm_limit s"
    using sok room(1) b(2) by simp
  note W = write_state [OF sok(1) r1 s1_def]
  have g1: "grows F s s1"
    by (rule write_grows [OF sok(1) r1 s1_def]) (simp add: sok)
  obtain j where j: "j \<le> 7" "(F + 512 + 512 * j) mod 4096 = 0"
    using next_aligned [OF F] by (elim exE conjE) (rule that)
  have le: "F + 512 + 512 * j \<le> F + 4096"
    using j(1) by simp
  have "\<exists>s' k' i. align_4k now s1 (tf_padding tf + 1) = Some (s', k') \<and> grows (F + 512) s1 s' \<and> sm_pos s' = sm_pos s1 + 512 * i \<and>
      i \<le> j \<and> sm_pos s' mod 4096 = 0 \<and> k' \<le> tf_padding tf + 1 + j \<and> pads (sm_data s') (sm_pos s1) i"
    using W sok b(2) j le room by (intro align_reaches) simp_all
  then obtain s' k' i where r: "align_4k now s1 (tf_padding tf + 1) = Some (s', k')" "grows (F + 512) s1 s'" "sm_pos s' = sm_pos s1 + 512 * i"
    "i \<le> j" "sm_pos s' mod 4096 = 0" "k' \<le> tf_padding tf + 1 + j" "pads (sm_data s') (sm_pos s1) i"
    by (elim exE conjE) (rule that)
  have "holds_header (sm_data s1) F (padding_header (tf_padding tf)) 1"
    using written_holds [OF sok(1) r1 b(3), of 1] b(2) sok(2) by (simp add: s1_def)
  then have "holds_header (sm_data s') F (padding_header (tf_padding tf)) 1"
    by (rule holds_kept [OF _ r(2)]) simp
  then have pads: "pads (sm_data s') F (Suc i)"
    using r(7) W(2) sok(2) b(2,4) by (intro pads_Suc) simp_all
  have "grows F (tf_stream tf) s'"
    using grows_trans [OF grows_trans [OF grows_pos [OF ok, of F F] g1 [unfolded s]] grows_less [OF r(2)]] by (simp add: s)
  moreover have "maybe_add_4k_align now tf = Some (tf\<lparr>tf_stream := s', tf_padding := k'\<rparr>)"
    unfolding maybe_add_4k_align_def Let_def s_def [symmetric] using sok(1) b(1) r(1) by (simp add: s1_def)
  moreover have "sm_pos s' = F + 512 * Suc i" "i \<le> 7" "k' \<le> tf_padding tf + 8"
    using r(3,4,6) W(2) sok(2) b(2) j(1) by simp_all
  ultimately show thesis
    using r(5) pads by (intro that [of "tf\<lparr>tf_stream := s', tf_padding := k'\<rparr>" i]) simp_all
qed

lemma create_writer_ok:
  assumes ok: "tar_ok tf" and room: "room_for 0 tf"
  obtains tf' P i where "create_writer now tf name = Some (tf', Some \<lparr>wr_name = name, wr_begin = int P\<rparr>)"
    "grows (nat (frontier tf)) (tf_stream tf) (tf_stream tf')" "sm_pos (tf_stream tf') = P"
    "P = nat (frontier tf) + 512 * Suc i" "i \<le> 7" "P mod 4096 = 0"
    "tf_entries tf' = tf_entries tf" "tf_mapped tf' = tf_mapped tf" "tf_padding tf' \<le> tf_padding tf + 8"
    "pads (sm_data (tf_stream tf')) (nat (frontier tf)) (Suc i)"
proof -
  define F where "F = nat (frontier tf)"
  have F: "512 dvd F" "F + 4096 \<le> sm_limit (tf_stream tf)" "frontier tf = int F"
    using ok room by (simp_all add: F_def tar_ok_def room_for_def)
  define s1 where "s1 = (if tf_entries tf = [] then stream_write (replicate 1024 0) (tf_stream tf) else tf_stream tf)"
  have sok: "sm_ok (tf_stream tf)" "\<not> tf_writing tf"
    using ok by (simp_all add: tar_ok_def)
  have r1: "sm_pos (tf_stream tf) + length (replicate 1024 (0 :: byte)) \<le> sm_limit (tf_stream tf)"
    using room by (simp add: room_for_def)
  have g1: "grows F (tf_stream tf) s1"
    using write_grows [OF sok(1) r1 refl, of F] grows_refl [OF sok(1)] F(3) by (auto simp: s1_def frontier_def)
  have ok1: "sm_ok s1" "sm_limit s1 = sm_limit (tf_stream tf)"
    using g1 by (simp_all add: grows_def)
  have pos: "(if tf_entries tf = [] then 512 else append_pos (last (tf_entries tf))) = int F + 512"
    using F(3) by (auto simp: frontier_def)
  define s2 where "s2 = s1\<lparr>sm_pos := F + 512\<rparr>"
  define s3 where "s3 = stream_write (replicate 1024 0) s2"
  define s4 where "s4 = s3\<lparr>sm_pos := F + 512\<rparr>"
  have ok2: "sm_ok s2" "sm_pos s2 = F + 512" "sm_limit s2 = sm_limit (tf_stream tf)"
    using ok1 by (simp_all add: s2_def)
  have r3: "sm_pos s2 + length (replicate 1024 (0 :: byte)) \<le> sm_limit s2"
    using ok2 F(2) by simp
  note W = write_state [OF ok2(1) r3 s3_def]
  have g3: "grows F s2 s3"
    by (rule write_grows [OF ok2(1) r3 s3_def]) (simp add: ok2)
  have g4: "grows F (tf_stream tf) s4"
    unfolding s4_def using grows_trans [OF grows_trans [OF grows_trans [OF g1 grows_pos [OF ok1(1)]] g3 [unfolded s2_def]] grows_pos] W(1)
    by (simp add: s2_def)
  define tf4 where "tf4 = tf\<lparr>tf_writing := True, tf_stream := s4\<rparr>"
  have t4: "sm_ok (tf_stream tf4)" "sm_pos (tf_stream tf4) = F + 512" "F + 4096 \<le> sm_limit (tf_stream tf4)" "tf_padding tf4 + 9 < 2 ^ 31"
    using W ok2 F(2) room by (simp_all add: tf4_def s4_def room_for_def)
  obtain tf' i where t: "maybe_add_4k_align now tf4 = Some tf'" "grows F (tf_stream tf4) (tf_stream tf')"
    "tf' = tf4\<lparr>tf_stream := tf_stream tf', tf_padding := tf_padding tf'\<rparr>" "sm_pos (tf_stream tf') = F + 512 * Suc i" "i \<le> 7"
    "sm_pos (tf_stream tf') mod 4096 = 0" "tf_padding tf' \<le> tf_padding tf4 + 8" "pads (sm_data (tf_stream tf')) F (Suc i)"
    by (rule align_tar [OF t4(1,2) F(1) t4(3,4)])
  have seeks: "seek (int F + 512) s1 = s2" "seek (int F + 512) s3 = s4"
    using ok1 W(1) by (simp_all add: seek_good s2_def s4_def nat_add_distrib)
  have ok4: "sm_ok s4" "sm_ok s3"
    using W by (simp_all add: s4_def)
  have tell: "tell (tf_stream tf') = int (sm_pos (tf_stream tf'))"
    using t(2) by (simp add: grows_def tell_ok)
  have "create_writer now tf name = Some (tf', Some \<lparr>wr_name = name, wr_begin = int (sm_pos (tf_stream tf'))\<rparr>)"
    using sok(2) ok1 ok2 ok4 t(1) tell
    by (simp add: create_writer_def Let_def pos s1_def [symmetric] seeks s3_def [symmetric] tf4_def)
  moreover have "tf_entries tf' = tf_entries tf" "tf_mapped tf' = tf_mapped tf"
    by (subst t(3), simp add: tf4_def)+
  moreover have "grows F (tf_stream tf) (tf_stream tf')"
    using grows_trans [OF g4] t(2) by (simp add: tf4_def)
  ultimately show thesis
    using t(4-8) unfolding F_def [symmetric] by (intro that [of tf' "sm_pos (tf_stream tf')" i]) (simp_all add: tf4_def F_def)
qed

section \<open>Reading\<close>

lemma field_split: "a + b = n \<Longrightarrow> field off a bs @ field (off + a) b bs = field off n bs"
  unfolding field_def by (metis drop_drop take_add add.commute)

lemma read_rest_slice:
  assumes "sm_ok s" and "0 \<le> rd_pos r" and "rd_pos r \<le> en_data_end (rd_entry r)" and "0 < rd_room r"
    and "en_data_end (rd_entry r) \<le> int (length (sm_data s))"
  shows "read_rest s r = Some (field (nat (rd_pos r)) (nat (en_data_end (rd_entry r) - rd_pos r)) (sm_data s))"
  using assms
proof (induction s r rule: read_rest.induct)
  case (1 s r)
  show ?case
  proof (cases "rd_pos r < en_data_end (rd_entry r)")
    case False
    then show ?thesis
      using 1(4) by (subst read_rest.simps) (simp add: underflow_def field_def)
  next
    case True
    define n where "n = min (rd_room r) (nat (en_data_end (rd_entry r) - rd_pos r))"
    define got where "got = field (nat (rd_pos r)) n (sm_data s)"
    define r1 where "r1 = r\<lparr>rd_pos := rd_pos r + int n\<rparr>"
    have n: "0 < n" "rd_pos r + int n \<le> en_data_end (rd_entry r)"
      using True 1(5) by (auto simp: n_def)
    have len: "length got = n"
      using n 1(3,6) by (simp add: got_def)
    have u: "underflow s r = Some (r1, got)"
      using True 1(2,3) len unfolding got_def field_def r1_def n_def by (simp add: underflow_def Let_def seekg_good)
    have "read_rest s r1 = Some (field (nat (rd_pos r1)) (nat (en_data_end (rd_entry r1) - rd_pos r1)) (sm_data s))"
      using n len 1(2-6) by (intro 1(1) [OF u refl]) (auto simp: r1_def)
    moreover have whole: "n + nat (en_data_end (rd_entry r) - (rd_pos r + int n)) = nat (en_data_end (rd_entry r) - rd_pos r)"
      using n(2) by simp
    moreover have "got @ field (nat (rd_pos r1)) (nat (en_data_end (rd_entry r1) - rd_pos r1)) (sm_data s) =
        field (nat (rd_pos r)) (nat (en_data_end (rd_entry r) - rd_pos r)) (sm_data s)"
      using field_split [of n "nat (en_data_end (rd_entry r1) - rd_pos r1)" _ "nat (rd_pos r)" "sm_data s"] n 1(3)
        whole by (simp add: got_def r1_def nat_add_distrib)
    moreover have "got \<noteq> []"
      using len n(1) by auto
    ultimately show ?thesis
      using u by (subst read_rest.simps) simp
  qed
qed

definition entry_bytes :: "tar_file \<Rightarrow> entry \<Rightarrow> byte list" where
  "entry_bytes tf e = field (nat (en_data_begin e)) (nat (en_data_end e - en_data_begin e)) (sm_data (tf_stream tf))"

lemma read_file_ok:
  assumes ok: "tar_ok tf"
  shows "read_file tf name = map_option (entry_bytes tf) (find (\<lambda>e. en_path e = name) (tf_entries tf))"
proof (cases "find (\<lambda>e. en_path e = name) (tf_entries tf)")
  case None
  then show ?thesis
    by (simp add: read_file_def open_for_read_def)
next
  case (Some e)
  then have e: "entry_ok (nat (frontier tf)) e"
    using ok by (auto simp: tar_ok_def list_all_iff find_Some_iff)
  have le: "en_data_end e \<le> int (length (sm_data (tf_stream tf)))"
    using e ok by (simp add: entry_ok_def tar_ok_def nat_le_iff)
  let ?r = "(open_entry e)\<lparr>rd_pos := en_data_begin e\<rparr>"
  have "open_for_read tf name = Some (tf, Some ?r)"
    using Some e by (simp add: open_for_read_def entry_ok_def)
  moreover have "read_rest (tf_stream tf) ?r = Some (entry_bytes tf e)"
    using read_rest_slice [of "tf_stream tf" ?r] e ok le
    by (simp add: open_entry_def entry_ok_def tar_ok_def entry_bytes_def less_max_iff_disj)
  ultimately show ?thesis
    using Some by (simp add: read_file_def)
qed

section \<open>A write\<close>

text \<open>A link to data that a regular entry holds, written where the stream is.\<close>

lemma find_regular:
  assumes "find (\<lambda>e. en_path e = p) (rev es) = Some d" and "en_link d = None"
  shows "find_real_entry es p = Some (Some d)"
  using assms by (subst find_real_entry.simps) simp

definition link_entry :: "byte list \<Rightarrow> byte list \<Rightarrow> entry \<Rightarrow> nat \<Rightarrow> nat \<Rightarrow> entry" where
  "link_entry name target d E k = \<lparr>en_path = name, en_link = Some target, en_data_begin = en_data_begin d,
     en_data_end = en_data_end d, en_block_begin = int E, en_block_end = int (E + 512 * k)\<rparr>"

definition link_header :: "byte list \<Rightarrow> byte list \<Rightarrow> tar_header" where
  "link_header name target = (make_header name 0)\<lparr>th_link := Some target\<rparr>"

lemma add_link_ok:
  assumes ok: "sm_ok (tf_stream tf)" and target: "length target < 100"
    and room: "sm_pos (tf_stream tf) + 512 * header_blocks (wr_name w) \<le> sm_limit (tf_stream tf)"
    and d: "find (\<lambda>e. en_path e = target) (rev (filter (\<lambda>e. en_path e \<noteq> wr_name w) (tf_entries tf))) = Some d" "en_link d = None"
  obtains block where "length block = 512 * header_blocks (wr_name w)"
    "add_link now w target tf = Some (tf\<lparr>tf_stream := stream_write block (tf_stream tf),
       tf_entries := filter (\<lambda>e. en_path e \<noteq> wr_name w) (tf_entries tf) @
         [link_entry (wr_name w) target d (sm_pos (tf_stream tf)) (header_blocks (wr_name w))]\<rparr>)"
    "\<exists>h1. construct_header now (link_header (wr_name w) target) = Some (h1, block)"
proof -
  let ?h = "(make_header (wr_name w) 0)\<lparr>th_link := Some target\<rparr>"
  obtain h' block where h: "write_header now ?h (tf_stream tf) = Some (h', stream_write block (tf_stream tf), True)"
    "length block = 512 * header_blocks (wr_name w)" "th_block_begin h' = int (sm_pos (tf_stream tf))"
    "th_block_end h' = int (sm_pos (tf_stream tf) + 512 * header_blocks (wr_name w))"
    "\<exists>h1. construct_header now ?h = Some (h1, block)"
    using write_header_ok [OF ok, of ?h now thesis] target room by (auto simp: short_link_def make_header_def)
  have "find_real_entry (filter (\<lambda>e. en_path e \<noteq> wr_name w) (tf_entries tf)) target = Some (Some d)"
    by (rule find_regular [OF d])
  then show thesis
    using h by (intro that [of block]) (simp_all add: add_link_def add_symlink_entry_def remove_duplicate_entry_def add_entry_def link_entry_def link_header_def)
qed

text \<open>The end of the data's blocks.\<close>

definition blocks_end :: "nat \<Rightarrow> nat \<Rightarrow> nat" where
  "blocks_end P n = P + (n + 511) div 512 * 512"

lemma blocks_end_bounds: "P + n \<le> blocks_end P n" "blocks_end P n < P + n + 512"
proof -
  have "n + 511 = (n + 511) div 512 * 512 + (n + 511) mod 512"
    by simp
  moreover have "(n + 511) mod 512 < 512"
    by simp
  ultimately show "P + n \<le> blocks_end P n" "blocks_end P n < P + n + 512"
    unfolding blocks_end_def by linarith+
qed

lemma check_sum_ok:
  assumes ok: "sm_ok s" and pos: "sm_pos s = P + length content" and room: "blocks_end P (length content) \<le> sm_limit s"
    and start: "wr_begin w = int P" and data: "field P (length content) (sm_data s) = content" and len: "P + length content \<le> length (sm_data s)"
  obtains s' where
    "get_content_check_sum md5 w s =
       Some (s', Some (int (blocks_end P (length content)), length content, md5 content))"
    "grows (P + length content) s s'" "sm_pos s' = blocks_end P (length content)"
    "field P (length content) (sm_data s') = content" "P + length content \<le> length (sm_data s')"
proof -
  let ?n = "length content" and ?E = "blocks_end P (length content)"
  note B = blocks_end_bounds [of P ?n]
  have size: "tell s - wr_begin w = int ?n"
    using ok pos by (simp add: tell_ok start)
  have up: "round_up_to_block_size (int ?n) = int ?E - int P"
    by (simp add: round_up_to_block_size_def blocks_end_def zdiv_int)
  define pad where "pad = ?E - (P + ?n)"
  have padding: "round_up_to_block_size (int ?n) - int ?n = int pad"
    using B(1) by (simp add: up pad_def)
  define s1 where "s1 = s\<lparr>sm_pos := P\<rparr>"
  have s1: "seek (wr_begin w) s = s1" "sm_ok s1"
    using ok by (simp_all add: seek_good s1_def start)
  have ret: "seek (tell s) s1 = s"
    using ok by (simp add: seek_good tell_ok s1_def)
  define s2 where "s2 = (if 0 < pad then stream_write (replicate pad 0) s else s1)"
  have r: "sm_pos s + length (replicate pad (0 :: byte)) \<le> sm_limit s"
    using room B(1) pos by (simp add: pad_def)
  note W = write_facts [OF ok r refl]
  have ok2: "sm_ok s2" "sm_limit s2 = sm_limit s" "length (sm_data s) \<le> length (sm_data s2)"
    using W s1(2) ok by (auto simp: s2_def s1_def)
  have g: "grows (P + ?n) s s2"
    using write_grows [OF ok r refl, of "P + ?n"] grows_pos [OF ok] pos by (auto simp: s2_def s1_def)
  have content: "field P ?n (sm_data s2) = content"
    using g len data by (simp add: grows_def)
  have end_pos: "(if 0 < pad then tell s2 else tell s) = int ?E"
    using W ok ok2 pos B(1) by (auto simp: s2_def tell_ok pad_def)
  have sum: "calculate_md5 md5 s2 (int P) (int ?n) = md5 content"
    using content ok2(3) len by (simp add: calculate_md5_def field_def)
  have "get_content_check_sum md5 w s = Some (s2\<lparr>sm_pos := ?E\<rparr>, Some (int ?E, ?n, md5 content))"
  proof -
    have e: "(if 0 < int pad then stream_write (replicate pad 0) (seek (tell s) s1) else s1) = s2"
      "(if 0 < int pad then tell s2 else tell s) = int ?E" "seek (int ?E) s2 = s2\<lparr>sm_pos := ?E\<rparr>"
      "seek (int P) s = s1" "tell s - int P = int ?n"
      using end_pos ok2(1) s1(1) size by (simp_all add: s2_def ret seek_good start)
    show ?thesis
      by (simp only: get_content_check_sum_def Let_def start e(4,5) padding e(1-3) s1(2) ok2(1) sum not_True_eq_False
          if_False nat_int)
  qed
  then show thesis
    using grows_trans [OF g grows_pos [OF ok2(1)]] content ok2(3) len by (intro that [of "s2\<lparr>sm_pos := ?E\<rparr>"]) simp_all
qed

definition data_entry :: "byte list \<Rightarrow> nat \<Rightarrow> nat \<Rightarrow> entry" where
  "data_entry path P n = \<lparr>en_path = path, en_link = None, en_data_begin = int P, en_data_end = int (P + n),
     en_block_begin = int P - 512, en_block_end = int P\<rparr>"

text \<open>The data's header goes right before it, and the name's link right behind its blocks.\<close>

lemma new_data_added:
  fixes content :: "byte list" and P :: nat
  defines "n \<equiv> length content" and "E \<equiv> blocks_end P (length content)"
  assumes ok: "sm_ok (tf_stream tf)" and start: "wr_begin w = int P" "512 \<le> P" and n: "n < 2 ^ 63"
    and data: "field P n (sm_data (tf_stream tf)) = content" "P + n \<le> length (sm_data (tf_stream tf))"
    and room: "E + 512 * header_blocks (wr_name w) \<le> sm_limit (tf_stream tf)"
    and hash: "length hash < 90" "wr_name w \<noteq> data_name hash" "data_name hash \<notin> en_path ` set (tf_entries tf)"
  obtains tf' where "add_entry_for_new_data now w (int E) n hash tf = Some tf'"
    "grows (P - 512) (tf_stream tf) (tf_stream tf')" "field P n (sm_data (tf_stream tf')) = content"
    "sm_pos (tf_stream tf') = E + 512 * header_blocks (wr_name w)" "sm_pos (tf_stream tf') \<le> length (sm_data (tf_stream tf'))"
    "tf' = tf\<lparr>tf_stream := tf_stream tf', tf_entries := filter (\<lambda>e. en_path e \<noteq> wr_name w) (tf_entries tf) @
       [data_entry (data_name hash) P n, link_entry (wr_name w) (data_name hash) (data_entry (data_name hash) P n) E (header_blocks (wr_name w))]\<rparr>"
    "holds_header (sm_data (tf_stream tf')) (P - 512) (make_header (data_name hash) n) 1"
    "holds_header (sm_data (tf_stream tf')) E (link_header (wr_name w) (data_name hash)) (header_blocks (wr_name w))"
proof -
  let ?dn = "data_name hash" and ?D = "data_entry (data_name hash) P n"
  have dn: "length ?dn < 100"
    using hash(1) by (simp add: data_name_def)
  note B = blocks_end_bounds [of P "length content"]
  define s where "s = (tf_stream tf)\<lparr>sm_pos := P - 512\<rparr>"
  have s: "sm_ok s" "sm_pos s = P - 512" "sm_limit s = sm_limit (tf_stream tf)" "sm_data s = sm_data (tf_stream tf)"
    using ok by (simp_all add: s_def)
  have seek: "seek (wr_begin w - 512) (tf_stream tf) = s"
    using ok start by (simp add: seek_good s_def nat_diff_distrib)
  have one: "header_blocks (th_name (make_header ?dn n)) = 1"
    using dn by (simp add: header_blocks_def make_header_def)
  have "P \<le> sm_limit (tf_stream tf)"
    using room B by (simp add: E_def)
  then obtain h block where h: "write_header now (make_header ?dn n) s = Some (h, stream_write block s, True)" "length block = 512"
    "th_block_begin h = int (P - 512)" "th_block_end h = int P" "th_data_begin h = int P"
    "th_data_end h = int P + stream_off n" "\<exists>h1. construct_header now (make_header ?dn n) = Some (h1, block)"
    using write_header_ok [OF s(1), of "make_header ?dn n" now thesis] one s start(2) by (auto simp: short_link_def make_header_def)
  have r1: "sm_pos s + length block \<le> sm_limit s"
    using s start(2) h(2) \<open>P \<le> sm_limit (tf_stream tf)\<close> by simp
  note W = write_facts [OF s(1) r1 refl]
  define s1 where "s1 = (stream_write block s)\<lparr>sm_pos := E\<rparr>"
  have s1: "sm_ok s1" "sm_pos s1 = E" "sm_limit s1 = sm_limit (tf_stream tf)" "P + n \<le> length (sm_data s1)" "field P n (sm_data s1) = content"
    using W s start(2) h(2) data by (simp_all add: s1_def)
  have seek1: "seek (int E) (stream_write block s) = s1"
    using W(1) by (simp add: seek_good s1_def)
  have g1: "grows (P - 512) (tf_stream tf) s1"
    using grows_trans [OF grows_pos [OF ok] grows_trans [OF write_grows [OF s(1) r1 refl, of "P - 512", unfolded s_def] grows_pos]] W(1)
    by (simp add: s s1_def s_def)
  define tf1 where "tf1 = add_regular_entry ?dn (int P) (int P + stream_off n) (int (P - 512)) (int P) (tf\<lparr>tf_stream := s1\<rparr>)"
  have fresh: "filter (\<lambda>e. en_path e \<noteq> ?dn) (tf_entries tf) = tf_entries tf"
    by (rule filter_True) (use hash(3) in \<open>metis imageI\<close>)
  have tf1: "tf1 = tf\<lparr>tf_stream := s1, tf_entries := tf_entries tf @ [?D]\<rparr>"
    using fresh start(2) small_offset [OF n]
    by (simp add: tf1_def add_regular_entry_def remove_duplicate_entry_def add_entry_def data_entry_def of_nat_diff)
  have find: "find (\<lambda>e. en_path e = ?dn) (rev (filter (\<lambda>e. en_path e \<noteq> wr_name w) (tf_entries tf1))) = Some ?D"
    using hash(2) by (simp add: tf1 data_entry_def)
  have ok1: "sm_ok (tf_stream tf1)" "sm_pos (tf_stream tf1) + 512 * header_blocks (wr_name w) \<le> sm_limit (tf_stream tf1)"
    using s1 room by (simp_all add: tf1)
  obtain b2 where b2: "length b2 = 512 * header_blocks (wr_name w)"
    "add_link now w ?dn tf1 = Some (tf1\<lparr>tf_stream := stream_write b2 (tf_stream tf1),
       tf_entries := filter (\<lambda>e. en_path e \<noteq> wr_name w) (tf_entries tf1) @
         [link_entry (wr_name w) ?dn ?D (sm_pos (tf_stream tf1)) (header_blocks (wr_name w))]\<rparr>)"
    "\<exists>h1. construct_header now (link_header (wr_name w) ?dn) = Some (h1, b2)"
    by (rule add_link_ok [OF ok1(1) dn ok1(2) find]) (simp add: data_entry_def)
  have r2: "sm_pos s1 + length b2 \<le> sm_limit s1"
    using s1 room b2(1) by simp
  note W2 = write_facts [OF s1(1) r2 refl]
  define tf' where "tf' = tf\<lparr>tf_stream := stream_write b2 s1, tf_entries := filter (\<lambda>e. en_path e \<noteq> wr_name w) (tf_entries tf) @
     [?D, link_entry (wr_name w) ?dn ?D E (header_blocks (wr_name w))]\<rparr>"
  have "add_entry_for_new_data now w (int E) n hash tf = Some tf'"
    using b2(2) hash(2) s1(2) s(1)
    by (simp add: add_entry_for_new_data_def Let_def seek h(1,3-6) seek1 tf1_def [symmetric]) (simp add: tf1 tf'_def data_entry_def)
  moreover have "grows (P - 512) (tf_stream tf) (stream_write b2 s1)"
    using grows_trans [OF g1 write_grows [OF s1(1) r2 refl]] s1(2) B start(2) by (simp add: E_def)
  moreover have "field P n (sm_data (stream_write b2 s1)) = content"
    using W2(7) [of P n] s1 B by (simp add: E_def n_def)
  moreover have "holds_header (sm_data (stream_write block s)) (P - 512) (make_header ?dn n) 1"
    using written_holds [OF s(1) r1 h(7), of 1] h(2) s(2) by simp
  then have "holds_header (sm_data s1) (P - 512) (make_header ?dn n) 1"
    by (simp add: s1_def)
  then have "holds_header (sm_data (stream_write b2 s1)) (P - 512) (make_header ?dn n) 1"
    by (rule holds_kept [OF _ write_grows [OF s1(1) r2 refl, of P]]) (use s1(2) B start(2) in \<open>simp_all add: E_def\<close>)
  moreover have "holds_header (sm_data (stream_write b2 s1)) E (link_header (wr_name w) ?dn) (header_blocks (wr_name w))"
    using written_holds [OF s1(1) r2 b2(3,1)] s1(2) by simp
  ultimately show thesis
    using W2(2,4) s1(2) b2(1) by (intro that [of tf']) (simp_all add: tf'_def)
qed

text \<open>What a write of new data leaves.\<close>

definition wrote :: "byte list \<Rightarrow> byte list \<Rightarrow> byte list \<Rightarrow> tar_file \<Rightarrow> tar_file \<Rightarrow> bool" where
  "wrote name dn content tf tf' \<longleftrightarrow> tar_ok tf' \<and> read_file tf' name = Some content \<and> read_file tf' dn = Some content \<and>
     (\<forall>p. p \<noteq> name \<longrightarrow> p \<noteq> dn \<longrightarrow> read_file tf' p = read_file tf p)"

lemma find_append_case: "find Q (xs @ ys) = (case find Q xs of None \<Rightarrow> find Q ys | Some x \<Rightarrow> Some x)"
  by (induction xs) auto

lemma wrote_entries:
  fixes F P E k :: nat and content :: "byte list"
  defines "n \<equiv> length content"
  assumes ok: "tar_ok tf" and F: "F = nat (frontier tf)" and name: "name \<noteq> dn" "dn \<notin> en_path ` set (tf_entries tf)"
    and s: "grows F (tf_stream tf) (tf_stream tf')" "field P n (sm_data (tf_stream tf')) = content"
    and es: "tf_entries tf' = filter (\<lambda>e. en_path e \<noteq> name) (tf_entries tf) @ [data_entry dn P n, link_entry name dn (data_entry dn P n) E k]"
    and flags: "\<not> tf_writing tf'" "\<not> tf_mapped tf'"
    and pos: "F \<le> P" "P + n \<le> E" "512 dvd E" "E + 512 * k \<le> length (sm_data (tf_stream tf'))"
  shows "wrote name dn content tf tf'"
proof -
  let ?D = "data_entry dn P n" and ?L = "link_entry name dn (data_entry dn P n) E k"
  obtain e where e: "E = 512 * e"
    using pos(3) by auto
  have mod: "int (E + 512 * k) mod 512 = 0"
    unfolding e by simp
  have fr: "frontier tf' = int (E + 512 * k)"
    using mod by (simp add: frontier_def es append_pos_def is_symlink_def link_entry_def Let_def)
  have nf: "nat (frontier tf') = E + 512 * k"
    unfolding fr by (rule nat_int)
  have old: "entry_ok F x" if "x \<in> set (tf_entries tf)" for x
    using ok that F by (simp add: tar_ok_def list_all_iff)
  have new: "entry_ok (E + 512 * k) x" if "x \<in> set (tf_entries tf')" for x
    using that old [of x] pos by (auto simp: es entry_ok_def data_entry_def link_entry_def)
  have "512 dvd E + 512 * k"
    unfolding e by simp
  then have "512 dvd nat (frontier tf')"
    unfolding nf .
  then have tar: "tar_ok tf'"
    using s(1) flags pos(4) new unfolding tar_ok_def nf by (simp add: list_all_iff grows_def fr del: of_nat_add)
  have bytes: "entry_bytes tf' ?D = content" "entry_bytes tf' ?L = content"
    using s(2) by (simp_all add: entry_bytes_def data_entry_def link_entry_def)
  have gone: "find (\<lambda>x. en_path x = name) (filter (\<lambda>x. en_path x \<noteq> name) xs) = None" for xs :: "entry list"
    by (induction xs) auto
  have none: "find (\<lambda>x. en_path x = dn) (filter (\<lambda>x. en_path x \<noteq> name) xs) = None" if "dn \<notin> en_path ` set xs" for xs :: "entry list"
    using that by (induction xs) auto
  have find_name: "find (\<lambda>x. en_path x = name) (tf_entries tf') = Some ?L"
    unfolding es find_append_case gone using name(1) by (simp add: data_entry_def link_entry_def)
  have find_dn: "find (\<lambda>x. en_path x = dn) (tf_entries tf') = Some ?D"
    unfolding es find_append_case none [OF name(2)] by (simp add: data_entry_def)
  have same: "read_file tf' p = read_file tf p" if p: "p \<noteq> name" "p \<noteq> dn" for p
  proof -
    have ff: "find (\<lambda>x. en_path x = p) (filter (\<lambda>x. en_path x \<noteq> name) xs) = find (\<lambda>x. en_path x = p) xs" for xs
      using p(1) by (induction xs) auto
    have f: "find (\<lambda>x. en_path x = p) (tf_entries tf') = find (\<lambda>x. en_path x = p) (tf_entries tf)"
      using p by (simp add: es find_append_case ff data_entry_def link_entry_def split: option.splits)
    have b: "entry_bytes tf' x = entry_bytes tf x" if "x \<in> set (tf_entries tf)" for x
    proof -
      have "nat (en_data_begin x) + nat (en_data_end x - en_data_begin x) \<le> F"
        using old [OF that] unfolding entry_ok_def by arith
      moreover have "F \<le> length (sm_data (tf_stream tf))"
        using ok F by (simp add: tar_ok_def)
      ultimately show ?thesis
        using s(1) by (simp add: entry_bytes_def grows_def)
    qed
    show ?thesis
    proof (cases "find (\<lambda>x. en_path x = p) (tf_entries tf)")
      case None
      then show ?thesis
        unfolding read_file_ok [OF tar] read_file_ok [OF ok] f by simp
    next
      case (Some x)
      then have "x \<in> set (tf_entries tf)"
        by (auto simp: find_Some_iff)
      then show ?thesis
        unfolding read_file_ok [OF tar] read_file_ok [OF ok] f using Some b by simp
    qed
  qed
  show ?thesis
    unfolding wrote_def using tar same by (simp add: read_file_ok [OF tar] find_name find_dn bytes)
qed

definition space_for :: "byte list \<Rightarrow> byte list \<Rightarrow> nat" where
  "space_for name content = length content + 512 + 512 * header_blocks name + 1024"

text \<open>A write up to the choice the destructor makes.\<close>

lemma write_begun:
  fixes tf :: tar_file and name content :: "byte list" and md5 :: "byte list \<Rightarrow> byte list"
  defines "F \<equiv> nat (frontier tf)" and "n \<equiv> length content" and "dn \<equiv> data_name (md5 content)"
  assumes ok: "tar_ok tf" and room: "room_for (space_for name content) tf"
  obtains tf3 P w i where "w = \<lparr>wr_name = name, wr_begin = int P\<rparr>" "P = F + 512 * Suc i" "pads (sm_data (tf_stream tf3)) F (Suc i)" "P mod 4096 = 0"
    "blocks_end P n + 512 * header_blocks name + 1024 \<le> sm_limit (tf_stream tf)"
    "grows F (tf_stream tf) (tf_stream tf3)" "sm_pos (tf_stream tf3) = blocks_end P n"
    "field P n (sm_data (tf_stream tf3)) = content" "P + n \<le> length (sm_data (tf_stream tf3))"
    "tf_entries tf3 = tf_entries tf" "\<not> tf_writing tf3" "\<not> tf_mapped tf3"
    "write_file md5 now tf name content = map_option (leave_writer \<circ> add_1024_padding)
       (if find_prev_entry tf dn = None then add_entry_for_new_data now w (int (blocks_end P n)) n (md5 content) tf3
        else if find_prev_entry tf name = None then add_symlink_for_existing_entry now w (md5 content) tf3
        else let s1 = seek (int P - 512) (tf_stream tf3) in if sm_ok s1 then Some (tf3\<lparr>tf_stream := s1\<rparr>) else None)"
proof -
  have "room_for 0 tf"
    using room by (simp add: room_for_def)
  then obtain tf1 P i where c: "create_writer now tf name = Some (tf1, Some \<lparr>wr_name = name, wr_begin = int P\<rparr>)"
    "grows F (tf_stream tf) (tf_stream tf1)" "sm_pos (tf_stream tf1) = P" "P = F + 512 * Suc i" "i \<le> 7" "P mod 4096 = 0"
    "tf_entries tf1 = tf_entries tf" "tf_mapped tf1 = tf_mapped tf" "tf_padding tf1 \<le> tf_padding tf + 8"
    "pads (sm_data (tf_stream tf1)) F (Suc i)"
    using create_writer_ok [OF ok, of now name thesis] unfolding F_def by blast
  let ?w = "\<lparr>wr_name = name, wr_begin = int P\<rparr>" and ?E = "blocks_end P n"
  note B = blocks_end_bounds [of P n]
  have limit: "sm_limit (tf_stream tf1) = sm_limit (tf_stream tf)" "sm_ok (tf_stream tf1)"
    using c(2) by (simp_all add: grows_def)
  have "F + 4096 + space_for name content \<le> sm_limit (tf_stream tf)"
    using room by (simp add: room_for_def F_def)
  then have E: "?E + 512 * header_blocks name + 1024 \<le> sm_limit (tf_stream tf)"
    using B(2) c(4,5) by (simp add: space_for_def n_def)
  define s2 where "s2 = stream_write content (tf_stream tf1)"
  have r2: "sm_pos (tf_stream tf1) + length content \<le> sm_limit (tf_stream tf1)"
    using limit E B(1) c(3) by (simp add: n_def)
  note W2 = write_facts [OF limit(2) r2 s2_def]
  have g2: "grows F (tf_stream tf) s2"
    by (rule grows_trans [OF c(2) write_grows [OF limit(2) r2 s2_def]]) (use c(3,4) in simp)
  have s2: "sm_pos s2 = P + length content" "blocks_end P (length content) \<le> sm_limit s2"
    "field P (length content) (sm_data s2) = content" "P + length content \<le> length (sm_data s2)"
    using W2 c(3) limit E by (simp_all add: n_def)
  obtain s3 where s3: "get_content_check_sum md5 ?w s2 = Some (s3, Some (int ?E, n, md5 content))" "grows (P + n) s2 s3"
    "sm_pos s3 = ?E" "field P n (sm_data s3) = content" "P + n \<le> length (sm_data s3)"
    by (rule check_sum_ok [OF W2(1) s2(1,2) _ s2(3,4), of ?w md5]) (simp_all add: n_def)
  define tf3 where "tf3 = tf1\<lparr>tf_writing := False, tf_stream := s3\<rparr>"
  have "pads (sm_data s2) F (Suc i)"
    by (rule pads_kept [OF c(10) write_grows [OF limit(2) r2 s2_def, of P]]) (use c(3,4) in simp_all)
  then have pads: "pads (sm_data (tf_stream tf3)) F (Suc i)"
    unfolding tf3_def using c(4) by (auto intro: pads_kept [OF _ s3(2)])
  have g3: "grows F (tf_stream tf) (tf_stream tf3)"
    unfolding tf3_def by simp (rule grows_trans [OF g2 grows_less [OF s3(2)]], use c(4) in simp)
  have prev: "find_prev_entry tf3 = find_prev_entry tf"
    using c(7) by (simp add: find_prev_entry_def tf3_def fun_eq_iff)
  have "\<not> tf_mapped tf"
    using ok by (simp add: tar_ok_def)
  then have "write_file md5 now tf name content = close_writer md5 now ?w (tf1\<lparr>tf_stream := s2\<rparr>)"
    using c(1) by (simp add: write_file_def open_for_write_def s2_def)
  also have "\<dots> = map_option (leave_writer \<circ> add_1024_padding)
       (if find_prev_entry tf dn = None then add_entry_for_new_data now ?w (int ?E) n (md5 content) tf3
        else if find_prev_entry tf name = None then add_symlink_for_existing_entry now ?w (md5 content) tf3
        else let s1 = seek (int P - 512) (tf_stream tf3) in if sm_ok s1 then Some (tf3\<lparr>tf_stream := s1\<rparr>) else None)"
    unfolding prev [symmetric] dn_def using s3(1) by (simp add: close_writer_def Let_def tf3_def)
  finally show thesis
    using c(4-8) E g3 s3(3-5) pads \<open>\<not> tf_mapped tf\<close> by (intro that [of ?w P i tf3]) (simp_all add: tf3_def)
qed

text \<open>The end of a write: 1024 zeros, and the writer is gone.\<close>

lemma write_ended:
  assumes ok: "sm_ok (tf_stream tf)" and room: "sm_pos (tf_stream tf) + 1024 \<le> sm_limit (tf_stream tf)"
  defines "tf' \<equiv> leave_writer (add_1024_padding tf)"
  shows "tf_stream tf' = stream_write (replicate 1024 0) (tf_stream tf)" and "tf_entries tf' = tf_entries tf"
    and "tf_writing tf' = tf_writing tf" and "tf_mapped tf' = tf_mapped tf"
  using write_facts(1) [OF ok, of "replicate 1024 0" "stream_write (replicate 1024 0) (tf_stream tf)"] room
  by (simp_all add: tf'_def leave_writer_def add_1024_padding_def)

text \<open>What lies behind the frontier after a write of new data, and the entries it makes.\<close>

definition new_layout :: "byte list \<Rightarrow> nat \<Rightarrow> entry list \<Rightarrow> entry list \<Rightarrow> byte list \<Rightarrow> byte list \<Rightarrow> nat \<Rightarrow> bool" where
  "new_layout d F es es' name dn n \<longleftrightarrow> (\<exists>i P. let E = blocks_end P n; k = header_blocks name; D = data_entry dn P n in
     P = F + 512 * Suc i \<and> 512 dvd P \<and> pads d F i \<and> holds_header d (F + 512 * i) (make_header dn n) 1 \<and>
     holds_header d E (link_header name dn) k \<and> ends_at d (E + 512 * k) \<and>
     es' = filter (\<lambda>e. en_path e \<noteq> name) es @ [D, link_entry name dn D E k])"

lemma zeros_end:
  assumes "sm_ok s" and "sm_pos s + 1024 \<le> sm_limit s"
  shows "ends_at (sm_data (stream_write (replicate 1024 0) s)) (sm_pos s)"
proof -
  have r: "sm_pos s + length (replicate 1024 (0 :: byte)) \<le> sm_limit s"
    using assms(2) by simp
  have "take 512 (field (sm_pos s) 1024 (sm_data (stream_write (replicate 1024 0) s))) = take 512 (replicate 1024 0)"
    using write_facts(5) [OF assms(1) r refl] by simp
  then show ?thesis
    by (simp add: ends_at_def field_def zero_block_def)
qed

lemma write_new_file:
  assumes ok: "tar_ok tf" and room: "room_for (space_for name content) tf"
    and hash: "length (md5 content) < 90" "name \<noteq> data_name (md5 content)" "\<not> has_file tf (data_name (md5 content))"
  shows "\<exists>tf'. write_file md5 now tf name content = Some tf' \<and> wrote name (data_name (md5 content)) content tf tf' \<and>
    grows (nat (frontier tf)) (tf_stream tf) (tf_stream tf') \<and>
    new_layout (sm_data (tf_stream tf')) (nat (frontier tf)) (tf_entries tf) (tf_entries tf') name (data_name (md5 content)) (length content)"
proof -
  let ?n = "length content" and ?h = "md5 content" and ?F = "nat (frontier tf)" and ?k = "header_blocks name"
  obtain tf3 P w i where b: "w = \<lparr>wr_name = name, wr_begin = int P\<rparr>" "P = ?F + 512 * Suc i" "pads (sm_data (tf_stream tf3)) ?F (Suc i)"
    "P mod 4096 = 0"
    "blocks_end P ?n + 512 * ?k + 1024 \<le> sm_limit (tf_stream tf)"
    "grows ?F (tf_stream tf) (tf_stream tf3)" "sm_pos (tf_stream tf3) = blocks_end P ?n"
    "field P ?n (sm_data (tf_stream tf3)) = content" "P + ?n \<le> length (sm_data (tf_stream tf3))"
    "tf_entries tf3 = tf_entries tf" "\<not> tf_writing tf3" "\<not> tf_mapped tf3"
    and eq: "write_file md5 now tf name content = map_option (leave_writer \<circ> add_1024_padding)
       (if find_prev_entry tf (data_name ?h) = None then add_entry_for_new_data now w (int (blocks_end P ?n)) ?n ?h tf3
        else if find_prev_entry tf name = None then add_symlink_for_existing_entry now w ?h tf3
        else let s1 = seek (int P - 512) (tf_stream tf3) in if sm_ok s1 then Some (tf3\<lparr>tf_stream := s1\<rparr>) else None)"
    by (rule write_begun [OF ok room, of md5 now])
  let ?E = "blocks_end P ?n"
  note B = blocks_end_bounds [of P ?n]
  have no_dn: "data_name ?h \<notin> en_path ` set (tf_entries tf)"
    using hash(3) by (auto simp: has_file_def list_ex_iff)
  have none: "find_prev_entry tf (data_name ?h) = None"
    unfolding find_prev_entry_def find_None_iff using no_dn by (metis imageI)
  have ok3: "sm_ok (tf_stream tf3)" "sm_limit (tf_stream tf3) = sm_limit (tf_stream tf)"
    using b(6) by (simp_all add: grows_def)
  have n63: "?n < 2 ^ 63"
    using b(5) B(1) room by (simp add: room_for_def)
  obtain tf4 where t4: "add_entry_for_new_data now w (int ?E) ?n ?h tf3 = Some tf4"
    "grows (P - 512) (tf_stream tf3) (tf_stream tf4)" "field P ?n (sm_data (tf_stream tf4)) = content"
    "sm_pos (tf_stream tf4) = ?E + 512 * header_blocks (wr_name w)" "sm_pos (tf_stream tf4) \<le> length (sm_data (tf_stream tf4))"
    "tf4 = tf3\<lparr>tf_stream := tf_stream tf4, tf_entries := filter (\<lambda>e. en_path e \<noteq> wr_name w) (tf_entries tf3) @
       [data_entry (data_name ?h) P ?n, link_entry (wr_name w) (data_name ?h) (data_entry (data_name ?h) P ?n) ?E (header_blocks (wr_name w))]\<rparr>"
    "holds_header (sm_data (tf_stream tf4)) (P - 512) (make_header (data_name ?h) ?n) 1"
    "holds_header (sm_data (tf_stream tf4)) ?E (link_header (wr_name w) (data_name ?h)) (header_blocks (wr_name w))"
    by (rule new_data_added [OF ok3(1), of w P content ?h now]) (use b n63 ok3(2) hash(1,2) no_dn in simp_all)
  have g4: "grows ?F (tf_stream tf) (tf_stream tf4)"
    by (rule grows_trans [OF b(6) grows_less [OF t4(2)]]) (use b(2) in simp)
  have ok4: "sm_ok (tf_stream tf4)" "sm_limit (tf_stream tf4) = sm_limit (tf_stream tf)"
    using g4 by (simp_all add: grows_def)
  have r5: "sm_pos (tf_stream tf4) + length (replicate 1024 (0 :: byte)) \<le> sm_limit (tf_stream tf4)"
    using t4(4) ok4(2) b(1,5) by simp
  note W5 = write_facts [OF ok4(1) r5 refl]
  define tf5 where "tf5 = leave_writer (add_1024_padding tf4)"
  note e5 = write_ended [OF ok4(1) r5 [simplified], folded tf5_def]
  have "write_file md5 now tf name content = Some tf5"
    using eq t4(1) none by (simp add: tf5_def)
  moreover have g5: "grows ?F (tf_stream tf) (tf_stream tf5)"
    unfolding e5 using t4(4) B b(2) by (intro grows_trans [OF g4 write_grows [OF ok4(1) r5 refl]]) simp
  moreover have es5: "tf_entries tf5 = filter (\<lambda>e. en_path e \<noteq> name) (tf_entries tf) @
      [data_entry (data_name ?h) P ?n, link_entry name (data_name ?h) (data_entry (data_name ?h) P ?n) ?E ?k]"
    unfolding e5 by (subst t4(6)) (simp add: b(1,10))
  moreover have "wrote name (data_name ?h) content tf tf5"
  proof (rule wrote_entries [OF ok refl hash(2) no_dn g5 _ es5])
    show "field P ?n (sm_data (tf_stream tf5)) = content"
      unfolding e5 using W5(7) [of P ?n] t4(3-5) B(1) by simp
    show "?E + 512 * ?k \<le> length (sm_data (tf_stream tf5))"
      unfolding e5 using W5(4) t4(4,5) b(1) by simp
    show "\<not> tf_writing tf5" "\<not> tf_mapped tf5"
      unfolding e5 by (subst t4(6), simp add: b(11,12))+
    show "512 dvd ?E"
      using b(4) by (simp add: blocks_end_def dvd_eq_mod_eq_0 [symmetric] dvd_trans [of 512 4096])
  qed (use b(2) B(1) in simp_all)
  moreover have "new_layout (sm_data (tf_stream tf5)) ?F (tf_entries tf) (tf_entries tf5) name (data_name ?h) ?n"
  proof -
    have w5: "grows (?E + 512 * ?k) (tf_stream tf4) (tf_stream tf5)"
      unfolding e5 by (rule write_grows [OF ok4(1) r5 refl]) (use t4(4) b(1) in simp)
    have "pads (sm_data (tf_stream tf4)) ?F i"
      using pads_less [OF b(3), of i] b(2) by (intro pads_kept [OF _ t4(2)]) simp_all
    then have "pads (sm_data (tf_stream tf5)) ?F i"
      by (rule pads_kept [OF _ w5]) (use b(2) B(1) in simp)
    moreover have "holds_header (sm_data (tf_stream tf5)) (?F + 512 * i) (make_header (data_name ?h) ?n) 1"
      using holds_kept [OF t4(7) w5] b(2) B(1) by simp
    moreover have "holds_header (sm_data (tf_stream tf5)) ?E (link_header name (data_name ?h)) ?k"
      using holds_kept [OF t4(8) w5] b(1) by simp
    moreover have "ends_at (sm_data (tf_stream tf5)) (?E + 512 * ?k)"
      unfolding e5 using zeros_end [OF ok4(1)] r5 t4(4) b(1) by simp
    moreover have "512 dvd P"
      using b(4) by (simp add: dvd_eq_mod_eq_0 [symmetric] dvd_trans [of 512 4096])
    ultimately show ?thesis
      unfolding new_layout_def Let_def using b(2) es5 by blast
  qed
  ultimately show ?thesis
    by blast
qed

end
