(* ===== verification/Tar_Known.thy ===== *)
theory Tar_Known
  imports Tar_Correct
begin

text \<open>
  A write whose data the tar file holds already: a new name becomes a link to the data, for a
  name that exists nothing changes, and every file reads as before.
\<close>

lemma find_filter: "find Q xs = (case filter Q xs of [] \<Rightarrow> None | x # _ \<Rightarrow> Some x)"
  by (induction xs) auto

text \<open>The data's one entry, which is no link.\<close>

definition data_there :: "tar_file \<Rightarrow> byte list \<Rightarrow> bool" where
  "data_there tf p = (case filter (\<lambda>e. en_path e = p) (tf_entries tf) of [d] \<Rightarrow> \<not> is_symlink d | _ \<Rightarrow> False)"

lemma data_thereE:
  assumes "data_there tf p"
  obtains d where "filter (\<lambda>e. en_path e = p) (tf_entries tf) = [d]" "en_link d = None" "en_path d = p"
    "d \<in> set (tf_entries tf)" "find (\<lambda>e. en_path e = p) (tf_entries tf) = Some d"
proof -
  obtain d where d: "filter (\<lambda>e. en_path e = p) (tf_entries tf) = [d]" "en_link d = None"
    using assms by (auto simp: data_there_def is_symlink_def split: list.splits)
  then have "d \<in> {e \<in> set (tf_entries tf). en_path e = p}"
    by (metis list.set_intros(1) set_filter)
  then show thesis
    using d by (intro that [of d]) (simp_all add: find_filter)
qed

lemma read_kept:
  assumes ok: "tar_ok tf" "tar_ok tf'" and g: "grows (nat (frontier tf)) (tf_stream tf) (tf_stream tf')"
    and f: "find (\<lambda>x. en_path x = p') (tf_entries tf') = Some e'" "find (\<lambda>x. en_path x = p) (tf_entries tf) = Some e"
    and same: "en_data_begin e' = en_data_begin e" "en_data_end e' = en_data_end e"
  shows "read_file tf' p' = read_file tf p"
proof -
  have "e \<in> set (tf_entries tf)"
    using f(2) by (auto simp: find_Some_iff)
  then have "entry_ok (nat (frontier tf)) e"
    using ok(1) by (simp add: tar_ok_def list_all_iff)
  then have "nat (en_data_begin e) + nat (en_data_end e - en_data_begin e) \<le> nat (frontier tf)"
    unfolding entry_ok_def by arith
  moreover have "nat (frontier tf) \<le> length (sm_data (tf_stream tf))"
    using ok(1) by (simp add: tar_ok_def)
  ultimately show ?thesis
    using g f same by (simp add: read_file_ok [OF ok(1)] read_file_ok [OF ok(2)] entry_bytes_def grows_def)
qed

lemma read_unknown:
  assumes "tar_ok tf" and "find (\<lambda>x. en_path x = p) (tf_entries tf) = None"
  shows "read_file tf p = None"
  using assms by (simp add: read_file_ok)

text \<open>A file that keeps its entries reads as before.\<close>

lemma same_entries_read:
  assumes ok: "tar_ok tf" and g: "grows (nat (frontier tf)) (tf_stream tf) (tf_stream tf')"
    and es: "tf_entries tf' = tf_entries tf" "\<not> tf_writing tf'" "\<not> tf_mapped tf'"
  shows "tar_ok tf'" and "read_file tf' p = read_file tf p"
proof -
  have "frontier tf' = frontier tf"
    using es(1) by (simp add: frontier_def)
  then show t: "tar_ok tf'"
    using ok g es by (simp add: tar_ok_def grows_def)
  show "read_file tf' p = read_file tf p"
    by (cases "find (\<lambda>x. en_path x = p) (tf_entries tf)")
      (use es(1) in \<open>auto simp: read_unknown ok t intro: read_kept [OF ok t g]\<close>)
qed

text \<open>A link to the data, added where the last entry ended.\<close>

lemma linked_reads:
  fixes E k :: nat
  assumes ok: "tar_ok tf" and g: "grows (nat (frontier tf)) (tf_stream tf) (tf_stream tf')"
    and d: "data_there tf dn" and new: "\<not> has_file tf name" and one: "find (\<lambda>x. en_path x = dn) (tf_entries tf) = Some d"
    and es: "tf_entries tf' = tf_entries tf @ [link_entry name dn d E k]" "\<not> tf_writing tf'" "\<not> tf_mapped tf'"
    and E: "nat (frontier tf) \<le> E" "512 dvd E" "E + 512 * k \<le> length (sm_data (tf_stream tf'))"
  shows "tar_ok tf'" and "read_file tf' p = read_file tf (if p = name then dn else p)"
proof -
  have fr: "frontier tf' = int (E + 512 * k)"
    using E(2) by (auto simp: frontier_def es append_pos_def is_symlink_def link_entry_def Let_def elim!: dvdE)
  have nf: "nat (frontier tf') = E + 512 * k"
    unfolding fr by (rule nat_int)
  have "d \<in> set (tf_entries tf)"
    using one by (auto simp: find_Some_iff)
  then have "entry_ok (E + 512 * k) x" if "x \<in> set (tf_entries tf')" for x
    using that ok E(1) by (auto simp: es tar_ok_def list_all_iff entry_ok_def link_entry_def)
  moreover have "512 dvd E + 512 * k"
    using E(2) by simp
  ultimately show t: "tar_ok tf'"
    using g es E(3) unfolding tar_ok_def nf by (simp add: list_all_iff grows_def fr del: of_nat_add)
  have none: "find (\<lambda>x. en_path x = name) (tf_entries tf) = None"
    using new by (auto simp: has_file_def list_ex_iff find_None_iff)
  show "read_file tf' p = read_file tf (if p = name then dn else p)"
  proof (cases "p = name")
    case True
    then show ?thesis
      using none one by (auto intro!: read_kept [OF ok t g] simp: es find_append_case link_entry_def)
  next
    case False
    then show ?thesis
      by (cases "find (\<lambda>x. en_path x = p) (tf_entries tf)")
        (auto simp: read_unknown ok t es find_append_case link_entry_def intro!: read_kept [OF ok t g])
  qed
qed

lemma linked_last:
  assumes "filter Q es = [d]" and "\<And>x. Q x \<Longrightarrow> R x"
  shows "find Q (rev (filter R es)) = Some d"
proof -
  have "filter Q (filter R es) = filter Q es"
    using assms(2) by (metis (mono_tags, lifting) filter_cong filter_filter)
  then show ?thesis
    using assms(1) by (simp add: find_filter rev_filter [symmetric])
qed

text \<open>What lies behind the frontier after a write of known data, and the entries it makes.\<close>

definition old_layout :: "byte list \<Rightarrow> nat \<Rightarrow> entry list \<Rightarrow> entry list \<Rightarrow> byte list \<Rightarrow> byte list \<Rightarrow> bool" where
  "old_layout d F es es' name dn \<longleftrightarrow> (\<exists>i. let k = header_blocks name in pads d F i \<and>
     (if list_ex (\<lambda>e. en_path e = name) es then es' = es \<and> ends_at d (F + 512 * i)
      else \<exists>r. find (\<lambda>e. en_path e = dn) (rev es) = Some r \<and> en_link r = None \<and> holds_header d (F + 512 * i) (link_header name dn) k \<and>
        ends_at d (F + 512 * i + 512 * k) \<and> es' = es @ [link_entry name dn r (F + 512 * i) k]))"

lemma write_old_data:
  assumes ok: "tar_ok tf" and room: "room_for (space_for name content) tf"
    and hash: "length (md5 content) < 90" "name \<noteq> data_name (md5 content)" "data_there tf (data_name (md5 content))"
  shows "\<exists>tf'. write_file md5 now tf name content = Some tf' \<and> tar_ok tf' \<and>
    (\<forall>p. read_file tf' p = read_file tf (if p = name \<and> \<not> has_file tf name then data_name (md5 content) else p)) \<and>
    grows (nat (frontier tf)) (tf_stream tf) (tf_stream tf') \<and>
    old_layout (sm_data (tf_stream tf')) (nat (frontier tf)) (tf_entries tf) (tf_entries tf') name (data_name (md5 content))"
proof -
  let ?n = "length content" and ?h = "md5 content" and ?F = "nat (frontier tf)" and ?k = "header_blocks name"
  obtain tf3 P w i where b: "w = \<lparr>wr_name = name, wr_begin = int P\<rparr>" "P = ?F + 512 * Suc i" "pads (sm_data (tf_stream tf3)) ?F (Suc i)"
    "P mod 4096 = 0"
    "blocks_end P ?n + 512 * ?k + 1024 \<le> sm_limit (tf_stream tf)"
    "grows ?F (tf_stream tf) (tf_stream tf3)" "sm_pos (tf_stream tf3) = blocks_end P ?n"
    "field P ?n (sm_data (tf_stream tf3)) = content" "P + ?n \<le> length (sm_data (tf_stream tf3))"
    "tf_entries tf3 = tf_entries tf" "\<not> tf_writing tf3" "\<not> tf_mapped tf3"
    and eq: "write_file md5 now tf name content = map_option (leave_writer \<circ> add_1024_padding)
       (if find_prev_entry tf (data_name ?h) = None then add_entry_for_new_data now w (int (blocks_end P ?n)) ?n ?h tf3
        else if find_prev_entry tf name = None then add_symlink_for_existing_entry now w ?h tf3
        else let s1 = seek (int P - 512) (tf_stream tf3) in if sm_ok s1 then Some (tf3\<lparr>tf_stream := s1\<rparr>) else None)"
    by (rule write_begun [OF ok room, of md5 now])
  obtain d where d: "filter (\<lambda>e. en_path e = data_name ?h) (tf_entries tf) = [d]" "en_link d = None"
    "find (\<lambda>e. en_path e = data_name ?h) (tf_entries tf) = Some d"
    using hash(3) by (rule data_thereE)
  have B: "P \<le> blocks_end P ?n"
    using blocks_end_bounds(1) [of P ?n] by simp
  have old: "find_prev_entry tf name = None \<longleftrightarrow> \<not> has_file tf name"
    by (auto simp: find_prev_entry_def find_None_iff has_file_def list_ex_iff)
  have there: "find_prev_entry tf (data_name ?h) = Some d"
    using d(3) by (simp add: find_prev_entry_def)
  have ok3: "sm_ok (tf_stream tf3)" "sm_limit (tf_stream tf3) = sm_limit (tf_stream tf)"
    using b(6) by (simp_all add: grows_def)
  define tfs where "tfs = tf3\<lparr>tf_stream := (tf_stream tf3)\<lparr>sm_pos := P - 512\<rparr>\<rparr>"
  have rewind: "seek (int P - 512) (tf_stream tf3) = tf_stream tfs"
    using ok3 b(2) by (simp add: seek_good tfs_def nat_diff_distrib)
  have oks: "sm_ok (tf_stream tfs)" "sm_pos (tf_stream tfs) = P - 512" "sm_limit (tf_stream tfs) = sm_limit (tf_stream tf)"
    "tf_entries tfs = tf_entries tf" "\<not> tf_writing tfs" "\<not> tf_mapped tfs"
    using ok3 b(10-12) by (simp_all add: tfs_def)
  have gs: "grows ?F (tf_stream tf) (tf_stream tfs)"
    using grows_trans [OF b(6) grows_pos [OF ok3(1)]] by (simp add: tfs_def)
  have pads: "pads (sm_data (tf_stream tfs)) ?F i"
    using pads_less [OF b(3), of i] by (simp add: tfs_def)
  have at: "P - 512 = ?F + 512 * i"
    using b(2) by simp
  show ?thesis
  proof (cases "has_file tf name")
    case True
    then obtain y where y: "find_prev_entry tf name = Some y"
      using old by blast
    define tf5 where "tf5 = leave_writer (add_1024_padding tfs)"
    have r5: "sm_pos (tf_stream tfs) + length (replicate 1024 (0 :: byte)) \<le> sm_limit (tf_stream tfs)"
      using oks b(5) B by simp
    note e5 = write_ended [OF oks(1) r5 [simplified], folded tf5_def]
    have g5: "grows ?F (tf_stream tf) (tf_stream tf5)"
      unfolding e5 using oks(2) b(2) by (intro grows_trans [OF gs write_grows [OF oks(1) r5 refl]]) simp
    note same = same_entries_read [OF ok g5 e5(2) [unfolded oks(4)]]
    have "write_file md5 now tf name content = Some tf5"
      using eq rewind oks(1) there y by (simp add: tf5_def) (simp add: tfs_def)
    moreover have "old_layout (sm_data (tf_stream tf5)) ?F (tf_entries tf) (tf_entries tf5) name (data_name ?h)"
    proof -
      have "pads (sm_data (tf_stream tf5)) ?F i"
        unfolding e5 by (rule pads_kept [OF pads write_grows [OF oks(1) r5 refl, of "P - 512"]]) (use oks(2) at in simp_all)
      moreover have "ends_at (sm_data (tf_stream tf5)) (?F + 512 * i)"
        unfolding e5 using zeros_end [OF oks(1)] r5 oks(2) at by simp
      moreover have "list_ex (\<lambda>e. en_path e = name) (tf_entries tf)"
        using True by (simp add: has_file_def)
      ultimately show ?thesis
        unfolding old_layout_def Let_def using e5(2) oks(4) by (intro exI [of _ i]) simp
    qed
    ultimately show ?thesis
      using same g5 oks(5,6) e5(3,4) True by simp
  next
    case False
    have kept: "filter (\<lambda>e. en_path e \<noteq> name) (tf_entries tf) = tf_entries tf"
      using False by (auto simp: has_file_def list_ex_iff intro!: filter_True)
    have "find (\<lambda>e. en_path e = data_name ?h) (rev (filter (\<lambda>e. en_path e \<noteq> wr_name w) (tf_entries tfs))) = Some d"
      unfolding oks(4) by (rule linked_last [OF d(1)]) (use hash(2) b(1) in auto)
    moreover have "length (data_name ?h) < 100"
      using hash(1) by (simp add: data_name_def text_bytes_def)
    moreover have "sm_pos (tf_stream tfs) + 512 * header_blocks (wr_name w) \<le> sm_limit (tf_stream tfs)"
      using oks b(1,5) B by simp
    ultimately obtain block where block: "length block = 512 * ?k"
      "add_link now w (data_name ?h) tfs = Some (tfs\<lparr>tf_stream := stream_write block (tf_stream tfs),
         tf_entries := tf_entries tf @ [link_entry name (data_name ?h) d (P - 512) ?k]\<rparr>)"
      "\<exists>h1. construct_header now (link_header name (data_name ?h)) = Some (h1, block)"
      using add_link_ok [OF oks(1), of "data_name ?h" w d now thesis] d(2) b(1) kept oks(2,4) by simp
    define tf4 where "tf4 = tfs\<lparr>tf_stream := stream_write block (tf_stream tfs),
      tf_entries := tf_entries tf @ [link_entry name (data_name ?h) d (P - 512) ?k]\<rparr>"
    have r4: "sm_pos (tf_stream tfs) + length block \<le> sm_limit (tf_stream tfs)"
      using oks b(5) B block(1) by simp
    note W4 = write_facts [OF oks(1) r4 refl]
    have ok4: "sm_ok (tf_stream tf4)" "sm_pos (tf_stream tf4) = P - 512 + 512 * ?k" "sm_limit (tf_stream tf4) = sm_limit (tf_stream tf)"
      using W4(1-3) oks block(1) by (simp_all add: tf4_def)
    have g4: "grows ?F (tf_stream tf) (tf_stream tf4)"
      unfolding tf4_def using oks(2) b(2) by simp (rule grows_trans [OF gs write_grows [OF oks(1) r4 refl]], simp)
    have r5: "sm_pos (tf_stream tf4) + length (replicate 1024 (0 :: byte)) \<le> sm_limit (tf_stream tf4)"
      using ok4 b(5) B by simp
    note W5 = write_facts [OF ok4(1) r5 refl]
    define tf5 where "tf5 = leave_writer (add_1024_padding tf4)"
    note e5 = write_ended [OF ok4(1) r5 [simplified], folded tf5_def]
    have g5: "grows ?F (tf_stream tf) (tf_stream tf5)"
      unfolding e5 using ok4(2) b(2) by (intro grows_trans [OF g4 write_grows [OF ok4(1) r5 refl]]) simp
    have es5: "tf_entries tf5 = tf_entries tf @ [link_entry name (data_name ?h) d (P - 512) ?k]"
      unfolding e5 by (simp add: tf4_def)
    have long: "P - 512 + 512 * ?k \<le> length (sm_data (tf_stream tf5))"
      unfolding e5 using W5(4) ok4(2) by simp
    have "512 dvd P - 512"
      using b(4) by (auto simp: dvd_eq_mod_eq_0 [symmetric] intro!: dvd_diff_nat dvd_trans [of 512 4096 P])
    note reads = linked_reads [OF ok g5 hash(3) False d(3) es5 _ _ _ this long]
    have "write_file md5 now tf name content = Some tf5"
      using eq rewind oks(1) there old False block(2)
      by (simp add: add_symlink_for_existing_entry_def Let_def tf5_def b(1)) (simp add: tfs_def tf4_def)
    moreover have "old_layout (sm_data (tf_stream tf5)) ?F (tf_entries tf) (tf_entries tf5) name (data_name ?h)"
    proof -
      have w4: "grows (P - 512) (tf_stream tfs) (tf_stream tf4)"
        unfolding tf4_def using write_grows [OF oks(1) r4 refl] oks(2) by simp
      have w5: "grows (P - 512 + 512 * ?k) (tf_stream tf4) (tf_stream tf5)"
        unfolding e5 by (rule write_grows [OF ok4(1) r5 refl]) (simp add: ok4(2))
      have "pads (sm_data (tf_stream tf4)) ?F i"
        by (rule pads_kept [OF pads w4]) (simp add: at)
      then have "pads (sm_data (tf_stream tf5)) ?F i"
        by (rule pads_kept [OF _ w5]) (simp add: at)
      moreover have "holds_header (sm_data (tf_stream tf4)) (?F + 512 * i) (link_header name (data_name ?h)) ?k"
        using written_holds [OF oks(1) r4 block(3,1)] oks(2) at by (simp add: tf4_def)
      then have "holds_header (sm_data (tf_stream tf5)) (?F + 512 * i) (link_header name (data_name ?h)) ?k"
        by (rule holds_kept [OF _ w5]) (simp add: at)
      moreover have "ends_at (sm_data (tf_stream tf5)) (?F + 512 * i + 512 * ?k)"
        unfolding e5 using zeros_end [OF ok4(1)] r5 ok4(2) at by simp
      moreover have "\<not> list_ex (\<lambda>e. en_path e = name) (tf_entries tf)"
        using False by (simp add: has_file_def)
      moreover have "find (\<lambda>e. en_path e = data_name ?h) (rev (filter (\<lambda>_. True) (tf_entries tf))) = Some d"
        by (rule linked_last [OF d(1)]) simp
      ultimately show ?thesis
        unfolding old_layout_def Let_def using es5 at d(2) by (intro exI [of _ i]) simp
    qed
    ultimately show ?thesis
      using reads g5 b(2) oks(5,6) False e5(3,4) by (simp add: tf4_def)
  qed
qed

end
