(* ===== verification/Tar_Reopen.thy ===== *)
theory Tar_Reopen
  imports Tar_Known
begin

text \<open>
  A tar file that is written stays readable: what the reader finds from the start of the
  stream are the entries the writer keeps, so opening the file again gives the same files.
\<close>

section \<open>Files that can be opened again\<close>

definition persisted :: "tar_file \<Rightarrow> bool" where
  "persisted tf \<longleftrightarrow> (let d = sm_data (tf_stream tf); F = nat (frontier tf) in length d \<le> sm_limit (tf_stream tf) \<and>
     scan d 0 [] F (tf_entries tf) \<and> (\<exists>i. pads d F i \<and> ends_at d (F + 512 * i)))"

text \<open>The digits of a sum.\<close>

definition hex_text :: "byte list \<Rightarrow> bool" where
  "hex_text bs \<longleftrightarrow> bs \<noteq> [] \<and> length bs < 90 \<and> list_all (\<lambda>b. 48 \<le> b \<and> b \<le> 57 \<or> 97 \<le> b \<and> b \<le> 102) bs"

lemma data_name_bytes: "data_name hash = [95, 100, 97, 116, 97, 47] @ hash"
  by (simp add: data_name_def text_bytes_def)

lemma hex_fair: "hex_text hash \<Longrightarrow> 0 \<notin> set (data_name hash) \<and> length (data_name hash) < 100 \<and> data_name hash \<noteq> []"
  by (auto simp: hex_text_def list_all_iff data_name_bytes)

lemma data_no_padding:
  assumes "hex_text hash"
  shows "\<not> is_padding_header (make_header (data_name hash) n)"
proof
  assume p: "is_padding_header (make_header (data_name hash) n)"
  obtain b bs where h: "hash = b # bs"
    using assms by (cases hash) (simp_all add: hex_text_def)
  have b: "b \<noteq> 112"
    using assms by (auto simp: hex_text_def h)
  define m where "m = min 14 (length (data_name hash))"
  have "take m (data_name hash) = take m padding_prefix"
    using p by (simp add: is_padding_header_def make_header_def m_def Let_def)
  then have "take m (data_name hash) ! 6 = take m padding_prefix ! 6"
    by simp
  moreover have "6 < m"
    by (simp add: m_def h data_name_bytes)
  ultimately have "data_name hash ! 6 = padding_prefix ! 6"
    by simp
  then show False
    using b by (simp add: h data_name_bytes prefix_bytes)
qed

lemma link_no_padding: "target \<noteq> [] \<Longrightarrow> \<not> is_padding_header (link_header name target)"
  by (simp add: is_padding_header_def link_header_def make_header_def)

lemma data_fair: "hex_text hash \<Longrightarrow> n < 2 ^ 62 \<Longrightarrow> fair_header (make_header (data_name hash) n)"
  using hex_fair [of hash] by (simp add: fair_header_def make_header_def link_ok_def)

lemma link_fair:
  assumes "hex_text hash" and "0 \<notin> set name" and "length name \<le> 512"
  shows "fair_header (link_header name (data_name hash))"
  using hex_fair [OF assms(1)] assms(2,3) by (simp add: fair_header_def link_header_def make_header_def link_ok_def)

lemma link_frontier:
  assumes "tf_entries tf = xs @ [link_entry name dn r E k]" and "512 dvd E"
  shows "nat (frontier tf) = E + 512 * k"
proof -
  have "frontier tf = int (E + 512 * k)"
    using assms(2) by (auto simp: frontier_def assms(1) append_pos_def is_symlink_def link_entry_def Let_def elim!: dvdE)
  then show ?thesis
    by (simp only: nat_int)
qed

section \<open>The scan after a write\<close>

lemma header_next_aligned:
  assumes "512 dvd p"
  shows "header_next p k h = p + 512 * k + (th_size h + 511) div 512 * 512"
proof -
  obtain a where a: "p = 512 * a"
    using assms by auto
  have "512 * a + 512 * k + th_size h + 511 = th_size h + 511 + (a + k) * 512"
    by (simp add: algebra_simps)
  then have "(512 * a + 512 * k + th_size h + 511) div 512 = (a + k) + (th_size h + 511) div 512"
    by (simp only: div_mult_self1)
  then show ?thesis
    unfolding header_next_def a by (simp add: algebra_simps)
qed

text \<open>The scan meets a link to a regular entry.\<close>

lemma scan_link:
  assumes h: "holds_header d E (link_header name dn) k" and fair: "fair_header (link_header name dn)" and dn: "dn \<noteq> []" and E: "512 dvd E"
    and r: "find (\<lambda>e. en_path e = dn) (rev (without name es)) = Some r" "en_link r = None"
  shows "scan d E es (E + 512 * k) (without name es @ [link_entry name dn r E k])"
proof -
  let ?h = "link_header name dn"
  have "header_next E k ?h = E + 512 * k"
    by (simp add: header_next_aligned [OF E] link_header_def make_header_def)
  moreover have "link_at E k ?h dn r = link_entry name dn r E k" "th_name ?h = name" "th_link ?h = Some dn"
    by (simp_all add: link_at_def link_entry_def link_header_def make_header_def)
  moreover have "find_real_entry (without name es) dn = Some (Some r)"
    by (rule find_regular [OF r])
  ultimately show ?thesis
    using scan.link [OF h fair link_no_padding [OF dn], of dn es r "E + 512 * k" "without name es @ [link_entry name dn r E k]"]
      scan.stop by simp
qed

lemma scan_new:
  assumes l: "new_layout d F es es' name (data_name hash) n" and F: "512 dvd F" and hash: "hex_text hash" and n: "n < 2 ^ 62"
    and name: "0 \<notin> set name" "length name \<le> 512" "name \<noteq> data_name hash" and new: "data_name hash \<notin> en_path ` set es"
  obtains q where "scan d F es q es'" "ends_at d q" "\<exists>xs r E k. es' = xs @ [link_entry name (data_name hash) r E k] \<and> 512 dvd E \<and> q = E + 512 * k"
proof -
  let ?dn = "data_name hash"
  obtain i P where P: "P = F + 512 * Suc i" "512 dvd P" and p: "pads d F i" "holds_header d (F + 512 * i) (make_header ?dn n) 1"
    "holds_header d (blocks_end P n) (link_header name ?dn) (header_blocks name)" "ends_at d (blocks_end P n + 512 * header_blocks name)"
    "es' = filter (\<lambda>e. en_path e \<noteq> name) es @ [data_entry ?dn P n, link_entry name ?dn (data_entry ?dn P n) (blocks_end P n) (header_blocks name)]"
    using l unfolding new_layout_def Let_def by blast
  let ?D = "data_entry ?dn P n" and ?E = "blocks_end P n" and ?h = "make_header ?dn n"
  have E: "512 dvd ?E"
    using P(2) by (simp add: blocks_end_def)
  have "scan d F es (F + 512 * i) es"
    by (rule scan_pads [OF p(1) F])
  moreover have "scan d (F + 512 * i) es ?E (es @ [?D])"
  proof -
    have "header_next (F + 512 * i) 1 ?h = ?E"
      using P F by (subst header_next_aligned) (simp_all add: blocks_end_def make_header_def)
    moreover have "regular_at (F + 512 * i) 1 ?h = ?D" "th_name ?h = ?dn" "th_link ?h = None"
      using P(1) by (simp_all add: regular_at_def data_entry_def make_header_def)
    moreover have "without ?dn es = es"
      unfolding without_def by (rule filter_True) (use new in \<open>metis imageI\<close>)
    ultimately show ?thesis
      using scan.regular [OF p(2) data_fair [OF hash n] data_no_padding [OF hash], of es ?E "es @ [?D]"] scan.stop by simp
  qed
  moreover have "scan d ?E (es @ [?D]) (?E + 512 * header_blocks name) (without name (es @ [?D]) @ [link_entry name ?dn ?D ?E (header_blocks name)])"
    using name(3) by (intro scan_link [OF p(3) link_fair [OF hash name(1,2)] _ E]) (simp_all add: hex_fair [OF hash] without_def data_entry_def)
  moreover have es': "without name (es @ [?D]) @ [link_entry name ?dn ?D ?E (header_blocks name)] = es'"
    using name(3) by (simp add: p(5) without_def data_entry_def)
  ultimately have "scan d F es (?E + 512 * header_blocks name) es'"
    by (metis scan_trans)
  then show thesis
    using p(4) E es' by (intro that) blast+
qed

lemma scan_old:
  assumes l: "old_layout d F es es' name (data_name hash)" and F: "512 dvd F" and hash: "hex_text hash"
    and name: "0 \<notin> set name" "length name \<le> 512" and new: "\<not> list_ex (\<lambda>e. en_path e = name) es"
  obtains q where "scan d F es q es'" "ends_at d q" "\<exists>xs r E k. es' = xs @ [link_entry name (data_name hash) r E k] \<and> 512 dvd E \<and> q = E + 512 * k"
proof -
  let ?dn = "data_name hash" and ?k = "header_blocks name"
  obtain i r where p: "pads d F i" "find (\<lambda>e. en_path e = ?dn) (rev es) = Some r" "en_link r = None"
    "holds_header d (F + 512 * i) (link_header name ?dn) ?k" "ends_at d (F + 512 * i + 512 * ?k)"
    "es' = es @ [link_entry name ?dn r (F + 512 * i) ?k]"
    using l new unfolding old_layout_def Let_def by (simp only: if_False) blast
  have same: "without name es = es"
    using new by (auto simp: without_def list_ex_iff intro!: filter_True)
  have E: "512 dvd F + 512 * i"
    using F by simp
  have "scan d (F + 512 * i) es (F + 512 * i + 512 * ?k) (without name es @ [link_entry name ?dn r (F + 512 * i) ?k])"
    by (rule scan_link [OF p(4) link_fair [OF hash name] _ E]) (simp_all add: hex_fair [OF hash] same p(2,3))
  then have "scan d F es (F + 512 * i + 512 * ?k) es'"
    using scan_trans [OF scan_pads [OF p(1) F]] by (simp add: same p(6))
  then show thesis
    using p(5,6) E by (intro that) blast+
qed

section \<open>Opening again\<close>

lemma persisted_extend:
  assumes per: "persisted tf" and g: "grows (nat (frontier tf)) (tf_stream tf) (tf_stream tf')"
    and q: "scan (sm_data (tf_stream tf')) (nat (frontier tf)) (tf_entries tf) (nat (frontier tf')) (tf_entries tf')"
    and e: "\<exists>i. pads (sm_data (tf_stream tf')) (nat (frontier tf')) i \<and> ends_at (sm_data (tf_stream tf')) (nat (frontier tf') + 512 * i)"
  shows "persisted tf'"
proof -
  have "scan (sm_data (tf_stream tf)) 0 [] (nat (frontier tf)) (tf_entries tf)"
    using per by (simp add: persisted_def Let_def)
  then have "scan (sm_data (tf_stream tf')) 0 [] (nat (frontier tf)) (tf_entries tf)"
    by (rule scan_same) (use g in \<open>auto simp: grows_def\<close>)
  then have "scan (sm_data (tf_stream tf')) 0 [] (nat (frontier tf')) (tf_entries tf')"
    using q by (rule scan_trans)
  moreover have "length (sm_data (tf_stream tf')) \<le> sm_limit (tf_stream tf')"
    using per g by (simp add: persisted_def grows_def Let_def)
  ultimately show ?thesis
    using e by (simp add: persisted_def Let_def)
qed

text \<open>Opened from any good stream that holds the bytes, wherever its positions are.\<close>

lemma persisted_opens:
  assumes ok: "tar_ok tf" and per: "persisted tf" and s: "sm_ok s" "sm_data s = sm_data (tf_stream tf)"
  obtains tf2 where "open_tar False s = Some (Header tf2)" "tf_entries tf2 = tf_entries tf" "tar_ok tf2"
    "sm_data (tf_stream tf2) = sm_data s" "read_file tf2 = read_file tf"
proof -
  let ?F = "nat (frontier tf)"
  obtain i where p: "scan (sm_data s) 0 [] ?F (tf_entries tf)" "pads (sm_data s) ?F i" "ends_at (sm_data s) (?F + 512 * i)"
    using per s(2) unfolding persisted_def Let_def by auto
  have F: "512 dvd ?F"
    using ok by (simp add: tar_ok_def)
  have scan: "scan (sm_data s) 0 [] (?F + 512 * i) (tf_entries tf)"
    by (rule scan_trans [OF p(1) scan_pads [OF p(2) F]])
  define tf0 where "tf0 = \<lparr>tf_stream = s\<lparr>sm_get := 0\<rparr>, tf_entries = [], tf_writing = False, tf_padding = 0, tf_mapped = False\<rparr>"
  have "open_tar False s = read_entries (reading_at tf0 0 [])"
    using s(1) by (simp add: open_tar_def seekg_good reading_at_def tf0_def)
  also have "\<dots> = read_entries (reading_at tf0 (?F + 512 * i) (tf_entries tf))"
    using s(1) by (intro scan_reads [OF scan]) (simp_all add: tf0_def)
  finally have "open_tar False s = read_entries (reading_at tf0 (?F + 512 * i) (tf_entries tf))" .
  moreover obtain s1 where s1: "read_entries (reading_at tf0 (?F + 512 * i) (tf_entries tf)) =
      Some (Header (tf0\<lparr>tf_stream := s1, tf_entries := tf_entries tf\<rparr>))" "sm_ok s1" "sm_data s1 = sm_data s"
    using end_entries [of tf0 "?F + 512 * i" "tf_entries tf" thesis] s(1) p(3) by (simp add: tf0_def)
  ultimately have op: "open_tar False s = Some (Header (tf0\<lparr>tf_stream := s1, tf_entries := tf_entries tf\<rparr>))"
    by simp
  let ?t = "tf0\<lparr>tf_stream := s1, tf_entries := tf_entries tf\<rparr>"
  have fr: "frontier ?t = frontier tf"
    by (simp add: frontier_def)
  have t: "tar_ok ?t"
    using ok s1(2,3) s(2) unfolding tar_ok_def fr by (simp add: tf0_def)
  have "read_file ?t = read_file tf"
    by (simp add: fun_eq_iff read_file_ok [OF ok] read_file_ok [OF t] entry_bytes_def [abs_def] s1(3) s(2))
  then show thesis
    using op t s1(3) by (intro that [of ?t]) simp_all
qed

text \<open>A write keeps the file readable, whether its data is new or not.\<close>

lemma write_persists:
  assumes ok: "tar_ok tf" and per: "persisted tf" and room: "room_for (space_for name content) tf" and hash: "hex_text (md5 content)"
    and name: "0 \<notin> set name" "length name \<le> 512" "name \<noteq> data_name (md5 content)"
    and data: "has_file tf (data_name (md5 content)) \<Longrightarrow> data_there tf (data_name (md5 content))"
  shows "\<exists>tf'. write_file md5 now tf name content = Some tf' \<and> tar_ok tf' \<and> persisted tf'"
proof -
  let ?dn = "data_name (md5 content)" and ?F = "nat (frontier tf)"
  have F: "512 dvd ?F" and len: "length (md5 content) < 90"
    using ok hash by (simp_all add: tar_ok_def hex_text_def)
  have small: "length content < 2 ^ 62"
    using room by (simp add: room_for_def space_for_def)
  show ?thesis
  proof (cases "has_file tf ?dn")
    case False
    obtain tf' where t: "write_file md5 now tf name content = Some tf'" "tar_ok tf'" "grows ?F (tf_stream tf) (tf_stream tf')"
      "new_layout (sm_data (tf_stream tf')) ?F (tf_entries tf) (tf_entries tf') name ?dn (length content)"
      using write_new_file [where ?md5.0 = md5 and now = now, OF ok room len name(3) False] unfolding wrote_def by blast
    have "?dn \<notin> en_path ` set (tf_entries tf)"
      using False by (auto simp: has_file_def list_ex_iff)
    then obtain q where q: "scan (sm_data (tf_stream tf')) ?F (tf_entries tf) q (tf_entries tf')" "ends_at (sm_data (tf_stream tf')) q"
      "\<exists>xs r E k. tf_entries tf' = xs @ [link_entry name ?dn r E k] \<and> 512 dvd E \<and> q = E + 512 * k"
      by (rule scan_new [OF t(4) F hash small name])
    then have "nat (frontier tf') = q"
      using link_frontier by blast
    then have "persisted tf'"
      using q by (intro persisted_extend [OF per t(3)]) (auto intro: exI [of _ 0])
    then show ?thesis
      using t by blast
  next
    case True
    obtain tf' where t: "write_file md5 now tf name content = Some tf'" "tar_ok tf'" "grows ?F (tf_stream tf) (tf_stream tf')"
      "old_layout (sm_data (tf_stream tf')) ?F (tf_entries tf) (tf_entries tf') name ?dn"
      using write_old_data [where ?md5.0 = md5 and now = now, OF ok room len name(3) data [OF True]] by blast
    have "persisted tf'"
    proof (cases "list_ex (\<lambda>e. en_path e = name) (tf_entries tf)")
      case True
      then obtain i where i: "pads (sm_data (tf_stream tf')) ?F i" "tf_entries tf' = tf_entries tf" "ends_at (sm_data (tf_stream tf')) (?F + 512 * i)"
        using t(4) unfolding old_layout_def Let_def by (simp only: if_True) blast
      then have "nat (frontier tf') = ?F"
        by (simp add: frontier_def)
      then show ?thesis
        using i scan.stop by (intro persisted_extend [OF per t(3)]) auto
    next
      case False
      obtain q where q: "scan (sm_data (tf_stream tf')) ?F (tf_entries tf) q (tf_entries tf')" "ends_at (sm_data (tf_stream tf')) q"
        "\<exists>xs r E k. tf_entries tf' = xs @ [link_entry name ?dn r E k] \<and> 512 dvd E \<and> q = E + 512 * k"
        by (rule scan_old [OF t(4) F hash name(1,2) False])
      then have "nat (frontier tf') = q"
        using link_frontier by blast
      then show ?thesis
        using q by (intro persisted_extend [OF per t(3)]) (auto intro: exI [of _ 0])
    qed
    then show ?thesis
      using t by blast
  qed
qed

end
