(* ===== verification/Tar_Properties.thy ===== *)
theory Tar_Properties
  imports Tar_Reopen
begin

text \<open>
  The properties of the tar file of compiled models: a header read back, a file written and
  read back, a file whose data is already there, a file opened again, and links that form a
  cycle; and that padding never ends on a stream that is not good.
\<close>

section \<open>Calls that do not return\<close>

text \<open>Names each of which is a link to one of them: the names of cycles and names that lead to one.\<close>

definition link_cycle :: "entry list \<Rightarrow> byte list set \<Rightarrow> bool" where
  "link_cycle es C \<longleftrightarrow> (\<forall>q\<in>C. \<exists>e l. find (\<lambda>e. en_path e = q) (rev es) = Some e \<and> en_link e = Some l \<and> l \<in> C)"

lemma cycle_diverges:
  assumes "find_real_entry es p = Some y" and "link_cycle es C"
  shows "p \<notin> C"
proof (rule find_real_entry.raw_induct [OF _ assms(1), where P = "\<lambda>es p _. \<forall>C. link_cycle es C \<longrightarrow> p \<notin> C", THEN spec, THEN mp, OF _ assms(2)])
  fix f :: "entry list \<Rightarrow> byte list \<Rightarrow> entry option option" and es p y
  assume IH: "\<And>es p y. f es p = Some y \<Longrightarrow> \<forall>C. link_cycle es C \<longrightarrow> p \<notin> C"
    and step: "(case find (\<lambda>e. en_path e = p) (rev es) of None \<Rightarrow> Some None
      | Some e \<Rightarrow> (case en_link e of None \<Rightarrow> Some (Some e) | Some l \<Rightarrow> f es l)) = Some y"
  show "\<forall>C. link_cycle es C \<longrightarrow> p \<notin> C"
  proof (intro allI impI notI)
    fix C
    assume C: "link_cycle es C" and "p \<in> C"
    then obtain e l where "find (\<lambda>e. en_path e = p) (rev es) = Some e" "en_link e = Some l" "l \<in> C"
      unfolding link_cycle_def by blast
    then show False
      using step IH [of es l y] C by simp
  qed
qed

lemma diverges_in_cycle: "link_cycle es {p. find_real_entry es p = None}"
  unfolding link_cycle_def
proof (intro ballI)
  fix q
  assume "q \<in> {p. find_real_entry es p = None}"
  then have "find_real_entry es q = None"
    by simp
  then show "\<exists>e l. find (\<lambda>e. en_path e = q) (rev es) = Some e \<and> en_link e = Some l \<and> l \<in> {p. find_real_entry es p = None}"
    by (subst (asm) find_real_entry.simps) (auto split: option.splits)
qed

text \<open>Padding a stream that is not good, whose position is \<open>-1\<close>.\<close>

lemma padding_written:
  obtains block where "add_padding_block now s k = Some (stream_write block s)"
  by (simp add: add_padding_block_def write_header_def construct_header_def make_header_def Let_def)

lemma align_good:
  assumes "align_4k now s k = Some y"
  shows "sm_ok s"
proof (rule align_4k.raw_induct [OF _ assms, where P = "\<lambda>_ s _ _. sm_ok s"])
  fix f :: "nat \<Rightarrow> stream \<Rightarrow> nat \<Rightarrow> (stream \<times> nat) option" and now s k y
  assume IH: "\<And>now s k y. f now s k = Some y \<Longrightarrow> sm_ok s"
    and step: "(if tell s mod 4096 = 0 then Some (s, k)
      else case add_padding_block now s k of None \<Rightarrow> None | Some s1 \<Rightarrow> f now s1 (k + 1)) = Some y"
  obtain block where b: "add_padding_block now s k = Some (stream_write block s)"
    by (rule padding_written)
  show "sm_ok s"
  proof (rule ccontr)
    assume c: "\<not> sm_ok s"
    then have "f now s (k + 1) = Some y"
      using step b by (simp add: tell_def stream_write_def)
    then show False
      using IH c by blast
  qed
qed

text \<open>The loop never ends, while each block is written by a call that returns.\<close>

theorem padding_of_failed_stream: "\<not> sm_ok s \<Longrightarrow> add_padding_block now s k = Some s \<and> align_4k now s k = None"
proof
  assume s: "\<not> sm_ok s"
  obtain block where "add_padding_block now s k = Some (stream_write block s)"
    by (rule padding_written)
  then show "add_padding_block now s k = Some s"
    using s by (simp add: stream_write_def)
  show "align_4k now s k = None"
    using align_good [of now s k] s by (cases "align_4k now s k") simp_all
qed

section \<open>Properties\<close>

text \<open>The header of example files, and an example file: empty, on a device of 1 MiB.\<close>

definition example_stream :: stream where
  "example_stream = \<lparr>sm_data = [], sm_pos = 0, sm_get = 0, sm_ok = True, sm_limit = 2 ^ 20\<rparr>"

definition example_tar :: tar_file where
  "example_tar = \<lparr>tf_stream = example_stream, tf_entries = [], tf_writing = False, tf_padding = 0, tf_mapped = False\<rparr>"

definition example_md5 :: "byte list \<Rightarrow> byte list" where
  "example_md5 bs = [word_of_nat (97 + length bs)]"

lemma example_tar_ok: "tar_ok example_tar"
  by (simp add: example_tar_def example_stream_def tar_ok_def frontier_def)

lemma example_room: "space_for name content \<le> 2 ^ 16 \<Longrightarrow> room_for (space_for name content) example_tar"
  by (simp add: example_tar_def example_stream_def room_for_def frontier_def)

lemma example_header:
  assumes "length name \<le> 1000"
  obtains h s' where "write_header 5 (make_header name 7) example_stream = Some (h, s', True)"
proof -
  have "header_blocks name \<le> 4"
    using assms name_blocks_bounds(2) [of name] by (simp add: header_blocks_def)
  then show thesis
    using write_header_ok [of example_stream "make_header name 7" 5 thesis] that
    by (simp add: short_link_def make_header_def example_stream_def)
qed

text \<open>A file that holds empty data, under the name of its sum, and a file \<open>m\<close> of one byte.\<close>

definition example_old :: tar_file where
  "example_old = example_tar\<lparr>tf_stream := example_stream\<lparr>sm_data := replicate 1024 1\<rparr>,
     tf_entries := [data_entry (data_name [97]) 512 0, data_entry [109] 512 1]\<rparr>"

lemma example_old_facts:
  "tar_ok example_old" "data_there example_old (data_name (example_md5 []))"
  "has_file example_old [109]" "\<not> has_file example_old [110]" "length (example_md5 []) < 90"
  "room_for (space_for [109] []) example_old" "room_for (space_for [110] []) example_old"
  "[109] \<noteq> data_name (example_md5 [])" "[110] \<noteq> data_name (example_md5 [])"
  by (simp_all add: example_old_def example_tar_def example_stream_def tar_ok_def frontier_def append_pos_def is_symlink_def
      data_entry_def entry_ok_def data_there_def data_name_def text_bytes_def example_md5_def has_file_def room_for_def space_for_def
      header_blocks_def)

lemma example_old_read: "read_file example_old [109] = Some [1]"
  by (simp add: read_file_ok example_old_facts) (simp add: example_old_def data_entry_def data_name_def text_bytes_def entry_bytes_def field_def)

text \<open>C35: \<open>TarHeader\<close>: a header that was written, with a name of at most 512 bytes, is read back by
  any good stream that holds the bytes and stands where the header was written: the name, the
  size, the link and the positions of its blocks and its data are those of the writer (the time
  is not read), the size in octal or base 256, and the reader stands at the first block behind
  the data.  A longer name is written in blocks of its own, all of them, but read into one
  block's buffer: the copy runs past it.  The end of the data, rounded up, is below 2^63, as the
  positions are a signed \<open>std::streamoff\<close> in the code.\<close>

theorem header_roundtrip:
  assumes "write_header now h0 s = Some (h, s', True)" and "0 \<notin> set (th_name h0)" and "length (th_name h0) < 2 ^ 32"
    and "sm_pos s' + th_size h0 + 511 < 2 ^ 63" and "link_ok (th_link h0)"
    and "sm_ok r" and "sm_data r = sm_data s'" and "sm_get r = sm_pos s"
  shows "if length (th_name h0) \<le> 512
    then read_header r = (r\<lparr>sm_get := (sm_pos s' + th_size h0 + 511) div 512 * 512\<rparr>,
      Header (h0\<lparr>th_mtime := 0, th_block_begin := int (sm_pos s), th_block_end := int (sm_pos s'),
        th_data_begin := int (sm_pos s'), th_data_end := int (sm_pos s' + th_size h0)\<rparr>))
    else snd (read_header r) = Overrun"
proof -
  have r: "reads_from s' (sm_pos s) r"
    using assms(6-8) by (simp add: reads_from_def)
  have sz: "th_size h0 < 2 ^ 64" "stream_off (th_size h0) = int (th_size h0)"
    using assms(4) by (simp_all add: small_offset)
  note H = written_header [OF assms(1), unfolded sz(2)]
  have e: "round_up_to_block_size (th_data_end h) = int ((sm_pos s' + th_size h0 + 511) div 512 * 512)"
    unfolding H round_up_to_block_size_def by (simp add: zdiv_int)
  have "read_header r = (seekg (round_up_to_block_size (th_data_end h)) (r\<lparr>sm_get := sm_pos s'\<rparr>), Header (h\<lparr>th_mtime := 0\<rparr>))"
    if "length (th_name h0) \<le> 512"
    using read_short [OF assms(1,2) _ sz(1) assms(5) r] read_long(1) [OF assms(1) _ assms(3) sz(1) assms(5) r that] by linarith
  moreover have "snd (read_header r) = Overrun" if "\<not> length (th_name h0) \<le> 512"
    using read_long(2) [OF assms(1) _ assms(3) sz(1) assms(5) r] that by linarith
  ultimately show ?thesis
    using assms(6) unfolding e by (simp add: seekg_def H)
qed

theorem header_roundtrip_witness:
  "(\<exists>(s' :: stream) r. read_header r = (r\<lparr>sm_get := (sm_pos s' + 7 + 511) div 512 * 512\<rparr>,
      Header ((make_header [97] 7)\<lparr>th_mtime := 0, th_block_begin := 0, th_block_end := int (sm_pos s'),
        th_data_begin := int (sm_pos s'), th_data_end := int (sm_pos s' + 7)\<rparr>))) \<and>
   (\<exists>r. snd (read_header r) = Overrun)"
proof
  obtain h s' where w: "write_header 5 (make_header [97] 7) example_stream = Some (h, s', True)"
    by (rule example_header [of "[97]"]) simp_all
  note p = write_header_within [OF w]
  have "read_header (s'\<lparr>sm_get := 0\<rparr>) = (s'\<lparr>sm_get := 0\<rparr>\<lparr>sm_get := (sm_pos s' + 7 + 511) div 512 * 512\<rparr>,
      Header ((make_header [97] 7)\<lparr>th_mtime := 0, th_block_begin := 0, th_block_end := int (sm_pos s'),
        th_data_begin := int (sm_pos s'), th_data_end := int (sm_pos s' + 7)\<rparr>))"
    using header_roundtrip [OF w, of "s'\<lparr>sm_get := 0\<rparr>"] write_header_good [OF w] p by (simp add: make_header_def link_ok_def example_stream_def)
  then show "\<exists>(s' :: stream) r. read_header r = (r\<lparr>sm_get := (sm_pos s' + 7 + 511) div 512 * 512\<rparr>,
      Header ((make_header [97] 7)\<lparr>th_mtime := 0, th_block_begin := 0, th_block_end := int (sm_pos s'),
        th_data_begin := int (sm_pos s'), th_data_end := int (sm_pos s' + 7)\<rparr>))"
    by (intro exI)
  obtain h' t where l: "write_header 5 (make_header (replicate 600 97) 7) example_stream = Some (h', t, True)"
    by (rule example_header [of "replicate 600 97"]) simp_all
  note q = write_header_within [OF l]
  have "snd (read_header (t\<lparr>sm_get := 0\<rparr>)) = Overrun"
    using header_roundtrip [OF l, of "t\<lparr>sm_get := 0\<rparr>"] write_header_good [OF l] q by (simp add: make_header_def link_ok_def example_stream_def)
  then show "\<exists>r. snd (read_header r) = Overrun"
    by blast
qed

text \<open>C36: The tar file refines a map from names to contents: a file of new data is found under its
  name and under \<open>_data/<md5>\<close> after the write, whatever the name held before, every other file
  reads as before, and the file is valid again.\<close>

theorem write_refines_update:
  assumes "tar_ok tf" and "room_for (space_for name content) tf" and "length (md5 content) < 90"
    and "name \<noteq> data_name (md5 content)" and "\<not> has_file tf (data_name (md5 content))"
  shows "\<exists>tf'. write_file md5 now tf name content = Some tf' \<and> tar_ok tf' \<and>
    read_file tf' = (read_file tf)(name \<mapsto> content, data_name (md5 content) \<mapsto> content)"
proof -
  obtain tf' where tf': "write_file md5 now tf name content = Some tf'" "wrote name (data_name (md5 content)) content tf tf'"
    using write_new_file [where ?md5.0 = md5 and now = now, OF assms] by blast
  have "read_file tf' = (read_file tf)(name \<mapsto> content, data_name (md5 content) \<mapsto> content)"
    using tf'(2) by (simp add: wrote_def fun_eq_iff)
  then show ?thesis
    using tf' by (simp add: wrote_def)
qed

theorem write_refines_update_witness:
  "\<exists>tf'. write_file example_md5 5 example_tar [109] [1, 2, 3] = Some tf' \<and> tar_ok tf' \<and>
    read_file tf' = (read_file example_tar)([109] \<mapsto> [1, 2, 3], data_name [100] \<mapsto> [1, 2, 3])"
  using write_refines_update [OF example_tar_ok example_room, of "[109]" "[1, 2, 3]" example_md5 5]
  by (simp add: space_for_def header_blocks_def example_md5_def data_name_def text_bytes_def has_file_def example_tar_def)

text \<open>C37: A write whose data is in the file already: a new name becomes a link to that data, and the
  file is what it was otherwise; for a name that exists nothing changes, so that a write of
  data some file already has to the name of a file with other data is lost.\<close>

theorem write_known_data:
  assumes "tar_ok tf" and "room_for (space_for name content) tf" and "length (md5 content) < 90"
    and "name \<noteq> data_name (md5 content)" and "data_there tf (data_name (md5 content))"
  shows "\<exists>tf'. write_file md5 now tf name content = Some tf' \<and> tar_ok tf' \<and>
    read_file tf' = (if has_file tf name then read_file tf else (read_file tf)(name := read_file tf (data_name (md5 content))))"
proof -
  obtain tf' where tf': "write_file md5 now tf name content = Some tf'" "tar_ok tf'"
    and r: "read_file tf' p = read_file tf (if p = name \<and> \<not> has_file tf name then data_name (md5 content) else p)" for p
    using write_old_data [where ?md5.0 = md5 and now = now, OF assms] by blast
  have "read_file tf' = (if has_file tf name then read_file tf else (read_file tf)(name := read_file tf (data_name (md5 content))))"
    by (simp add: r fun_eq_iff)
  then show ?thesis
    using tf' by blast
qed

theorem write_known_data_witness:
  "(\<exists>tf'. write_file example_md5 5 example_old [109] [] = Some tf' \<and> read_file tf' [109] = Some [1]) \<and>
   (\<exists>tf'. write_file example_md5 5 example_old [110] [] = Some tf' \<and>
     read_file tf' = (read_file example_old)([110] := read_file example_old (data_name (example_md5 []))))"
proof
  note E = example_old_facts
  show "\<exists>tf'. write_file example_md5 5 example_old [109] [] = Some tf' \<and> read_file tf' [109] = Some [1]"
    using write_known_data [where ?md5.0 = example_md5 and now = 5, OF E(1,6,5,8,2)] E(3) example_old_read by auto
  show "\<exists>tf'. write_file example_md5 5 example_old [110] [] = Some tf' \<and>
     read_file tf' = (read_file example_old)([110] := read_file example_old (data_name (example_md5 [])))"
    using write_known_data [where ?md5.0 = example_md5 and now = 5, OF E(1,7,5,9,2)] E(4) by auto
qed

text \<open>C38: A model file that is written and opened again is the same file: after a write to a file
  that can be opened again, with room for it, of a name of at most 512 bytes without a zero that
  is not the data's own name, opening the bytes from any stream finds the very entries the
  writer keeps, through the padding in between, and each name reads as it did in the writer; and
  the file is again one that can be written and opened.  The sums are hexadecimal, so no name of
  data looks like padding, and a file that has the data's name has data there.\<close>

theorem write_then_open:
  assumes "tar_ok tf" and "persisted tf" and "room_for (space_for name content) tf" and "hex_text (md5 content)"
    and "0 \<notin> set name" and "length name \<le> 512" and "name \<noteq> data_name (md5 content)"
    and "has_file tf (data_name (md5 content)) \<longrightarrow> data_there tf (data_name (md5 content))"
  shows "\<exists>tf' opened. write_file md5 now tf name content = Some tf' \<and> tar_ok tf' \<and> persisted tf' \<and>
    open_tar False \<lparr>sm_data = sm_data (tf_stream tf'), sm_pos = p, sm_get = g, sm_ok = True, sm_limit = l\<rparr> = Some (Header opened) \<and>
    tar_ok opened \<and> tf_entries opened = tf_entries tf' \<and> sm_data (tf_stream opened) = sm_data (tf_stream tf') \<and>
    read_file opened = read_file tf'"
proof -
  let ?s = "\<lambda>tf'. \<lparr>sm_data = sm_data (tf_stream tf'), sm_pos = p, sm_get = g, sm_ok = True, sm_limit = l\<rparr>"
  obtain tf' where t: "write_file md5 now tf name content = Some tf'" "tar_ok tf'" "persisted tf'"
    using write_persists [where ?md5.0 = md5 and now = now, OF assms(1-7)] assms(8) by blast
  then show ?thesis
    using persisted_opens [OF t(2,3), of "?s tf'"] by (metis stream.select_convs(1,4))
qed

theorem write_then_open_witness:
  "\<exists>tf' opened. write_file example_md5 5 example_tar [109] [1, 2, 3] = Some tf' \<and>
    open_tar False \<lparr>sm_data = sm_data (tf_stream tf'), sm_pos = 0, sm_get = 0, sm_ok = True, sm_limit = 0\<rparr> = Some (Header opened) \<and>
    tf_entries opened = tf_entries tf' \<and> read_file opened = read_file tf'"
proof -
  have "persisted example_tar"
    using scan.stop by (simp add: persisted_def example_tar_def example_stream_def frontier_def Let_def ends_at_def exI [of _ 0])
  moreover have "room_for (space_for [109] [1, 2, 3]) example_tar"
    by (rule example_room) (simp add: space_for_def header_blocks_def)
  ultimately show ?thesis
    using write_then_open [OF example_tar_ok, of "[109]" "[1, 2, 3]" example_md5 5 0 0 0]
    by (simp add: hex_text_def example_md5_def data_name_bytes has_file_def example_tar_def) blast
qed

text \<open>C39: \<open>find_real_entry\<close> does not return exactly for a name in a cycle of links or one that leads
  to such a cycle, for instance a link to itself, which a file may hold.\<close>

theorem links_return_unless_cyclic: "find_real_entry es p = None \<longleftrightarrow> (\<exists>C. p \<in> C \<and> link_cycle es C)"
proof
  assume "find_real_entry es p = None"
  then show "\<exists>C. p \<in> C \<and> link_cycle es C"
    using diverges_in_cycle [of es] by (intro exI [of _ "{p. find_real_entry es p = None}"]) simp
next
  assume "\<exists>C. p \<in> C \<and> link_cycle es C"
  then obtain C where C: "p \<in> C" "link_cycle es C"
    by blast
  show "find_real_entry es p = None"
  proof (rule ccontr)
    assume "find_real_entry es p \<noteq> None"
    then obtain y where "find_real_entry es p = Some y"
      by blast
    from cycle_diverges [OF this C(2)] C(1) show False
      by simp
  qed
qed

text \<open>A link to itself.\<close>

definition example_loop :: entry where
  "example_loop = \<lparr>en_path = [97], en_link = Some [97], en_data_begin = -1, en_data_end = -1, en_block_begin = 0, en_block_end = 512\<rparr>"

theorem links_return_unless_cyclic_witness: "find_real_entry [example_loop] [97] = None"
proof -
  have "link_cycle [example_loop] {[97]}"
    by (simp add: link_cycle_def example_loop_def)
  then show ?thesis
    unfolding links_return_unless_cyclic by (intro exI [of _ "{[97]}"]) simp
qed

end
